(* ===== verification/Prelude.thy ===== *)
theory Prelude
  imports Main "HOL-Library.Word" "HOL-Library.List_Lexorder" "HOL-Library.Sublist"
begin

text \<open>The ground the components of the development stand on: the machine
integers and byte strings of the program, its results with an error type, the
big-endian bytes of an integer (Rust's \<^verbatim>\<open>to_be_bytes\<close> and
\<^verbatim>\<open>from_be_bytes\<close>), UTF-8 validity of the bytes of a string, and the
generic facts about the byte order of concatenations that the key encodings
use.  The order on byte strings is the library's lexicographic order of lists,
which is the order of \<^verbatim>\<open>Vec<u8>\<close>.\<close>

named_theorems put_simps \<open>what a writer appends\<close>
named_theorems take_simps \<open>what a reader takes from the bytes before it\<close>
named_theorems order_simps \<open>the byte order of encoded components\<close>

section \<open>Machine integers and byte strings\<close>

type_synonym u8 = "8 word"
type_synonym u16 = "16 word"
type_synonym u32 = "32 word"
type_synonym u64 = "64 word"
type_synonym bytes = "u8 list"

text \<open>Two's complement: an \<^verbatim>\<open>i64\<close> is a 64-bit word read with
\<^term>\<open>sint\<close>.\<close>

type_synonym i64 = "64 word"

section \<open>Results\<close>

text \<open>A fallible operation returns the sum of its error and its value; the
question-mark operator is \<^term>\<open>bindR\<close>.\<close>

definition bindR :: "'e + 'a \<Rightarrow> ('a \<Rightarrow> 'e + 'b) \<Rightarrow> 'e + 'b" where
  "bindR r f = (case r of Inl e \<Rightarrow> Inl e | Inr a \<Rightarrow> f a)"

lemma bindR_simps [simp]:
  "bindR (Inl e) f = Inl e"
  "bindR (Inr a) f = f a"
  by (simp_all add: bindR_def)

lemma bindR_eq_Inr:
  "bindR r f = Inr b \<longleftrightarrow> (\<exists>a. r = Inr a \<and> f a = Inr b)"
  by (cases r) auto

lemma bindR_eq_InrE [elim]:
  assumes "bindR r f = Inr b"
  obtains a where "r = Inr a" "f a = Inr b"
  using assms by (auto simp: bindR_eq_Inr)

lemma bindR_assoc: "bindR (bindR r f) g = bindR r (\<lambda>a. bindR (f a) g)"
  by (cases r) simp_all

section \<open>Lists\<close>

lemma in_set_dropE:
  assumes "x \<in> set (drop n xs)"
  obtains i where "n + i < length xs" "x = xs ! (n + i)"
proof -
  obtain i where i: "i < length (drop n xs)" "drop n xs ! i = x"
    using assms by (metis in_set_conv_nth)
  then have "n + i < length xs" by simp
  then show ?thesis using i that [of i] by simp
qed

lemma assoc_list_eqI:
  assumes "map fst xs = map fst ys" "distinct (map fst xs)" "set xs = set ys"
  shows "xs = ys"
proof (rule nth_equalityI)
  show len: "length xs = length ys" using assms(1) by (metis length_map)
  fix i assume i: "i < length xs"
  then have "xs ! i \<in> set ys" using assms(3) by (metis nth_mem)
  then obtain j where j: "j < length ys" "xs ! i = ys ! j" by (metis in_set_conv_nth)
  have "map fst xs ! i = map fst ys ! j" using i j by simp
  then have "map fst xs ! i = map fst xs ! j" by (simp only: assms(1))
  then have "i = j"
    using nth_eq_iff_index_eq [OF assms(2), of i j] i j len by (simp only: length_map)
  then show "xs ! i = ys ! i" using j by simp
qed

lemma map_of_update_nth:
  assumes "i < length xs" "distinct (map fst xs)"
  shows "map_of (xs[i := (fst (xs ! i), c)]) = (map_of xs)(fst (xs ! i) \<mapsto> c)"
  using assms
proof (induction xs arbitrary: i)
  case (Cons x xs)
  show ?case
  proof (cases i)
    case (Suc j)
    then have "fst (xs ! j) \<noteq> fst x" using Cons.prems by (metis Suc_less_SucD distinct.simps(2)
          image_eqI length_Cons list.set_map list.simps(9) nth_mem)
    then show ?thesis using Suc Cons by (auto simp: fun_eq_iff)
  qed (auto simp: fun_eq_iff)
qed simp

section \<open>Byte order of concatenations\<close>

lemma append_less_same_length [order_simps]:
  fixes a b s t :: "'a::linorder list"
  assumes "length a = length b"
  shows "a @ s < b @ t \<longleftrightarrow> a < b \<or> a = b \<and> s < t"
  using assms by (induction a b rule: list_induct2) auto

lemma append_less_cancel [simp]:
  fixes a s t :: "'a::linorder list"
  shows "a @ s < a @ t \<longleftrightarrow> s < t"
  by (induction a) auto

lemma less_append_snoc:
  fixes a :: "'a::linorder list"
  shows "a < a @ [x]"
  by (induction a) auto

lemma prefix_le:
  fixes a b :: "'a::linorder list"
  assumes "prefix a b"
  shows "a \<le> b"
proof -
  obtain c where "b = a @ c" using assms by (auto elim: prefixE)
  then show ?thesis by (induction a arbitrary: b) auto
qed

section \<open>Big-endian bytes\<close>

text \<open>The last \<open>n\<close> bytes of a natural number, most significant first.\<close>

primrec be_bytes :: "nat \<Rightarrow> nat \<Rightarrow> bytes" where
  "be_bytes 0 v = []"
| "be_bytes (Suc n) v = word_of_nat (v div 256 ^ n) # be_bytes n (v mod 256 ^ n)"

primrec be_value :: "bytes \<Rightarrow> nat" where
  "be_value [] = 0"
| "be_value (b # bs) = unat b * 256 ^ length bs + be_value bs"

lemma length_be_bytes [simp]: "length (be_bytes n v) = n"
  by (induction n arbitrary: v) simp_all

lemma unat_u8_less: "unat (b :: u8) < 256"
  using unsigned_less [of b] by simp

lemma u8_le_max [simp]: "(b :: u8) \<le> 0xFF"
  using unat_u8_less [of b] by (simp add: word_le_nat_alt)

lemma be_value_less: "be_value bs < 256 ^ length bs"
proof (induction bs)
  case (Cons b bs)
  have "Suc (unat b) \<le> 256" using unat_u8_less [of b] by linarith
  then have "Suc (unat b) * 256 ^ length bs \<le> 256 * 256 ^ length bs"
    by (rule mult_right_mono) simp
  then show ?case using Cons
    unfolding be_value.simps length_Cons power_Suc mult_Suc by linarith
qed simp

lemma unat_of_small_u8: "x < 256 \<Longrightarrow> unat (word_of_nat x :: u8) = x"
  by (simp add: unat_of_nat take_bit_nat_eq_self_iff)

lemma div_small_byte:
  assumes "v < 256 ^ Suc n"
  shows "v div 256 ^ n < (256::nat)"
  using assms by (simp add: less_mult_imp_div_less)

lemma be_value_be_bytes:
  "v < 256 ^ n \<Longrightarrow> be_value (be_bytes n v) = v"
proof (induction n arbitrary: v)
  case (Suc n)
  have "be_value (be_bytes n (v mod 256 ^ n)) = v mod 256 ^ n"
    by (rule Suc.IH) simp
  then show ?case
    using div_small_byte [OF Suc.prems]
    by (simp add: unat_of_small_u8 div_mult_mod_eq)
qed simp

lemma be_bytes_be_value:
  "be_bytes (length bs) (be_value bs) = bs"
proof (induction bs)
  case (Cons b bs)
  have l: "be_value bs < 256 ^ length bs" by (rule be_value_less)
  then have "(unat b * 256 ^ length bs + be_value bs) div 256 ^ length bs = unat b"
    by simp
  moreover have "(unat b * 256 ^ length bs + be_value bs) mod 256 ^ length bs = be_value bs"
    using l by simp
  ultimately show ?case using Cons by simp
qed simp

lemma less_iff_div_mod:
  fixes x y p :: nat
  shows "x < y \<longleftrightarrow> x div p < y div p \<or> x div p = y div p \<and> x mod p < y mod p"
proof (cases "x div p = y div p")
  case True
  then have "x = y div p * p + x mod p" using div_mult_mod_eq [of x p] by simp
  moreover have "y = y div p * p + y mod p" by simp
  ultimately show ?thesis using True by linarith
next
  case False
  have "x div p < y div p \<Longrightarrow> x < y" using div_le_mono [of y x p] by linarith
  moreover have "x < y \<Longrightarrow> x div p \<le> y div p" using div_le_mono [of x y p] by linarith
  ultimately show ?thesis using False by linarith
qed

lemma be_bytes_less:
  assumes "x < 256 ^ n" "y < 256 ^ n"
  shows "be_bytes n x < be_bytes n y \<longleftrightarrow> x < y"
  using assms
proof (induction n arbitrary: x y)
  case (Suc n)
  have m: "x mod 256 ^ n < 256 ^ n" "y mod 256 ^ n < 256 ^ n" by simp_all
  have d: "x div 256 ^ n < 256" "y div 256 ^ n < 256"
    using Suc.prems by (auto intro: div_small_byte simp del: power_Suc)
  have u: "(word_of_nat (x div 256 ^ n) :: u8) < word_of_nat (y div 256 ^ n)
            \<longleftrightarrow> x div 256 ^ n < y div 256 ^ n"
    "(word_of_nat (x div 256 ^ n) :: u8) = word_of_nat (y div 256 ^ n)
            \<longleftrightarrow> x div 256 ^ n = y div 256 ^ n"
    using d by (simp_all add: word_less_nat_alt word_unat_eq_iff
        unat_of_small_u8)
  have "x < y \<longleftrightarrow> x div 256 ^ n < y div 256 ^ n
      \<or> x div 256 ^ n = y div 256 ^ n \<and> x mod 256 ^ n < y mod 256 ^ n"
    by (rule less_iff_div_mod)
  then show ?case using u Suc.IH [OF m] by simp
qed simp

lemma be_bytes_inject:
  assumes "x < 256 ^ n" "y < 256 ^ n"
  shows "be_bytes n x = be_bytes n y \<longleftrightarrow> x = y"
  using assms be_value_be_bytes by metis

text \<open>The widths the program uses.\<close>

definition u16_bytes :: "u16 \<Rightarrow> bytes" where
  "u16_bytes v = be_bytes 2 (unat v)"

definition u32_bytes :: "u32 \<Rightarrow> bytes" where
  "u32_bytes v = be_bytes 4 (unat v)"

definition u64_bytes :: "u64 \<Rightarrow> bytes" where
  "u64_bytes v = be_bytes 8 (unat v)"

definition u16_value :: "bytes \<Rightarrow> u16" where
  "u16_value bs = word_of_nat (be_value bs)"

definition u32_value :: "bytes \<Rightarrow> u32" where
  "u32_value bs = word_of_nat (be_value bs)"

definition u64_value :: "bytes \<Rightarrow> u64" where
  "u64_value bs = word_of_nat (be_value bs)"

lemma length_word_bytes [simp]:
  "length (u16_bytes x) = 2" "length (u32_bytes v) = 4" "length (u64_bytes w) = 8"
  by (simp_all add: u16_bytes_def u32_bytes_def u64_bytes_def)

lemma unat_less_bytes:
  "unat (x :: u16) < 256 ^ 2" "unat (v :: u32) < 256 ^ 4" "unat (w :: u64) < 256 ^ 8"
  using unsigned_less [of x] unsigned_less [of v] unsigned_less [of w] by simp_all

lemma word_bytes_value [simp]:
  "u16_value (u16_bytes x) = x"
  "u32_value (u32_bytes v) = v" "u64_value (u64_bytes w) = w"
  by (simp_all add: u16_bytes_def u32_bytes_def u64_bytes_def u16_value_def u32_value_def
      u64_value_def be_value_be_bytes [OF unat_less_bytes(1)]
      be_value_be_bytes [OF unat_less_bytes(2)] be_value_be_bytes [OF unat_less_bytes(3)])

lemma value_word_bytes:
  "length bs = 2 \<Longrightarrow> u16_bytes (u16_value bs) = bs"
  "length bs = 4 \<Longrightarrow> u32_bytes (u32_value bs) = bs"
  "length bs = 8 \<Longrightarrow> u64_bytes (u64_value bs) = bs"
  using be_value_less [of bs] be_bytes_be_value [of bs]
  by (simp_all add: u16_bytes_def u32_bytes_def u64_bytes_def u16_value_def u32_value_def
      u64_value_def unat_of_nat take_bit_nat_eq_self)

lemma word_bytes_less [order_simps]:
  "u32_bytes v < u32_bytes v' \<longleftrightarrow> v < v'"
  "u64_bytes w < u64_bytes w' \<longleftrightarrow> w < w'"
  unfolding u32_bytes_def u64_bytes_def word_less_nat_alt
  by (rule be_bytes_less; rule unat_less_bytes)+

lemma word_bytes_inject [simp]:
  "u16_bytes x = u16_bytes x' \<longleftrightarrow> x = x'"
  "u32_bytes v = u32_bytes v' \<longleftrightarrow> v = v'"
  "u64_bytes w = u64_bytes w' \<longleftrightarrow> w = w'"
  by (metis word_bytes_value)+

section \<open>UTF-8\<close>

text \<open>The bytes \<^verbatim>\<open>String::from_utf8\<close> accepts: the well-formed sequences of
the Unicode standard, with no overlong form, no surrogate and nothing above
U+10FFFF.\<close>

definition utf8_tail :: "u8 \<Rightarrow> bool" where
  "utf8_tail b \<longleftrightarrow> 0x80 \<le> b \<and> b \<le> 0xBF"

fun utf8_valid :: "bytes \<Rightarrow> bool" where
  "utf8_valid [] = True"
| "utf8_valid (b # bs) =
    (if b < 0x80 then utf8_valid bs
     else if 0xC2 \<le> b \<and> b \<le> 0xDF then
       (case bs of c # r \<Rightarrow> utf8_tail c \<and> utf8_valid r | _ \<Rightarrow> False)
     else if 0xE0 \<le> b \<and> b \<le> 0xEF then
       (case bs of c # d # r \<Rightarrow>
          utf8_tail c \<and> utf8_tail d \<and> (b = 0xE0 \<longrightarrow> 0xA0 \<le> c) \<and> (b = 0xED \<longrightarrow> c \<le> 0x9F)
            \<and> utf8_valid r
        | _ \<Rightarrow> False)
     else if 0xF0 \<le> b \<and> b \<le> 0xF4 then
       (case bs of c # d # e # r \<Rightarrow>
          utf8_tail c \<and> utf8_tail d \<and> utf8_tail e \<and> (b = 0xF0 \<longrightarrow> 0x90 \<le> c)
            \<and> (b = 0xF4 \<longrightarrow> c \<le> 0x8F) \<and> utf8_valid r
        | _ \<Rightarrow> False)
     else False)"

lemma utf8_valid_ascii: "\<forall>b \<in> set bs. b < 0x80 \<Longrightarrow> utf8_valid bs"
  by (induction bs) simp_all

end
