(* ===== verification/Kv_Keys.thy ===== *)
theory Kv_Keys
  imports Prelude
begin

text \<open>The vocabulary of the storage substrate (the crate tessari-kv): its
keyspaces, the categories of its errors, and the key ranges a scan is given
(keyspace.rs, error.rs and key.rs).  Keys and values are opaque byte strings
compared lexicographically.  The main fact is that the range built from a prefix
holds exactly the keys that carry the prefix.\<close>

section \<open>Keyspaces\<close>

type_synonym key = bytes
type_synonym kv_value = bytes

datatype keyspace = META | DATA | INDEX | LOG

definition Keyspace_ALL :: "keyspace list" where
  "Keyspace_ALL = [META, DATA, INDEX, LOG]"

fun keyspace_name :: "keyspace \<Rightarrow> string" where
  "keyspace_name META = ''meta''"
| "keyspace_name DATA = ''data''"
| "keyspace_name INDEX = ''index''"
| "keyspace_name LOG = ''log''"

definition keyspace_from_name :: "string \<Rightarrow> keyspace option" where
  "keyspace_from_name name = List.find (\<lambda>candidate. keyspace_name candidate = name) Keyspace_ALL"

lemma keyspace_from_name_name: "keyspace_from_name (keyspace_name k) = Some k"
  by (cases k) (simp_all add: keyspace_from_name_def Keyspace_ALL_def)

section \<open>Errors\<close>

datatype error_category =
    CatConflict | CatValidation | CatBusy | CatUnavailable | CatCorruption | CatLifecycle
  | CatIncompatible | CatInternal

fun category_code :: "error_category \<Rightarrow> string" where
  "category_code CatConflict = ''conflict''"
| "category_code CatValidation = ''validation''"
| "category_code CatBusy = ''busy''"
| "category_code CatUnavailable = ''unavailable''"
| "category_code CatCorruption = ''corruption''"
| "category_code CatLifecycle = ''lifecycle''"
| "category_code CatIncompatible = ''incompatible''"
| "category_code CatInternal = ''internal''"

fun category_is_retryable :: "error_category \<Rightarrow> bool" where
  "category_is_retryable CatBusy = True"
| "category_is_retryable CatUnavailable = True"
| "category_is_retryable CatConflict = False"
| "category_is_retryable CatValidation = False"
| "category_is_retryable CatCorruption = False"
| "category_is_retryable CatLifecycle = False"
| "category_is_retryable CatIncompatible = False"
| "category_is_retryable CatInternal = False"

text \<open>The errors of the substrate.  The last constructor is not one of the
program's: it stands for a panic of the standard library, which the code does
not catch.\<close>

datatype kv_error =
    Conflict string key
  | Validation string
  | UnknownKeyspace string
  | Busy string string
  | Unavailable string string
  | Corruption string string
  | Lifecycle string string
  | Stopped string
  | Backend string string
  | Panicked string

fun kv_error_category :: "kv_error \<Rightarrow> error_category" where
  "kv_error_category (Conflict _ _) = CatConflict"
| "kv_error_category (Validation _) = CatValidation"
| "kv_error_category (UnknownKeyspace _) = CatValidation"
| "kv_error_category (Busy _ _) = CatBusy"
| "kv_error_category (Unavailable _ _) = CatUnavailable"
| "kv_error_category (Corruption _ _) = CatCorruption"
| "kv_error_category (Lifecycle _ _) = CatLifecycle"
| "kv_error_category (Stopped _) = CatLifecycle"
| "kv_error_category (Backend _ _) = CatInternal"
| "kv_error_category (Panicked _) = CatInternal"

section \<open>Key ranges\<close>

datatype 'k bound = Included 'k | Excluded 'k | Unbounded

record key_range =
  range_start :: "key bound"
  range_end :: "key bound"

definition key_range_all :: key_range where
  "key_range_all = \<lparr>range_start = Unbounded, range_end = Unbounded\<rparr>"

definition key_range_between :: "key \<Rightarrow> key \<Rightarrow> key_range" where
  "key_range_between lo hi = \<lparr>range_start = Included lo, range_end = Excluded hi\<rparr>"

definition checked_add_u8 :: "u8 \<Rightarrow> u8 \<Rightarrow> u8 option" where
  "checked_add_u8 a b = (if unat a + unat b < 256 then Some (a + b) else None)"

text \<open>The loop pops bytes off the end until one can be incremented; the list is
reversed here, so that the end is its head.\<close>

fun prefix_upper_bound_loop :: "bytes \<Rightarrow> bytes option" where
  "prefix_upper_bound_loop [] = None"
| "prefix_upper_bound_loop (byte # upper) =
    (case checked_add_u8 byte 1 of
       Some next \<Rightarrow> Some (rev (next # upper))
     | None \<Rightarrow> prefix_upper_bound_loop upper)"

definition prefix_upper_bound :: "bytes \<Rightarrow> bytes option" where
  "prefix_upper_bound pre = prefix_upper_bound_loop (rev pre)"

definition key_range_prefix :: "bytes \<Rightarrow> key_range" where
  "key_range_prefix pre =
    (case prefix_upper_bound pre of
       Some upper \<Rightarrow> \<lparr>range_start = Included pre, range_end = Excluded upper\<rparr>
     | None \<Rightarrow> \<lparr>range_start = Included pre, range_end = Unbounded\<rparr>)"

definition resuming_after :: "key_range \<Rightarrow> key \<Rightarrow> key_range" where
  "resuming_after r k = \<lparr>range_start = Excluded k, range_end = range_end r\<rparr>"

definition is_provably_empty :: "key_range \<Rightarrow> bool" where
  "is_provably_empty r =
    (case (range_start r, range_end r) of
       (Included lo, Excluded hi) \<Rightarrow> hi \<le> lo
     | (Included lo, Included hi) \<Rightarrow> hi < lo
     | (Excluded lo, Excluded hi) \<Rightarrow> hi < lo
     | (Excluded lo, Included hi) \<Rightarrow> hi \<le> lo
     | _ \<Rightarrow> False)"

text \<open>Which keys a range holds.\<close>

fun above_start :: "'k::linorder bound \<Rightarrow> 'k \<Rightarrow> bool" where
  "above_start (Included lo) k \<longleftrightarrow> lo \<le> k"
| "above_start (Excluded lo) k \<longleftrightarrow> lo < k"
| "above_start Unbounded k \<longleftrightarrow> True"

fun below_end :: "'k::linorder bound \<Rightarrow> 'k \<Rightarrow> bool" where
  "below_end (Included hi) k \<longleftrightarrow> k \<le> hi"
| "below_end (Excluded hi) k \<longleftrightarrow> k < hi"
| "below_end Unbounded k \<longleftrightarrow> True"

definition in_range :: "key_range \<Rightarrow> key \<Rightarrow> bool" where
  "in_range r k \<longleftrightarrow> above_start (range_start r) k \<and> below_end (range_end r) k"

lemma provably_empty_holds_nothing:
  "is_provably_empty r \<Longrightarrow> \<not> in_range r k"
  by (cases "range_start r"; cases "range_end r") (auto simp: in_range_def is_provably_empty_def)

lemma in_range_resuming_after:
  assumes "in_range r l"
  shows "in_range (resuming_after r l) k \<longleftrightarrow> in_range r k \<and> l < k"
  using assms
  by (cases "range_start r"; cases "range_end r") (auto simp: in_range_def resuming_after_def)

section \<open>The range of a prefix\<close>

lemma checked_add_u8_one:
  "checked_add_u8 b 1 = (if b = 0xFF then None else Some (b + 1))"
proof -
  have "unat b = 255 \<longleftrightarrow> b = 0xFF" by (simp add: word_unat_eq_iff)
  then show ?thesis using unat_u8_less [of b] by (auto simp: checked_add_u8_def)
qed

lemma prefix_upper_bound_loop_snoc:
  "prefix_upper_bound_loop (xs @ [x]) =
    (case prefix_upper_bound_loop xs of
       Some upper \<Rightarrow> Some (x # upper)
     | None \<Rightarrow> if x = 0xFF then None else Some [x + 1])"
  by (induction xs) (auto simp: checked_add_u8_one)

lemma prefix_upper_bound_simps:
  "prefix_upper_bound [] = None"
  "prefix_upper_bound (x # xs) =
    (case prefix_upper_bound xs of
       Some upper \<Rightarrow> Some (x # upper)
     | None \<Rightarrow> if x = 0xFF then None else Some [x + 1])"
  by (simp_all add: prefix_upper_bound_def prefix_upper_bound_loop_snoc)

lemma u8_less_succ:
  assumes "(x :: u8) \<noteq> 0xFF"
  shows "y < x + 1 \<longleftrightarrow> y \<le> x"
proof -
  have "unat x \<noteq> 255" using assms by (simp add: word_unat_eq_iff)
  then have "unat (x + 1) = unat x + 1"
    using unat_u8_less [of x] by (simp add: unat_word_ariths)
  then show ?thesis by (simp add: word_less_nat_alt word_le_nat_alt less_Suc_eq_le)
qed

lemma prefix_upper_bound_correct:
  "pre \<le> k \<and> (case prefix_upper_bound pre of Some upper \<Rightarrow> k < upper | None \<Rightarrow> True)
    \<longleftrightarrow> prefix pre k"
proof (induction pre arbitrary: k)
  case Nil
  then show ?case by (simp add: prefix_upper_bound_simps)
next
  case (Cons x xs)
  show ?case
  proof (cases k)
    case (Cons y ys)
    have "\<not> 0xFF < y" by (simp add: not_less)
    then show ?thesis
      using Cons.IH [of ys] Cons
      by (auto simp: prefix_upper_bound_simps u8_less_succ split: option.splits if_splits)
  qed simp
qed

text \<open>The mark of a range built from a prefix: a key is in it exactly when it
carries the prefix.\<close>

lemma in_range_prefix [simp]: "in_range (key_range_prefix pre) k \<longleftrightarrow> prefix pre k"
  using prefix_upper_bound_correct [of pre k]
  by (auto simp: in_range_def key_range_prefix_def split: option.splits)

section \<open>Properties\<close>

text \<open>The range built from a prefix holds exactly the keys that carry the
prefix, also for the prefixes with no successor (empty, or all bytes
\<^verbatim>\<open>0xff\<close>), whose range runs to the end of the key space.\<close>

theorem prefix_range_exact: "in_range (key_range_prefix pre) k \<longleftrightarrow> prefix pre k"
  by (rule in_range_prefix)

end
