(* ===== verification/Key_Kinds.thy ===== *)
theory Key_Kinds
  imports Kv_Keys
begin

text \<open>The key-kind table (kind.rs of tessari-encoding): what a key addresses,
the byte that leads it, the keyspace it lives in and the name errors give it;
and the errors of decoding (error.rs), each of which names the kind that was
being read.\<close>

section \<open>The table\<close>

datatype (plugins only: code) key_kind =
    Record | SecondaryIndex | UniqueIndex | Posting | VectorNode | Edge |
  SearchStatistics | SpatialIndex | VectorRecall | SpatialRefinement | SearchTerm |
  IndexStatistics | IndexChanges | ExpiryIndex | ModifiedOrder | TopicOffset |
  TopicEntry | TopicHead | SearchSuffix | SearchSurface | TopicBytes | Containment |
  RetiredIndex | RetiredSince | LogEntry | FormatVersion | AppliedPosition |
  NamespaceCatalog | DatabaseCatalog | TableCatalog | IndexCatalog | GraphCatalog |
  EdgeKindCatalog | IdAllocator | BackfillWatermark | NodeIdentity | ReclaimFloor |
  VersionPosition | LogStart | LogRetention | ServedReach | TransactionRecord |
  IntentOf | AcrossPart | AcrossUnsettled | AcrossBarred | ResolvedOf

definition KeyKind_ALL :: "key_kind list" where
  "KeyKind_ALL =
    [Record, SecondaryIndex, UniqueIndex, Posting, VectorNode, Edge, SearchStatistics,
     SpatialIndex, VectorRecall, SpatialRefinement, SearchTerm, IndexStatistics,
     IndexChanges, ExpiryIndex, ModifiedOrder, TopicOffset, TopicEntry, TopicHead,
     SearchSuffix, SearchSurface, TopicBytes, Containment, RetiredIndex, RetiredSince,
     LogEntry, FormatVersion, AppliedPosition, NamespaceCatalog, DatabaseCatalog,
     TableCatalog, IndexCatalog, GraphCatalog, EdgeKindCatalog, IdAllocator,
     BackfillWatermark, NodeIdentity, ReclaimFloor, VersionPosition, LogStart,
     LogRetention, ServedReach, TransactionRecord, IntentOf, AcrossPart, AcrossUnsettled,
     AcrossBarred, ResolvedOf]"

primrec tag :: "key_kind \<Rightarrow> u8" where
  "tag Record = 0x01"
| "tag SecondaryIndex = 0x10"
| "tag UniqueIndex = 0x11"
| "tag Posting = 0x12"
| "tag VectorNode = 0x13"
| "tag Edge = 0x14"
| "tag SearchStatistics = 0x15"
| "tag SpatialIndex = 0x16"
| "tag VectorRecall = 0x17"
| "tag SpatialRefinement = 0x18"
| "tag SearchTerm = 0x19"
| "tag IndexStatistics = 0x40"
| "tag IndexChanges = 0x41"
| "tag ExpiryIndex = 0x1a"
| "tag ModifiedOrder = 0x1b"
| "tag TopicOffset = 0x1c"
| "tag TopicEntry = 0x1d"
| "tag TopicHead = 0x1e"
| "tag SearchSuffix = 0x1f"
| "tag SearchSurface = 0x42"
| "tag TopicBytes = 0x43"
| "tag Containment = 0x44"
| "tag RetiredIndex = 0x45"
| "tag RetiredSince = 0x46"
| "tag LogEntry = 0x20"
| "tag FormatVersion = 0x30"
| "tag AppliedPosition = 0x31"
| "tag NamespaceCatalog = 0x32"
| "tag DatabaseCatalog = 0x33"
| "tag TableCatalog = 0x34"
| "tag IndexCatalog = 0x35"
| "tag IdAllocator = 0x36"
| "tag BackfillWatermark = 0x37"
| "tag NodeIdentity = 0x38"
| "tag ReclaimFloor = 0x39"
| "tag GraphCatalog = 0x3a"
| "tag EdgeKindCatalog = 0x3b"
| "tag VersionPosition = 0x3c"
| "tag LogStart = 0x3d"
| "tag LogRetention = 0x3e"
| "tag ServedReach = 0x3f"
| "tag TransactionRecord = 0x50"
| "tag IntentOf = 0x51"
| "tag AcrossPart = 0x52"
| "tag AcrossUnsettled = 0x53"
| "tag AcrossBarred = 0x54"
| "tag ResolvedOf = 0x55"

primrec keyspace_of :: "key_kind \<Rightarrow> keyspace" where
  "keyspace_of Record = DATA"
| "keyspace_of SecondaryIndex = INDEX"
| "keyspace_of UniqueIndex = INDEX"
| "keyspace_of Posting = INDEX"
| "keyspace_of VectorNode = INDEX"
| "keyspace_of Edge = INDEX"
| "keyspace_of SearchStatistics = INDEX"
| "keyspace_of SpatialIndex = INDEX"
| "keyspace_of VectorRecall = INDEX"
| "keyspace_of SpatialRefinement = INDEX"
| "keyspace_of SearchTerm = INDEX"
| "keyspace_of IndexStatistics = INDEX"
| "keyspace_of IndexChanges = INDEX"
| "keyspace_of ExpiryIndex = INDEX"
| "keyspace_of ModifiedOrder = INDEX"
| "keyspace_of TopicOffset = INDEX"
| "keyspace_of TopicEntry = INDEX"
| "keyspace_of TopicHead = INDEX"
| "keyspace_of SearchSuffix = INDEX"
| "keyspace_of SearchSurface = INDEX"
| "keyspace_of TopicBytes = INDEX"
| "keyspace_of Containment = INDEX"
| "keyspace_of RetiredIndex = INDEX"
| "keyspace_of RetiredSince = META"
| "keyspace_of LogEntry = LOG"
| "keyspace_of FormatVersion = META"
| "keyspace_of AppliedPosition = META"
| "keyspace_of NamespaceCatalog = META"
| "keyspace_of DatabaseCatalog = META"
| "keyspace_of TableCatalog = META"
| "keyspace_of IndexCatalog = META"
| "keyspace_of GraphCatalog = META"
| "keyspace_of EdgeKindCatalog = META"
| "keyspace_of IdAllocator = META"
| "keyspace_of BackfillWatermark = META"
| "keyspace_of NodeIdentity = META"
| "keyspace_of ReclaimFloor = META"
| "keyspace_of VersionPosition = META"
| "keyspace_of LogStart = META"
| "keyspace_of LogRetention = META"
| "keyspace_of ServedReach = META"
| "keyspace_of TransactionRecord = META"
| "keyspace_of IntentOf = META"
| "keyspace_of AcrossPart = META"
| "keyspace_of AcrossUnsettled = META"
| "keyspace_of AcrossBarred = META"
| "keyspace_of ResolvedOf = META"

primrec kind_name :: "key_kind \<Rightarrow> string" where
  "kind_name Record = ''record''"
| "kind_name SecondaryIndex = ''secondary-index''"
| "kind_name UniqueIndex = ''unique-index''"
| "kind_name Posting = ''posting''"
| "kind_name VectorNode = ''vector-node''"
| "kind_name Edge = ''edge''"
| "kind_name SearchStatistics = ''search-statistics''"
| "kind_name SpatialIndex = ''spatial-index''"
| "kind_name VectorRecall = ''vector-recall''"
| "kind_name SpatialRefinement = ''spatial-refinement''"
| "kind_name SearchTerm = ''search-term''"
| "kind_name IndexStatistics = ''index-statistics''"
| "kind_name IndexChanges = ''index-changes''"
| "kind_name ExpiryIndex = ''expiry-index''"
| "kind_name ModifiedOrder = ''modified-order''"
| "kind_name TopicOffset = ''topic-offset''"
| "kind_name TopicEntry = ''topic-entry''"
| "kind_name TopicHead = ''topic-head''"
| "kind_name SearchSuffix = ''search-suffix''"
| "kind_name SearchSurface = ''search-surface''"
| "kind_name TopicBytes = ''topic-bytes''"
| "kind_name Containment = ''containment''"
| "kind_name RetiredIndex = ''retired-index''"
| "kind_name RetiredSince = ''retired-since''"
| "kind_name LogEntry = ''log-entry''"
| "kind_name FormatVersion = ''format-version''"
| "kind_name AppliedPosition = ''applied-position''"
| "kind_name NamespaceCatalog = ''namespace-catalog''"
| "kind_name DatabaseCatalog = ''database-catalog''"
| "kind_name TableCatalog = ''table-catalog''"
| "kind_name IndexCatalog = ''index-catalog''"
| "kind_name GraphCatalog = ''graph-catalog''"
| "kind_name EdgeKindCatalog = ''edge-kind-catalog''"
| "kind_name IdAllocator = ''id-allocator''"
| "kind_name BackfillWatermark = ''backfill-watermark''"
| "kind_name NodeIdentity = ''node-identity''"
| "kind_name ReclaimFloor = ''reclaim-floor''"
| "kind_name VersionPosition = ''version-position''"
| "kind_name LogStart = ''log-start''"
| "kind_name LogRetention = ''log-retention''"
| "kind_name ServedReach = ''served-reach''"
| "kind_name TransactionRecord = ''transaction-record''"
| "kind_name IntentOf = ''intent-of''"
| "kind_name AcrossPart = ''across-part''"
| "kind_name AcrossUnsettled = ''across-unsettled''"
| "kind_name AcrossBarred = ''across-barred''"
| "kind_name ResolvedOf = ''resolved-of''"

definition from_tag :: "u8 \<Rightarrow> key_kind option" where
  "from_tag t = List.find (\<lambda>kind. tag kind = t) KeyKind_ALL"

section \<open>Errors of decoding\<close>

datatype (plugins only: code) enc_error =
    Truncated key_kind nat nat nat
  | TrailingBytes key_kind nat
  | UnterminatedComponent key_kind nat
  | InvalidEscape key_kind nat u8
  | UnexpectedKind key_kind u8 string
  | UnknownRecordIdKind key_kind u8 nat
  | UnknownReach key_kind u8 nat
  | UnknownAcross string u8
  | UnknownDirection u8
  | InvalidUtf8 key_kind
  | ValueTruncated nat nat
  | UnsupportedCodecVersion u8 u8
  | ReservedFlags u8
  | TombstoneWithPayload nat
  | StampOutOfOrder nat
  | UnknownValueTag u8
  | UnknownIndexTag key_kind u8
  | InvalidDecimal int u32
  | InvalidSubSecond u32
  | NestedTooDeep nat
  | UnknownNodeIdentity string u8
  | InvalidNodeEndpoint
  | NoSuchCell u32 u64
  | NotABox i64 i64 i64 i64
  | UnsupportedFormatVersion u32 u32
  | UnstampedStore string

text \<open>Malformed bytes are corruption; well-formed bytes of a newer build are
incompatible.\<close>

definition enc_category :: "enc_error \<Rightarrow> error_category" where
  "enc_category e = (case e of
      UnsupportedCodecVersion _ _ \<Rightarrow> CatIncompatible
    | ReservedFlags _ \<Rightarrow> CatIncompatible
    | UnknownValueTag _ \<Rightarrow> CatIncompatible
    | UnknownIndexTag _ _ \<Rightarrow> CatIncompatible
    | UnknownNodeIdentity _ _ \<Rightarrow> CatIncompatible
    | UnknownReach _ _ _ \<Rightarrow> CatIncompatible
    | UnknownAcross _ _ \<Rightarrow> CatIncompatible
    | UnsupportedFormatVersion _ _ \<Rightarrow> CatIncompatible
    | _ \<Rightarrow> CatCorruption)"

section \<open>Facts about the table\<close>

lemma KeyKind_ALL_complete: "k \<in> set KeyKind_ALL"
  by (cases k) (simp_all add: KeyKind_ALL_def)

lemma find_by_injective_tag:
  assumes "distinct (map f xs)" "x \<in> set xs"
  shows "List.find (\<lambda>y. f y = f x) xs = Some x"
  using assms by (induction xs) auto

lemma distinct_tags: "distinct (map tag KeyKind_ALL)"
  by (simp add: KeyKind_ALL_def)

lemma tag_inject [simp]: "tag a = tag b \<longleftrightarrow> a = b"
  using distinct_tags KeyKind_ALL_complete
  by (metis distinct_map inj_onD)

lemma from_tag_tag [simp]: "from_tag (tag k) = Some k"
  unfolding from_tag_def using distinct_tags KeyKind_ALL_complete by (rule find_by_injective_tag)

lemma tag_of_from_tag: "from_tag t = Some k \<Longrightarrow> tag k = t"
  by (auto simp: from_tag_def find_Some_iff)

lemma tag_not_zero: "tag k \<noteq> 0"
  by (cases k) simp_all

lemma from_tag_zero: "from_tag 0 = None"
  using tag_of_from_tag tag_not_zero by (metis not_None_eq)

end
