(* ===== verification/Key_Order.thy ===== *)
theory Key_Order
  imports Key_Kinds
begin

unbundle bit_operations_syntax

text \<open>Order-preserving component encodings (order.rs of tessari-encoding): the
writer that appends components to a key and the reader that takes them back.
The contract of a component is the locale \<open>key_component\<close>: the byte order of
two encodings, whatever follows them, is the logical order of the values; the
locale \<open>key_codec\<close> adds that the reader takes back what the writer put (the contract
\<open>reader_codec\<close>) and \<open>key_canonical\<close> that it accepts nothing else.  Every component of the program is
an interpretation.\<close>

section \<open>The writer\<close>

definition ESCAPE :: u8 where "ESCAPE = 0x00"
definition TERMINATOR :: u8 where "TERMINATOR = 0x01"
definition ESCAPED_ZERO :: u8 where "ESCAPED_ZERO = 0xFF"

record key_writer =
  buffer :: bytes

definition writer_new :: key_writer where
  "writer_new = \<lparr>buffer = []\<rparr>"

definition push :: "key_writer \<Rightarrow> bytes \<Rightarrow> key_writer" where
  "push w bs = w\<lparr>buffer := buffer w @ bs\<rparr>"

definition put_u8 :: "u8 \<Rightarrow> key_writer \<Rightarrow> key_writer" where
  "put_u8 v w = push w [v]"

definition put_u32 :: "u32 \<Rightarrow> key_writer \<Rightarrow> key_writer" where
  "put_u32 v w = push w (u32_bytes v)"

definition put_u64 :: "u64 \<Rightarrow> key_writer \<Rightarrow> key_writer" where
  "put_u64 v w = push w (u64_bytes v)"

text \<open>Flipping the sign bit: the first byte is exclusive-or'd with
\<^verbatim>\<open>0x80\<close>.\<close>

definition flip_first :: "bytes \<Rightarrow> bytes" where
  "flip_first bs = bs[0 := bs ! 0 XOR 0x80]"

definition put_i64 :: "i64 \<Rightarrow> key_writer \<Rightarrow> key_writer" where
  "put_i64 v w = push w (flip_first (u64_bytes v))"

definition put_u64_descending :: "u64 \<Rightarrow> key_writer \<Rightarrow> key_writer" where
  "put_u64_descending v w = push w (u64_bytes (NOT v))"

definition put_fixed :: "bytes \<Rightarrow> key_writer \<Rightarrow> key_writer" where
  "put_fixed v w = push w v"

definition put_escaped :: "key_writer \<Rightarrow> u8 \<Rightarrow> key_writer" where
  "put_escaped w byte =
    (if byte = ESCAPE then push (push w [ESCAPE]) [ESCAPED_ZERO] else push w [byte])"

definition put_variable_unterminated :: "bytes \<Rightarrow> key_writer \<Rightarrow> key_writer" where
  "put_variable_unterminated v w = foldl put_escaped w v"

definition put_variable :: "bytes \<Rightarrow> key_writer \<Rightarrow> key_writer" where
  "put_variable v w = push (push (put_variable_unterminated v w) [ESCAPE]) [TERMINATOR]"

definition writer_finish :: "key_writer \<Rightarrow> bytes" where
  "writer_finish w = buffer w"

section \<open>The reader\<close>

text \<open>Offsets are natural numbers: a slice is never longer than the address
space, so the saturating additions of the source never saturate at a value a
slice could reach.\<close>

record key_reader =
  kind :: key_kind
  input :: bytes
  position :: nat

definition reader_new :: "key_kind \<Rightarrow> bytes \<Rightarrow> key_reader" where
  "reader_new k bs = \<lparr>kind = k, input = bs, position = 0\<rparr>"

definition remaining :: "key_reader \<Rightarrow> nat" where
  "remaining r = length (input r) - position r"

text \<open>The bytes of a slice from one offset to another, when both are inside it.\<close>

definition slice_get :: "bytes \<Rightarrow> nat \<Rightarrow> nat \<Rightarrow> bytes option" where
  "slice_get bs from stop =
    (if from \<le> stop \<and> stop \<le> length bs then Some (take (stop - from) (drop from bs)) else None)"

definition take_exact :: "nat \<Rightarrow> key_reader \<Rightarrow> enc_error + bytes \<times> key_reader" where
  "take_exact len r =
    (let stop = position r + len in
     case slice_get (input r) (position r) stop of
       None \<Rightarrow> Inl (Truncated (kind r) (position r) len (remaining r))
     | Some sl \<Rightarrow> Inr (sl, r\<lparr>position := stop\<rparr>))"

definition take_fixed :: "nat \<Rightarrow> key_reader \<Rightarrow> enc_error + bytes \<times> key_reader" where
  "take_fixed N r =
    (let stop = position r + N in
     case slice_get (input r) (position r) stop of
       None \<Rightarrow> Inl (Truncated (kind r) (position r) N (remaining r))
     | Some sl \<Rightarrow> Inr (sl, r\<lparr>position := stop\<rparr>))"

definition take_u8 :: "key_reader \<Rightarrow> enc_error + u8 \<times> key_reader" where
  "take_u8 r = bindR (take_fixed 1 r) (\<lambda>(bs, r). Inr (bs ! 0, r))"

definition expect_kind :: "key_reader \<Rightarrow> enc_error + unit \<times> key_reader" where
  "expect_kind r = bindR (take_u8 r) (\<lambda>(t, r).
    if t = tag (kind r) then Inr ((), r)
    else Inl (UnexpectedKind (kind r) t
      (case from_tag t of Some k \<Rightarrow> kind_name k | None \<Rightarrow> ''unassigned'')))"

definition consumed_since :: "nat \<Rightarrow> key_reader \<Rightarrow> bytes" where
  "consumed_since start r =
    (case slice_get (input r) start (position r) of Some bs \<Rightarrow> bs | None \<Rightarrow> [])"

definition peek :: "key_reader \<Rightarrow> enc_error + u8" where
  "peek r =
    (if position r < length (input r) then Inr (input r ! position r)
     else Inl (Truncated (kind r) (position r) 1 0))"

definition take_u32 :: "key_reader \<Rightarrow> enc_error + u32 \<times> key_reader" where
  "take_u32 r = bindR (take_fixed 4 r) (\<lambda>(bs, r). Inr (u32_value bs, r))"

definition take_u64 :: "key_reader \<Rightarrow> enc_error + u64 \<times> key_reader" where
  "take_u64 r = bindR (take_fixed 8 r) (\<lambda>(bs, r). Inr (u64_value bs, r))"

definition take_i64 :: "key_reader \<Rightarrow> enc_error + i64 \<times> key_reader" where
  "take_i64 r = bindR (take_fixed 8 r) (\<lambda>(bs, r). Inr (u64_value (flip_first bs), r))"

definition take_u64_descending :: "key_reader \<Rightarrow> enc_error + u64 \<times> key_reader" where
  "take_u64_descending r = bindR (take_fixed 8 r) (\<lambda>(bs, r). Inr (NOT (u64_value bs), r))"

lemma take_u8_advances:
  assumes "take_u8 r = Inr (b, r')"
  shows "kind r' = kind r \<and> input r' = input r \<and> position r' = position r + 1
    \<and> position r < length (input r)"
  using assms
  by (auto simp: take_u8_def take_fixed_def slice_get_def Let_def split: if_splits)

function take_variable_loop ::
  "nat \<Rightarrow> bytes \<Rightarrow> key_reader \<Rightarrow> enc_error + bytes \<times> key_reader" where
  "take_variable_loop start out r =
    (case take_u8 r of
       Inl _ \<Rightarrow> Inl (UnterminatedComponent (kind r) start)
     | Inr (byte, r1) \<Rightarrow>
         if byte \<noteq> ESCAPE then take_variable_loop start (out @ [byte]) r1
         else
           (case take_u8 r1 of
              Inl _ \<Rightarrow> Inl (UnterminatedComponent (kind r1) start)
            | Inr (found, r2) \<Rightarrow>
                if found = TERMINATOR then Inr (out, r2)
                else if found = ESCAPED_ZERO then take_variable_loop start (out @ [ESCAPE]) r2
                else Inl (InvalidEscape (kind r2) (position r1 - 1) found)))"
  by pat_completeness auto
termination
  by (relation "measure (\<lambda>(start, out, r). remaining r)")
    (auto dest!: take_u8_advances simp: remaining_def)

declare take_variable_loop.simps [simp del]

definition take_variable :: "key_reader \<Rightarrow> enc_error + bytes \<times> key_reader" where
  "take_variable r = take_variable_loop (position r) [] r"

definition reader_finish :: "key_reader \<Rightarrow> enc_error + unit" where
  "reader_finish r =
    (let extra = remaining r in
     if extra = 0 then Inr () else Inl (TrailingBytes (kind r) extra))"

section \<open>What the writer appends\<close>

lemma buffer_new [put_simps]: "buffer writer_new = []"
  by (simp add: writer_new_def)

lemma buffer_push [simp]: "buffer (push w bs) = buffer w @ bs"
  by (simp add: push_def)

text \<open>The escaped body of a component.\<close>

definition escape :: "bytes \<Rightarrow> bytes" where
  "escape v = concat (map (\<lambda>b. if b = ESCAPE then [ESCAPE, ESCAPED_ZERO] else [b]) v)"

lemma escape_simps [simp]:
  "escape [] = []"
  "escape (b # v) = (if b = ESCAPE then ESCAPE # ESCAPED_ZERO # escape v else b # escape v)"
  by (simp_all add: escape_def)

lemma buffer_put_unterminated:
  "buffer (foldl put_escaped w v) = buffer w @ escape v"
  by (induction v arbitrary: w) (simp_all add: put_escaped_def)

definition i64_key :: "i64 \<Rightarrow> bytes" where
  "i64_key v = flip_first (u64_bytes v)"

definition descending_key :: "u64 \<Rightarrow> bytes" where
  "descending_key v = u64_bytes (NOT v)"

definition variable_key :: "bytes \<Rightarrow> bytes" where
  "variable_key v = escape v @ [ESCAPE, TERMINATOR]"

lemma buffer_put [put_simps]:
  "buffer (put_u8 v1 w) = buffer w @ [v1]"
  "buffer (put_u32 v2 w) = buffer w @ u32_bytes v2"
  "buffer (put_u64 v3 w) = buffer w @ u64_bytes v3"
  "buffer (put_i64 v4 w) = buffer w @ i64_key v4"
  "buffer (put_u64_descending v5 w) = buffer w @ descending_key v5"
  "buffer (put_fixed v6 w) = buffer w @ v6"
  "buffer (put_variable_unterminated v7 w) = buffer w @ escape v7"
  "buffer (put_variable v8 w) = buffer w @ variable_key v8"
  by (simp_all add: put_u8_def put_u32_def put_u64_def put_i64_def put_u64_descending_def
      put_fixed_def put_variable_unterminated_def put_variable_def buffer_put_unterminated
      i64_key_def descending_key_def variable_key_def)

declare writer_finish_def [put_simps]

section \<open>A reader between two byte strings\<close>

text \<open>A reader that has read \<open>pre\<close> and still has \<open>rest\<close> before it.  Every law of
the reader is stated over it.\<close>

definition reading :: "key_kind \<Rightarrow> bytes \<Rightarrow> bytes \<Rightarrow> key_reader" where
  "reading k pre rest = \<lparr>kind = k, input = pre @ rest, position = length pre\<rparr>"

lemma reading_sel [simp]:
  "kind (reading k pre rest) = k"
  "input (reading k pre rest) = pre @ rest"
  "position (reading k pre rest) = length pre"
  by (simp_all add: reading_def)

lemma reader_new_reading [take_simps]: "reader_new k bs = reading k [] bs"
  by (simp add: reader_new_def reading_def)

lemma remaining_reading [simp]: "remaining (reading k pre rest) = length rest"
  by (simp add: remaining_def)

lemma reading_advance:
  "length a = n \<Longrightarrow>
    (reading k pre (a @ rest))\<lparr>position := length pre + n\<rparr> = reading k (pre @ a) rest"
  by (simp add: reading_def)

lemma finish_reading [take_simps]:
  "reader_finish (reading k pre rest) =
    (if rest = [] then Inr () else Inl (TrailingBytes k (length rest)))"
  by (simp add: reader_finish_def)

lemma take_fixed_reading:
  "take_fixed n (reading k pre bs) =
    (if n \<le> length bs then Inr (take n bs, reading k (pre @ take n bs) (drop n bs))
     else Inl (Truncated k (length pre) n (length bs)))"
  using reading_advance [where a = "take n bs" and n = n and k = k and pre = pre
      and rest = "drop n bs"]
  by (auto simp: take_fixed_def slice_get_def)

lemma take_exact_eq_take_fixed: "take_exact n r = take_fixed n r"
  by (simp add: take_exact_def take_fixed_def)

lemma take_fixed_enc [take_simps]:
  "length a = n \<Longrightarrow>
    take_fixed n (reading k pre (a @ rest)) = Inr (a, reading k (pre @ a) rest)"
  by (simp add: take_fixed_reading)

lemma take_u8_reading [take_simps]:
  "take_u8 (reading k pre (b # rest)) = Inr (b, reading k (pre @ [b]) rest)"
  "take_u8 (reading k pre []) = Inl (Truncated k (length pre) 1 0)"
  by (simp_all add: take_u8_def take_fixed_reading)

lemma peek_reading [take_simps]:
  "peek (reading k pre (b # rest)) = Inr b"
  "peek (reading k pre []) = Inl (Truncated k (length pre) 1 0)"
  by (simp_all add: peek_def)

lemma expect_kind_reading [take_simps]:
  "expect_kind (reading k pre (b # rest)) =
    (if b = tag k then Inr ((), reading k (pre @ [b]) rest)
     else Inl (UnexpectedKind k b
       (case from_tag b of Some k \<Rightarrow> kind_name k | None \<Rightarrow> ''unassigned'')))"
  by (simp add: expect_kind_def take_u8_reading)

text \<open>The number of bytes a fixed-width read consumes, for the inverse laws.\<close>

lemma take_fixed_InrD:
  assumes "take_fixed n (reading k pre bs) = Inr (a, r)"
  shows "length a = n \<and> (\<exists>rest. bs = a @ rest \<and> r = reading k (pre @ a) rest)"
  using assms
  by (auto simp: take_fixed_reading split: if_splits intro!: exI [where x = "drop n bs"])

section \<open>The contract of a component\<close>

locale key_component =
  fixes wf :: "'a \<Rightarrow> bool"
    and enc :: "'a \<Rightarrow> bytes"
    and lt :: "'a \<Rightarrow> 'a \<Rightarrow> bool"
  assumes order: "wf x \<Longrightarrow> wf y \<Longrightarrow> enc x @ s < enc y @ t \<longleftrightarrow> lt x y \<or> x = y \<and> s < t"
begin

lemma lt_asym: "wf x \<Longrightarrow> wf y \<Longrightarrow> lt x y \<Longrightarrow> \<not> lt y x"
  using order [of x y "[]" "[]"] order [of y x "[]" "[]"] by auto

lemma order_end: "wf x \<Longrightarrow> wf y \<Longrightarrow> enc x < enc y \<longleftrightarrow> lt x y"
  using order [of x y "[]" "[]"] by simp

lemma lt_irrefl: "wf x \<Longrightarrow> \<not> lt x x"
  using lt_asym by blast

lemma prefix_free:
  assumes "wf x" "wf y" "enc x @ s = enc y @ t"
  shows "x = y" "s = t"
proof -
  have "enc x @ s < enc y @ (t @ [0])"
    by (metis append_assoc assms(3) less_append_snoc)
  then have 1: "lt x y \<or> x = y" using order [OF assms(1,2)] by blast
  have "enc y @ t < enc x @ (s @ [0])"
    by (metis append_assoc assms(3) less_append_snoc)
  then have 2: "lt y x \<or> x = y" using order [OF assms(2,1)] by blast
  show "x = y" using 1 2 lt_asym [OF assms(1,2)] by blast
  then show "s = t" using assms(3) by simp
qed

lemma enc_inject: "wf x \<Longrightarrow> wf y \<Longrightarrow> enc x = enc y \<longleftrightarrow> x = y"
  using prefix_free(1) [of x y "[]" "[]"] by auto

lemma prefix_enc:
  assumes wf: "wf x" "wf y"
  shows "prefix (enc x @ s) (enc y @ t) \<longleftrightarrow> x = y \<and> prefix s t"
proof
  assume "prefix (enc x @ s) (enc y @ t)"
  then obtain u where "enc y @ t = enc x @ (s @ u)" by (auto elim: prefixE)
  from prefix_free [OF wf(2,1) this] show "x = y \<and> prefix s t" by simp
qed auto

lemma prefix_enc_self: "wf x \<Longrightarrow> wf y \<Longrightarrow> prefix (enc x) (enc y @ t) \<longleftrightarrow> x = y"
  using prefix_enc [of x y "[]" t] by simp

end

text \<open>What a reader takes back, with or without an order.\<close>

locale reader_codec =
  fixes wf :: "'a \<Rightarrow> bool"
    and enc :: "'a \<Rightarrow> bytes"
    and take_c :: "key_reader \<Rightarrow> enc_error + 'a \<times> key_reader"
  assumes take_enc:
    "wf x \<Longrightarrow> take_c (reading k pre (enc x @ rest)) = Inr (x, reading k (pre @ enc x) rest)"
begin

lemma take_enc_end: "wf x \<Longrightarrow> take_c (reading k pre (enc x)) = Inr (x, reading k (pre @ enc x) [])"
  using take_enc [of x k pre "[]"] by simp

lemma self_delimiting:
  assumes "wf x" "wf y" "enc x @ s = enc y @ t"
  shows "x = y"
  using take_enc [OF assms(1), of undefined "[]" s] take_enc [OF assms(2), of undefined "[]" t]
    assms(3) by simp

end

locale key_codec = key_component wf enc lt + reader_codec wf enc take_c
  for wf :: "'a \<Rightarrow> bool" and enc :: "'a \<Rightarrow> bytes" and lt :: "'a \<Rightarrow> 'a \<Rightarrow> bool"
    and take_c :: "key_reader \<Rightarrow> enc_error + 'a \<times> key_reader"

locale key_canonical = key_codec wf enc lt take_c
  for wf :: "'a \<Rightarrow> bool" and enc :: "'a \<Rightarrow> bytes" and lt :: "'a \<Rightarrow> 'a \<Rightarrow> bool"
    and take_c :: "key_reader \<Rightarrow> enc_error + 'a \<times> key_reader" +
  assumes take_only:
    "take_c (reading k pre bs) = Inr (x, r) \<Longrightarrow>
      wf x \<and> (\<exists>rest. bs = enc x @ rest \<and> r = reading k (pre @ enc x) rest)"
begin

lemma take_onlyE:
  assumes "take_c (reading k pre bs) = Inr (x, r)"
  obtains rest where "wf x" "bs = enc x @ rest" "r = reading k (pre @ enc x) rest"
  using take_only [OF assms] by blast

lemma take_iff:
  "take_c (reading k pre bs) = Inr (x, r) \<longleftrightarrow>
    wf x \<and> (\<exists>rest. bs = enc x @ rest \<and> r = reading k (pre @ enc x) rest)"
  using take_only take_enc by metis

end

section \<open>The components\<close>

abbreviation always :: "'a \<Rightarrow> bool" where
  "always x \<equiv> True"

abbreviation greater_than :: "'a::linorder \<Rightarrow> 'a \<Rightarrow> bool" where
  "greater_than x y \<equiv> y < x"

lemma take_u8_InrD:
  assumes "take_u8 (reading k pre bs) = Inr (x, r)"
  shows "\<exists>rest. bs = [x] @ rest \<and> r = reading k (pre @ [x]) rest"
  using assms by (cases bs) (auto simp: take_u8_reading)

interpretation u8k: key_canonical always "\<lambda>v. [v]" "(<)" take_u8
  by unfold_locales (auto simp: take_u8_reading dest: take_u8_InrD)

lemma take_words [take_simps]:
  "take_u32 (reading k pre (u32_bytes v @ rest)) = Inr (v, reading k (pre @ u32_bytes v) rest)"
  "take_u64 (reading k pre (u64_bytes w @ rest)) = Inr (w, reading k (pre @ u64_bytes w) rest)"
  by (simp_all add: take_u32_def take_u64_def take_fixed_enc)

lemma take_words_InrD:
  "take_u32 (reading k pre bs) = Inr (v, r) \<Longrightarrow>
    \<exists>rest. bs = u32_bytes v @ rest \<and> r = reading k (pre @ u32_bytes v) rest"
  "take_u64 (reading k pre bs) = Inr (w, r') \<Longrightarrow>
    \<exists>rest. bs = u64_bytes w @ rest \<and> r' = reading k (pre @ u64_bytes w) rest"
  by (auto simp: take_u32_def take_u64_def bindR_eq_Inr value_word_bytes dest!: take_fixed_InrD)

interpretation u32k: key_canonical always u32_bytes "(<)" take_u32
  by unfold_locales (auto simp: order_simps take_words dest: take_words_InrD)

interpretation u64k: key_canonical always u64_bytes "(<)" take_u64
  by unfold_locales (auto simp: order_simps take_words dest: take_words_InrD)

subsection \<open>Descending order\<close>

lemma not_less_not: "NOT (v :: u64) < NOT w \<longleftrightarrow> w < v"
proof -
  have "unat (NOT v) = unat (- 1 :: u64) - unat v" for v :: u64
  proof -
    have "NOT v = - 1 - v" by (simp add: not_eq_complement)
    then show ?thesis using unat_sub [of v "- 1"] by simp
  qed
  moreover have "unat v \<le> unat (- 1 :: u64)" for v :: u64
    by (simp flip: word_le_nat_alt)
  ultimately have "unat (NOT v) = unat (- 1 :: u64) - unat v"
    "unat (NOT w) = unat (- 1 :: u64) - unat w"
    "unat v \<le> unat (- 1 :: u64)" "unat w \<le> unat (- 1 :: u64)" by blast+
  then show ?thesis unfolding word_less_nat_alt by linarith
qed

lemma take_descending [take_simps]:
  "take_u64_descending (reading k pre (descending_key v @ rest)) =
    Inr (v, reading k (pre @ descending_key v) rest)"
  by (simp add: take_u64_descending_def descending_key_def take_fixed_enc)

lemma take_descending_InrD:
  "take_u64_descending (reading k pre bs) = Inr (v, r) \<Longrightarrow>
    \<exists>rest. bs = descending_key v @ rest \<and> r = reading k (pre @ descending_key v) rest"
  by (auto simp: take_u64_descending_def bindR_eq_Inr value_word_bytes descending_key_def
      dest!: take_fixed_InrD)

lemma length_descending_key [simp]: "length (descending_key v) = 8"
  by (simp add: descending_key_def)

interpretation desck: key_canonical always descending_key greater_than take_u64_descending
  by unfold_locales
    (auto simp: descending_key_def order_simps not_less_not take_descending
      [unfolded descending_key_def] dest: take_descending_InrD [unfolded descending_key_def])

subsection \<open>Signed integers\<close>

lemma u8_xor_sign: "(b :: u8) XOR 0x80 = b + 0x80"
proof -
  have "b XOR 0x80 = flip_bit 7 b" by (simp add: flip_bit_eq_xor)
  then show ?thesis
    by (simp add: flip_bit_eq_if set_bit_eq unset_bit_eq)
qed

lemma flip_first_flip_first: "flip_first (flip_first bs) = bs"
  by (cases bs) (simp_all add: flip_first_def xor.assoc)

lemma length_flip_first [simp]: "length (flip_first bs) = length bs"
  by (simp add: flip_first_def)

lemma be_bytes_add_top:
  assumes "v < 256 ^ Suc n"
  shows "be_bytes (Suc n) ((v + 128 * 256 ^ n) mod 256 ^ Suc n)
      = (word_of_nat (v div 256 ^ n) + 128) # be_bytes n (v mod 256 ^ n)"
proof -
  let ?w = "(v + 128 * 256 ^ n) mod (256 ^ n * 256)"
  have "?w div 256 ^ n = (v + 128 * 256 ^ n) div 256 ^ n mod 256"
    by (simp add: mod_mult2_eq)
  then have d: "?w div 256 ^ n = (v div 256 ^ n + 128) mod 256"
    by (simp add: add.commute)
  have m: "?w mod 256 ^ n = v mod 256 ^ n" by (simp add: mod_mult2_eq)
  have "(word_of_nat ((v div 256 ^ n + 128) mod 256) :: u8) = word_of_nat (v div 256 ^ n + 128)"
    by (subst word_of_nat_eq_iff) (simp add: take_bit_eq_mod)
  then show ?thesis using d m by (simp add: mult.commute)
qed

lemma i64_key_shift: "i64_key v = u64_bytes (v + 2 ^ 63)"
proof -
  have b: "unat v < 256 ^ Suc 7" using unat_less_bytes(3) [of v] by simp
  have "unat (v + 2 ^ 63) = (unat v + 128 * 256 ^ 7) mod 256 ^ Suc 7"
    by (simp add: unat_word_ariths)
  moreover have "be_bytes 8 x = word_of_nat (x div 256 ^ 7) # be_bytes 7 (x mod 256 ^ 7)" for x
    using be_bytes.simps(2) [of 7 x] by simp
  ultimately show ?thesis
    using be_bytes_add_top [OF b]
    by (simp add: i64_key_def flip_first_def u64_bytes_def u8_xor_sign)
qed

lemma sint_less_shift: "sint (v :: i64) < sint w \<longleftrightarrow> v + 2 ^ 63 < w + 2 ^ 63"
proof -
  have "sint v = uint (v + 2 ^ 63) - 2 ^ 63" for v :: i64
    by (simp add: sint_uint signed_take_bit_eq_take_bit_shift uint_word_ariths take_bit_eq_mod)
  then show ?thesis by (simp add: word_less_def)
qed

lemma length_i64_key [simp]: "length (i64_key v) = 8"
  by (simp add: i64_key_def)

lemma take_i64_reading [take_simps]:
  "take_i64 (reading k pre (i64_key v @ rest)) = Inr (v, reading k (pre @ i64_key v) rest)"
  by (simp add: take_i64_def take_fixed_enc) (simp add: i64_key_def flip_first_flip_first)

lemma take_i64_InrD:
  "take_i64 (reading k pre bs) = Inr (v, r) \<Longrightarrow>
    \<exists>rest. bs = i64_key v @ rest \<and> r = reading k (pre @ i64_key v) rest"
  by (auto simp: take_i64_def bindR_eq_Inr value_word_bytes i64_key_def flip_first_flip_first
      dest!: take_fixed_InrD)

interpretation i64k: key_canonical always i64_key "\<lambda>v w. sint v < sint w" take_i64
proof
  fix x y s t
  show "i64_key x @ s < i64_key y @ t \<longleftrightarrow> sint x < sint y \<or> x = y \<and> s < t"
    by (simp add: i64_key_shift order_simps sint_less_shift)
qed (auto simp: take_i64_reading dest: take_i64_InrD)

subsection \<open>Blocks of fixed width\<close>

definition width :: "nat \<Rightarrow> bytes \<Rightarrow> bool" where
  "width n bs \<longleftrightarrow> length bs = n"

interpretation fixk: key_canonical "width n" "\<lambda>bs. bs" "(<)" "take_fixed n" for n
  by unfold_locales (auto simp: width_def order_simps take_fixed_enc dest: take_fixed_InrD)

subsection \<open>Components of variable length\<close>

lemma variable_key_simps:
  "variable_key [] = [ESCAPE, TERMINATOR]"
  "variable_key (b # v) =
    (if b = ESCAPE then ESCAPE # ESCAPED_ZERO # variable_key v else b # variable_key v)"
  by (simp_all add: variable_key_def)

lemma variable_order:
  "variable_key x @ s < variable_key y @ t \<longleftrightarrow> x < y \<or> x = y \<and> s < t"
proof (induction x arbitrary: y)
  case Nil
  then show ?case
    by (cases y) (auto simp: variable_key_simps ESCAPE_def TERMINATOR_def ESCAPED_ZERO_def
        word_less_nat_alt word_unat_eq_iff)
next
  case (Cons a x)
  then show ?case
    by (cases y) (auto simp: variable_key_simps ESCAPE_def TERMINATOR_def ESCAPED_ZERO_def
        word_gt_0)
qed

lemma take_variable_loop_enc:
  "take_variable_loop start out (reading k pre (variable_key v @ rest)) =
    Inr (out @ v, reading k (pre @ variable_key v) rest)"
proof (induction v arbitrary: out pre)
  case Nil
  then show ?case
    by (subst take_variable_loop.simps) (simp add: variable_key_simps take_u8_reading)
next
  case (Cons b v)
  then show ?case
    by (subst take_variable_loop.simps)
      (simp add: variable_key_simps take_u8_reading ESCAPED_ZERO_def TERMINATOR_def)
qed

lemma take_variable_enc [take_simps]:
  "take_variable (reading k pre (variable_key v @ rest)) =
    Inr (v, reading k (pre @ variable_key v) rest)"
  by (simp add: take_variable_def take_variable_loop_enc)

lemma take_variable_loop_InrD:
  assumes "take_variable_loop start out (reading k pre bs) = Inr (x, r)"
  shows "\<exists>v rest. x = out @ v \<and> bs = variable_key v @ rest
    \<and> r = reading k (pre @ variable_key v) rest"
  using assms
proof (induction bs arbitrary: out pre rule: length_induct)
  case (1 bs)
  note step = "1.prems" [unfolded take_variable_loop.simps [of start out]]
  show ?case
  proof (cases bs)
    case Nil
    then show ?thesis using step by (simp add: take_u8_reading)
  next
    case (Cons b bs')
    show ?thesis
    proof (cases "b = ESCAPE")
      case False
      then obtain v rest where "x = (out @ [b]) @ v" "bs' = variable_key v @ rest"
        "r = reading k ((pre @ [b]) @ variable_key v) rest"
        using "1.IH" [rule_format, of bs' "out @ [b]" "pre @ [b]"] step Cons
        by (auto simp: take_u8_reading)
      then show ?thesis using Cons False
        by (intro exI [where x = "b # v"] exI [where x = rest]) (simp add: variable_key_simps)
    next
      case True
      then obtain c bs'' where c: "bs' = c # bs''"
        using step Cons by (cases bs') (simp_all add: take_u8_reading)
      show ?thesis
      proof (cases "c = TERMINATOR")
        case True
        then show ?thesis using step Cons c \<open>b = ESCAPE\<close>
          by (intro exI [where x = "[]"] exI [where x = bs''])
            (simp add: take_u8_reading variable_key_simps)
      next
        case False
        then have z: "c = ESCAPED_ZERO"
          using step Cons c \<open>b = ESCAPE\<close> by (simp add: take_u8_reading split: if_splits)
        then obtain v rest where "x = (out @ [ESCAPE]) @ v" "bs'' = variable_key v @ rest"
          "r = reading k ((pre @ [b, c]) @ variable_key v) rest"
          using "1.IH" [rule_format, of bs'' "out @ [ESCAPE]" "pre @ [b, c]"] step Cons c False
            \<open>b = ESCAPE\<close>
          by (auto simp: take_u8_reading)
        then show ?thesis using Cons c z \<open>b = ESCAPE\<close>
          by (intro exI [where x = "ESCAPE # v"] exI [where x = rest])
            (simp add: variable_key_simps)
      qed
    qed
  qed
qed

lemma take_variable_InrD:
  assumes "take_variable (reading k pre bs) = Inr (v, r)"
  shows "\<exists>rest. bs = variable_key v @ rest \<and> r = reading k (pre @ variable_key v) rest"
  using take_variable_loop_InrD [OF assms [unfolded take_variable_def]] by auto

interpretation vark: key_canonical always variable_key "(<)" take_variable
  by unfold_locales (auto simp: variable_order take_variable_enc dest: take_variable_InrD)

text \<open>The escape is byte-local: the unterminated body of a prefix is a byte prefix
of the whole component exactly when the value begins with it.\<close>

lemma prefix_escape:
  "prefix (escape p) (variable_key v @ rest) \<longleftrightarrow> prefix p v"
proof (induction p arbitrary: v)
  case (Cons a p)
  then show ?case
    by (cases v) (auto simp: variable_key_simps ESCAPED_ZERO_def TERMINATOR_def)
qed simp

lemmas component_order =
  u8k.order u32k.order u64k.order desck.order i64k.order fixk.order vark.order

lemmas component_order_end =
  u32k.order_end u64k.order_end desck.order_end i64k.order_end vark.order_end

lemmas component_prefix =
  u8k.prefix_enc u32k.prefix_enc u64k.prefix_enc desck.prefix_enc i64k.prefix_enc
  fixk.prefix_enc vark.prefix_enc

section \<open>Properties\<close>

text \<open>The escaped components of variable length sort as the values they carry,
whatever follows them, and the unterminated body of a value is a byte prefix of
an encoded component exactly when the component's value begins with it.\<close>

theorem variable_component_order:
  "(variable_key x @ s < variable_key y @ t \<longleftrightarrow> x < y \<or> x = y \<and> s < t)
    \<and> (prefix (buffer (put_variable_unterminated p writer_new))
          (buffer (put_variable v writer_new) @ rest) \<longleftrightarrow> prefix p v)"
  by (simp add: variable_order prefix_escape put_simps)

text \<open>A reader gives back what the writer put, component by component: signed
integers, descending integers and escaped byte strings, at any offset of a key
and whatever follows them.\<close>

theorem components_round_trip:
  "take_i64 (reading k pre (buffer (put_i64 a writer_new) @ rest))
      = Inr (a, reading k (pre @ buffer (put_i64 a writer_new)) rest)
    \<and> take_u64_descending (reading k pre (buffer (put_u64_descending b writer_new) @ rest))
      = Inr (b, reading k (pre @ buffer (put_u64_descending b writer_new)) rest)
    \<and> take_variable (reading k pre (buffer (put_variable c writer_new) @ rest))
      = Inr (c, reading k (pre @ buffer (put_variable c writer_new)) rest)"
  by (simp add: put_simps take_simps)

end
