(* ===== verification/Reach.thy ===== *)
theory Reach
  imports Prelude
begin

text \<open>How far an authority reaches (reach.rs of tessari-types): the store, a
namespace, a database or one shard of a table, under containment.  The order and
its join are interpreted as a semilattice of the library, so that a join is the
narrowest reach that contains both.\<close>

type_synonym namespace_id = u32
type_synonym database_id = u32
type_synonym table_id = u32
type_synonym shard_id = u32

datatype reach =
    Store
  | Namespace namespace_id
  | Database namespace_id database_id
  | Shard namespace_id database_id table_id shard_id

fun reach_of :: "namespace_id option \<Rightarrow> database_id option \<Rightarrow> reach option" where
  "reach_of None None = Some Store"
| "reach_of (Some ns) None = Some (Namespace ns)"
| "reach_of (Some ns) (Some db) = Some (Database ns db)"
| "reach_of None (Some _) = None"

fun reach_parts :: "reach \<Rightarrow> namespace_id option \<times> database_id option" where
  "reach_parts Store = (None, None)"
| "reach_parts (Namespace ns) = (Some ns, None)"
| "reach_parts (Database ns db) = (Some ns, Some db)"
| "reach_parts (Shard ns db _ _) = (Some ns, Some db)"

fun contains :: "reach \<Rightarrow> reach \<Rightarrow> bool" where
  "contains Store _ \<longleftrightarrow> True"
| "contains (Namespace mine) (Namespace theirs) \<longleftrightarrow> mine = theirs"
| "contains (Namespace mine) (Database theirs _) \<longleftrightarrow> mine = theirs"
| "contains (Database ns db) (Database theirs their_database) \<longleftrightarrow>
    ns = theirs \<and> db = their_database"
| "contains (Namespace mine) (Shard theirs _ _ _) \<longleftrightarrow> mine = theirs"
| "contains (Database ns db) (Shard theirs their_database _ _) \<longleftrightarrow>
    ns = theirs \<and> db = their_database"
| "contains (Shard n d t s) (Shard n' d' t' s') \<longleftrightarrow> Shard n d t s = Shard n' d' t' s'"
| "contains (Namespace _) Store \<longleftrightarrow> False"
| "contains (Database _ _) Store \<longleftrightarrow> False"
| "contains (Shard _ _ _ _) Store \<longleftrightarrow> False"
| "contains (Database _ _) (Namespace _) \<longleftrightarrow> False"
| "contains (Shard _ _ _ _) (Namespace _) \<longleftrightarrow> False"
| "contains (Shard _ _ _ _) (Database _ _) \<longleftrightarrow> False"

definition join_databases ::
  "namespace_id \<Rightarrow> database_id \<Rightarrow> namespace_id \<Rightarrow> database_id \<Rightarrow> reach" where
  "join_databases mine my_database theirs their_database =
    (if mine \<noteq> theirs then Store
     else if my_database = their_database then Database mine my_database
     else Namespace mine)"

definition join_namespaces :: "namespace_id \<Rightarrow> namespace_id \<Rightarrow> reach" where
  "join_namespaces mine theirs = (if mine = theirs then Namespace mine else Store)"

fun join :: "reach \<Rightarrow> reach \<Rightarrow> reach" where
  "join Store _ = Store"
| "join (Namespace _) Store = Store"
| "join (Database _ _) Store = Store"
| "join (Shard _ _ _ _) Store = Store"
| "join (Namespace mine) (Namespace theirs) = join_namespaces mine theirs"
| "join (Namespace mine) (Database theirs _) = join_namespaces mine theirs"
| "join (Database theirs _) (Namespace mine) = join_namespaces mine theirs"
| "join (Database mine my_database) (Database theirs their_database) =
    join_databases mine my_database theirs their_database"
| "join (Shard n d t s) (Shard n' d' t' s') =
    (if Shard n d t s = Shard n' d' t' s' then Shard n d t s else join_databases n d n' d')"
| "join (Shard mine my_database _ _) (Database theirs their_database) =
    join_databases mine my_database theirs their_database"
| "join (Database mine my_database) (Shard theirs their_database _ _) =
    join_databases mine my_database theirs their_database"
| "join (Namespace mine) (Shard theirs _ _ _) = join_namespaces mine theirs"
| "join (Shard theirs _ _ _) (Namespace mine) = join_namespaces mine theirs"

lemmas join_defs = join_databases_def join_namespaces_def

lemma contains_refl: "contains a a"
  by (cases a) simp_all

lemma contains_antisym: "contains a b \<Longrightarrow> contains b a \<Longrightarrow> a = b"
  by (cases a; cases b) simp_all

lemma contains_trans: "contains a b \<Longrightarrow> contains b c \<Longrightarrow> contains a c"
  by (cases a; cases b; cases c) simp_all

lemma join_contains: "contains (join a b) a" "contains (join a b) b"
  by (cases a; cases b; simp add: join_defs)+

lemma join_least:
  assumes "contains c a" "contains c b"
  shows "contains c (join a b)"
  using assms by (cases a; cases b; cases c; simp add: join_defs)

text \<open>The laws of a semilattice follow from the least upper bound alone.\<close>

interpretation reach_join: semilattice_order join contains "\<lambda>a b. contains a b \<and> a \<noteq> b"
proof
  fix a b c
  show "join (join a b) c = join a (join b c)"
    by (rule contains_antisym) (meson join_contains join_least contains_trans)+
  show "join a b = join b a"
    by (rule contains_antisym) (meson join_contains join_least)+
  show "join a a = a"
    by (rule contains_antisym) (meson join_contains join_least contains_refl)+
  show "contains a b \<longleftrightarrow> a = join a b"
    by (metis contains_antisym contains_refl join_contains join_least)
  show "(contains a b \<and> a \<noteq> b) \<longleftrightarrow> a = join a b \<and> a \<noteq> b"
    by (metis contains_antisym contains_refl join_contains join_least)
qed

text \<open>The tenancy a reach describes gives the reach back, but for a shard, which
answers its database.\<close>

lemma reach_of_parts:
  "case_prod reach_of (reach_parts r) =
    Some (case r of Shard ns db _ _ \<Rightarrow> Database ns db | _ \<Rightarrow> r)"
  by (cases r) simp_all

lemma reach_parts_of: "reach_of ns db = Some r \<Longrightarrow> reach_parts r = (ns, db)"
  by (cases ns; cases db) auto

section \<open>Properties\<close>

text \<open>The join of two reaches is the narrowest reach that contains both, and the
order it is the join of is a partial order.\<close>

theorem join_is_least_upper_bound:
  "(contains c (join a b) \<longleftrightarrow> contains c a \<and> contains c b)
    \<and> (contains a b \<and> contains b a \<longleftrightarrow> a = b)
    \<and> join (join a b) c = join a (join b c)"
  using join_contains join_least contains_trans contains_antisym contains_refl reach_join.assoc
  by metis

end
