(* ===== verification/Store_Keys.thy ===== *)
theory Store_Keys
  imports Key_Order Reach
begin

text \<open>The components a store key is made of that are not plain integers (a
record id, a reach, the name of a log), and the two keys the store turns on: one
version of one record, and one entry of a log (record_id.rs, log_id.rs and
keys.rs of tessari-encoding).  A key type is an interpretation of \<open>store_key\<close>,
which makes its encoding injective and its prefixes exact.\<close>

section \<open>Record ids\<close>

datatype record_id = IdInt i64 | IdText bytes | IdUuid bytes | IdBytes bytes

text \<open>A text is the bytes of a string, which are UTF-8; a uuid is an array of
sixteen bytes.\<close>

fun record_id_wf :: "record_id \<Rightarrow> bool" where
  "record_id_wf (IdInt _) \<longleftrightarrow> True"
| "record_id_wf (IdText t) \<longleftrightarrow> utf8_valid t"
| "record_id_wf (IdUuid u) \<longleftrightarrow> width 16 u"
| "record_id_wf (IdBytes _) \<longleftrightarrow> True"

text \<open>The derived order: by variant, then by what the variant carries.\<close>

fun record_id_less :: "record_id \<Rightarrow> record_id \<Rightarrow> bool" where
  "record_id_less (IdInt a) (IdInt b) \<longleftrightarrow> sint a < sint b"
| "record_id_less (IdText a) (IdText b) \<longleftrightarrow> a < b"
| "record_id_less (IdUuid a) (IdUuid b) \<longleftrightarrow> a < b"
| "record_id_less (IdBytes a) (IdBytes b) \<longleftrightarrow> a < b"
| "record_id_less (IdInt _) _ \<longleftrightarrow> True"
| "record_id_less (IdText _) (IdInt _) \<longleftrightarrow> False"
| "record_id_less (IdText _) _ \<longleftrightarrow> True"
| "record_id_less (IdUuid _) (IdBytes _) \<longleftrightarrow> True"
| "record_id_less (IdUuid _) _ \<longleftrightarrow> False"
| "record_id_less (IdBytes _) _ \<longleftrightarrow> False"

definition ID_INT :: u8 where "ID_INT = 0x01"
definition ID_TEXT :: u8 where "ID_TEXT = 0x02"
definition ID_UUID :: u8 where "ID_UUID = 0x03"
definition ID_BYTES :: u8 where "ID_BYTES = 0x04"

lemmas id_tags = ID_INT_def ID_TEXT_def ID_UUID_def ID_BYTES_def

fun put_record_id :: "record_id \<Rightarrow> key_writer \<Rightarrow> key_writer" where
  "put_record_id (IdInt v) w = put_i64 v (put_u8 ID_INT w)"
| "put_record_id (IdText v) w = put_variable v (put_u8 ID_TEXT w)"
| "put_record_id (IdUuid v) w = put_fixed v (put_u8 ID_UUID w)"
| "put_record_id (IdBytes v) w = put_variable v (put_u8 ID_BYTES w)"

definition take_record_id :: "key_reader \<Rightarrow> enc_error + record_id \<times> key_reader" where
  "take_record_id r =
    (let offset = position r in
     bindR (take_u8 r) (\<lambda>(discriminant, r).
       if discriminant = ID_INT then bindR (take_i64 r) (\<lambda>(v, r). Inr (IdInt v, r))
       else if discriminant = ID_TEXT then
         bindR (take_variable r) (\<lambda>(bs, r).
           if utf8_valid bs then Inr (IdText bs, r) else Inl (InvalidUtf8 (kind r)))
       else if discriminant = ID_UUID then bindR (take_fixed 16 r) (\<lambda>(v, r). Inr (IdUuid v, r))
       else if discriminant = ID_BYTES then bindR (take_variable r) (\<lambda>(v, r). Inr (IdBytes v, r))
       else Inl (UnknownRecordIdKind (kind r) discriminant offset)))"

definition encode_record_id :: "record_id \<Rightarrow> bytes" where
  "encode_record_id i = writer_finish (put_record_id i writer_new)"

definition decode_record_id :: "bytes \<Rightarrow> enc_error + record_id" where
  "decode_record_id bs =
    bindR (take_record_id (reader_new Record bs)) (\<lambda>(i, r).
    bindR (reader_finish r) (\<lambda>_. Inr i))"

fun record_id_key :: "record_id \<Rightarrow> bytes" where
  "record_id_key (IdInt v) = ID_INT # i64_key v"
| "record_id_key (IdText v) = ID_TEXT # variable_key v"
| "record_id_key (IdUuid v) = ID_UUID # v"
| "record_id_key (IdBytes v) = ID_BYTES # variable_key v"

lemma buffer_put_record_id [put_simps]:
  "buffer (put_record_id i w) = buffer w @ record_id_key i"
  by (cases i) (simp_all add: put_simps)

lemma record_id_order:
  assumes "record_id_wf x" "record_id_wf y"
  shows "record_id_key x @ s < record_id_key y @ t
    \<longleftrightarrow> record_id_less x y \<or> x = y \<and> s < t"
  using assms by (cases x; cases y) (simp_all add: id_tags component_order)

lemma take_record_id_enc:
  assumes "record_id_wf x"
  shows "take_record_id (reading k pre (record_id_key x @ rest)) =
    Inr (x, reading k (pre @ record_id_key x) rest)"
  using assms by (cases x) (simp_all add: take_record_id_def take_simps id_tags width_def)

lemma take_record_id_InrD:
  assumes "take_record_id (reading k pre bs) = Inr (x, r)"
  shows "record_id_wf x \<and>
    (\<exists>rest. bs = record_id_key x @ rest \<and> r = reading k (pre @ record_id_key x) rest)"
  using assms
  by (auto simp: take_record_id_def Let_def bindR_eq_Inr split: if_splits
      dest!: u8k.take_only i64k.take_only vark.take_only fixk.take_only)

interpretation ridk: key_canonical record_id_wf record_id_key record_id_less take_record_id
  by unfold_locales (auto simp: record_id_order take_record_id_enc dest: take_record_id_InrD)

section \<open>Reaches and logs\<close>

definition REACH_LEN :: nat where "REACH_LEN = 9"
definition REACH_STORE :: u8 where "REACH_STORE = 0"
definition REACH_NAMESPACE :: u8 where "REACH_NAMESPACE = 1"
definition REACH_DATABASE :: u8 where "REACH_DATABASE = 2"
definition REACH_SHARD :: u8 where "REACH_SHARD = 3"

lemmas reach_tags = REACH_STORE_def REACH_NAMESPACE_def REACH_DATABASE_def REACH_SHARD_def

definition put_reach :: "reach \<Rightarrow> key_writer \<Rightarrow> key_writer" where
  "put_reach reach w =
    (let (variant, ns, db) =
       (case reach of
          Store \<Rightarrow> (REACH_STORE, 0, 0)
        | Namespace ns \<Rightarrow> (REACH_NAMESPACE, ns, 0)
        | Database ns db \<Rightarrow> (REACH_DATABASE, ns, db)
        | Shard ns db _ _ \<Rightarrow> (REACH_SHARD, ns, db));
       w = put_u8 variant w; w = put_u32 ns w; w = put_u32 db w
     in (case reach of
           Shard _ _ tb shard \<Rightarrow> put_u32 shard (put_u32 tb w)
         | _ \<Rightarrow> w))"

definition take_reach :: "key_reader \<Rightarrow> enc_error + reach \<times> key_reader" where
  "take_reach r =
    (let offset = position r in
     bindR (take_u8 r) (\<lambda>(variant, r).
     bindR (take_u32 r) (\<lambda>(ns, r).
     bindR (take_u32 r) (\<lambda>(db, r).
       if variant = REACH_STORE then Inr (Store, r)
       else if variant = REACH_NAMESPACE then Inr (Namespace ns, r)
       else if variant = REACH_DATABASE then Inr (Database ns db, r)
       else if variant = REACH_SHARD then
         bindR (take_u32 r) (\<lambda>(tb, r).
         bindR (take_u32 r) (\<lambda>(shard, r). Inr (Shard ns db tb shard, r)))
       else Inl (UnknownReach (kind r) variant offset)))))"

fun reach_less :: "reach \<Rightarrow> reach \<Rightarrow> bool" where
  "reach_less Store Store \<longleftrightarrow> False"
| "reach_less (Namespace a) (Namespace b) \<longleftrightarrow> a < b"
| "reach_less (Database a b) (Database c d) \<longleftrightarrow> a < c \<or> a = c \<and> b < d"
| "reach_less (Shard a b c d) (Shard e f g h) \<longleftrightarrow>
    a < e \<or> a = e \<and> (b < f \<or> b = f \<and> (c < g \<or> c = g \<and> d < h))"
| "reach_less Store _ \<longleftrightarrow> True"
| "reach_less (Namespace _) Store \<longleftrightarrow> False"
| "reach_less (Namespace _) _ \<longleftrightarrow> True"
| "reach_less (Database _ _) (Shard _ _ _ _) \<longleftrightarrow> True"
| "reach_less (Database _ _) _ \<longleftrightarrow> False"
| "reach_less (Shard _ _ _ _) _ \<longleftrightarrow> False"

fun reach_key :: "reach \<Rightarrow> bytes" where
  "reach_key Store = REACH_STORE # u32_bytes 0 @ u32_bytes 0"
| "reach_key (Namespace ns) = REACH_NAMESPACE # u32_bytes ns @ u32_bytes 0"
| "reach_key (Database ns db) = REACH_DATABASE # u32_bytes ns @ u32_bytes db"
| "reach_key (Shard ns db tb sh) =
    REACH_SHARD # u32_bytes ns @ u32_bytes db @ u32_bytes tb @ u32_bytes sh"

lemma buffer_put_reach [put_simps]: "buffer (put_reach r w) = buffer w @ reach_key r"
  by (cases r) (simp_all add: put_reach_def put_simps)

lemma reach_order:
  "reach_key x @ s < reach_key y @ t \<longleftrightarrow> reach_less x y \<or> x = y \<and> s < t"
  by (cases x; cases y) (auto simp: reach_tags component_order)

lemma take_reach_enc [take_simps]:
  "take_reach (reading k pre (reach_key x @ rest)) = Inr (x, reading k (pre @ reach_key x) rest)"
  by (cases x) (simp_all add: take_reach_def take_simps reach_tags)

interpretation reachk: key_codec always reach_key reach_less take_reach
  by unfold_locales (auto simp: reach_order take_reach_enc)

type_synonym writer_id = bytes

definition NODE_ID_LEN :: nat where "NODE_ID_LEN = 16"

definition LINE :: writer_id where "LINE = replicate NODE_ID_LEN 0"

definition UNATTRIBUTED :: writer_id where "UNATTRIBUTED = LINE"

record log_id =
  home :: reach
  log_writer :: writer_id

definition log_new :: "reach \<Rightarrow> writer_id \<Rightarrow> log_id" where
  "log_new h w = \<lparr>home = h, log_writer = w\<rparr>"

definition log_line :: "reach \<Rightarrow> log_id" where
  "log_line h = log_new h LINE"

definition log_unattributed :: "reach \<Rightarrow> log_id" where
  "log_unattributed h = log_new h UNATTRIBUTED"

definition log_wf :: "log_id \<Rightarrow> bool" where
  "log_wf l \<longleftrightarrow> width NODE_ID_LEN (log_writer l)"

definition put_log :: "log_id \<Rightarrow> key_writer \<Rightarrow> key_writer" where
  "put_log l w = put_fixed (log_writer l) (put_reach (home l) w)"

definition take_log :: "key_reader \<Rightarrow> enc_error + log_id \<times> key_reader" where
  "take_log r =
    bindR (take_reach r) (\<lambda>(h, r).
    bindR (take_fixed NODE_ID_LEN r) (\<lambda>(w, r). Inr (log_new h w, r)))"

definition log_less :: "log_id \<Rightarrow> log_id \<Rightarrow> bool" where
  "log_less a b \<longleftrightarrow>
    reach_less (home a) (home b) \<or> home a = home b \<and> log_writer a < log_writer b"

definition log_key :: "log_id \<Rightarrow> bytes" where
  "log_key l = reach_key (home l) @ log_writer l"

lemma buffer_put_log [put_simps]: "buffer (put_log l w) = buffer w @ log_key l"
  by (simp add: put_log_def put_simps log_key_def)

interpretation logk: key_codec log_wf log_key log_less take_log
proof
  fix x y :: log_id and s t
  assume "log_wf x" "log_wf y"
  then show "log_key x @ s < log_key y @ t \<longleftrightarrow> log_less x y \<or> x = y \<and> s < t"
    by (cases x; cases y)
      (auto simp: log_key_def log_less_def log_wf_def reach_order component_order)
next
  fix x :: log_id and k pre rest
  assume "log_wf x"
  then show "take_log (reading k pre (log_key x @ rest)) =
      Inr (x, reading k (pre @ log_key x) rest)"
    by (cases x) (simp add: take_log_def log_key_def log_wf_def width_def take_simps log_new_def)
qed

section \<open>The contract of a store key\<close>

text \<open>What \<^verbatim>\<open>StoreKey\<close> promises of a key type: what it encodes it decodes, and
every key is led by the tag of its kind.\<close>

locale store_key =
  fixes KIND :: key_kind
    and wf :: "'k \<Rightarrow> bool"
    and encode :: "'k \<Rightarrow> bytes"
    and decode :: "bytes \<Rightarrow> enc_error + 'k"
  assumes round_trip: "wf k \<Longrightarrow> decode (encode k) = Inr k"
    and tagged: "\<exists>body. encode k = tag KIND # body"
begin

lemma encode_inject: "wf k \<Longrightarrow> wf l \<Longrightarrow> encode k = encode l \<longleftrightarrow> k = l"
  by (metis round_trip sum.inject(2))

lemma hd_encode: "hd (encode k) = tag KIND" "encode k \<noteq> []"
  using tagged [of k] by auto

lemma kind_separates:
  "hd bs = tag other \<Longrightarrow> other \<noteq> KIND \<Longrightarrow> bs \<noteq> encode k"
  by (metis hd_encode(1) tag_inject)

end

text \<open>A key type whose byte order is the order of what it names.\<close>

locale ordered_store_key = store_key KIND wf encode decode
  for KIND :: key_kind and wf :: "'k \<Rightarrow> bool" and encode :: "'k \<Rightarrow> bytes"
    and decode :: "bytes \<Rightarrow> enc_error + 'k" +
  fixes lt :: "'k \<Rightarrow> 'k \<Rightarrow> bool"
  assumes encode_order: "wf k \<Longrightarrow> wf l \<Longrightarrow> encode k < encode l \<longleftrightarrow> lt k l"
begin

lemma lt_total: "wf k \<Longrightarrow> wf l \<Longrightarrow> lt k l \<or> k = l \<or> lt l k"
  using encode_order encode_inject by (metis linorder_less_linear)

lemma lt_trans: "wf k \<Longrightarrow> wf l \<Longrightarrow> wf m \<Longrightarrow> lt k l \<Longrightarrow> lt l m \<Longrightarrow> lt k m"
  using encode_order [of k l] encode_order [of l m] encode_order [of k m] by auto

end

text \<open>A key type that decodes nothing but its own encodings.\<close>

locale canonical_store_key = store_key KIND wf encode decode
  for KIND :: key_kind and wf :: "'k \<Rightarrow> bool" and encode :: "'k \<Rightarrow> bytes"
    and decode :: "bytes \<Rightarrow> enc_error + 'k" +
  assumes decode_only: "decode bs = Inr k \<Longrightarrow> wf k \<and> bs = encode k"
begin

lemma decode_iff: "decode bs = Inr k \<longleftrightarrow> wf k \<and> bs = encode k"
  using decode_only round_trip by auto

end

lemma expect_kind_InrD:
  assumes "expect_kind (reading k pre bs) = Inr (u, r)"
  shows "\<exists>rest. bs = tag k # rest \<and> r = reading k (pre @ [tag k]) rest"
proof (cases bs)
  case (Cons b bs')
  then show ?thesis using assms by (auto simp: expect_kind_reading split: if_splits)
qed (use assms in \<open>simp add: expect_kind_def take_u8_reading\<close>)

lemma finish_InrD:
  "reader_finish (reading k pre rest) = Inr u \<Longrightarrow> rest = []"
  by (simp add: finish_reading split: if_splits)

text \<open>The facts the proofs about key types share: what each component takes, what
a successful decode took, and the orders.\<close>

lemmas key_take = take_simps ridk.take_enc logk.take_enc ridk.take_enc_end logk.take_enc_end
  u32k.take_enc_end [OF TrueI] u64k.take_enc_end [OF TrueI] desck.take_enc_end [OF TrueI]
  reachk.take_enc_end [OF TrueI]

lemmas key_takeD = expect_kind_InrD finish_InrD u8k.take_only u32k.take_only u64k.take_only
  desck.take_only fixk.take_only vark.take_only ridk.take_only

lemmas key_order = component_order reach_order ridk.order logk.order

lemmas key_order_end = component_order_end ridk.order_end logk.order_end
  reachk.order_end [OF TrueI TrueI]

lemmas key_prefix = component_prefix reachk.prefix_enc ridk.prefix_enc logk.prefix_enc
  reachk.prefix_enc_self [OF TrueI TrueI] ridk.prefix_enc_self logk.prefix_enc_self

section \<open>One version of one record\<close>

type_synonym sequence = u64

record record_key =
  rk_namespace :: namespace_id
  rk_database :: database_id
  rk_table :: table_id
  rk_id :: record_id
  rk_version :: sequence

definition TABLE_PREFIX_LEN :: nat where "TABLE_PREFIX_LEN = 13"

definition record_table_prefix :: "namespace_id \<Rightarrow> database_id \<Rightarrow> table_id \<Rightarrow> bytes" where
  "record_table_prefix ns db tb =
    (let w = writer_new;
         w = put_u8 (tag Record) w; w = put_u32 ns w; w = put_u32 db w; w = put_u32 tb w
     in writer_finish w)"

definition versions_prefix ::
  "namespace_id \<Rightarrow> database_id \<Rightarrow> table_id \<Rightarrow> record_id \<Rightarrow> bytes" where
  "versions_prefix ns db tb i =
    (let w = writer_new;
         w = put_u8 (tag Record) w; w = put_u32 ns w; w = put_u32 db w; w = put_u32 tb w;
         w = put_record_id i w
     in writer_finish w)"

definition record_key_encode :: "record_key \<Rightarrow> bytes" where
  "record_key_encode k =
    versions_prefix (rk_namespace k) (rk_database k) (rk_table k) (rk_id k)
      @ u64_bytes (NOT (rk_version k))"

definition record_key_decode :: "bytes \<Rightarrow> enc_error + record_key" where
  "record_key_decode bs =
    bindR (expect_kind (reader_new Record bs)) (\<lambda>(_, r).
    bindR (take_u32 r) (\<lambda>(ns, r).
    bindR (take_u32 r) (\<lambda>(db, r).
    bindR (take_u32 r) (\<lambda>(tb, r).
    bindR (take_record_id r) (\<lambda>(i, r).
    bindR (take_u64_descending r) (\<lambda>(v, r).
    bindR (reader_finish r) (\<lambda>_.
      Inr \<lparr>rk_namespace = ns, rk_database = db, rk_table = tb, rk_id = i, rk_version = v\<rparr>)))))))"

definition record_key_wf :: "record_key \<Rightarrow> bool" where
  "record_key_wf k \<longleftrightarrow> record_id_wf (rk_id k)"

text \<open>The order of versions: by table, then by record, and among the versions of
one record the newest first.\<close>

definition record_key_less :: "record_key \<Rightarrow> record_key \<Rightarrow> bool" where
  "record_key_less a b \<longleftrightarrow>
    rk_namespace a < rk_namespace b \<or> rk_namespace a = rk_namespace b \<and>
    (rk_database a < rk_database b \<or> rk_database a = rk_database b \<and>
    (rk_table a < rk_table b \<or> rk_table a = rk_table b \<and>
    (record_id_less (rk_id a) (rk_id b) \<or> rk_id a = rk_id b \<and>
     rk_version b < rk_version a)))"

lemma table_prefix_bytes:
  "record_table_prefix ns db tb = tag Record # u32_bytes ns @ u32_bytes db @ u32_bytes tb"
  by (simp add: record_table_prefix_def put_simps)

lemma versions_prefix_bytes:
  "versions_prefix ns db tb i =
    tag Record # u32_bytes ns @ u32_bytes db @ u32_bytes tb @ record_id_key i"
  by (simp add: versions_prefix_def put_simps)

lemma record_key_bytes:
  "record_key_encode k = tag Record # u32_bytes (rk_namespace k) @ u32_bytes (rk_database k)
    @ u32_bytes (rk_table k) @ record_id_key (rk_id k) @ descending_key (rk_version k)"
  by (simp add: record_key_encode_def versions_prefix_bytes descending_key_def)

lemma record_key_decode_only:
  assumes "record_key_decode bs = Inr k"
  shows "record_key_wf k \<and> bs = record_key_encode k"
  using assms
  by (auto simp: record_key_decode_def reader_new_reading bindR_eq_Inr record_key_bytes
      record_key_wf_def dest!: key_takeD)

interpretation record_keys: ordered_store_key Record record_key_wf record_key_encode
  record_key_decode record_key_less
proof
  fix k l :: record_key
  assume wf: "record_key_wf k"
  then show "record_key_decode (record_key_encode k) = Inr k"
    by (cases k) (simp add: record_key_decode_def record_key_bytes record_key_wf_def key_take)
  assume "record_key_wf l"
  with wf show "record_key_encode k < record_key_encode l \<longleftrightarrow> record_key_less k l"
    by (simp add: record_key_bytes record_key_less_def record_key_wf_def key_order key_order_end)
qed (simp add: record_key_bytes)

interpretation record_keys_only: canonical_store_key Record record_key_wf record_key_encode
  record_key_decode
  by unfold_locales (rule record_key_decode_only)

lemma table_prefix_exact:
  "prefix (record_table_prefix ns db tb) (record_key_encode k) \<longleftrightarrow>
    ns = rk_namespace k \<and> db = rk_database k \<and> tb = rk_table k"
  by (simp add: table_prefix_bytes record_key_bytes key_prefix u32k.prefix_enc_self)

lemma versions_prefix_exact:
  assumes "record_id_wf i" "record_key_wf k"
  shows "prefix (versions_prefix ns db tb i) (record_key_encode k) \<longleftrightarrow>
    ns = rk_namespace k \<and> db = rk_database k \<and> tb = rk_table k \<and> i = rk_id k"
  using assms
  by (simp add: versions_prefix_bytes record_key_bytes key_prefix record_key_wf_def)

section \<open>One entry of a log\<close>

record log_entry_key =
  lk_log :: log_id
  lk_sequence :: sequence

definition log_prefix :: bytes where
  "log_prefix = [tag LogEntry]"

definition log_prefix_for :: "log_id \<Rightarrow> bytes" where
  "log_prefix_for l =
    (let w = writer_new; w = put_u8 (tag LogEntry) w; w = put_log l w in writer_finish w)"

definition log_prefix_for_home :: "reach \<Rightarrow> bytes" where
  "log_prefix_for_home h =
    (let w = writer_new; w = put_u8 (tag LogEntry) w; w = put_reach h w in writer_finish w)"

definition log_key_encode :: "log_entry_key \<Rightarrow> bytes" where
  "log_key_encode k =
    (let w = writer_new; w = put_u8 (tag LogEntry) w; w = put_log (lk_log k) w;
         w = put_u64 (lk_sequence k) w
     in writer_finish w)"

definition log_key_decode :: "bytes \<Rightarrow> enc_error + log_entry_key" where
  "log_key_decode bs =
    bindR (expect_kind (reader_new LogEntry bs)) (\<lambda>(_, r).
    bindR (take_log r) (\<lambda>(l, r).
    bindR (take_u64 r) (\<lambda>(s, r).
    bindR (reader_finish r) (\<lambda>_. Inr \<lparr>lk_log = l, lk_sequence = s\<rparr>))))"

definition log_key_wf :: "log_entry_key \<Rightarrow> bool" where
  "log_key_wf k \<longleftrightarrow> log_wf (lk_log k)"

text \<open>Entries of one log in the order of their positions, oldest first.\<close>

definition log_key_less :: "log_entry_key \<Rightarrow> log_entry_key \<Rightarrow> bool" where
  "log_key_less a b \<longleftrightarrow>
    log_less (lk_log a) (lk_log b) \<or> lk_log a = lk_log b \<and> lk_sequence a < lk_sequence b"

lemma log_key_bytes:
  "log_key_encode k = tag LogEntry # log_key (lk_log k) @ u64_bytes (lk_sequence k)"
  by (simp add: log_key_encode_def put_simps)

interpretation log_keys: ordered_store_key LogEntry log_key_wf log_key_encode log_key_decode
  log_key_less
proof
  fix k l :: log_entry_key
  assume wf: "log_key_wf k"
  then show "log_key_decode (log_key_encode k) = Inr k"
    by (cases k) (simp add: log_key_decode_def log_key_bytes log_key_wf_def key_take)
  assume "log_key_wf l"
  with wf show "log_key_encode k < log_key_encode l \<longleftrightarrow> log_key_less k l"
    by (simp add: log_key_bytes log_key_less_def log_key_wf_def key_order key_order_end)
qed (simp add: log_key_bytes)

lemma log_prefix_for_exact:
  assumes "log_wf l" "log_key_wf k"
  shows "prefix (log_prefix_for l) (log_key_encode k) \<longleftrightarrow> lk_log k = l"
  using assms
  by (auto simp: log_prefix_for_def put_simps log_key_bytes log_key_wf_def key_prefix)

lemma log_prefix_for_home_exact:
  "prefix (log_prefix_for_home h) (log_key_encode k) \<longleftrightarrow> home (lk_log k) = h"
  by (auto simp: log_prefix_for_home_def put_simps log_key_bytes log_key_def key_prefix)

text \<open>A reach is read with less than it is written with: the reader ignores the
identifiers a variant does not use, so two byte strings can name one log.\<close>

lemma take_reach_Store_any:
  "take_reach (reading k pre (REACH_STORE # u32_bytes a @ u32_bytes b @ rest)) =
    Inr (Store, reading k (pre @ REACH_STORE # u32_bytes a @ u32_bytes b) rest)"
  by (simp add: take_reach_def take_simps)

section \<open>Properties\<close>

text \<open>C31: the bytes of record keys sort as the versions they name: by namespace,
database, table and record, and among the versions of one record the newest
first.\<close>

theorem record_key_order:
  assumes "record_key_wf k" "record_key_wf l"
  shows "record_key_encode k < record_key_encode l \<longleftrightarrow> record_key_less k l"
  using assms by (rule record_keys.encode_order)

theorem record_key_order_witness:
  "record_key_encode \<lparr>rk_namespace = 1, rk_database = 2, rk_table = 3, rk_id = IdInt 7, rk_version = 9\<rparr>
    < record_key_encode \<lparr>rk_namespace = 1, rk_database = 2, rk_table = 3, rk_id = IdInt 7, rk_version = 4\<rparr>"
  using record_key_order
    [of "\<lparr>rk_namespace = 1, rk_database = 2, rk_table = 3, rk_id = IdInt 7, rk_version = 9\<rparr>"
      "\<lparr>rk_namespace = 1, rk_database = 2, rk_table = 3, rk_id = IdInt 7, rk_version = 4\<rparr>"]
  by (simp add: record_key_wf_def record_key_less_def)

text \<open>Decoding a record key accepts exactly the encodings of well-formed keys, so
that a key is one byte string and a byte string at most one key.\<close>

theorem record_key_canonical:
  "record_key_decode bs = Inr k \<longleftrightarrow> record_key_wf k \<and> bs = record_key_encode k"
  by (rule record_keys_only.decode_iff)

text \<open>Log keys sort by log and then by position, oldest first, decode to what was
encoded, and the prefix of a log covers exactly the entries of that log.\<close>

theorem log_key_order_and_prefix:
  assumes "log_key_wf k" "log_key_wf l" "log_wf g"
  shows "(log_key_encode k < log_key_encode l \<longleftrightarrow> log_key_less k l)
    \<and> log_key_decode (log_key_encode k) = Inr k
    \<and> (prefix (log_prefix_for g) (log_key_encode k) \<longleftrightarrow> lk_log k = g)
    \<and> (prefix (log_prefix_for_home h) (log_key_encode k) \<longleftrightarrow> home (lk_log k) = h)"
  using assms log_keys.encode_order log_keys.round_trip log_prefix_for_exact
    log_prefix_for_home_exact by blast

end
