(* ===== verification/Index_Keys.thy ===== *)
theory Index_Keys
  imports Store_Keys
begin

text \<open>The other keys of the store: the positions a node keeps of its logs
(keys/node.rs), the keys of a transaction across leaders (transaction_key.rs),
the orders of a topic (topic_key.rs), of expiring versions (expiry_key.rs) and of
a limited space (modified_key.rs), and a graph's adjacency (adjacency.rs).  Each
is an interpretation of the contracts of the theory Store_Keys, and each prefix
is shown to hold exactly the keys it is meant for.\<close>

section \<open>Positions of a log\<close>

text \<open>The applied position and the start of a log have one layout under two
kinds; each is named by its log alone.\<close>

definition applied_position_encode :: "log_id \<Rightarrow> bytes" where
  "applied_position_encode l =
    (let w = writer_new; w = put_u8 (tag AppliedPosition) w; w = put_log l w in writer_finish w)"

definition applied_position_decode :: "bytes \<Rightarrow> enc_error + log_id" where
  "applied_position_decode bs =
    bindR (expect_kind (reader_new AppliedPosition bs)) (\<lambda>(_, r).
    bindR (take_log r) (\<lambda>(l, r).
    bindR (reader_finish r) (\<lambda>_. Inr l)))"

definition applied_position_prefix_for_home :: "reach \<Rightarrow> bytes" where
  "applied_position_prefix_for_home h =
    (let w = writer_new; w = put_u8 (tag AppliedPosition) w; w = put_reach h w
     in writer_finish w)"

definition log_start_encode :: "log_id \<Rightarrow> bytes" where
  "log_start_encode l =
    (let w = writer_new; w = put_u8 (tag LogStart) w; w = put_log l w in writer_finish w)"

definition log_start_decode :: "bytes \<Rightarrow> enc_error + log_id" where
  "log_start_decode bs =
    bindR (expect_kind (reader_new LogStart bs)) (\<lambda>(_, r).
    bindR (take_log r) (\<lambda>(l, r).
    bindR (reader_finish r) (\<lambda>_. Inr l)))"

lemma applied_position_bytes: "applied_position_encode l = tag AppliedPosition # log_key l"
  by (simp add: applied_position_encode_def put_simps)

lemma log_start_bytes: "log_start_encode l = tag LogStart # log_key l"
  by (simp add: log_start_encode_def put_simps)

interpretation applied_keys: ordered_store_key AppliedPosition log_wf applied_position_encode
  applied_position_decode log_less
  by unfold_locales
    (simp_all add: applied_position_decode_def applied_position_bytes key_take key_order_end)

interpretation start_keys: ordered_store_key LogStart log_wf log_start_encode log_start_decode
  log_less
  by unfold_locales
    (simp_all add: log_start_decode_def log_start_bytes key_take key_order_end)

lemma applied_position_home_exact:
  "prefix (applied_position_prefix_for_home h) (applied_position_encode l) \<longleftrightarrow> home l = h"
  by (auto simp: applied_position_prefix_for_home_def put_simps applied_position_bytes log_key_def
      key_prefix)

text \<open>The keys a store holds once carry nothing but their tag.  Seven key types of
the node module have this encoding and this decoder, each with its own kind.\<close>

definition singleton_encode :: "key_kind \<Rightarrow> unit \<Rightarrow> bytes" where
  "singleton_encode k _ = [tag k]"

definition singleton_decode :: "key_kind \<Rightarrow> bytes \<Rightarrow> enc_error + unit" where
  "singleton_decode k bs =
    bindR (expect_kind (reader_new k bs)) (\<lambda>(_, r). bindR (reader_finish r) (\<lambda>_. Inr ()))"

interpretation singleton_keys: canonical_store_key k always "singleton_encode k"
  "singleton_decode k" for k
proof
  fix bs and u :: unit
  assume "singleton_decode k bs = Inr u"
  then show "True \<and> bs = singleton_encode k u"
    by (auto simp: singleton_decode_def singleton_encode_def reader_new_reading bindR_eq_Inr
        dest!: key_takeD)
qed (simp_all add: singleton_decode_def singleton_encode_def take_simps)

section \<open>Transactions across leaders\<close>

type_synonym transaction_id = bytes

definition TRANSACTION_ID_LEN :: nat where "TRANSACTION_ID_LEN = 16"

definition transaction_wf :: "transaction_id \<Rightarrow> bool" where
  "transaction_wf t \<longleftrightarrow> width TRANSACTION_ID_LEN t"

definition transaction_record_encode :: "transaction_id \<Rightarrow> bytes" where
  "transaction_record_encode t =
    (let w = writer_new; w = put_u8 (tag TransactionRecord) w; w = put_fixed t w
     in writer_finish w)"

definition transaction_record_decode :: "bytes \<Rightarrow> enc_error + transaction_id" where
  "transaction_record_decode bs =
    bindR (expect_kind (reader_new TransactionRecord bs)) (\<lambda>(_, r).
    bindR (take_fixed TRANSACTION_ID_LEN r) (\<lambda>(t, r).
    bindR (reader_finish r) (\<lambda>_. Inr t)))"

lemma transaction_record_bytes: "transaction_record_encode t = tag TransactionRecord # t"
  by (simp add: transaction_record_encode_def put_simps)

lemma take_transaction_end:
  "transaction_wf t \<Longrightarrow>
    take_fixed TRANSACTION_ID_LEN (reading k pre t) = Inr (t, reading k (pre @ t) [])"
  using fixk.take_enc_end by (simp add: transaction_wf_def)

lemma take_transaction:
  "transaction_wf t \<Longrightarrow>
    take_fixed TRANSACTION_ID_LEN (reading k pre (t @ rest)) = Inr (t, reading k (pre @ t) rest)"
  using fixk.take_enc by (simp add: transaction_wf_def)

lemma transaction_order:
  "transaction_wf a \<Longrightarrow> transaction_wf b \<Longrightarrow> a @ s < b @ t \<longleftrightarrow> a < b \<or> a = b \<and> s < t"
  using fixk.order by (simp add: transaction_wf_def)

lemma transaction_prefix:
  "transaction_wf a \<Longrightarrow> transaction_wf b \<Longrightarrow> prefix a (b @ t) \<longleftrightarrow> a = b"
  using fixk.prefix_enc_self by (simp add: transaction_wf_def)

interpretation transaction_keys: ordered_store_key TransactionRecord transaction_wf
  transaction_record_encode transaction_record_decode "(<)"
  by unfold_locales
    (simp_all add: transaction_record_decode_def transaction_record_bytes take_simps
      take_transaction_end)

text \<open>An intent and a resolved version of a transaction share one layout: the
transaction, then the record.\<close>

record intent_key =
  ik_transaction :: transaction_id
  ik_namespace :: namespace_id
  ik_database :: database_id
  ik_table :: table_id
  ik_id :: record_id

definition intent_of_prefix_of :: "transaction_id \<Rightarrow> bytes" where
  "intent_of_prefix_of t =
    (let w = writer_new; w = put_u8 (tag IntentOf) w; w = put_fixed t w in writer_finish w)"

definition intent_of_encode :: "intent_key \<Rightarrow> bytes" where
  "intent_of_encode k =
    (let w = writer_new; w = put_u8 (tag IntentOf) w; w = put_fixed (ik_transaction k) w;
         w = put_u32 (ik_namespace k) w; w = put_u32 (ik_database k) w;
         w = put_u32 (ik_table k) w; w = put_record_id (ik_id k) w
     in writer_finish w)"

definition intent_of_decode :: "bytes \<Rightarrow> enc_error + intent_key" where
  "intent_of_decode bs =
    bindR (expect_kind (reader_new IntentOf bs)) (\<lambda>(_, r).
    bindR (take_fixed TRANSACTION_ID_LEN r) (\<lambda>(t, r).
    bindR (take_u32 r) (\<lambda>(ns, r).
    bindR (take_u32 r) (\<lambda>(db, r).
    bindR (take_u32 r) (\<lambda>(tb, r).
    bindR (take_record_id r) (\<lambda>(i, r).
    bindR (reader_finish r) (\<lambda>_. Inr \<lparr>ik_transaction = t, ik_namespace = ns, ik_database = db, ik_table = tb,
      ik_id = i\<rparr>)))))))"

definition resolved_of_prefix_of :: "transaction_id \<Rightarrow> bytes" where
  "resolved_of_prefix_of t =
    (let w = writer_new; w = put_u8 (tag ResolvedOf) w; w = put_fixed t w in writer_finish w)"

definition resolved_of_encode :: "intent_key \<Rightarrow> bytes" where
  "resolved_of_encode k =
    (let w = writer_new; w = put_u8 (tag ResolvedOf) w; w = put_fixed (ik_transaction k) w;
         w = put_u32 (ik_namespace k) w; w = put_u32 (ik_database k) w;
         w = put_u32 (ik_table k) w; w = put_record_id (ik_id k) w
     in writer_finish w)"

definition resolved_of_decode :: "bytes \<Rightarrow> enc_error + intent_key" where
  "resolved_of_decode bs =
    bindR (expect_kind (reader_new ResolvedOf bs)) (\<lambda>(_, r).
    bindR (take_fixed TRANSACTION_ID_LEN r) (\<lambda>(t, r).
    bindR (take_u32 r) (\<lambda>(ns, r).
    bindR (take_u32 r) (\<lambda>(db, r).
    bindR (take_u32 r) (\<lambda>(tb, r).
    bindR (take_record_id r) (\<lambda>(i, r).
    bindR (reader_finish r) (\<lambda>_. Inr \<lparr>ik_transaction = t, ik_namespace = ns, ik_database = db, ik_table = tb,
      ik_id = i\<rparr>)))))))"

definition intent_prefix :: bytes where
  "intent_prefix = [tag IntentOf]"

definition intent_key_wf :: "intent_key \<Rightarrow> bool" where
  "intent_key_wf k \<longleftrightarrow> transaction_wf (ik_transaction k) \<and> record_id_wf (ik_id k)"

definition intent_key_less :: "intent_key \<Rightarrow> intent_key \<Rightarrow> bool" where
  "intent_key_less a b \<longleftrightarrow>
    ik_transaction a < ik_transaction b \<or> ik_transaction a = ik_transaction b \<and>
    (ik_namespace a < ik_namespace b \<or> ik_namespace a = ik_namespace b \<and>
    (ik_database a < ik_database b \<or> ik_database a = ik_database b \<and>
    (ik_table a < ik_table b \<or> ik_table a = ik_table b \<and> record_id_less (ik_id a) (ik_id b))))"

definition intent_body :: "intent_key \<Rightarrow> bytes" where
  "intent_body k = ik_transaction k @ u32_bytes (ik_namespace k) @ u32_bytes (ik_database k)
    @ u32_bytes (ik_table k) @ record_id_key (ik_id k)"

lemma intent_of_bytes: "intent_of_encode k = tag IntentOf # intent_body k"
  by (simp add: intent_of_encode_def put_simps intent_body_def)

lemma resolved_of_bytes: "resolved_of_encode k = tag ResolvedOf # intent_body k"
  by (simp add: resolved_of_encode_def put_simps intent_body_def)

lemma intent_body_order:
  assumes "intent_key_wf k" "intent_key_wf l"
  shows "intent_body k < intent_body l \<longleftrightarrow> intent_key_less k l"
  using assms
  by (auto simp: intent_body_def intent_key_wf_def intent_key_less_def transaction_order key_order
      key_order_end)

interpretation intent_keys: ordered_store_key IntentOf intent_key_wf intent_of_encode
  intent_of_decode intent_key_less
proof
  fix k :: intent_key
  assume "intent_key_wf k"
  then show "intent_of_decode (intent_of_encode k) = Inr k"
    by (cases k) (simp add: intent_of_decode_def intent_of_bytes intent_body_def intent_key_wf_def
        take_transaction key_take)
qed (simp_all add: intent_of_bytes intent_body_order)

interpretation resolved_keys: ordered_store_key ResolvedOf intent_key_wf resolved_of_encode
  resolved_of_decode intent_key_less
proof
  fix k :: intent_key
  assume "intent_key_wf k"
  then show "resolved_of_decode (resolved_of_encode k) = Inr k"
    by (cases k) (simp add: resolved_of_decode_def resolved_of_bytes intent_body_def
        intent_key_wf_def take_transaction key_take)
qed (simp_all add: resolved_of_bytes intent_body_order)

lemma intents_of_exact:
  assumes "transaction_wf t" "intent_key_wf k"
  shows "prefix (intent_of_prefix_of t) (intent_of_encode k) \<longleftrightarrow> ik_transaction k = t"
    and "prefix (resolved_of_prefix_of t) (resolved_of_encode k) \<longleftrightarrow> ik_transaction k = t"
  using assms
  by (auto simp: intent_of_prefix_of_def resolved_of_prefix_of_def put_simps intent_of_bytes
      resolved_of_bytes intent_body_def intent_key_wf_def transaction_prefix)

text \<open>Where a part of a transaction landed, and where it is barred: the transaction
and the range.\<close>

record part_key =
  pk_transaction :: transaction_id
  pk_range :: reach

definition across_part_encode :: "part_key \<Rightarrow> bytes" where
  "across_part_encode k =
    (let w = writer_new; w = put_u8 (tag AcrossPart) w; w = put_fixed (pk_transaction k) w;
         w = put_reach (pk_range k) w
     in writer_finish w)"

definition across_part_decode :: "bytes \<Rightarrow> enc_error + part_key" where
  "across_part_decode bs =
    bindR (expect_kind (reader_new AcrossPart bs)) (\<lambda>(_, r).
    bindR (take_fixed TRANSACTION_ID_LEN r) (\<lambda>(t, r).
    bindR (take_reach r) (\<lambda>(range, r).
    bindR (reader_finish r) (\<lambda>_. Inr \<lparr>pk_transaction = t, pk_range = range\<rparr>))))"

definition across_barred_encode :: "part_key \<Rightarrow> bytes" where
  "across_barred_encode k =
    (let w = writer_new; w = put_u8 (tag AcrossBarred) w; w = put_fixed (pk_transaction k) w;
         w = put_reach (pk_range k) w
     in writer_finish w)"

definition across_barred_decode :: "bytes \<Rightarrow> enc_error + part_key" where
  "across_barred_decode bs =
    bindR (expect_kind (reader_new AcrossBarred bs)) (\<lambda>(_, r).
    bindR (take_fixed TRANSACTION_ID_LEN r) (\<lambda>(t, r).
    bindR (take_reach r) (\<lambda>(range, r).
    bindR (reader_finish r) (\<lambda>_. Inr \<lparr>pk_transaction = t, pk_range = range\<rparr>))))"

definition part_key_wf :: "part_key \<Rightarrow> bool" where
  "part_key_wf k \<longleftrightarrow> transaction_wf (pk_transaction k)"

definition part_key_less :: "part_key \<Rightarrow> part_key \<Rightarrow> bool" where
  "part_key_less a b \<longleftrightarrow> pk_transaction a < pk_transaction b
    \<or> pk_transaction a = pk_transaction b \<and> reach_less (pk_range a) (pk_range b)"

lemma across_part_bytes:
  "across_part_encode k = tag AcrossPart # pk_transaction k @ reach_key (pk_range k)"
  by (simp add: across_part_encode_def put_simps)

lemma across_barred_bytes:
  "across_barred_encode k = tag AcrossBarred # pk_transaction k @ reach_key (pk_range k)"
  by (simp add: across_barred_encode_def put_simps)

interpretation part_keys: ordered_store_key AcrossPart part_key_wf across_part_encode
  across_part_decode part_key_less
proof
  fix k :: part_key
  assume "part_key_wf k"
  then show "across_part_decode (across_part_encode k) = Inr k"
    by (cases k) (simp add: across_part_decode_def across_part_bytes part_key_wf_def
        take_transaction key_take)
qed (simp_all add: across_part_bytes part_key_less_def part_key_wf_def transaction_order
    key_order_end)

interpretation barred_keys: ordered_store_key AcrossBarred part_key_wf across_barred_encode
  across_barred_decode part_key_less
proof
  fix k :: part_key
  assume "part_key_wf k"
  then show "across_barred_decode (across_barred_encode k) = Inr k"
    by (cases k) (simp add: across_barred_decode_def across_barred_bytes part_key_wf_def
        take_transaction key_take)
qed (simp_all add: across_barred_bytes part_key_less_def part_key_wf_def transaction_order
    key_order_end)

text \<open>The transactions part-way in a table.\<close>

record unsettled_key =
  uk_table :: table_id
  uk_transaction :: transaction_id

definition across_unsettled_prefix_of :: "table_id \<Rightarrow> bytes" where
  "across_unsettled_prefix_of tb =
    (let w = writer_new; w = put_u8 (tag AcrossUnsettled) w; w = put_u32 tb w
     in writer_finish w)"

definition across_unsettled_prefix :: bytes where
  "across_unsettled_prefix = [tag AcrossUnsettled]"

definition across_unsettled_encode :: "unsettled_key \<Rightarrow> bytes" where
  "across_unsettled_encode k =
    (let w = writer_new; w = put_u8 (tag AcrossUnsettled) w; w = put_u32 (uk_table k) w;
         w = put_fixed (uk_transaction k) w
     in writer_finish w)"

definition across_unsettled_decode :: "bytes \<Rightarrow> enc_error + unsettled_key" where
  "across_unsettled_decode bs =
    bindR (expect_kind (reader_new AcrossUnsettled bs)) (\<lambda>(_, r).
    bindR (take_u32 r) (\<lambda>(tb, r).
    bindR (take_fixed TRANSACTION_ID_LEN r) (\<lambda>(t, r).
    bindR (reader_finish r) (\<lambda>_. Inr \<lparr>uk_table = tb, uk_transaction = t\<rparr>))))"

definition across_unsettled_wf :: "unsettled_key \<Rightarrow> bool" where
  "across_unsettled_wf k \<longleftrightarrow> transaction_wf (uk_transaction k)"

definition across_unsettled_less :: "unsettled_key \<Rightarrow> unsettled_key \<Rightarrow> bool" where
  "across_unsettled_less a b \<longleftrightarrow> uk_table a < uk_table b
    \<or> uk_table a = uk_table b \<and> uk_transaction a < uk_transaction b"

lemma across_unsettled_bytes:
  "across_unsettled_encode k = tag AcrossUnsettled # u32_bytes (uk_table k) @ uk_transaction k"
  by (simp add: across_unsettled_encode_def put_simps)

interpretation unsettled_keys: ordered_store_key AcrossUnsettled across_unsettled_wf
  across_unsettled_encode across_unsettled_decode across_unsettled_less
proof
  fix k :: unsettled_key
  assume "across_unsettled_wf k"
  then show "across_unsettled_decode (across_unsettled_encode k) = Inr k"
    by (cases k) (simp add: across_unsettled_decode_def across_unsettled_bytes
        across_unsettled_wf_def take_transaction_end key_take)
qed (simp_all add: across_unsettled_bytes across_unsettled_less_def key_order)

lemma unsettled_of_exact:
  "prefix (across_unsettled_prefix_of tb) (across_unsettled_encode k) \<longleftrightarrow> uk_table k = tb"
  by (auto simp: across_unsettled_prefix_of_def put_simps across_unsettled_bytes
      u32k.prefix_enc_self)

section \<open>Properties\<close>

text \<open>The keys of a transaction across leaders decode to what was encoded, the
intents and the resolved versions of one transaction are exactly the keys under
its prefix, and the transactions unsettled in a table exactly those under the
table's prefix.\<close>

theorem transaction_keys_exact:
  assumes "intent_key_wf k" "transaction_wf t" "across_unsettled_wf u" "part_key_wf p"
  shows "intent_of_decode (intent_of_encode k) = Inr k
    \<and> resolved_of_decode (resolved_of_encode k) = Inr k
    \<and> across_part_decode (across_part_encode p) = Inr p
    \<and> across_barred_decode (across_barred_encode p) = Inr p
    \<and> across_unsettled_decode (across_unsettled_encode u) = Inr u
    \<and> (prefix (intent_of_prefix_of t) (intent_of_encode k) \<longleftrightarrow> ik_transaction k = t)
    \<and> (prefix (resolved_of_prefix_of t) (resolved_of_encode k) \<longleftrightarrow> ik_transaction k = t)
    \<and> (prefix (across_unsettled_prefix_of tb) (across_unsettled_encode u) \<longleftrightarrow> uk_table u = tb)"
  using assms intent_keys.round_trip resolved_keys.round_trip part_keys.round_trip
    barred_keys.round_trip unsettled_keys.round_trip intents_of_exact unsettled_of_exact by blast

end
