(* ===== verification/Across_Codec.thy ===== *)
theory Across_Codec
  imports Index_Keys
begin

unbundle bit_operations_syntax

text \<open>The common header of a stored value (value/mod.rs) and what the log and the
store say about a transaction across leaders (value/across.rs of
tessari-encoding): the section of a log record, the transaction record, the
provenance of a version and the bar on a part.  Each is a \<open>reader_codec\<close>: what is
put is taken back, whatever follows it.\<close>

section \<open>The header of a value\<close>

definition CODEC_VERSION :: u8 where "CODEC_VERSION = 1"
definition HEADER_LEN :: nat where "HEADER_LEN = 2"

definition with_header :: "u8 \<Rightarrow> bytes" where
  "with_header flags = [CODEC_VERSION, flags]"

definition split_header :: "bytes \<Rightarrow> u8 \<Rightarrow> enc_error + u8 \<times> bytes" where
  "split_header bs allowed =
    (case slice_get bs 0 HEADER_LEN of
       None \<Rightarrow> Inl (ValueTruncated (length bs) HEADER_LEN)
     | Some header \<Rightarrow>
         (let version = header ! 0; flags = header ! 1 in
          if version \<noteq> CODEC_VERSION then Inl (UnsupportedCodecVersion version CODEC_VERSION)
          else if flags AND NOT allowed \<noteq> 0 then Inl (ReservedFlags flags)
          else Inr (flags, drop HEADER_LEN bs)))"

lemma split_header_with:
  "split_header (with_header flags @ payload) allowed =
    (if flags AND NOT allowed = 0 then Inr (flags, payload) else Inl (ReservedFlags flags))"
  by (simp add: split_header_def with_header_def slice_get_def HEADER_LEN_def)

section \<open>The records of a transaction\<close>

datatype decision = Pending | Committed | Aborted | Staging

fun is_decided :: "decision \<Rightarrow> bool" where
  "is_decided Committed \<longleftrightarrow> True"
| "is_decided Aborted \<longleftrightarrow> True"
| "is_decided Pending \<longleftrightarrow> False"
| "is_decided Staging \<longleftrightarrow> False"

record participant =
  range :: reach
  prepared_at :: "sequence option"

record transaction_record =
  decision :: decision
  deadline :: u64
  participants :: "participant list"

datatype part =
    Prepare reach
  | Decide transaction_record
  | Resolve bool
  | Forget reach
  | Landed reach
  | Begin transaction_record
  | Conclude transaction_record
  | Prevent reach

fun part_record :: "part \<Rightarrow> transaction_record option" where
  "part_record (Decide r) = Some r"
| "part_record (Begin r) = Some r"
| "part_record (Conclude r) = Some r"
| "part_record (Prepare _) = None"
| "part_record (Resolve _) = None"
| "part_record (Forget _) = None"
| "part_record (Landed _) = None"
| "part_record (Prevent _) = None"

fun prepares :: "part \<Rightarrow> bool" where
  "prepares (Prepare _) \<longleftrightarrow> True"
| "prepares (Begin _) \<longleftrightarrow> True"
| "prepares _ \<longleftrightarrow> False"

fun resolution :: "part \<Rightarrow> bool option" where
  "resolution (Resolve committed) = Some committed"
| "resolution (Conclude r) = Some (decision r = Committed)"
| "resolution (Prepare _) = None"
| "resolution (Decide _) = None"
| "resolution (Forget _) = None"
| "resolution (Landed _) = None"
| "resolution (Begin _) = None"
| "resolution (Prevent _) = None"

record across =
  across_transaction :: transaction_id
  across_part :: part

record provenance =
  prov_transaction :: transaction_id
  provisional :: bool
  coordinator :: reach
  prov_participants :: "participant list"

section \<open>Participants\<close>

definition u32_count :: "nat \<Rightarrow> u32" where
  "u32_count n = (if n < 2 ^ 32 then word_of_nat n else - 1)"

definition put_participant :: "key_writer \<Rightarrow> participant \<Rightarrow> key_writer" where
  "put_participant w p =
    (let w = put_reach (range p) w in
     case prepared_at p of
       Some at \<Rightarrow> put_u64 at (put_u8 1 w)
     | None \<Rightarrow> put_u8 0 w)"

definition put_participants :: "participant list \<Rightarrow> key_writer \<Rightarrow> key_writer" where
  "put_participants ps w = foldl put_participant (put_u32 (u32_count (length ps)) w) ps"

definition take_participant :: "key_reader \<Rightarrow> enc_error + participant \<times> key_reader" where
  "take_participant r =
    bindR (take_reach r) (\<lambda>(rg, r).
    bindR (take_u8 r) (\<lambda>(b, r).
      if b = 0 then Inr (\<lparr>range = rg, prepared_at = None\<rparr>, r)
      else if b = 1 then
        bindR (take_u64 r) (\<lambda>(at, r). Inr (\<lparr>range = rg, prepared_at = Some at\<rparr>, r))
      else Inl (UnknownAcross ''prepare position'' b)))"

fun take_participants_loop ::
  "nat \<Rightarrow> participant list \<Rightarrow> key_reader \<Rightarrow> enc_error + participant list \<times> key_reader" where
  "take_participants_loop 0 ps r = Inr (ps, r)"
| "take_participants_loop (Suc n) ps r =
    bindR (take_participant r) (\<lambda>(p, r). take_participants_loop n (ps @ [p]) r)"

definition take_participants :: "key_reader \<Rightarrow> enc_error + participant list \<times> key_reader" where
  "take_participants r =
    bindR (take_u32 r) (\<lambda>(count, r). take_participants_loop (unat count) [] r)"

definition participant_bytes :: "participant \<Rightarrow> bytes" where
  "participant_bytes p = reach_key (range p) @
    (case prepared_at p of Some at \<Rightarrow> 1 # u64_bytes at | None \<Rightarrow> [0])"

definition participants_bytes :: "participant list \<Rightarrow> bytes" where
  "participants_bytes ps = u32_bytes (u32_count (length ps)) @ concat (map participant_bytes ps)"

definition participants_wf :: "participant list \<Rightarrow> bool" where
  "participants_wf ps \<longleftrightarrow> length ps < 2 ^ 32"

lemma buffer_put_participant: "buffer (put_participant w p) = buffer w @ participant_bytes p"
  by (simp add: put_participant_def participant_bytes_def put_simps split: option.splits)

lemma buffer_put_participants [put_simps]:
  "buffer (put_participants ps w) = buffer w @ participants_bytes ps"
proof -
  have "buffer (foldl put_participant w ps) = buffer w @ concat (map participant_bytes ps)" for w
    by (induction ps arbitrary: w) (simp_all add: buffer_put_participant)
  then show ?thesis by (simp add: put_participants_def participants_bytes_def put_simps)
qed

lemma take_participant_enc:
  "take_participant (reading k pre (participant_bytes p @ rest)) =
    Inr (p, reading k (pre @ participant_bytes p) rest)"
  by (cases p; cases "prepared_at p")
    (simp_all add: take_participant_def participant_bytes_def take_simps)

lemma take_participants_loop_enc:
  "take_participants_loop (length ps) qs (reading k pre (concat (map participant_bytes ps) @ rest))
    = Inr (qs @ ps, reading k (pre @ concat (map participant_bytes ps)) rest)"
  by (induction ps arbitrary: qs pre) (simp_all add: take_participant_enc)

lemma unat_u32_count: "n < 2 ^ 32 \<Longrightarrow> unat (u32_count n) = n"
  by (simp add: u32_count_def unat_of_nat take_bit_nat_eq_self)

interpretation participantsc: reader_codec participants_wf participants_bytes take_participants
proof
  fix x k pre rest
  assume "participants_wf x"
  then show "take_participants (reading k pre (participants_bytes x @ rest)) =
      Inr (x, reading k (pre @ participants_bytes x) rest)"
    by (simp add: take_participants_def participants_bytes_def participants_wf_def take_simps
        unat_u32_count take_participants_loop_enc)
qed

section \<open>The transaction record\<close>

fun decision_tag :: "decision \<Rightarrow> u8" where
  "decision_tag Pending = 0"
| "decision_tag Committed = 1"
| "decision_tag Aborted = 2"
| "decision_tag Staging = 3"

definition put_record :: "transaction_record \<Rightarrow> key_writer \<Rightarrow> key_writer" where
  "put_record r w =
    (let w = put_u8 (decision_tag (decision r)) w; w = put_u64 (deadline r) w
     in put_participants (participants r) w)"

definition decision_from_tag :: "u8 \<Rightarrow> enc_error + decision" where
  "decision_from_tag b =
    (if b = 0 then Inr Pending
     else if b = 1 then Inr Committed
     else if b = 2 then Inr Aborted
     else if b = 3 then Inr Staging
     else Inl (UnknownAcross ''decision'' b))"

definition take_record :: "key_reader \<Rightarrow> enc_error + transaction_record \<times> key_reader" where
  "take_record r =
    bindR (take_u8 r) (\<lambda>(b, r).
    bindR (decision_from_tag b) (\<lambda>d.
    bindR (take_u64 r) (\<lambda>(dl, r).
    bindR (take_participants r) (\<lambda>(ps, r).
      Inr (\<lparr>decision = d, deadline = dl, participants = ps\<rparr>, r)))))"

definition record_bytes :: "transaction_record \<Rightarrow> bytes" where
  "record_bytes r =
    decision_tag (decision r) # u64_bytes (deadline r) @ participants_bytes (participants r)"

definition record_wf :: "transaction_record \<Rightarrow> bool" where
  "record_wf r \<longleftrightarrow> participants_wf (participants r)"

lemma buffer_put_record [put_simps]: "buffer (put_record r w) = buffer w @ record_bytes r"
  by (simp add: put_record_def record_bytes_def put_simps)

lemma decision_round_trip [simp]: "decision_from_tag (decision_tag d) = Inr d"
  by (cases d) (simp_all add: decision_from_tag_def)

interpretation recordc: reader_codec record_wf record_bytes take_record
proof
  fix x k pre rest
  assume "record_wf x"
  then show "take_record (reading k pre (record_bytes x @ rest)) =
      Inr (x, reading k (pre @ record_bytes x) rest)"
    by (cases x) (simp add: take_record_def record_bytes_def record_wf_def take_simps
        participantsc.take_enc)
qed

definition record_encode :: "transaction_record \<Rightarrow> bytes" where
  "record_encode r = with_header 0 @ writer_finish (put_record r writer_new)"

definition record_decode :: "bytes \<Rightarrow> enc_error + transaction_record" where
  "record_decode bs =
    bindR (split_header bs 0) (\<lambda>(_, payload).
    bindR (take_record (reader_new TransactionRecord payload)) (\<lambda>(record, r).
    bindR (reader_finish r) (\<lambda>_. Inr record)))"

lemma record_round_trip: "record_wf r \<Longrightarrow> record_decode (record_encode r) = Inr r"
  by (simp add: record_decode_def record_encode_def split_header_with put_simps take_simps
      recordc.take_enc_end)

section \<open>The section of a log record\<close>

definition put_across :: "across \<Rightarrow> key_writer \<Rightarrow> key_writer" where
  "put_across a w =
    (let w = put_fixed (across_transaction a) w in
     case across_part a of
       Prepare c \<Rightarrow> put_reach c (put_u8 1 w)
     | Decide r \<Rightarrow> put_record r (put_u8 2 w)
     | Resolve committed \<Rightarrow> put_u8 (if committed then 1 else 0) (put_u8 3 w)
     | Forget c \<Rightarrow> put_reach c (put_u8 4 w)
     | Landed rg \<Rightarrow> put_reach rg (put_u8 5 w)
     | Begin r \<Rightarrow> put_record r (put_u8 6 w)
     | Conclude r \<Rightarrow> put_record r (put_u8 7 w)
     | Prevent rg \<Rightarrow> put_reach rg (put_u8 8 w))"

definition take_part :: "u8 \<Rightarrow> key_reader \<Rightarrow> enc_error + part \<times> key_reader" where
  "take_part b r =
    (if b = 1 then bindR (take_reach r) (\<lambda>(c, r). Inr (Prepare c, r))
     else if b = 2 then bindR (take_record r) (\<lambda>(t, r). Inr (Decide t, r))
     else if b = 3 then
       bindR (take_u8 r) (\<lambda>(c, r).
         if c = 0 then Inr (Resolve False, r)
         else if c = 1 then Inr (Resolve True, r)
         else Inl (UnknownAcross ''resolution'' c))
     else if b = 4 then bindR (take_reach r) (\<lambda>(c, r). Inr (Forget c, r))
     else if b = 5 then bindR (take_reach r) (\<lambda>(c, r). Inr (Landed c, r))
     else if b = 6 then bindR (take_record r) (\<lambda>(t, r). Inr (Begin t, r))
     else if b = 7 then bindR (take_record r) (\<lambda>(t, r). Inr (Conclude t, r))
     else if b = 8 then bindR (take_reach r) (\<lambda>(c, r). Inr (Prevent c, r))
     else Inl (UnknownAcross ''part'' b))"

definition take_across :: "key_reader \<Rightarrow> enc_error + across \<times> key_reader" where
  "take_across r =
    bindR (take_fixed TRANSACTION_ID_LEN r) (\<lambda>(t, r).
    bindR (take_u8 r) (\<lambda>(b, r).
    bindR (take_part b r) (\<lambda>(p, r).
      Inr (\<lparr>across_transaction = t, across_part = p\<rparr>, r))))"

fun part_bytes :: "part \<Rightarrow> bytes" where
  "part_bytes (Prepare c) = 1 # reach_key c"
| "part_bytes (Decide r) = 2 # record_bytes r"
| "part_bytes (Resolve committed) = [3, if committed then 1 else 0]"
| "part_bytes (Forget c) = 4 # reach_key c"
| "part_bytes (Landed c) = 5 # reach_key c"
| "part_bytes (Begin r) = 6 # record_bytes r"
| "part_bytes (Conclude r) = 7 # record_bytes r"
| "part_bytes (Prevent c) = 8 # reach_key c"

definition across_bytes :: "across \<Rightarrow> bytes" where
  "across_bytes a = across_transaction a @ part_bytes (across_part a)"

definition across_wf :: "across \<Rightarrow> bool" where
  "across_wf a \<longleftrightarrow> transaction_wf (across_transaction a)
    \<and> (case part_record (across_part a) of Some r \<Rightarrow> record_wf r | None \<Rightarrow> True)"

lemma buffer_put_across [put_simps]: "buffer (put_across a w) = buffer w @ across_bytes a"
  by (cases "across_part a") (simp_all add: put_across_def across_bytes_def put_simps)

interpretation acrossc: reader_codec across_wf across_bytes take_across
proof
  fix x k pre rest
  assume "across_wf x"
  then show "take_across (reading k pre (across_bytes x @ rest)) =
      Inr (x, reading k (pre @ across_bytes x) rest)"
    by (cases x; cases "across_part x")
      (simp_all add: take_across_def across_bytes_def across_wf_def take_part_def take_simps
        take_transaction recordc.take_enc)
qed

section \<open>The provenance of a version\<close>

definition put_provenance :: "provenance \<Rightarrow> key_writer \<Rightarrow> key_writer" where
  "put_provenance p w =
    (let w = put_fixed (prov_transaction p) w;
         w = put_u8 (if provisional p then 1 else 0) w;
         w = put_reach (coordinator p) w
     in if \<not> provisional p then put_participants (prov_participants p) w else w)"

definition take_provenance :: "key_reader \<Rightarrow> enc_error + provenance \<times> key_reader" where
  "take_provenance r =
    bindR (take_fixed TRANSACTION_ID_LEN r) (\<lambda>(t, r).
    bindR (take_u8 r) (\<lambda>(b, r).
      if b \<noteq> 0 \<and> b \<noteq> 1 then Inl (UnknownAcross ''provenance'' b)
      else
        bindR (take_reach r) (\<lambda>(c, r).
        bindR (if b = 1 then Inr ([], r) else take_participants r) (\<lambda>(ps, r).
          Inr (\<lparr>prov_transaction = t, provisional = (b = 1), coordinator = c,
            prov_participants = ps\<rparr>, r)))))"

definition provenance_bytes :: "provenance \<Rightarrow> bytes" where
  "provenance_bytes p = prov_transaction p @ (if provisional p then 1 else 0)
    # reach_key (coordinator p)
    @ (if provisional p then [] else participants_bytes (prov_participants p))"

text \<open>An intent names no participants: they are not written, so they are not read
back.\<close>

definition provenance_wf :: "provenance \<Rightarrow> bool" where
  "provenance_wf p \<longleftrightarrow> transaction_wf (prov_transaction p)
    \<and> (if provisional p then prov_participants p = [] else participants_wf (prov_participants p))"

lemma buffer_put_provenance [put_simps]:
  "buffer (put_provenance p w) = buffer w @ provenance_bytes p"
  by (simp add: put_provenance_def provenance_bytes_def put_simps)

interpretation provenancec: reader_codec provenance_wf provenance_bytes take_provenance
proof
  fix x k pre rest
  assume "provenance_wf x"
  then show "take_provenance (reading k pre (provenance_bytes x @ rest)) =
      Inr (x, reading k (pre @ provenance_bytes x) rest)"
    by (cases x; cases "provisional x")
      (simp_all add: take_provenance_def provenance_bytes_def provenance_wf_def take_simps
        take_transaction participantsc.take_enc)
qed

section \<open>The bar on a part\<close>

record barred =
  barred_version :: sequence
  written :: "(log_id \<times> sequence) option"

definition barred_encode :: "barred \<Rightarrow> bytes" where
  "barred_encode b =
    (let w = put_u64 (barred_version b) writer_new;
         w = (case written b of Some (l, at) \<Rightarrow> put_log l (put_u64 at w) | None \<Rightarrow> w)
     in with_header 0 @ writer_finish w)"

definition barred_decode :: "bytes \<Rightarrow> enc_error + barred" where
  "barred_decode bs =
    bindR (split_header bs 0) (\<lambda>(_, payload).
    bindR (take_u64 (reader_new AcrossBarred payload)) (\<lambda>(v, r).
    bindR (if remaining r = 0 then Inr (None, r)
           else
             bindR (take_u64 r) (\<lambda>(at, r).
             bindR (take_log r) (\<lambda>(l, r). Inr (Some (l, at), r)))) (\<lambda>(wr, r).
    bindR (reader_finish r) (\<lambda>_. Inr \<lparr>barred_version = v, written = wr\<rparr>))))"

definition barred_wf :: "barred \<Rightarrow> bool" where
  "barred_wf b \<longleftrightarrow> (case written b of Some (l, _) \<Rightarrow> log_wf l | None \<Rightarrow> True)"

lemma u64_bytes_not_Nil [simp]: "u64_bytes v \<noteq> []"
  using length_word_bytes(3) [of v] by (metis list.size(3) zero_neq_numeral)

lemma barred_round_trip: "barred_wf b \<Longrightarrow> barred_decode (barred_encode b) = Inr b"
  by (cases b; cases "written b")
    (auto simp: barred_decode_def barred_encode_def barred_wf_def split_header_with put_simps
      key_take)

section \<open>Properties\<close>

text \<open>The section of a log record about a transaction across leaders, whatever its
part, and the provenance of a version are read back as they were written, with
whatever follows them left unread.\<close>

theorem across_sections_round_trip:
  assumes "across_wf a" "provenance_wf p"
  shows "take_across (reading k pre (buffer (put_across a writer_new) @ rest))
      = Inr (a, reading k (pre @ buffer (put_across a writer_new)) rest)
    \<and> take_provenance (reading k pre (buffer (put_provenance p writer_new) @ rest))
      = Inr (p, reading k (pre @ buffer (put_provenance p writer_new)) rest)"
  using assms acrossc.take_enc provenancec.take_enc by (simp add: put_simps)

text \<open>The stored values of a transaction across leaders, its record and the bar on a
part, decode to what was encoded.\<close>

theorem across_values_round_trip:
  assumes "record_wf r" "barred_wf b"
  shows "record_decode (record_encode r) = Inr r \<and> barred_decode (barred_encode b) = Inr b"
  using assms record_round_trip barred_round_trip by blast

end
