(* ===== verification/Causal.thy ===== *)
theory Causal
  imports Key_Kinds
begin

text \<open>Causal stamps (causal.rs of tessari-encoding): what the writer of a version
had seen, one count per node, and the versions of a record that nothing has
superseded.  The one-pass comparison of two stamps is shown to be the pointwise
comparison of their counts, and the surviving versions to be the maximal ones of
all that were recorded.\<close>

section \<open>Stamps\<close>

type_synonym node_id = bytes
type_synonym entries = "(node_id \<times> u64) list"

datatype causal_order = Same | Before | After | Concurrent

record causal_stamp =
  entries :: entries

definition stamp_new :: causal_stamp where
  "stamp_new = \<lparr>entries = []\<rparr>"

text \<open>Binary search of the standard library, on a list in strict node order:
\<open>Inr\<close> the index that holds the node, \<open>Inl\<close> the index it would be inserted at.\<close>

definition binary_search :: "entries \<Rightarrow> node_id \<Rightarrow> nat + nat" where
  "binary_search es node =
    (let at = length (takeWhile (\<lambda>(held, _). held < node) es) in
     if at < length es \<and> fst (es ! at) = node then Inr at else Inl at)"

definition saturating_add_u64 :: "u64 \<Rightarrow> u64 \<Rightarrow> u64" where
  "saturating_add_u64 a b = (if unat a + unat b < 2 ^ 64 then a + b else - 1)"

definition advance :: "node_id \<Rightarrow> causal_stamp \<Rightarrow> causal_stamp" where
  "advance node s =
    (case binary_search (entries s) node of
       Inr at \<Rightarrow>
         s\<lparr>entries := (entries s)[at := (fst (entries s ! at),
             saturating_add_u64 (snd (entries s ! at)) 1)]\<rparr>
     | Inl at \<Rightarrow> s\<lparr>entries := take at (entries s) @ (node, 1) # drop at (entries s)\<rparr>)"

definition count :: "causal_stamp \<Rightarrow> node_id \<Rightarrow> u64" where
  "count s node =
    (case binary_search (entries s) node of
       Inr at \<Rightarrow> if at < length (entries s) then snd (entries s ! at) else 0
     | Inl _ \<Rightarrow> 0)"

fun entries_out_of_order :: "nat \<Rightarrow> entries \<Rightarrow> nat option" where
  "entries_out_of_order at (left # right # es) =
    (if fst left < fst right then entries_out_of_order (at + 1) (right # es) else Some (at + 1))"
| "entries_out_of_order at _ = None"

definition from_entries :: "entries \<Rightarrow> enc_error + causal_stamp" where
  "from_entries es =
    (case entries_out_of_order 0 es of
       Some at \<Rightarrow> Inl (StampOutOfOrder at)
     | None \<Rightarrow> Inr \<lparr>entries = es\<rparr>)"

fun compare_loop :: "entries \<Rightarrow> entries \<Rightarrow> bool \<Rightarrow> bool \<Rightarrow> bool \<times> bool" where
  "compare_loop [] [] we they = (we, they)"
| "compare_loop (_ # ours) [] we they = compare_loop ours [] True they"
| "compare_loop [] (_ # theirs) we they = compare_loop [] theirs we True"
| "compare_loop ((our_node, our_count) # ours) ((their_node, their_count) # theirs) we they =
    (if our_node = their_node then
       compare_loop ours theirs (we \<or> their_count < our_count) (they \<or> our_count < their_count)
     else if our_node < their_node then
       compare_loop ours ((their_node, their_count) # theirs) True they
     else compare_loop ((our_node, our_count) # ours) theirs we True)"

definition compare :: "causal_stamp \<Rightarrow> causal_stamp \<Rightarrow> causal_order" where
  "compare a b =
    (case compare_loop (entries a) (entries b) False False of
       (False, False) \<Rightarrow> Same
     | (True, False) \<Rightarrow> After
     | (False, True) \<Rightarrow> Before
     | (True, True) \<Rightarrow> Concurrent)"

definition descends :: "causal_stamp \<Rightarrow> causal_stamp \<Rightarrow> bool" where
  "descends a b \<longleftrightarrow> compare a b = After \<or> compare a b = Same"

section \<open>Surviving versions\<close>

record causal_versions =
  stamps :: "causal_stamp list"

definition versions_new :: causal_versions where
  "versions_new = \<lparr>stamps = []\<rparr>"

definition versions_record :: "causal_stamp \<Rightarrow> causal_versions \<Rightarrow> causal_versions" where
  "versions_record stamp vs =
    (if \<exists>held \<in> set (stamps vs). descends held stamp then vs
     else vs\<lparr>stamps := filter (\<lambda>held. \<not> descends stamp held) (stamps vs) @ [stamp]\<rparr>)"

definition is_contested :: "causal_versions \<Rightarrow> bool" where
  "is_contested vs \<longleftrightarrow> 1 < length (stamps vs)"

section \<open>The invariant of a stamp\<close>

text \<open>Entries are in strict node order and no stored count is zero.\<close>

definition stamp_ok :: "causal_stamp \<Rightarrow> bool" where
  "stamp_ok s \<longleftrightarrow> sorted_wrt (<) (map fst (entries s)) \<and> (\<forall>e \<in> set (entries s). snd e \<noteq> 0)"

definition seen :: "entries \<Rightarrow> node_id \<Rightarrow> u64" where
  "seen es node = (case map_of es node of Some c \<Rightarrow> c | None \<Rightarrow> 0)"

lemma seen_simps:
  "seen [] n = 0"
  "seen ((m, c) # es) n = (if n = m then c else seen es n)"
  by (simp_all add: seen_def)

lemma seen_append:
  "seen (xs @ ys) n = (if n \<in> fst ` set xs then seen xs n else seen ys n)"
proof -
  have "n \<notin> fst ` set xs \<longleftrightarrow> map_of xs n = None" by (simp add: map_of_eq_None_iff)
  then show ?thesis by (auto simp: seen_def map_add_def split: option.splits)
qed

lemma seen_below:
  assumes "\<And>e. e \<in> set es \<Longrightarrow> n < fst e"
  shows "seen es n = 0"
proof -
  have "map_of es n = None" using assms by (force simp: map_of_eq_None_iff)
  then show ?thesis by (simp add: seen_def)
qed

lemma binary_search_found:
  assumes "sorted_wrt (<) (map fst es)"
  shows "binary_search es n = Inr at \<Longrightarrow> at < length es \<and> fst (es ! at) = n \<and> seen es n = snd (es ! at)"
    and "binary_search es n = Inl at \<Longrightarrow> at \<le> length es \<and> seen es n = 0
      \<and> (\<forall>e \<in> set (take at es). fst e < n) \<and> (\<forall>e \<in> set (drop at es). n < fst e)"
proof -
  let ?at = "length (takeWhile (\<lambda>(held, _). held < n) es)"
  have d: "distinct (map fst es)" using assms by (simp add: strict_sorted_iff)
  {
    assume "binary_search es n = Inr at"
    then have at: "at < length es" "fst (es ! at) = n"
      by (auto simp: binary_search_def Let_def split: if_splits)
    then have "(n, snd (es ! at)) \<in> set es" by (metis nth_mem prod.collapse)
    then show "at < length es \<and> fst (es ! at) = n \<and> seen es n = snd (es ! at)"
      using at d by (simp add: seen_def)
  }
  assume "binary_search es n = Inl at"
  then have at: "at = ?at" "\<not> (at < length es \<and> fst (es ! at) = n)"
    by (auto simp: binary_search_def Let_def split: if_splits)
  have le: "at \<le> length es" using at(1) length_takeWhile_le by metis
  have before: "\<forall>e \<in> set (take at es). fst e < n"
    using at(1) by (auto simp: takeWhile_eq_take [symmetric] dest!: set_takeWhileD)
  have after: "\<forall>e \<in> set (drop at es). n < fst e"
  proof
    fix e assume "e \<in> set (drop at es)"
    then obtain i where i: "at + i < length es" "e = es ! (at + i)"
      by (rule in_set_dropE)
    then have lt: "at < length es" by simp
    then have "\<not> fst (es ! at) < n"
      using nth_length_takeWhile [of "\<lambda>(held, _). held < n" es] at(1) by (auto split: prod.splits)
    then have "n < fst (es ! at)" using at(2) lt by auto
    moreover have "fst (es ! at) \<le> fst (es ! (at + i))"
      using sorted_wrt_nth_less [OF assms, of at "at + i"] i by (cases "i = 0") auto
    ultimately show "n < fst e" using i by auto
  qed
  have "set es = set (take at es) \<union> set (drop at es)"
    by (metis append_take_drop_id set_append)
  then have "n \<notin> fst ` set es" using before after by auto
  then have "seen es n = 0" by (simp add: seen_def map_of_eq_None_iff [THEN iffD2])
  then show "at \<le> length es \<and> seen es n = 0
      \<and> (\<forall>e \<in> set (take at es). fst e < n) \<and> (\<forall>e \<in> set (drop at es). n < fst e)"
    using le before after by blast
qed

lemma count_seen:
  assumes "stamp_ok s"
  shows "count s n = seen (entries s) n"
  using binary_search_found [of "entries s" n] assms
  by (auto simp: count_def stamp_ok_def split: sum.splits)

section \<open>The comparison is pointwise\<close>

abbreviation entries_ok :: "entries \<Rightarrow> bool" where
  "entries_ok es \<equiv> sorted_wrt (<) (map fst es) \<and> (\<forall>e \<in> set es. snd e \<noteq> 0)"

abbreviation ahead :: "entries \<Rightarrow> entries \<Rightarrow> bool" where
  "ahead xs ys \<equiv> \<exists>n. seen ys n < seen xs n"

lemma ahead_Nil: "entries_ok (e # xs) \<Longrightarrow> ahead (e # xs) []" "\<not> ahead [] ys"
  by (cases e; force simp: seen_simps word_gt_0) (simp add: seen_simps)

lemma seen_tail_below:
  assumes "entries_ok ((m, c) # xs)" "n \<le> m"
  shows "seen xs n = 0"
  using assms by (intro seen_below) auto

lemma ahead_same_node:
  assumes "entries_ok ((n, c) # xs)" "entries_ok ((n, d) # ys)"
  shows "ahead ((n, c) # xs) ((n, d) # ys) \<longleftrightarrow> d < c \<or> ahead xs ys"
  using seen_tail_below [OF assms(1), of n] seen_tail_below [OF assms(2), of n]
  by (auto simp: seen_simps) (metis less_irrefl)

lemma ahead_our_node:
  assumes "entries_ok ((m, c) # xs)" "entries_ok ((n, d) # ys)" "m < n"
  shows "ahead ((m, c) # xs) ((n, d) # ys)"
    and "ahead ((n, d) # ys) ((m, c) # xs) \<longleftrightarrow> ahead ((n, d) # ys) xs"
proof -
  have z: "seen ((n, d) # ys) m = 0" using assms by (intro seen_below) auto
  have c: "0 < c" using assms(1) by (simp add: word_gt_0)
  show "ahead ((m, c) # xs) ((n, d) # ys)"
    using z c by (intro exI [where x = m]) (simp add: seen_simps(2) [of m])
  have "seen xs m = 0" using assms(1) by (intro seen_tail_below) auto
  then show "ahead ((n, d) # ys) ((m, c) # xs) \<longleftrightarrow> ahead ((n, d) # ys) xs"
    using z c by (metis (no_types) less_irrefl not_less_iff_gr_or_eq seen_simps(2) word_coorder.not_eq_extremum)
qed

lemma compare_loop_ahead:
  assumes "entries_ok xs" "entries_ok ys"
  shows "compare_loop xs ys we they = (we \<or> ahead xs ys, they \<or> ahead ys xs)"
  using assms
proof (induction xs ys we they rule: compare_loop.induct)
  case (1 we they)
  then show ?case by (simp add: seen_simps)
next
  case (2 e ours we they)
  then show ?case using ahead_Nil by auto
next
  case (3 e theirs we they)
  then show ?case using ahead_Nil by auto
next
  case (4 m c ours n d theirs we they)
  consider "m = n" | "m < n" | "n < m" by fastforce
  then show ?case
  proof cases
    case 1
    then show ?thesis using 4 ahead_same_node [of n c ours d theirs]
        ahead_same_node [of n d theirs c ours] by auto
  next
    case 2
    then show ?thesis using 4 ahead_our_node [of m c ours n d theirs] by auto
  next
    case 3
    then show ?thesis using 4 ahead_our_node [of n d theirs m c ours] by auto
  qed
qed

definition dominated :: "causal_stamp \<Rightarrow> causal_stamp \<Rightarrow> bool" where
  "dominated a b \<longleftrightarrow> (\<forall>n. count a n \<le> count b n)"

lemma dominated_ahead:
  assumes "stamp_ok a" "stamp_ok b"
  shows "dominated a b \<longleftrightarrow> \<not> ahead (entries a) (entries b)"
  using assms by (auto simp: dominated_def count_seen not_less)

lemma compare_dominated:
  assumes "stamp_ok a" "stamp_ok b"
  shows "compare a b =
    (if dominated a b then (if dominated b a then Same else Before)
     else if dominated b a then After else Concurrent)"
proof -
  have "compare_loop (entries a) (entries b) False False
      = (\<not> dominated a b, \<not> dominated b a)"
    using assms compare_loop_ahead [of "entries a" "entries b" False False]
      dominated_ahead [OF assms] dominated_ahead [OF assms(2,1)]
    by (simp add: stamp_ok_def)
  then show ?thesis by (simp add: compare_def)
qed

lemma descends_dominated:
  "stamp_ok a \<Longrightarrow> stamp_ok b \<Longrightarrow> descends a b \<longleftrightarrow> dominated b a"
  by (auto simp: descends_def compare_dominated)

lemma entries_of_counts:
  assumes "stamp_ok a"
  shows "set (entries a) = {(n, c). count a n = c \<and> c \<noteq> 0}"
proof -
  have d: "distinct (map fst (entries a))" and z: "\<forall>e \<in> set (entries a). snd e \<noteq> 0"
    using assms by (auto simp: stamp_ok_def strict_sorted_iff)
  show ?thesis
  proof
    show "set (entries a) \<subseteq> {(n, c). count a n = c \<and> c \<noteq> 0}"
      using d z by (auto simp: count_seen [OF assms] seen_def)
    show "{(n, c). count a n = c \<and> c \<noteq> 0} \<subseteq> set (entries a)"
      by (auto simp: count_seen [OF assms] seen_def dest: map_of_SomeD split: option.splits)
  qed
qed

text \<open>Stamps that record the same counts are the same stamp.\<close>

lemma dominated_antisym:
  assumes "stamp_ok a" "stamp_ok b" "dominated a b" "dominated b a"
  shows "a = b"
proof -
  have "count a n = count b n" for n using assms(3,4) by (simp add: dominated_def order.antisym)
  then have eq: "set (entries a) = set (entries b)"
    using entries_of_counts assms(1,2) by simp
  then have "map fst (entries a) = map fst (entries b)"
    using assms(1,2) by (intro strict_sorted_equal) (auto simp: stamp_ok_def)
  moreover have "distinct (map fst (entries a))"
    using assms(1) by (simp add: stamp_ok_def strict_sorted_iff)
  ultimately have "entries a = entries b" using eq by (rule assoc_list_eqI)
  then show ?thesis by simp
qed

section \<open>Every operation keeps the invariant\<close>

lemma stamp_ok_new: "stamp_ok stamp_new"
  by (simp add: stamp_new_def stamp_ok_def)

lemma saturating_add_u64_one_pos: "saturating_add_u64 c 1 \<noteq> 0"
proof (cases "unat c + 1 < 2 ^ 64")
  case True
  then have "unat (c + 1) = unat c + 1" by (simp add: unat_word_ariths)
  then have "c + 1 \<noteq> 0" by (metis add_is_0 one_neq_zero unat_0)
  then show ?thesis using True by (simp add: saturating_add_u64_def)
qed (simp add: saturating_add_u64_def)

lemma map_fst_update:
  "i < length es \<Longrightarrow> map fst (es[i := (fst (es ! i), c)]) = map fst es"
  by (simp add: map_update list_update_same_conv)

lemma advance_ok:
  assumes "stamp_ok s"
  shows "stamp_ok (advance n s)"
proof (cases "binary_search (entries s) n")
  case (Inr at)
  have at: "at < length (entries s)"
    using binary_search_found(1) Inr assms by (simp add: stamp_ok_def)
  have "\<forall>e \<in> set ((entries s)[at := (fst (entries s ! at),
      saturating_add_u64 (snd (entries s ! at)) 1)]). snd e \<noteq> 0"
    using assms set_update_subset_insert [of "entries s" at]
    by (fastforce simp: stamp_ok_def saturating_add_u64_one_pos)
  then show ?thesis
    using assms at Inr by (simp add: advance_def stamp_ok_def map_fst_update)
next
  case (Inl at)
  have at: "\<forall>e \<in> set (take at (entries s)). fst e < n" "\<forall>e \<in> set (drop at (entries s)). n < fst e"
    using binary_search_found(2) [OF _ Inl] assms by (auto simp: stamp_ok_def)
  have "map fst (entries s) = map fst (take at (entries s)) @ map fst (drop at (entries s))"
    by (metis append_take_drop_id map_append)
  then have "sorted_wrt (<) (map fst (take at (entries s)) @ map fst (drop at (entries s)))"
    using assms by (simp add: stamp_ok_def)
  then have "sorted_wrt (<) (map fst (take at (entries s) @ (n, 1) # drop at (entries s)))"
    using at by (auto simp: sorted_wrt_append)
  then show ?thesis using Inl assms
    by (auto simp: advance_def stamp_ok_def dest!: in_set_takeD in_set_dropD)
qed

lemma count_advance:
  assumes "stamp_ok s"
  shows "count (advance n s) m = (if m = n then saturating_add_u64 (count s n) 1 else count s m)"
proof -
  let ?es = "entries s"
  have ok: "sorted_wrt (<) (map fst ?es)" using assms by (simp add: stamp_ok_def)
  have c: "count (advance n s) m = seen (entries (advance n s)) m" "count s k = seen ?es k" for k
    using assms advance_ok by (simp_all add: count_seen)
  show ?thesis
  proof (cases "binary_search ?es n")
    case (Inr at)
    note found = binary_search_found(1) [OF ok Inr]
    let ?v = "saturating_add_u64 (snd (?es ! at)) 1"
    have d: "distinct (map fst ?es)" using ok by (simp add: strict_sorted_iff)
    have "map_of (?es[at := (fst (?es ! at), ?v)]) = (map_of ?es)(n \<mapsto> ?v)"
      using found map_of_update_nth [OF _ d, of at ?v] by simp
    then show ?thesis using c Inr found by (simp add: advance_def seen_def)
  next
    case (Inl at)
    note found = binary_search_found(2) [OF ok Inl]
    have n: "n \<notin> fst ` set (take at ?es)" using found by fastforce
    have "seen ?es m = seen (take at ?es @ drop at ?es) m" by simp
    then have "seen (take at ?es @ (n, 1) # drop at ?es) m = (if m = n then 1 else seen ?es m)"
      using n by (simp add: seen_append seen_simps del: append_take_drop_id)
    then show ?thesis using c Inl found
      by (simp add: advance_def) (simp add: saturating_add_u64_def)
  qed
qed

lemma from_entries_sorted:
  "entries_out_of_order at es = None \<longleftrightarrow> sorted_wrt (<) (map fst es)"
proof (induction at es rule: entries_out_of_order.induct)
  case (1 at l r es)
  have "sorted_wrt (<) (map fst (l # r # es)) \<longleftrightarrow> fst l < fst r \<and> sorted_wrt (<) (map fst (r # es))"
    by (auto dest: order.strict_trans)
  then show ?case using 1 by simp
qed simp_all

lemma from_entries_iff:
  "from_entries es = Inr s \<longleftrightarrow> s = \<lparr>entries = es\<rparr> \<and> sorted_wrt (<) (map fst es)"
  using from_entries_sorted [of 0 es] by (auto simp: from_entries_def split: option.splits)

section \<open>Survivors are the maximal versions\<close>

lemma dominated_refl: "dominated a a"
  by (simp add: dominated_def)

lemma dominated_trans: "dominated a b \<Longrightarrow> dominated b c \<Longrightarrow> dominated a c"
  unfolding dominated_def using order.trans by blast

text \<open>The stamps of a list that no other stamp of it descends.\<close>

definition maximal :: "causal_stamp set \<Rightarrow> causal_stamp set" where
  "maximal S = {s \<in> S. \<forall>t \<in> S. dominated s t \<longrightarrow> t = s}"

lemma below_maximal:
  assumes "finite S" "\<And>s. s \<in> S \<Longrightarrow> stamp_ok s" "s \<in> S"
  shows "\<exists>m \<in> maximal S. dominated s m"
  using assms
proof (induction "card {t \<in> S. dominated s t}" arbitrary: s rule: less_induct)
  case less
  show ?case
  proof (cases "s \<in> maximal S")
    case True
    then show ?thesis using dominated_refl by blast
  next
    case False
    then obtain t where t: "t \<in> S" "dominated s t" "t \<noteq> s"
      using less.prems(3) by (auto simp: maximal_def)
    have "{u \<in> S. dominated t u} \<subset> {u \<in> S. dominated s u}"
    proof
      show "{u \<in> S. dominated t u} \<subseteq> {u \<in> S. dominated s u}" using t dominated_trans by blast
      have "\<not> dominated t s" using t less.prems dominated_antisym by blast
      then show "{u \<in> S. dominated t u} \<noteq> {u \<in> S. dominated s u}"
        using less.prems(3) dominated_refl by blast
    qed
    then have "card {u \<in> S. dominated t u} < card {u \<in> S. dominated s u}"
      using less.prems(1) by (intro psubset_card_mono) auto
    from less.hyps [OF this less.prems(1,2) t(1)] show ?thesis using t dominated_trans by blast
  qed
qed

lemma maximal_insert_dominated:
  assumes "\<And>s. s \<in> insert x S \<Longrightarrow> stamp_ok s" "h \<in> maximal S" "dominated x h"
  shows "maximal (insert x S) = maximal S"
proof (cases "x \<in> S")
  case False
  have h: "h \<in> S" "h \<noteq> x" using assms(2) False by (auto simp: maximal_def)
  have "m = x" if "m \<in> maximal S" "dominated m x" for m
  proof -
    have "m \<in> S" "h = m" using that assms(2,3) h dominated_trans by (auto simp: maximal_def)
    then show ?thesis using that assms(1,3) dominated_antisym [of m x] by blast
  qed
  then show ?thesis using h False assms(3) by (auto simp: maximal_def)
qed (simp add: insert_absorb)

lemma maximal_insert_new:
  assumes "finite S" "\<And>s. s \<in> insert x S \<Longrightarrow> stamp_ok s"
    and new: "\<And>h. h \<in> maximal S \<Longrightarrow> \<not> dominated x h"
  shows "x \<notin> S" "maximal (insert x S) = insert x {s \<in> maximal S. \<not> dominated s x}"
proof -
  have none: "\<not> dominated x s" if "s \<in> S" for s
    using below_maximal [OF assms(1) _ that] assms(2) new dominated_trans by blast
  then show x: "x \<notin> S" using dominated_refl by blast
  show "maximal (insert x S) = insert x {s \<in> maximal S. \<not> dominated s x}"
    using none x by (auto simp: maximal_def)
qed

definition record_all :: "causal_stamp list \<Rightarrow> causal_versions" where
  "record_all xs = foldl (\<lambda>vs s. versions_record s vs) versions_new xs"

lemma record_all_snoc: "record_all (xs @ [x]) = versions_record x (record_all xs)"
  by (simp add: record_all_def)

lemma record_all_maximal:
  assumes "\<forall>s \<in> set xs. stamp_ok s"
  shows "set (stamps (record_all xs)) = maximal (set xs) \<and> distinct (stamps (record_all xs))"
  using assms
proof (induction xs rule: rev_induct)
  case Nil
  then show ?case by (simp add: record_all_def versions_new_def maximal_def)
next
  case (snoc x xs)
  let ?vs = "record_all xs"
  have ok: "\<And>s. s \<in> insert x (set xs) \<Longrightarrow> stamp_ok s" using snoc.prems by auto
  have V: "set (stamps ?vs) = maximal (set xs)" "distinct (stamps ?vs)" using snoc by auto
  have okV: "\<And>h. h \<in> set (stamps ?vs) \<Longrightarrow> stamp_ok h" using V(1) ok by (auto simp: maximal_def)
  have desc: "(\<exists>held \<in> set (stamps ?vs). descends held x) \<longleftrightarrow> (\<exists>h \<in> maximal (set xs). dominated x h)"
    using V(1) okV ok descends_dominated by (metis insertI1)
  show ?case
  proof (cases "\<exists>h \<in> maximal (set xs). dominated x h")
    case True
    then obtain h where h: "h \<in> maximal (set xs)" "dominated x h" by blast
    have "maximal (insert x (set xs)) = maximal (set xs)"
      using ok h by (rule maximal_insert_dominated)
    moreover have "record_all (xs @ [x]) = ?vs"
      unfolding record_all_snoc using desc True by (simp add: versions_record_def)
    ultimately show ?thesis using V by simp
  next
    case False
    have fresh: "\<And>h. h \<in> maximal (set xs) \<Longrightarrow> \<not> dominated x h" using False by blast
    have new: "x \<notin> set xs"
      "maximal (insert x (set xs)) = insert x {s \<in> maximal (set xs). \<not> dominated s x}"
      by (rule maximal_insert_new [OF finite_set ok fresh]; assumption)+
    have st: "stamps (record_all (xs @ [x])) = filter (\<lambda>held. \<not> descends x held) (stamps ?vs) @ [x]"
      unfolding record_all_snoc using desc False by (simp add: versions_record_def)
    have "set (filter (\<lambda>held. \<not> descends x held) (stamps ?vs))
        = {s \<in> maximal (set xs). \<not> dominated s x}"
      using V(1) okV ok descends_dominated by auto
    moreover have "x \<notin> set (stamps ?vs)" using new(1) V(1) by (auto simp: maximal_def)
    ultimately show ?thesis using st new(2) V by auto
  qed
qed

section \<open>Properties\<close>

text \<open>C38: the one-pass comparison of two causal stamps is the pointwise comparison of
their counts: after when every count of the other is reached and one exceeded,
before the other way round, the same when they agree and concurrent when each
has a count the other has not.\<close>

theorem causal_compare_pointwise:
  assumes "stamp_ok a" "stamp_ok b"
  shows "compare a b =
    (if \<forall>n. count a n \<le> count b n then (if \<forall>n. count b n \<le> count a n then Same else Before)
     else if \<forall>n. count b n \<le> count a n then After else Concurrent)"
  using compare_dominated [OF assms] by (simp add: dominated_def)

theorem causal_compare_pointwise_witness:
  "compare (advance [1] stamp_new) (advance [2] stamp_new) = Concurrent"
proof -
  have ok: "stamp_ok (advance [1] stamp_new)" "stamp_ok (advance [2] stamp_new)"
    by (simp_all add: advance_ok stamp_ok_new)
  have c: "count (advance n stamp_new) m = (if m = n then 1 else 0)" for n m
    by (simp add: count_advance [OF stamp_ok_new])
      (simp add: count_def stamp_new_def binary_search_def saturating_add_u64_def)
  have "\<exists>n. \<not> count (advance [1] stamp_new) n \<le> count (advance [2] stamp_new) n"
    "\<exists>n. \<not> count (advance [2] stamp_new) n \<le> count (advance [1] stamp_new) n"
    unfolding c by (rule exI [where x = "[1]"], simp) (rule exI [where x = "[2]"], simp)
  then show ?thesis using causal_compare_pointwise [OF ok] by auto
qed

text \<open>A write is after everything its writer had seen: advancing a node keeps the
stamp well formed, raises that node's count alone, and the advanced stamp is
after the old one unless the count was already at its width's maximum.\<close>

theorem causal_advance_after:
  assumes "stamp_ok s" "count s n < - 1"
  shows "stamp_ok (advance n s) \<and> compare (advance n s) s = After
    \<and> (\<forall>m. m \<noteq> n \<longrightarrow> count (advance n s) m = count s m)"
proof -
  have ok: "stamp_ok (advance n s)" using assms(1) by (rule advance_ok)
  have "unat (count s n) < unat (- 1 :: u64)" using assms(2) by (simp add: word_less_nat_alt)
  then have b: "unat (count s n) + 1 < 2 ^ 64" 
    by (simp add: unsigned_minus_1_eq_mask mask_eq_exp_minus_1)
  then have lt: "count s n < saturating_add_u64 (count s n) 1"
    by (simp add: saturating_add_u64_def word_less_nat_alt unat_word_ariths)
  have "dominated s (advance n s)" "\<not> dominated (advance n s) s"
    using lt by (auto simp: dominated_def count_advance [OF assms(1)] not_le)
  then show ?thesis
    using compare_dominated [OF ok assms(1)] ok by (simp add: count_advance [OF assms(1)])
qed

text \<open>C32: the surviving versions of a record are exactly the maximal ones of all that
were recorded, each once: what survives was not seen by any recorded write, what
is dropped was, and survivors are pairwise concurrent.\<close>

theorem causal_survivors_maximal:
  assumes "\<forall>s \<in> set xs. stamp_ok s"
  shows "set (stamps (record_all xs))
      = {s \<in> set xs. \<forall>t \<in> set xs. descends t s \<longrightarrow> t = s}
    \<and> distinct (stamps (record_all xs))
    \<and> (\<forall>a \<in> set (stamps (record_all xs)). \<forall>b \<in> set (stamps (record_all xs)).
          a \<noteq> b \<longrightarrow> compare a b = Concurrent)"
proof -
  have m: "set (stamps (record_all xs)) = {s \<in> set xs. \<forall>t \<in> set xs. descends t s \<longrightarrow> t = s}"
    using record_all_maximal [OF assms] assms descends_dominated
    by (auto simp: maximal_def)
  have "compare a b = Concurrent"
    if "a \<in> set (stamps (record_all xs))" "b \<in> set (stamps (record_all xs))" "a \<noteq> b" for a b
  proof -
    have "stamp_ok a" "stamp_ok b" "\<not> dominated a b" "\<not> dominated b a"
      using that record_all_maximal [OF assms] assms by (auto simp: maximal_def)
    then show ?thesis by (simp add: compare_dominated)
  qed
  then show ?thesis using m record_all_maximal [OF assms] by blast
qed

theorem causal_survivors_maximal_witness:
  "set (stamps (record_all [stamp_new])) = {stamp_new}"
  using causal_survivors_maximal [of "[stamp_new]"] by (auto simp: stamp_ok_new)

text \<open>A decoded stamp may hold a count of zero, which no writer stores: the order of
the entries is checked and the counts are not, and the comparison then puts a
stamp after another with the same counts.\<close>

theorem causal_zero_count_accepted:
  "\<exists>a b. from_entries [([1], 0)] = Inr a \<and> from_entries [] = Inr b
    \<and> (\<forall>n. count a n = count b n) \<and> compare a b = After"
proof -
  have "count \<lparr>entries = [([1], 0)]\<rparr> n = 0" "count \<lparr>entries = []\<rparr> n = 0" for n
    by (auto simp: count_def binary_search_def split: sum.splits if_splits)
  then show ?thesis by (simp add: from_entries_def compare_def)
qed

end
