(* ===== verification/Stamped_Value.thy ===== *)
theory Stamped_Value
  imports Across_Codec Causal
begin

unbundle bit_operations_syntax

text \<open>One version of one record as the store holds it (value/mod.rs,
value/stamped.rs and value/expiry.rs of tessari-encoding): what the record
became, the causal stamp of its writer, the instants it and its fields stop
being answered at, and the transaction across leaders it came from.  The codec
gives back every well-formed version, with what a deletion does not carry
dropped.\<close>

section \<open>Versions\<close>

definition FLAG_TOMBSTONE :: u8 where "FLAG_TOMBSTONE = 0x01"
definition FLAG_EPOCH :: u8 where "FLAG_EPOCH = 0x02"
definition FLAG_STAMP :: u8 where "FLAG_STAMP = 0x04"
definition FLAG_SHARDS :: u8 where "FLAG_SHARDS = 0x08"
definition FLAG_ORDER :: u8 where "FLAG_ORDER = 0x10"
definition FLAG_EXPIRES :: u8 where "FLAG_EXPIRES = 0x20"
definition FLAG_ACROSS :: u8 where "FLAG_ACROSS = 0x40"
definition FLAG_FIELDS :: u8 where "FLAG_FIELDS = 0x80"

lemmas flags_defs = FLAG_TOMBSTONE_def FLAG_EPOCH_def FLAG_STAMP_def FLAG_SHARDS_def
  FLAG_ORDER_def FLAG_EXPIRES_def FLAG_ACROSS_def FLAG_FIELDS_def

datatype record_value = Present bytes | Tombstone

fun is_tombstone :: "record_value \<Rightarrow> bool" where
  "is_tombstone Tombstone \<longleftrightarrow> True"
| "is_tombstone (Present _) \<longleftrightarrow> False"

fun payload :: "record_value \<Rightarrow> bytes" where
  "payload (Present p) = p"
| "payload Tombstone = []"

definition record_value_encode :: "record_value \<Rightarrow> bytes" where
  "record_value_encode v =
    (case v of Present p \<Rightarrow> with_header 0 @ p | Tombstone \<Rightarrow> with_header FLAG_TOMBSTONE)"

definition record_value_decode :: "bytes \<Rightarrow> enc_error + record_value" where
  "record_value_decode bs =
    bindR (split_header bs FLAG_TOMBSTONE) (\<lambda>(flags, p).
      if flags AND FLAG_TOMBSTONE = 0 then Inr (Present p)
      else if p = [] then Inr Tombstone
      else Inl (TombstoneWithPayload (length p)))"

type_synonym field_instants = "(bytes \<times> u64) list"

record stamped_value =
  sv_value :: record_value
  sv_stamp :: causal_stamp
  sv_expires :: "u64 option"
  sv_provenance :: "provenance option"
  sv_field_expiry :: field_instants

definition stamped_new :: "record_value \<Rightarrow> stamped_value" where
  "stamped_new v = \<lparr>sv_value = v, sv_stamp = stamp_new, sv_expires = None, sv_provenance = None,
     sv_field_expiry = []\<rparr>"

definition stamped :: "causal_stamp \<Rightarrow> record_value \<Rightarrow> stamped_value" where
  "stamped s v = \<lparr>sv_value = v, sv_stamp = s, sv_expires = None, sv_provenance = None,
     sv_field_expiry = []\<rparr>"

definition from_transaction :: "provenance \<Rightarrow> stamped_value \<Rightarrow> stamped_value" where
  "from_transaction p v = v\<lparr>sv_provenance := Some p\<rparr>"

definition settled :: "stamped_value \<Rightarrow> stamped_value" where
  "settled v = v\<lparr>sv_provenance := None\<rparr>"

section \<open>Expiry\<close>

definition expiring :: "u64 \<Rightarrow> stamped_value \<Rightarrow> stamped_value" where
  "expiring at v = v\<lparr>sv_expires := Some at\<rparr>"

definition expires :: "stamped_value \<Rightarrow> u64 option" where
  "expires v = (case sv_value v of Present _ \<Rightarrow> sv_expires v | Tombstone \<Rightarrow> None)"

definition is_expired_at :: "u64 \<Rightarrow> stamped_value \<Rightarrow> bool" where
  "is_expired_at now v = (case expires v of Some at \<Rightarrow> at \<le> now | None \<Rightarrow> False)"

text \<open>Adjacent duplicates are removed, the first of a run kept, as
\<^verbatim>\<open>dedup_by\<close> does.\<close>

fun dedup_fields :: "field_instants \<Rightarrow> field_instants" where
  "dedup_fields (a # b # fs) =
    (if fst b = fst a then dedup_fields (a # fs) else a # dedup_fields (b # fs))"
| "dedup_fields fs = fs"

definition with_field_expiry :: "field_instants \<Rightarrow> stamped_value \<Rightarrow> stamped_value" where
  "with_field_expiry fs v =
    v\<lparr>sv_field_expiry := dedup_fields (sort_key fst (rev fs))\<rparr>"

definition field_expiry :: "stamped_value \<Rightarrow> field_instants" where
  "field_expiry v = (case sv_value v of Present _ \<Rightarrow> sv_field_expiry v | Tombstone \<Rightarrow> [])"

definition COUNT_LEN :: nat where "COUNT_LEN = 4"
definition EXPIRES_LEN :: nat where "EXPIRES_LEN = 8"

definition field_written :: "bytes \<times> u64 \<Rightarrow> bytes" where
  "field_written f = u32_bytes (u32_count (length (fst f))) @ fst f @ u64_bytes (snd f)"

definition fields_written :: "field_instants \<Rightarrow> bytes" where
  "fields_written fs =
    (if fs = [] then []
     else u32_bytes (u32_count (length fs)) @ concat (map field_written fs))"

definition take_at :: "nat \<Rightarrow> bytes \<Rightarrow> nat \<Rightarrow> nat \<Rightarrow> enc_error + bytes" where
  "take_at whole rest at len =
    (case slice_get rest at (at + len) of
       Some bs \<Rightarrow> Inr bs
     | None \<Rightarrow> Inl (ValueTruncated whole (whole - length rest + at + len)))"

fun split_fields_loop ::
  "nat \<Rightarrow> nat \<Rightarrow> bytes \<Rightarrow> nat \<Rightarrow> field_instants \<Rightarrow> enc_error + field_instants \<times> nat" where
  "split_fields_loop 0 whole rest at fs = Inr (fs, at)"
| "split_fields_loop (Suc n) whole rest at fs =
    bindR (take_at whole rest at COUNT_LEN) (\<lambda>head.
      let len = unat (u32_value head); at = at + COUNT_LEN in
      bindR (take_at whole rest at len) (\<lambda>name.
        if \<not> utf8_valid name then Inl (ValueTruncated whole whole)
        else
          (let at = at + len in
           bindR (take_at whole rest at EXPIRES_LEN) (\<lambda>instant.
             split_fields_loop n whole rest (at + EXPIRES_LEN)
               (fs @ [(name, u64_value instant)])))))"

definition split_fields :: "nat \<Rightarrow> bytes \<Rightarrow> enc_error + field_instants \<times> bytes" where
  "split_fields whole rest =
    bindR (take_at whole rest 0 COUNT_LEN) (\<lambda>head.
    bindR (split_fields_loop (unat (u32_value head)) whole rest COUNT_LEN []) (\<lambda>(fs, at).
      Inr (fs, drop at rest)))"

definition split_expiry :: "nat \<Rightarrow> bytes \<Rightarrow> enc_error + u64 \<times> bytes" where
  "split_expiry whole rest =
    (case slice_get rest 0 EXPIRES_LEN of
       None \<Rightarrow> Inl (ValueTruncated whole (whole - length rest + EXPIRES_LEN))
     | Some head \<Rightarrow> Inr (u64_value head, drop EXPIRES_LEN rest))"

section \<open>The codec\<close>

definition STAMP_COUNT_LEN :: nat where "STAMP_COUNT_LEN = 4"
definition STAMP_ENTRY_LEN :: nat where "STAMP_ENTRY_LEN = 24"

text \<open>The body of a stamp is a whole number of entries, each of which is exactly a
node and a count; the truncation errors the loop could raise inside an entry
have no entry to be raised on.\<close>

function stamp_entries :: "bytes \<Rightarrow> entries" where
  "stamp_entries body =
    (if length body < STAMP_ENTRY_LEN then []
     else (take NODE_ID_LEN body, u64_value (drop NODE_ID_LEN (take STAMP_ENTRY_LEN body)))
       # stamp_entries (drop STAMP_ENTRY_LEN body))"
  by pat_completeness auto
termination
  by (relation "measure length") (auto simp: STAMP_ENTRY_LEN_def)

declare stamp_entries.simps [simp del]

definition split_stamp :: "bytes \<Rightarrow> enc_error + causal_stamp \<times> u8 \<times> bytes" where
  "split_stamp bs =
    bindR (split_header bs (FLAG_TOMBSTONE OR FLAG_STAMP OR FLAG_EXPIRES OR FLAG_ACROSS
      OR FLAG_FIELDS)) (\<lambda>(flags, p).
      if flags AND FLAG_STAMP = 0 then Inr (stamp_new, flags, p)
      else
        (case slice_get p 0 STAMP_COUNT_LEN of
           None \<Rightarrow> Inl (ValueTruncated (length bs) (HEADER_LEN + STAMP_COUNT_LEN))
         | Some raw \<Rightarrow>
             (let span = unat (u32_value raw) * STAMP_ENTRY_LEN in
              case slice_get p STAMP_COUNT_LEN (STAMP_COUNT_LEN + span) of
                None \<Rightarrow> Inl (ValueTruncated (length bs) (HEADER_LEN + STAMP_COUNT_LEN + span))
              | Some body \<Rightarrow>
                  bindR (from_entries (stamp_entries body)) (\<lambda>s.
                    Inr (s, flags, drop (STAMP_COUNT_LEN + span) p)))))"

definition entry_bytes :: "node_id \<times> u64 \<Rightarrow> bytes" where
  "entry_bytes e = fst e @ u64_bytes (snd e)"

definition stamped_encode :: "stamped_value \<Rightarrow> bytes" where
  "stamped_encode v =
    (let es = entries (sv_stamp v);
         flags = (if is_tombstone (sv_value v) then FLAG_TOMBSTONE else 0);
         flags = (if es \<noteq> [] then flags OR FLAG_STAMP else flags);
         ex = (if \<not> is_tombstone (sv_value v) then sv_expires v else None);
         flags = (if ex \<noteq> None then flags OR FLAG_EXPIRES else flags);
         prov = map_option (\<lambda>p. writer_finish (put_provenance p writer_new)) (sv_provenance v);
         flags = (if prov \<noteq> None then flags OR FLAG_ACROSS else flags);
         fb = (if is_tombstone (sv_value v) then [] else fields_written (sv_field_expiry v));
         flags = (if fb \<noteq> [] then flags OR FLAG_FIELDS else flags)
     in with_header flags
        @ (if es \<noteq> [] then u32_bytes (u32_count (length es)) @ concat (map entry_bytes es) else [])
        @ (case ex of Some at \<Rightarrow> u64_bytes at | None \<Rightarrow> [])
        @ fb
        @ (case prov of Some p \<Rightarrow> p | None \<Rightarrow> [])
        @ payload (sv_value v))"

definition stamped_decode :: "bytes \<Rightarrow> enc_error + stamped_value" where
  "stamped_decode bs =
    bindR (split_stamp bs) (\<lambda>(s, flags, rest).
      let tomb = (flags AND FLAG_TOMBSTONE \<noteq> 0) in
      bindR (if flags AND FLAG_EXPIRES = 0 then Inr (None, rest)
             else if tomb then Inl (ReservedFlags flags)
             else bindR (split_expiry (length bs) rest) (\<lambda>(at, rest). Inr (Some at, rest)))
        (\<lambda>(ex, rest).
      bindR (if flags AND FLAG_FIELDS = 0 then Inr ([], rest)
             else if tomb then Inl (ReservedFlags flags)
             else split_fields (length bs) rest)
        (\<lambda>(fs, rest).
      bindR (if flags AND FLAG_ACROSS = 0 then Inr (None, rest)
             else bindR (take_provenance (reader_new Record rest)) (\<lambda>(p, r).
               Inr (Some p, drop (position r) rest)))
        (\<lambda>(prov, p).
      bindR (if \<not> tomb then Inr (Present p)
             else if p = [] then Inr Tombstone
             else Inl (TombstoneWithPayload (length p)))
        (\<lambda>v. Inr \<lparr>sv_value = v, sv_stamp = s, sv_expires = ex, sv_provenance = prov,
               sv_field_expiry = fs\<rparr>)))))"

section \<open>What a version gives back\<close>

text \<open>A version that can be written: its stamp is in node order, its nodes are node
ids, its field names are text, and no count overflows its width.\<close>

definition stamp_wf :: "causal_stamp \<Rightarrow> bool" where
  "stamp_wf s \<longleftrightarrow> sorted_wrt (<) (map fst (entries s)) \<and> length (entries s) < 2 ^ 32
    \<and> list_all (\<lambda>e. length (fst e) = NODE_ID_LEN) (entries s)"

definition fields_wf :: "field_instants \<Rightarrow> bool" where
  "fields_wf fs \<longleftrightarrow> length fs < 2 ^ 32
    \<and> list_all (\<lambda>f. utf8_valid (fst f) \<and> length (fst f) < 2 ^ 32) fs"

definition stamped_wf :: "stamped_value \<Rightarrow> bool" where
  "stamped_wf v \<longleftrightarrow> stamp_wf (sv_stamp v) \<and> fields_wf (sv_field_expiry v)
    \<and> (case sv_provenance v of Some p \<Rightarrow> provenance_wf p | None \<Rightarrow> True)"

text \<open>What a deletion does not carry is dropped when it is written.\<close>

definition as_written :: "stamped_value \<Rightarrow> stamped_value" where
  "as_written v = v\<lparr>sv_expires := expires v, sv_field_expiry := field_expiry v\<rparr>"

lemma slice_get_prefix:
  "length a = n \<Longrightarrow> slice_get (a @ rest) 0 n = Some a"
  by (simp add: slice_get_def)

lemma slice_get_middle:
  "length pre = i \<Longrightarrow> length a = n \<Longrightarrow> slice_get (pre @ a @ rest) i (i + n) = Some a"
  by (simp add: slice_get_def)

lemma length_entry_bytes:
  "length (fst e) = NODE_ID_LEN \<Longrightarrow> length (entry_bytes e) = STAMP_ENTRY_LEN"
  by (simp add: entry_bytes_def NODE_ID_LEN_def STAMP_ENTRY_LEN_def)

lemma length_entries_enc:
  assumes "list_all (\<lambda>e. length (fst e) = NODE_ID_LEN) es"
  shows "length (concat (map entry_bytes es)) = length es * STAMP_ENTRY_LEN"
  using assms by (induction es) (simp_all add: length_entry_bytes)

lemma stamp_entries_enc:
  assumes "list_all (\<lambda>e. length (fst e) = NODE_ID_LEN) es"
  shows "stamp_entries (concat (map entry_bytes es)) = es"
  using assms
proof (induction es)
  case (Cons e es)
  have l: "length (entry_bytes e) = STAMP_ENTRY_LEN" using Cons.prems by (simp add: length_entry_bytes)
  have "take NODE_ID_LEN (entry_bytes e @ x) = fst e" for x
    using Cons.prems by (simp add: entry_bytes_def)
  moreover have "drop NODE_ID_LEN (take STAMP_ENTRY_LEN (entry_bytes e @ x)) = u64_bytes (snd e)"
    for x using l Cons.prems by (simp add: entry_bytes_def)
  ultimately show ?case
    using Cons.IH Cons.prems l by (subst stamp_entries.simps) simp
qed (simp add: stamp_entries.simps STAMP_ENTRY_LEN_def)

definition stamp_bytes :: "causal_stamp \<Rightarrow> bytes" where
  "stamp_bytes s = (if entries s \<noteq> []
     then u32_bytes (u32_count (length (entries s))) @ concat (map entry_bytes (entries s)) else [])"

lemma split_stamp_enc:
  assumes "stamp_wf s" "flags AND FLAG_STAMP = (if entries s \<noteq> [] then FLAG_STAMP else 0)"
    and "flags AND NOT (FLAG_TOMBSTONE OR FLAG_STAMP OR FLAG_EXPIRES OR FLAG_ACROSS OR FLAG_FIELDS) = 0"
  shows "split_stamp (with_header flags @ stamp_bytes s @ rest) = Inr (s, flags, rest)"
proof (cases "entries s = []")
  case True
  then have "s = stamp_new" by (cases s) (simp add: stamp_new_def)
  then show ?thesis using True assms(2,3) by (simp add: split_stamp_def split_header_with stamp_bytes_def)
next
  case False
  let ?es = "entries s" and ?body = "concat (map entry_bytes (entries s))"
  let ?count = "u32_bytes (u32_count (length ?es))"
  let ?p = "?count @ ?body @ rest"
  have es: "list_all (\<lambda>e. length (fst e) = NODE_ID_LEN) ?es" "length ?es < 2 ^ 32"
    "sorted_wrt (<) (map fst ?es)" using assms(1) by (auto simp: stamp_wf_def)
  have len: "length ?count = STAMP_COUNT_LEN" by (simp add: STAMP_COUNT_LEN_def)
  have fl: "flags AND FLAG_STAMP \<noteq> 0" using assms(2) False by (simp add: FLAG_STAMP_def)
  have "slice_get ?p 0 STAMP_COUNT_LEN = Some ?count" using len by (rule slice_get_prefix)
  moreover have span: "unat (u32_value ?count) * STAMP_ENTRY_LEN = length ?body"
    using es by (simp add: unat_u32_count length_entries_enc del: length_concat)
  moreover have "slice_get ?p STAMP_COUNT_LEN (STAMP_COUNT_LEN + length ?body) = Some ?body"
    using len by (intro slice_get_middle) simp_all
  moreover have "from_entries (stamp_entries ?body) = Inr s"
    using es by (cases s) (simp add: stamp_entries_enc from_entries_iff)
  moreover have "drop (STAMP_COUNT_LEN + length ?body) ?p = rest" using len by simp
  ultimately show ?thesis
    using fl assms(3) False
    by (simp add: split_stamp_def split_header_with stamp_bytes_def Let_def del: length_concat
        word_bytes_value)
qed

lemma split_expiry_enc:
  "split_expiry whole (u64_bytes at @ rest) = Inr (at, rest)"
  by (simp add: split_expiry_def slice_get_prefix EXPIRES_LEN_def)

lemma take_at_middle:
  "length pre = i \<Longrightarrow> length a = n \<Longrightarrow> take_at whole (pre @ a @ rest) i n = Inr a"
  by (simp add: take_at_def slice_get_middle)

lemma split_fields_loop_enc:
  assumes "list_all (\<lambda>f. utf8_valid (fst f) \<and> length (fst f) < 2 ^ 32) fs"
  shows "split_fields_loop (length fs) whole (pre @ concat (map field_written fs) @ rest)
      (length pre) gs
    = Inr (gs @ fs, length pre + length (concat (map field_written fs)))"
  using assms
proof (induction fs arbitrary: pre gs)
  case (Cons f fs)
  obtain name at where f: "f = (name, at)" by (cases f)
  let ?h = "u32_bytes (u32_count (length name))" and ?t = "concat (map field_written fs) @ rest"
  let ?all = "pre @ ?h @ name @ u64_bytes at @ ?t"
  have name: "utf8_valid name" "length name < 2 ^ 32" using Cons.prems f by simp_all
  have 1: "take_at whole ?all (length pre) COUNT_LEN = Inr ?h"
    by (rule take_at_middle) (simp_all add: COUNT_LEN_def)
  have 2: "take_at whole ?all (length pre + COUNT_LEN) (length name) = Inr name"
    using take_at_middle [of "pre @ ?h"] by (simp add: COUNT_LEN_def)
  have 3: "take_at whole ?all (length pre + COUNT_LEN + length name) EXPIRES_LEN = Inr (u64_bytes at)"
    using take_at_middle [of "pre @ ?h @ name"] by (simp add: COUNT_LEN_def EXPIRES_LEN_def)
  have l: "length (pre @ ?h @ name @ u64_bytes at)
      = length pre + COUNT_LEN + length name + EXPIRES_LEN"
    by (simp add: COUNT_LEN_def EXPIRES_LEN_def)
  have "split_fields_loop (length fs) whole
      ((pre @ ?h @ name @ u64_bytes at) @ ?t) (length (pre @ ?h @ name @ u64_bytes at))
      (gs @ [(name, at)])
    = Inr ((gs @ [(name, at)]) @ fs,
        length (pre @ ?h @ name @ u64_bytes at) + length (concat (map field_written fs)))"
    using Cons.prems by (intro Cons.IH) simp
  then have ih: "split_fields_loop (length fs) whole ?all
      (length pre + COUNT_LEN + length name + EXPIRES_LEN) (gs @ [(name, at)])
    = Inr (gs @ f # fs, length pre + COUNT_LEN + length name + EXPIRES_LEN
        + length (concat (map field_written fs)))"
    unfolding l by (simp only: append_assoc append_Cons append_Nil f)
  have fw: "field_written f = ?h @ name @ u64_bytes at" by (simp add: field_written_def f)
  have lf: "length (concat (map field_written (f # fs)))
      = COUNT_LEN + length name + EXPIRES_LEN + length (concat (map field_written fs))"
    by (simp add: fw COUNT_LEN_def EXPIRES_LEN_def del: length_concat)
  have cn: "unat (u32_count (length name)) = length name" using name(2) by (rule unat_u32_count)
  show ?case
    unfolding lf
    by (simp add: fw 1 2 3 [unfolded add.assoc] ih [unfolded add.assoc] name(1) cn Let_def add.assoc
        del: length_concat)
qed simp

lemma split_fields_enc:
  assumes "fields_wf fs" "fs \<noteq> []"
  shows "split_fields whole (fields_written fs @ rest) = Inr (fs, rest)"
proof -
  let ?h = "u32_bytes (u32_count (length fs))" and ?b = "concat (map field_written fs)"
  have "take_at whole (?h @ ?b @ rest) 0 COUNT_LEN = Inr ?h"
    using take_at_middle [of "[]" 0 ?h COUNT_LEN] by (simp add: COUNT_LEN_def)
  moreover have "split_fields_loop (length fs) whole (?h @ ?b @ rest) COUNT_LEN []
      = Inr (fs, COUNT_LEN + length ?b)"
    using split_fields_loop_enc [of fs whole ?h rest "[]"] assms(1)
    by (simp add: fields_wf_def COUNT_LEN_def)
  moreover have "drop (COUNT_LEN + length ?b) (?h @ ?b @ rest) = rest" by (simp add: COUNT_LEN_def)
  ultimately show ?thesis
    using assms by (simp add: split_fields_def fields_written_def fields_wf_def unat_u32_count
        del: length_concat)
qed

text \<open>The flags of a version, one bit for each of its optional parts.\<close>

definition flags_of :: "bool \<Rightarrow> bool \<Rightarrow> bool \<Rightarrow> bool \<Rightarrow> bool \<Rightarrow> u8" where
  "flags_of t s e p f =
    (let flags = (if t then FLAG_TOMBSTONE else 0);
         flags = (if s then flags OR FLAG_STAMP else flags);
         flags = (if e then flags OR FLAG_EXPIRES else flags);
         flags = (if p then flags OR FLAG_ACROSS else flags)
     in if f then flags OR FLAG_FIELDS else flags)"

lemma flags_of_bits:
  "flags_of t s e p f AND FLAG_TOMBSTONE = 0 \<longleftrightarrow> \<not> t"
  "flags_of t s e p f AND FLAG_STAMP = (if s then FLAG_STAMP else 0)"
  "flags_of t s e p f AND FLAG_EXPIRES = 0 \<longleftrightarrow> \<not> e"
  "flags_of t s e p f AND FLAG_ACROSS = 0 \<longleftrightarrow> \<not> p"
  "flags_of t s e p f AND FLAG_FIELDS = 0 \<longleftrightarrow> \<not> f"
  "flags_of t s e p f AND NOT (FLAG_TOMBSTONE OR FLAG_STAMP OR FLAG_EXPIRES OR FLAG_ACROSS
    OR FLAG_FIELDS) = 0"
  by (cases t; cases s; cases e; cases p; cases f; simp add: flags_of_def flags_defs)+

lemma u32_bytes_not_Nil [simp]: "u32_bytes v \<noteq> []"
  using length_word_bytes(2) [of v] by (metis list.size(3) zero_neq_numeral)

lemma fields_written_Nil [simp]: "fields_written fs = [] \<longleftrightarrow> fs = []" "fields_written [] = []"
  by (simp_all add: fields_written_def)

lemma stamped_encode_bytes:
  "stamped_encode v = with_header (flags_of (is_tombstone (sv_value v)) (entries (sv_stamp v) \<noteq> [])
      (expires v \<noteq> None) (sv_provenance v \<noteq> None) (field_expiry v \<noteq> []))
    @ stamp_bytes (sv_stamp v)
    @ (case expires v of Some at \<Rightarrow> u64_bytes at | None \<Rightarrow> [])
    @ fields_written (field_expiry v)
    @ (case sv_provenance v of Some p \<Rightarrow> provenance_bytes p | None \<Rightarrow> [])
    @ payload (sv_value v)"
  by (cases "sv_value v"; cases "sv_provenance v")
    (simp_all add: stamped_encode_def flags_of_def stamp_bytes_def expires_def field_expiry_def
      fields_written_def put_simps Let_def)

lemma take_provenance_enc:
  assumes "provenance_wf p"
  shows "take_provenance (reader_new Record (provenance_bytes p @ rest))
    = Inr (p, reading Record (provenance_bytes p) rest)"
  using assms by (simp add: reader_new_reading provenancec.take_enc)

lemma stamped_round_trip:
  assumes "stamped_wf v"
  shows "stamped_decode (stamped_encode v) = Inr (as_written v)"
proof -
  let ?t = "is_tombstone (sv_value v)" and ?ex = "expires v" and ?fs = "field_expiry v"
  let ?flags = "flags_of ?t (entries (sv_stamp v) \<noteq> []) (?ex \<noteq> None) (sv_provenance v \<noteq> None)
    (?fs \<noteq> [])"
  let ?prov = "case sv_provenance v of Some p \<Rightarrow> provenance_bytes p | None \<Rightarrow> []"
  let ?pay = "payload (sv_value v)"
  let ?whole = "length (stamped_encode v)"
  have 1: "split_stamp (stamped_encode v) = Inr (sv_stamp v, ?flags,
      (case ?ex of Some at \<Rightarrow> u64_bytes at | None \<Rightarrow> []) @ fields_written ?fs @ ?prov @ ?pay)"
    unfolding stamped_encode_bytes
    by (rule split_stamp_enc [OF _ flags_of_bits(2) flags_of_bits(6)])
      (use assms in \<open>simp add: stamped_wf_def\<close>)
  have tomb: "?t \<Longrightarrow> ?ex = None \<and> ?fs = []"
    by (cases "sv_value v") (simp_all add: expires_def field_expiry_def)
  have fs: "fields_wf ?fs"
    using assms by (cases "sv_value v") (simp_all add: stamped_wf_def field_expiry_def fields_wf_def)
  have 2: "?fs \<noteq> [] \<Longrightarrow> split_fields ?whole (fields_written ?fs @ ?prov @ ?pay) = Inr (?fs, ?prov @ ?pay)"
    using fs by (rule split_fields_enc)
  have 3: "sv_provenance v = Some p \<Longrightarrow>
      take_provenance (reader_new Record (provenance_bytes p @ ?pay))
        = Inr (p, reading Record (provenance_bytes p) ?pay)" for p
    using assms by (intro take_provenance_enc) (simp add: stamped_wf_def)
  show ?thesis
    using tomb 2 3
    by (cases ?ex; cases "?fs = []"; cases "sv_provenance v"; cases "sv_value v")
      (simp_all add: stamped_decode_def 1 flags_of_bits split_expiry_enc as_written_def Let_def)
qed

lemma record_value_round_trip: "record_value_decode (record_value_encode v) = Inr v"
  by (cases v) (simp_all add: record_value_decode_def record_value_encode_def split_header_with
      split_header_with [where payload = "[]", simplified] FLAG_TOMBSTONE_def)

section \<open>Field instants\<close>

text \<open>Naming instants keeps the last one named for each field, in field order.\<close>

lemma sort_key_map_of: "map_of (sort_key fst xs) = map_of xs"
proof
  fix k
  have "filter (\<lambda>e. fst e = k) (sort_key fst xs) = filter (\<lambda>e. fst e = k) xs"
    by (rule sort_key_stable)
  moreover have "map_of ys k = (case filter (\<lambda>e. fst e = k) ys of [] \<Rightarrow> None | y # _ \<Rightarrow> Some (snd y))"
    for ys :: "('a \<times> 'b) list"
    by (induction ys) auto
  ultimately show "map_of (sort_key fst xs) k = map_of xs k" by simp
qed

lemma dedup_fields_map_of: "map_of (dedup_fields fs) = map_of fs"
  by (induction fs rule: dedup_fields.induct) (auto simp: fun_eq_iff)

lemma dedup_fields_sorted:
  "sorted (map fst fs) \<Longrightarrow> sorted_wrt (<) (map fst (dedup_fields fs))
    \<and> fst ` set (dedup_fields fs) \<subseteq> fst ` set fs"
proof (induction fs rule: dedup_fields.induct)
  case (1 a b fs)
  show ?case
  proof (cases "fst b = fst a")
    case True
    then show ?thesis using 1 by auto
  next
    case False
    then have lt: "fst a < fst b" using 1(3) by (auto simp: order.strict_iff_order)
    have s: "sorted (map fst (b # fs))" using 1(3) by simp
    have ih: "sorted_wrt (<) (map fst (dedup_fields (b # fs)))"
      "fst ` set (dedup_fields (b # fs)) \<subseteq> fst ` set (b # fs)" using 1(2) False s by auto
    have "\<forall>x \<in> fst ` set (b # fs). fst a < x" using s lt by force
    then have "\<forall>x \<in> fst ` set (dedup_fields (b # fs)). fst a < x" using ih(2) by blast
    then show ?thesis using ih False by auto
  qed
qed simp_all

lemma with_field_expiry_latest:
  "sorted_wrt (<) (map fst (sv_field_expiry (with_field_expiry fs v)))
    \<and> map_of (sv_field_expiry (with_field_expiry fs v)) = map_of (rev fs)"
  using dedup_fields_sorted [of "sort_key fst (rev fs)"]
  by (simp add: with_field_expiry_def dedup_fields_map_of sort_key_map_of)

section \<open>Properties\<close>

text \<open>A stored version decodes to what was encoded: value, causal stamp, expiry,
field instants and provenance, but that a deletion drops the instants it is
given.\<close>

theorem stamped_value_round_trip:
  assumes "stamped_wf v"
  shows "stamped_decode (stamped_encode v)
    = Inr (v\<lparr>sv_expires := expires v, sv_field_expiry := field_expiry v\<rparr>)"
  using stamped_round_trip [OF assms] by (simp add: as_written_def)

end
