(* ===== verification/Log_Record.thy ===== *)
theory Log_Record
  imports Stamped_Value "HOL-Library.Product_Lexorder" "HOL-Library.Multiset"
begin

text \<open>The record one commit leaves in the log (value/log_record.rs of
tessari-encoding): its mutations in address order, the leadership and the
commit order it was written under, and the part of a transaction across leaders
it is.  Record identifiers are given the order the source derives for them, so
that the library's stable sort is the source's.\<close>

section \<open>The order of record identifiers\<close>

instantiation record_id :: linorder
begin

definition less_record_id :: "record_id \<Rightarrow> record_id \<Rightarrow> bool" where
  "less_record_id = record_id_less"

definition less_eq_record_id :: "record_id \<Rightarrow> record_id \<Rightarrow> bool" where
  "less_eq_record_id a b \<longleftrightarrow> record_id_less a b \<or> a = b"

instance
proof
  fix a b c :: record_id
  show "a < b \<longleftrightarrow> a \<le> b \<and> \<not> b \<le> a"
    unfolding less_record_id_def less_eq_record_id_def by (cases a; cases b) auto
  show "a \<le> a" by (simp add: less_eq_record_id_def)
  show "a \<le> b \<Longrightarrow> b \<le> c \<Longrightarrow> a \<le> c"
    unfolding less_eq_record_id_def by (cases a; cases b; cases c) auto
  show "a \<le> b \<Longrightarrow> b \<le> a \<Longrightarrow> a = b"
    unfolding less_eq_record_id_def by (cases a; cases b) auto
  have "sint x < sint y \<or> x = y \<or> sint y < sint x" for x y :: i64
  proof -
    have "sint x = sint y \<Longrightarrow> x = y" by (rule signed_word_eqI)
    then show ?thesis using linorder_less_linear [of "sint x" "sint y"] by blast
  qed
  then show "a \<le> b \<or> b \<le> a"
    unfolding less_eq_record_id_def by (cases a; cases b) auto
qed

end

section \<open>Mutations and records\<close>

record mutation =
  mu_namespace :: namespace_id
  mu_database :: database_id
  mu_table :: table_id
  mu_id :: record_id
  mu_shard :: "shard_id option"
  mu_value :: stamped_value

record log_record =
  lr_epoch :: u64
  lr_order :: "sequence option"
  lr_across :: "across option"
  mutations :: "mutation list"

definition mutation_address :: "mutation \<Rightarrow> namespace_id \<times> database_id \<times> table_id \<times> record_id" where
  "mutation_address m = (mu_namespace m, mu_database m, mu_table m, mu_id m)"

definition log_record_at :: "u64 \<Rightarrow> mutation list \<Rightarrow> log_record" where
  "log_record_at epoch ms =
    \<lparr>lr_epoch = epoch, lr_order = None, lr_across = None, mutations = sort_key mutation_address ms\<rparr>"

definition log_record_new :: "mutation list \<Rightarrow> log_record" where
  "log_record_new ms = log_record_at 0 ms"

definition log_record_across :: "across \<Rightarrow> log_record \<Rightarrow> log_record" where
  "log_record_across a r = r\<lparr>lr_across := Some a\<rparr>"

definition with_provenance :: "provenance \<Rightarrow> log_record \<Rightarrow> log_record" where
  "with_provenance p r =
    r\<lparr>mutations := map (\<lambda>m. m\<lparr>mu_value := from_transaction p (mu_value m)\<rparr>) (mutations r)\<rparr>"

definition set_order :: "sequence \<Rightarrow> log_record \<Rightarrow> log_record" where
  "set_order s r = r\<lparr>lr_order := Some s\<rparr>"

definition set_epoch :: "u64 \<Rightarrow> log_record \<Rightarrow> log_record" where
  "set_epoch e r = r\<lparr>lr_epoch := e\<rparr>"

section \<open>The byte form\<close>

definition EPOCH_LEN :: nat where "EPOCH_LEN = 8"
definition ORDER_LEN :: nat where "ORDER_LEN = 8"

text \<open>A length is written saturated to its field.\<close>

definition length_of :: "bytes \<Rightarrow> u32" where
  "length_of bs = (if length bs < 2 ^ 32 then word_of_nat (length bs) else - 1)"

definition put_mutation :: "bool \<Rightarrow> key_writer \<Rightarrow> mutation \<Rightarrow> key_writer" where
  "put_mutation sharded w m =
    (let w = put_u32 (mu_table m) (put_u32 (mu_database m) (put_u32 (mu_namespace m) w));
         w = (if sharded then put_u32 (case mu_shard m of Some s \<Rightarrow> s | None \<Rightarrow> 0) w else w);
         w = put_record_id (mu_id m) w;
         encoded = stamped_encode (mu_value m)
     in put_fixed encoded (put_u32 (length_of encoded) w))"

definition log_record_encode :: "log_record \<Rightarrow> bytes" where
  "log_record_encode r =
    (let w = writer_new;
         w = (case lr_across r of Some a \<Rightarrow> put_across a w | None \<Rightarrow> w);
         sharded = list_ex (\<lambda>m. mu_shard m \<noteq> None) (mutations r);
         w = foldl (put_mutation sharded) w (mutations r);
         payload = writer_finish w;
         (flags, epoch) = (if lr_epoch r = 0 then (0, None) else (FLAG_EPOCH, Some (u64_bytes (lr_epoch r))));
         flags = (if sharded then flags OR FLAG_SHARDS else flags);
         flags = (if lr_order r \<noteq> None then flags OR FLAG_ORDER else flags);
         flags = (if lr_across r \<noteq> None then flags OR FLAG_ACROSS else flags);
         buf = with_header flags;
         buf = (case epoch of Some e \<Rightarrow> buf @ e | None \<Rightarrow> buf);
         buf = (case lr_order r of Some s \<Rightarrow> buf @ u64_bytes s | None \<Rightarrow> buf)
     in buf @ payload)"

definition split_epoch :: "bytes \<Rightarrow> enc_error + u8 \<times> u64 \<times> bytes" where
  "split_epoch bs =
    bindR (split_header bs (FLAG_EPOCH OR FLAG_SHARDS OR FLAG_ORDER OR FLAG_ACROSS)) (\<lambda>(flags, p).
      if flags AND FLAG_EPOCH = 0 then Inr (flags, 0, p)
      else
        (case slice_get p 0 EPOCH_LEN of
           None \<Rightarrow> Inl (ValueTruncated (length bs) (HEADER_LEN + EPOCH_LEN))
         | Some raw \<Rightarrow> Inr (flags, u64_value raw, drop EPOCH_LEN p)))"

definition split_order :: "bytes \<Rightarrow> u8 \<Rightarrow> bytes \<Rightarrow> enc_error + sequence option \<times> bytes" where
  "split_order bs flags p =
    (if flags AND FLAG_ORDER = 0 then Inr (None, p)
     else
       (case slice_get p 0 ORDER_LEN of
          None \<Rightarrow> Inl (ValueTruncated (length bs) (HEADER_LEN + ORDER_LEN))
        | Some raw \<Rightarrow> Inr (Some (u64_value raw), drop ORDER_LEN p)))"

definition epoch_in :: "bytes \<Rightarrow> enc_error + u64" where
  "epoch_in bs = bindR (split_epoch bs) (\<lambda>(_, e, _). Inr e)"

definition order_in :: "bytes \<Rightarrow> enc_error + sequence option" where
  "order_in bs =
    bindR (split_epoch bs) (\<lambda>(flags, _, p).
    bindR (split_order bs flags p) (\<lambda>(s, _). Inr s))"

definition take_shard :: "bool \<Rightarrow> key_reader \<Rightarrow> enc_error + shard_id option \<times> key_reader" where
  "take_shard sharded r =
    (if sharded then bindR (take_u32 r) (\<lambda>(raw, r). Inr (if raw \<noteq> 0 then Some raw else None, r))
     else Inr (None, r))"

definition take_mutation :: "bool \<Rightarrow> key_reader \<Rightarrow> enc_error + mutation \<times> key_reader" where
  "take_mutation sharded r =
    bindR (take_u32 r) (\<lambda>(ns, r).
    bindR (take_u32 r) (\<lambda>(db, r).
    bindR (take_u32 r) (\<lambda>(tb, r).
    bindR (take_shard sharded r) (\<lambda>(shard, r).
    bindR (take_record_id r) (\<lambda>(i, r).
    bindR (take_u32 r) (\<lambda>(len, r).
    bindR (take_exact (unat len) r) (\<lambda>(encoded, r).
    bindR (stamped_decode encoded) (\<lambda>v.
      Inr (\<lparr>mu_namespace = ns, mu_database = db, mu_table = tb, mu_id = i, mu_shard = shard,
            mu_value = v\<rparr>, r)))))))))"

lemma take_fixed_is_reading:
  assumes "take_fixed n r = Inr (a, r')"
  shows "\<exists>k pre rest. r = reading k pre (a @ rest) \<and> r' = reading k (pre @ a) rest \<and> length a = n"
proof -
  define k pre rest where d: "k = kind r" "pre = take (position r) (input r)" "rest = drop (position r) (input r)"
  have "position r + n \<le> length (input r)" using assms
    by (auto simp: take_fixed_def slice_get_def Let_def split: if_splits)
  then have r: "r = reading k pre rest" by (simp add: reading_def d)
  show ?thesis using take_fixed_InrD [of n k pre rest a r'] assms unfolding r by blast
qed

lemma take_mutation_advances:
  assumes "take_mutation sharded r = Inr (m, r')"
  shows "remaining r' < remaining r"
proof -
  obtain b r1 where "take_fixed 4 r = Inr (b, r1)"
    using assms by (auto simp: take_mutation_def take_u32_def bindR_eq_Inr)
  then obtain k pre rest where r: "r = reading k pre (b @ rest)" "r1 = reading k (pre @ b) rest" "length b = 4"
    using take_fixed_is_reading by blast
  have "remaining r' \<le> length rest"
    using assms unfolding r(1) take_mutation_def take_u32_def [of "reading k pre (b @ rest)"] take_fixed_enc [OF r(3)]
    by (auto simp: take_shard_def bindR_eq_Inr take_exact_eq_take_fixed
        split: if_splits dest!: u32k.take_only ridk.take_only take_fixed_InrD)
  then show ?thesis using r by simp
qed

function take_mutations :: "bool \<Rightarrow> mutation list \<Rightarrow> key_reader \<Rightarrow> enc_error + mutation list" where
  "take_mutations sharded ms r =
    (if remaining r > 0 then
       (case take_mutation sharded r of
          Inl e \<Rightarrow> Inl e
        | Inr (m, r) \<Rightarrow> take_mutations sharded (ms @ [m]) r)
     else Inr ms)"
  by pat_completeness auto
termination
  by (relation "measure (\<lambda>(_, _, r). remaining r)") (auto dest: take_mutation_advances)

declare take_mutations.simps [simp del]

definition log_record_decode :: "bytes \<Rightarrow> enc_error + log_record" where
  "log_record_decode bs =
    bindR (split_epoch bs) (\<lambda>(flags, epoch, p).
    bindR (split_order bs flags p) (\<lambda>(order, p).
      let sharded = (flags AND FLAG_SHARDS \<noteq> 0); r = reader_new LogEntry p in
      bindR (if flags AND FLAG_ACROSS = 0 then Inr (None, r)
             else bindR (take_across r) (\<lambda>(a, r). Inr (Some a, r))) (\<lambda>(across, r).
      bindR (take_mutations sharded [] r) (\<lambda>ms.
        Inr \<lparr>lr_epoch = epoch, lr_order = order, lr_across = across, mutations = ms\<rparr>))))"

section \<open>Round trip\<close>

text \<open>A shard is numbered from one, so zero can stand for a table that is not split; a
value is shorter than its length field counts.\<close>

definition mutation_wf :: "mutation \<Rightarrow> bool" where
  "mutation_wf m \<longleftrightarrow> record_id_wf (mu_id m) \<and> mu_shard m \<noteq> Some 0 \<and> stamped_wf (mu_value m)
    \<and> as_written (mu_value m) = mu_value m \<and> length (stamped_encode (mu_value m)) < 2 ^ 32"

definition log_record_wf :: "log_record \<Rightarrow> bool" where
  "log_record_wf r \<longleftrightarrow> list_all mutation_wf (mutations r)
    \<and> (case lr_across r of Some a \<Rightarrow> across_wf a | None \<Rightarrow> True)"

definition mutation_bytes :: "bool \<Rightarrow> mutation \<Rightarrow> bytes" where
  "mutation_bytes sharded m =
    u32_bytes (mu_namespace m) @ u32_bytes (mu_database m) @ u32_bytes (mu_table m)
    @ (if sharded then u32_bytes (case mu_shard m of Some s \<Rightarrow> s | None \<Rightarrow> 0) else [])
    @ record_id_key (mu_id m) @ u32_bytes (length_of (stamped_encode (mu_value m)))
    @ stamped_encode (mu_value m)"

lemma buffer_put_mutation: "buffer (put_mutation sharded w m) = buffer w @ mutation_bytes sharded m"
  by (simp add: put_mutation_def mutation_bytes_def put_simps Let_def)

lemma buffer_put_mutations:
  "buffer (foldl (put_mutation sharded) w ms) = buffer w @ concat (map (mutation_bytes sharded) ms)"
  by (induction ms arbitrary: w) (simp_all add: buffer_put_mutation)

lemma take_mutation_enc:
  assumes "mutation_wf m" "sharded \<or> mu_shard m = None"
  shows "take_mutation sharded (reading k pre (mutation_bytes sharded m @ rest))
    = Inr (m, reading k (pre @ mutation_bytes sharded m) rest)"
proof -
  have v: "stamped_decode (stamped_encode (mu_value m)) = Inr (mu_value m)"
    using assms(1) stamped_round_trip [of "mu_value m"] by (simp add: mutation_wf_def)
  have len: "unat (length_of (stamped_encode (mu_value m))) = length (stamped_encode (mu_value m))"
    using assms(1) by (simp add: mutation_wf_def length_of_def unat_of_nat take_bit_nat_eq_self_iff)
  have shard: "take_shard sharded (reading k pre
        ((if sharded then u32_bytes (case mu_shard m of Some s \<Rightarrow> s | None \<Rightarrow> 0) else []) @ t))
      = Inr (mu_shard m, reading k (pre @
          (if sharded then u32_bytes (case mu_shard m of Some s \<Rightarrow> s | None \<Rightarrow> 0) else [])) t)" for pre t
    using assms by (auto simp: take_shard_def take_simps mutation_wf_def split: option.splits)
  show ?thesis
    using assms(1) v len
    by (simp add: take_mutation_def mutation_bytes_def take_simps shard take_exact_eq_take_fixed
        mutation_wf_def ridk.take_enc)
qed

lemma mutation_bytes_not_Nil: "mutation_bytes sharded m \<noteq> []"
  by (simp add: mutation_bytes_def)

lemma take_mutations_enc:
  assumes "list_all mutation_wf ms" "sharded \<or> list_all (\<lambda>m. mu_shard m = None) ms"
  shows "take_mutations sharded ns (reading k pre (concat (map (mutation_bytes sharded) ms)))
    = Inr (ns @ ms)"
  using assms
proof (induction ms arbitrary: ns pre)
  case Nil
  then show ?case by (subst take_mutations.simps) simp
next
  case (Cons m ms)
  have "0 < length (mutation_bytes sharded m)" using mutation_bytes_not_Nil by simp
  moreover have "take_mutation sharded (reading k pre (mutation_bytes sharded m
        @ concat (map (mutation_bytes sharded) ms)))
      = Inr (m, reading k (pre @ mutation_bytes sharded m) (concat (map (mutation_bytes sharded) ms)))"
    using Cons.prems by (intro take_mutation_enc) auto
  ultimately show ?case
    using Cons.prems Cons.IH [of "ns @ [m]" "pre @ mutation_bytes sharded m"]
    by (subst take_mutations.simps) auto
qed

definition record_flags :: "bool \<Rightarrow> bool \<Rightarrow> bool \<Rightarrow> bool \<Rightarrow> u8" where
  "record_flags e s o' a =
    (let flags = (if e then FLAG_EPOCH else 0);
         flags = (if s then flags OR FLAG_SHARDS else flags);
         flags = (if o' then flags OR FLAG_ORDER else flags)
     in if a then flags OR FLAG_ACROSS else flags)"

lemma record_flags_bits:
  "record_flags e s o' a AND FLAG_EPOCH = 0 \<longleftrightarrow> \<not> e"
  "record_flags e s o' a AND FLAG_SHARDS = 0 \<longleftrightarrow> \<not> s"
  "record_flags e s o' a AND FLAG_ORDER = 0 \<longleftrightarrow> \<not> o'"
  "record_flags e s o' a AND FLAG_ACROSS = 0 \<longleftrightarrow> \<not> a"
  "record_flags e s o' a AND NOT (FLAG_EPOCH OR FLAG_SHARDS OR FLAG_ORDER OR FLAG_ACROSS) = 0"
  by (cases e; cases s; cases o'; cases a;
      simp add: record_flags_def FLAG_EPOCH_def FLAG_SHARDS_def FLAG_ORDER_def FLAG_ACROSS_def)+

lemma log_record_encode_bytes:
  "log_record_encode r =
    (let sharded = list_ex (\<lambda>m. mu_shard m \<noteq> None) (mutations r) in
     with_header (record_flags (lr_epoch r \<noteq> 0) sharded (lr_order r \<noteq> None) (lr_across r \<noteq> None))
     @ (if lr_epoch r = 0 then [] else u64_bytes (lr_epoch r))
     @ (case lr_order r of Some s \<Rightarrow> u64_bytes s | None \<Rightarrow> [])
     @ (case lr_across r of Some a \<Rightarrow> across_bytes a | None \<Rightarrow> [])
     @ concat (map (mutation_bytes sharded) (mutations r)))"
  by (cases "lr_order r"; cases "lr_across r")
    (simp_all add: log_record_encode_def record_flags_def buffer_put_mutations put_simps Let_def)

lemma split_epoch_enc:
  assumes "flags AND FLAG_EPOCH = 0 \<longleftrightarrow> e = 0"
    and "flags AND NOT (FLAG_EPOCH OR FLAG_SHARDS OR FLAG_ORDER OR FLAG_ACROSS) = 0"
  shows "split_epoch (with_header flags @ (if e = 0 then [] else u64_bytes e) @ rest) = Inr (flags, e, rest)"
  using assms slice_get_prefix [of "u64_bytes e" 8 rest]
  by (auto simp: split_epoch_def split_header_with EPOCH_LEN_def)

lemma split_order_enc:
  assumes "flags AND FLAG_ORDER = 0 \<longleftrightarrow> s = None"
  shows "split_order bs flags ((case s of Some n \<Rightarrow> u64_bytes n | None \<Rightarrow> []) @ rest) = Inr (s, rest)"
  using assms by (cases s) (simp_all add: split_order_def slice_get_prefix ORDER_LEN_def)

lemma log_record_round_trips:
  assumes "log_record_wf r"
  shows "log_record_decode (log_record_encode r) = Inr r"
    "epoch_in (log_record_encode r) = Inr (lr_epoch r)"
    "order_in (log_record_encode r) = Inr (lr_order r)"
proof -
  define sharded where "sharded = list_ex (\<lambda>m. mu_shard m \<noteq> None) (mutations r)"
  define flags where
    "flags = record_flags (lr_epoch r \<noteq> 0) sharded (lr_order r \<noteq> None) (lr_across r \<noteq> None)"
  define rest where "rest = (case lr_across r of Some a \<Rightarrow> across_bytes a | None \<Rightarrow> [])
    @ concat (map (mutation_bytes sharded) (mutations r))"
  note bits = record_flags_bits [of "lr_epoch r \<noteq> 0" sharded "lr_order r \<noteq> None" "lr_across r \<noteq> None",
      folded flags_def]
  have enc: "log_record_encode r = with_header flags @ (if lr_epoch r = 0 then [] else u64_bytes (lr_epoch r))
      @ (case lr_order r of Some s \<Rightarrow> u64_bytes s | None \<Rightarrow> []) @ rest"
    by (simp add: log_record_encode_bytes Let_def sharded_def flags_def rest_def)
  have 1: "split_epoch (log_record_encode r)
      = Inr (flags, lr_epoch r, (case lr_order r of Some s \<Rightarrow> u64_bytes s | None \<Rightarrow> []) @ rest)"
    unfolding enc using bits by (intro split_epoch_enc) simp_all
  have 2: "split_order (log_record_encode r) flags
      ((case lr_order r of Some s \<Rightarrow> u64_bytes s | None \<Rightarrow> []) @ rest) = Inr (lr_order r, rest)"
    using bits by (intro split_order_enc) simp
  show "epoch_in (log_record_encode r) = Inr (lr_epoch r)"
    "order_in (log_record_encode r) = Inr (lr_order r)"
    by (simp_all add: epoch_in_def order_in_def 1 2)
  have wf: "list_all mutation_wf (mutations r)" using assms by (simp add: log_record_wf_def)
  have none: "sharded \<or> list_all (\<lambda>m. mu_shard m = None) (mutations r)"
    by (auto simp: sharded_def list_ex_iff list_all_iff)
  have ms: "take_mutations sharded [] (reading LogEntry pre (concat (map (mutation_bytes sharded) (mutations r))))
      = Inr (mutations r)" for pre
    using take_mutations_enc [OF wf none] by simp
  have eta: "\<lparr>lr_epoch = lr_epoch r, lr_order = lr_order r, lr_across = lr_across r, mutations = mutations r\<rparr> = r"
    by simp
  show "log_record_decode (log_record_encode r) = Inr r"
  proof (cases "lr_across r")
    case None
    then have "take_mutations sharded [] (reading LogEntry [] rest) = Inr (mutations r)"
      using ms [of "[]"] by (simp add: rest_def)
    then show ?thesis
      using None bits eta by (simp add: log_record_decode_def 1 2 reader_new_reading Let_def)
  next
    case (Some a)
    then have "across_wf a" using assms by (simp add: log_record_wf_def)
    then have "take_across (reading LogEntry [] rest)
        = Inr (a, reading LogEntry (across_bytes a) (concat (map (mutation_bytes sharded) (mutations r))))"
      using Some acrossc.take_enc [of a LogEntry "[]"] by (simp add: rest_def)
    then show ?thesis
      using Some bits ms eta by (simp add: log_record_decode_def 1 2 reader_new_reading Let_def)
  qed
qed

section \<open>Properties\<close>

text \<open>C25: a log record decodes to what was encoded: leadership, commit order, part of a
transaction across leaders, and every mutation with its shard, address and stored
version; and the two fields that are read at their fixed offset without decoding
the record are the ones it holds.\<close>

theorem log_record_round_trip:
  assumes "log_record_wf r"
  shows "log_record_decode (log_record_encode r) = Inr r
    \<and> epoch_in (log_record_encode r) = Inr (lr_epoch r)
    \<and> order_in (log_record_encode r) = Inr (lr_order r)"
  using log_record_round_trips [OF assms] by blast

theorem log_record_round_trip_witness:
  "log_record_decode (log_record_encode (set_order 9 (set_epoch 2 (log_record_new
      [\<lparr>mu_namespace = 1, mu_database = 2, mu_table = 3, mu_id = IdInt 4, mu_shard = Some 5,
        mu_value = stamped_new (Present [6])\<rparr>]))))
    = Inr (set_order 9 (set_epoch 2 (log_record_new
      [\<lparr>mu_namespace = 1, mu_database = 2, mu_table = 3, mu_id = IdInt 4, mu_shard = Some 5,
        mu_value = stamped_new (Present [6])\<rparr>])))"
  using log_record_round_trip [of "set_order 9 (set_epoch 2 (log_record_new
      [\<lparr>mu_namespace = 1, mu_database = 2, mu_table = 3, mu_id = IdInt 4, mu_shard = Some 5,
        mu_value = stamped_new (Present [6])\<rparr>]))"]
  by (simp add: log_record_wf_def mutation_wf_def set_order_def set_epoch_def log_record_new_def
      log_record_at_def stamped_wf_def stamp_wf_def fields_wf_def stamped_new_def stamp_new_def
      as_written_def expires_def field_expiry_def stamped_encode_bytes with_header_def stamp_bytes_def)

text \<open>A record's bytes do not depend on the order its commit gathered the mutations
in: two commits that changed the same records, one mutation each, in whatever order,
write the same log record.\<close>

theorem log_record_order_independent:
  assumes "mset ms = mset ns" "distinct (map mutation_address ms)"
  shows "log_record_encode (log_record_at e ms) = log_record_encode (log_record_at e ns)"
proof -
  have "inj_on mutation_address (set ms)" using assms(2) by (simp add: distinct_map)
  then have "sort_key mutation_address ns = sort_key mutation_address ms"
    using assms(1) by (intro sort_key_inj_key_eq) (metis set_mset_mset | simp)+
  then show ?thesis by (simp add: log_record_at_def)
qed

end
