(* ===== verification/Kv_Store.thy ===== *)
theory Kv_Store
  imports Kv_Keys
begin

text \<open>The substrate every storage engine implements (backend.rs and batch.rs of
tessari-kv): write batches with preconditions, scan requests, and the methods the
trait gives by default in terms of the others.  The contract a backend has to
keep is the locale \<open>kv_backend\<close>, over the maps its keyspaces stand for; the
default methods are proved correct inside it.\<close>

section \<open>Write batches\<close>

datatype write_op = Put keyspace key kv_value | Delete keyspace key

fun op_keyspace :: "write_op \<Rightarrow> keyspace" where
  "op_keyspace (Put ks _ _) = ks"
| "op_keyspace (Delete ks _) = ks"

fun op_key :: "write_op \<Rightarrow> key" where
  "op_key (Put _ k _) = k"
| "op_key (Delete _ k) = k"

datatype precondition = ValueIs keyspace key kv_value | Absent keyspace key | Exists keyspace key

fun pre_keyspace :: "precondition \<Rightarrow> keyspace" where
  "pre_keyspace (ValueIs ks _ _) = ks"
| "pre_keyspace (Absent ks _) = ks"
| "pre_keyspace (Exists ks _) = ks"

fun pre_key :: "precondition \<Rightarrow> key" where
  "pre_key (ValueIs _ k _) = k"
| "pre_key (Absent _ k) = k"
| "pre_key (Exists _ k) = k"

fun is_satisfied_by :: "precondition \<Rightarrow> kv_value option \<Rightarrow> bool" where
  "is_satisfied_by (ValueIs _ _ expected) observed \<longleftrightarrow> observed = Some expected"
| "is_satisfied_by (Absent _ _) observed \<longleftrightarrow> observed = None"
| "is_satisfied_by (Exists _ _) observed \<longleftrightarrow> observed \<noteq> None"

record write_batch =
  preconditions :: "precondition list"
  ops :: "write_op list"

definition batch_new :: write_batch where
  "batch_new = \<lparr>preconditions = [], ops = []\<rparr>"

definition batch_put :: "keyspace \<Rightarrow> key \<Rightarrow> kv_value \<Rightarrow> write_batch \<Rightarrow> write_batch" where
  "batch_put ks k v b = b\<lparr>ops := ops b @ [Put ks k v]\<rparr>"

definition batch_delete :: "keyspace \<Rightarrow> key \<Rightarrow> write_batch \<Rightarrow> write_batch" where
  "batch_delete ks k b = b\<lparr>ops := ops b @ [Delete ks k]\<rparr>"

definition expect_value :: "keyspace \<Rightarrow> key \<Rightarrow> kv_value \<Rightarrow> write_batch \<Rightarrow> write_batch" where
  "expect_value ks k v b = b\<lparr>preconditions := preconditions b @ [ValueIs ks k v]\<rparr>"

definition expect_absent :: "keyspace \<Rightarrow> key \<Rightarrow> write_batch \<Rightarrow> write_batch" where
  "expect_absent ks k b = b\<lparr>preconditions := preconditions b @ [Absent ks k]\<rparr>"

definition expect_exists :: "keyspace \<Rightarrow> key \<Rightarrow> write_batch \<Rightarrow> write_batch" where
  "expect_exists ks k b = b\<lparr>preconditions := preconditions b @ [Exists ks k]\<rparr>"

definition batch_is_empty :: "write_batch \<Rightarrow> bool" where
  "batch_is_empty b \<longleftrightarrow> ops b = []"

section \<open>Scan requests\<close>

datatype scan_direction = Forward | Reverse

record scan_request =
  req_keyspace :: keyspace
  req_range :: key_range
  req_direction :: scan_direction
  req_limit :: "nat option"

definition scan_new :: "keyspace \<Rightarrow> key_range \<Rightarrow> scan_request" where
  "scan_new ks r =
    \<lparr>req_keyspace = ks, req_range = r, req_direction = Forward, req_limit = None\<rparr>"

definition scan_reversed :: "scan_request \<Rightarrow> scan_request" where
  "scan_reversed q = q\<lparr>req_direction := Reverse\<rparr>"

definition scan_with_limit :: "nat \<Rightarrow> scan_request \<Rightarrow> scan_request" where
  "scan_with_limit n q = q\<lparr>req_limit := Some n\<rparr>"

type_synonym pair = "key \<times> kv_value"
type_synonym 'a kv_result = "kv_error + 'a"

section \<open>The default methods of the trait\<close>

text \<open>A default method is written over the methods it calls, which are its
arguments: the state of the backend stays with the caller when a method only
reads, and is threaded when it writes.\<close>

definition COUNT_BATCH_ENTRIES :: nat where "COUNT_BATCH_ENTRIES = 1024"
definition DELETE_BATCH_ENTRIES :: nat where "DELETE_BATCH_ENTRIES = 1024"

fun default_first_of_each ::
  "(scan_request \<Rightarrow> pair list kv_result) \<Rightarrow> keyspace \<Rightarrow> key_range list
    \<Rightarrow> pair option list kv_result" where
  "default_first_of_each scan ks [] = Inr []"
| "default_first_of_each scan ks (r # rs) =
    bindR (scan \<lparr>req_keyspace = ks, req_range = r, req_direction = Forward, req_limit = Some 1\<rparr>)
      (\<lambda>ps. bindR (default_first_of_each scan ks rs)
      (\<lambda>found. Inr ((case ps of [] \<Rightarrow> None | p # _ \<Rightarrow> Some p) # found)))"

text \<open>Totals are \<^verbatim>\<open>u64\<close> and saturate.\<close>

definition u64_max :: nat where "u64_max = 2 ^ 64 - 1"

definition saturating_add :: "nat \<Rightarrow> nat \<Rightarrow> nat" where
  "saturating_add a b = min (a + b) u64_max"

partial_function (option) default_count_loop ::
  "(scan_request \<Rightarrow> pair list kv_result) \<Rightarrow> keyspace \<Rightarrow> nat \<Rightarrow> key_range
    \<Rightarrow> nat kv_result option" where
  "default_count_loop scan ks n left =
    (case scan \<lparr>req_keyspace = ks, req_range = left, req_direction = Forward,
                req_limit = Some COUNT_BATCH_ENTRIES\<rparr> of
       Inl e \<Rightarrow> Some (Inl e)
     | Inr batch \<Rightarrow>
         (let n = saturating_add n (min (length batch) u64_max) in
          if length batch < COUNT_BATCH_ENTRIES then Some (Inr n)
          else if batch = [] then Some (Inr n)
          else default_count_loop scan ks n (resuming_after left (fst (last batch)))))"

definition default_count ::
  "(scan_request \<Rightarrow> pair list kv_result) \<Rightarrow> keyspace \<Rightarrow> key_range \<Rightarrow> nat kv_result option" where
  "default_count scan ks rg = default_count_loop scan ks 0 rg"

fun default_apply_group ::
  "('s \<Rightarrow> write_batch \<Rightarrow> 's \<times> unit kv_result) \<Rightarrow> 's \<Rightarrow> nat \<Rightarrow> write_batch list
    \<Rightarrow> 's \<times> nat \<times> unit kv_result" where
  "default_apply_group apply s landed [] = (s, landed, Inr ())"
| "default_apply_group apply s landed (b # bs) =
    (case apply s b of
       (s, Inl failure) \<Rightarrow> (s, landed, Inl failure)
     | (s, Inr _) \<Rightarrow> default_apply_group apply s (landed + 1) bs)"

definition default_contains ::
  "(keyspace \<Rightarrow> key \<Rightarrow> kv_value option kv_result) \<Rightarrow> keyspace \<Rightarrow> key \<Rightarrow> bool kv_result" where
  "default_contains get ks k = bindR (get ks k) (\<lambda>v. Inr (v \<noteq> None))"

definition doomed_batch :: "keyspace \<Rightarrow> pair list \<Rightarrow> write_batch" where
  "doomed_batch ks doomed = foldl (\<lambda>b (k, _). batch_delete ks k b) batch_new doomed"

partial_function (option) delete_range_by_scanning ::
  "('s \<Rightarrow> scan_request \<Rightarrow> pair list kv_result)
    \<Rightarrow> ('s \<Rightarrow> write_batch \<Rightarrow> 's \<times> unit kv_result)
    \<Rightarrow> keyspace \<Rightarrow> key_range \<Rightarrow> 's \<Rightarrow> ('s \<times> unit kv_result) option" where
  "delete_range_by_scanning sweep apply ks rg s =
    (case sweep s \<lparr>req_keyspace = ks, req_range = rg, req_direction = Forward,
                   req_limit = Some DELETE_BATCH_ENTRIES\<rparr> of
       Inl e \<Rightarrow> Some (s, Inl e)
     | Inr doomed \<Rightarrow>
         (let reached = length doomed in
          if reached = 0 then Some (s, Inr ())
          else
            (case apply s (doomed_batch ks doomed) of
               (s, Inl e) \<Rightarrow> Some (s, Inl e)
             | (s, Inr _) \<Rightarrow>
                 if reached < DELETE_BATCH_ENTRIES then Some (s, Inr ())
                 else delete_range_by_scanning sweep apply ks rg s)))"

lemma saturating_split:
  fixes a c n m :: nat
  assumes "c \<le> n"
  shows "min (min (a + c) m + (n - c)) m = min (a + n) m"
  using assms by (auto simp: min_def)

lemma card_Diff_less: "finite A \<Longrightarrow> B \<noteq> {} \<Longrightarrow> B \<subseteq> A \<Longrightarrow> card (A - B) < card A"
  by (rule psubset_card_mono) auto

section \<open>The maps a store stands for\<close>

type_synonym store_map = "keyspace \<Rightarrow> (key \<rightharpoonup> kv_value)"

fun map_op :: "store_map \<Rightarrow> write_op \<Rightarrow> store_map" where
  "map_op m (Put ks k v) = m(ks := (m ks)(k \<mapsto> v))"
| "map_op m (Delete ks k) = m(ks := (m ks)(k := None))"

definition map_ops :: "write_op list \<Rightarrow> store_map \<Rightarrow> store_map" where
  "map_ops os m = foldl map_op m os"

definition holds_pre :: "store_map \<Rightarrow> precondition \<Rightarrow> bool" where
  "holds_pre m p \<longleftrightarrow> is_satisfied_by p (m (pre_keyspace p) (pre_key p))"

text \<open>The pairs of a map in a range, in the order of their keys.\<close>

definition pairs_in :: "(key \<rightharpoonup> kv_value) \<Rightarrow> key_range \<Rightarrow> pair list" where
  "pairs_in m r = map (\<lambda>k. (k, the (m k))) (sorted_list_of_set {k \<in> dom m. in_range r k})"

text \<open>What a scan answers: the pairs in the order of its direction, as many as its
limit allows.\<close>

definition scan_answer :: "store_map \<Rightarrow> scan_request \<Rightarrow> pair list" where
  "scan_answer m q =
    (let ps = pairs_in (m (req_keyspace q)) (req_range q);
         walk = (case req_direction q of Forward \<Rightarrow> ps | Reverse \<Rightarrow> rev ps)
     in (case req_limit q of None \<Rightarrow> walk | Some n \<Rightarrow> take n walk))"

text \<open>The one shape of range a scan may not be given: two equal excluded bounds.\<close>

definition range_ok :: "key_range \<Rightarrow> bool" where
  "range_ok r = (case (range_start r, range_end r) of
     (Excluded lo, Excluded hi) \<Rightarrow> lo \<noteq> hi | _ \<Rightarrow> True)"

section \<open>Facts about batches and ranges\<close>

lemma map_ops_simps [simp]:
  "map_ops [] m = m"
  "map_ops (op # os) m = map_ops os (map_op m op)"
  by (simp_all add: map_ops_def)

lemma map_ops_append: "map_ops (os @ ps) m = map_ops ps (map_ops os m)"
  by (simp add: map_ops_def)

lemma map_op_other_keyspace:
  "ks \<noteq> op_keyspace op \<Longrightarrow> map_op m op ks = m ks"
  by (cases op) simp_all

lemma map_ops_other:
  "ks \<notin> op_keyspace ` set os \<Longrightarrow> map_ops os m ks = m ks"
  by (induction os arbitrary: m) (simp_all add: map_op_other_keyspace)

lemma map_ops_keyspace_cong: "m ks = m' ks \<Longrightarrow> map_ops os m ks = map_ops os m' ks"
proof (induction os arbitrary: m m')
  case (Cons op os)
  have "map_op m op ks = map_op m' op ks" using Cons.prems by (cases op) auto
  then have "map_ops os (map_op m op) ks = map_ops os (map_op m' op) ks" by (rule Cons.IH)
  then show ?case by simp
qed simp

text \<open>A batch changes a keyspace only at the keys its operations name.\<close>

lemma map_ops_elsewhere:
  assumes "\<And>op. op \<in> set os \<Longrightarrow> op_keyspace op = ks \<Longrightarrow> op_key op \<noteq> k"
  shows "map_ops os m ks k = m ks k"
  using assms
proof (induction os arbitrary: m)
  case (Cons op os)
  have "map_op m op ks k = m ks k"
    using Cons.prems [of op] by (cases op) auto
  then show ?case using Cons by simp
qed simp

lemma map_ops_value:
  "(\<exists>v. Put ks k v \<in> set os \<and> map_ops os m ks k = Some v)
    \<or> Delete ks k \<in> set os \<and> map_ops os m ks k = None
    \<or> map_ops os m ks k = m ks k"
proof (induction os rule: rev_induct)
  case (snoc op os)
  have eq: "map_ops (os @ [op]) m ks k = map_op (map_ops os m) op ks k" by (simp add: map_ops_def)
  have "op_keyspace op = ks \<and> op_key op = k \<or> map_op (map_ops os m) op ks k = map_ops os m ks k"
    by (cases op) auto
  then show ?case unfolding eq using snoc by (cases op) auto
qed simp

lemma finite_dom_map_ops:
  "(\<And>ks. finite (dom (m ks))) \<Longrightarrow> finite (dom (map_ops os m ks))"
proof (induction os arbitrary: m)
  case (Cons op os)
  have "finite (dom (map_op m op ks))" for ks using Cons.prems by (cases op) auto
  then show ?case using Cons.IH by simp
qed simp

lemma doomed_batch_eq:
  "doomed_batch ks ps = \<lparr>preconditions = [], ops = map (\<lambda>(k, _). Delete ks k) ps\<rparr>"
proof -
  have "foldl (\<lambda>b (k, _). batch_delete ks k b) b ps
      = b\<lparr>ops := ops b @ map (\<lambda>(k, _). Delete ks k) ps\<rparr>" for b
    by (induction ps arbitrary: b) (auto simp: batch_delete_def)
  then show ?thesis by (simp add: doomed_batch_def batch_new_def)
qed

lemma map_ops_deletes:
  "map_ops (map (\<lambda>(k, _). Delete ks k) ps) m
    = m(ks := (\<lambda>k. if k \<in> fst ` set ps then None else m ks k))"
proof (induction ps arbitrary: m)
  case (Cons p ps)
  obtain k v where p: "p = (k, v)" by (cases p)
  show ?case unfolding p using Cons.IH by (auto simp: fun_eq_iff)
qed (simp add: fun_eq_iff)

text \<open>The keys of a range, without their values.\<close>

definition keys_in :: "(key \<rightharpoonup> kv_value) \<Rightarrow> key_range \<Rightarrow> key set" where
  "keys_in m r = {k \<in> dom m. in_range r k}"

lemma finite_keys_in [simp]: "finite (dom m) \<Longrightarrow> finite (keys_in m r)"
  by (simp add: keys_in_def)

lemma pairs_in_keys: "pairs_in m r = map (\<lambda>k. (k, the (m k))) (sorted_list_of_set (keys_in m r))"
  by (simp add: pairs_in_def keys_in_def)

lemma map_fst_pairs_in: "map fst (pairs_in m r) = sorted_list_of_set (keys_in m r)"
  by (simp add: pairs_in_keys comp_def)

text \<open>The pairs of a range depend only on the keys of the range.\<close>

lemma pairs_in_cong:
  assumes "\<And>k. in_range r k \<Longrightarrow> m k = m' k"
  shows "pairs_in m r = pairs_in m' r"
proof -
  have "keys_in m r = keys_in m' r" using assms by (auto simp: keys_in_def dom_def)
  moreover have "k \<in> set (sorted_list_of_set (keys_in m' r)) \<Longrightarrow> in_range r k" for k
    by (cases "finite (keys_in m' r)") (auto simp: keys_in_def)
  ultimately show ?thesis using assms by (auto simp: pairs_in_keys)
qed

lemma set_pairs_in:
  assumes "finite (dom m)"
  shows "set (pairs_in m r) = {(k, v). m k = Some v \<and> in_range r k}"
  using assms by (auto simp: pairs_in_keys keys_in_def)

lemma length_pairs_in: "length (pairs_in m r) = card (keys_in m r)"
  by (simp add: pairs_in_keys)

lemma pairs_in_Nil_iff: "finite (dom m) \<Longrightarrow> pairs_in m r = [] \<longleftrightarrow> keys_in m r = {}"
  by (simp add: pairs_in_keys)

text \<open>A scan that stopped at its limit is continued strictly after its last key: the
keys after it are those it did not give.\<close>

lemma keys_after_last:
  assumes f: "finite (dom m)" and n: "0 < n" "n \<le> card (keys_in m r)"
    and l: "l = last (take n (sorted_list_of_set (keys_in m r)))"
  shows "in_range r l" and "card (keys_in m (resuming_after r l)) = card (keys_in m r) - n"
proof -
  let ?S = "keys_in m r" let ?xs = "sorted_list_of_set ?S"
  have fin: "finite ?S" using f by simp
  then have len: "length ?xs = card ?S" by simp
  have srt: "sorted_wrt (<) ?xs" by (rule strict_sorted_list_of_set)
  have ne: "take n ?xs \<noteq> []" using n len by (metis length_0_conv le_zero_eq less_irrefl take_eq_Nil)
  have "l \<in> set (take n ?xs)" using ne l by simp
  then have "l \<in> ?S" using fin by (metis in_set_takeD set_sorted_list_of_set)
  then show inr: "in_range r l" by (simp add: keys_in_def)
  have l': "l = ?xs ! (n - 1)"
    using l ne n len by (simp add: last_conv_nth min_def)
  have "keys_in m (resuming_after r l) = {k \<in> ?S. l < k}"
    using inr by (auto simp: keys_in_def in_range_resuming_after)
  also have "\<dots> = set (drop n ?xs)"
  proof
    show "set (drop n ?xs) \<subseteq> {k \<in> ?S. l < k}"
    proof
      fix k assume "k \<in> set (drop n ?xs)"
      then obtain i where i: "n + i < length ?xs" "k = ?xs ! (n + i)"
        by (rule in_set_dropE)
      then have "l < k" using sorted_wrt_nth_less [OF srt, of "n - 1" "n + i"] n l' by simp
      moreover have "k \<in> ?S" using i fin by (metis nth_mem set_sorted_list_of_set)
      ultimately show "k \<in> {k \<in> ?S. l < k}" by simp
    qed
    show "{k \<in> ?S. l < k} \<subseteq> set (drop n ?xs)"
    proof
      fix k assume k: "k \<in> {k \<in> ?S. l < k}"
      then obtain i where i: "i < length ?xs" "k = ?xs ! i"
        using fin by (metis (no_types, lifting) in_set_conv_nth mem_Collect_eq
            set_sorted_list_of_set)
      have "\<not> i < n"
      proof
        assume "i < n"
        then have "?xs ! i \<le> ?xs ! (n - 1)"
          using sorted_nth_mono [of ?xs i "n - 1"] n len by simp
        then show False using k i l' by (simp add: leD)
      qed
      then have "k = drop n ?xs ! (i - n)" "i - n < length (drop n ?xs)" using i by auto
      then show "k \<in> set (drop n ?xs)" by (metis nth_mem)
    qed
  qed
  finally show "card (keys_in m (resuming_after r l)) = card ?S - n"
    by (simp add: distinct_card len)
qed

lemma pairs_in_tail:
  assumes f: "finite (dom m)" and p: "pairs_in m r = (k, v) # ps"
  shows "in_range r k" "m k = Some v" "pairs_in m (resuming_after r k) = ps"
proof -
  let ?S = "keys_in m r"
  obtain xs where xs: "sorted_list_of_set ?S = k # xs" "ps = map (\<lambda>k. (k, the (m k))) xs"
    using p unfolding pairs_in_keys by (cases "sorted_list_of_set ?S") auto
  have "(k, v) \<in> set (pairs_in m r)" using p by simp
  then show inr: "in_range r k" and "m k = Some v" using f by (simp_all add: set_pairs_in)
  have fin: "finite ?S" using f by simp
  have S: "?S = insert k (set xs)" using xs(1) fin by (metis list.simps(15) set_sorted_list_of_set)
  have srt: "sorted_wrt (<) (k # xs)" using strict_sorted_list_of_set [of ?S] xs(1) by simp
  have "keys_in m (resuming_after r k) = {l \<in> ?S. k < l}"
    using inr by (auto simp: keys_in_def in_range_resuming_after)
  also have "\<dots> = set xs" using srt S by auto
  finally have "sorted_list_of_set (keys_in m (resuming_after r k)) = xs"
    using srt by (simp add: sorted_list_of_set.idem_if_sorted_distinct strict_sorted_iff)
  then show "pairs_in m (resuming_after r k) = ps" using xs(2) by (simp add: pairs_in_keys)
qed

lemma range_ok_prefix: "range_ok (key_range_prefix pre)"
  by (simp add: range_ok_def key_range_prefix_def split: option.splits)

lemma range_ok_resuming_after:
  assumes "in_range r l"
  shows "range_ok (resuming_after r l)"
  using assms by (cases "range_end r") (auto simp: resuming_after_def in_range_def range_ok_def)

text \<open>The batches of a group that land: those before the first whose preconditions
fail, each judged against what the ones before it left.\<close>

fun accepted :: "store_map \<Rightarrow> write_batch list \<Rightarrow> write_batch list" where
  "accepted m [] = []"
| "accepted m (b # bs) =
    (if list_all (holds_pre m) (preconditions b) then b # accepted (map_ops (ops b) m) bs else [])"

section \<open>The contract of a backend\<close>

text \<open>The clauses of the trait's contract, over the maps the backend stands
for: ordering and keyspace isolation are in what a scan answers, atomicity and
the coherence of preconditions in what a batch does, absence is a value in what
a get answers.\<close>

locale kv_backend =
  fixes ok :: "'s \<Rightarrow> bool"
    and maps :: "'s \<Rightarrow> store_map"
    and get_b :: "'s \<Rightarrow> keyspace \<Rightarrow> key \<Rightarrow> kv_value option kv_result"
    and scan_b :: "'s \<Rightarrow> scan_request \<Rightarrow> pair list kv_result"
    and apply_b :: "'s \<Rightarrow> write_batch \<Rightarrow> 's \<times> unit kv_result"
  assumes finite_maps: "ok s \<Longrightarrow> finite (dom (maps s ks))"
    and get_law: "ok s \<Longrightarrow> get_b s ks k = Inr (maps s ks k)"
    and scan_law: "ok s \<Longrightarrow> range_ok (req_range q) \<Longrightarrow> scan_b s q = Inr (scan_answer (maps s) q)"
    and apply_lands: "ok s \<Longrightarrow> (\<And>p. p \<in> set (preconditions b) \<Longrightarrow> holds_pre (maps s) p) \<Longrightarrow>
      \<exists>t. apply_b s b = (t, Inr ()) \<and> ok t \<and> maps t = map_ops (ops b) (maps s)"
    and apply_refuses: "ok s \<Longrightarrow> p \<in> set (preconditions b) \<Longrightarrow> \<not> holds_pre (maps s) p \<Longrightarrow>
      \<exists>ks k. apply_b s b = (s, Inl (Conflict ks k))"
begin

lemma contains_agrees:
  "ok s \<Longrightarrow> default_contains (get_b s) ks k = Inr (k \<in> dom (maps s ks))"
  by (auto simp: default_contains_def get_law)

lemma scan_forward:
  "ok s \<Longrightarrow> range_ok r \<Longrightarrow>
    scan_b s \<lparr>req_keyspace = ks, req_range = r, req_direction = Forward, req_limit = Some n\<rparr>
      = Inr (take n (pairs_in (maps s ks) r))"
  by (subst scan_law) (simp_all add: scan_answer_def)

lemma first_of_each_agrees:
  assumes "ok s" "\<And>r. r \<in> set rs \<Longrightarrow> range_ok r"
  shows "default_first_of_each (scan_b s) ks rs =
    Inr (map (\<lambda>r. case pairs_in (maps s ks) r of [] \<Rightarrow> None | p # _ \<Rightarrow> Some p) rs)"
  using assms(2)
proof (induction rs)
  case (Cons r rs)
  have "scan_b s \<lparr>req_keyspace = ks, req_range = r, req_direction = Forward, req_limit = Some 1\<rparr>
      = Inr (take 1 (pairs_in (maps s ks) r))"
    using scan_forward [OF assms(1)] Cons.prems by simp
  then show ?case using Cons by (cases "pairs_in (maps s ks) r") simp_all
qed simp

text \<open>The default count returns, and it counts the range.\<close>

lemma count_loop_counts:
  assumes "ok s" "range_ok r" "acc \<le> u64_max"
  shows "default_count_loop (scan_b s) ks acc r
    = Some (Inr (min (acc + card (keys_in (maps s ks) r)) u64_max))"
  using assms(2,3)
proof (induction "card (keys_in (maps s ks) r)" arbitrary: r acc rule: less_induct)
  case less
  let ?m = "maps s ks" and ?xs = "sorted_list_of_set (keys_in (maps s ks) r)"
  let ?q = "\<lparr>req_keyspace = ks, req_range = r, req_direction = Forward,
              req_limit = Some COUNT_BATCH_ENTRIES\<rparr>"
  let ?batch = "take COUNT_BATCH_ENTRIES (pairs_in ?m r)"
  have fin: "finite (dom ?m)" using assms(1) by (rule finite_maps)
  have sc: "scan_b s ?q = Inr ?batch"
    using assms(1) less.prems(1) by (rule scan_forward)
  have len: "length ?batch = min (card (keys_in ?m r)) COUNT_BATCH_ENTRIES"
    by (simp add: length_pairs_in min.commute)
  show ?case
  proof (cases "length ?batch < COUNT_BATCH_ENTRIES")
    case True
    then have "length ?batch = card (keys_in ?m r)" using len by linarith
    then show ?thesis using True
      by (subst default_count_loop.simps)
        (simp add: sc saturating_add_def Let_def min_def)
  next
    case False
    then have c: "COUNT_BATCH_ENTRIES \<le> card (keys_in ?m r)" and l: "length ?batch = COUNT_BATCH_ENTRIES"
      using len by linarith+
    have pos: "0 < COUNT_BATCH_ENTRIES" by (simp add: COUNT_BATCH_ENTRIES_def)
    have ne: "?batch \<noteq> []" using l pos by (metis length_0_conv less_irrefl)
    have "fst (last ?batch) = last (map fst ?batch)" using ne by (simp add: last_map)
    then have lst: "fst (last ?batch) = last (take COUNT_BATCH_ENTRIES ?xs)"
      by (simp add: take_map [symmetric] map_fst_pairs_in)
    note after = keys_after_last [OF fin pos c lst]
    have "default_count_loop (scan_b s) ks (saturating_add acc COUNT_BATCH_ENTRIES)
        (resuming_after r (fst (last ?batch)))
      = Some (Inr (min (saturating_add acc COUNT_BATCH_ENTRIES
          + card (keys_in ?m (resuming_after r (fst (last ?batch))))) u64_max))"
    proof (rule less.hyps)
      show "card (keys_in ?m (resuming_after r (fst (last ?batch)))) < card (keys_in ?m r)"
        using after(2) pos c by linarith
    qed (use after(1) range_ok_resuming_after in \<open>auto simp: saturating_add_def\<close>)
    moreover have "min (length ?batch) u64_max = COUNT_BATCH_ENTRIES"
      unfolding l by (simp add: COUNT_BATCH_ENTRIES_def u64_max_def)
    moreover have "min (saturating_add acc COUNT_BATCH_ENTRIES
          + card (keys_in ?m (resuming_after r (fst (last ?batch))))) u64_max
        = min (acc + card (keys_in ?m r)) u64_max"
      unfolding after(2) saturating_add_def using c by (rule saturating_split)
    ultimately show ?thesis
      using False ne
      by (subst default_count_loop.simps) (simp only: sc sum.case Let_def if_False)
  qed
qed

lemma count_counts:
  "ok s \<Longrightarrow> range_ok r \<Longrightarrow>
    default_count (scan_b s) ks r = Some (Inr (min (card (keys_in (maps s ks) r)) u64_max))"
  unfolding default_count_def using count_loop_counts [of s r 0 ks] by simp

text \<open>The default range delete returns, and removes exactly the range.\<close>

lemma delete_range_exact:
  assumes "ok s" "range_ok r"
  shows "\<exists>t. delete_range_by_scanning scan_b apply_b ks r s = Some (t, Inr ()) \<and> ok t
    \<and> maps t = (maps s)(ks := (\<lambda>k. if in_range r k then None else maps s ks k))"
  using assms(1)
proof (induction "card (keys_in (maps s ks) r)" arbitrary: s rule: less_induct)
  case less
  let ?m = "maps s ks"
  let ?doomed = "take DELETE_BATCH_ENTRIES (pairs_in ?m r)"
  have fin: "finite (dom ?m)" using less.prems by (rule finite_maps)
  have sc: "scan_b s \<lparr>req_keyspace = ks, req_range = r, req_direction = Forward,
      req_limit = Some DELETE_BATCH_ENTRIES\<rparr> = Inr ?doomed"
    using less.prems assms(2) by (rule scan_forward)
  obtain t where t: "apply_b s (doomed_batch ks ?doomed) = (t, Inr ())" "ok t"
    "maps t = (maps s)(ks := (\<lambda>k. if k \<in> fst ` set ?doomed then None else ?m k))"
    using apply_lands [OF less.prems, of "doomed_batch ks ?doomed"]
    by (auto simp: doomed_batch_eq map_ops_deletes)
  have sub: "set ?doomed \<subseteq> {(k, v). ?m k = Some v \<and> in_range r k}"
    using set_pairs_in [OF fin, of r] set_take_subset [of DELETE_BATCH_ENTRIES "pairs_in ?m r"]
    by blast
  have step: "delete_range_by_scanning scan_b apply_b ks r s =
    (if ?doomed = [] then Some (s, Inr ())
     else if length ?doomed < DELETE_BATCH_ENTRIES then Some (t, Inr ())
     else delete_range_by_scanning scan_b apply_b ks r t)"
    by (subst delete_range_by_scanning.simps)
      (simp only: sc sum.case Let_def t(1) prod.case length_0_conv)
  show ?case
  proof (cases "length ?doomed < DELETE_BATCH_ENTRIES")
    case True
    then have "?doomed = pairs_in ?m r" by auto
    then have dom: "fst ` set ?doomed = keys_in ?m r"
      using set_pairs_in [OF fin, of r] by (auto simp: keys_in_def image_iff)
    have e: "(\<lambda>k. if k \<in> fst ` set ?doomed then None else ?m k)
        = (\<lambda>k. if in_range r k then None else ?m k)"
      unfolding dom by (auto simp: keys_in_def fun_eq_iff domIff)
    show ?thesis
    proof (cases "?doomed = []")
      case True
      then have "(\<lambda>k. if in_range r k then None else ?m k) = ?m" using e unfolding True by simp
      then show ?thesis using True step less.prems by simp
    next
      case False
      then have "delete_range_by_scanning scan_b apply_b ks r s = Some (t, Inr ())"
        unfolding step using \<open>length ?doomed < DELETE_BATCH_ENTRIES\<close> by (simp only: if_False if_True)
      then show ?thesis using t(2,3) e by auto
    qed
  next
    case False
    have pos: "0 < DELETE_BATCH_ENTRIES" by (simp add: DELETE_BATCH_ENTRIES_def)
    then have ne: "?doomed \<noteq> []" using False by force
    have kt: "keys_in (maps t ks) r = keys_in ?m r - fst ` set ?doomed"
      by (auto simp: t(3) keys_in_def domIff split: if_splits)
    have "fst ` set ?doomed \<noteq> {}" "fst ` set ?doomed \<subseteq> keys_in ?m r"
      using ne sub by (auto simp: keys_in_def)
    then have "card (keys_in (maps t ks) r) < card (keys_in ?m r)"
      unfolding kt by (intro card_Diff_less finite_keys_in fin)
    from less.hyps [OF this t(2)] obtain u where u:
      "delete_range_by_scanning scan_b apply_b ks r t = Some (u, Inr ())" "ok u"
      "maps u = (maps t)(ks := (\<lambda>k. if in_range r k then None else maps t ks k))" by blast
    have "(\<lambda>k. if in_range r k then None else maps t ks k)
        = (\<lambda>k. if in_range r k then None else ?m k)"
      using sub by (auto simp: t(3) fun_eq_iff)
    then have "maps u = (maps s)(ks := (\<lambda>k. if in_range r k then None else ?m k))"
      using u(3) t(3) by simp
    then show ?thesis using u step False ne by auto
  qed
qed

text \<open>A group is applied in order, each batch against what the ones before it left;
it stops at the first that is refused, and nothing of that one or of a later one
is written.\<close>

lemma group_applies_accepted:
  assumes "ok s"
  shows "\<exists>t res. default_apply_group apply_b s n bs = (t, n + length (accepted (maps s) bs), res)
    \<and> ok t \<and> maps t = map_ops (concat (map ops (accepted (maps s) bs))) (maps s)
    \<and> (res = Inr () \<longleftrightarrow> accepted (maps s) bs = bs)"
  using assms
proof (induction bs arbitrary: s n)
  case (Cons b bs)
  show ?case
  proof (cases "list_all (holds_pre (maps s)) (preconditions b)")
    case True
    then obtain t where t: "apply_b s b = (t, Inr ())" "ok t" "maps t = map_ops (ops b) (maps s)"
      using apply_lands [OF Cons.prems, of b] by (auto simp: list_all_iff)
    obtain u res where
      "default_apply_group apply_b t (n + 1) bs = (u, n + 1 + length (accepted (maps t) bs), res)"
      "ok u" "maps u = map_ops (concat (map ops (accepted (maps t) bs))) (maps t)"
      "res = Inr () \<longleftrightarrow> accepted (maps t) bs = bs"
      using Cons.IH [OF t(2), of "n + 1"] by blast
    then show ?thesis
      using True t by (intro exI [where x = u] exI [where x = res]) (simp add: map_ops_append)
  next
    case False
    then obtain p where "p \<in> set (preconditions b)" "\<not> holds_pre (maps s) p"
      by (auto simp: list_all_iff)
    from apply_refuses [OF Cons.prems this] obtain ks k where
      "apply_b s b = (s, Inl (Conflict ks k))" by blast
    then show ?thesis using False Cons.prems by simp
  qed
qed simp

end

end
