(* ===== verification/Kv_Memory.thy ===== *)
theory Kv_Memory
  imports Kv_Store
begin

text \<open>The in-memory backend (memory.rs of tessari-kv): one ordered tree per
keyspace behind one lock.  A tree is the list of its pairs in the order of their
keys, as the iteration of a \<^verbatim>\<open>BTreeMap\<close> gives them.  The backend is an
interpretation of the contract \<open>kv_backend\<close>, so that the default methods of the
trait are correct on it, and its own overrides agree with them.\<close>

section \<open>Ordered trees\<close>

type_synonym tree = "pair list"

definition tree_ok :: "tree \<Rightarrow> bool" where
  "tree_ok t \<longleftrightarrow> sorted_wrt (<) (map fst t)"

definition tree_get :: "tree \<Rightarrow> key \<Rightarrow> kv_value option" where
  "tree_get t k = map_of t k"

fun tree_insert :: "key \<Rightarrow> kv_value \<Rightarrow> tree \<Rightarrow> tree" where
  "tree_insert k v [] = [(k, v)]"
| "tree_insert k v ((k', v') # t) =
    (if k < k' then (k, v) # (k', v') # t
     else if k = k' then (k, v) # t
     else (k', v') # tree_insert k v t)"

definition tree_remove :: "key \<Rightarrow> tree \<Rightarrow> tree" where
  "tree_remove k t = filter (\<lambda>(k', _). k' \<noteq> k) t"

text \<open>\<^verbatim>\<open>BTreeMap::range\<close> panics on an inverted range and on one whose equal bounds
are both excluded, unless the map has no root: the root is allocated with the first
entry and kept when the last one is removed, and a map that was never filled
answers nothing before it looks at the bounds.\<close>

fun range_panics :: "key bound \<Rightarrow> key bound \<Rightarrow> bool" where
  "range_panics (Included lo) (Included hi) \<longleftrightarrow> hi < lo"
| "range_panics (Included lo) (Excluded hi) \<longleftrightarrow> hi < lo"
| "range_panics (Excluded lo) (Included hi) \<longleftrightarrow> hi < lo"
| "range_panics (Excluded lo) (Excluded hi) \<longleftrightarrow> hi \<le> lo"
| "range_panics _ _ \<longleftrightarrow> False"

definition tree_range :: "bool \<Rightarrow> tree \<Rightarrow> key_range \<Rightarrow> tree kv_result" where
  "tree_range root t r =
    (if root \<and> range_panics (range_start r) (range_end r) then Inl (Panicked ''BTreeMap::range'')
     else Inr (filter (\<lambda>(k, _). in_range r k) t))"

section \<open>The backend\<close>

text \<open>The lock is poisoned by a panic of a thread that holds it for writing.  The trees of
\<open>rooted\<close> are those that were ever filled.\<close>

record memory_backend =
  keyspaces :: "keyspace \<rightharpoonup> tree"
  poisoned :: bool
  rooted :: "keyspace set"

definition BACKEND_NAME :: string where "BACKEND_NAME = ''memory''"

definition memory_new :: memory_backend where
  "memory_new =
    \<lparr>keyspaces = foldl (\<lambda>m ks. m(ks \<mapsto> [])) Map.empty Keyspace_ALL, poisoned = False, rooted = {}\<rparr>"

definition store_guard :: "memory_backend \<Rightarrow> (keyspace \<rightharpoonup> tree) kv_result" where
  "store_guard s =
    (if poisoned s
     then Inl (Backend BACKEND_NAME
       ''the store lock was poisoned by a panic in another thread'')
     else Inr (keyspaces s))"

definition tree_of :: "(keyspace \<rightharpoonup> tree) \<Rightarrow> keyspace \<Rightarrow> tree kv_result" where
  "tree_of m ks =
    (case m ks of Some t \<Rightarrow> Inr t | None \<Rightarrow> Inl (UnknownKeyspace (keyspace_name ks)))"

definition memory_len :: "memory_backend \<Rightarrow> keyspace \<Rightarrow> nat kv_result" where
  "memory_len s ks =
    bindR (store_guard s) (\<lambda>m. bindR (tree_of m ks) (\<lambda>t. Inr (length t)))"

definition memory_is_empty :: "memory_backend \<Rightarrow> keyspace \<Rightarrow> bool kv_result" where
  "memory_is_empty s ks = bindR (memory_len s ks) (\<lambda>n. Inr (n = 0))"

definition memory_get ::
  "memory_backend \<Rightarrow> keyspace \<Rightarrow> key \<Rightarrow> kv_value option kv_result" where
  "memory_get s ks k =
    bindR (store_guard s) (\<lambda>m. bindR (tree_of m ks) (\<lambda>t. Inr (tree_get t k)))"

definition memory_scan :: "memory_backend \<Rightarrow> scan_request \<Rightarrow> pair list kv_result" where
  "memory_scan s q =
    (if is_provably_empty (req_range q) then Inr []
     else
       bindR (store_guard s) (\<lambda>m.
       bindR (tree_of m (req_keyspace q)) (\<lambda>t.
       bindR (tree_range (req_keyspace q \<in> rooted s) t (req_range q)) (\<lambda>ps.
         let walk = (case req_direction q of Forward \<Rightarrow> ps | Reverse \<Rightarrow> rev ps) in
         Inr (case req_limit q of None \<Rightarrow> walk | Some n \<Rightarrow> take n walk)))))"

definition memory_count :: "memory_backend \<Rightarrow> keyspace \<Rightarrow> key_range \<Rightarrow> nat kv_result" where
  "memory_count s ks r =
    (if is_provably_empty r then Inr 0
     else
       bindR (store_guard s) (\<lambda>m.
       bindR (tree_of m ks) (\<lambda>t.
       bindR (tree_range (ks \<in> rooted s) t r) (\<lambda>ps. Inr (min (length ps) u64_max)))))"

fun first_of_ranges :: "bool \<Rightarrow> tree \<Rightarrow> key_range list \<Rightarrow> pair option list kv_result" where
  "first_of_ranges root t [] = Inr []"
| "first_of_ranges root t (r # rs) =
    (if is_provably_empty r then bindR (first_of_ranges root t rs) (\<lambda>found. Inr (None # found))
     else
       bindR (tree_range root t r) (\<lambda>ps.
       bindR (first_of_ranges root t rs) (\<lambda>found.
         Inr ((case ps of [] \<Rightarrow> None | p # _ \<Rightarrow> Some p) # found))))"

definition memory_first_of_each ::
  "memory_backend \<Rightarrow> keyspace \<Rightarrow> key_range list \<Rightarrow> pair option list kv_result" where
  "memory_first_of_each s ks rs =
    (if rs = [] then Inr []
     else
       bindR (store_guard s) (\<lambda>m.
       bindR (tree_of m ks) (\<lambda>t. first_of_ranges (ks \<in> rooted s) t rs)))"

fun check_preconditions ::
  "(keyspace \<rightharpoonup> tree) \<Rightarrow> precondition list \<Rightarrow> unit kv_result" where
  "check_preconditions m [] = Inr ()"
| "check_preconditions m (p # ps) =
    bindR (tree_of m (pre_keyspace p)) (\<lambda>t.
      if \<not> is_satisfied_by p (tree_get t (pre_key p))
      then Inl (Conflict (keyspace_name (pre_keyspace p)) (pre_key p))
      else check_preconditions m ps)"

fun check_keyspaces :: "(keyspace \<rightharpoonup> tree) \<Rightarrow> write_op list \<Rightarrow> unit kv_result" where
  "check_keyspaces m [] = Inr ()"
| "check_keyspaces m (op # os) =
    (if m (op_keyspace op) = None then Inl (UnknownKeyspace (keyspace_name (op_keyspace op)))
     else check_keyspaces m os)"

definition run_op :: "(keyspace \<rightharpoonup> tree) \<Rightarrow> write_op \<Rightarrow> (keyspace \<rightharpoonup> tree)" where
  "run_op m op =
    (case m (op_keyspace op) of
       None \<Rightarrow> m
     | Some t \<Rightarrow> m(op_keyspace op \<mapsto>
         (case op of Put _ k v \<Rightarrow> tree_insert k v t | Delete _ k \<Rightarrow> tree_remove k t)))"

definition filled_by :: "write_op list \<Rightarrow> keyspace set" where
  "filled_by os = set (map op_keyspace (filter (\<lambda>op. case op of Put _ _ _ \<Rightarrow> True | Delete _ _ \<Rightarrow> False) os))"

definition memory_apply :: "memory_backend \<Rightarrow> write_batch \<Rightarrow> memory_backend \<times> unit kv_result" where
  "memory_apply s b =
    (case bindR (store_guard s) (\<lambda>m.
          bindR (check_preconditions m (preconditions b)) (\<lambda>_.
          bindR (check_keyspaces m (ops b)) (\<lambda>_. Inr (foldl run_op m (ops b))))) of
       Inl e \<Rightarrow> (s, Inl e)
     | Inr m \<Rightarrow> (s\<lparr>keyspaces := m, rooted := rooted s \<union> filled_by (ops b)\<rparr>, Inr ()))"

section \<open>Trees stand for maps\<close>

lemma tree_ok_distinct: "tree_ok t \<Longrightarrow> distinct (map fst t)"
  by (simp add: tree_ok_def strict_sorted_iff)

lemma map_of_tree_insert:
  assumes "tree_ok t"
  shows "map_of (tree_insert k v t) = (map_of t)(k \<mapsto> v)"
  using assms by (induction k v t rule: tree_insert.induct) (auto simp: tree_ok_def)

lemma fst_tree_insert: "fst ` set (tree_insert k v t) = insert k (fst ` set t)"
  by (induction k v t rule: tree_insert.induct) auto

lemma tree_ok_insert: "tree_ok t \<Longrightarrow> tree_ok (tree_insert k v t)"
proof (induction k v t rule: tree_insert.induct)
  case (2 k v k' v' t)
  then show ?case
    using fst_tree_insert [of k v t]
    by (auto simp: tree_ok_def)
qed (simp add: tree_ok_def)

lemma map_of_tree_remove: "map_of (tree_remove k t) = (map_of t)(k := None)"
  by (induction t) (auto simp: tree_remove_def fun_eq_iff)

lemma tree_ok_filter: "tree_ok t \<Longrightarrow> tree_ok (filter P t)"
  by (auto simp: tree_ok_def sorted_wrt_map sorted_wrt_filter)

lemma filter_tree_pairs_in:
  assumes "tree_ok t"
  shows "filter (\<lambda>(k, _). in_range r k) t = pairs_in (map_of t) r"
proof -
  let ?ps = "filter (\<lambda>(k, _). in_range r k) t"
  have ok: "tree_ok ?ps" using assms by (rule tree_ok_filter)
  have "set (map fst ?ps) = keys_in (map_of t) r"
    by (force simp: keys_in_def dom_map_of_conv_image_fst)
  then have keys: "map fst ?ps = sorted_list_of_set (keys_in (map_of t) r)"
    using ok unfolding tree_ok_def by (metis sorted_list_of_set.idem_if_sorted_distinct
        strict_sorted_iff)
  have "?ps = map (\<lambda>k. (k, the (map_of t k))) (map fst ?ps)"
    using assms [THEN tree_ok_distinct] by (auto simp: comp_def intro!: map_idI [symmetric])
  then show ?thesis unfolding keys by (simp add: pairs_in_keys)
qed

section \<open>The backend keeps the contract\<close>

text \<open>The invariant of the backend: its lock is sound, every keyspace is there and
every tree is in the order of its keys.\<close>

definition memory_ok :: "memory_backend \<Rightarrow> bool" where
  "memory_ok s \<longleftrightarrow> \<not> poisoned s \<and> (\<forall>ks. \<exists>t. keyspaces s ks = Some t \<and> tree_ok t)"

definition trees_map :: "(keyspace \<rightharpoonup> tree) \<Rightarrow> store_map" where
  "trees_map m ks = (case m ks of Some t \<Rightarrow> map_of t | None \<Rightarrow> Map.empty)"

definition memory_maps :: "memory_backend \<Rightarrow> store_map" where
  "memory_maps s = trees_map (keyspaces s)"

lemma memory_okE:
  assumes "memory_ok s"
  obtains t where "store_guard s = Inr (keyspaces s)" "tree_of (keyspaces s) ks = Inr t"
    "keyspaces s ks = Some t" "tree_ok t" "memory_maps s ks = map_of t"
proof -
  obtain t where "keyspaces s ks = Some t" "tree_ok t" using assms by (auto simp: memory_ok_def)
  then show ?thesis
    using assms by (intro that [of t])
      (auto simp: store_guard_def tree_of_def memory_ok_def memory_maps_def trees_map_def)
qed

lemma memory_ok_new: "memory_ok memory_new"
proof -
  have "keyspaces memory_new ks = Some []" for ks
    by (cases ks) (simp_all add: memory_new_def Keyspace_ALL_def)
  then show ?thesis by (simp add: memory_ok_def tree_ok_def) (simp add: memory_new_def)
qed

lemma memory_maps_new: "memory_maps memory_new = (\<lambda>_. Map.empty)"
proof
  fix ks show "memory_maps memory_new ks = Map.empty"
    by (cases ks) (simp_all add: memory_new_def Keyspace_ALL_def memory_maps_def trees_map_def)
qed

lemma tree_range_pairs:
  assumes "tree_ok t" "range_ok r" "\<not> is_provably_empty r"
  shows "tree_range root t r = Inr (pairs_in (map_of t) r)"
proof -
  have "\<not> range_panics (range_start r) (range_end r)"
    using assms(2,3)
    by (cases "range_start r"; cases "range_end r") (auto simp: range_ok_def is_provably_empty_def)
  then show ?thesis using assms(1) by (simp add: tree_range_def filter_tree_pairs_in)
qed

lemma provably_empty_pairs: "is_provably_empty r \<Longrightarrow> pairs_in m r = []"
  by (simp add: pairs_in_keys keys_in_def provably_empty_holds_nothing)

lemma memory_get_map: "memory_ok s \<Longrightarrow> memory_get s ks k = Inr (memory_maps s ks k)"
  by (erule memory_okE [of s ks]) (simp add: memory_get_def tree_get_def)

lemma memory_scan_answer:
  assumes "memory_ok s" "range_ok (req_range q)"
  shows "memory_scan s q = Inr (scan_answer (memory_maps s) q)"
proof (cases "is_provably_empty (req_range q)")
  case True
  then show ?thesis
    by (simp add: memory_scan_def scan_answer_def provably_empty_pairs split: scan_direction.splits
        option.splits)
next
  case False
  from assms(1) show ?thesis
    by (rule memory_okE [of s "req_keyspace q"])
      (use False assms(2) in \<open>simp add: memory_scan_def scan_answer_def tree_range_pairs Let_def\<close>)
qed

lemma check_preconditions_ok:
  assumes "\<And>ks. m ks \<noteq> None"
  shows "check_preconditions m ps = Inr () \<longleftrightarrow> list_all (holds_pre (trees_map m)) ps"
    and "check_preconditions m ps = Inr () \<or> (\<exists>ks k. check_preconditions m ps = Inl (Conflict ks k))"
proof (induction ps)
  case (Cons p ps)
  obtain t where t: "m (pre_keyspace p) = Some t" using assms by blast
  {
    case 1
    show ?case using Cons(1) t
      by (auto simp: tree_of_def tree_get_def holds_pre_def trees_map_def)
  next
    case 2
    show ?case using Cons(2) t by (auto simp: tree_of_def)
  }
qed simp_all

lemma check_keyspaces_ok: "(\<And>ks. m ks \<noteq> None) \<Longrightarrow> check_keyspaces m os = Inr ()"
  by (induction os) simp_all

lemma run_op_map:
  assumes "\<forall>ks. \<exists>t. m ks = Some t \<and> tree_ok t"
  shows "trees_map (run_op m op) = map_op (trees_map m) op"
    and "\<forall>ks. \<exists>t. run_op m op ks = Some t \<and> tree_ok t"
proof -
  obtain t where t: "m (op_keyspace op) = Some t" "tree_ok t" using assms by blast
  show "trees_map (run_op m op) = map_op (trees_map m) op"
    using t by (cases op) (auto simp: run_op_def trees_map_def fun_eq_iff map_of_tree_insert
        map_of_tree_remove)
  show "\<forall>ks. \<exists>t. run_op m op ks = Some t \<and> tree_ok t"
    using t assms by (cases op) (auto simp: run_op_def tree_ok_insert tree_remove_def tree_ok_filter)
qed

lemma run_ops_map:
  assumes "\<forall>ks. \<exists>t. m ks = Some t \<and> tree_ok t"
  shows "trees_map (foldl run_op m os) = map_ops os (trees_map m)
    \<and> (\<forall>ks. \<exists>t. foldl run_op m os ks = Some t \<and> tree_ok t)"
  using assms by (induction os arbitrary: m) (simp_all add: run_op_map)

lemma memory_apply_cases:
  assumes "memory_ok s"
  shows "if list_all (holds_pre (memory_maps s)) (preconditions b)
    then \<exists>t. memory_apply s b = (t, Inr ()) \<and> memory_ok t
           \<and> memory_maps t = map_ops (ops b) (memory_maps s)
    else \<exists>ks k. memory_apply s b = (s, Inl (Conflict ks k))"
proof -
  let ?m = "keyspaces s"
  have all: "\<forall>ks. \<exists>t. ?m ks = Some t \<and> tree_ok t" and g: "store_guard s = Inr ?m"
    using assms by (auto simp: memory_ok_def store_guard_def)
  then have ne: "?m ks \<noteq> None" for ks by (metis option.distinct(1))
  have m: "memory_maps s = trees_map ?m" by (simp add: memory_maps_def)
  show ?thesis
  proof (cases "check_preconditions ?m (preconditions b) = Inr ()")
    case True
    then have "memory_apply s b = (s\<lparr>keyspaces := foldl run_op ?m (ops b),
        rooted := rooted s \<union> filled_by (ops b)\<rparr>, Inr ())"
      by (simp add: memory_apply_def g check_keyspaces_ok [of ?m, OF ne])
    then show ?thesis
      using True check_preconditions_ok(1) [of ?m "preconditions b", OF ne]
        run_ops_map [OF all, of "ops b"] assms m
      by (auto simp: memory_ok_def memory_maps_def)
  next
    case False
    then obtain ks k where c: "check_preconditions ?m (preconditions b) = Inl (Conflict ks k)"
      using check_preconditions_ok(2) [of ?m "preconditions b", OF ne] by blast
    then have "memory_apply s b = (s, Inl (Conflict ks k))" by (simp add: memory_apply_def g)
    then show ?thesis
      using c check_preconditions_ok(1) [of ?m "preconditions b", OF ne] m by auto
  qed
qed

interpretation memory: kv_backend memory_ok memory_maps memory_get memory_scan memory_apply
proof
  fix s :: memory_backend and ks k q b p
  assume s: "memory_ok s"
  show "finite (dom (memory_maps s ks))"
    using s by (rule memory_okE [of s ks]) (simp add: finite_dom_map_of)
  show "memory_get s ks k = Inr (memory_maps s ks k)" using s by (rule memory_get_map)
  show "range_ok (req_range q) \<Longrightarrow> memory_scan s q = Inr (scan_answer (memory_maps s) q)"
    using s by (rule memory_scan_answer)
  show "\<exists>t. memory_apply s b = (t, Inr ()) \<and> memory_ok t
      \<and> memory_maps t = map_ops (ops b) (memory_maps s)"
    if "\<And>p. p \<in> set (preconditions b) \<Longrightarrow> holds_pre (memory_maps s) p"
    using memory_apply_cases [OF s, of b] that by (simp add: list_all_iff)
  show "\<exists>ks k. memory_apply s b = (s, Inl (Conflict ks k))"
    if "p \<in> set (preconditions b)" "\<not> holds_pre (memory_maps s) p"
    using memory_apply_cases [OF s, of b] that by (auto simp: list_all_iff split: if_splits)
qed

section \<open>The overrides agree with the defaults\<close>

lemma memory_count_eq:
  assumes "memory_ok s" "range_ok r"
  shows "memory_count s ks r = Inr (min (card (keys_in (memory_maps s ks) r)) u64_max)"
proof (cases "is_provably_empty r")
  case True
  then have "keys_in (memory_maps s ks) r = {}"
    by (auto simp: keys_in_def provably_empty_holds_nothing)
  then show ?thesis using True by (simp add: memory_count_def)
next
  case False
  from assms(1) show ?thesis
    by (rule memory_okE [of s ks])
      (use False assms(2) in
        \<open>simp add: memory_count_def tree_range_pairs length_pairs_in\<close>)
qed

lemma first_of_ranges_eq:
  assumes "tree_ok t" "\<And>r. r \<in> set rs \<Longrightarrow> range_ok r"
  shows "first_of_ranges root t rs =
    Inr (map (\<lambda>r. case pairs_in (map_of t) r of [] \<Rightarrow> None | p # _ \<Rightarrow> Some p) rs)"
  using assms(2)
  by (induction rs) (auto simp: tree_range_pairs [OF assms(1)] provably_empty_pairs)

lemma memory_first_of_each_eq:
  assumes "memory_ok s" "\<And>r. r \<in> set rs \<Longrightarrow> range_ok r"
  shows "memory_first_of_each s ks rs = default_first_of_each (memory_scan s) ks rs"
proof -
  have "memory_first_of_each s ks rs
      = Inr (map (\<lambda>r. case pairs_in (memory_maps s ks) r of [] \<Rightarrow> None | p # _ \<Rightarrow> Some p) rs)"
    using assms(1)
    by (rule memory_okE [of s ks])
      (simp add: memory_first_of_each_def first_of_ranges_eq assms(2))
  then show ?thesis using memory.first_of_each_agrees [OF assms, of rs ks] by simp
qed

text \<open>The gap in the check for an empty range: two equal excluded bounds hold nothing,
are not reported as provably empty, and make the scan of a tree with a root panic.\<close>

lemma excluded_twice_panics:
  assumes "memory_ok s" "r = \<lparr>range_start = Excluded k, range_end = Excluded k\<rparr>"
  shows "\<not> in_range r x" "\<not> is_provably_empty r"
    "memory_scan s (scan_new ks r)
      = (if ks \<in> rooted s then Inl (Panicked ''BTreeMap::range'') else Inr [])"
proof -
  show none: "\<not> in_range r x" and "\<not> is_provably_empty r" for x
    using assms(2) by (auto simp: in_range_def is_provably_empty_def)
  from assms(1) show "memory_scan s (scan_new ks r)
      = (if ks \<in> rooted s then Inl (Panicked ''BTreeMap::range'') else Inr [])"
    by (rule memory_okE [of s ks])
      (use none in \<open>simp add: assms(2) memory_scan_def scan_new_def is_provably_empty_def tree_range_def\<close>)
qed

text \<open>A tree keeps its root through every batch.\<close>

lemma memory_apply_rooted:
  assumes "memory_apply s b = (t, r)"
  shows "rooted t = (if r = Inr () then rooted s \<union> filled_by (ops b) else rooted s)"
  using assms by (auto simp: memory_apply_def split: sum.splits)

section \<open>Properties\<close>

text \<open>C2: a batch is all or nothing: when every precondition holds of the store as it
was, the batch answers success and every keyspace becomes what the operations, in
their order, make of it; when one does not, the answer is a conflict and the
store is the one it was.\<close>

theorem memory_apply_atomic:
  assumes "memory_ok s"
  shows "if list_all (holds_pre (memory_maps s)) (preconditions b)
    then \<exists>t. memory_apply s b = (t, Inr ()) \<and> memory_ok t
           \<and> memory_maps t = map_ops (ops b) (memory_maps s)
    else \<exists>ks k. memory_apply s b = (s, Inl (Conflict ks k))"
  using assms by (rule memory_apply_cases)

theorem memory_apply_atomic_witness:
  "\<exists>t. memory_apply memory_new (batch_put DATA [1] [2] (expect_absent DATA [1] batch_new)) = (t, Inr ())
    \<and> memory_maps t DATA [1] = Some [2]"
  using memory_apply_atomic [OF memory_ok_new, of
      "batch_put DATA [1] [2] (expect_absent DATA [1] batch_new)"]
  by (auto simp: batch_put_def expect_absent_def batch_new_def holds_pre_def memory_maps_new)

text \<open>C33: a scan answers the pairs of its range in the order of their keys, or in the
reverse of it, cut at its limit, for every range but one whose two bounds are
the same excluded key.\<close>

theorem memory_scan_exact:
  assumes "memory_ok s" "range_ok (req_range q)" "req_limit q = None" "req_direction q = Forward"
  shows "\<exists>ps. memory_scan s q = Inr ps \<and> sorted_wrt (<) (map fst ps)
    \<and> set ps = {(k, v). memory_maps s (req_keyspace q) k = Some v \<and> in_range (req_range q) k}
    \<and> memory_scan s (scan_reversed q) = Inr (rev ps)
    \<and> memory_scan s (scan_with_limit n q) = Inr (take n ps)"
proof -
  let ?ps = "pairs_in (memory_maps s (req_keyspace q)) (req_range q)"
  have "memory_scan s q = Inr ?ps" "memory_scan s (scan_reversed q) = Inr (rev ?ps)"
    "memory_scan s (scan_with_limit n q) = Inr (take n ?ps)"
    using assms
    by (simp_all add: memory_scan_answer scan_answer_def scan_reversed_def scan_with_limit_def)
  moreover have "sorted_wrt (<) (map fst ?ps)" by (simp add: map_fst_pairs_in)
  ultimately show ?thesis
    using set_pairs_in [OF memory.finite_maps [OF assms(1)]] by blast
qed

theorem memory_scan_exact_witness:
  "\<exists>ps. memory_scan memory_new (scan_new LOG (key_range_prefix [1])) = Inr ps
    \<and> set ps = {(k, v). memory_maps memory_new LOG k = Some v \<and> in_range (key_range_prefix [1]) k}"
proof -
  let ?q = "scan_new LOG (key_range_prefix [1])"
  have q: "range_ok (req_range ?q)" "req_limit ?q = None" "req_direction ?q = Forward"
    "req_keyspace ?q = LOG" "req_range ?q = key_range_prefix [1]"
    by (simp_all add: scan_new_def range_ok_prefix)
  from memory_scan_exact [OF memory_ok_new q(1-3)] show ?thesis unfolding q(4,5) by blast
qed

text \<open>The default count of the trait, which scans in strides of 1024 and resumes
after the last key of each, always returns, and it answers what the backend's
own count answers: the number of keys in the range, saturated at the width of
the answer.\<close>

theorem memory_counts_agree:
  assumes "memory_ok s" "range_ok r"
  shows "default_count (memory_scan s) ks r = Some (memory_count s ks r)
    \<and> memory_count s ks r = Inr (min (card (keys_in (memory_maps s ks) r)) u64_max)"
  using memory.count_counts [OF assms, of ks] memory_count_eq [OF assms, of ks] by simp

text \<open>C39: the default range delete, which scans and deletes in strides of 1024 from the
start of the range, always returns; it removes every key of the range and no
other key of any keyspace.\<close>

theorem memory_delete_range_exact:
  assumes "memory_ok s" "range_ok r"
  shows "\<exists>t. delete_range_by_scanning memory_scan memory_apply ks r s = Some (t, Inr ())
    \<and> memory_ok t
    \<and> memory_maps t = (memory_maps s)(ks := (\<lambda>k. if in_range r k then None else memory_maps s ks k))"
  using assms by (rule memory.delete_range_exact)

theorem memory_delete_range_exact_witness:
  "\<exists>t. delete_range_by_scanning memory_scan memory_apply LOG (key_range_prefix [7]) memory_new
    = Some (t, Inr ()) \<and> memory_ok t"
  using memory_delete_range_exact [OF memory_ok_new range_ok_prefix, of LOG "[7]"] by blast

text \<open>A group of batches lands up to the first whose preconditions fail, each judged
against what the ones before it left; the count says how many landed, success is
answered exactly when all did, and nothing of a refused batch or of a later one
is written.\<close>

theorem memory_group_stops_at_refusal:
  assumes "memory_ok s"
  shows "\<exists>t res. default_apply_group memory_apply s 0 bs
      = (t, length (accepted (memory_maps s) bs), res)
    \<and> memory_ok t
    \<and> memory_maps t = map_ops (concat (map ops (accepted (memory_maps s) bs))) (memory_maps s)
    \<and> (res = Inr () \<longleftrightarrow> accepted (memory_maps s) bs = bs)"
  using memory.group_applies_accepted [OF assms, of 0 bs] by simp

text \<open>C40: a range whose two bounds are the same excluded key holds no key, yet it is not
reported as provably empty, and scanning it panics in the ordered map of every
keyspace a batch ever wrote a key of, emptied since or not; only a keyspace that was
never written answers nothing.\<close>

theorem memory_excluded_range_panics:
  assumes "memory_ok s" "memory_apply s b = (t, Inr ())"
    and "r = \<lparr>range_start = Excluded k, range_end = Excluded k\<rparr>"
  shows "(\<forall>x. \<not> in_range r x) \<and> \<not> is_provably_empty r
    \<and> memory_scan t (scan_new ks r)
      = (if ks \<in> rooted s \<or> ks \<in> filled_by (ops b) then Inl (Panicked ''BTreeMap::range'') else Inr [])"
proof -
  have "memory_ok t" using memory_apply_cases [OF assms(1), of b] assms(2) by (auto split: if_splits)
  then show ?thesis
    using excluded_twice_panics [OF _ assms(3), of t] memory_apply_rooted [OF assms(2)] by simp
qed

theorem memory_excluded_range_panics_witness:
  "\<exists>t. memory_apply memory_new (batch_delete DATA [1] (batch_put DATA [1] [2] batch_new)) = (t, Inr ())
    \<and> memory_maps t DATA = Map.empty
    \<and> memory_scan t (scan_new DATA \<lparr>range_start = Excluded [1], range_end = Excluded [1]\<rparr>)
      = Inl (Panicked ''BTreeMap::range'')"
proof -
  let ?b = "batch_delete DATA [1] (batch_put DATA [1] [2] batch_new)"
  obtain t where t: "memory_apply memory_new ?b = (t, Inr ())" "memory_maps t = map_ops (ops ?b) (memory_maps memory_new)"
    using memory_apply_cases [OF memory_ok_new, of ?b] by (auto simp: batch_put_def batch_delete_def batch_new_def)
  have f: "DATA \<in> filled_by (ops ?b)" by (simp add: filled_by_def batch_put_def batch_delete_def batch_new_def)
  show ?thesis
    using memory_excluded_range_panics [OF memory_ok_new t(1) refl, of "[1]" DATA] f t
    by (simp add: batch_put_def batch_delete_def batch_new_def memory_maps_new fun_eq_iff)
qed

end
