(* ===== verification/Snapshot_Read.thy ===== *)
theory Snapshot_Read
  imports Stamped_Value Kv_Memory
begin

text \<open>How a transaction reads a record at its snapshot (address.rs,
lifecycle/versions.rs and visible.rs of tessari-storage): the version suffix of
a record key is descending, so the newest version at or before the snapshot is
the first entry of a range, and a version of a transaction across leaders that
the reader does not see is passed over for the version under it.  The reads are
written over the calls of the backend they make; they are proved over the
contract \<open>kv_backend\<close> and used on the in-memory backend.\<close>

section \<open>Addresses and errors\<close>

record record_address =
  ra_namespace :: namespace_id
  ra_database :: database_id
  ra_table :: table_id
  ra_id :: record_id

definition key_at :: "record_address \<Rightarrow> sequence \<Rightarrow> record_key" where
  "key_at a v = \<lparr>rk_namespace = ra_namespace a, rk_database = ra_database a,
     rk_table = ra_table a, rk_id = ra_id a, rk_version = v\<rparr>"

definition address_prefix :: "record_address \<Rightarrow> bytes" where
  "address_prefix a = versions_prefix (ra_namespace a) (ra_database a) (ra_table a) (ra_id a)"

datatype read_error = Kv kv_error | Enc enc_error

fun lift_kv :: "kv_error + 'a \<Rightarrow> read_error + 'a" where
  "lift_kv (Inl e) = Inl (Kv e)"
| "lift_kv (Inr a) = Inr a"

fun lift_enc :: "enc_error + 'a \<Rightarrow> read_error + 'a" where
  "lift_enc (Inl e) = Inl (Enc e)"
| "lift_enc (Inr a) = Inr a"

definition sequence_encode :: "sequence \<Rightarrow> bytes" where
  "sequence_encode s = with_header 0 @ u64_bytes s"

definition sequence_decode :: "bytes \<Rightarrow> enc_error + sequence" where
  "sequence_decode bs =
    bindR (split_header bs 0) (\<lambda>(_, p).
      if length p = 8 then Inr (u64_value p) else Inl (ValueTruncated (length bs) (HEADER_LEN + 8)))"

section \<open>Whether a transaction across leaders is seen\<close>

type_synonym get_fn = "keyspace \<Rightarrow> key \<Rightarrow> kv_value option kv_result"
type_synonym scan_fn = "scan_request \<Rightarrow> pair list kv_result"

text \<open>What a reading transaction holds of its own: the snapshot, the commit it is
writing for a transaction across leaders, whether it may ask leaders, the reach
its node is served under, and what it has already decided.\<close>

record reader =
  snapshot :: sequence
  resolving :: "across option"
  asks_leaders :: bool
  served :: "reach option"

type_synonym decided = "transaction_id \<rightharpoonup> bool"

definition resolution_of :: "reader \<Rightarrow> transaction_id \<Rightarrow> bool option" where
  "resolution_of rd t =
    (case resolving rd of
       Some w \<Rightarrow> if across_transaction w = t then resolution (across_part w) else None
     | None \<Rightarrow> None)"

text \<open>A value read under a key and decoded, if there is one.\<close>

definition get_decoded ::
  "get_fn \<Rightarrow> keyspace \<Rightarrow> key \<Rightarrow> (bytes \<Rightarrow> enc_error + 'a) \<Rightarrow> read_error + 'a option" where
  "get_decoded get ks k dec =
    bindR (lift_kv (get ks k)) (\<lambda>found.
      case found of
        None \<Rightarrow> Inr None
      | Some bs \<Rightarrow> bindR (lift_enc (dec bs)) (\<lambda>a. Inr (Some a)))"

definition get_transaction_record ::
  "get_fn \<Rightarrow> transaction_id \<Rightarrow> read_error + transaction_record option" where
  "get_transaction_record get t =
    get_decoded get (keyspace_of TransactionRecord) (transaction_record_encode t) record_decode"

definition part_landed ::
  "get_fn \<Rightarrow> transaction_id \<Rightarrow> reach \<Rightarrow> read_error + sequence option" where
  "part_landed get t rg =
    get_decoded get (keyspace_of AcrossPart)
      (across_part_encode \<lparr>pk_transaction = t, pk_range = rg\<rparr>) sequence_decode"

fun holds_every_part ::
  "get_fn \<Rightarrow> reader \<Rightarrow> transaction_id \<Rightarrow> participant list \<Rightarrow> read_error + bool" where
  "holds_every_part get rd t [] = Inr True"
| "holds_every_part get rd t (p # ps) =
    (if (case served rd of Some over \<Rightarrow> \<not> contains over (range p) | None \<Rightarrow> False)
     then holds_every_part get rd t ps
     else
       bindR (part_landed get t (range p)) (\<lambda>landed.
         if (case landed of Some at \<Rightarrow> at \<le> snapshot rd | None \<Rightarrow> False)
         then holds_every_part get rd t ps
         else Inr False))"

definition seen_now ::
  "get_fn \<Rightarrow> (transaction_id \<Rightarrow> reach \<Rightarrow> transaction_record option) \<Rightarrow> reader \<Rightarrow> provenance
    \<Rightarrow> read_error + bool" where
  "seen_now get asked_decision rd p =
    (if provisional p then
       bindR (get_transaction_record get (prov_transaction p)) (\<lambda>found.
         if (case found of Some r \<Rightarrow> decision r = Committed | None \<Rightarrow> False)
         then holds_every_part get rd (prov_transaction p) (participants (the found))
         else if (case found of Some r \<Rightarrow> decision r = Aborted | None \<Rightarrow> False) then Inr False
         else if \<not> asks_leaders rd then Inr False
         else
           (case asked_decision (prov_transaction p) (coordinator p) of
              Some r \<Rightarrow>
                if decision r = Committed
                then holds_every_part get rd (prov_transaction p) (participants r)
                else Inr False
            | None \<Rightarrow> Inr False))
     else holds_every_part get rd (prov_transaction p) (prov_participants p))"

definition sees ::
  "get_fn \<Rightarrow> (transaction_id \<Rightarrow> reach \<Rightarrow> transaction_record option) \<Rightarrow> reader
    \<Rightarrow> decided \<Rightarrow> provenance \<Rightarrow> decided \<times> (read_error + bool)" where
  "sees get asked_decision rd d p =
    (case resolution_of rd (prov_transaction p) of
       Some committed \<Rightarrow> (d, Inr committed)
     | None \<Rightarrow>
         (case d (prov_transaction p) of
            Some yes \<Rightarrow> (d, Inr yes)
          | None \<Rightarrow>
              (case seen_now get asked_decision rd p of
                 Inl e \<Rightarrow> (d, Inl e)
               | Inr yes \<Rightarrow> (d(prov_transaction p \<mapsto> yes), Inr yes))))"

definition passes_over ::
  "get_fn \<Rightarrow> (transaction_id \<Rightarrow> reach \<Rightarrow> transaction_record option) \<Rightarrow> reader
    \<Rightarrow> decided \<Rightarrow> stamped_value \<Rightarrow> decided \<times> (read_error + bool)" where
  "passes_over get asked_decision rd d v =
    (case sv_provenance v of
       None \<Rightarrow> (d, Inr False)
     | Some p \<Rightarrow>
         (case sees get asked_decision rd d p of
            (d, Inl e) \<Rightarrow> (d, Inl e)
          | (d, Inr yes) \<Rightarrow> (d, Inr (\<not> yes))))"

section \<open>Reading a version\<close>

partial_function (option) first_in_range ::
  "scan_fn \<Rightarrow> (decided \<Rightarrow> stamped_value \<Rightarrow> decided \<times> (read_error + bool)) \<Rightarrow> decided \<Rightarrow> key_range
    \<Rightarrow> (decided \<times> (read_error + (sequence \<times> stamped_value) option)) option" where
  "first_in_range scan passes d rg =
    (case scan \<lparr>req_keyspace = DATA, req_range = rg, req_direction = Forward,
                req_limit = Some 1\<rparr> of
       Inl e \<Rightarrow> Some (d, Inl (Kv e))
     | Inr [] \<Rightarrow> Some (d, Inr None)
     | Inr ((k, v) # _) \<Rightarrow>
         (case stamped_decode v of
            Inl e \<Rightarrow> Some (d, Inl (Enc e))
          | Inr value \<Rightarrow>
              (case passes d value of
                 (d, Inl e) \<Rightarrow> Some (d, Inl e)
               | (d, Inr over) \<Rightarrow>
                   if over
                   then first_in_range scan passes d
                     \<lparr>range_start = Excluded k, range_end = range_end rg\<rparr>
                   else
                     (case record_key_decode k of
                        Inl e \<Rightarrow> Some (d, Inl (Enc e))
                      | Inr key \<Rightarrow> Some (d, Inr (Some (rk_version key, value)))))))"

definition read_stamped_as_of ::
  "scan_fn \<Rightarrow> (decided \<Rightarrow> stamped_value \<Rightarrow> decided \<times> (read_error + bool)) \<Rightarrow> decided
    \<Rightarrow> record_address \<Rightarrow> sequence
    \<Rightarrow> (decided \<times> (read_error + (sequence \<times> stamped_value) option)) option" where
  "read_stamped_as_of scan passes d a at =
    (let bounds = key_range_prefix (address_prefix a) in
     first_in_range scan passes d
       \<lparr>range_start = Included (record_key_encode (key_at a at)), range_end = range_end bounds\<rparr>)"

definition read_newest_stamped ::
  "scan_fn \<Rightarrow> (decided \<Rightarrow> stamped_value \<Rightarrow> decided \<times> (read_error + bool)) \<Rightarrow> decided
    \<Rightarrow> record_address \<Rightarrow> (decided \<times> (read_error + (sequence \<times> stamped_value) option)) option" where
  "read_newest_stamped scan passes d a =
    first_in_range scan passes d (key_range_prefix (address_prefix a))"

definition is_intent :: "stamped_value \<Rightarrow> bool" where
  "is_intent v = (case sv_provenance v of Some p \<Rightarrow> provisional p | None \<Rightarrow> False)"

definition newest_stored_value ::
  "scan_fn \<Rightarrow> record_address
    \<Rightarrow> read_error + (sequence \<times> provenance option \<times> record_value) option" where
  "newest_stored_value scan a =
    bindR (lift_kv (scan \<lparr>req_keyspace = DATA,
      req_range = key_range_prefix (address_prefix a), req_direction = Forward,
      req_limit = Some 1\<rparr>)) (\<lambda>found.
      case found of
        [] \<Rightarrow> Inr None
      | (k, v) # _ \<Rightarrow>
          bindR (lift_enc (stamped_decode v)) (\<lambda>stored.
          bindR (lift_enc (record_key_decode k)) (\<lambda>key.
            Inr (Some (rk_version key, sv_provenance stored, sv_value stored)))))"

fun hold_versions :: "pair list \<Rightarrow> read_error + (sequence \<times> causal_stamp) list" where
  "hold_versions [] = Inr []"
| "hold_versions ((k, v) # ps) =
    bindR (lift_enc (record_key_decode k)) (\<lambda>key.
    bindR (lift_enc (stamped_decode v)) (\<lambda>stored.
    bindR (hold_versions ps) (\<lambda>held.
      Inr (if is_intent stored then held else (rk_version key, sv_stamp stored) # held))))"

definition held_versions ::
  "scan_fn \<Rightarrow> record_address \<Rightarrow> read_error + (sequence \<times> causal_stamp) list" where
  "held_versions scan a =
    bindR (lift_kv (scan \<lparr>req_keyspace = DATA,
      req_range = key_range_prefix (address_prefix a), req_direction = Forward,
      req_limit = None\<rparr>)) hold_versions"

definition surviving_versions ::
  "scan_fn \<Rightarrow> record_address \<Rightarrow> read_error + (sequence \<times> causal_stamp) list" where
  "surviving_versions scan a =
    bindR (held_versions scan a) (\<lambda>held.
      let surviving = foldl (\<lambda>vs (_, s). versions_record s vs) versions_new held in
      Inr (List.map_filter (\<lambda>s.
        case List.find (\<lambda>(_, candidate). candidate = s) held of
          Some (v, _) \<Rightarrow> Some (v, s)
        | None \<Rightarrow> None) (stamps surviving)))"

section \<open>A walk over the versions of a range\<close>

text \<open>What the loop of \<^const>\<open>first_in_range\<close> does, over the pairs of the range in the
order of their keys.\<close>

fun walk ::
  "(decided \<Rightarrow> stamped_value \<Rightarrow> decided \<times> (read_error + bool)) \<Rightarrow> decided \<Rightarrow> pair list
    \<Rightarrow> decided \<times> (read_error + (sequence \<times> stamped_value) option)" where
  "walk passes d [] = (d, Inr None)"
| "walk passes d ((k, v) # ps) =
    (case stamped_decode v of
       Inl e \<Rightarrow> (d, Inl (Enc e))
     | Inr value \<Rightarrow>
         (case passes d value of
            (d, Inl e) \<Rightarrow> (d, Inl e)
          | (d, Inr over) \<Rightarrow>
              if over then walk passes d ps
              else
                (case record_key_decode k of
                   Inl e \<Rightarrow> (d, Inl (Enc e))
                 | Inr key \<Rightarrow> (d, Inr (Some (rk_version key, value))))))"

context kv_backend
begin

lemma first_in_range_walk:
  assumes "ok s" "range_ok r"
  shows "first_in_range (scan_b s) passes d r = Some (walk passes d (pairs_in (maps s DATA) r))"
  using assms(2)
proof (induction "pairs_in (maps s DATA) r" arbitrary: r d)
  case Nil
  have "scan_b s \<lparr>req_keyspace = DATA, req_range = r, req_direction = Forward, req_limit = Some 1\<rparr>
      = Inr []"
    using scan_forward [OF assms(1) Nil.prems, of DATA 1] Nil.hyps by simp
  then show ?case using Nil.hyps [symmetric] by (subst first_in_range.simps) simp
next
  case (Cons p ps)
  obtain k v where p: "p = (k, v)" by (cases p)
  note eq = Cons.hyps(2) [unfolded p, symmetric]
  have sc: "scan_b s \<lparr>req_keyspace = DATA, req_range = r, req_direction = Forward,
      req_limit = Some 1\<rparr> = Inr [(k, v)]"
    using scan_forward [OF assms(1) Cons.prems, of DATA 1] eq by simp
  note tail = pairs_in_tail [OF finite_maps [OF assms(1)] eq]
  have after: "\<lparr>range_start = Excluded k, range_end = range_end r\<rparr> = resuming_after r k"
    by (simp add: resuming_after_def)
  have ih: "first_in_range (scan_b s) passes d (resuming_after r k) = Some (walk passes d ps)" for d
    using Cons.hyps(1) [of "resuming_after r k" d] tail(1,3) range_ok_resuming_after by simp
  show ?case
    by (subst first_in_range.simps) (simp add: sc [unfolded One_nat_def] eq after ih split: sum.splits prod.splits)
qed

end

section \<open>The versions a store holds\<close>

text \<open>The records of a store, as the versions its data keyspace holds: the bytes of
the keyspace are the encodings of well-formed versions under record keys.\<close>

definition data_of :: "(record_key \<rightharpoonup> stamped_value) \<Rightarrow> (key \<rightharpoonup> kv_value)" where
  "data_of V bs =
    (case record_key_decode bs of
       Inr k \<Rightarrow> map_option stamped_encode (V k)
     | Inl _ \<Rightarrow> None)"

definition versions_wf :: "(record_key \<rightharpoonup> stamped_value) \<Rightarrow> bool" where
  "versions_wf V \<longleftrightarrow> (\<forall>k v. V k = Some v \<longrightarrow> stamped_wf v \<and> as_written v = v)"

lemma data_of_Some:
  "data_of V bs = Some x \<longleftrightarrow>
    (\<exists>k v. record_key_wf k \<and> bs = record_key_encode k \<and> V k = Some v \<and> x = stamped_encode v)"
proof (cases "record_key_decode bs")
  case (Inl e)
  then have "record_key_wf k \<Longrightarrow> bs \<noteq> record_key_encode k" for k
    using record_keys.round_trip [of k] by auto
  then show ?thesis using Inl by (auto simp: data_of_def)
next
  case (Inr k)
  then have k: "record_key_wf k" "bs = record_key_encode k" using record_key_decode_only by auto
  then have "record_key_wf l \<and> bs = record_key_encode l \<longleftrightarrow> l = k" for l
    using record_keys.encode_inject [of l k] by auto
  then have "(\<exists>l v. record_key_wf l \<and> bs = record_key_encode l \<and> V l = Some v \<and> x = stamped_encode v)
      \<longleftrightarrow> (\<exists>v. V k = Some v \<and> x = stamped_encode v)" by metis
  then show ?thesis using Inr by (auto simp: data_of_def)
qed

definition as_of_range :: "record_address \<Rightarrow> sequence \<Rightarrow> key_range" where
  "as_of_range a at =
    \<lparr>range_start = Included (record_key_encode (key_at a at)),
     range_end = range_end (key_range_prefix (address_prefix a))\<rparr>"

definition address_of :: "record_key \<Rightarrow> record_address" where
  "address_of k = \<lparr>ra_namespace = rk_namespace k, ra_database = rk_database k,
     ra_table = rk_table k, ra_id = rk_id k\<rparr>"

lemma key_at_address: "key_at (address_of k) (rk_version k) = k"
  by (simp add: key_at_def address_of_def)

lemma address_prefix_exact:
  assumes "record_id_wf (ra_id a)" "record_key_wf k"
  shows "prefix (address_prefix a) (record_key_encode k) \<longleftrightarrow> address_of k = a"
  using versions_prefix_exact [OF assms, of "ra_namespace a" "ra_database a" "ra_table a"]
  by (auto simp: address_prefix_def address_of_def)

lemma as_of_range_exact:
  assumes a: "record_id_wf (ra_id a)" and k: "record_key_wf k"
  shows "in_range (as_of_range a at) (record_key_encode k) \<longleftrightarrow>
    address_of k = a \<and> rk_version k \<le> at"
proof -
  let ?e = "record_key_encode k" and ?s = "record_key_encode (key_at a at)"
  have wf: "record_key_wf (key_at a at)" using a by (simp add: key_at_def record_key_wf_def)
  have "address_of (key_at a at) = a" by (simp add: key_at_def address_of_def)
  then have ps: "prefix (address_prefix a) ?s" using address_prefix_exact [OF a wf] by blast
  have le: "address_prefix a \<le> ?s" using ps by (rule prefix_le)
  have start: "range_start (key_range_prefix (address_prefix a)) = Included (address_prefix a)"
    by (simp add: key_range_prefix_def split: option.splits)
  have "in_range (as_of_range a at) ?e \<longleftrightarrow> ?s \<le> ?e \<and> prefix (address_prefix a) ?e"
    unfolding in_range_prefix [symmetric]
    using le by (auto simp: in_range_def as_of_range_def start)
  also have "\<dots> \<longleftrightarrow> address_of k = a \<and> rk_version k \<le> at"
  proof -
    have "?e < ?s \<longleftrightarrow> at < rk_version k" if "address_of k = a"
      using record_keys.encode_order [OF k wf] that
        ridk.lt_irrefl [of "rk_id k"] k
      by (auto simp: record_key_less_def key_at_def address_of_def record_key_wf_def)
    then show ?thesis
      using address_prefix_exact [OF a k] by (auto simp: linorder_not_less [symmetric])
  qed
  finally show ?thesis .
qed

section \<open>A snapshot read answers the newest version\<close>

text \<open>The pairs of an as-of range, for a store that holds the versions \<open>V\<close>: one for
each version of the record at or before the snapshot, newest first.\<close>

lemma as_of_pairs:
  assumes f: "finite (dom (data_of V))" and a: "record_id_wf (ra_id a)"
  shows "\<exists>vs. pairs_in (data_of V) (as_of_range a at) =
      map (\<lambda>n. (record_key_encode (key_at a n), stamped_encode (the (V (key_at a n))))) vs
    \<and> sorted_wrt (>) vs \<and> set vs = {n. n \<le> at \<and> V (key_at a n) \<noteq> None}"
proof -
  let ?m = "data_of V" and ?r = "as_of_range a at" and ?enc = "\<lambda>n. record_key_encode (key_at a n)"
  let ?N = "{n. n \<le> at \<and> V (key_at a n) \<noteq> None}"
  have wf: "record_key_wf (key_at a n)" for n using a by (simp add: key_at_def record_key_wf_def)
  have inj: "?enc n = ?enc n' \<longleftrightarrow> n = n'" for n n'
    using record_keys.encode_inject [OF wf wf] by (simp add: key_at_def)
  have ord: "?enc n < ?enc n' \<longleftrightarrow> n' < n" for n n'
    using record_keys.encode_order [OF wf wf] ridk.lt_irrefl [OF a]
    by (simp add: record_key_less_def key_at_def)
  have keys: "keys_in ?m ?r = ?enc ` ?N"
  proof
    show "keys_in ?m ?r \<subseteq> ?enc ` ?N"
    proof
      fix x assume "x \<in> keys_in ?m ?r"
      then obtain k v where k: "record_key_wf k" "x = record_key_encode k" "V k = Some v"
        "in_range ?r x" by (auto simp: keys_in_def data_of_Some)
      then have "address_of k = a" "rk_version k \<le> at" using as_of_range_exact [OF a] by auto
      then have "k = key_at a (rk_version k)" using key_at_address by metis
      then show "x \<in> ?enc ` ?N" using k \<open>rk_version k \<le> at\<close> by (metis (mono_tags, lifting)
            image_eqI mem_Collect_eq option.distinct(1))
    qed
    have "address_of (key_at a n) = a" "rk_version (key_at a n) = n" for n
      by (simp_all add: address_of_def key_at_def)
    then show "?enc ` ?N \<subseteq> keys_in ?m ?r"
      using as_of_range_exact [OF a wf]
      by (auto simp: keys_in_def dom_def data_of_def record_keys.round_trip [OF wf])
  qed
  have "finite (?enc ` ?N)" using f keys by (metis finite_keys_in)
  then have fin: "finite ?N" using inj by (meson finite_imageD inj_onI)
  define vs where "vs = rev (sorted_list_of_set ?N)"
  have vs: "set vs = ?N" "sorted_wrt (>) vs"
    using fin strict_sorted_list_of_set [of ?N] by (auto simp: vs_def sorted_wrt_rev)
  have "sorted_wrt (<) (map ?enc vs)" using vs(2) by (simp add: sorted_wrt_map ord)
  then have "sorted_list_of_set (set (map ?enc vs)) = map ?enc vs"
    by (intro sorted_list_of_set.idem_if_sorted_distinct) (simp_all only: strict_sorted_iff)
  then have "sorted_list_of_set (keys_in ?m ?r) = map ?enc vs"
    unfolding keys vs(1) [symmetric] by simp
  moreover have "the (?m (?enc n)) = stamped_encode (the (V (key_at a n)))" if "n \<in> set vs" for n
    using that vs(1) by (auto simp: data_of_def record_keys.round_trip [OF wf])
  ultimately have "pairs_in ?m ?r
      = map (\<lambda>n. (?enc n, stamped_encode (the (V (key_at a n))))) vs"
    by (simp add: pairs_in_keys)
  then show ?thesis using vs by blast
qed

text \<open>The spec of a read: down the versions at or before the snapshot, newest first,
the first the reader does not pass over.\<close>

fun newest_seen ::
  "(decided \<Rightarrow> stamped_value \<Rightarrow> decided \<times> (read_error + bool)) \<Rightarrow> decided
    \<Rightarrow> (sequence \<times> stamped_value) list
    \<Rightarrow> decided \<times> (read_error + (sequence \<times> stamped_value) option)" where
  "newest_seen passes d [] = (d, Inr None)"
| "newest_seen passes d ((n, v) # vs) =
    (case passes d v of
       (d, Inl e) \<Rightarrow> (d, Inl e)
     | (d, Inr over) \<Rightarrow> if over then newest_seen passes d vs else (d, Inr (Some (n, v))))"

lemma walk_newest_seen:
  assumes a: "record_id_wf (ra_id a)" and V: "versions_wf V"
    and vs: "\<And>n. n \<in> set vs \<Longrightarrow> V (key_at a n) \<noteq> None"
  shows "walk passes d
      (map (\<lambda>n. (record_key_encode (key_at a n), stamped_encode (the (V (key_at a n))))) vs)
    = newest_seen passes d (map (\<lambda>n. (n, the (V (key_at a n)))) vs)"
  using vs
proof (induction vs arbitrary: d)
  case (Cons n vs)
  obtain v where v: "V (key_at a n) = Some v" using Cons.prems [of n] by auto
  have "stamped_decode (stamped_encode v) = Inr v"
    using V v stamped_round_trip unfolding versions_wf_def by metis
  moreover have "record_key_decode (record_key_encode (key_at a n)) = Inr (key_at a n)"
    using a by (intro record_keys.round_trip) (simp add: key_at_def record_key_wf_def)
  moreover have "rk_version (key_at a n) = n" by (simp add: key_at_def)
  ultimately show ?case using Cons v by (simp split: sum.splits prod.splits)
qed simp

lemma range_ok_as_of: "range_ok (as_of_range a at)"
  by (simp add: as_of_range_def range_ok_def split: bound.splits)

context kv_backend
begin

lemma read_as_of_newest_seen:
  assumes "ok s" "maps s DATA = data_of V" "versions_wf V" "record_id_wf (ra_id a)"
  shows "\<exists>vs. read_stamped_as_of (scan_b s) passes d a at
      = Some (newest_seen passes d (map (\<lambda>n. (n, the (V (key_at a n)))) vs))
    \<and> sorted_wrt (>) vs \<and> set vs = {n. n \<le> at \<and> V (key_at a n) \<noteq> None}"
proof -
  have f: "finite (dom (data_of V))" using finite_maps [OF assms(1), of DATA] assms(2) by simp
  obtain vs where vs: "pairs_in (data_of V) (as_of_range a at) =
      map (\<lambda>n. (record_key_encode (key_at a n), stamped_encode (the (V (key_at a n))))) vs"
    "sorted_wrt (>) vs" "set vs = {n. n \<le> at \<and> V (key_at a n) \<noteq> None}"
    using as_of_pairs [OF f assms(4)] by blast
  have "read_stamped_as_of (scan_b s) passes d a at
      = first_in_range (scan_b s) passes d (as_of_range a at)"
    by (simp add: read_stamped_as_of_def as_of_range_def)
  also have "\<dots> = Some (walk passes d (pairs_in (maps s DATA) (as_of_range a at)))"
    using assms(1) range_ok_as_of by (rule first_in_range_walk)
  also have "\<dots> = Some (newest_seen passes d (map (\<lambda>n. (n, the (V (key_at a n)))) vs))"
    unfolding assms(2) vs(1) using vs(3) assms(3,4) by (subst walk_newest_seen) auto
  finally show ?thesis using vs(2,3) by blast
qed

end

subsection \<open>What a reader decided stays decided\<close>

lemma sees_extends: "sees get asked rd d p = (d', r) \<Longrightarrow> d \<subseteq>\<^sub>m d'"
  by (auto simp: sees_def map_le_def split: option.splits sum.splits if_splits)

lemma sees_decided:
  assumes "sees get asked rd d p = (d1, Inr yes)" "d1 \<subseteq>\<^sub>m d'" "prov_transaction q = prov_transaction p"
  shows "sees get' asked' rd d' q = (d', Inr yes)"
proof (cases "resolution_of rd (prov_transaction p)")
  case None
  then have "d1 (prov_transaction p) = Some yes"
    using assms(1) by (auto simp: sees_def split: option.splits sum.splits)
  then have "d' (prov_transaction p) = Some yes" using assms(2) by (auto simp: map_le_def dom_def)
  then show ?thesis using None assms(3) by (simp add: sees_def)
qed (use assms(1,3) in \<open>auto simp: sees_def\<close>)

lemma sees_error: "sees get asked rd d p = (d', Inl e) \<Longrightarrow> d' = d"
  by (auto simp: sees_def split: option.splits sum.splits)

lemma passes_over_extends: "passes_over get asked rd d v = (d', r) \<Longrightarrow> d \<subseteq>\<^sub>m d'"
  by (auto simp: passes_over_def split: option.splits prod.splits sum.splits dest: sees_extends)

lemma passes_over_decided:
  assumes "passes_over get asked rd d v = (d1, Inr hidden)" "d1 \<subseteq>\<^sub>m d'"
  shows "passes_over get' asked' rd d' v = (d', Inr hidden)"
  using assms sees_decided [OF _ assms(2) refl]
  by (auto simp: passes_over_def split: option.splits prod.splits sum.splits)

lemma passes_over_error: "passes_over get asked rd d v = (d', Inl e) \<Longrightarrow> d' = d"
  by (auto simp: passes_over_def split: option.splits prod.splits sum.splits dest: sees_error)

text \<open>A version is hidden from a reader that has decided not to see the transaction
across leaders it belongs to.\<close>

definition hidden_from ::
  "get_fn \<Rightarrow> (transaction_id \<Rightarrow> reach \<Rightarrow> transaction_record option) \<Rightarrow> reader \<Rightarrow> decided \<Rightarrow> stamped_value \<Rightarrow> bool" where
  "hidden_from get asked rd d v \<longleftrightarrow>
    (\<exists>p. sv_provenance v = Some p \<and> sees get asked rd d p = (d, Inr False))"

definition shown_to ::
  "get_fn \<Rightarrow> (transaction_id \<Rightarrow> reach \<Rightarrow> transaction_record option) \<Rightarrow> reader \<Rightarrow> decided \<Rightarrow> stamped_value \<Rightarrow> bool" where
  "shown_to get asked rd d v \<longleftrightarrow>
    (\<forall>p. sv_provenance v = Some p \<longrightarrow> sees get asked rd d p = (d, Inr True))"

lemma passes_over_iff:
  "passes_over get asked rd d v = (d, Inr True) \<longleftrightarrow> hidden_from get asked rd d v"
  "passes_over get asked rd d v = (d, Inr False) \<longleftrightarrow> shown_to get asked rd d v"
  by (auto simp: passes_over_def hidden_from_def shown_to_def split: option.splits prod.splits sum.splits)

text \<open>A walk down the versions stops at the first that is not hidden, and what it decided
on the way says so of every version it met.\<close>

lemma newest_seen_cases:
  assumes "newest_seen (passes_over get asked rd) d vs = (d', r)"
  shows "d \<subseteq>\<^sub>m d' \<and>
    (case r of
       Inl e \<Rightarrow> \<exists>us x ws. vs = us @ x # ws \<and> (\<forall>y \<in> set us. hidden_from get asked rd d' (snd y))
         \<and> passes_over get asked rd d' (snd x) = (d', Inl e)
     | Inr None \<Rightarrow> \<forall>y \<in> set vs. hidden_from get asked rd d' (snd y)
     | Inr (Some x) \<Rightarrow> \<exists>us ws. vs = us @ x # ws \<and> (\<forall>y \<in> set us. hidden_from get asked rd d' (snd y))
         \<and> shown_to get asked rd d' (snd x))"
  using assms
proof (induction vs arbitrary: d)
  case (Cons x vs)
  obtain n v where x: "x = (n, v)" by (cases x)
  obtain d1 q where q: "passes_over get asked rd d v = (d1, q)" by fastforce
  note ext = passes_over_extends [OF q]
  consider (failed) e where "q = Inl e" | (visible) "q = Inr False" | (hides) "q = Inr True"
    by (cases q) auto
  then show ?case
  proof cases
    case (failed e)
    then have d1: "d1 = d" using passes_over_error q by blast
    then have "d' = d" "r = Inl e" using Cons.prems q failed by (simp_all add: x)
    then show ?thesis using q failed d1 by (auto simp: x intro!: exI [of _ "[]"])
  next
    case visible
    then have "d' = d1" "r = Inr (Some (n, v))" using Cons.prems q by (simp_all add: x)
    moreover have "shown_to get asked rd d1 v"
      using passes_over_decided [of get asked rd d v d1 False d1] q visible passes_over_iff(2) by auto
    moreover have "\<exists>us ws. (n, v) # vs = us @ (n, v) # ws \<and> (\<forall>y \<in> set us. hidden_from get asked rd d1 (snd y))"
      by (intro exI [of _ "[]"] exI [of _ vs]) simp
    ultimately show ?thesis using ext by (auto simp: x)
  next
    case hides
    then have rest: "newest_seen (passes_over get asked rd) d1 vs = (d', r)" using Cons.prems q by (simp add: x)
    note ih = Cons.IH [OF rest]
    have le: "d1 \<subseteq>\<^sub>m d'" using ih by blast
    have h: "hidden_from get asked rd d' v"
      using passes_over_decided [of get asked rd d v d1 True d'] q hides le passes_over_iff(1) by auto
    have "d \<subseteq>\<^sub>m d'" using ext le by (rule map_le_trans)
    moreover have "vs = us @ y # ws \<Longrightarrow> x # vs = (x # us) @ y # ws" for us y ws by simp
    ultimately show ?thesis using ih h unfolding x
      by (auto split: sum.splits option.splits) (metis Cons_eq_appendI set_ConsD snd_conv)+
  qed
qed auto

text \<open>And it decides about a transaction only by asking the store and the leaders.\<close>

lemma newest_seen_decides:
  assumes "newest_seen (passes_over get asked rd) d vs = (d', r)" "d' t = Some yes"
  shows "d t = Some yes \<or> (\<exists>y \<in> set vs. \<exists>p. sv_provenance (snd y) = Some p \<and> prov_transaction p = t
    \<and> seen_now get asked rd p = Inr yes)"
  using assms(1)
proof (induction vs arbitrary: d)
  case (Cons x vs)
  obtain d1 q where q: "passes_over get asked rd d (snd x) = (d1, q)" by fastforce
  have one: "d t = Some yes \<or> (\<exists>p. sv_provenance (snd x) = Some p \<and> prov_transaction p = t
      \<and> seen_now get asked rd p = Inr yes)" if "d1 t = Some yes"
    using q that by (auto simp: passes_over_def sees_def split: option.splits prod.splits sum.splits if_splits)
  have "d1 = d' \<or> newest_seen (passes_over get asked rd) d1 vs = (d', r)"
    using Cons.prems q by (cases x) (auto split: sum.splits if_splits)
  then show ?case using Cons.IH [of d1] one assms(2) by auto
qed (use assms(2) in simp)

lemma data_of_empty [simp]: "data_of Map.empty = Map.empty"
  by (simp add: data_of_def fun_eq_iff split: sum.splits)

lemma data_of_update:
  assumes "record_key_wf k"
  shows "(data_of V)(record_key_encode k \<mapsto> stamped_encode v) = data_of (V(k \<mapsto> v))"
proof
  fix bs
  show "((data_of V)(record_key_encode k \<mapsto> stamped_encode v)) bs = data_of (V(k \<mapsto> v)) bs"
  proof (cases "bs = record_key_encode k")
    case True
    then show ?thesis by (simp add: data_of_def record_keys.round_trip [OF assms])
  next
    case False
    then have "record_key_decode bs \<noteq> Inr k" using record_key_decode_only by blast
    then show ?thesis using False by (auto simp: data_of_def split: sum.splits)
  qed
qed

section \<open>Properties\<close>

lemma memory_apply_maps:
  assumes "memory_ok s" "memory_apply s b = (t, r)"
  shows "memory_ok t" "memory_maps t = (if r = Inr () then map_ops (ops b) (memory_maps s) else memory_maps s)"
  using memory_apply_cases [OF assms(1), of b] assms by (auto split: if_splits)

lemma data_of_single:
  assumes "record_key_wf k"
  shows "data_of [k \<mapsto> v] = [record_key_encode k \<mapsto> stamped_encode v]"
proof
  fix bs
  have "data_of [k \<mapsto> v] bs = Some x \<longleftrightarrow> [record_key_encode k \<mapsto> stamped_encode v] bs = Some x" for x
    using assms by (auto simp: data_of_Some split: if_splits)
  then show "data_of [k \<mapsto> v] bs = [record_key_encode k \<mapsto> stamped_encode v] bs"
    by (metis not_Some_eq)
qed

lemma decreasing_split:
  fixes n :: "'a::linorder"
  assumes "sorted_wrt (>) vs" "map f vs = us @ f n # ws" "\<And>m m'. f m = f m' \<Longrightarrow> m = m'" "m \<in> set vs" "n < m"
  shows "f m \<in> set us"
proof -
  obtain us' n' ws' where s: "vs = us' @ n' # ws'" "us = map f us'" "f n' = f n"
    using assms(2) by (auto simp: map_eq_append_conv map_eq_Cons_conv)
  then have "n' = n" using assms(3) by blast
  then have "m \<in> set us'" using assms(1,4,5) s(1) by (auto simp: sorted_wrt_append)
  then show ?thesis using s(2) by simp
qed

text \<open>C8: a read at a snapshot returns.  It answers the newest version of the record at or
before the snapshot that is not hidden from the reader: every newer version up to the
snapshot belongs to a transaction across leaders the reader has decided not to see,
and the one answered belongs to none or to one the reader sees.  It answers nothing
only when every version up to the snapshot is hidden, so a version of no transaction
across leaders is never skipped.  It fails only where asking about the transaction of
the newest version not hidden failed.  It keeps every decision it had, and takes a new
one only about a transaction of a version it met, as the store and the leaders answer.
The store does not change while the read is made.\<close>

theorem snapshot_read_newest:
  assumes "memory_ok s" "memory_maps s DATA = data_of V" "versions_wf V" "record_id_wf (ra_id a)"
  shows "\<exists>d' res. read_stamped_as_of (memory_scan s) (passes_over get asked rd) d a at = Some (d', res)
    \<and> d \<subseteq>\<^sub>m d'
    \<and> (\<forall>t yes. d' t = Some yes \<longrightarrow> d t = Some yes \<or> (\<exists>n v p. n \<le> at \<and> V (key_at a n) = Some v
         \<and> sv_provenance v = Some p \<and> prov_transaction p = t \<and> seen_now get asked rd p = Inr yes))
    \<and> (case res of
         Inr None \<Rightarrow> \<forall>n v. n \<le> at \<and> V (key_at a n) = Some v \<longrightarrow> hidden_from get asked rd d' v
       | Inr (Some (n, v)) \<Rightarrow> n \<le> at \<and> V (key_at a n) = Some v \<and> shown_to get asked rd d' v
           \<and> (\<forall>m u. n < m \<and> m \<le> at \<and> V (key_at a m) = Some u \<longrightarrow> hidden_from get asked rd d' u)
       | Inl e \<Rightarrow> \<exists>n v. n \<le> at \<and> V (key_at a n) = Some v \<and> passes_over get asked rd d' v = (d', Inl e)
           \<and> (\<forall>m u. n < m \<and> m \<le> at \<and> V (key_at a m) = Some u \<longrightarrow> hidden_from get asked rd d' u))"
proof -
  let ?val = "\<lambda>n. (n, the (V (key_at a n)))"
  obtain vs where vs: "read_stamped_as_of (memory_scan s) (passes_over get asked rd) d a at
      = Some (newest_seen (passes_over get asked rd) d (map ?val vs))"
    "sorted_wrt (>) vs" "set vs = {n. n \<le> at \<and> V (key_at a n) \<noteq> None}"
    using memory.read_as_of_newest_seen [OF assms] by blast
  obtain d' res where res: "newest_seen (passes_over get asked rd) d (map ?val vs) = (d', res)" by fastforce
  note cs = newest_seen_cases [OF res]
  have mem: "?val n \<in> set (map ?val vs)" if "n \<le> at" "V (key_at a n) = Some v" for n v
    using that vs(3) by auto
  have newer: "hidden_from get asked rd d' u"
    if "map ?val vs = us @ (n, v) # ws" "\<forall>y \<in> set us. hidden_from get asked rd d' (snd y)"
      "n < m" "m \<le> at" "V (key_at a m) = Some u" for us n v ws m u
  proof -
    have "(n, v) \<in> set (map ?val vs)" unfolding that(1) by simp
    then have "(n, v) = ?val n" by auto
    then have "?val m \<in> set us"
      using decreasing_split [OF vs(2), of ?val us n ws m] that vs(3) by auto
    then show ?thesis using that(2,5) by auto
  qed
  have at: "n \<le> at \<and> V (key_at a n) = Some v" if "map ?val vs = us @ (n, v) # ws" for us n v ws
  proof -
    have "(n, v) \<in> set (map ?val vs)" unfolding that by simp
    then show ?thesis using vs(3) by auto
  qed
  show ?thesis
  proof (intro exI conjI)
    show "read_stamped_as_of (memory_scan s) (passes_over get asked rd) d a at = Some (d', res)"
      using vs(1) res by simp
    show "d \<subseteq>\<^sub>m d'" using cs by blast
    show "\<forall>t yes. d' t = Some yes \<longrightarrow> d t = Some yes \<or> (\<exists>n v p. n \<le> at \<and> V (key_at a n) = Some v
        \<and> sv_provenance v = Some p \<and> prov_transaction p = t \<and> seen_now get asked rd p = Inr yes)"
    proof (intro allI impI)
      fix t yes assume "d' t = Some yes"
      from newest_seen_decides [OF res this] show "d t = Some yes \<or> (\<exists>n v p. n \<le> at \<and> V (key_at a n) = Some v
          \<and> sv_provenance v = Some p \<and> prov_transaction p = t \<and> seen_now get asked rd p = Inr yes)"
        using vs(3) by fastforce
    qed
    show "case res of
         Inr None \<Rightarrow> \<forall>n v. n \<le> at \<and> V (key_at a n) = Some v \<longrightarrow> hidden_from get asked rd d' v
       | Inr (Some (n, v)) \<Rightarrow> n \<le> at \<and> V (key_at a n) = Some v \<and> shown_to get asked rd d' v
           \<and> (\<forall>m u. n < m \<and> m \<le> at \<and> V (key_at a m) = Some u \<longrightarrow> hidden_from get asked rd d' u)
       | Inl e \<Rightarrow> \<exists>n v. n \<le> at \<and> V (key_at a n) = Some v \<and> passes_over get asked rd d' v = (d', Inl e)
           \<and> (\<forall>m u. n < m \<and> m \<le> at \<and> V (key_at a m) = Some u \<longrightarrow> hidden_from get asked rd d' u)"
    proof (cases res)
      case (Inl e)
      then obtain us x ws where x: "map ?val vs = us @ x # ws" "\<forall>y \<in> set us. hidden_from get asked rd d' (snd y)"
        "passes_over get asked rd d' (snd x) = (d', Inl e)"
        using cs by auto
      obtain n v where nv: "x = (n, v)" by (cases x)
      note u = x(1) [unfolded nv]
      have "\<forall>m u. n < m \<and> m \<le> at \<and> V (key_at a m) = Some u \<longrightarrow> hidden_from get asked rd d' u"
        using newer [OF u x(2)] by blast
      then show ?thesis using at [OF u] x(3) by (auto simp: Inl nv)
    next
      case (Inr found)
      show ?thesis
      proof (cases found)
        case None
        then show ?thesis using Inr cs mem by fastforce
      next
        case (Some x)
        obtain n v where x: "x = (n, v)" by (cases x)
        obtain us ws where u: "map ?val vs = us @ (n, v) # ws" "\<forall>y \<in> set us. hidden_from get asked rd d' (snd y)"
          "shown_to get asked rd d' v"
          using cs by (auto simp: Inr Some x)
        then show ?thesis using at [OF u(1)] newer [OF u(1,2)] by (auto simp: Inr Some x)
      qed
    qed
  qed
qed

text \<open>The example: a committed version, and over it the intent of a transaction across
leaders that nobody has decided.\<close>

theorem snapshot_read_newest_witness:
  "\<exists>d'. read_stamped_as_of
      (memory_scan \<lparr>keyspaces = (\<lambda>ks. Some (if ks = DATA then
         [(record_key_encode (key_at \<lparr>ra_namespace = 1, ra_database = 1, ra_table = 1, ra_id = IdInt 1\<rparr> 6),
           stamped_encode ((stamped_new Tombstone)\<lparr>sv_provenance := Some \<lparr>prov_transaction = replicate 16 1,
             provisional = True, coordinator = Store, prov_participants = []\<rparr>\<rparr>)),
          (record_key_encode (key_at \<lparr>ra_namespace = 1, ra_database = 1, ra_table = 1, ra_id = IdInt 1\<rparr> 5),
           stamped_encode (stamped_new (Present [9])))] else [])), poisoned = False, rooted = {}\<rparr>)
      (passes_over (\<lambda>_ _. Inr None) (\<lambda>_ _. None)
        \<lparr>snapshot = 7, resolving = None, asks_leaders = False, served = None\<rparr>)
      Map.empty \<lparr>ra_namespace = 1, ra_database = 1, ra_table = 1, ra_id = IdInt 1\<rparr> 7
    = Some (d', Inr (Some (5, stamped_new (Present [9]))))"
proof -
  let ?a = "\<lparr>ra_namespace = 1, ra_database = 1, ra_table = 1, ra_id = IdInt 1\<rparr>"
  let ?p = "\<lparr>prov_transaction = replicate 16 1, provisional = True, coordinator = Store, prov_participants = []\<rparr>"
  let ?v = "stamped_new (Present [9])" and ?w = "(stamped_new Tombstone)\<lparr>sv_provenance := Some ?p\<rparr>"
  let ?V = "[key_at ?a 5 \<mapsto> ?v, key_at ?a 6 \<mapsto> ?w]"
  let ?rd = "\<lparr>snapshot = 7, resolving = None, asks_leaders = False, served = None\<rparr> :: reader"
  let ?get = "(\<lambda>_ _. Inr None) :: get_fn" and ?asked = "\<lambda>_ _. None"
  let ?s = "\<lparr>keyspaces = (\<lambda>ks. Some (if ks = DATA then
      [(record_key_encode (key_at ?a 6), stamped_encode ?w), (record_key_encode (key_at ?a 5), stamped_encode ?v)]
      else [])), poisoned = False, rooted = {}\<rparr>"
  have wf: "record_key_wf (key_at ?a n)" for n by (simp add: record_key_wf_def key_at_def)
  have lt: "record_key_encode (key_at ?a 6) < record_key_encode (key_at ?a 5)"
    using record_keys.encode_order [OF wf wf, of 6 5] by (simp add: record_key_less_def key_at_def)
  then have ok: "memory_ok ?s" by (simp add: memory_ok_def tree_ok_def)
  have m: "memory_maps ?s DATA = data_of ?V"
    using lt by (auto simp: memory_maps_def trees_map_def data_of_update [OF wf, symmetric]
        data_of_single [OF wf] fun_eq_iff)
  have vw: "versions_wf ?V"
    by (auto simp: versions_wf_def stamped_wf_def stamp_wf_def fields_wf_def stamped_new_def provenance_wf_def transaction_wf_def
        width_def TRANSACTION_ID_LEN_def
        stamp_new_def as_written_def expires_def field_expiry_def split: if_splits)
  have key: "key_at ?a n = key_at ?a n' \<longleftrightarrow> n = n'" for n n' by (simp add: key_at_def)
  have asks: "seen_now ?get ?asked ?rd ?p = Inr False" "\<And>p. \<exists>yes. seen_now ?get ?asked ?rd p = Inr yes"
  proof -
    show "seen_now ?get ?asked ?rd ?p = Inr False"
      by (simp add: seen_now_def get_transaction_record_def get_decoded_def)
    have "\<exists>yes. holds_every_part ?get ?rd t ps = Inr yes" for t ps
      by (cases ps) (auto simp: part_landed_def get_decoded_def)
    then show "\<exists>yes. seen_now ?get ?asked ?rd p = Inr yes" for p
      by (auto simp: seen_now_def get_transaction_record_def get_decoded_def)
  qed
  have never: "passes_over ?get ?asked ?rd d u \<noteq> (d', Inl e)" for d d' u e
  proof -
    have "sees ?get ?asked ?rd d p \<noteq> (d', Inl e)" for p d'
      using asks(2) [of p] by (auto simp: sees_def resolution_of_def split: option.splits)
    then show ?thesis by (auto simp: passes_over_def split: option.splits prod.splits sum.splits)
  qed
  obtain d' res where read: "read_stamped_as_of (memory_scan ?s) (passes_over ?get ?asked ?rd) Map.empty ?a 7 = Some (d', res)"
    and dec: "\<forall>t yes. d' t = Some yes \<longrightarrow> Map.empty t = Some yes \<or> (\<exists>n v p. n \<le> 7 \<and> ?V (key_at ?a n) = Some v
       \<and> sv_provenance v = Some p \<and> prov_transaction p = t \<and> seen_now ?get ?asked ?rd p = Inr yes)"
    and res: "case res of
         Inr None \<Rightarrow> \<forall>n v. n \<le> 7 \<and> ?V (key_at ?a n) = Some v \<longrightarrow> hidden_from ?get ?asked ?rd d' v
       | Inr (Some (n, v)) \<Rightarrow> n \<le> 7 \<and> ?V (key_at ?a n) = Some v \<and> shown_to ?get ?asked ?rd d' v
           \<and> (\<forall>m u. n < m \<and> m \<le> 7 \<and> ?V (key_at ?a m) = Some u \<longrightarrow> hidden_from ?get ?asked ?rd d' u)
       | Inl e \<Rightarrow> \<exists>n v. n \<le> 7 \<and> ?V (key_at ?a n) = Some v \<and> passes_over ?get ?asked ?rd d' v = (d', Inl e)
           \<and> (\<forall>m u. n < m \<and> m \<le> 7 \<and> ?V (key_at ?a m) = Some u \<longrightarrow> hidden_from ?get ?asked ?rd d' u)"
    using snapshot_read_newest [OF ok m vw, of ?a ?get ?asked ?rd Map.empty 7] by auto
  have "d' (replicate 16 1) \<noteq> Some True"
    using dec asks(1) by (auto simp: key stamped_new_def split: if_splits)
  then have w: "\<not> shown_to ?get ?asked ?rd d' ?w"
    using asks(1) by (auto simp: shown_to_def sees_def resolution_of_def split: option.splits)
  have v: "\<not> hidden_from ?get ?asked ?rd d' ?v" by (simp add: hidden_from_def stamped_new_def)
  have "res = Inr (Some (5, ?v))"
  proof (cases res)
    case (Inr found)
    then show ?thesis
      using res v w by (cases found) (auto simp: key split: if_splits prod.splits dest: spec [of _ 5])
  qed (use res never in auto)
  then show ?thesis using read by blast
qed

text \<open>In general a snapshot read walks the versions of the record at or before the
snapshot, newest first, and answers the first that is not passed over; a version
of a transaction across leaders the reader does not see yields to the one under
it.\<close>

theorem snapshot_read_passes_over:
  assumes "memory_ok s" "memory_maps s DATA = data_of V" "versions_wf V" "record_id_wf (ra_id a)"
  shows "\<exists>vs. read_stamped_as_of (memory_scan s) (passes_over get asked rd) d a at
      = Some (newest_seen (passes_over get asked rd) d (map (\<lambda>n. (n, the (V (key_at a n)))) vs))
    \<and> sorted_wrt (>) vs \<and> set vs = {n. n \<le> at \<and> V (key_at a n) \<noteq> None}"
  using assms by (rule memory.read_as_of_newest_seen)

text \<open>The questions a reader asks one after another, each over the store and the leaders
as they answer then, and what it is told.\<close>

fun questions ::
  "reader \<Rightarrow> decided \<Rightarrow> (get_fn \<times> (transaction_id \<Rightarrow> reach \<Rightarrow> transaction_record option) \<times> provenance) list
    \<Rightarrow> (read_error + bool) list" where
  "questions rd d [] = []"
| "questions rd d ((get, asked, p) # qs) =
    (case sees get asked rd d p of (d, answered) \<Rightarrow> answered # questions rd d qs)"

lemma length_questions [simp]: "length (questions rd d qs) = length qs"
  by (induction rd d qs rule: questions.induct) (simp_all split: prod.splits)

lemma questions_decided:
  assumes "sees get asked rd d p = (d1, Inr yes)" "d1 \<subseteq>\<^sub>m d'" "j < length qs"
    "prov_transaction (snd (snd (qs ! j))) = prov_transaction p"
  shows "questions rd d' qs ! j = Inr yes"
  using assms(2-)
proof (induction qs arbitrary: j d')
  case (Cons x qs)
  obtain get' asked' q where x: "x = (get', asked', q)" by (cases x)
  obtain d2 r where s: "sees get' asked' rd d' q = (d2, r)" by fastforce
  show ?case
  proof (cases j)
    case 0
    then show ?thesis using sees_decided [OF assms(1) Cons.prems(1), of q] Cons.prems(3) by (simp add: x)
  next
    case (Suc i)
    have "d1 \<subseteq>\<^sub>m d2" using Cons.prems(1) sees_extends [OF s] by (rule map_le_trans)
    then show ?thesis using Cons.IH [of d2 i] Cons.prems(2,3) Suc by (simp add: x s)
  qed
qed simp

text \<open>C34: whether a reader sees a transaction across leaders is decided once.  Of any
questions it asks one after another, about any transactions, with the store, the
leaders and what a version says of its transaction changing in between and any of
them failing: once one about a transaction is answered, every later one about that
transaction is answered, and the same.\<close>

theorem transaction_seen_once:
  assumes "i < j" "j < length qs" "questions rd d qs ! i = Inr yes"
    "prov_transaction (snd (snd (qs ! j))) = prov_transaction (snd (snd (qs ! i)))"
  shows "questions rd d qs ! j = Inr yes"
  using assms
proof (induction qs arbitrary: i j d)
  case (Cons x qs)
  obtain get asked p where x: "x = (get, asked, p)" by (cases x)
  obtain d1 r where s: "sees get asked rd d p = (d1, r)" by fastforce
  obtain k where j: "j = Suc k" using Cons.prems(1) by (cases j) simp_all
  show ?case
  proof (cases i)
    case 0
    then have "r = Inr yes" using Cons.prems(3) by (simp add: x s)
    then show ?thesis
      using questions_decided [of get asked rd d p d1 yes d1 k qs] s Cons.prems(2,4) 0
      by (simp add: x j)
  next
    case (Suc h)
    then show ?thesis using Cons.IH [of h k d1] Cons.prems by (simp add: x s j)
  qed
qed simp

theorem transaction_seen_once_witness:
  "questions \<lparr>snapshot = 7, resolving = None, asks_leaders = False, served = None\<rparr> Map.empty
      [((\<lambda>_ _. Inr None), (\<lambda>_ _. None), \<lparr>prov_transaction = replicate 16 1, provisional = False, coordinator = Store, prov_participants = []\<rparr>),
       ((\<lambda>_ _. Inr None), (\<lambda>_ _. None), \<lparr>prov_transaction = replicate 16 2, provisional = True, coordinator = Store, prov_participants = []\<rparr>),
       ((\<lambda>_ _. Inl (Busy ''x'' ''y'')), (\<lambda>_ _. None), \<lparr>prov_transaction = replicate 16 1, provisional = True, coordinator = Store, prov_participants = []\<rparr>)] ! 2
    = Inr True"
  by (rule transaction_seen_once [where i = 0])
    (simp_all add: sees_def resolution_of_def seen_now_def)

end
