(* ===== verification/Intents.thy ===== *)
theory Intents
  imports Log_Record Snapshot_Read
begin

text \<open>What a record of a transaction across leaders does beyond its versions, where a
leader and a follower both apply it (intents.rs and intents/unsettled.rs of
tessari-storage), and the home of a log record (catalog/carried.rs).  An
operation reads the store through the calls it makes on the backend and adds to
the batch it is given.  The rows of the catalog are not modelled: who a mutation
of the system tenancy is carried to is an argument.\<close>

section \<open>Errors\<close>

datatype settle_error =
    Failed read_error
  | AcrossMalformed string string
  | AcrossDecided string
  | CatalogFailed string

fun lift_read :: "read_error + 'a \<Rightarrow> settle_error + 'a" where
  "lift_read (Inl e) = Inl (Failed e)"
| "lift_read (Inr a) = Inr a"

section \<open>The home of a record\<close>

datatype carried = Within reach | Schema reach | Everywhere | StoreOnly

fun reaches :: "carried \<Rightarrow> reach \<Rightarrow> bool" where
  "reaches Everywhere sub \<longleftrightarrow> True"
| "reaches (Within own) sub \<longleftrightarrow> contains sub own"
| "reaches (Schema own) sub \<longleftrightarrow> contains sub own \<or> contains own sub"
| "reaches StoreOnly sub \<longleftrightarrow> sub = Store"

definition SYSTEM_NAMESPACE :: namespace_id where "SYSTEM_NAMESPACE = 0"
definition SYSTEM_DATABASE :: database_id where "SYSTEM_DATABASE = 0"
definition RECORD_SEQUENCES :: table_id where "RECORD_SEQUENCES = 13"

type_synonym catalog_fn = "mutation \<Rightarrow> settle_error + carried"

definition carried_to :: "catalog_fn \<Rightarrow> mutation \<Rightarrow> settle_error + carried" where
  "carried_to catalog m =
    (if mu_namespace m \<noteq> SYSTEM_NAMESPACE \<or> mu_database m \<noteq> SYSTEM_DATABASE then
       (case mu_shard m of
          Some s \<Rightarrow> Inr (Within (Shard (mu_namespace m) (mu_database m) (mu_table m) s))
        | None \<Rightarrow>
            Inr (case reach_of (Some (mu_namespace m)) (Some (mu_database m)) of
                   Some r \<Rightarrow> Within r
                 | None \<Rightarrow> StoreOnly))
     else catalog m)"

definition counted_sequence :: "mutation \<Rightarrow> bool" where
  "counted_sequence m \<longleftrightarrow> mu_namespace m = SYSTEM_NAMESPACE \<and> mu_database m = SYSTEM_DATABASE
    \<and> mu_table m = RECORD_SEQUENCES"

fun own_reach :: "carried \<Rightarrow> reach" where
  "own_reach (Within r) = r"
| "own_reach (Schema r) = r"
| "own_reach Everywhere = Store"
| "own_reach StoreOnly = Store"

fun home_loop :: "catalog_fn \<Rightarrow> bool \<Rightarrow> reach option \<Rightarrow> mutation list \<Rightarrow> settle_error + reach option" where
  "home_loop catalog rides h [] = Inr h"
| "home_loop catalog rides h (m # ms) =
    (if rides \<and> counted_sequence m then home_loop catalog rides h ms
     else
       bindR (carried_to catalog m) (\<lambda>c.
         let own = own_reach c in
         home_loop catalog rides
           (Some (case h of Some so_far \<Rightarrow> join so_far own | None \<Rightarrow> own)) ms))"

definition home_of :: "catalog_fn \<Rightarrow> log_record \<Rightarrow> settle_error + reach" where
  "home_of catalog r =
    (case map_option across_part (lr_across r) of
       Some (Forget c) \<Rightarrow> Inr c
     | Some (Landed rg) \<Rightarrow> Inr rg
     | Some (Prevent rg) \<Rightarrow> Inr rg
     | parted \<Rightarrow>
         (case Option.bind parted part_record of
            Some decided \<Rightarrow>
              (case participants decided of
                 first # _ \<Rightarrow> Inr (range first)
               | [] \<Rightarrow> Inl (AcrossMalformed ''decide'' ''a record that names no participant''))
          | None \<Rightarrow>
              bindR (home_loop catalog (list_ex (\<lambda>m. \<not> counted_sequence m) (mutations r)) None
                (mutations r)) (\<lambda>h.
                Inr (case h of Some so_far \<Rightarrow> so_far | None \<Rightarrow> Store))))"

section \<open>What a record derives\<close>

definition writes_versions :: "log_record \<Rightarrow> bool" where
  "writes_versions r \<longleftrightarrow>
    (case lr_across r of
       None \<Rightarrow> True
     | Some a \<Rightarrow> prepares (across_part a) \<or> resolution (across_part a) = Some True)"

definition derives_nothing :: "log_record \<Rightarrow> bool" where
  "derives_nothing r \<longleftrightarrow>
    (case lr_across r of None \<Rightarrow> False | Some a \<Rightarrow> resolution (across_part a) \<noteq> Some True)"

section \<open>The records, markers, bars and intents\<close>

definition carries :: "across \<Rightarrow> log_record \<Rightarrow> bool \<Rightarrow> bool" where
  "carries a r prov \<longleftrightarrow> list_all (\<lambda>m.
    case sv_provenance (mu_value m) of
      None \<Rightarrow> False
    | Some p \<Rightarrow> prov_transaction p = across_transaction a \<and> provisional p = prov
        \<and> (prov \<or> prov_participants p \<noteq> [])) (mutations r)"

definition intent_key_of :: "transaction_id \<Rightarrow> mutation \<Rightarrow> intent_key" where
  "intent_key_of t m =
    \<lparr>ik_transaction = t, ik_namespace = mu_namespace m, ik_database = mu_database m,
     ik_table = mu_table m, ik_id = mu_id m\<rparr>"

definition landed :: "get_fn \<Rightarrow> part_key \<Rightarrow> write_batch \<Rightarrow> sequence \<Rightarrow> settle_error + write_batch" where
  "landed get part b version =
    bindR (lift_read (lift_kv (get (keyspace_of AcrossPart) (across_part_encode part)))) (\<lambda>found.
      if found \<noteq> None then Inr b
      else Inr (batch_put (keyspace_of AcrossPart) (across_part_encode part) (sequence_encode version) b))"

text \<open>Why a record may not be written over the one that stands, if it may not.\<close>

definition record_refused :: "decision option \<Rightarrow> part \<Rightarrow> decision \<Rightarrow> string option" where
  "record_refused standing part new =
    (case standing of
       None \<Rightarrow> if new = Committed then Some ''absent'' else None
     | Some Pending \<Rightarrow> (case part of Begin _ \<Rightarrow> Some ''pending'' | _ \<Rightarrow> None)
     | Some Staging \<Rightarrow>
         if (case part of Begin _ \<Rightarrow> True | _ \<Rightarrow> False) \<or> new = Pending then Some ''staging'' else None
     | Some Committed \<Rightarrow> if new \<noteq> Committed then Some ''committed'' else None
     | Some Aborted \<Rightarrow> if new \<noteq> Aborted then Some ''aborted'' else None)"

definition recorded ::
  "get_fn \<Rightarrow> across \<Rightarrow> transaction_record \<Rightarrow> write_batch \<Rightarrow> settle_error + write_batch" where
  "recorded get a decided b =
    bindR (lift_read (get_transaction_record get (across_transaction a))) (\<lambda>standing.
      case record_refused (map_option decision standing) (across_part a) (decision decided) of
        Some why \<Rightarrow> Inl (AcrossDecided why)
      | None \<Rightarrow>
          Inr (batch_put (keyspace_of TransactionRecord)
            (transaction_record_encode (across_transaction a)) (record_encode decided) b))"

definition prepared ::
  "get_fn \<Rightarrow> catalog_fn \<Rightarrow> across \<Rightarrow> log_record \<Rightarrow> write_batch \<Rightarrow> sequence \<Rightarrow> string
    \<Rightarrow> settle_error + write_batch" where
  "prepared get catalog a r b version part =
    (if \<not> carries a r True
     then Inl (AcrossMalformed part ''a write that is not an intent of its transaction'')
     else
       bindR (home_of catalog r) (\<lambda>h.
       bindR (landed get \<lparr>pk_transaction = across_transaction a, pk_range = h\<rparr> b version) (\<lambda>b.
         Inr (foldl (\<lambda>b m. batch_put (keyspace_of IntentOf)
           (intent_of_encode (intent_key_of (across_transaction a) m)) (sequence_encode version) b)
           b (mutations r)))))"

fun resolved_loop ::
  "get_fn \<Rightarrow> transaction_id \<Rightarrow> write_batch \<Rightarrow> mutation list \<Rightarrow> settle_error + write_batch" where
  "resolved_loop get t b [] = Inr b"
| "resolved_loop get t b (m # ms) =
    (let indexed = intent_of_encode (intent_key_of t m) in
     bindR (lift_read (lift_kv (get (keyspace_of IntentOf) indexed))) (\<lambda>found.
       case found of
         None \<Rightarrow> resolved_loop get t b ms
       | Some held \<Rightarrow>
           bindR (lift_read (lift_enc (sequence_decode held))) (\<lambda>version.
             let intent = \<lparr>rk_namespace = mu_namespace m, rk_database = mu_database m,
                   rk_table = mu_table m, rk_id = mu_id m, rk_version = version\<rparr>
             in resolved_loop get t
                  (batch_delete (keyspace_of IntentOf) indexed
                    (batch_delete (keyspace_of Record) (record_key_encode intent) b)) ms)))"

definition resolved ::
  "get_fn \<Rightarrow> across \<Rightarrow> log_record \<Rightarrow> write_batch \<Rightarrow> bool \<Rightarrow> string \<Rightarrow> settle_error + write_batch" where
  "resolved get a r b committed part =
    (if committed \<and> \<not> carries a r False
     then Inl (AcrossMalformed part ''a committed value that is not its transaction's'')
     else resolved_loop get (across_transaction a) b (mutations r))"

definition unbarred :: "get_fn \<Rightarrow> catalog_fn \<Rightarrow> across \<Rightarrow> log_record \<Rightarrow> settle_error + unit" where
  "unbarred get catalog a r =
    bindR (home_of catalog r) (\<lambda>h.
    bindR (lift_read (lift_kv (get (keyspace_of AcrossBarred)
      (across_barred_encode \<lparr>pk_transaction = across_transaction a, pk_range = h\<rparr>)))) (\<lambda>found.
      if found \<noteq> None then Inl (AcrossDecided ''barred'') else Inr ()))"

section \<open>Tables part-way in a transaction\<close>

text \<open>A set of the standard library (\<^verbatim>\<open>BTreeSet\<close>) is the sorted list of its
elements.\<close>

definition set_extend :: "'a::linorder list \<Rightarrow> 'a list \<Rightarrow> 'a list" where
  "set_extend xs ys = foldl (\<lambda>xs y. insort_insert y xs) xs ys"

definition across_unsettled :: "scan_fn \<Rightarrow> table_id \<Rightarrow> read_error + bool" where
  "across_unsettled scan tb =
    bindR (lift_kv (scan \<lparr>req_keyspace = keyspace_of AcrossUnsettled,
      req_range = key_range_prefix (across_unsettled_prefix_of tb), req_direction = Forward,
      req_limit = Some 1\<rparr>)) (\<lambda>found. Inr (found \<noteq> []))"

definition committed_with :: "participant list \<Rightarrow> transaction_record" where
  "committed_with ps = \<lparr>decision = Committed, deadline = 0, participants = ps\<rparr>"

fun marks_loop ::
  "transaction_id \<Rightarrow> pair list \<Rightarrow> read_error + (table_id \<times> transaction_record) list" where
  "marks_loop t [] = Inr []"
| "marks_loop t ((k, v) # ps) =
    bindR (lift_enc (across_unsettled_decode k)) (\<lambda>held.
      if uk_transaction held = t then
        bindR (lift_enc (record_decode v)) (\<lambda>r.
        bindR (marks_loop t ps) (\<lambda>marked. Inr ((uk_table held, r) # marked)))
      else marks_loop t ps)"

definition marks_of ::
  "scan_fn \<Rightarrow> transaction_id \<Rightarrow> read_error + (table_id \<times> transaction_record) list" where
  "marks_of scan t =
    bindR (lift_kv (scan \<lparr>req_keyspace = keyspace_of AcrossUnsettled,
      req_range = key_range_prefix across_unsettled_prefix, req_direction = Forward,
      req_limit = None\<rparr>)) (marks_loop t)"

fun part_missing ::
  "get_fn \<Rightarrow> reach option \<Rightarrow> transaction_id \<Rightarrow> participant list \<Rightarrow> reach option
    \<Rightarrow> read_error + bool" where
  "part_missing get srv t [] landing = Inr False"
| "part_missing get srv t (p # ps) landing =
    (if (case srv of Some over \<Rightarrow> \<not> contains over (range p) | None \<Rightarrow> False)
        \<or> landing = Some (range p)
     then part_missing get srv t ps landing
     else
       bindR (lift_kv (get (keyspace_of AcrossPart)
         (across_part_encode \<lparr>pk_transaction = t, pk_range = range p\<rparr>))) (\<lambda>found.
         if found = None then Inr True else part_missing get srv t ps landing))"

definition standing_after :: "across \<Rightarrow> mutation list \<Rightarrow> bytes list \<Rightarrow> bytes list" where
  "standing_after a ms held = foldl (\<lambda>standing m.
     let intent = intent_of_encode (intent_key_of (across_transaction a) m) in
     if prepares (across_part a) then insort_insert intent standing
     else if resolution (across_part a) \<noteq> None then removeAll intent standing
     else standing) held ms"

fun tables_of :: "bytes list \<Rightarrow> enc_error + table_id list" where
  "tables_of [] = Inr []"
| "tables_of (k # ks) =
    bindR (intent_of_decode k) (\<lambda>i. bindR (tables_of ks) (\<lambda>ts. Inr (ik_table i # ts)))"

definition intent_tables ::
  "scan_fn \<Rightarrow> across \<Rightarrow> log_record \<Rightarrow> read_error + table_id list" where
  "intent_tables scan a r =
    bindR (lift_kv (scan \<lparr>req_keyspace = keyspace_of IntentOf,
      req_range = key_range_prefix (intent_of_prefix_of (across_transaction a)),
      req_direction = Forward, req_limit = None\<rparr>)) (\<lambda>found.
    bindR (lift_enc (tables_of (standing_after a (mutations r) (set_extend [] (map fst found))))) (\<lambda>ts.
      Inr (set_extend [] ts)))"

text \<open>What is known of a commit, for a record that carries no decision of its own: its
record here, its committed resolution, or an earlier mark.\<close>

definition known_committed ::
  "across \<Rightarrow> log_record \<Rightarrow> transaction_record option \<Rightarrow> (table_id \<times> transaction_record) list
    \<Rightarrow> transaction_record option" where
  "known_committed a r decided marked =
    (case decided of
       Some d \<Rightarrow> Some d
     | None \<Rightarrow>
         (case List.map_filter (\<lambda>m. sv_provenance (mu_value m)) (mutations r) of
            p # _ \<Rightarrow>
              if resolution (across_part a) = Some True then Some (committed_with (prov_participants p))
              else (case marked of [] \<Rightarrow> None | (_, d) # _ \<Rightarrow> Some d)
          | [] \<Rightarrow> (case marked of [] \<Rightarrow> None | (_, d) # _ \<Rightarrow> Some d)))"

definition mark_targets ::
  "across \<Rightarrow> log_record \<Rightarrow> bool \<Rightarrow> (table_id \<times> transaction_record) list \<Rightarrow> table_id list
    \<Rightarrow> table_id list" where
  "mark_targets a r missing marked target =
    (if missing then
       (let target = set_extend target (map fst marked) in
        if resolution (across_part a) = Some True
        then set_extend target (map mu_table (mutations r)) else target)
     else target)"

definition put_marks ::
  "transaction_id \<Rightarrow> transaction_record \<Rightarrow> (table_id \<times> transaction_record) list \<Rightarrow> table_id list
    \<Rightarrow> write_batch \<Rightarrow> write_batch" where
  "put_marks t committed marked target b =
    (let key = (\<lambda>tb. across_unsettled_encode \<lparr>uk_table = tb, uk_transaction = t\<rparr>);
         b = foldl (\<lambda>b (tb, _). batch_delete (keyspace_of AcrossUnsettled) (key tb) b) b
               (filter (\<lambda>(tb, _). tb \<notin> set target) marked)
     in foldl (\<lambda>b tb. batch_put (keyspace_of AcrossUnsettled) (key tb) (record_encode committed) b)
          b target)"

definition mark_tables ::
  "get_fn \<Rightarrow> scan_fn \<Rightarrow> catalog_fn \<Rightarrow> reach option \<Rightarrow> across \<Rightarrow> log_record
    \<Rightarrow> transaction_record option \<Rightarrow> write_batch \<Rightarrow> settle_error + write_batch" where
  "mark_tables get scan catalog srv a r decided b =
    bindR (lift_read (marks_of scan (across_transaction a))) (\<lambda>marked.
      case known_committed a r decided marked of
        None \<Rightarrow> Inr b
      | Some committed \<Rightarrow>
          bindR (case across_part a of
                   Prepare _ \<Rightarrow> bindR (home_of catalog r) (\<lambda>h. Inr (Some h))
                 | Landed _ \<Rightarrow> bindR (home_of catalog r) (\<lambda>h. Inr (Some h))
                 | _ \<Rightarrow> Inr None) (\<lambda>landing.
          bindR (lift_read (part_missing get srv (across_transaction a) (participants committed) landing))
            (\<lambda>missing.
          bindR (lift_read (intent_tables scan a r)) (\<lambda>target.
            Inr (put_marks (across_transaction a) committed marked
              (mark_targets a r missing marked target) b)))))"

definition reconcile ::
  "get_fn \<Rightarrow> scan_fn \<Rightarrow> catalog_fn \<Rightarrow> reach option \<Rightarrow> across \<Rightarrow> log_record \<Rightarrow> write_batch
    \<Rightarrow> settle_error + write_batch" where
  "reconcile get scan catalog srv a r b =
    (case part_record (across_part a) of
       Some decided \<Rightarrow>
         if decision decided = Committed then mark_tables get scan catalog srv a r (Some decided) b
         else Inr b
     | None \<Rightarrow>
         if resolution (across_part a) = Some False then Inr b
         else if (case across_part a of Forget _ \<Rightarrow> True | _ \<Rightarrow> False) then Inr b
         else
           bindR (lift_read (get_transaction_record get (across_transaction a))) (\<lambda>standing.
             mark_tables get scan catalog srv a r
               (case standing of
                  Some s \<Rightarrow> if decision s = Committed then Some s else None
                | None \<Rightarrow> None) b))"

section \<open>Settling a record\<close>

definition settle_prevent ::
  "get_fn \<Rightarrow> transaction_id \<Rightarrow> reach \<Rightarrow> write_batch \<Rightarrow> sequence \<Rightarrow> (log_id \<times> sequence) option
    \<Rightarrow> settle_error + write_batch" where
  "settle_prevent get t rg b version written_at =
    (let part = \<lparr>pk_transaction = t, pk_range = rg\<rparr> in
     bindR (lift_read (lift_kv (get (keyspace_of AcrossPart) (across_part_encode part)))) (\<lambda>found.
       if found \<noteq> None then Inl (AcrossDecided ''prepared'')
       else
         bindR (lift_read (lift_kv (get (keyspace_of AcrossBarred) (across_barred_encode part)))) (\<lambda>held.
           if held \<noteq> None then Inr b
           else Inr (batch_put (keyspace_of AcrossBarred) (across_barred_encode part)
             (barred_encode \<lparr>barred_version = version, written = written_at\<rparr>) b))))"

definition settle ::
  "get_fn \<Rightarrow> scan_fn \<Rightarrow> catalog_fn \<Rightarrow> reach option \<Rightarrow> log_record \<Rightarrow> write_batch \<Rightarrow> sequence
    \<Rightarrow> (log_id \<times> sequence) option \<Rightarrow> settle_error + write_batch" where
  "settle get scan catalog srv r b version written_at =
    (case lr_across r of
       None \<Rightarrow> Inr b
     | Some a \<Rightarrow>
         (let t = across_transaction a; again = reconcile get scan catalog srv a r in
          case across_part a of
            Prepare _ \<Rightarrow>
              bindR (unbarred get catalog a r) (\<lambda>_.
              bindR (prepared get catalog a r b version ''prepare'') again)
          | Decide decided \<Rightarrow>
              if mutations r \<noteq> [] then Inl (AcrossMalformed ''decide'' ''a decision that carries writes'')
              else bindR (recorded get a decided b) again
          | Resolve committed \<Rightarrow> bindR (resolved get a r b committed ''resolve'') again
          | Begin begun \<Rightarrow>
              if decision begun \<noteq> Staging
              then Inl (AcrossMalformed ''begin'' ''a record begun other than staging'')
              else
                bindR (recorded get a begun b) (\<lambda>b.
                bindR (prepared get catalog a r b version ''begin'') again)
          | Conclude decided \<Rightarrow>
              if \<not> is_decided (decision decided)
              then Inl (AcrossMalformed ''conclude'' ''a record concluded undecided'')
              else
                bindR (recorded get a decided b) (\<lambda>b.
                bindR (resolved get a r b (decision decided = Committed) ''conclude'') again)
          | Forget _ \<Rightarrow>
              if mutations r \<noteq> [] then Inl (AcrossMalformed ''forget'' ''a forgetting that carries writes'')
              else
                bindR (lift_read (get_transaction_record get t)) (\<lambda>standing.
                  if (case standing of Some s \<Rightarrow> \<not> is_decided (decision s) | None \<Rightarrow> False)
                  then Inl (AcrossMalformed ''forget'' ''a record that has not decided'')
                  else Inr (batch_delete (keyspace_of TransactionRecord) (transaction_record_encode t) b))
          | Landed rg \<Rightarrow>
              if mutations r \<noteq> [] then Inl (AcrossMalformed ''landed'' ''a landed part that carries writes'')
              else bindR (landed get \<lparr>pk_transaction = t, pk_range = rg\<rparr> b version) again
          | Prevent rg \<Rightarrow>
              if mutations r \<noteq> [] then Inl (AcrossMalformed ''prevent'' ''a bar that carries writes'')
              else settle_prevent get t rg b version written_at))"

section \<open>What settling adds to a batch\<close>

definition adds :: "(write_op \<Rightarrow> bool) \<Rightarrow> write_batch \<Rightarrow> write_batch \<Rightarrow> bool" where
  "adds P b b' \<longleftrightarrow> preconditions b' = preconditions b \<and> (\<exists>os. ops b' = ops b @ os \<and> list_all P os)"

lemma adds_refl [simp]: "adds P b b"
  by (simp add: adds_def)

lemma adds_trans: "adds P b c \<Longrightarrow> adds P c d \<Longrightarrow> adds P b d"
  by (auto simp: adds_def)

lemma adds_mono: "adds P b c \<Longrightarrow> (\<And>op. P op \<Longrightarrow> Q op) \<Longrightarrow> adds Q b c"
  by (auto simp: adds_def list_all_iff)

lemma adds_put [simp]: "adds P b (batch_put ks k v b) \<longleftrightarrow> P (Put ks k v)"
  by (simp add: adds_def batch_put_def)

lemma adds_delete [simp]: "adds P b (batch_delete ks k b) \<longleftrightarrow> P (Delete ks k)"
  by (simp add: adds_def batch_delete_def)

lemma adds_foldl: "(\<And>b x. x \<in> set xs \<Longrightarrow> adds P b (f b x)) \<Longrightarrow> adds P b (foldl f b xs)"
  by (induction xs arbitrary: b) (auto intro: adds_trans)

text \<open>The operations a record of a transaction across leaders may add, and what each
relies on.\<close>

definition settle_writes :: "get_fn \<Rightarrow> across \<Rightarrow> sequence \<Rightarrow> write_op \<Rightarrow> bool" where
  "settle_writes get a v op \<longleftrightarrow>
    (\<exists>k. op = Delete DATA (record_key_encode k))
    \<or> (\<exists>i. op_keyspace op = META \<and> op_key op = intent_of_encode i)
    \<or> (\<exists>u. op_keyspace op = META \<and> op_key op = across_unsettled_encode u)
    \<or> (\<exists>pk. op = Put META (across_part_encode pk) (sequence_encode v)
         \<and> get META (across_part_encode pk) = Inr None)
    \<or> (\<exists>rg w. op = Put META (across_barred_encode \<lparr>pk_transaction = across_transaction a, pk_range = rg\<rparr>) w
         \<and> across_part a = Prevent rg
         \<and> get META (across_barred_encode \<lparr>pk_transaction = across_transaction a, pk_range = rg\<rparr>) = Inr None)
    \<or> (\<exists>d standing. op = Put META (transaction_record_encode (across_transaction a)) (record_encode d)
         \<and> part_record (across_part a) = Some d
         \<and> get_transaction_record get (across_transaction a) = Inr standing
         \<and> record_refused (map_option decision standing) (across_part a) (decision d) = None)
    \<or> (op = Delete META (transaction_record_encode (across_transaction a))
         \<and> (\<exists>c. across_part a = Forget c))"

lemma lift_read_Inr [simp]: "lift_read x = Inr y \<longleftrightarrow> x = Inr y"
  by (cases x) simp_all

lemma lift_kv_Inr [simp]: "lift_kv x = Inr y \<longleftrightarrow> x = Inr y"
  by (cases x) simp_all

lemma lift_enc_Inr [simp]: "lift_enc x = Inr y \<longleftrightarrow> x = Inr y"
  by (cases x) simp_all

lemma landed_adds:
  assumes "landed get pk b v = Inr b'"
  shows "adds (settle_writes get a v) b b'"
  using assms by (auto simp: landed_def bindR_eq_Inr settle_writes_def split: if_splits)

lemma recorded_adds:
  assumes "recorded get a d b = Inr b'" "part_record (across_part a) = Some d"
  shows "adds (settle_writes get a v) b b'"
  using assms by (auto simp: recorded_def bindR_eq_Inr settle_writes_def split: option.splits)

lemma prepared_adds:
  assumes "prepared get catalog a r b v part = Inr b'"
  shows "adds (settle_writes get a v) b b'"
proof -
  obtain h c where "landed get \<lparr>pk_transaction = across_transaction a, pk_range = h\<rparr> b v = Inr c"
    "b' = foldl (\<lambda>b m. batch_put (keyspace_of IntentOf)
           (intent_of_encode (intent_key_of (across_transaction a) m)) (sequence_encode v) b) c (mutations r)"
    using assms by (auto simp: prepared_def bindR_eq_Inr split: if_splits)
  moreover have "adds (settle_writes get a v) c (foldl (\<lambda>b m. batch_put (keyspace_of IntentOf)
           (intent_of_encode (intent_key_of (across_transaction a) m)) (sequence_encode v) b) c ms)" for ms
    by (rule adds_foldl) (auto simp: settle_writes_def)
  ultimately show ?thesis using adds_trans [OF landed_adds] by metis
qed

lemma resolved_loop_adds:
  assumes "resolved_loop get t b ms = Inr b'"
  shows "adds (settle_writes get a v) b b'"
  using assms
proof (induction ms arbitrary: b)
  case (Cons m ms)
  let ?i = "intent_of_encode (intent_key_of t m)"
  have step: "adds (settle_writes get a v) b (batch_delete META ?i (batch_delete DATA (record_key_encode k) b))"
    for k b
    by (rule adds_trans [of _ _ "batch_delete DATA (record_key_encode k) b"])
      (auto simp: settle_writes_def)
  have next_one: "adds (settle_writes get a v) b b'"
    if "resolved_loop get t (batch_delete META ?i (batch_delete DATA (record_key_encode k) b)) ms = Inr b'"
    for k
    using step Cons.IH [OF that] by (rule adds_trans)
  show ?case
    using Cons.prems Cons.IH next_one by (auto simp: bindR_eq_Inr Let_def split: option.splits)
qed simp

lemma put_marks_adds: "adds (settle_writes get a v) b (put_marks t committed marked target b)"
proof -
  let ?key = "\<lambda>tb. across_unsettled_encode \<lparr>uk_table = tb, uk_transaction = t\<rparr>"
  have 1: "adds (settle_writes get a v) b (foldl (\<lambda>b (tb, _). batch_delete META (?key tb) b) b xs)" for xs b
    by (rule adds_foldl) (auto simp: settle_writes_def split: prod.splits)
  have 2: "adds (settle_writes get a v) b
      (foldl (\<lambda>b tb. batch_put META (?key tb) (record_encode committed) b) b ys)" for ys b
    by (rule adds_foldl) (auto simp: settle_writes_def)
  show ?thesis
    unfolding put_marks_def Let_def keyspace_of.simps by (rule adds_trans [OF 1 2])
qed

lemma reconcile_adds:
  assumes "reconcile get scan catalog srv a r b = Inr b'"
  shows "adds (settle_writes get a v) b b'"
proof -
  have "adds (settle_writes get a v) b b'" if "mark_tables get scan catalog srv a r d b = Inr b'" for d
    using that put_marks_adds by (auto simp: mark_tables_def bindR_eq_Inr split: option.splits)
  then show ?thesis
    using assms by (auto simp: reconcile_def bindR_eq_Inr split: option.splits if_splits)
qed

lemma settle_prevent_adds:
  assumes "settle_prevent get (across_transaction a) rg b v w = Inr b'" "across_part a = Prevent rg"
  shows "adds (settle_writes get a v) b b'"
  using assms by (auto simp: settle_prevent_def bindR_eq_Inr settle_writes_def Let_def split: if_splits)

lemma settle_adds:
  assumes "settle get scan catalog srv r b v w = Inr b'"
  shows "case lr_across r of None \<Rightarrow> b' = b | Some a \<Rightarrow> adds (settle_writes get a v) b b'"
proof (cases "lr_across r")
  case (Some a)
  let ?P = "settle_writes get a v"
  have again: "adds ?P b b'" if "adds ?P b c" "reconcile get scan catalog srv a r c = Inr b'" for c
    using that(1) reconcile_adds [OF that(2)] by (rule adds_trans)
  have resolves: "adds ?P c d" if "resolved get a r c committed part = Inr d" for c d committed part
    using that resolved_loop_adds by (auto simp: resolved_def split: if_splits)
  have "adds ?P b b'"
  proof (cases "across_part a")
    case (Prepare x)
    then show ?thesis using assms Some again [OF prepared_adds]
      by (auto simp: settle_def Let_def bindR_eq_Inr)
  next
    case (Decide x)
    then show ?thesis using assms Some again [OF recorded_adds]
      by (auto simp: settle_def Let_def bindR_eq_Inr split: if_splits)
  next
    case (Resolve x)
    then show ?thesis using assms Some again [OF resolves]
      by (auto simp: settle_def Let_def bindR_eq_Inr)
  next
    case (Forget x)
    then show ?thesis using assms Some
      by (auto simp: settle_def Let_def bindR_eq_Inr settle_writes_def split: if_splits)
  next
    case (Landed x)
    then show ?thesis using assms Some again [OF landed_adds]
      by (auto simp: settle_def Let_def bindR_eq_Inr split: if_splits)
  next
    case (Begin x)
    then obtain c d where "recorded get a x b = Inr c" "prepared get catalog a r c v ''begin'' = Inr d"
      "reconcile get scan catalog srv a r d = Inr b'"
      using assms Some by (auto simp: settle_def Let_def bindR_eq_Inr split: if_splits)
    then show ?thesis
      using Begin again [OF adds_trans [OF recorded_adds prepared_adds]] by simp
  next
    case (Conclude x)
    then obtain c d where "recorded get a x b = Inr c"
      "resolved get a r c (decision x = Committed) ''conclude'' = Inr d"
      "reconcile get scan catalog srv a r d = Inr b'"
      using assms Some by (auto simp: settle_def Let_def bindR_eq_Inr split: if_splits)
    then show ?thesis
      using Conclude again [OF adds_trans [OF recorded_adds resolves]] by simp
  next
    case (Prevent x)
    then show ?thesis using assms Some settle_prevent_adds
      by (auto simp: settle_def Let_def split: if_splits)
  qed
  then show ?thesis using Some by simp
qed (use assms in \<open>simp add: settle_def\<close>)

section \<open>Applying a settled record\<close>

text \<open>What the rest of an apply writes names no record, marker or bar of a transaction
across leaders.\<close>

definition keeps_across :: "write_batch \<Rightarrow> bool" where
  "keeps_across b \<longleftrightarrow> (\<forall>op \<in> set (ops b). op_keyspace op = META \<longrightarrow>
    hd (op_key op) \<notin> {tag TransactionRecord, tag AcrossPart, tag AcrossBarred})"

definition record_part_wf :: "log_record \<Rightarrow> bool" where
  "record_part_wf r \<longleftrightarrow> (case lr_across r of Some a \<Rightarrow> across_wf a | None \<Rightarrow> True)"

definition settles ::
  "catalog_fn \<Rightarrow> reach option \<Rightarrow> memory_backend \<Rightarrow> log_record \<Rightarrow> memory_backend \<Rightarrow> bool" where
  "settles catalog srv s r t \<longleftrightarrow>
    (\<exists>b v w b' res. keeps_across b \<and> record_part_wf r
      \<and> settle (memory_get s) (memory_scan s) catalog srv r b v w = Inr b'
      \<and> memory_apply s b' = (t, res))"

lemma settles_ok: "memory_ok s \<Longrightarrow> settles catalog srv s r t \<Longrightarrow> memory_ok t"
  by (auto simp: settles_def dest: memory_apply_maps(1))

text \<open>A key of the three kinds is written only by the settling.\<close>

lemma settles_key:
  assumes s: "memory_ok s" and st: "settles catalog srv s r t"
    and k: "hd k \<in> {tag TransactionRecord, tag AcrossPart, tag AcrossBarred}"
  obtains (kept) "memory_maps t META k = memory_maps s META k"
  | (written) a op v where "lr_across r = Some a" "across_wf a" "settle_writes (memory_get s) a v op"
      "op_keyspace op = META" "op_key op = k"
      "memory_maps t META k = (case op of Put _ _ x \<Rightarrow> Some x | Delete _ _ \<Rightarrow> None)"
proof -
  obtain b v w b' res where b: "keeps_across b" "record_part_wf r"
    "settle (memory_get s) (memory_scan s) catalog srv r b v w = Inr b'" "memory_apply s b' = (t, res)"
    using st by (auto simp: settles_def)
  have base: "op \<in> set (ops b) \<Longrightarrow> op_keyspace op = META \<Longrightarrow> op_key op \<noteq> k" for op
    using b(1) k by (auto simp: keeps_across_def)
  obtain os where os: "ops b' = ops b @ os"
    "\<And>op. op \<in> set os \<Longrightarrow> \<exists>a. lr_across r = Some a \<and> settle_writes (memory_get s) a v op"
    using settle_adds [OF b(3)] by (cases "lr_across r") (auto simp: adds_def list_all_iff)
  note t = memory_apply_maps [OF s b(4)]
  consider "res \<noteq> Inr ()" | "res = Inr ()" "map_ops (ops b') (memory_maps s) META k = memory_maps s META k"
    | x where "res = Inr ()" "Put META k x \<in> set (ops b')" "map_ops (ops b') (memory_maps s) META k = Some x"
    | "res = Inr ()" "Delete META k \<in> set (ops b')" "map_ops (ops b') (memory_maps s) META k = None"
    using map_ops_value [of META k "ops b'" "memory_maps s"] by (cases "res = Inr ()") metis+
  then show thesis
  proof cases
    case (3 x)
    have "Put META k x \<in> set os" using 3(2) os(1) base [of "Put META k x"] by auto
    then show thesis using os(2) b(2) written 3 t(2) by (fastforce simp: record_part_wf_def)
  next
    case 4
    have "Delete META k \<in> set os" using 4(2) os(1) base [of "Delete META k"] by auto
    then show thesis using os(2) b(2) written 4 t(2) by (fastforce simp: record_part_wf_def)
  qed (use kept t(2) in auto)
qed

lemmas across_key_bytes = transaction_record_bytes intent_of_bytes across_part_bytes across_barred_bytes
  across_unsettled_bytes

lemma settle_writes_record:
  assumes "settle_writes get a v op" "op_keyspace op = META" "op_key op = transaction_record_encode t"
  shows "t = across_transaction a
    \<and> ((\<exists>d standing. op = Put META (transaction_record_encode t) (record_encode d)
          \<and> part_record (across_part a) = Some d \<and> get_transaction_record get t = Inr standing
          \<and> record_refused (map_option decision standing) (across_part a) (decision d) = None)
       \<or> op = Delete META (transaction_record_encode t) \<and> (\<exists>c. across_part a = Forget c))"
  using assms by (auto simp: settle_writes_def across_key_bytes)

lemma settle_writes_part:
  assumes "settle_writes get a v op" "op_keyspace op = META" "op_key op = across_part_encode pk"
  shows "get META (across_part_encode pk) = Inr None"
  using assms by (auto simp: settle_writes_def across_key_bytes)

lemma settle_writes_barred:
  assumes "settle_writes get a v op" "op_keyspace op = META" "op_key op = across_barred_encode pk"
  shows "get META (across_barred_encode pk) = Inr None"
  using assms by (auto simp: settle_writes_def across_key_bytes)

section \<open>Runs\<close>

definition forgets :: "transaction_id \<Rightarrow> log_record \<Rightarrow> bool" where
  "forgets t r \<longleftrightarrow> (\<exists>a c. lr_across r = Some a \<and> across_transaction a = t \<and> across_part a = Forget c)"

text \<open>The records of a run, applied one after the other, none of which forgets the
transaction.\<close>

inductive runs ::
  "catalog_fn \<Rightarrow> reach option \<Rightarrow> transaction_id \<Rightarrow> memory_backend \<Rightarrow> memory_backend \<Rightarrow> bool"
  for catalog srv tr where
  runs_none: "runs catalog srv tr s s"
| runs_next: "runs catalog srv tr s t \<Longrightarrow> settles catalog srv t r u \<Longrightarrow> \<not> forgets tr r \<Longrightarrow>
    runs catalog srv tr s u"

lemma get_record_stored:
  assumes "memory_ok s"
  shows "get_transaction_record (memory_get s) tr = Inr found \<longleftrightarrow>
    (case memory_maps s META (transaction_record_encode tr) of
       None \<Rightarrow> found = None
     | Some bs \<Rightarrow> \<exists>d. record_decode bs = Inr d \<and> found = Some d)"
  by (auto simp: get_transaction_record_def get_decoded_def memory_get_map [OF assms] bindR_eq_Inr
      split: option.splits)

lemma settles_record:
  assumes s: "memory_ok s" "settles catalog srv s r t" "\<not> forgets tr r"
    and d: "get_transaction_record (memory_get s) tr = Inr standing"
  shows "get_transaction_record (memory_get t) tr = Inr standing
    \<or> (\<exists>d part. get_transaction_record (memory_get t) tr = Inr (Some d)
        \<and> record_refused (map_option decision standing) part (decision d) = None
        \<and> part_record part = Some d)"
proof -
  let ?k = "transaction_record_encode tr"
  note t = settles_ok [OF s(1,2)]
  have hd: "hd ?k \<in> {tag TransactionRecord, tag AcrossPart, tag AcrossBarred}"
    by (simp add: transaction_record_bytes)
  from s(1,2) hd show ?thesis
  proof (cases rule: settles_key)
    case kept
    then show ?thesis using d by (simp add: get_record_stored [OF s(1)] get_record_stored [OF t])
  next
    case (written a op v)
    note w = settle_writes_record [OF written(3,4,5)]
    show ?thesis
    proof (cases "\<exists>c. across_part a = Forget c")
      case True
      then show ?thesis using w written(1) s(3) by (auto simp: forgets_def)
    next
      case False
      then obtain e where e: "op = Put META ?k (record_encode e)" "part_record (across_part a) = Some e"
        "record_refused (map_option decision standing) (across_part a) (decision e) = None"
        using w d by auto
      have "record_wf e" using written(2) e(2) by (simp add: across_wf_def)
      then have "record_decode (record_encode e) = Inr e" by (rule record_round_trip)
      then have "get_transaction_record (memory_get t) tr = Inr (Some e)"
        using written(6) e(1) by (simp add: get_record_stored [OF t])
      then show ?thesis using e by blast
    qed
  qed
qed

lemma refused_keeps_outcome:
  "record_refused (Some d) part new = None \<Longrightarrow> is_decided d \<Longrightarrow> new = d"
  by (cases d) (auto simp: record_refused_def split: if_splits)

lemma runs_ok: "runs catalog srv tr s t \<Longrightarrow> memory_ok s \<Longrightarrow> memory_ok t"
  by (induction rule: runs.induct) (auto intro: settles_ok)

lemma runs_keep_outcome:
  assumes "runs catalog srv tr s t" "memory_ok s"
    "get_transaction_record (memory_get s) tr = Inr (Some d)" "is_decided (decision d)"
  shows "\<exists>e. get_transaction_record (memory_get t) tr = Inr (Some e) \<and> decision e = decision d"
  using assms
proof (induction rule: runs.induct)
  case (runs_next s t r u)
  then obtain e where e: "get_transaction_record (memory_get t) tr = Inr (Some e)" "decision e = decision d"
    by blast
  have "memory_ok t" using runs_ok runs_next by blast
  from settles_record [OF this runs_next.hyps(2,3) e(1)]
  show ?case
    using e refused_keeps_outcome [of "decision e"] runs_next.prems(3) by (metis option.map(2))
qed blast

text \<open>A part that landed here stays landed where it did, and a bar stays.\<close>

lemma settles_keep_part:
  assumes "memory_ok s" "settles catalog srv s r t" "memory_maps s META (across_part_encode pk) = Some x"
  shows "memory_maps t META (across_part_encode pk) = Some x"
proof -
  have "hd (across_part_encode pk) \<in> {tag TransactionRecord, tag AcrossPart, tag AcrossBarred}"
    by (simp add: across_part_bytes)
  with assms(1,2) show ?thesis
  proof (cases rule: settles_key)
    case (written a op v)
    then show ?thesis
      using settle_writes_part [OF written(3,4,5)] assms by (simp add: memory_get_map)
  qed (simp add: assms(3))
qed

lemma settles_keep_bar:
  assumes "memory_ok s" "settles catalog srv s r t" "memory_maps s META (across_barred_encode pk) = Some x"
  shows "memory_maps t META (across_barred_encode pk) = Some x"
proof -
  have "hd (across_barred_encode pk) \<in> {tag TransactionRecord, tag AcrossPart, tag AcrossBarred}"
    by (simp add: across_barred_bytes)
  with assms(1,2) show ?thesis
  proof (cases rule: settles_key)
    case (written a op v)
    then show ?thesis
      using settle_writes_barred [OF written(3,4,5)] assms by (simp add: memory_get_map)
  qed (simp add: assms(3))
qed

lemma runs_keep_part:
  assumes "runs catalog srv tr s t" "memory_ok s" "memory_maps s META (across_part_encode pk) = Some x"
  shows "memory_maps t META (across_part_encode pk) = Some x"
  using assms by (induction rule: runs.induct) (auto intro: settles_keep_part dest: runs_ok)

lemma runs_keep_bar:
  assumes "runs catalog srv tr s t" "memory_ok s" "memory_maps s META (across_barred_encode pk) = Some x"
  shows "memory_maps t META (across_barred_encode pk) = Some x"
  using assms by (induction rule: runs.induct) (auto intro: settles_keep_bar dest: runs_ok)

lemma barred_prepare_refused:
  assumes "memory_ok s" "memory_maps s META (across_barred_encode \<lparr>pk_transaction = tr, pk_range = h\<rparr>) = Some x"
    and "lr_across r = Some \<lparr>across_transaction = tr, across_part = Prepare c\<rparr>" "home_of catalog r = Inr h"
  shows "settle (memory_get s) scan catalog srv r b v w = Inl (AcrossDecided ''barred'')"
  using assms by (simp add: settle_def unbarred_def memory_get_map)

lemma landed_bar_refused:
  assumes "memory_ok s" "memory_maps s META (across_part_encode \<lparr>pk_transaction = tr, pk_range = h\<rparr>) = Some x"
    and "lr_across r = Some \<lparr>across_transaction = tr, across_part = Prevent h\<rparr>" "mutations r = []"
  shows "settle (memory_get s) scan catalog srv r b v w = Inl (AcrossDecided ''prepared'')"
  using assms by (simp add: settle_def settle_prevent_def memory_get_map)

lemma undecided_not_committed:
  assumes "memory_ok s" "memory_maps s META (transaction_record_encode tr) = None"
    and "lr_across r = Some \<lparr>across_transaction = tr, across_part = part\<rparr>" "part_record part = Some d"
    and "decision d = Committed"
  shows "\<exists>e. settle (memory_get s) scan catalog srv r b v w = Inl e"
proof -
  have "get_transaction_record (memory_get s) tr = Inr None"
    using assms(1,2) by (simp add: get_record_stored)
  then have "recorded (memory_get s) \<lparr>across_transaction = tr, across_part = part\<rparr> d b
      = Inl (AcrossDecided ''absent'')"
    using assms(5) by (simp add: recorded_def record_refused_def)
  then show ?thesis using assms(3-5) by (cases part) (auto simp: settle_def Let_def)
qed

section \<open>The home of a record covers it\<close>

lemma home_loop_covers:
  assumes "home_loop catalog rides h ms = Inr h'"
  shows "(\<forall>so_far. h = Some so_far \<longrightarrow> (\<exists>g. h' = Some g \<and> contains g so_far))
    \<and> (\<forall>m \<in> set ms. \<not> (rides \<and> counted_sequence m) \<longrightarrow>
        (\<exists>c g. carried_to catalog m = Inr c \<and> h' = Some g \<and> contains g (own_reach c)))"
  using assms
proof (induction ms arbitrary: h)
  case (Cons m ms)
  show ?case
  proof (cases "rides \<and> counted_sequence m")
    case True
    then show ?thesis using Cons by auto
  next
    case False
    then obtain c where c: "carried_to catalog m = Inr c"
      "home_loop catalog rides (Some (case h of Some so_far \<Rightarrow> join so_far (own_reach c) | None \<Rightarrow> own_reach c)) ms
        = Inr h'"
      using Cons.prems False by (auto simp: Let_def bindR_eq_Inr)
    note ih = Cons.IH [OF c(2)]
    obtain g where g: "h' = Some g"
      "contains g (case h of Some so_far \<Rightarrow> join so_far (own_reach c) | None \<Rightarrow> own_reach c)"
      using ih by blast
    have "contains g (own_reach c)" "\<And>so_far. h = Some so_far \<Longrightarrow> contains g so_far"
      using g(2) join_contains contains_trans by (auto split: option.splits; blast)+
    then show ?thesis using ih c(1) g(1) by auto
  qed
qed (simp add: contains_refl)

section \<open>Properties\<close>

text \<open>C18: the outcome of a transaction across leaders is final: once its record here is
committed or aborted, no run of records that does not forget it, in any order, of
this transaction or others, from its coordinator or from a lapse that races it,
leaves it with another outcome.\<close>

theorem outcome_is_final:
  assumes "memory_ok s" "get_transaction_record (memory_get s) tr = Inr (Some d)"
    and "is_decided (decision d)" "runs catalog srv tr s t"
  shows "\<exists>e. get_transaction_record (memory_get t) tr = Inr (Some e) \<and> decision e = decision d"
  using runs_keep_outcome [OF assms(4,1-3)] .

lemma plain_run:
  assumes "memory_ok s"
  shows "\<exists>t. runs catalog srv tr s t \<and> memory_apply s batch_new = (t, Inr ())"
proof -
  obtain t where t: "memory_apply s batch_new = (t, Inr ())"
    using memory_apply_cases [OF assms, of batch_new] by (auto simp: batch_new_def)
  have "settles catalog srv s (log_record_new []) t"
    unfolding settles_def
    by (rule exI [of _ batch_new])
      (use t in \<open>auto simp: keeps_across_def record_part_wf_def settle_def batch_new_def log_record_new_def
        log_record_at_def\<close>)
  moreover have "\<not> forgets tr (log_record_new [])"
    by (simp add: forgets_def log_record_new_def log_record_at_def)
  ultimately show ?thesis using t runs_next [OF runs_none] by blast
qed

lemma one_key_store:
  obtains s where "memory_apply memory_new (batch_put META k v batch_new) = (s, Inr ())" "memory_ok s"
    "memory_maps s META k = Some v"
proof -
  obtain s where s: "memory_apply memory_new (batch_put META k v batch_new) = (s, Inr ())"
    using memory_apply_cases [OF memory_ok_new, of "batch_put META k v batch_new"]
    by (auto simp: batch_put_def batch_new_def)
  have "memory_maps s META k = Some v" "memory_ok s"
    using memory_apply_maps [OF memory_ok_new s] by (simp_all add: batch_put_def batch_new_def)
  then show thesis using that s by blast
qed

theorem outcome_is_final_witness:
  "\<exists>s t e. memory_apply memory_new (batch_put META (transaction_record_encode (replicate 16 1))
        (record_encode \<lparr>decision = Aborted, deadline = 5, participants = []\<rparr>) batch_new) = (s, Inr ())
    \<and> memory_apply s batch_new = (t, Inr ())
    \<and> get_transaction_record (memory_get t) (replicate 16 1) = Inr (Some e) \<and> decision e = Aborted"
proof -
  let ?d = "\<lparr>decision = Aborted, deadline = 5, participants = []\<rparr>" and ?t = "replicate 16 1"
  obtain s where s: "memory_apply memory_new (batch_put META (transaction_record_encode ?t)
      (record_encode ?d) batch_new) = (s, Inr ())" "memory_ok s"
      "memory_maps s META (transaction_record_encode ?t) = Some (record_encode ?d)"
    by (rule one_key_store)
  have "record_decode (record_encode ?d) = Inr ?d"
    by (intro record_round_trip) (simp add: record_wf_def participants_wf_def)
  then have d: "get_transaction_record (memory_get s) ?t = Inr (Some ?d)"
    by (simp add: get_record_stored [OF s(2)] s(3))
  obtain t where t: "runs (\<lambda>_. Inr StoreOnly) None ?t s t" "memory_apply s batch_new = (t, Inr ())"
    using plain_run [OF s(2)] by blast
  have "\<exists>e. get_transaction_record (memory_get t) ?t = Inr (Some e) \<and> decision e = Aborted"
    using outcome_is_final [OF s(2) d _ t(1)] by simp
  then show ?thesis using s(1) t(2) by blast
qed

text \<open>C19: a prepare and a bar of the same part of a transaction exclude each other, in
either order: once a range of the transaction is barred on a node, every later prepare
record of its part is refused there, and once its part has landed every later bar of it
is refused; what the node recorded about either, where the part first landed included,
is what it still records, whatever is applied in between.  A record that begins a
transaction at its coordinator and one that restores a landed part mark the part
without asking for a bar; this says nothing of those two.\<close>

theorem prepare_and_bar_exclude:
  assumes s: "memory_ok s" "runs catalog srv any_tr s t"
    and p: "lr_across p = Some \<lparr>across_transaction = tr, across_part = Prepare c\<rparr>" "home_of catalog p = Inr h"
    and q: "lr_across q = Some \<lparr>across_transaction = tr, across_part = Prevent h\<rparr>" "mutations q = []"
  shows "(\<forall>x. memory_maps s META (across_barred_encode \<lparr>pk_transaction = tr, pk_range = h\<rparr>) = Some x \<longrightarrow>
      memory_maps t META (across_barred_encode \<lparr>pk_transaction = tr, pk_range = h\<rparr>) = Some x
      \<and> settle (memory_get t) (memory_scan t) catalog srv p b v w = Inl (AcrossDecided ''barred''))
    \<and> (\<forall>x. memory_maps s META (across_part_encode \<lparr>pk_transaction = tr, pk_range = h\<rparr>) = Some x \<longrightarrow>
      memory_maps t META (across_part_encode \<lparr>pk_transaction = tr, pk_range = h\<rparr>) = Some x
      \<and> settle (memory_get t) (memory_scan t) catalog srv q b v w = Inl (AcrossDecided ''prepared''))"
  using runs_keep_bar [OF s(2,1)] runs_keep_part [OF s(2,1)] runs_ok [OF s(2,1)]
    barred_prepare_refused [OF _ _ p] landed_bar_refused [OF _ _ q] by blast

theorem prepare_and_bar_exclude_witness:
  "\<exists>s t. memory_apply memory_new (batch_put META
        (across_barred_encode \<lparr>pk_transaction = replicate 16 1, pk_range = Store\<rparr>) [7] batch_new) = (s, Inr ())
    \<and> memory_apply s batch_new = (t, Inr ())
    \<and> settle (memory_get t) (memory_scan t) (\<lambda>_. Inr StoreOnly) None
        (log_record_across \<lparr>across_transaction = replicate 16 1, across_part = Prepare Store\<rparr> (log_record_new []))
        batch_new 3 None = Inl (AcrossDecided ''barred'')"
proof -
  let ?t = "replicate 16 1 :: bytes" and ?cat = "\<lambda>_ :: mutation. Inr StoreOnly :: settle_error + carried"
  let ?p = "log_record_across \<lparr>across_transaction = ?t, across_part = Prepare Store\<rparr> (log_record_new [])"
  let ?q = "log_record_across \<lparr>across_transaction = ?t, across_part = Prevent Store\<rparr> (log_record_new [])"
  obtain s where s: "memory_apply memory_new (batch_put META
      (across_barred_encode \<lparr>pk_transaction = ?t, pk_range = Store\<rparr>) [7] batch_new) = (s, Inr ())" "memory_ok s"
      "memory_maps s META (across_barred_encode \<lparr>pk_transaction = ?t, pk_range = Store\<rparr>) = Some [7]"
    by (rule one_key_store)
  obtain t where t: "runs ?cat None ?t s t" "memory_apply s batch_new = (t, Inr ())"
    using plain_run [OF s(2)] by blast
  have p: "lr_across ?p = Some \<lparr>across_transaction = ?t, across_part = Prepare Store\<rparr>"
    "home_of ?cat ?p = Inr Store"
    and q: "lr_across ?q = Some \<lparr>across_transaction = ?t, across_part = Prevent Store\<rparr>" "mutations ?q = []"
    by (simp_all add: log_record_across_def log_record_new_def log_record_at_def home_of_def)
  show ?thesis using prepare_and_bar_exclude [OF s(2) t(1) p q] s(1,3) t(2) by blast
qed

end
