(* ===== verification/Ordered_Map.thy ===== *)
theory Ordered_Map
  imports Prelude
begin

text \<open>The ordered map of the standard library (\<^verbatim>\<open>BTreeMap\<close>) as the list of its
entries in the order of their keys, which is what its iteration gives, for the
parts of the program that keep one in memory: the registry of live snapshots and
the passes that group what they scanned.  A lookup is the library's
\<^const>\<open>map_of\<close>.\<close>

type_synonym ('k, 'v) omap = "('k \<times> 'v) list"

definition omap_ok :: "('k::linorder, 'v) omap \<Rightarrow> bool" where
  "omap_ok m \<longleftrightarrow> sorted_wrt (<) (map fst m)"

fun omap_insert :: "'k::linorder \<Rightarrow> 'v \<Rightarrow> ('k, 'v) omap \<Rightarrow> ('k, 'v) omap" where
  "omap_insert k v [] = [(k, v)]"
| "omap_insert k v ((k', v') # m) =
    (if k < k' then (k, v) # (k', v') # m
     else if k = k' then (k, v) # m
     else (k', v') # omap_insert k v m)"

definition omap_remove :: "'k \<Rightarrow> ('k, 'v) omap \<Rightarrow> ('k, 'v) omap" where
  "omap_remove k m = filter (\<lambda>e. fst e \<noteq> k) m"

definition first_key :: "('k, 'v) omap \<Rightarrow> 'k option" where
  "first_key m = (case m of [] \<Rightarrow> None | (k, _) # _ \<Rightarrow> Some k)"

lemma omap_ok_Nil [simp]: "omap_ok []"
  by (simp add: omap_ok_def)

lemma omap_ok_Cons [simp]:
  "omap_ok ((k, v) # m) \<longleftrightarrow> (\<forall>k' \<in> fst ` set m. k < k') \<and> omap_ok m"
  by (simp add: omap_ok_def)

lemma map_of_omap_insert [simp]: "omap_ok m \<Longrightarrow> map_of (omap_insert k v m) = (map_of m)(k \<mapsto> v)"
proof (induction k v m rule: omap_insert.induct)
  case (2 k v k' v' m)
  then show ?case
    by (auto simp: fun_eq_iff)
qed simp

lemma keys_omap_insert [simp]: "fst ` set (omap_insert k v m) = insert k (fst ` set m)"
  by (induction k v m rule: omap_insert.induct) auto

lemma omap_ok_insert [simp]: "omap_ok m \<Longrightarrow> omap_ok (omap_insert k v m)"
  by (induction k v m rule: omap_insert.induct) auto

lemma map_of_omap_remove [simp]: "map_of (omap_remove k m) = (map_of m)(k := None)"
  by (induction m) (auto simp: omap_remove_def)

lemma omap_ok_remove [simp]: "omap_ok m \<Longrightarrow> omap_ok (omap_remove k m)"
  unfolding omap_ok_def omap_remove_def by (induction m) auto

lemma omap_ok_distinct: "omap_ok m \<Longrightarrow> distinct (map fst m)"
  by (simp add: omap_ok_def strict_sorted_iff)

lemma first_key_least:
  assumes "omap_ok m"
  shows "first_key m = (if dom (map_of m) = {} then None else Some (Min (dom (map_of m))))"
proof (cases m)
  case (Cons e es)
  obtain k v where e: "e = (k, v)" by (cases e)
  have "Min (dom (map_of m)) = k"
    using assms Cons e by (intro Min_eqI) (auto simp: dom_map_of_conv_image_fst less_imp_le)
  then show ?thesis using Cons e by (auto simp: first_key_def)
qed (simp add: first_key_def)

end
