(* ===== verification/Lease.thy ===== *)
theory Lease
  imports Prelude
begin

text \<open>The lease a leader writes under (lease.rs of tessari-storage), the leases it holds on
the lines of placed ranges (lines.rs), and the periods an operator states for a
failover (failover.rs).  An instant of the monotonic clock is a number of
nanoseconds, a duration a natural number of them, each within the bounds of the
standard library's types: adding past the last instant gives \<^term>\<open>None\<close>, and
the saturating operations stop at the bounds.\<close>

section \<open>Instants and durations\<close>

type_synonym instant = int
type_synonym duration = nat

definition DURATION_MAX :: duration where
  "DURATION_MAX = 2 ^ 64 * 10 ^ 9 - 1"

definition INSTANT_END :: instant where
  "INSTANT_END = 2 ^ 63 * 10 ^ 9"

definition from_millis :: "nat \<Rightarrow> duration" where
  "from_millis n = n * 10 ^ 6"

definition from_secs :: "nat \<Rightarrow> duration" where
  "from_secs n = n * 10 ^ 9"

definition as_millis :: "duration \<Rightarrow> nat" where
  "as_millis d = d div 10 ^ 6"

definition checked_add :: "instant \<Rightarrow> duration \<Rightarrow> instant option" where
  "checked_add i d = (if i + int d < INSTANT_END then Some (i + int d) else None)"

definition checked_sub :: "instant \<Rightarrow> duration \<Rightarrow> instant option" where
  "checked_sub i d = (if - INSTANT_END \<le> i - int d then Some (i - int d) else None)"

definition saturating_duration_since :: "instant \<Rightarrow> instant \<Rightarrow> duration" where
  "saturating_duration_since i earlier = nat (i - earlier)"

definition saturating_add_dur :: "duration \<Rightarrow> duration \<Rightarrow> duration" where
  "saturating_add_dur a b = min DURATION_MAX (a + b)"

definition saturating_mul_dur :: "duration \<Rightarrow> nat \<Rightarrow> duration" where
  "saturating_mul_dur a n = min DURATION_MAX (a * n)"

definition or_else :: "'a option \<Rightarrow> 'a \<Rightarrow> 'a" where
  "or_else x y = (case x of Some v \<Rightarrow> v | None \<Rightarrow> y)"

lemma or_else_simps [simp]: "or_else (Some x) y = x" "or_else None y = y"
  by (simp_all add: or_else_def)

section \<open>The lease\<close>

definition GUARD :: duration where
  "GUARD = from_millis 150"

definition TTL :: duration where
  "TTL = from_millis 800"

record lease =
  fence :: instant
  expiry :: instant

definition taken_at :: "instant \<Rightarrow> duration \<Rightarrow> lease" where
  "taken_at at ttl =
    (let expires_at = or_else (checked_add at ttl) at;
         fence_at = max (or_else (checked_sub expires_at GUARD) at) at
     in \<lparr>fence = fence_at, expiry = expires_at\<rparr>)"

definition fenced :: "lease \<Rightarrow> instant \<Rightarrow> bool" where
  "fenced l now \<longleftrightarrow> fence l \<le> now"

definition spent_for :: "lease \<Rightarrow> instant \<Rightarrow> duration" where
  "spent_for l now = saturating_duration_since now (fence l)"

definition lease_left :: "lease \<Rightarrow> instant \<Rightarrow> duration" where
  "lease_left l now = saturating_duration_since (fence l) now"

text \<open>The lease of the process, behind a lock that a panic elsewhere may have poisoned.\<close>

record held =
  held_lease :: "lease option"
  lease_poisoned :: bool

definition held_default :: held where
  "held_default = \<lparr>held_lease = None, lease_poisoned = False\<rparr>"

definition held_hold :: "lease \<Rightarrow> held \<Rightarrow> held" where
  "held_hold l h = (if lease_poisoned h then h else h\<lparr>held_lease := Some l\<rparr>)"

definition take_lease :: "instant \<Rightarrow> duration \<Rightarrow> held \<Rightarrow> held" where
  "take_lease now ttl h = held_hold (taken_at now ttl) h"

definition held_spent :: "held \<Rightarrow> instant \<Rightarrow> duration option" where
  "held_spent h now =
    (if lease_poisoned h then Some 0
     else
       (case held_lease h of
          None \<Rightarrow> None
        | Some l \<Rightarrow> if fenced l now then Some (spent_for l now) else None))"

definition lease_remaining :: "held \<Rightarrow> instant \<Rightarrow> duration option" where
  "lease_remaining h now =
    (if lease_poisoned h then Some 0
     else
       (case held_lease h of
          None \<Rightarrow> None
        | Some l \<Rightarrow> Some (lease_left l now)))"

section \<open>The policy of a failover\<close>

definition ROUND_MILLIS :: nat where "ROUND_MILLIS = 200"
definition CAMPAIGN_MILLIS :: nat where "CAMPAIGN_MILLIS = ROUND_MILLIS div 2"
definition AWARENESS_SECONDS :: nat where "AWARENESS_SECONDS = 1"
definition COLLECTION_SECONDS :: nat where "COLLECTION_SECONDS = AWARENESS_SECONDS"

definition ROUNDS_OF_MARGIN :: nat where "ROUNDS_OF_MARGIN = 2"
definition SHORTEST_PERIOD :: duration where "SHORTEST_PERIOD = from_millis 50"

record failover =
  awareness :: duration
  collection :: duration
  round_time :: duration
  campaign :: duration
  lease_time :: duration

text \<open>The refusals of a stated policy, with the values the error carries.\<close>

datatype failover_error =
    FailoverPeriodTooShort string duration
  | FailoverCampaignOutpaced duration duration duration
  | FailoverLeaseTooShort duration duration duration duration
  | FailoverCollectionAboveFloor duration duration duration

definition failover_DEFAULT :: failover where
  "failover_DEFAULT =
    \<lparr>awareness = from_secs AWARENESS_SECONDS, collection = from_secs COLLECTION_SECONDS,
     round_time = from_millis ROUND_MILLIS, campaign = from_millis CAMPAIGN_MILLIS,
     lease_time = TTL\<rparr>"

definition staleness_floor :: "failover \<Rightarrow> duration" where
  "staleness_floor p = saturating_mul_dur (awareness p) ROUNDS_OF_MARGIN"

fun long_enough :: "(string \<times> duration) list \<Rightarrow> failover_error + unit" where
  "long_enough [] = Inr ()"
| "long_enough ((field, stated) # rest) =
    (if stated < SHORTEST_PERIOD then Inl (FailoverPeriodTooShort field stated)
     else long_enough rest)"

definition holds_together :: "failover \<Rightarrow> failover_error + unit" where
  "holds_together p =
    bindR (long_enough [(''awareness'', awareness p), (''collection'', collection p),
        (''round'', round_time p), (''campaign'', campaign p), (''lease'', lease_time p)]) (\<lambda>_.
     let margin = saturating_mul_dur (round_time p) ROUNDS_OF_MARGIN in
     if campaign p > margin
     then Inl (FailoverCampaignOutpaced (campaign p) (round_time p) margin)
     else
       let floor_at = saturating_add_dur GUARD margin in
       if lease_time p \<le> floor_at
       then Inl (FailoverLeaseTooShort (lease_time p) GUARD (round_time p) floor_at)
       else
         let staleness = staleness_floor p in
         if collection p \<ge> staleness
         then Inl (FailoverCollectionAboveFloor (collection p) (awareness p) staleness)
         else Inr ())"

definition failover_stated ::
  "duration \<Rightarrow> duration \<Rightarrow> duration \<Rightarrow> duration \<Rightarrow> duration \<Rightarrow> failover_error + failover" where
  "failover_stated aw co ro ca le =
    (let stated = \<lparr>awareness = aw, collection = co, round_time = ro, campaign = ca,
                   lease_time = le\<rparr> in
     bindR (holds_together stated) (\<lambda>_. Inr stated))"

section \<open>Facts about leases\<close>

text \<open>A lease is taken before its fence and fenced before it expires; both instants are
what they are meant to be whenever the expiry can be represented.\<close>

lemma taken_at_bounds:
  assumes "- INSTANT_END \<le> at"
  shows "at \<le> fence (taken_at at ttl)" "fence (taken_at at ttl) \<le> expiry (taken_at at ttl)"
    "expiry (taken_at at ttl) \<le> at + int ttl"
  using assms by (auto simp: taken_at_def Let_def or_else_def checked_add_def checked_sub_def
      split: option.splits if_splits)

lemma taken_at_exact:
  assumes "- INSTANT_END \<le> at" "at + int ttl < INSTANT_END"
  shows "expiry (taken_at at ttl) = at + int ttl"
    "fence (taken_at at ttl) = max at (at + int ttl - int GUARD)"
  using assms by (auto simp: taken_at_def Let_def checked_add_def checked_sub_def or_else_def)

lemma taken_at_fence_le:
  "fence (taken_at at ttl) \<le> max at (at + int ttl - int GUARD)"
  by (auto simp: taken_at_def Let_def or_else_def checked_add_def checked_sub_def)

lemma fenced_left: "fenced l now \<longleftrightarrow> lease_left l now = 0"
  by (auto simp: fenced_def lease_left_def saturating_duration_since_def)

lemma fenced_mono: "fenced l now \<Longrightarrow> now \<le> later \<Longrightarrow> fenced l later"
  by (simp add: fenced_def)

lemma long_enough_iff: "long_enough xs = Inr () \<longleftrightarrow> (\<forall>(f, d) \<in> set xs. SHORTEST_PERIOD \<le> d)"
  by (induction xs rule: long_enough.induct) auto

lemma long_enough_Inr_unit: "long_enough xs = Inr u \<longleftrightarrow> long_enough xs = Inr ()"
  by simp

section \<open>Properties\<close>

text \<open>C37: the fence of a lease closes a whole guard before the lease expires, at once when
the lease is no longer than the guard, and the two reports of a held lease agree:
no time remains exactly when the fence has closed.\<close>

theorem lease_window:
  assumes "- INSTANT_END \<le> at" "at + int ttl < INSTANT_END"
  shows "(fenced (taken_at at ttl) now \<longleftrightarrow> at \<le> now \<and> expiry (taken_at at ttl) \<le> now + int GUARD)
    \<and> expiry (taken_at at ttl) = at + int ttl
    \<and> (lease_remaining h now = Some 0 \<longleftrightarrow> held_spent h now \<noteq> None)"
  using taken_at_exact [OF assms] fenced_left
  by (auto simp: fenced_def lease_remaining_def held_spent_def split: option.splits if_splits)

theorem lease_window_witness:
  "fenced (taken_at 0 TTL) (650 * 10 ^ 6) \<and> \<not> fenced (taken_at 0 TTL) (650 * 10 ^ 6 - 1)"
  using lease_window [of 0 TTL "650 * 10 ^ 6"] lease_window [of 0 TTL "650 * 10 ^ 6 - 1"]
  by (simp add: INSTANT_END_def TTL_def GUARD_def from_millis_def)

text \<open>A stated failover policy is accepted exactly when its periods hold together: none
under fifty milliseconds, a campaign no slower than two rounds, a lease longer than
the guard and two rounds, and a collection faster than two awareness intervals; no
saturation lets a policy through.\<close>

theorem failover_accepted_iff:
  assumes "aw \<le> DURATION_MAX" "co \<le> DURATION_MAX" "ro \<le> DURATION_MAX" "ca \<le> DURATION_MAX"
    "le \<le> DURATION_MAX"
  shows "failover_stated aw co ro ca le = Inr p \<longleftrightarrow>
    p = \<lparr>awareness = aw, collection = co, round_time = ro, campaign = ca, lease_time = le\<rparr>
    \<and> (\<forall>d \<in> {aw, co, ro, ca, le}. SHORTEST_PERIOD \<le> d)
    \<and> ca \<le> 2 * ro \<and> GUARD + 2 * ro < le \<and> co < min DURATION_MAX (2 * aw)"
proof -
  have "min DURATION_MAX (GUARD + min DURATION_MAX (ro * 2)) < le \<longleftrightarrow> GUARD + 2 * ro < le"
    using assms(5) by (auto simp: min_def)
  moreover have "GUARD + 2 * ro < le \<Longrightarrow> ca \<le> min DURATION_MAX (ro * 2) \<longleftrightarrow> ca \<le> 2 * ro"
    using assms(5) by (auto simp: min_def)
  ultimately show ?thesis
    unfolding failover_stated_def holds_together_def staleness_floor_def saturating_mul_dur_def
      saturating_add_dur_def ROUNDS_OF_MARGIN_def Let_def
    by (auto simp: bindR_eq_Inr not_less not_le mult.commute split: if_splits)
qed

end
