(* ===== verification/Snapshots.thy ===== *)
theory Snapshots
  imports Ordered_Map Lease Kv_Store Store_Keys "HOL-Library.Multiset"
begin

text \<open>The snapshots being read from (snapshots.rs of tessari-storage): a registry split
into shards, each an ordered map from a snapshot to how many readers hold it and
since when, and the retention floor the store derives from it
(store/parts.rs).  A thread registers in the shard it was given when it first
registered; the shard is handed back with the release.  The registry implements
a multiset of live readers, and the oldest snapshot it answers is the least of
them.  A lock is read past its poison, so the locks are not part of the state:
every operation is one step on one shard.\<close>

section \<open>The registry\<close>

definition SHARDS :: nat where "SHARDS = 16"

record held_snapshot =
  holders :: nat
  since :: instant

type_synonym shard = "(sequence, held_snapshot) omap"
type_synonym slot = nat

record registry =
  shards :: "shard list"

definition registry_default :: registry where
  "registry_default = \<lparr>shards = replicate SHARDS []\<rparr>"

text \<open>The shards given to threads: a counter of the process, which wraps, and the shard
each thread keeps once it has one.\<close>

record homes =
  next_shard :: u64
  home_of_thread :: "nat \<rightharpoonup> slot"

definition home_shard :: "nat \<Rightarrow> homes \<Rightarrow> homes \<times> slot" where
  "home_shard thread hs =
    (case home_of_thread hs thread of
       Some at \<Rightarrow> (hs, at)
     | None \<Rightarrow>
         (let assigned = unat (next_shard hs) mod SHARDS in
          (hs\<lparr>next_shard := next_shard hs + 1,
              home_of_thread := (home_of_thread hs)(thread \<mapsto> assigned)\<rparr>, assigned)))"

text \<open>A slot past the last shard stands for the first one.\<close>

definition slot_index :: "registry \<Rightarrow> slot \<Rightarrow> nat" where
  "slot_index reg at = (if at < length (shards reg) then at else 0)"

definition shard_at :: "registry \<Rightarrow> slot \<Rightarrow> shard" where
  "shard_at reg at = shards reg ! slot_index reg at"

definition put_shard :: "registry \<Rightarrow> slot \<Rightarrow> shard \<Rightarrow> registry" where
  "put_shard reg at m = reg\<lparr>shards := (shards reg)[slot_index reg at := m]\<rparr>"

definition register_in :: "slot \<Rightarrow> instant \<Rightarrow> sequence \<Rightarrow> registry \<Rightarrow> registry" where
  "register_in sl now at reg =
    (let m = shard_at reg sl;
         entry = (case map_of m at of
           Some h \<Rightarrow> h\<lparr>holders := saturating_add (holders h) 1\<rparr>
         | None \<Rightarrow> \<lparr>holders = 1, since = now\<rparr>)
     in put_shard reg sl (omap_insert at entry m))"

definition registry_register ::
  "nat \<Rightarrow> instant \<Rightarrow> sequence \<Rightarrow> homes \<Rightarrow> registry \<Rightarrow> homes \<times> registry \<times> slot" where
  "registry_register thread now at hs reg =
    (let (hs, sl) = home_shard thread hs in (hs, register_in sl now at reg, sl))"

definition registry_release :: "sequence \<Rightarrow> slot \<Rightarrow> registry \<Rightarrow> registry" where
  "registry_release at sl reg =
    (let m = shard_at reg sl in
     case map_of m at of
       None \<Rightarrow> reg
     | Some h \<Rightarrow>
         (let h = h\<lparr>holders := holders h - 1\<rparr> in
          put_shard reg sl (if holders h = 0 then omap_remove at m else omap_insert at h m)))"

fun min_of :: "'a::linorder list \<Rightarrow> 'a option" where
  "min_of [] = None"
| "min_of (x # xs) = Some (foldl min x xs)"

fun max_of :: "'a::linorder list \<Rightarrow> 'a option" where
  "max_of [] = None"
| "max_of (x # xs) = Some (foldl max x xs)"

definition registry_oldest :: "registry \<Rightarrow> sequence option" where
  "registry_oldest reg = min_of (List.map_filter (\<lambda>sl. first_key (shard_at reg sl)) [0..<SHARDS])"

definition registry_oldest_age :: "instant \<Rightarrow> registry \<Rightarrow> duration option" where
  "registry_oldest_age now reg =
    max_of (List.map_filter
      (\<lambda>sl. max_of (map (\<lambda>(_, h). saturating_duration_since now (since h)) (shard_at reg sl)))
      [0..<SHARDS])"

definition registry_len :: "registry \<Rightarrow> nat" where
  "registry_len reg = length (remdups (concat (map (\<lambda>sl. map fst (shard_at reg sl)) [0..<SHARDS])))"

text \<open>The floor of reclamation: the oldest live snapshot, or the newest version landed,
where a transaction that begins next would begin.\<close>

definition retention_floor :: "registry \<Rightarrow> sequence \<Rightarrow> sequence" where
  "retention_floor reg landed_version =
    (case registry_oldest reg of Some oldest \<Rightarrow> oldest | None \<Rightarrow> landed_version)"

section \<open>The readers a registry stands for\<close>

definition shard_live :: "nat \<Rightarrow> shard \<Rightarrow> (slot \<times> sequence) multiset" where
  "shard_live i m = sum_list (map (\<lambda>(at, h). replicate_mset (holders h) (i, at)) m)"

definition live :: "registry \<Rightarrow> (slot \<times> sequence) multiset" where
  "live reg = (\<Sum>i < length (shards reg). shard_live i (shards reg ! i))"

definition registry_ok :: "registry \<Rightarrow> bool" where
  "registry_ok reg \<longleftrightarrow> length (shards reg) = SHARDS
    \<and> (\<forall>m \<in> set (shards reg). omap_ok m \<and> (\<forall>(_, h) \<in> set m. 0 < holders h \<and> holders h \<le> u64_max))"

definition held_at :: "shard \<Rightarrow> sequence \<Rightarrow> nat" where
  "held_at m at = (case map_of m at of None \<Rightarrow> 0 | Some h \<Rightarrow> holders h)"

lemma count_shard_live:
  assumes "omap_ok m"
  shows "count (shard_live i m) (j, at) = (if i = j then held_at m at else 0)"
  using assms
proof (induction m)
  case (Cons e m)
  obtain k h where e: "e = (k, h)" by (cases e)
  have "k \<notin> fst ` set m" using Cons.prems e by auto
  then have "map_of m k = None" by (simp add: map_of_eq_None_iff)
  then show ?case using Cons e by (auto simp: shard_live_def held_at_def)
qed (simp add: shard_live_def held_at_def)

lemma count_live:
  assumes "registry_ok reg"
  shows "count (live reg) (j, at) = (if j < SHARDS then held_at (shards reg ! j) at else 0)"
proof -
  have len: "length (shards reg) = SHARDS" and ok: "i < SHARDS \<Longrightarrow> omap_ok (shards reg ! i)" for i
    using assms by (auto simp: registry_ok_def)
  have "count (live reg) (j, at) = (\<Sum>i < SHARDS. if i = j then held_at (shards reg ! i) at else 0)"
    using len ok by (auto simp: live_def count_sum count_shard_live intro!: sum.cong)
  then show ?thesis by (auto simp: sum.delta)
qed

lemma registry_okD:
  assumes "registry_ok reg" "sl < SHARDS"
  shows "shard_at reg sl = shards reg ! sl" "omap_ok (shards reg ! sl)"
    "map_of (shards reg ! sl) at = Some h \<Longrightarrow> 0 < holders h \<and> holders h \<le> u64_max"
  using assms by (auto simp: registry_ok_def shard_at_def slot_index_def dest!: map_of_SomeD nth_mem)

lemma held_at_put:
  assumes "registry_ok reg" "sl < SHARDS" "j < SHARDS"
  shows "shards (put_shard reg sl m) ! j = (if j = sl then m else shards reg ! j)"
  using assms by (auto simp: put_shard_def slot_index_def registry_ok_def nth_list_update)

lemma put_shard_ok:
  assumes "registry_ok reg" "omap_ok m"
    and "\<And>at h. map_of m at = Some h \<Longrightarrow> 0 < holders h \<and> holders h \<le> u64_max"
  shows "registry_ok (put_shard reg sl m)"
proof -
  have "(at, h) \<in> set m \<Longrightarrow> map_of m at = Some h" for at h
    using omap_ok_distinct [OF assms(2)] by simp
  then show ?thesis
    using assms by (auto simp: registry_ok_def put_shard_def dest!: set_update_subset_insert [THEN subsetD])
qed

text \<open>Two well-formed registries whose shards hold the same readers have the same live
readers but for one entry.\<close>

lemma live_register:
  assumes "registry_ok reg" "sl < SHARDS" "count (live reg) (sl, at) < u64_max"
  shows "registry_ok (register_in sl now at reg)"
    "live (register_in sl now at reg) = add_mset (sl, at) (live reg)"
proof -
  let ?m = "shards reg ! sl"
  note m = registry_okD [OF assms(1,2)]
  let ?e = "case map_of ?m at of Some h \<Rightarrow> h\<lparr>holders := saturating_add (holders h) 1\<rparr>
    | None \<Rightarrow> \<lparr>holders = 1, since = now\<rparr>"
  have reg: "register_in sl now at reg = put_shard reg sl (omap_insert at ?e ?m)"
    using m(1) by (simp add: register_in_def Let_def)
  have few: "held_at ?m at < u64_max" using assms count_live [OF assms(1)] by simp
  have e: "holders ?e = held_at ?m at + 1"
    using few by (auto simp: held_at_def saturating_add_def u64_max_def split: option.splits)
  show ok: "registry_ok (register_in sl now at reg)"
    unfolding reg
  proof (rule put_shard_ok [OF assms(1)])
    fix at' h assume "map_of (omap_insert at ?e ?m) at' = Some h"
    then show "0 < holders h \<and> holders h \<le> u64_max"
      using m e few by (cases "at' = at") auto
  qed (simp add: m(2))
  show "live (register_in sl now at reg) = add_mset (sl, at) (live reg)"
  proof (rule multiset_eqI, clarify)
    fix j at'
    have "held_at (shards (register_in sl now at reg) ! j) at'
        = held_at (shards reg ! j) at' + (if j = sl \<and> at' = at then 1 else 0)" if "j < SHARDS"
      unfolding reg held_at_put [OF assms(1,2) that]
      using e m(2) by (auto simp: held_at_def)
    then show "count (live (register_in sl now at reg)) (j, at')
        = count (add_mset (sl, at) (live reg)) (j, at')"
      using assms(2) by (auto simp: count_live [OF ok] count_live [OF assms(1)])
  qed
qed

lemma live_release:
  assumes "registry_ok reg" "sl < SHARDS"
  shows "registry_ok (registry_release at sl reg)"
    "live (registry_release at sl reg) = live reg - {#(sl, at)#}"
proof -
  let ?m = "shards reg ! sl"
  note m = registry_okD [OF assms]
  define m' where "m' = (case map_of ?m at of None \<Rightarrow> ?m | Some h \<Rightarrow>
    if holders h = 1 then omap_remove at ?m else omap_insert at (h\<lparr>holders := holders h - 1\<rparr>) ?m)"
  have "put_shard reg sl ?m = reg" using assms by (simp add: put_shard_def slot_index_def registry_ok_def)
  then have reg: "registry_release at sl reg = put_shard reg sl m'"
    using m(1) m(3) by (auto simp: registry_release_def m'_def Let_def split: option.splits dest: m(3))
  have held: "held_at m' at' = held_at ?m at' - (if at' = at then 1 else 0)" for at'
    using m(2) m(3) by (auto simp: m'_def held_at_def split: option.splits)
  show ok: "registry_ok (registry_release at sl reg)"
    unfolding reg
  proof (rule put_shard_ok [OF assms(1)])
    show "omap_ok m'" using m(2) by (simp add: m'_def split: option.splits)
    fix at' h assume "map_of m' at' = Some h"
    then show "0 < holders h \<and> holders h \<le> u64_max"
      using m(2,3) by (force simp: m'_def split: option.splits if_splits)
  qed
  show "live (registry_release at sl reg) = live reg - {#(sl, at)#}"
  proof (rule multiset_eqI, clarify)
    fix j at'
    have "held_at (shards (registry_release at sl reg) ! j) at'
        = held_at (shards reg ! j) at' - (if j = sl \<and> at' = at then 1 else 0)" if "j < SHARDS"
      unfolding reg held_at_put [OF assms that] using held by auto
    then show "count (live (registry_release at sl reg)) (j, at')
        = count (live reg - {#(sl, at)#}) (j, at')"
      using assms(2) by (auto simp: count_live [OF ok] count_live [OF assms(1)])
  qed
qed

lemma foldl_min: "foldl min (x :: 'a::linorder) xs = Min (insert x (set xs))"
proof (induction xs arbitrary: x)
  case (Cons y ys)
  have "Min (insert (min x y) (set ys)) = min x (Min (insert y (set ys)))"
    by (cases "ys = []") (simp_all add: min.assoc)
  then show ?case using Cons by (simp add: min.left_commute)
qed simp

lemma min_of_Min: "min_of xs = (if xs = [] then None else Some (Min (set xs)))"
  by (cases xs) (simp_all add: foldl_min)

lemma set_map_filter: "set (List.map_filter f xs) = {y. \<exists>x \<in> set xs. f x = Some y}"
  by (induction xs) (auto simp: List.map_filter_def)

lemma first_key_live:
  assumes "registry_ok reg" "sl < SHARDS"
  shows "first_key (shard_at reg sl) = Some at \<longleftrightarrow>
    (sl, at) \<in># live reg \<and> (\<forall>at'. (sl, at') \<in># live reg \<longrightarrow> at \<le> at')"
proof -
  let ?D = "dom (map_of (shards reg ! sl))"
  note m = registry_okD [OF assms]
  have d: "at \<in> ?D \<longleftrightarrow> (sl, at) \<in># live reg" for at
    using m(3) [of at] assms(2) count_live [OF assms(1), of sl at]
    by (auto simp: held_at_def count_greater_zero_iff [symmetric] simp del: count_greater_zero_iff
        split: option.splits)
  have "first_key (shard_at reg sl) = Some at \<longleftrightarrow> ?D \<noteq> {} \<and> at = Min ?D"
    using first_key_least [OF m(2)] m(1) by auto
  also have "\<dots> \<longleftrightarrow> at \<in> ?D \<and> (\<forall>at' \<in> ?D. at \<le> at')"
    by (metis Min_eqI Min_in Min_le empty_iff finite_dom_map_of)
  finally show ?thesis using d by blast
qed

lemma oldest_live:
  assumes "registry_ok reg"
  shows "registry_oldest reg
    = (if live reg = {#} then None else Some (Min (snd ` set_mset (live reg))))"
proof -
  let ?xs = "List.map_filter (\<lambda>sl. first_key (shard_at reg sl)) [0..<SHARDS]"
  let ?L = "snd ` set_mset (live reg)"
  have slots: "sl < SHARDS" if "(sl, at) \<in># live reg" for sl at
    using that count_live [OF assms, of sl at] by (metis count_eq_zero_iff)
  have xs: "set ?xs = {at. \<exists>sl < SHARDS. (sl, at) \<in># live reg
      \<and> (\<forall>at'. (sl, at') \<in># live reg \<longrightarrow> at \<le> at')}"
    using first_key_live [OF assms] by (auto simp: set_map_filter)
  have sub: "set ?xs \<subseteq> ?L" unfolding xs by force
  have least: "\<exists>y \<in> set ?xs. y \<le> at" if "(sl, at) \<in># live reg" for sl at
  proof -
    let ?S = "{at'. (sl, at') \<in># live reg}"
    have "?S \<subseteq> ?L" by force
    then have fin: "finite ?S" by (rule finite_subset) simp
    have "Min ?S \<in> ?S" using fin that by (intro Min_in) auto
    moreover have "(sl, at') \<in># live reg \<longrightarrow> Min ?S \<le> at'" for at' using fin by (auto intro: Min_le)
    ultimately have "Min ?S \<in> set ?xs" unfolding xs using slots [OF that] by auto
    moreover have "Min ?S \<le> at" using fin that by (auto intro: Min_le)
    ultimately show ?thesis by blast
  qed
  show ?thesis
  proof (cases "live reg = {#}")
    case True
    then have "?xs = []" using sub by (metis image_is_empty set_empty set_mset_empty subset_empty)
    then show ?thesis using True by (simp add: registry_oldest_def)
  next
    case False
    then obtain sl at where "(sl, at) \<in># live reg" by fastforce
    then have ne: "set ?xs \<noteq> {}" using least [of sl at] by force
    have "Min (set ?xs) \<le> Min ?L"
    proof -
      have "Min ?L \<in> ?L" using False by (intro Min_in) simp_all
      then obtain sl where "(sl, Min ?L) \<in># live reg" by force
      then obtain y where "y \<in> set ?xs" "y \<le> Min ?L" using least by blast
      then show ?thesis by (meson List.finite_set Min_le order_trans)
    qed
    moreover have "Min ?L \<le> Min (set ?xs)" using sub ne by (intro Min_antimono) simp_all
    ultimately have "Min (set ?xs) = Min ?L" by (rule order.antisym)
    then show ?thesis using False ne by (simp add: registry_oldest_def min_of_Min del: Min_le_iff)
  qed
qed

lemma registry_ok_default: "registry_ok registry_default"
  by (simp add: registry_ok_def registry_default_def)

lemma live_default: "live registry_default = {#}"
  by (simp add: live_def registry_default_def shard_live_def)

text \<open>Every thread's shard is one of the registry's.\<close>

definition homes_ok :: "homes \<Rightarrow> bool" where
  "homes_ok hs \<longleftrightarrow> (\<forall>sl \<in> ran (home_of_thread hs). sl < SHARDS)"

lemma home_shard_ok:
  assumes "homes_ok hs" "home_shard thread hs = (hs', sl)"
  shows "homes_ok hs'" "sl < SHARDS" "home_of_thread hs' thread = Some sl"
proof -
  have "unat (next_shard hs) mod SHARDS < SHARDS" by (simp add: SHARDS_def)
  then show "homes_ok hs'" "sl < SHARDS" "home_of_thread hs' thread = Some sl"
    using assms by (fastforce simp: home_shard_def homes_ok_def Let_def ran_def
      split: option.splits if_splits)+
qed

section \<open>Properties\<close>

text \<open>C22: the registry implements the multiset of the readers that are live: registering
adds one reader and releasing takes it away, each keeping the registry well formed
and touching no other reader, and the oldest snapshot it answers is the least any
live reader works at, in whatever shard it registered.\<close>

theorem registry_refines_readers:
  assumes "registry_ok reg" "sl < SHARDS" "count (live reg) (sl, at) < u64_max"
  shows "registry_ok (register_in sl now at reg) \<and> registry_ok (registry_release at sl reg)
    \<and> live (register_in sl now at reg) = add_mset (sl, at) (live reg)
    \<and> live (registry_release at sl reg) = live reg - {#(sl, at)#}
    \<and> registry_oldest reg
      = (if live reg = {#} then None else Some (Min (snd ` set_mset (live reg))))"
  using live_register [OF assms] live_release [OF assms(1,2)] oldest_live [OF assms(1)] by blast

theorem registry_refines_readers_witness:
  "live (register_in 3 0 7 registry_default) = {#(3, 7)#}
    \<and> registry_oldest (register_in 3 0 7 registry_default) = Some 7"
proof -
  have "registry_ok (register_in 3 0 7 registry_default)"
    "live (register_in 3 0 7 registry_default) = add_mset (3, 7) (live registry_default)"
    using registry_refines_readers [OF registry_ok_default, of 3 7 0]
    by (simp_all add: SHARDS_def live_default u64_max_def)
  then show ?thesis
    using registry_refines_readers [of "register_in 3 0 7 registry_default" 0 0 0]
    by (simp add: SHARDS_def live_default u64_max_def)
qed

end
