(* ===== verification/Reclaim.thy ===== *)
theory Reclaim
  imports Snapshot_Read Snapshots
begin

text \<open>The pass that removes the versions no live reader can need (reclaim.rs of
tessari-storage): one forward scan of a table, in which the versions of a record
are adjacent and newest first.  The version a reader at the floor resolves to is
kept, versions of transactions across leaders above it with it, intents always;
what is strictly older goes, and so does a deletion that nothing needs.  The
reclaim floor rises in the batch that removes.\<close>

section \<open>The pass\<close>

record reclaimed =
  rc_versions :: nat
  rc_records :: nat
  rc_floor :: sequence

record pass =
  p_current :: "record_id option"
  p_kept :: bool
  p_above :: bool
  p_batch :: write_batch
  p_removed :: reclaimed

definition count_version :: "reclaimed \<Rightarrow> reclaimed" where
  "count_version r = r\<lparr>rc_versions := saturating_add (rc_versions r) 1\<rparr>"

definition count_record :: "reclaimed \<Rightarrow> reclaimed" where
  "count_record r = r\<lparr>rc_records := saturating_add (rc_records r) 1\<rparr>"

definition enter_record :: "record_id \<Rightarrow> pass \<Rightarrow> pass" where
  "enter_record i p =
    (if p_current p \<noteq> Some i
     then p\<lparr>p_current := Some i, p_kept := False, p_above := False\<rparr> else p)"

definition judge_version :: "key \<Rightarrow> stamped_value \<Rightarrow> pass \<Rightarrow> pass" where
  "judge_version k stored p =
    (if is_intent stored then p
     else if \<not> p_kept p then
       if sv_provenance stored \<noteq> None then p\<lparr>p_above := True\<rparr>
       else
         (let p = p\<lparr>p_kept := True\<rparr> in
          if \<not> p_above p \<and> sv_value stored = Tombstone
          then p\<lparr>p_batch := batch_delete (keyspace_of Record) k (p_batch p),
                 p_removed := count_version (count_record (p_removed p))\<rparr>
          else p)
     else p\<lparr>p_batch := batch_delete (keyspace_of Record) k (p_batch p),
            p_removed := count_version (p_removed p)\<rparr>)"

fun reclaim_loop :: "sequence \<Rightarrow> pass \<Rightarrow> pair list \<Rightarrow> read_error + pass" where
  "reclaim_loop fl p [] = Inr p"
| "reclaim_loop fl p ((k, v) # ps) =
    bindR (lift_enc (record_key_decode k)) (\<lambda>decoded.
      let p = enter_record (rk_id decoded) p in
      if fl < rk_version decoded then reclaim_loop fl p ps
      else
        bindR (lift_enc (stamped_decode v)) (\<lambda>stored.
          reclaim_loop fl (judge_version k stored p) ps))"

definition reclaim_floor :: "get_fn \<Rightarrow> read_error + sequence" where
  "reclaim_floor get =
    bindR (get_decoded get (keyspace_of ReclaimFloor) (singleton_encode ReclaimFloor ())
      sequence_decode) (\<lambda>found.
      Inr (case found of Some s \<Rightarrow> s | None \<Rightarrow> 0))"

definition pass_new :: "sequence \<Rightarrow> pass" where
  "pass_new fl =
    \<lparr>p_current = None, p_kept = False, p_above = False, p_batch = batch_new,
     p_removed = \<lparr>rc_versions = 0, rc_records = 0, rc_floor = fl\<rparr>\<rparr>"

text \<open>The pass over one table, once the settled transactions across leaders have been
folded: what it scans, what it writes, and the floor it leaves.\<close>

definition reclaim_pass ::
  "('s \<Rightarrow> get_fn) \<Rightarrow> ('s \<Rightarrow> scan_fn) \<Rightarrow> ('s \<Rightarrow> write_batch \<Rightarrow> 's \<times> unit kv_result)
    \<Rightarrow> sequence \<Rightarrow> namespace_id \<Rightarrow> database_id \<Rightarrow> table_id \<Rightarrow> 's
    \<Rightarrow> 's \<times> (read_error + reclaimed)" where
  "reclaim_pass get scan apply fl ns db tb s =
    (let request = \<lparr>req_keyspace = keyspace_of Record,
           req_range = key_range_prefix (record_table_prefix ns db tb),
           req_direction = Forward, req_limit = None\<rparr>
     in
     case bindR (lift_kv (scan s request)) (reclaim_loop fl (pass_new fl)) of
       Inl e \<Rightarrow> (s, Inl e)
     | Inr p \<Rightarrow>
         if 0 < rc_versions (p_removed p) then
           (case reclaim_floor (get s) of
              Inl e \<Rightarrow> (s, Inl e)
            | Inr standing \<Rightarrow>
                (let raised = max standing fl;
                     batch = batch_put (keyspace_of ReclaimFloor) (singleton_encode ReclaimFloor ())
                       (sequence_encode raised) (p_batch p)
                 in case apply s batch of
                      (s, Inl e) \<Rightarrow> (s, Inl (Kv e))
                    | (s, Inr _) \<Rightarrow> (s, Inr (p_removed p))))
         else (s, Inr (p_removed p)))"

text \<open>Beginning a read at a named version: refused below the reclaim floor, where the
versions that answered may be gone, and above the newest version written.\<close>

datatype begin_error = ReadFailed read_error | VersionReclaimed u64 u64 | VersionInTheFuture u64 u64

definition committed_version :: "get_fn \<Rightarrow> read_error + sequence" where
  "committed_version get =
    bindR (get_decoded get (keyspace_of VersionPosition) (singleton_encode VersionPosition ())
      sequence_decode) (\<lambda>found.
      Inr (case found of Some s \<Rightarrow> s | None \<Rightarrow> 0))"

definition begin_at :: "get_fn \<Rightarrow> sequence \<Rightarrow> begin_error + sequence" where
  "begin_at get at =
    (case reclaim_floor get of
       Inl e \<Rightarrow> Inl (ReadFailed e)
     | Inr fl \<Rightarrow>
         if at < fl then Inl (VersionReclaimed at fl)
         else
           (case committed_version get of
              Inl e \<Rightarrow> Inl (ReadFailed e)
            | Inr tail \<Rightarrow> if tail < at then Inl (VersionInTheFuture at tail) else Inr at))"

section \<open>What the pass removes\<close>

text \<open>A version is doomed when a reader at the floor or above never resolves to it: a
plain version at or below the floor stands over it, or it is itself that version
and says the record is gone, with no version of a transaction across leaders kept
above it.\<close>

definition plain_at :: "(record_key \<rightharpoonup> stamped_value) \<Rightarrow> record_address \<Rightarrow> sequence \<Rightarrow> bool" where
  "plain_at V a n \<longleftrightarrow> (\<exists>v. V (key_at a n) = Some v \<and> sv_provenance v = None)"

definition resolved_at :: "(record_key \<rightharpoonup> stamped_value) \<Rightarrow> record_address \<Rightarrow> sequence \<Rightarrow> bool" where
  "resolved_at V a n \<longleftrightarrow>
    (\<exists>v. V (key_at a n) = Some v \<and> sv_provenance v \<noteq> None \<and> \<not> is_intent v)"

definition doomed ::
  "(record_key \<rightharpoonup> stamped_value) \<Rightarrow> sequence \<Rightarrow> record_address \<Rightarrow> sequence \<Rightarrow> bool" where
  "doomed V fl a n \<longleftrightarrow> (\<exists>v. V (key_at a n) = Some v \<and> n \<le> fl \<and> \<not> is_intent v
    \<and> ((\<exists>m. n < m \<and> m \<le> fl \<and> plain_at V a m)
       \<or> sv_provenance v = None \<and> sv_value v = Tombstone
         \<and> \<not> (\<exists>m. n < m \<and> m \<le> fl \<and> resolved_at V a m)))"

text \<open>The rows of a table, in the order of the scan.\<close>

definition in_table :: "namespace_id \<Rightarrow> database_id \<Rightarrow> table_id \<Rightarrow> record_key \<Rightarrow> bool" where
  "in_table ns db tb k \<longleftrightarrow> rk_namespace k = ns \<and> rk_database k = db \<and> rk_table k = tb"

definition rows ::
  "(record_key \<rightharpoonup> stamped_value) \<Rightarrow> namespace_id \<Rightarrow> database_id \<Rightarrow> table_id
    \<Rightarrow> record_key list \<Rightarrow> bool" where
  "rows V ns db tb ks \<longleftrightarrow> sorted_wrt record_key_less ks
    \<and> set ks = {k. record_key_wf k \<and> V k \<noteq> None \<and> in_table ns db tb k}"

definition row_pair :: "(record_key \<rightharpoonup> stamped_value) \<Rightarrow> record_key \<Rightarrow> pair" where
  "row_pair V k = (record_key_encode k, stamped_encode (the (V k)))"

lemma table_rows:
  assumes "finite (dom (data_of V))"
  shows "\<exists>ks. rows V ns db tb ks
    \<and> pairs_in (data_of V) (key_range_prefix (record_table_prefix ns db tb)) = map (row_pair V) ks"
proof -
  let ?m = "data_of V" and ?r = "key_range_prefix (record_table_prefix ns db tb)"
  let ?K = "{k. record_key_wf k \<and> V k \<noteq> None \<and> in_table ns db tb k}"
  define ks where "ks = map (\<lambda>bs. the_inv_into ?K record_key_encode bs) (sorted_list_of_set (keys_in ?m ?r))"
  have inj: "inj_on record_key_encode ?K"
    using record_keys.encode_inject by (auto simp: inj_on_def)
  have keys: "keys_in ?m ?r = record_key_encode ` ?K"
    by (auto simp: keys_in_def dom_def data_of_Some table_prefix_exact in_table_def image_iff)
  have again: "record_key_encode (the_inv_into ?K record_key_encode bs) = bs" if "bs \<in> keys_in ?m ?r" for bs
    using that keys f_the_inv_into_f [OF inj] by auto
  have fin: "finite (keys_in ?m ?r)" using assms by simp
  then have enc: "map record_key_encode ks = sorted_list_of_set (keys_in ?m ?r)"
    using again by (auto simp: ks_def intro!: map_idI)
  have set: "set ks = ?K"
    using fin keys the_inv_into_onto [OF inj] by (simp add: ks_def)
  have "sorted_wrt (<) (map record_key_encode ks)" unfolding enc by (rule strict_sorted_list_of_set)
  then have "sorted_wrt record_key_less ks"
    unfolding sorted_wrt_map
    by (rule sorted_wrt_mono_rel [rotated]) (use set record_keys.encode_order in auto)
  moreover have "the (?m (record_key_encode k)) = stamped_encode (the (V k))" if "k \<in> set ks" for k
    using that set by (auto simp: data_of_def record_keys.round_trip)
  then have "pairs_in ?m ?r = map (row_pair V) ks"
    by (simp add: pairs_in_keys enc [symmetric] row_pair_def)
  ultimately show ?thesis using set by (auto simp: rows_def)
qed

lemma row_between:
  assumes "record_key_less k l" "record_key_less l m" "rk_id k = rk_id m"
    and "in_table ns db tb k" "in_table ns db tb l" "in_table ns db tb m"
    and "record_key_wf k" "record_key_wf l"
  shows "rk_id l = rk_id k"
  using assms ridk.lt_asym [of "rk_id k" "rk_id l"]
  by (auto simp: record_key_less_def in_table_def record_key_wf_def)

lemma row_same_record:
  assumes "rk_id k = rk_id l" "in_table ns db tb k" "in_table ns db tb l" "record_key_wf k"
  shows "record_key_less k l \<longleftrightarrow> rk_version l < rk_version k"
  using assms ridk.lt_irrefl [of "rk_id k"]
  by (auto simp: record_key_less_def in_table_def record_key_wf_def)

text \<open>What the pass knows when it has seen the rows \<open>us\<close>: of the record it is in, whether
a plain version at or below the floor went by, and before that whether a resolved
one did.\<close>

definition pass_knows ::
  "(record_key \<rightharpoonup> stamped_value) \<Rightarrow> sequence \<Rightarrow> record_key list \<Rightarrow> pass \<Rightarrow> bool" where
  "pass_knows V fl us p \<longleftrightarrow>
    p_current p = (if us = [] then None else Some (rk_id (last us)))
    \<and> (p_kept p \<longleftrightarrow> (\<exists>k \<in> set us. p_current p = Some (rk_id k) \<and> rk_version k \<le> fl
          \<and> plain_at V (address_of k) (rk_version k)))
    \<and> (\<not> p_kept p \<longrightarrow> (p_above p \<longleftrightarrow> (\<exists>k \<in> set us. p_current p = Some (rk_id k)
          \<and> rk_version k \<le> fl \<and> resolved_at V (address_of k) (rk_version k))))"

lemma rows_above:
  assumes "rows V ns db tb (us @ k # ks)"
  shows "(\<exists>u \<in> set us. rk_id u = rk_id k \<and> rk_version u \<le> fl \<and> Q (address_of u) (rk_version u)
      \<and> V u \<noteq> None)
    \<longleftrightarrow> (\<exists>m. rk_version k < m \<and> m \<le> fl \<and> Q (address_of k) m \<and> V (key_at (address_of k) m) \<noteq> None)"
    (is "?L \<longleftrightarrow> ?R")
proof
  have srt: "sorted_wrt record_key_less (us @ k # ks)"
    and all: "set (us @ k # ks) = {k. record_key_wf k \<and> V k \<noteq> None \<and> in_table ns db tb k}"
    using assms by (simp_all add: rows_def)
  have k: "record_key_wf k" "in_table ns db tb k" using all by auto
  {
    assume ?L
    then obtain u where u: "u \<in> set us" "rk_id u = rk_id k" "rk_version u \<le> fl"
      "Q (address_of u) (rk_version u)" "V u \<noteq> None" by blast
    have wu: "record_key_wf u" "in_table ns db tb u" using u(1) all by auto
    have "record_key_less u k" using srt u(1) by (simp add: sorted_wrt_append)
    then have "rk_version k < rk_version u" using row_same_record [OF u(2) wu(2) k(2) wu(1)] by simp
    moreover have eq: "address_of u = address_of k"
      using u(2) wu(2) k(2) by (simp add: address_of_def in_table_def)
    moreover have "key_at (address_of k) (rk_version u) = u" using eq key_at_address by metis
    ultimately show ?R using u(3-5) by metis
  next
    assume ?R
    then obtain m where m: "rk_version k < m" "m \<le> fl" "Q (address_of k) m"
      "V (key_at (address_of k) m) \<noteq> None" by blast
    let ?u = "key_at (address_of k) m"
    have u: "rk_id ?u = rk_id k" "rk_version ?u = m" "in_table ns db tb ?u" "record_key_wf ?u"
      using k by (simp_all add: key_at_def address_of_def in_table_def record_key_wf_def)
    have "?u \<in> set (us @ k # ks)" unfolding all using u m(4) by simp
    moreover have "\<not> record_key_less k ?u"
      using row_same_record [OF u(1) [symmetric] k(2) u(3) k(1)] m(1) u(2) by simp
    then have "?u \<notin> set ks" using srt by (auto simp: sorted_wrt_append)
    moreover have "?u \<noteq> k" using m(1) u(2) by auto
    ultimately have "?u \<in> set us" by auto
    moreover have "address_of ?u = address_of k" by (simp add: address_of_def key_at_def)
    ultimately show ?L using u m by metis
  }
qed

lemma rows_new_record:
  assumes "rows V ns db tb (us @ k # ks)" "us \<noteq> []" "rk_id (last us) \<noteq> rk_id k" "u \<in> set us"
  shows "rk_id u \<noteq> rk_id k"
proof
  assume eq: "rk_id u = rk_id k"
  have srt: "sorted_wrt record_key_less (us @ k # ks)"
    and all: "set (us @ k # ks) = {k. record_key_wf k \<and> V k \<noteq> None \<and> in_table ns db tb k}"
    using assms(1) by (simp_all add: rows_def)
  have l: "last us \<in> set us" using assms(2) by simp
  have wf: "x \<in> set us \<or> x = k \<Longrightarrow> record_key_wf x \<and> in_table ns db tb x" for x using all by auto
  have "record_key_less (last us) k" using srt l by (simp add: sorted_wrt_append)
  moreover have "u = last us \<or> record_key_less u (last us)"
  proof -
    have "us = butlast us @ [last us]" using assms(2) by simp
    then have "u \<in> set (butlast us) \<or> u = last us" using assms(4) by (metis Un_iff empty_iff
          insert_iff list.set(1,2) set_append)
    moreover have "sorted_wrt record_key_less (butlast us @ [last us])"
      using srt assms(2) by (simp add: sorted_wrt_append)
    ultimately show ?thesis by (auto simp: sorted_wrt_append)
  qed
  ultimately show False using eq assms(3) row_between [of u "last us" k ns db tb] wf assms(4) l by metis
qed

lemma plain_at_some: "plain_at V a m \<Longrightarrow> V (key_at a m) \<noteq> None"
  and resolved_at_some: "resolved_at V a m \<Longrightarrow> V (key_at a m) \<noteq> None"
  by (auto simp: plain_at_def resolved_at_def)

lemma rows_plain_above:
  assumes "rows V ns db tb (us @ k # ks)"
  shows "(\<exists>u \<in> set us. rk_id u = rk_id k \<and> rk_version u \<le> fl
        \<and> plain_at V (address_of u) (rk_version u))
      \<longleftrightarrow> (\<exists>m. rk_version k < m \<and> m \<le> fl \<and> plain_at V (address_of k) m)"
    and "(\<exists>u \<in> set us. rk_id u = rk_id k \<and> rk_version u \<le> fl
        \<and> resolved_at V (address_of u) (rk_version u))
      \<longleftrightarrow> (\<exists>m. rk_version k < m \<and> m \<le> fl \<and> resolved_at V (address_of k) m)"
proof -
  have some: "u \<in> set us \<Longrightarrow> V u \<noteq> None" for u using assms unfolding rows_def by auto
  note above = rows_above [OF assms, of fl]
  show "(\<exists>u \<in> set us. rk_id u = rk_id k \<and> rk_version u \<le> fl
        \<and> plain_at V (address_of u) (rk_version u))
      \<longleftrightarrow> (\<exists>m. rk_version k < m \<and> m \<le> fl \<and> plain_at V (address_of k) m)"
    using above [of "plain_at V"] some plain_at_some by metis
  show "(\<exists>u \<in> set us. rk_id u = rk_id k \<and> rk_version u \<le> fl
        \<and> resolved_at V (address_of u) (rk_version u))
      \<longleftrightarrow> (\<exists>m. rk_version k < m \<and> m \<le> fl \<and> resolved_at V (address_of k) m)"
    using above [of "resolved_at V"] some resolved_at_some by metis
qed

lemma enter_record_knows:
  assumes "rows V ns db tb (us @ k # ks)" "pass_knows V fl us p"
  defines "q \<equiv> enter_record (rk_id k) p"
  shows "p_current q = Some (rk_id k)" "p_batch q = p_batch p" "p_removed q = p_removed p"
    and "p_kept q \<longleftrightarrow> (\<exists>m. rk_version k < m \<and> m \<le> fl \<and> plain_at V (address_of k) m)"
    and "\<not> p_kept q \<Longrightarrow>
      p_above q \<longleftrightarrow> (\<exists>m. rk_version k < m \<and> m \<le> fl \<and> resolved_at V (address_of k) m)"
proof -
  show "p_current q = Some (rk_id k)" "p_batch q = p_batch p" "p_removed q = p_removed p"
    by (simp_all add: q_def enter_record_def)
  note plain = rows_plain_above(1) [OF assms(1), of fl]
    and resolved = rows_plain_above(2) [OF assms(1), of fl]
  have new: "u \<in> set us \<Longrightarrow> rk_id u \<noteq> rk_id k" if "p_current p \<noteq> Some (rk_id k)" for u
    using rows_new_record [OF assms(1)] that assms(2) unfolding pass_knows_def
    by (metis empty_iff list.set(1))
  have old: "p_current p = Some (rk_id k) \<Longrightarrow> (p_current p = Some (rk_id u)) = (rk_id u = rk_id k)"
    for u by auto
  show "p_kept q \<longleftrightarrow> (\<exists>m. rk_version k < m \<and> m \<le> fl \<and> plain_at V (address_of k) m)"
    unfolding plain [symmetric] using assms(2) new
    by (cases "p_current p = Some (rk_id k)")
      (auto simp: q_def enter_record_def pass_knows_def old)
  show "\<not> p_kept q \<Longrightarrow>
      p_above q \<longleftrightarrow> (\<exists>m. rk_version k < m \<and> m \<le> fl \<and> resolved_at V (address_of k) m)"
    unfolding resolved [symmetric] using assms(2) new
    by (cases "p_current p = Some (rk_id k)")
      (auto simp: q_def enter_record_def pass_knows_def old)
qed

text \<open>One row: what is known afterwards, and what is removed.\<close>

definition reclaim_row ::
  "(record_key \<rightharpoonup> stamped_value) \<Rightarrow> sequence \<Rightarrow> record_key \<Rightarrow> pass \<Rightarrow> pass" where
  "reclaim_row V fl k p =
    (let p = enter_record (rk_id k) p in
     if fl < rk_version k then p else judge_version (record_key_encode k) (the (V k)) p)"

lemma reclaim_row_knows:
  assumes "rows V ns db tb (us @ k # ks)" "pass_knows V fl us p"
  shows "pass_knows V fl (us @ [k]) (reclaim_row V fl k p)"
proof -
  let ?q = "enter_record (rk_id k) p" and ?n = "rk_version k" and ?a = "address_of k"
  let ?plain = "\<exists>m. ?n < m \<and> m \<le> fl \<and> plain_at V ?a m"
  let ?res = "\<exists>m. ?n < m \<and> m \<le> fl \<and> resolved_at V ?a m"
  note q = enter_record_knows [OF assms]
  obtain v where v: "V k = Some v" using assms(1) by (auto simp: rows_def)
  have here: "plain_at V ?a ?n \<longleftrightarrow> sv_provenance v = None"
    "resolved_at V ?a ?n \<longleftrightarrow> sv_provenance v \<noteq> None \<and> \<not> is_intent v"
    using v by (auto simp: plain_at_def resolved_at_def key_at_address)
  have kept: "(\<exists>u \<in> set (us @ [k]). rk_id u = rk_id k \<and> rk_version u \<le> fl
      \<and> plain_at V (address_of u) (rk_version u)) \<longleftrightarrow> ?plain \<or> ?n \<le> fl \<and> sv_provenance v = None"
    using rows_plain_above(1) [OF assms(1)] here(1) by auto
  have above: "(\<exists>u \<in> set (us @ [k]). rk_id u = rk_id k \<and> rk_version u \<le> fl
      \<and> resolved_at V (address_of u) (rk_version u))
    \<longleftrightarrow> ?res \<or> ?n \<le> fl \<and> sv_provenance v \<noteq> None \<and> \<not> is_intent v"
    using rows_plain_above(2) [OF assms(1)] here(2) by auto
  have knows: "pass_knows V fl (us @ [k]) p'" if "p_current p' = Some (rk_id k)"
    "p_kept p' \<longleftrightarrow> ?plain \<or> ?n \<le> fl \<and> sv_provenance v = None"
    "\<not> p_kept p' \<Longrightarrow> p_above p' \<longleftrightarrow> ?res \<or> ?n \<le> fl \<and> sv_provenance v \<noteq> None \<and> \<not> is_intent v"
    for p'
    using that unfolding pass_knows_def kept [symmetric] above [symmetric] by auto
  have plain_not_intent: "sv_provenance v = None \<Longrightarrow> \<not> is_intent v" by (simp add: is_intent_def)
  show ?thesis
  proof (cases "fl < ?n")
    case True
    then have "\<not> ?n \<le> fl" by simp
    then show ?thesis using True q(1) q(5)
      by (intro knows) (auto simp: reclaim_row_def q(4))
  next
    case False
    then have "?n \<le> fl" by simp
    have r: "reclaim_row V fl k p = judge_version (record_key_encode k) v ?q"
      using False v by (simp add: reclaim_row_def)
    show ?thesis unfolding r
    proof (rule knows)
      show "p_current (judge_version (record_key_encode k) v ?q) = Some (rk_id k)"
        using q(1) by (simp add: judge_version_def Let_def)
      show "p_kept (judge_version (record_key_encode k) v ?q)
          \<longleftrightarrow> ?plain \<or> ?n \<le> fl \<and> sv_provenance v = None"
        unfolding q(4) [symmetric] using \<open>?n \<le> fl\<close> plain_not_intent
        by (auto simp: judge_version_def Let_def)
      assume "\<not> p_kept (judge_version (record_key_encode k) v ?q)"
      then show "p_above (judge_version (record_key_encode k) v ?q)
          \<longleftrightarrow> ?res \<or> ?n \<le> fl \<and> sv_provenance v \<noteq> None \<and> \<not> is_intent v"
        using q(5) \<open>?n \<le> fl\<close> plain_not_intent by (auto simp: judge_version_def Let_def split: if_splits)
    qed
  qed
qed

lemma reclaim_row_batch:
  assumes "rows V ns db tb (us @ k # ks)" "pass_knows V fl us p"
  shows "ops (p_batch (reclaim_row V fl k p)) = ops (p_batch p)
      @ (if doomed V fl (address_of k) (rk_version k) then [Delete DATA (record_key_encode k)] else [])"
    and "preconditions (p_batch (reclaim_row V fl k p)) = preconditions (p_batch p)"
    and "rc_versions (p_removed (reclaim_row V fl k p)) = (if doomed V fl (address_of k) (rk_version k)
      then saturating_add (rc_versions (p_removed p)) 1 else rc_versions (p_removed p))"
    and "rc_floor (p_removed (reclaim_row V fl k p)) = rc_floor (p_removed p)"
proof -
  note q = enter_record_knows [OF assms]
  obtain v where v: "V k = Some v" using assms(1) by (auto simp: rows_def)
  have "sv_provenance v = None \<Longrightarrow> \<not> is_intent v" by (simp add: is_intent_def)
  then have d: "doomed V fl (address_of k) (rk_version k) \<longleftrightarrow> rk_version k \<le> fl \<and> \<not> is_intent v
      \<and> (p_kept (enter_record (rk_id k) p)
         \<or> sv_provenance v = None \<and> sv_value v = Tombstone \<and> \<not> p_above (enter_record (rk_id k) p))"
    using v q(4,5) unfolding doomed_def key_at_address by auto
  show "ops (p_batch (reclaim_row V fl k p)) = ops (p_batch p)
      @ (if doomed V fl (address_of k) (rk_version k) then [Delete DATA (record_key_encode k)] else [])"
    "preconditions (p_batch (reclaim_row V fl k p)) = preconditions (p_batch p)"
    "rc_versions (p_removed (reclaim_row V fl k p)) = (if doomed V fl (address_of k) (rk_version k)
      then saturating_add (rc_versions (p_removed p)) 1 else rc_versions (p_removed p))"
    "rc_floor (p_removed (reclaim_row V fl k p)) = rc_floor (p_removed p)"
    unfolding d using v q(2,3)
    by (auto simp: reclaim_row_def judge_version_def batch_delete_def count_version_def
        count_record_def Let_def)
qed

lemma reclaim_loop_rows:
  assumes V: "versions_wf V" and r: "rows V ns db tb (us @ ks)" and p: "pass_knows V fl us p"
  shows "\<exists>q. reclaim_loop fl p (map (row_pair V) ks) = Inr q
    \<and> ops (p_batch q) = ops (p_batch p)
        @ map (\<lambda>k. Delete DATA (record_key_encode k))
            (filter (\<lambda>k. doomed V fl (address_of k) (rk_version k)) ks)
    \<and> preconditions (p_batch q) = preconditions (p_batch p)
    \<and> rc_versions (p_removed q) = foldl saturating_add (rc_versions (p_removed p))
        (map (\<lambda>_. 1) (filter (\<lambda>k. doomed V fl (address_of k) (rk_version k)) ks))
    \<and> rc_floor (p_removed q) = rc_floor (p_removed p)"
  using r p
proof (induction ks arbitrary: us p)
  case (Cons k ks)
  obtain v where v: "V k = Some v" and wf: "record_key_wf k" using Cons.prems(1) by (auto simp: rows_def)
  have dec: "record_key_decode (record_key_encode k) = Inr k" using wf by (rule record_keys.round_trip)
  have sdec: "stamped_decode (stamped_encode v) = Inr v"
    using V v stamped_round_trip unfolding versions_wf_def by metis
  have loop: "reclaim_loop fl p (map (row_pair V) (k # ks))
      = reclaim_loop fl (reclaim_row V fl k p) (map (row_pair V) ks)"
    by (simp add: row_pair_def dec v sdec reclaim_row_def Let_def)
  have knows: "pass_knows V fl (us @ [k]) (reclaim_row V fl k p)"
    using Cons.prems by (rule reclaim_row_knows)
  have "rows V ns db tb ((us @ [k]) @ ks)" using Cons.prems(1) by simp
  from Cons.IH [OF this knows] show ?case
    unfolding loop using reclaim_row_batch [OF Cons.prems] by auto
qed simp

lemma foldl_saturating_ones:
  "foldl saturating_add n (map (\<lambda>_. 1) xs) = 0 \<longleftrightarrow> n = 0 \<and> xs = []"
proof (induction xs arbitrary: n)
  case (Cons x xs)
  have "saturating_add n 1 \<noteq> 0" by (simp add: saturating_add_def u64_max_def)
  then show ?case using Cons [of "saturating_add n 1"] by simp
qed simp

lemma pass_knows_new: "pass_knows V fl [] (pass_new fl)"
  by (simp add: pass_knows_def pass_new_def)

text \<open>The versions left when the doomed ones of a table are gone.\<close>

definition without_doomed ::
  "(record_key \<rightharpoonup> stamped_value) \<Rightarrow> sequence \<Rightarrow> namespace_id \<Rightarrow> database_id \<Rightarrow> table_id
    \<Rightarrow> record_key \<rightharpoonup> stamped_value" where
  "without_doomed V fl ns db tb k =
    (if in_table ns db tb k \<and> doomed V fl (address_of k) (rk_version k) then None else V k)"

lemma doomed_deletes:
  assumes "rows V ns db tb ks" "m DATA = data_of V"
  shows "map_ops (map (\<lambda>k. Delete DATA (record_key_encode k))
      (filter (\<lambda>k. doomed V fl (address_of k) (rk_version k)) ks)) m DATA
    = data_of (without_doomed V fl ns db tb)"
proof -
  let ?D = "filter (\<lambda>k. doomed V fl (address_of k) (rk_version k)) ks"
  let ?ps = "map (\<lambda>k. (record_key_encode k, [] :: kv_value)) ?D"
  have "map (\<lambda>k. Delete DATA (record_key_encode k)) ?D = map (\<lambda>(k, _). Delete DATA k) ?ps" by simp
  then have ops: "map_ops (map (\<lambda>k. Delete DATA (record_key_encode k)) ?D) m DATA bs
      = (if bs \<in> record_key_encode ` set ?D then None else data_of V bs)" for bs
    by (simp only: map_ops_deletes) (auto simp: assms(2) image_image)
  have D: "set ?D = {k. record_key_wf k \<and> V k \<noteq> None \<and> in_table ns db tb k
      \<and> doomed V fl (address_of k) (rk_version k)}"
    using assms(1) by (auto simp: rows_def)
  show ?thesis
  proof
    fix bs
    show "map_ops (map (\<lambda>k. Delete DATA (record_key_encode k)) ?D) m DATA bs
      = data_of (without_doomed V fl ns db tb) bs"
    proof (cases "record_key_decode bs")
      case (Inl e)
      then have "bs \<notin> record_key_encode ` set ?D" using D record_keys.round_trip by force
      then show ?thesis using Inl ops by (simp add: data_of_def)
    next
      case (Inr k)
      then have k: "record_key_wf k" "bs = record_key_encode k" using record_key_decode_only by auto
      then have "bs \<in> record_key_encode ` set ?D \<longleftrightarrow> k \<in> set ?D"
        using D record_keys.encode_inject by auto
      then show ?thesis
        using Inr ops D k by (auto simp: data_of_def without_doomed_def doomed_def key_at_address)
    qed
  qed
qed

section \<open>What a reader above the floor sees\<close>

text \<open>A reader that finds a deletion and one that finds nothing both conclude that the
record is not there.\<close>

fun shown :: "read_error + (sequence \<times> stamped_value) option
    \<Rightarrow> read_error + (sequence \<times> stamped_value) option" where
  "shown (Inr (Some (n, v))) = (if sv_value v = Tombstone then Inr None else Inr (Some (n, v)))"
| "shown r = r"

lemma newest_seen_append:
  "newest_seen passes d (xs @ ys) =
    (case newest_seen passes d xs of
       (d', Inr None) \<Rightarrow> newest_seen passes d' ys
     | r \<Rightarrow> r)"
proof (induction xs arbitrary: d)
  case (Cons x xs)
  obtain n v where x: "x = (n, v)" by (cases x)
  show ?case using Cons by (simp add: x split: prod.split sum.split)
qed simp

text \<open>No plain version of the record stands over an intent: a writer is refused while an
intent stands.\<close>

definition intents_on_top :: "(record_key \<rightharpoonup> stamped_value) \<Rightarrow> record_address \<Rightarrow> bool" where
  "intents_on_top V a \<longleftrightarrow> (\<forall>n m v. V (key_at a n) = Some v \<longrightarrow> is_intent v \<longrightarrow> plain_at V a m \<longrightarrow> m < n)"

definition reads_plain :: "(decided \<Rightarrow> stamped_value \<Rightarrow> decided \<times> (read_error + bool)) \<Rightarrow> bool" where
  "reads_plain passes \<longleftrightarrow> (\<forall>d v. sv_provenance v = None \<longrightarrow> passes d v = (d, Inr False))"

lemma reads_plain_passes_over: "reads_plain (passes_over get asks rd)"
  by (simp add: reads_plain_def passes_over_def)

lemma newest_seen_without_doomed:
  assumes vs: "sorted_wrt (>) vs" "set vs = {n. n \<le> at \<and> V (key_at a n) \<noteq> None}" and fl: "fl \<le> at"
    and tops: "intents_on_top V a" and passes: "reads_plain passes"
  defines "val \<equiv> \<lambda>n. (n, the (V (key_at a n)))"
  shows "\<exists>d' r r'. newest_seen passes d (map val vs) = (d', r)
    \<and> newest_seen passes d (map val (filter (\<lambda>n. \<not> doomed V fl a n) vs)) = (d', r')
    \<and> shown r' = shown r"
proof (cases "\<exists>n \<in> set vs. n \<le> fl \<and> plain_at V a n")
  case False
  then have none: "\<not> plain_at V a m" if "m \<le> fl" for m
    using that vs(2) fl plain_at_some [of V a m] by auto
  then have "\<not> doomed V fl a n" for n
    by (auto simp: doomed_def plain_at_def)
  then show ?thesis by (cases "newest_seen passes d (map val vs)") simp
next
  case True
  then obtain pre n post where split: "vs = pre @ n # post" "n \<le> fl \<and> plain_at V a n"
    "\<forall>m \<in> set pre. \<not> (m \<le> fl \<and> plain_at V a m)"
    using split_list_first_prop [OF True] by blast
  obtain v where v: "V (key_at a n) = Some v" "sv_provenance v = None"
    using split(2) by (auto simp: plain_at_def)
  have higher: "m \<in> set pre" if "plain_at V a m" "n < m" "m \<le> fl" for m
  proof -
    have "m \<in> set vs" unfolding vs(2) using that fl plain_at_some [OF that(1)] by auto
    moreover have "m \<notin> set (n # post)" using that(2) vs(1) split(1) by (auto simp: sorted_wrt_append)
    ultimately show ?thesis using split(1) by auto
  qed
  have keep: "\<not> doomed V fl a m" if m: "m \<in> set pre" for m
  proof
    assume "doomed V fl a m"
    then obtain m' where "plain_at V a m'" "m \<le> m'" "m' \<le> fl"
      by (auto simp: doomed_def plain_at_def order.order_iff_strict)
    moreover have "n < m" using m vs(1) split(1) by (simp add: sorted_wrt_append)
    ultimately show False using higher split(3) by (meson order.strict_trans2)
  qed
  have gone: "doomed V fl a m" if m: "m \<in> set post" for m
  proof -
    have lt: "m < n" using m vs(1) split(1) by (simp add: sorted_wrt_append)
    obtain w where w: "V (key_at a m) = Some w" using m vs(2) split(1) by auto
    have "\<not> is_intent w" using tops w split(2) lt unfolding intents_on_top_def by (meson order.asym)
    then show ?thesis using w lt split(2) by (auto simp: doomed_def intro: less_imp_le)
  qed
  have kept: "filter (\<lambda>n. \<not> doomed V fl a n) vs = pre @ (if doomed V fl a n then [] else [n])"
    using keep gone by (simp add: split(1) filter_id_conv filter_empty_conv)
  obtain d1 r1 where pre: "newest_seen passes d (map val pre) = (d1, r1)"
    by (cases "newest_seen passes d (map val pre)")
  have at_n: "passes d1 v = (d1, Inr False)" using passes v(2) by (simp add: reads_plain_def)
  have tomb: "doomed V fl a n \<Longrightarrow> sv_value v = Tombstone"
    using v higher split(3) by (auto simp: doomed_def)
  show ?thesis
    unfolding kept unfolding split(1)
    using pre at_n v tomb by (auto simp: newest_seen_append val_def split: sum.split option.split)
qed

lemma sees_cong:
  assumes "\<And>k. get (keyspace_of TransactionRecord) (transaction_record_encode k)
      = get' (keyspace_of TransactionRecord) (transaction_record_encode k)"
    and "\<And>k. get (keyspace_of AcrossPart) (across_part_encode k)
      = get' (keyspace_of AcrossPart) (across_part_encode k)"
  shows "sees get asks rd d p = sees get' asks rd d p"
proof -
  have "holds_every_part get rd t ps = holds_every_part get' rd t ps" for t ps
    using assms(2) by (induction ps) (simp_all add: part_landed_def get_decoded_def cong: if_cong)
  then have "seen_now get asks rd p = seen_now get' asks rd p"
    using assms(1)
    by (simp add: seen_now_def get_transaction_record_def get_decoded_def cong: if_cong option.case_cong)
  then show ?thesis by (simp add: sees_def cong: option.case_cong)
qed

lemma passes_over_cong:
  assumes "\<And>k. get (keyspace_of TransactionRecord) (transaction_record_encode k)
      = get' (keyspace_of TransactionRecord) (transaction_record_encode k)"
    and "\<And>k. get (keyspace_of AcrossPart) (across_part_encode k)
      = get' (keyspace_of AcrossPart) (across_part_encode k)"
  shows "passes_over get asks rd = passes_over get' asks rd"
proof -
  have "sees get asks rd d p = sees get' asks rd d p" for d p using assms by (rule sees_cong)
  then show ?thesis by (simp add: fun_eq_iff passes_over_def cong: option.case_cong)
qed

lemma address_of_key_at [simp]: "address_of (key_at a n) = a" "rk_version (key_at a n) = n"
  by (simp_all add: address_of_def key_at_def)

lemma in_table_key_at:
  "in_table ns db tb (key_at a n) \<longleftrightarrow> ra_namespace a = ns \<and> ra_database a = db \<and> ra_table a = tb"
  by (simp add: in_table_def key_at_def)

lemma sorted_down_unique:
  fixes xs ys :: "'a::linorder list"
  assumes "sorted_wrt (>) xs" "sorted_wrt (>) ys" "set xs = set ys"
  shows "xs = ys"
  using assms strict_sorted_equal [of "rev xs" "rev ys"] by (simp add: sorted_wrt_rev)

lemma without_doomed_wf: "versions_wf V \<Longrightarrow> versions_wf (without_doomed V fl ns db tb)"
  by (auto simp: versions_wf_def without_doomed_def split: if_splits)

context kv_backend
begin

lemma read_as_of_list:
  assumes "ok s" "maps s DATA = data_of V" "versions_wf V" "record_id_wf (ra_id a)"
    and "sorted_wrt (>) vs" "set vs = {n. n \<le> at \<and> V (key_at a n) \<noteq> None}"
  shows "read_stamped_as_of (scan_b s) passes d a at
    = Some (newest_seen passes d (map (\<lambda>n. (n, the (V (key_at a n)))) vs))"
proof -
  obtain ws where ws: "read_stamped_as_of (scan_b s) passes d a at
      = Some (newest_seen passes d (map (\<lambda>n. (n, the (V (key_at a n)))) ws))"
    "sorted_wrt (>) ws" "set ws = {n. n \<le> at \<and> V (key_at a n) \<noteq> None}"
    using read_as_of_newest_seen [OF assms(1-4)] by blast
  then have "ws = vs" using assms(5,6) by (intro sorted_down_unique) simp_all
  then show ?thesis using ws(1) by simp
qed

text \<open>A pass either changes nothing, or removes exactly the doomed versions and raises
the floor, in one batch.\<close>

lemma reclaim_pass_result:
  assumes s: "ok s" "maps s DATA = data_of V" "versions_wf V"
    and t: "reclaim_pass get_b scan_b apply_b fl ns db tb s = (t, r)"
  obtains (nothing) "t = s" "(\<exists>e. r = Inl e \<and> reclaim_floor (get_b s) = Inl e)
      \<or> (\<exists>rc. r = Inr rc \<and> rc_versions rc = 0 \<and> data_of (without_doomed V fl ns db tb) = data_of V)"
  | (removes) standing rc where "r = Inr rc" "0 < rc_versions rc" "ok t"
      "reclaim_floor (get_b s) = Inr standing"
      "maps t DATA = data_of (without_doomed V fl ns db tb)"
      "maps t META = (maps s META)([tag ReclaimFloor] \<mapsto> sequence_encode (max standing fl))"
      "\<And>ks. ks \<noteq> DATA \<Longrightarrow> ks \<noteq> META \<Longrightarrow> maps t ks = maps s ks"
proof -
  have fin: "finite (dom (data_of V))" using finite_maps [OF s(1), of DATA] s(2) by simp
  obtain ks where ks: "rows V ns db tb ks"
    "pairs_in (data_of V) (key_range_prefix (record_table_prefix ns db tb)) = map (row_pair V) ks"
    using table_rows [OF fin] by blast
  let ?D = "filter (\<lambda>k. doomed V fl (address_of k) (rk_version k)) ks"
  let ?dels = "map (\<lambda>k. Delete DATA (record_key_encode k)) ?D"
  have "rows V ns db tb ([] @ ks)" using ks(1) by simp
  from reclaim_loop_rows [OF s(3) this pass_knows_new]
  obtain p where p: "reclaim_loop fl (pass_new fl) (map (row_pair V) ks) = Inr p"
    "ops (p_batch p) = ?dels" "preconditions (p_batch p) = []"
    "rc_versions (p_removed p) = foldl saturating_add 0 (map (\<lambda>_. 1) ?D)"
    by (auto simp: pass_new_def batch_new_def)
  have scan: "scan_b s \<lparr>req_keyspace = DATA,
      req_range = key_range_prefix (record_table_prefix ns db tb),
      req_direction = Forward, req_limit = None\<rparr> = Inr (map (row_pair V) ks)"
    by (subst scan_law [OF s(1)]) (simp_all add: range_ok_prefix scan_answer_def s(2) ks(2))
  have zero: "rc_versions (p_removed p) = 0 \<longleftrightarrow> ?D = []"
    unfolding p(4) foldl_saturating_ones by simp
  note dels = doomed_deletes [OF ks(1), of "maps s", OF s(2), of fl]
  show thesis
  proof (cases "?D = []")
    case True
    then have "data_of (without_doomed V fl ns db tb) = data_of V" using dels s(2) by simp
    moreover have "t = s" "r = Inr (p_removed p)"
      using True zero t by (simp_all add: reclaim_pass_def scan p(1) Let_def)
    ultimately show thesis using True zero that(1) by auto
  next
    case False
    then have pos: "0 < rc_versions (p_removed p)" using zero by simp
    show thesis
    proof (cases "reclaim_floor (get_b s)")
      case (Inl e)
      then have "t = s" "r = Inl e"
        using pos t by (simp_all add: reclaim_pass_def scan p(1) Let_def)
      then show thesis using that(1) Inl by auto
    next
      case (Inr standing)
      let ?b = "batch_put (keyspace_of ReclaimFloor) (singleton_encode ReclaimFloor ())
        (sequence_encode (max standing fl)) (p_batch p)"
      have b: "preconditions ?b = []"
        "ops ?b = ?dels @ [Put META [tag ReclaimFloor] (sequence_encode (max standing fl))]"
        using p(2,3) by (simp_all add: batch_put_def singleton_encode_def)
      obtain t' where t': "apply_b s ?b = (t', Inr ())" "ok t'" "maps t' = map_ops (ops ?b) (maps s)"
        using apply_lands [OF s(1), of ?b] b(1) by auto
      have tr: "t = t'" "r = Inr (p_removed p)"
        using t pos t'(1) Inr by (simp_all add: reclaim_pass_def scan p(1) Let_def)
      have m: "maps t = (map_ops ?dels (maps s))
          (META := (map_ops ?dels (maps s) META)([tag ReclaimFloor] \<mapsto> sequence_encode (max standing fl)))"
        using tr(1) t'(3) b(2) by (simp add: map_ops_append)
      have other: "map_ops ?dels (maps s) ks = maps s ks" if "ks \<noteq> DATA" for ks
        using that by (intro map_ops_other) auto
      show thesis
      proof (rule removes)
        show "maps t DATA = data_of (without_doomed V fl ns db tb)" using m dels by simp
      qed (use tr pos t' Inr m other in simp_all)
    qed
  qed
qed

text \<open>A reader at or above the floor reads after the pass what it read before it.\<close>

lemma reclaim_pass_read:
  assumes s: "ok s" "maps s DATA = data_of V" "versions_wf V" and a: "record_id_wf (ra_id a)"
    and t: "reclaim_pass get_b scan_b apply_b fl ns db tb s = (t, r)"
    and fl: "fl \<le> at" and tops: "intents_on_top V a"
  shows "\<exists>d' res res'.
    read_stamped_as_of (scan_b s) (passes_over (get_b s) asks rd) d a at = Some (d', res)
    \<and> read_stamped_as_of (scan_b t) (passes_over (get_b t) asks rd) d a at = Some (d', res')
    \<and> shown res' = shown res"
proof -
  let ?pass = "passes_over (get_b s) asks rd" and ?V = "without_doomed V fl ns db tb"
  obtain vs where vs: "read_stamped_as_of (scan_b s) ?pass d a at
      = Some (newest_seen ?pass d (map (\<lambda>n. (n, the (V (key_at a n)))) vs))"
    "sorted_wrt (>) vs" "set vs = {n. n \<le> at \<and> V (key_at a n) \<noteq> None}"
    using read_as_of_newest_seen [OF s a] by blast
  show ?thesis
    using s(1-3) t
  proof (cases rule: reclaim_pass_result)
    case nothing
    then show ?thesis using vs(1) by (cases "newest_seen ?pass d (map (\<lambda>n. (n, the (V (key_at a n)))) vs)") auto
  next
    case (removes standing rc)
    have "maps t META (transaction_record_encode k) = maps s META (transaction_record_encode k)"
      "maps t META (across_part_encode j) = maps s META (across_part_encode j)" for k j
      using removes(6) by (simp_all add: transaction_record_bytes across_part_bytes)
    then have pass: "passes_over (get_b t) asks rd = ?pass"
      by (intro passes_over_cong) (simp_all add: get_law s(1) removes(3))
    obtain ws where ws: "read_stamped_as_of (scan_b t) ?pass d a at
        = Some (newest_seen ?pass d (map (\<lambda>n. (n, the (?V (key_at a n)))) ws))"
      "sorted_wrt (>) ws" "set ws = {n. n \<le> at \<and> ?V (key_at a n) \<noteq> None}"
      using read_as_of_newest_seen [OF removes(3,5) without_doomed_wf [OF s(3)] a] by blast
    let ?gone = "\<lambda>n. in_table ns db tb (key_at a n) \<and> doomed V fl a n"
    have V: "?V (key_at a n) = (if ?gone n then None else V (key_at a n))" for n
      by (simp add: without_doomed_def)
    have "ws = filter (\<lambda>n. \<not> ?gone n) vs"
      using ws(2,3) vs(2,3) V by (intro sorted_down_unique) (auto simp: sorted_wrt_filter)
    then have "map (\<lambda>n. (n, the (?V (key_at a n)))) ws
        = map (\<lambda>n. (n, the (V (key_at a n)))) (filter (\<lambda>n. \<not> ?gone n) vs)"
      using V by simp
    moreover have "in_table ns db tb (key_at a n) \<longleftrightarrow> in_table ns db tb (key_at a 0)" for n
      by (simp add: in_table_def key_at_def)
    then have "filter (\<lambda>n. \<not> ?gone n) vs
        = (if in_table ns db tb (key_at a 0) then filter (\<lambda>n. \<not> doomed V fl a n) vs else vs)"
      by auto
    ultimately show ?thesis
      using newest_seen_without_doomed [OF vs(2,3) fl tops reads_plain_passes_over, of "get_b s" asks rd d]
      by (cases "newest_seen ?pass d (map (\<lambda>n. (n, the (V (key_at a n)))) vs)")
        (auto simp: vs(1) ws(1) pass split: if_splits)
  qed
qed

end

lemma sequence_round_trip: "sequence_decode (sequence_encode n) = Inr n"
  by (simp add: sequence_decode_def sequence_encode_def split_header_with)

lemma retention_floor_le:
  assumes "registry_ok reg" "(sl, at) \<in># live reg"
  shows "retention_floor reg landed \<le> at"
proof -
  have "live reg \<noteq> {#}" using assms(2) by auto
  moreover have "Min (snd ` set_mset (live reg)) \<le> at" using assms(2) by (intro Min_le) force+
  ultimately show ?thesis by (simp add: retention_floor_def oldest_live [OF assms(1)])
qed

lemma snapshot_read_exists:
  assumes "memory_ok s" "memory_maps s DATA = data_of V" "versions_wf V" "record_id_wf (ra_id a)"
  shows "\<exists>d' res. read_stamped_as_of (memory_scan s) passes d a at = Some (d', res)"
proof -
  obtain vs where vs: "read_stamped_as_of (memory_scan s) passes d a at
      = Some (newest_seen passes d (map (\<lambda>n. (n, the (V (key_at a n)))) vs))"
    using memory.read_as_of_newest_seen [OF assms] by blast
  show ?thesis unfolding vs by (cases "newest_seen passes d (map (\<lambda>n. (n, the (V (key_at a n)))) vs)") simp
qed

text \<open>The store a batch of versions of one record leaves, with operations on other
keyspaces after them.\<close>

fun put_versions ::
  "record_address \<Rightarrow> (sequence \<times> stamped_value) list \<Rightarrow> (record_key \<rightharpoonup> stamped_value)
    \<Rightarrow> record_key \<rightharpoonup> stamped_value" where
  "put_versions a [] V = V"
| "put_versions a ((n, v) # vs) V = put_versions a vs (V(key_at a n \<mapsto> v))"

definition versions_batch ::
  "record_address \<Rightarrow> (sequence \<times> stamped_value) list \<Rightarrow> write_op list \<Rightarrow> write_batch" where
  "versions_batch a vs os = \<lparr>preconditions = [],
     ops = map (\<lambda>(n, v). Put DATA (record_key_encode (key_at a n)) (stamped_encode v)) vs @ os\<rparr>"

lemma put_versions_wf:
  "versions_wf V \<Longrightarrow> list_all (\<lambda>(_, v). stamped_wf v \<and> as_written v = v) vs \<Longrightarrow>
    versions_wf (put_versions a vs V)"
proof (induction vs arbitrary: V)
  case (Cons x vs)
  obtain n v where x: "x = (n, v)" by (cases x)
  have "versions_wf (V(key_at a n \<mapsto> v))" using Cons.prems x by (simp add: versions_wf_def)
  then show ?case using Cons.IH Cons.prems(2) x by simp
qed simp

lemma put_versions_ops:
  assumes "record_id_wf (ra_id a)" "m DATA = data_of V"
  shows "map_ops (map (\<lambda>(n, v). Put DATA (record_key_encode (key_at a n)) (stamped_encode v)) vs) m DATA
    = data_of (put_versions a vs V)"
proof -
  have wf: "record_key_wf (key_at a n)" for n using assms(1) by (simp add: key_at_def record_key_wf_def)
  show ?thesis using assms(2)
  proof (induction vs arbitrary: m V)
    case (Cons x vs)
    obtain n v where x: "x = (n, v)" by (cases x)
    have "map_op m (Put DATA (record_key_encode (key_at a n)) (stamped_encode v)) DATA
        = data_of (V(key_at a n \<mapsto> v))"
      using Cons.prems by (simp add: data_of_update [OF wf])
    then have "map_ops (map (\<lambda>(n, v). Put DATA (record_key_encode (key_at a n)) (stamped_encode v)) vs)
        (map_op m (Put DATA (record_key_encode (key_at a n)) (stamped_encode v))) DATA
      = data_of (put_versions a vs (V(key_at a n \<mapsto> v)))" by (rule Cons.IH)
    then show ?case by (simp add: x)
  qed simp
qed

lemma versions_batch_store:
  assumes a: "record_id_wf (ra_id a)" and vs: "list_all (\<lambda>(_, v). stamped_wf v \<and> as_written v = v) vs"
    and os: "DATA \<notin> op_keyspace ` set os"
  obtains s where "memory_apply memory_new (versions_batch a vs os) = (s, Inr ())" "memory_ok s"
    "memory_maps s DATA = data_of (put_versions a vs Map.empty)"
    "versions_wf (put_versions a vs Map.empty)"
    "memory_maps s META = map_ops os (\<lambda>_. Map.empty) META"
proof -
  let ?puts = "map (\<lambda>(n, v). Put DATA (record_key_encode (key_at a n)) (stamped_encode v)) vs"
  obtain s where s: "memory_apply memory_new (versions_batch a vs os) = (s, Inr ())"
    using memory_apply_cases [OF memory_ok_new, of "versions_batch a vs os"]
    by (auto simp: versions_batch_def)
  note t = memory_apply_maps [OF memory_ok_new s]
  have "memory_maps memory_new DATA = data_of Map.empty"
    by (simp add: memory_maps_new data_of_def fun_eq_iff split: sum.splits)
  then have "memory_maps s DATA = data_of (put_versions a vs Map.empty)"
    using t(2) os by (simp add: versions_batch_def map_ops_append map_ops_other put_versions_ops [OF a])
  moreover have "map_ops ?puts (memory_maps memory_new) META = Map.empty"
    by (subst map_ops_other) (auto simp: memory_maps_new)
  then have "map_ops os (map_ops ?puts (memory_maps memory_new)) META = map_ops os (\<lambda>_. Map.empty) META"
    by (intro map_ops_keyspace_cong) simp
  then have "memory_maps s META = map_ops os (\<lambda>_. Map.empty) META"
    using t(2) by (simp add: versions_batch_def map_ops_append)
  moreover have "versions_wf (put_versions a vs Map.empty)"
    using vs by (intro put_versions_wf) (simp_all add: versions_wf_def)
  ultimately show thesis using that [OF s t(1)] by blast
qed

text \<open>The values the witnesses below are evaluated at.\<close>

definition example_address :: record_address where
  "example_address = \<lparr>ra_namespace = 1, ra_database = 1, ra_table = 1, ra_id = IdInt 1\<rparr>"

definition example_reader :: reader where
  "example_reader = \<lparr>snapshot = 7, resolving = None, asks_leaders = False, served = None\<rparr>"

definition example_intent :: provenance where
  "example_intent = \<lparr>prov_transaction = replicate 16 1, provisional = True, coordinator = Store,
     prov_participants = []\<rparr>"

lemma example_address_wf: "record_id_wf (ra_id example_address)"
  by (simp add: example_address_def)

lemma example_key:
  "record_key_decode (record_key_encode (key_at example_address n)) = Inr (key_at example_address n)"
  by (intro record_keys.round_trip) (simp add: key_at_def record_key_wf_def example_address_wf)

lemma example_version:
  "stamped_wf (stamped_new v) \<and> as_written (stamped_new v) = stamped_new v"
  by (cases v) (simp_all add: stamped_wf_def stamp_wf_def fields_wf_def stamped_new_def stamp_new_def
      as_written_def expires_def field_expiry_def)

lemma example_intent_version:
  "stamped_wf (from_transaction example_intent (stamped_new v))
    \<and> as_written (from_transaction example_intent (stamped_new v))
      = from_transaction example_intent (stamped_new v)"
  by (cases v) (simp_all add: stamped_wf_def stamp_wf_def fields_wf_def stamped_new_def stamp_new_def
      as_written_def expires_def field_expiry_def from_transaction_def example_intent_def
      provenance_wf_def transaction_wf_def TRANSACTION_ID_LEN_def participants_wf_def width_def)

section \<open>Properties\<close>

text \<open>C20: reclaiming a table is invisible to every reader that is live, for a record none of
whose plain versions stands over an intent: a reader registered at a snapshot reads it
after the pass, whether that landed or failed, as it read it before, and decides the
same of every transaction across leaders. Where nobody is registered the same holds of
a reader that begins at the newest version landed. Of a record rewritten over an
intent it does not hold (\<open>reclaim_uncovers_intent\<close> below).\<close>

theorem reclaim_keeps_live_reads:
  assumes "memory_ok s" "memory_maps s DATA = data_of V" "versions_wf V" "record_id_wf (ra_id a)"
    and "registry_ok reg" "(sl, at) \<in># live reg \<or> live reg = {#} \<and> landed \<le> at"
    and "reclaim_pass memory_get memory_scan memory_apply (retention_floor reg landed) ns db tb s = (t, r)"
    and "intents_on_top V a"
  shows "\<exists>d' res res'.
    read_stamped_as_of (memory_scan s) (passes_over (memory_get s) asks rd) d a at = Some (d', res)
    \<and> read_stamped_as_of (memory_scan t) (passes_over (memory_get t) asks rd) d a at = Some (d', res')
    \<and> shown res' = shown res"
proof -
  have "retention_floor reg landed \<le> at"
    using assms(5,6) retention_floor_le [OF assms(5)]
    by (auto simp: retention_floor_def oldest_live)
  then show ?thesis using memory.reclaim_pass_read [OF assms(1-4,7) _ assms(8)] by blast
qed

theorem reclaim_keeps_live_reads_witness:
  "\<exists>s t r d' res res'.
    memory_apply memory_new (versions_batch example_address
      [(3, stamped_new (Present [8])), (5, stamped_new (Present [9]))] []) = (s, Inr ())
    \<and> reclaim_pass memory_get memory_scan memory_apply
        (retention_floor (register_in 2 0 7 registry_default) 0) 1 1 1 s = (t, r)
    \<and> read_stamped_as_of (memory_scan s) (passes_over (memory_get s) (\<lambda>_ _. None) example_reader)
        Map.empty example_address 7 = Some (d', res)
    \<and> read_stamped_as_of (memory_scan t) (passes_over (memory_get t) (\<lambda>_ _. None) example_reader)
        Map.empty example_address 7 = Some (d', res')
    \<and> shown res' = shown res"
proof -
  let ?vs = "[(3, stamped_new (Present [8])), (5, stamped_new (Present [9]))]"
  let ?V = "put_versions example_address ?vs Map.empty"
  have wf: "list_all (\<lambda>(_, v). stamped_wf v \<and> as_written v = v) ?vs" by (simp add: example_version)
  obtain s where s: "memory_apply memory_new (versions_batch example_address ?vs []) = (s, Inr ())"
    "memory_ok s" "memory_maps s DATA = data_of ?V" "versions_wf ?V"
    using versions_batch_store [OF example_address_wf wf, of "[]"] by auto
  obtain t r where t: "reclaim_pass memory_get memory_scan memory_apply
      (retention_floor (register_in 2 0 7 registry_default) 0) 1 1 1 s = (t, r)" by fastforce
  have reg: "registry_ok (register_in 2 0 7 registry_default)"
    "(2, 7) \<in># live (register_in 2 0 7 registry_default)"
    using live_register [OF registry_ok_default, of 2 7 0]
    by (simp_all add: SHARDS_def live_default u64_max_def)
  have "intents_on_top ?V example_address"
    by (simp add: intents_on_top_def is_intent_def stamped_new_def)
  from reclaim_keeps_live_reads [OF s(2-4) example_address_wf reg(1) _ t this, of 2 7] s(1) t reg(2)
  show ?thesis by blast
qed

text \<open>C21: a read at a named version is answered exactly or refused.  When the store still
admits a version after a pass at whatever floor, reading there a record none of whose
plain versions stands over an intent answers what it answered before the pass.  A pass
that removed anything left a floor at or above its own, below which every version is
refused; and a version past the newest committed one is refused after the pass, as from
the future, unless it is refused for the floor or the floor cannot be read.\<close>

theorem admitted_version_reads_exactly:
  assumes "memory_ok s" "memory_maps s DATA = data_of V" "versions_wf V" "record_id_wf (ra_id a)"
    and t: "reclaim_pass memory_get memory_scan memory_apply fl ns db tb s = (t, r)"
    and "intents_on_top V a"
  shows "(begin_at (memory_get t) at = Inr at \<longrightarrow> (\<exists>d' res res'.
    read_stamped_as_of (memory_scan s) (passes_over (memory_get s) asks rd) d a at = Some (d', res)
    \<and> read_stamped_as_of (memory_scan t) (passes_over (memory_get t) asks rd) d a at = Some (d', res')
    \<and> shown res' = shown res))
    \<and> (\<forall>rc. r = Inr rc \<longrightarrow> 0 < rc_versions rc \<longrightarrow> at < fl \<longrightarrow>
        (\<exists>raised \<ge> fl. begin_at (memory_get t) at = Inl (VersionReclaimed at raised)))
    \<and> (\<forall>tail. committed_version (memory_get s) = Inr tail \<longrightarrow> tail < at \<longrightarrow>
        begin_at (memory_get t) at =
          (case reclaim_floor (memory_get t) of
             Inl e \<Rightarrow> Inl (ReadFailed e)
           | Inr floor \<Rightarrow> if at < floor then Inl (VersionReclaimed at floor) else Inl (VersionInTheFuture at tail)))"
  using assms(1-3) t
proof (cases rule: memory.reclaim_pass_result)
  case nothing
  then show ?thesis
    using snapshot_read_exists [OF assms(1-4), of "passes_over (memory_get s) asks rd" d at]
    by (auto simp: begin_at_def split: sum.split)
next
  case (removes standing rc)
  have "memory_get t META [tag ReclaimFloor] = Inr (Some (sequence_encode (max standing fl)))"
    by (simp add: memory_get_map [OF removes(3)] removes(6))
  then have fl: "reclaim_floor (memory_get t) = Inr (max standing fl)"
    by (simp add: reclaim_floor_def get_decoded_def singleton_encode_def sequence_round_trip)
  have "fl \<le> at" if "begin_at (memory_get t) at = Inr at"
    using that by (auto simp: begin_at_def fl not_less split: if_splits)
  moreover have "begin_at (memory_get t) at = Inl (VersionReclaimed at (max standing fl))" if "at < fl"
    using that by (simp add: begin_at_def fl less_max_iff_disj)
  moreover have "committed_version (memory_get t) = committed_version (memory_get s)"
    by (simp add: committed_version_def get_decoded_def memory_get_map removes(3,6) assms(1) singleton_encode_def)
  then have "begin_at (memory_get t) at = (case reclaim_floor (memory_get t) of
      Inl e \<Rightarrow> Inl (ReadFailed e)
    | Inr floor \<Rightarrow> if at < floor then Inl (VersionReclaimed at floor) else Inl (VersionInTheFuture at tail))"
    if "committed_version (memory_get s) = Inr tail" "tail < at" for tail
    using that by (simp add: begin_at_def split: sum.split)
  ultimately show ?thesis
    using memory.reclaim_pass_read [OF assms(1-4) t _ assms(6)] by (metis (no_types, lifting) max.cobounded2)
qed

theorem admitted_version_reads_exactly_witness:
  "\<exists>s t rc raised.
    memory_apply memory_new (versions_batch example_address
      [(3, stamped_new (Present [8])), (5, stamped_new (Present [9]))] []) = (s, Inr ())
    \<and> reclaim_pass memory_get memory_scan memory_apply 6 1 1 1 s = (t, Inr rc)
    \<and> begin_at (memory_get t) 4 = Inl (VersionReclaimed 4 raised)"
proof -
  let ?vs = "[(3, stamped_new (Present [8])), (5, stamped_new (Present [9]))]"
  let ?V = "put_versions example_address ?vs Map.empty" and ?a = example_address
  have wf: "list_all (\<lambda>(_, v). stamped_wf v \<and> as_written v = v) ?vs" by (simp add: example_version)
  obtain s where s: "memory_apply memory_new (versions_batch ?a ?vs []) = (s, Inr ())"
    "memory_ok s" "memory_maps s DATA = data_of ?V" "versions_wf ?V" "memory_maps s META = Map.empty"
    using versions_batch_store [OF example_address_wf wf, of "[]"] by auto
  obtain t r where t: "reclaim_pass memory_get memory_scan memory_apply 6 1 1 1 s = (t, r)" by fastforce
  have tops: "intents_on_top ?V ?a" by (simp add: intents_on_top_def is_intent_def stamped_new_def)
  have V5: "plain_at ?V ?a 5" and V3: "?V (key_at ?a 3) = Some (stamped_new (Present [8]))"
    by (simp_all add: plain_at_def key_at_def stamped_new_def)
  have d: "doomed ?V 6 ?a 3"
    using V3 V5 by (auto simp: doomed_def is_intent_def stamped_new_def intro!: exI [of _ 5])
  have "reclaim_floor (memory_get s) = Inr 0"
    by (simp add: reclaim_floor_def get_decoded_def memory_get_map s(2,5))
  moreover have "data_of (without_doomed ?V 6 1 1 1) (record_key_encode (key_at ?a 3))
      \<noteq> data_of ?V (record_key_encode (key_at ?a 3))"
    using d V3 example_key
    by (simp add: data_of_def without_doomed_def in_table_key_at example_address_def)
  ultimately have "\<exists>rc. r = Inr rc \<and> 0 < rc_versions rc"
    by (cases rule: memory.reclaim_pass_result [OF s(2-4) t]) auto
  then show ?thesis
    using admitted_version_reads_exactly [OF s(2-4) example_address_wf t tops, of 4
        "\<lambda>_ _. None" example_reader Map.empty] s(1) t by auto
qed

text \<open>An intent left under a deletion is not removed with it: when the only versions
of a record are a deletion at or below the floor and an older intent that readers
see, the pass takes the deletion and keeps the intent, so a reader above the floor
to whom the record was gone reads the intent's value afterwards.\<close>

theorem reclaim_uncovers_intent:
  assumes s: "memory_ok s" "memory_maps s DATA = data_of V" "versions_wf V" and a: "record_id_wf (ra_id a)"
    and V: "\<And>k. V (key_at a k) = (if k = n then Some v else if k = m then Some w else None)"
    and v: "sv_provenance v = None" "sv_value v = Tombstone" and w: "is_intent w" "sv_value w \<noteq> Tombstone"
    and order: "m < n" "n \<le> fl" "fl \<le> at"
    and sees: "passes_over (memory_get s) asks rd d w = (d', Inr False)"
    and floor: "reclaim_floor (memory_get s) = Inr standing"
    and t: "reclaim_pass memory_get memory_scan memory_apply fl (ra_namespace a) (ra_database a)
      (ra_table a) s = (t, r)"
  shows "read_stamped_as_of (memory_scan s) (passes_over (memory_get s) asks rd) d a at
      = Some (d, Inr (Some (n, v)))
    \<and> read_stamped_as_of (memory_scan t) (passes_over (memory_get t) asks rd) d a at
      = Some (d', Inr (Some (m, w)))"
proof
  let ?V = "without_doomed V fl (ra_namespace a) (ra_database a) (ra_table a)"
  let ?pass = "passes_over (memory_get s) asks rd"
  have le: "n \<le> at" "m \<le> at" using order by auto
  have plain: "plain_at V a k \<longleftrightarrow> k = n" "\<not> resolved_at V a k" for k
    using V v w order(1) by (auto simp: plain_at_def resolved_at_def is_intent_def split: option.splits)
  have dn: "doomed V fl a n" and dm: "\<not> doomed V fl a m"
    using V v w order plain by (auto simp: doomed_def is_intent_def)
  have V': "?V (key_at a k) = (if k = m then Some w else None)" for k
    using V dn dm order(1) by (auto simp: without_doomed_def in_table_key_at)
  have at_v: "newest_seen ?pass d [(n, v), (m, w)] = (d, Inr (Some (n, v)))"
    using v by (simp add: passes_over_def)
  have "set [n, m] = {k. k \<le> at \<and> V (key_at a k) \<noteq> None}" using le V by auto
  from memory.read_as_of_list [OF s a _ this]
  show "read_stamped_as_of (memory_scan s) ?pass d a at = Some (d, Inr (Some (n, v)))"
    using order(1) V at_v by (auto simp del: newest_seen.simps)
  have at_w: "newest_seen ?pass d [(m, w)] = (d', Inr (Some (m, w)))" using sees by simp
  have ws: "set [m] = {k. k \<le> at \<and> ?V (key_at a k) \<noteq> None}" using le V' by auto
  show "read_stamped_as_of (memory_scan t) (passes_over (memory_get t) asks rd) d a at
      = Some (d', Inr (Some (m, w)))"
    using s t
  proof (cases rule: memory.reclaim_pass_result)
    case nothing
    then have "data_of ?V (record_key_encode (key_at a n)) = data_of V (record_key_encode (key_at a n))"
      using floor by auto
    moreover have "record_key_decode (record_key_encode (key_at a n)) = Inr (key_at a n)"
      using a by (intro record_keys.round_trip) (simp add: key_at_def record_key_wf_def)
    ultimately show ?thesis using V' V order(1) by (auto simp: data_of_def split: if_splits)
  next
    case (removes standing rc)
    have pass: "passes_over (memory_get t) asks rd = ?pass"
      by (intro passes_over_cong)
        (simp_all add: memory_get_map s(1) removes(3,6) transaction_record_bytes across_part_bytes)
    show ?thesis
      using memory.read_as_of_list [OF removes(3,5) without_doomed_wf [OF s(3)] a _ ws, of ?pass d] at_w V'
      by (simp add: pass)
  qed
qed

end
