(* ===== verification/Apply.thy ===== *)
theory Apply
  imports Intents Reclaim
begin

text \<open>The one path by which the state of a store changes: applying a log record (log.rs
and store/apply.rs of tessari-storage).  The batch of a record asserts the
position of its log and the version it moves; a record at a held position is a
retry or a divergence, one past the next a gap.  The pieces that are not modelled
are arguments: the schema check, what a record derives beyond its versions and
intents (indexes, adjacency, counts, expiry, topics), and whether a range admits
two writers.  A commit takes its turn before this path runs, so nothing is staged
beside it.\<close>

section \<open>The batch of a record\<close>

definition saturating_pred :: "u64 \<Rightarrow> u64" where
  "saturating_pred n = (if n = 0 then 0 else n - 1)"

definition saturating_next :: "u64 \<Rightarrow> u64" where
  "saturating_next n = (if n = - 1 then - 1 else n + 1)"

definition put_mutation_version :: "sequence \<Rightarrow> write_batch \<Rightarrow> mutation \<Rightarrow> write_batch" where
  "put_mutation_version version b m =
    (let key = \<lparr>rk_namespace = mu_namespace m, rk_database = mu_database m, rk_table = mu_table m,
           rk_id = mu_id m, rk_version = version\<rparr>;
         b = batch_put (keyspace_of Record) (record_key_encode key) (stamped_encode (mu_value m)) b
     in case sv_provenance (mu_value m) of
          Some p \<Rightarrow>
            if provisional p then b
            else batch_put (keyspace_of ResolvedOf)
              (resolved_of_encode (intent_key_of (prov_transaction p) m)) (sequence_encode version) b
        | None \<Rightarrow> b)"

definition put_records :: "write_batch \<Rightarrow> sequence \<Rightarrow> log_record \<Rightarrow> write_batch" where
  "put_records b version r =
    (if \<not> writes_versions r then b else foldl (put_mutation_version version) b (mutations r))"

definition version_key :: bytes where
  "version_key = singleton_encode VersionPosition ()"

definition apply_batch :: "log_id \<Rightarrow> sequence \<Rightarrow> sequence \<Rightarrow> log_record \<Rightarrow> write_batch" where
  "apply_batch log at version r =
    (let applied_key = applied_position_encode log;
         b = (if at = 1 then expect_absent (keyspace_of AppliedPosition) applied_key batch_new
              else expect_value (keyspace_of AppliedPosition) applied_key
                (sequence_encode (saturating_pred at)) batch_new);
         b = batch_put (keyspace_of AppliedPosition) applied_key (sequence_encode at) b;
         b = expect_value (keyspace_of VersionPosition) version_key
               (sequence_encode (saturating_pred version)) b;
         b = batch_put (keyspace_of VersionPosition) version_key (sequence_encode version) b;
         b = batch_put (keyspace_of LogEntry)
               (log_key_encode \<lparr>lk_log = log, lk_sequence = at\<rparr>) (log_record_encode r) b
     in put_records b version r)"

definition state_batch :: "sequence \<Rightarrow> log_record \<Rightarrow> write_batch" where
  "state_batch version r =
    (let b = expect_value (keyspace_of VersionPosition) version_key
               (sequence_encode (saturating_pred version)) batch_new;
         b = batch_put (keyspace_of VersionPosition) version_key (sequence_encode version) b
     in put_records b version r)"

section \<open>Applying\<close>

datatype apply_error =
    Settling settle_error
  | Reading read_error
  | Landing kv_error
  | LogGap sequence sequence
  | LogDivergence sequence u64 u64
  | Refusing string

fun lift_settle :: "settle_error + 'a \<Rightarrow> apply_error + 'a" where
  "lift_settle (Inl e) = Inl (Settling e)"
| "lift_settle (Inr a) = Inr a"

fun lift_reading :: "read_error + 'a \<Rightarrow> apply_error + 'a" where
  "lift_reading (Inl e) = Inl (Reading e)"
| "lift_reading (Inr a) = Inr a"

text \<open>The backend of a store and the parts that are arguments.\<close>

record 's store_env =
  env_get :: "'s \<Rightarrow> get_fn"
  env_scan :: "'s \<Rightarrow> scan_fn"
  env_apply :: "'s \<Rightarrow> write_batch \<Rightarrow> 's \<times> unit kv_result"
  env_catalog :: catalog_fn
  env_served :: "reach option"
  env_validate :: "'s \<Rightarrow> log_record \<Rightarrow> apply_error + unit"
  env_derive :: "'s \<Rightarrow> log_record \<Rightarrow> write_batch \<Rightarrow> sequence \<Rightarrow> apply_error + write_batch"
  env_two_writers :: "'s \<Rightarrow> reach \<Rightarrow> apply_error + bool"

definition committed_tail :: "get_fn \<Rightarrow> log_id \<Rightarrow> read_error + sequence" where
  "committed_tail get log =
    bindR (get_decoded get (keyspace_of AppliedPosition) (applied_position_encode log) sequence_decode)
      (\<lambda>found. Inr (case found of Some s \<Rightarrow> s | None \<Rightarrow> 0))"

definition refuse_a_divergence ::
  "'s store_env \<Rightarrow> log_id \<Rightarrow> sequence \<Rightarrow> log_record \<Rightarrow> 's \<Rightarrow> apply_error + unit" where
  "refuse_a_divergence env log at r s =
    (let offered = lr_epoch r in
     bindR (lift_reading (lift_kv (env_get env s (keyspace_of LogEntry)
       (log_key_encode \<lparr>lk_log = log, lk_sequence = at\<rparr>)))) (\<lambda>stored.
     case stored of
       None \<Rightarrow> Inr ()
     | Some value \<Rightarrow>
         bindR (lift_reading (lift_enc (epoch_in value))) (\<lambda>held.
           if held = offered \<and> (0 < offered \<or> value = log_record_encode r) then Inr ()
           else
             bindR (env_two_writers env s (home log)) (\<lambda>two.
               if two then Inr () else Inl (LogDivergence at held offered)))))"

definition refuse_a_parted_history ::
  "'s store_env \<Rightarrow> log_id \<Rightarrow> sequence \<Rightarrow> u64 \<Rightarrow> 's \<Rightarrow> apply_error + unit" where
  "refuse_a_parted_history env log at previous s =
    (if at = 0 then Inr ()
     else
       (let before = at - 1 in
        if before = 0 then
          if previous = 0 then Inr () else Inl (LogDivergence before 0 previous)
        else
          bindR (lift_reading (lift_kv (env_get env s (keyspace_of LogEntry)
            (log_key_encode \<lparr>lk_log = log, lk_sequence = before\<rparr>)))) (\<lambda>stored.
          case stored of
            None \<Rightarrow> Inr ()
          | Some value \<Rightarrow>
              bindR (lift_reading (lift_enc (epoch_in value))) (\<lambda>held.
                if held = previous then Inr () else Inl (LogDivergence before held previous)))))"

definition landed_result :: "'s \<times> unit kv_result \<Rightarrow> 's \<times> (apply_error + unit)" where
  "landed_result x = (case x of (s, Inl e) \<Rightarrow> (s, Inl (Landing e)) | (s, Inr _) \<Rightarrow> (s, Inr ()))"

definition derive_and_land ::
  "'s store_env \<Rightarrow> log_record \<Rightarrow> write_batch \<Rightarrow> sequence \<Rightarrow> (log_id \<times> sequence) option \<Rightarrow> 's
    \<Rightarrow> 's \<times> (apply_error + unit)" where
  "derive_and_land env r b version written_at s =
    (case lift_settle (settle (env_get env s) (env_scan env s) (env_catalog env) (env_served env) r b
       version written_at) of
       Inl e \<Rightarrow> (s, Inl e)
     | Inr b \<Rightarrow>
         if derives_nothing r then landed_result (env_apply env s b)
         else
           (case env_derive env s r b version of
              Inl e \<Rightarrow> (s, Inl e)
            | Inr b \<Rightarrow> landed_result (env_apply env s b)))"

definition apply_at ::
  "'s store_env \<Rightarrow> log_id \<Rightarrow> sequence \<Rightarrow> log_record \<Rightarrow> 's \<Rightarrow> 's \<times> (apply_error + unit)" where
  "apply_at env log at r s =
    (case lift_reading (committed_tail (env_get env s) log) of
       Inl e \<Rightarrow> (s, Inl e)
     | Inr applied \<Rightarrow>
         if at \<le> applied then (s, refuse_a_divergence env log at r s)
         else
           (let expected = saturating_next applied in
            if at \<noteq> expected then (s, Inl (LogGap expected at))
            else
              (case env_validate env s r of
                 Inl e \<Rightarrow> (s, Inl e)
               | Inr _ \<Rightarrow>
                   (case lift_reading (committed_version (env_get env s)) of
                      Inl e \<Rightarrow> (s, Inl e)
                    | Inr newest \<Rightarrow>
                        (let version = saturating_next newest in
                         derive_and_land env r (apply_batch log at version r) version
                           (Some (log, at)) s)))))"

definition land_from_stream ::
  "'s store_env \<Rightarrow> log_id \<Rightarrow> sequence \<Rightarrow> u64 \<Rightarrow> log_record \<Rightarrow> 's \<Rightarrow> 's \<times> (apply_error + unit)" where
  "land_from_stream env log at previous r s =
    (case refuse_a_parted_history env log at previous s of
       Inl e \<Rightarrow> (s, Inl e)
     | Inr _ \<Rightarrow> apply_at env log at r s)"

definition apply_record ::
  "'s store_env \<Rightarrow> writer_id \<Rightarrow> sequence \<Rightarrow> log_record \<Rightarrow> 's \<Rightarrow> 's \<times> (apply_error + unit)" where
  "apply_record env w at r s =
    (case lift_settle (home_of (env_catalog env) r) of
       Inl e \<Rightarrow> (s, Inl e)
     | Inr h \<Rightarrow> apply_at env (log_new h w) at r s)"

section \<open>What an apply writes of a log\<close>

definition off_log :: "write_op \<Rightarrow> bool" where
  "off_log op \<longleftrightarrow> op_keyspace op \<noteq> LOG
    \<and> (op_keyspace op = META \<longrightarrow> hd (op_key op) \<noteq> tag AppliedPosition)"

definition appends :: "(write_op \<Rightarrow> bool) \<Rightarrow> write_batch \<Rightarrow> write_batch \<Rightarrow> bool" where
  "appends P b b' \<longleftrightarrow> (\<exists>os. ops b' = ops b @ os \<and> list_all P os)"

lemma appends_refl [simp]: "appends P b b"
  by (simp add: appends_def)

lemma appends_trans: "appends P b c \<Longrightarrow> appends P c d \<Longrightarrow> appends P b d"
  by (auto simp: appends_def)

lemma adds_appends: "adds P b b' \<Longrightarrow> (\<And>op. P op \<Longrightarrow> Q op) \<Longrightarrow> appends Q b b'"
  by (auto simp: adds_def appends_def list_all_iff)

lemma settle_writes_off_log: "settle_writes get a v op \<Longrightarrow> off_log op"
  by (auto simp: settle_writes_def off_log_def across_key_bytes)

lemma put_records_off_log: "appends off_log b (put_records b version r)"
proof -
  have "appends off_log b (put_mutation_version version b m)" for b m
    by (auto simp: put_mutation_version_def Let_def appends_def batch_put_def off_log_def
        resolved_of_bytes split: option.splits)
  then have "appends off_log b (foldl (put_mutation_version version) b ms)" for b ms
    by (induction ms arbitrary: b) (auto intro: appends_trans)
  then show ?thesis by (simp add: put_records_def)
qed

text \<open>What the modelled apply relies on of the pieces that are arguments: deriving appends
to the batch, and neither to a log nor to the position of one.\<close>

definition derives_off_log :: "'s store_env \<Rightarrow> bool" where
  "derives_off_log env \<longleftrightarrow>
    (\<forall>s r b v b'. env_derive env s r b v = Inr b' \<longrightarrow> appends off_log b b')"

definition log_ops :: "log_id \<Rightarrow> sequence \<Rightarrow> sequence \<Rightarrow> log_record \<Rightarrow> write_op list" where
  "log_ops log at version r =
    [Put META (applied_position_encode log) (sequence_encode at),
     Put META version_key (sequence_encode version),
     Put LOG (log_key_encode \<lparr>lk_log = log, lk_sequence = at\<rparr>) (log_record_encode r)]"

lemma apply_batch_ops:
  "\<exists>os. ops (apply_batch log at version r) = log_ops log at version r @ os \<and> list_all off_log os"
proof -
  define b where "b = batch_put (keyspace_of LogEntry)
    (log_key_encode \<lparr>lk_log = log, lk_sequence = at\<rparr>) (log_record_encode r)
    (batch_put (keyspace_of VersionPosition) version_key (sequence_encode version)
      (expect_value (keyspace_of VersionPosition) version_key (sequence_encode (saturating_pred version))
        (batch_put (keyspace_of AppliedPosition) (applied_position_encode log) (sequence_encode at)
          (if at = 1 then expect_absent (keyspace_of AppliedPosition) (applied_position_encode log) batch_new
           else expect_value (keyspace_of AppliedPosition) (applied_position_encode log)
             (sequence_encode (saturating_pred at)) batch_new))))"
  have "apply_batch log at version r = put_records b version r"
    by (simp add: apply_batch_def b_def Let_def)
  moreover have "ops b = log_ops log at version r"
    by (simp add: b_def log_ops_def batch_put_def expect_value_def expect_absent_def batch_new_def)
  ultimately show ?thesis using put_records_off_log [of b version r] by (auto simp: appends_def)
qed

lemma off_log_keeps:
  assumes "list_all off_log os"
  shows "map_ops os m LOG = m LOG"
    "hd k = tag AppliedPosition \<Longrightarrow> map_ops os m META k = m META k"
proof -
  show "map_ops os m LOG = m LOG"
    using assms by (intro map_ops_other) (auto simp: list_all_iff off_log_def)
  show "hd k = tag AppliedPosition \<Longrightarrow> map_ops os m META k = m META k"
    using assms by (intro map_ops_elsewhere) (auto simp: list_all_iff off_log_def)
qed

lemma applied_position_inject:
  "log_wf l \<Longrightarrow> log_wf l' \<Longrightarrow> applied_position_encode l = applied_position_encode l' \<longleftrightarrow> l = l'"
  by (rule applied_keys.encode_inject)

lemma log_key_inject:
  "log_wf l \<Longrightarrow> log_wf l' \<Longrightarrow> log_key_encode \<lparr>lk_log = l, lk_sequence = i\<rparr>
    = log_key_encode \<lparr>lk_log = l', lk_sequence = j\<rparr> \<longleftrightarrow> l = l' \<and> i = j"
  using log_keys.encode_inject [of "\<lparr>lk_log = l, lk_sequence = i\<rparr>" "\<lparr>lk_log = l', lk_sequence = j\<rparr>"]
  by (simp add: log_key_wf_def)

lemma lift_reading_Inr [simp]: "lift_reading x = Inr y \<longleftrightarrow> x = Inr y"
  by (cases x) simp_all

lemma lift_settle_Inr [simp]: "lift_settle x = Inr y \<longleftrightarrow> x = Inr y"
  by (cases x) simp_all

lemma saturating_next_gt: "applied < at \<Longrightarrow> saturating_next applied = at \<Longrightarrow> at = applied + 1 \<and> applied \<noteq> - 1"
  by (auto simp: saturating_next_def split: if_splits)

context kv_backend
begin

definition over :: "'s store_env \<Rightarrow> bool" where
  "over env \<longleftrightarrow> env_get env = get_b \<and> env_scan env = scan_b \<and> env_apply env = apply_b"

lemma apply_b_cases:
  assumes "ok s" "apply_b s b = (t, res)"
  shows "t = s \<and> res \<noteq> Inr () \<or> ok t \<and> res = Inr () \<and> maps t = map_ops (ops b) (maps s)"
proof (cases "\<forall>p \<in> set (preconditions b). holds_pre (maps s) p")
  case True
  then show ?thesis using apply_lands [OF assms(1), of b] assms(2) by auto
next
  case False
  then obtain p where "p \<in> set (preconditions b)" "\<not> holds_pre (maps s) p" by blast
  from apply_refuses [OF assms(1) this] show ?thesis using assms(2) by auto
qed

lemma derive_and_land_appends:
  assumes "ok s" "over env"
    and derived: "\<And>s b v b'. env_derive env s r b v = Inr b' \<Longrightarrow> appends Q b b'"
    and settled: "\<And>get a v op. settle_writes get a v op \<Longrightarrow> Q op"
    and "derive_and_land env r b version w s = (t, res)"
  shows "t = s \<and> res \<noteq> Inr () \<or> ok t \<and> res = Inr () \<and>
    (\<exists>os. list_all Q os \<and> maps t = map_ops (ops b @ os) (maps s))"
proof -
  have landed: "t = s \<and> res \<noteq> Inr () \<or> ok t \<and> res = Inr () \<and>
      (\<exists>os. list_all Q os \<and> maps t = map_ops (ops b @ os) (maps s))"
    if c: "appends Q b c" and l: "landed_result (apply_b s c) = (t, res)" for c
  proof -
    obtain u ru where u: "apply_b s c = (u, ru)" by (cases "apply_b s c")
    obtain os where "ops c = ops b @ os" "list_all Q os" using c by (auto simp: appends_def)
    then show ?thesis
      using apply_b_cases [OF assms(1) u] l u
      by (auto simp: landed_result_def split: sum.splits intro!: exI [of _ os])
  qed
  have set: "appends Q b c"
    if "settle (get_b s) (scan_b s) (env_catalog env) (env_served env) r b version w = Inr c" for c
    using settle_adds [OF that] by (cases "lr_across r") (auto intro: adds_appends settled)
  note env = assms(2) [unfolded over_def]
  show ?thesis
  proof (cases "settle (get_b s) (scan_b s) (env_catalog env) (env_served env) r b version w")
    case (Inl e)
    then show ?thesis using assms(5) env by (auto simp: derive_and_land_def)
  next
    case (Inr c)
    note c = set [OF Inr]
    show ?thesis
    proof (cases "derives_nothing r")
      case True
      then have "landed_result (apply_b s c) = (t, res)"
        using assms(5) env Inr by (simp add: derive_and_land_def)
      with c show ?thesis by (rule landed)
    next
      case False
      show ?thesis
      proof (cases "env_derive env s r c version")
        case d: (Inl e)
        then show ?thesis using assms(5) env Inr False by (auto simp: derive_and_land_def)
      next
        case d: (Inr d)
        then have "landed_result (apply_b s d) = (t, res)"
          using assms(5) env Inr False by (simp add: derive_and_land_def)
        moreover have "appends Q b d" using c derived [OF d] by (rule appends_trans)
        ultimately show ?thesis using landed by blast
      qed
    qed
  qed
qed

lemma derive_and_land_ops:
  assumes "ok s" "over env" "derives_off_log env"
    and "derive_and_land env r (apply_batch log at version r) version w s = (t, res)"
  shows "t = s \<and> res \<noteq> Inr () \<or> ok t \<and> res = Inr () \<and>
    (\<exists>os. list_all off_log os \<and> maps t = map_ops (log_ops log at version r @ os) (maps s))"
proof -
  obtain os0 where os0: "ops (apply_batch log at version r) = log_ops log at version r @ os0" "list_all off_log os0"
    using apply_batch_ops by blast
  have "t = s \<and> res \<noteq> Inr () \<or> ok t \<and> res = Inr () \<and>
    (\<exists>os. list_all off_log os \<and> maps t = map_ops (ops (apply_batch log at version r) @ os) (maps s))"
  proof (rule derive_and_land_appends [OF assms(1,2) _ _ assms(4)])
    show "appends off_log b b'" if "env_derive env s r b v = Inr b'" for s b v b'
      using assms(3) that unfolding derives_off_log_def by blast
  qed (rule settle_writes_off_log)
  then show ?thesis
  proof (elim disjE)
    assume "ok t \<and> res = Inr () \<and> (\<exists>os. list_all off_log os
      \<and> maps t = map_ops (ops (apply_batch log at version r) @ os) (maps s))"
    then obtain os where "ok t" "res = Inr ()" "list_all off_log os"
      "maps t = map_ops (log_ops log at version r @ os0 @ os) (maps s)" by (auto simp: os0(1))
    then show ?thesis using os0(2) by (auto intro!: exI [of _ "os0 @ os"])
  qed simp
qed

text \<open>An apply to a log changes nothing, or appends the next record: the position moves by
one, the log gains the entry at it, and no other log changes.\<close>

lemma apply_at_cases:
  assumes "ok s" "over env" "derives_off_log env" "log_wf log" "apply_at env log at r s = (t, res)"
  obtains (kept) "t = s"
  | (lands) applied where "ok t" "res = Inr ()" "committed_tail (get_b s) log = Inr applied"
      "at = applied + 1" "applied \<noteq> - 1"
      "maps t LOG = (maps s LOG)(log_key_encode \<lparr>lk_log = log, lk_sequence = at\<rparr> \<mapsto> log_record_encode r)"
      "\<And>l. log_wf l \<Longrightarrow> maps t META (applied_position_encode l)
        = (if l = log then Some (sequence_encode at) else maps s META (applied_position_encode l))"
proof (cases "t = s")
  case False
  obtain applied where a: "committed_tail (get_b s) log = Inr applied"
    using assms(2,5) False by (cases "committed_tail (get_b s) log") (auto simp: apply_at_def over_def)
  have at: "applied < at" "saturating_next applied = at"
    using assms(2,5) False a by (auto simp: apply_at_def over_def Let_def not_le split: if_splits)
  obtain newest where n: "committed_version (get_b s) = Inr newest"
    "derive_and_land env r (apply_batch log at (saturating_next newest) r) (saturating_next newest)
      (Some (log, at)) s = (t, res)"
    using assms(2,5) False a at
    by (auto simp: apply_at_def over_def Let_def split: if_splits sum.splits)
  obtain os where os: "ok t" "res = Inr ()" "list_all off_log os"
    "maps t = map_ops (log_ops log at (saturating_next newest) r @ os) (maps s)"
    using derive_and_land_ops [OF assms(1-3) n(2)] False by blast
  let ?m = "map_ops (log_ops log at (saturating_next newest) r) (maps s)"
  have log: "maps t LOG = (maps s LOG)(log_key_encode \<lparr>lk_log = log, lk_sequence = at\<rparr> \<mapsto> log_record_encode r)"
    using off_log_keeps(1) [OF os(3), of ?m] os(4) by (simp add: map_ops_append log_ops_def)
  have pos: "maps t META (applied_position_encode l)
      = (if l = log then Some (sequence_encode at) else maps s META (applied_position_encode l))"
    if "log_wf l" for l
    using off_log_keeps(2) [OF os(3), of "applied_position_encode l" ?m] os(4)
      applied_position_inject [OF that assms(4)]
    by (auto simp: map_ops_append log_ops_def applied_position_bytes version_key_def singleton_encode_def)
  show thesis
    using lands [OF os(1,2) a _ _ log pos] saturating_next_gt [OF at] by blast
qed (use kept in simp)

text \<open>An apply that answers without an error holds the position: it was applied before, or
the record is the entry there now.\<close>

lemma apply_at_answered:
  assumes "ok s" "over env" "derives_off_log env" "apply_at env log at r s = (t, Inr a)"
    and "committed_tail (get_b s) log = Inr applied" "\<not> at \<le> applied"
  shows "maps t LOG (log_key_encode \<lparr>lk_log = log, lk_sequence = at\<rparr>) = Some (log_record_encode r)"
proof -
  have at: "saturating_next applied = at"
    using assms(2,4-6) by (auto simp: apply_at_def over_def Let_def split: if_splits)
  obtain newest where "derive_and_land env r (apply_batch log at (saturating_next newest) r)
      (saturating_next newest) (Some (log, at)) s = (t, Inr a)"
    using assms(2,4-6) at by (auto simp: apply_at_def over_def Let_def split: if_splits sum.splits)
  from derive_and_land_ops [OF assms(1-3) this] obtain os where os: "list_all off_log os"
    "maps t = map_ops (log_ops log at (saturating_next newest) r @ os) (maps s)" by auto
  show ?thesis
    using off_log_keeps(1) [OF os(1), of "map_ops (log_ops log at (saturating_next newest) r) (maps s)"] os(2)
    by (simp add: map_ops_append log_ops_def)
qed

end

end
