(* ===== verification/Log_Run.thy ===== *)
theory Log_Run
  imports Apply
begin

text \<open>Stores that follow logs: runs of the apply path of store/apply.rs over records
offered by peers, in any order and with any repetition.  A log never has a gap and
never loses or rewrites an entry, a retry of a landed record changes nothing, and
two stores that hold one epoch at one position of a log hold the same log up to
there.\<close>

section \<open>The entries of a log\<close>

definition entry :: "store_map \<Rightarrow> log_id \<Rightarrow> sequence \<Rightarrow> bytes option" where
  "entry m log i = m LOG (log_key_encode \<lparr>lk_log = log, lk_sequence = i\<rparr>)"

definition holds_to :: "store_map \<Rightarrow> log_id \<Rightarrow> sequence \<Rightarrow> bool" where
  "holds_to m log n \<longleftrightarrow>
    m META (applied_position_encode log) = (if n = 0 then None else Some (sequence_encode n))
    \<and> (\<forall>i. entry m log i \<noteq> None \<longleftrightarrow> 0 < i \<and> i \<le> n)"

definition no_logs :: "store_map \<Rightarrow> bool" where
  "no_logs m \<longleftrightarrow> (\<forall>log. log_wf log \<longrightarrow> holds_to m log 0)"

lemma word_le_succ:
  fixes n :: u64
  assumes "n \<noteq> - 1"
  shows "i \<le> n + 1 \<longleftrightarrow> i \<le> n \<or> i = n + 1" "0 < n + 1" "\<not> n + 1 \<le> n"
proof -
  have "unat (- 1 :: u64) = 2 ^ 64 - 1" by (simp add: unsigned_minus_1_eq_mask mask_eq_exp_minus_1)
  then have "unat n \<noteq> 2 ^ 64 - 1" using assms by (metis word_unat_eq_iff)
  moreover have "unat n < 2 ^ 64" using unsigned_less [of n, where 'a = nat] by simp
  ultimately have n: "unat (n + 1) = unat n + 1" by (simp add: unat_word_ariths)
  then show "i \<le> n + 1 \<longleftrightarrow> i \<le> n \<or> i = n + 1"
    by (auto simp: word_le_nat_alt word_unat_eq_iff)
  show "0 < n + 1" "\<not> n + 1 \<le> n" using n by (simp_all add: word_less_nat_alt word_le_nat_alt)
qed

lemma holds_to_next: "holds_to m log n \<Longrightarrow> n \<noteq> - 1 \<Longrightarrow> entry m log (n + 1) = None"
  using word_le_succ(3) [of n] by (auto simp: holds_to_def)

lemma appended_entry:
  assumes "log_wf l" "log_wf log"
    and "t LOG = (s LOG)(log_key_encode \<lparr>lk_log = log, lk_sequence = at\<rparr> \<mapsto> v)"
  shows "entry t l i = (if l = log \<and> i = at then Some v else entry s l i)"
  using assms log_key_inject [of l log i at] by (auto simp: entry_def)

context kv_backend
begin

lemma committed_tail_holds:
  assumes "ok s" "holds_to (maps s) log n"
  shows "committed_tail (get_b s) log = Inr n"
  using assms
  by (simp add: committed_tail_def get_decoded_def get_law holds_to_def sequence_round_trip)

text \<open>An apply leaves a store as it was, or appends one entry to one log.\<close>

lemma apply_at_appends:
  assumes "ok s" "over env" "derives_off_log env" "log_wf log" "apply_at env log at r s = (t, res)"
    and "holds_to (maps s) log n"
  obtains (kept) "t = s"
  | (lands) "ok t" "res = Inr ()" "at = n + 1" "n \<noteq> - 1"
      "\<And>l i. log_wf l \<Longrightarrow>
        entry (maps t) l i = (if l = log \<and> i = at then Some (log_record_encode r) else entry (maps s) l i)"
      "\<And>l m. log_wf l \<Longrightarrow> holds_to (maps s) l m \<Longrightarrow> holds_to (maps t) l (if l = log then at else m)"
  using assms(1-5)
proof (cases rule: apply_at_cases)
  case kept
  then show thesis by (rule that(1))
next
  case (lands applied)
  have a: "applied = n" using lands(3) committed_tail_holds [OF assms(1,6)] by simp
  have e: "entry (maps t) l i = (if l = log \<and> i = at then Some (log_record_encode r) else entry (maps s) l i)"
    if "log_wf l" for l i
    using that assms(4) lands(6) by (rule appended_entry)
  have "holds_to (maps t) l (if l = log then at else m)" if l: "log_wf l" "holds_to (maps s) l m" for l m
  proof (cases "l = log")
    case True
    then show ?thesis
      using lands(5,7) a assms(6) e [OF assms(4)] assms(4) word_le_succ [of n] lands(4)
      by (auto simp: holds_to_def)
  next
    case False
    then show ?thesis using lands(7) e l by (auto simp: holds_to_def)
  qed
  with that(2) lands a e show thesis by metis
qed

end

section \<open>Runs over offered records\<close>

text \<open>A record offered by a peer: the log it was read from, its position, and the epoch
of the record before it.\<close>

record offer =
  of_log :: log_id
  of_at :: sequence
  of_previous :: u64
  of_record :: log_record

definition offer_wf :: "offer \<Rightarrow> bool" where
  "offer_wf x \<longleftrightarrow> log_wf (of_log x) \<and> log_record_wf (of_record x)"

definition takes :: "'s store_env \<Rightarrow> 's \<Rightarrow> offer \<Rightarrow> 's \<times> (apply_error + unit)" where
  "takes env s x = land_from_stream env (of_log x) (of_at x) (of_previous x) (of_record x) s"

text \<open>A store that follows is offered records of a set, in any order and as often as peers
care to; what it answers does not stop the run.\<close>

inductive follows :: "'s store_env \<Rightarrow> offer set \<Rightarrow> 's \<Rightarrow> 's \<Rightarrow> bool" for env offers s where
  follows_none: "follows env offers s s"
| follows_next: "follows env offers s t \<Longrightarrow> x \<in> offers \<Longrightarrow> offer_wf x \<Longrightarrow> takes env t x = (u, res) \<Longrightarrow>
    follows env offers s u"

text \<open>What the entries of a log rest on: each was offered, and the entry before it has the
epoch the offer named.\<close>

definition grounded :: "offer set \<Rightarrow> store_map \<Rightarrow> bool" where
  "grounded offers m \<longleftrightarrow> (\<forall>log i v. log_wf log \<and> entry m log i = Some v \<longrightarrow>
    (\<exists>x \<in> offers. offer_wf x \<and> of_log x = log \<and> of_at x = i \<and> v = log_record_encode (of_record x)
      \<and> (if i = 1 then of_previous x = 0
         else \<exists>u. entry m log (i - 1) = Some u \<and> epoch_in u = Inr (of_previous x))))"

definition whole_logs :: "store_map \<Rightarrow> bool" where
  "whole_logs m \<longleftrightarrow> (\<forall>log. log_wf log \<longrightarrow> (\<exists>n. holds_to m log n))"

lemma no_logs_whole: "no_logs m \<Longrightarrow> whole_logs m"
  by (auto simp: no_logs_def whole_logs_def)

lemma no_logs_grounded: "no_logs m \<Longrightarrow> grounded offers m"
  by (fastforce simp: no_logs_def grounded_def holds_to_def)

context kv_backend
begin

lemma previous_checked:
  assumes "ok s" "over env" "refuse_a_parted_history env log at previous s = Inr ()"
    and "at \<noteq> 0"
  shows "if at = 1 then previous = 0
    else entry (maps s) log (at - 1) = None
      \<or> (\<exists>u. entry (maps s) log (at - 1) = Some u \<and> epoch_in u = Inr previous)"
proof -
  have "env_get env s LOG k = Inr (maps s LOG k)" for k
    using assms(1,2) by (simp add: over_def get_law)
  then show ?thesis
    using assms(3,4)
    by (auto simp: refuse_a_parted_history_def Let_def entry_def bindR_eq_Inr split: if_splits option.splits)
qed

lemma takes_cases:
  assumes "ok s" "over env" "derives_off_log env" "offer_wf x" "takes env s x = (t, res)"
    and "holds_to (maps s) (of_log x) n"
  obtains (kept) "t = s"
  | (lands) "ok t" "of_at x = n + 1" "n \<noteq> - 1"
      "\<And>l i. log_wf l \<Longrightarrow> entry (maps t) l i =
        (if l = of_log x \<and> i = of_at x then Some (log_record_encode (of_record x)) else entry (maps s) l i)"
      "\<And>l m. log_wf l \<Longrightarrow> holds_to (maps s) l m \<Longrightarrow> holds_to (maps t) l (if l = of_log x then of_at x else m)"
      "if of_at x = 1 then of_previous x = 0
       else \<exists>u. entry (maps s) (of_log x) (of_at x - 1) = Some u \<and> epoch_in u = Inr (of_previous x)"
proof (cases "t = s")
  case False
  note wf = assms(4) [unfolded offer_wf_def]
  have p: "refuse_a_parted_history env (of_log x) (of_at x) (of_previous x) s = Inr ()"
    and a: "apply_at env (of_log x) (of_at x) (of_record x) s = (t, res)"
    using assms(5) False by (auto simp: takes_def land_from_stream_def split: sum.splits)
  from assms(1-3) wf [THEN conjunct1] a assms(6) show thesis
  proof (cases rule: apply_at_appends)
    case lands
    have pos: "0 < n + 1" using lands(4) by (rule word_le_succ)
    have "entry (maps s) (of_log x) n \<noteq> None" if "of_at x \<noteq> 1"
      using that lands(3) assms(6) by (auto simp: holds_to_def word_neq_0_conv)
    then have "if of_at x = 1 then of_previous x = 0
       else \<exists>u. entry (maps s) (of_log x) (of_at x - 1) = Some u \<and> epoch_in u = Inr (of_previous x)"
      using previous_checked [OF assms(1,2) p] lands(3) pos by auto
    with that(2) lands show thesis by blast
  qed (use False in simp)
qed (rule that(1))

lemma takes_answered:
  assumes "ok s" "over env" "derives_off_log env" "offer_wf x" "takes env s x = (t, Inr a)"
    and "holds_to (maps s) (of_log x) n" "of_at x \<noteq> 0"
  shows "entry (maps t) (of_log x) (of_at x) \<noteq> None"
proof -
  have a: "apply_at env (of_log x) (of_at x) (of_record x) s = (t, Inr a)"
    using assms(5) by (auto simp: takes_def land_from_stream_def split: sum.splits)
  note tail = committed_tail_holds [OF assms(1,6)]
  show ?thesis
  proof (cases "of_at x \<le> n")
    case True
    then have "entry (maps s) (of_log x) (of_at x) \<noteq> None"
      using assms(6,7) by (auto simp: holds_to_def word_neq_0_conv)
    moreover have "t = s" using a tail True assms(2) by (simp add: apply_at_def over_def)
    ultimately show ?thesis by simp
  next
    case False
    then show ?thesis using apply_at_answered [OF assms(1-3) a tail] by (simp add: entry_def)
  qed
qed

lemma follows_whole:
  assumes "follows env offers s t" "ok s" "over env" "derives_off_log env" "whole_logs (maps s)"
  shows "ok t \<and> whole_logs (maps t)
    \<and> (\<forall>log i. log_wf log \<longrightarrow> entry (maps s) log i \<noteq> None \<longrightarrow> entry (maps t) log i = entry (maps s) log i)"
  using assms
proof (induction rule: follows.induct)
  case (follows_next t x u res)
  then have t: "ok t" "whole_logs (maps t)" by blast+
  obtain n where n: "holds_to (maps t) (of_log x) n"
    using t(2) follows_next.hyps by (auto simp: whole_logs_def offer_wf_def)
  from t(1) follows_next.prems(2,3) follows_next.hyps(3,4) n show ?case
  proof (cases rule: takes_cases)
    case lands
    have new: "entry (maps t) (of_log x) (of_at x) = None"
      using holds_to_next [OF n lands(3)] lands(2) by simp
    have "whole_logs (maps u)" using t(2) lands(5) unfolding whole_logs_def by blast
    moreover have "entry (maps u) log i = entry (maps s) log i"
      if "log_wf log" "entry (maps s) log i \<noteq> None" for log i
      using that follows_next lands(4) [OF that(1)] new by metis
    ultimately show ?thesis using lands(1) by blast
  qed (use follows_next in blast)
qed blast

lemma follows_grounded:
  assumes "follows env offers s t" "ok s" "over env" "derives_off_log env" "whole_logs (maps s)"
    and "grounded offers (maps s)"
  shows "grounded offers (maps t)"
  using assms
proof (induction rule: follows.induct)
  case (follows_next t x u res)
  note t = follows_whole [OF follows_next.hyps(1) follows_next.prems(1-4)]
  have g: "grounded offers (maps t)" using follows_next by blast
  obtain n where n: "holds_to (maps t) (of_log x) n"
    using t follows_next.hyps by (auto simp: whole_logs_def offer_wf_def)
  from t [THEN conjunct1] follows_next.prems(2,3) follows_next.hyps(3,4) n show ?case
  proof (cases rule: takes_cases)
    case lands
    have new: "entry (maps t) (of_log x) (of_at x) = None"
      using holds_to_next [OF n lands(3)] lands(2) by simp
    have old: "entry (maps u) l i = Some v" if "entry (maps t) l i = Some v" "log_wf l" for l i v
      using that lands(4) [OF that(2)] new by auto
    show ?thesis
      unfolding grounded_def
    proof (intro allI impI, elim conjE)
      fix log i v
      assume log: "log_wf log" and v: "entry (maps u) log i = Some v"
      show "\<exists>x \<in> offers. offer_wf x \<and> of_log x = log \<and> of_at x = i \<and> v = log_record_encode (of_record x)
        \<and> (if i = 1 then of_previous x = 0
           else \<exists>w. entry (maps u) log (i - 1) = Some w \<and> epoch_in w = Inr (of_previous x))"
      proof (cases "log = of_log x \<and> i = of_at x")
        case True
        then show ?thesis
          using v lands(4) [OF log] lands(6) old log follows_next.hyps(2,3) by (intro bexI [of _ x]) auto
      next
        case False
        then have "entry (maps t) log i = Some v" using v lands(4) [OF log] by (auto split: if_splits)
        then obtain y where "y \<in> offers" "offer_wf y" "of_log y = log" "of_at y = i"
          "v = log_record_encode (of_record y)" "if i = 1 then of_previous y = 0
             else \<exists>w. entry (maps t) log (i - 1) = Some w \<and> epoch_in w = Inr (of_previous y)"
          using g log unfolding grounded_def by blast
        then show ?thesis using old log by (intro bexI [of _ y]) auto
      qed
    qed
  qed (use g in simp)
qed blast

end

section \<open>The next record of a log lands\<close>

text \<open>What the arguments of a store may do for a plain record to land: the schema takes it,
and deriving asserts nothing that does not hold.\<close>

definition accepts :: "'s store_env \<Rightarrow> store_map \<Rightarrow> log_record \<Rightarrow> 's \<Rightarrow> bool" where
  "accepts env m r s \<longleftrightarrow> env_validate env s r = Inr ()
    \<and> (\<forall>b v. \<exists>c. env_derive env s r b v = Inr c
        \<and> (\<forall>p \<in> set (preconditions c). p \<in> set (preconditions b) \<or> holds_pre m p))"

lemma put_records_preconditions: "preconditions (put_records b version r) = preconditions b"
proof -
  have "preconditions (put_mutation_version version b m) = preconditions b" for b m
    by (simp add: put_mutation_version_def Let_def batch_put_def split: option.splits)
  then have "preconditions (foldl (put_mutation_version version) b ms) = preconditions b" for b ms
    by (induction ms arbitrary: b) simp_all
  then show ?thesis by (simp add: put_records_def)
qed

lemma apply_batch_preconditions:
  "preconditions (apply_batch log at version r) =
    [if at = 1 then Absent META (applied_position_encode log)
     else ValueIs META (applied_position_encode log) (sequence_encode (saturating_pred at)),
     ValueIs META version_key (sequence_encode (saturating_pred version))]"
  by (simp add: apply_batch_def Let_def put_records_preconditions batch_put_def expect_value_def
      expect_absent_def batch_new_def)

lemma saturating_succ_pred:
  assumes "n \<noteq> - 1"
  shows "saturating_next n = n + 1" "saturating_pred (n + 1) = n" "n + 1 = 1 \<longleftrightarrow> n = 0"
  using assms word_le_succ(2) [of n] by (auto simp: saturating_next_def saturating_pred_def)

context kv_backend
begin

lemma next_lands:
  assumes "ok s" "over env" "derives_off_log env" "log_wf log" "holds_to (maps s) log n" "n \<noteq> - 1"
    and "lr_across r = None" "accepts env (maps s) r s"
    and "maps s META version_key = Some (sequence_encode v)" "v \<noteq> - 1"
  obtains t where "apply_at env log (n + 1) r s = (t, Inr ())" "ok t" "holds_to (maps t) log (n + 1)"
    "entry (maps t) log (n + 1) = Some (log_record_encode r)"
proof -
  note n = saturating_succ_pred [OF assms(6)] and v = saturating_succ_pred [OF assms(10)]
  note get = get_law [OF assms(1)]
  let ?b = "apply_batch log (n + 1) (v + 1) r"
  obtain c where c: "env_derive env s r ?b (v + 1) = Inr c"
    "\<And>p. p \<in> set (preconditions c) \<Longrightarrow> p \<in> set (preconditions ?b) \<or> holds_pre (maps s) p"
    using assms(8) unfolding accepts_def by metis
  have "holds_pre (maps s) p" if "p \<in> set (preconditions ?b)" for p
    using that assms(5,9) n v
    by (auto simp: apply_batch_preconditions holds_pre_def holds_to_def split: if_splits)
  then obtain t where t: "apply_b s c = (t, Inr ())" "ok t"
    using apply_lands [OF assms(1), of c] c(2) by blast
  have "committed_version (get_b s) = Inr v"
    using assms(9) by (simp add: committed_version_def get_decoded_def get version_key_def sequence_round_trip)
  then have a: "apply_at env log (n + 1) r s = (t, Inr ())"
    using assms(2,7,8) committed_tail_holds [OF assms(1,5)] word_le_succ(3) [OF assms(6)] n v c(1) t(1)
    by (simp add: apply_at_def over_def Let_def accepts_def derive_and_land_def settle_def
        derives_nothing_def landed_result_def)
  from assms(1-4) a assms(5) show thesis
  proof (cases rule: apply_at_appends)
    case kept
    have "entry (maps t) log (n + 1) = None" using holds_to_next [OF assms(5,6)] kept by simp
    moreover have "maps t = map_ops (ops c) (maps s)" using apply_b_cases [OF assms(1) t(1)] kept t by auto
    moreover obtain os where "ops c = log_ops log (n + 1) (v + 1) r @ os" "list_all off_log os"
      using c(1) assms(3) apply_batch_ops [of log "n + 1" "v + 1" r]
      by (fastforce simp: derives_off_log_def appends_def)
    ultimately show thesis
      using off_log_keeps(1) [of os "map_ops (log_ops log (n + 1) (v + 1) r) (maps s)"]
      by (simp add: map_ops_append entry_def log_ops_def)
  next
    case lands
    show thesis
      using that [OF a t(2)] lands(5) [OF assms(4), of "n + 1"] lands(6) [OF assms(4,5)] by simp
  qed
qed

text \<open>At a position a store holds, a record is taken as a retry or refused as the record of
another leadership; past the next position it is a gap.  Nothing is written.\<close>

lemma held_answers:
  assumes "ok s" "over env" "holds_to (maps s) log n" "at \<le> n" "log_record_wf h"
    and "entry (maps s) log at = Some (log_record_encode h)"
  shows "apply_at env log at r s = (s,
    if lr_epoch h = lr_epoch r \<and> (0 < lr_epoch r \<or> log_record_encode h = log_record_encode r) then Inr ()
    else bindR (env_two_writers env s (home log))
      (\<lambda>two. if two then Inr () else Inl (LogDivergence at (lr_epoch h) (lr_epoch r))))"
proof -
  have "env_get env s LOG k = Inr (maps s LOG k)" for k
    using assms(1,2) by (simp add: over_def get_law)
  then show ?thesis
    using committed_tail_holds [OF assms(1,3)] assms(2,4-6) log_record_round_trips(2) [OF assms(5)]
    by (simp add: apply_at_def over_def refuse_a_divergence_def Let_def entry_def)
qed

lemma retry_answers:
  assumes "ok s" "over env" "holds_to (maps s) log n" "at \<le> n" "log_record_wf r"
    and "entry (maps s) log at = Some (log_record_encode r)"
  shows "apply_at env log at r s = (s, Inr ())"
proof -
  have "env_get env s LOG k = Inr (maps s LOG k)" for k
    using assms(1,2) by (simp add: over_def get_law)
  then show ?thesis
    using committed_tail_holds [OF assms(1,3)] assms(2,4,6) log_record_round_trips(2) [OF assms(5)]
    by (simp add: apply_at_def over_def refuse_a_divergence_def Let_def entry_def)
qed

lemma gap_answers:
  assumes "ok s" "over env" "holds_to (maps s) log n" "n + 1 < at" "n \<noteq> - 1"
  shows "apply_at env log at r s = (s, Inl (LogGap (n + 1) at))"
proof -
  have "\<not> at \<le> n" "at \<noteq> n + 1" using assms(4) word_le_succ(1) [OF assms(5), of at] by auto
  then show ?thesis
    using committed_tail_holds [OF assms(1,3)] assms(2,4) saturating_succ_pred [OF assms(5)]
    by (simp add: apply_at_def over_def Let_def)
qed

end

section \<open>Two stores that follow\<close>

definition one_writer_per_epoch :: "offer set \<Rightarrow> bool" where
  "one_writer_per_epoch offers \<longleftrightarrow> (\<forall>x \<in> offers. \<forall>y \<in> offers.
    of_log x = of_log y \<longrightarrow> of_at x = of_at y \<longrightarrow> lr_epoch (of_record x) = lr_epoch (of_record y) \<longrightarrow> x = y)"

lemma word_below:
  fixes i :: u64
  assumes "j \<le> i" "j \<noteq> i"
  shows "j \<le> i - 1" "unat (i - 1) < unat i"
proof -
  have "unat j < unat i" using assms by (simp add: word_le_nat_alt word_unat_eq_iff)
  moreover from this have "unat (i - 1) = unat i - 1"
    by (intro unat_minus_one) auto
  ultimately show "j \<le> i - 1" "unat (i - 1) < unat i" by (auto simp: word_le_nat_alt)
qed

lemma entry_from_one: "whole_logs m \<Longrightarrow> log_wf log \<Longrightarrow> entry m log 0 = None"
  by (fastforce simp: whole_logs_def holds_to_def)

lemma grounded_match:
  assumes m: "grounded offers m" "whole_logs m" and m': "grounded offers m'" "whole_logs m'"
    and u: "one_writer_per_epoch offers" and log: "log_wf log"
    and "entry m log i = Some v" "entry m' log i = Some v'" "epoch_in v = epoch_in v'" "j \<le> i"
  shows "entry m log j = entry m' log j"
  using assms(7-10)
proof (induction "unat i" arbitrary: i v v' rule: less_induct)
  case less
  obtain x where x: "x \<in> offers" "offer_wf x" "of_log x = log" "of_at x = i"
    "v = log_record_encode (of_record x)" "if i = 1 then of_previous x = 0
     else \<exists>w. entry m log (i - 1) = Some w \<and> epoch_in w = Inr (of_previous x)"
    using m(1) log less.prems(1) unfolding grounded_def by blast
  obtain y where y: "y \<in> offers" "offer_wf y" "of_log y = log" "of_at y = i"
    "v' = log_record_encode (of_record y)" "if i = 1 then of_previous y = 0
     else \<exists>w. entry m' log (i - 1) = Some w \<and> epoch_in w = Inr (of_previous y)"
    using m'(1) log less.prems(2) unfolding grounded_def by blast
  have "lr_epoch (of_record x) = lr_epoch (of_record y)"
    using less.prems(3) x(2,5) y(2,5) log_record_round_trips(2) by (simp add: offer_wf_def)
  then have xy: "x = y" using u x y unfolding one_writer_per_epoch_def by metis
  show ?case
  proof (cases "j = i")
    case True
    then show ?thesis using less.prems(1,2) x(5) y(5) xy by simp
  next
    case False
    note below = word_below [OF less.prems(4) False]
    show ?thesis
    proof (cases "i = 1")
      case True
      then have "j = 0" using below(1) by simp
      then show ?thesis using entry_from_one m(2) m'(2) log by simp
    next
      case False
      then obtain w w' where "entry m log (i - 1) = Some w" "entry m' log (i - 1) = Some w'"
        "epoch_in w = epoch_in w'"
        using x(6) y(6) xy by auto
      from less.hyps [OF below(2) this below(1)] show ?thesis .
    qed
  qed
qed

section \<open>Properties\<close>

definition over_memory :: "memory_backend store_env \<Rightarrow> bool" where
  "over_memory env \<longleftrightarrow>
    env_get env = memory_get \<and> env_scan env = memory_scan \<and> env_apply env = memory_apply"

lemma over_memory: "over_memory env = memory.over env"
  by (simp add: over_memory_def memory.over_def)

definition example_env :: "memory_backend store_env" where
  "example_env = \<lparr>env_get = memory_get, env_scan = memory_scan, env_apply = memory_apply,
    env_catalog = (\<lambda>_. Inr StoreOnly), env_served = None, env_validate = (\<lambda>_ _. Inr ()),
    env_derive = (\<lambda>_ _ b _. Inr b), env_two_writers = (\<lambda>_ _. Inr False)\<rparr>"

definition seeded :: memory_backend where
  "seeded = fst (memory_apply memory_new (batch_put META version_key (sequence_encode 0) batch_new))"

definition example_record :: log_record where
  "example_record = log_record_at 1 []"

definition example_offer :: offer where
  "example_offer = \<lparr>of_log = log_line Store, of_at = 1, of_previous = 0, of_record = example_record\<rparr>"

lemma seeded:
  "memory_ok seeded" "memory_maps seeded META version_key = Some (sequence_encode 0)"
  "no_logs (memory_maps seeded)"
proof -
  obtain s where s: "memory_apply memory_new (batch_put META version_key (sequence_encode 0) batch_new) = (s, Inr ())"
    using one_key_store by metis
  have m: "memory_maps s = (\<lambda>_. Map.empty)(META := [version_key \<mapsto> sequence_encode 0])"
    using memory_apply_maps(2) [OF memory_ok_new s] by (simp add: batch_put_def batch_new_def memory_maps_new)
  show "memory_ok seeded" using memory_apply_maps(1) [OF memory_ok_new s] s by (simp add: seeded_def)
  show "memory_maps seeded META version_key = Some (sequence_encode 0)" using s m by (simp add: seeded_def)
  show "no_logs (memory_maps seeded)"
    using s m
    by (auto simp: seeded_def no_logs_def holds_to_def entry_def version_key_def singleton_encode_def
        applied_position_bytes)
qed

lemma example:
  "over_memory example_env" "derives_off_log example_env" "accepts example_env m r s"
  "log_wf (log_line h)" "log_record_wf example_record" "offer_wf example_offer" "lr_across example_record = None"
  by (simp_all add: over_memory_def example_env_def derives_off_log_def accepts_def log_wf_def log_line_def
      log_new_def LINE_def width_def NODE_ID_LEN_def example_record_def log_record_at_def log_record_wf_def
      example_offer_def offer_wf_def)

lemma seeded_holds: "holds_to (memory_maps seeded) (log_line h) 0"
  using seeded(3) example(4) by (simp add: no_logs_def)

lemma example_follows:
  obtains t where "follows example_env {example_offer} seeded t" "memory_ok t"
    "entry (memory_maps t) (log_line Store) 1 = Some (log_record_encode example_record)"
proof -
  have z: "(0::u64) \<noteq> - 1" by simp
  obtain t where t: "apply_at example_env (log_line Store) (0 + 1) example_record seeded = (t, Inr ())"
    "memory_ok t" "holds_to (memory_maps t) (log_line Store) (0 + 1)"
    "entry (memory_maps t) (log_line Store) (0 + 1) = Some (log_record_encode example_record)"
    by (rule memory.next_lands [OF seeded(1) example(1) [unfolded over_memory] example(2,4) seeded_holds
        z example(7,3) seeded(2) z])
  then have "takes example_env seeded example_offer = (t, Inr ())"
    by (simp add: takes_def example_offer_def land_from_stream_def refuse_a_parted_history_def)
  then have "follows example_env {example_offer} seeded t"
    by (intro follows_next [OF follows_none _ example(6)]) simp
  with that t show thesis by simp
qed

text \<open>C12: a log is gap-free and append-only: in a store that follows, whatever records its
peers offer, in any order and with repetitions, every log holds exactly the
positions from one to its applied position, and an entry it held before is still
there, unchanged.\<close>

theorem log_gap_free:
  assumes "memory_ok s" "over_memory env" "derives_off_log env" "whole_logs (memory_maps s)"
    and "follows env offers s t" "log_wf log"
  shows "\<exists>n. committed_tail (memory_get t) log = Inr n
    \<and> (\<forall>i. entry (memory_maps t) log i \<noteq> None \<longleftrightarrow> 0 < i \<and> i \<le> n)
    \<and> (\<forall>i. entry (memory_maps s) log i \<noteq> None \<longrightarrow> entry (memory_maps t) log i = entry (memory_maps s) log i)"
proof -
  note run = memory.follows_whole [OF assms(5,1) assms(2) [unfolded over_memory] assms(3,4)]
  obtain n where n: "holds_to (memory_maps t) log n" using run assms(6) by (auto simp: whole_logs_def)
  show ?thesis
    using memory.committed_tail_holds [OF _ n] run n assms(6) by (auto simp: holds_to_def)
qed

theorem log_gap_free_witness:
  "\<exists>t n. follows example_env {example_offer} seeded t
    \<and> committed_tail (memory_get t) (log_line Store) = Inr n
    \<and> entry (memory_maps t) (log_line Store) 1 \<noteq> None \<and> 1 \<le> n"
proof -
  obtain t where t: "follows example_env {example_offer} seeded t"
    "entry (memory_maps t) (log_line Store) 1 = Some (log_record_encode example_record)"
    by (rule example_follows)
  show ?thesis
    using log_gap_free [OF seeded(1) example(1,2) no_logs_whole [OF seeded(3)] t(1) example(4)] t by force
qed

text \<open>C11: log matching: when each epoch has one writer for a log, two stores that follow it
from nothing and hold one epoch at one position hold the same bytes at every
position up to it, whatever each was offered and in whatever order.\<close>

theorem log_matching:
  assumes "memory_ok s" "over_memory env" "derives_off_log env" "no_logs (memory_maps s)"
    and "memory_ok s'" "over_memory env'" "derives_off_log env'" "no_logs (memory_maps s')"
    and "follows env offers s t" "follows env' offers s' t'" "one_writer_per_epoch offers" "log_wf log"
    and "entry (memory_maps t) log i = Some v" "entry (memory_maps t') log i = Some v'"
    and "epoch_in v = epoch_in v'" "j \<le> i"
  shows "entry (memory_maps t) log j = entry (memory_maps t') log j"
proof -
  note w = no_logs_whole [OF assms(4)] and w' = no_logs_whole [OF assms(8)]
  note o1 = assms(2) [unfolded over_memory] and o2 = assms(6) [unfolded over_memory]
  have "grounded offers (memory_maps t)" "whole_logs (memory_maps t)"
    using memory.follows_grounded [OF assms(9,1) o1 assms(3) w no_logs_grounded [OF assms(4)]]
      memory.follows_whole [OF assms(9,1) o1 assms(3) w] by blast+
  moreover have "grounded offers (memory_maps t')" "whole_logs (memory_maps t')"
    using memory.follows_grounded [OF assms(10,5) o2 assms(7) w' no_logs_grounded [OF assms(8)]]
      memory.follows_whole [OF assms(10,5) o2 assms(7) w'] by blast+
  ultimately show ?thesis using grounded_match assms(11-16) by blast
qed

theorem log_matching_witness:
  "\<exists>t t' v. follows example_env {example_offer} seeded t \<and> follows example_env {example_offer} seeded t'
    \<and> entry (memory_maps t) (log_line Store) 1 = Some v
    \<and> entry (memory_maps t) (log_line Store) 1 = entry (memory_maps t') (log_line Store) 1"
proof -
  obtain t where t: "follows example_env {example_offer} seeded t"
    "entry (memory_maps t) (log_line Store) 1 = Some (log_record_encode example_record)"
    by (rule example_follows)
  have "one_writer_per_epoch {example_offer}" by (simp add: one_writer_per_epoch_def)
  from log_matching [OF seeded(1) example(1,2) seeded(3) seeded(1) example(1,2) seeded(3) t(1) t(1) this
      example(4) t(2) t(2) refl order.refl]
  show ?thesis using t by blast
qed

text \<open>C17: the next record of a log, when it is outside transactions across leaders and the
schema and what is derived from it accept it, lands and is the entry there; offered
again it changes nothing.  From then on a record of another leadership at its position
never changes the store either: it is refused as a divergence in a range of one
writer, and let past in a range declared to have two.  Before it landed, a record past
it was refused as a gap, with the store untouched.\<close>

theorem record_lands_once:
  assumes "memory_ok s" "over_memory env" "derives_off_log env" "log_wf log"
    and "holds_to (memory_maps s) log n" "n \<noteq> - 1" "lr_across r = None" "log_record_wf r"
    and "accepts env (memory_maps s) r s"
    and "memory_maps s META version_key = Some (sequence_encode v)" "v \<noteq> - 1"
  shows "\<exists>t. apply_at env log (n + 1) r s = (t, Inr ()) \<and> memory_ok t
    \<and> entry (memory_maps t) log (n + 1) = Some (log_record_encode r)
    \<and> apply_at env log (n + 1) r t = (t, Inr ())
    \<and> (\<forall>r'. lr_epoch r' \<noteq> lr_epoch r \<longrightarrow>
        apply_at env log (n + 1) r' t = (t,
          case env_two_writers env t (home log) of
            Inl e \<Rightarrow> Inl e
          | Inr two \<Rightarrow> if two then Inr () else Inl (LogDivergence (n + 1) (lr_epoch r) (lr_epoch r'))))
    \<and> (\<forall>r' at. n + 1 < at \<longrightarrow> apply_at env log at r' s = (s, Inl (LogGap (n + 1) at)))"
proof -
  note o = assms(2) [unfolded over_memory]
  obtain t where t: "apply_at env log (n + 1) r s = (t, Inr ())" "memory_ok t"
    "holds_to (memory_maps t) log (n + 1)" "entry (memory_maps t) log (n + 1) = Some (log_record_encode r)"
    using memory.next_lands [OF assms(1) o assms(3-7,9-11)] by metis
  show ?thesis
    using t memory.retry_answers [OF t(2) o t(3) order.refl assms(8) t(4)]
      memory.held_answers [OF t(2) o t(3) order.refl assms(8) t(4)]
      memory.gap_answers [OF assms(1) o assms(5) _ assms(6)]
    by (intro exI [of _ t]) (auto split: sum.split)
qed

theorem record_lands_once_witness:
  "\<exists>t. apply_at example_env (log_line Store) 1 example_record seeded = (t, Inr ())
    \<and> apply_at example_env (log_line Store) 1 example_record t = (t, Inr ())
    \<and> apply_at example_env (log_line Store) 1 (set_epoch 2 example_record) t
        = (t, Inl (LogDivergence 1 1 2))
    \<and> apply_at example_env (log_line Store) 3 example_record seeded = (seeded, Inl (LogGap 1 3))"
proof -
  have eq: "(0::u64) + 1 = 1" "env_two_writers example_env t h = Inr False"
    "lr_epoch example_record = 1" "lr_epoch (set_epoch 2 example_record) = 2" "(0::u64) \<noteq> - 1" for t h
    by (simp_all add: example_env_def example_record_def log_record_at_def set_epoch_def)
  obtain t where t: "apply_at example_env (log_line Store) 1 example_record seeded = (t, Inr ())"
    "apply_at example_env (log_line Store) 1 example_record t = (t, Inr ())"
    "\<And>r'. lr_epoch r' \<noteq> 1 \<Longrightarrow> apply_at example_env (log_line Store) 1 r' t = (t, Inl (LogDivergence 1 1 (lr_epoch r')))"
    "\<And>r' at. 1 < at \<Longrightarrow> apply_at example_env (log_line Store) at r' seeded = (seeded, Inl (LogGap 1 at))"
    using record_lands_once [OF seeded(1) example(1,2,4) seeded_holds eq(5) example(7,5,3) seeded(2) eq(5)]
    unfolding eq sum.case if_False by blast
  show ?thesis using t(1,2) t(3) [of "set_epoch 2 example_record"] t(4) [of 3] eq(4) by auto
qed

end
