(* ===== verification/Log_Feed.thy ===== *)
theory Log_Feed
  imports Log_Run Index_Keys
begin

text \<open>Reading a log back (store/history.rs and pruning.rs of tessari-storage): where a
log begins, its records from a position on, and the same narrowed to what a
subscription reaches.\<close>

section \<open>Reading\<close>

datatype log_error =
    BelowLogStart sequence sequence
  | LogRead read_error
  | LogCatalog settle_error

fun lift_log :: "read_error + 'a \<Rightarrow> log_error + 'a" where
  "lift_log (Inl e) = Inl (LogRead e)"
| "lift_log (Inr a) = Inr a"

fun lift_catalog :: "settle_error + 'a \<Rightarrow> log_error + 'a" where
  "lift_catalog (Inl e) = Inl (LogCatalog e)"
| "lift_catalog (Inr a) = Inr a"

definition log_start :: "get_fn \<Rightarrow> log_id \<Rightarrow> read_error + sequence" where
  "log_start get log =
    bindR (get_decoded get (keyspace_of LogStart) (log_start_encode log) sequence_decode)
      (\<lambda>found. Inr (case found of Some s \<Rightarrow> s | None \<Rightarrow> 0))"

fun decode_entries :: "pair list \<Rightarrow> read_error + (sequence \<times> log_record) list" where
  "decode_entries [] = Inr []"
| "decode_entries ((k, v) # ps) =
    bindR (lift_enc (log_key_decode k)) (\<lambda>key.
    bindR (lift_enc (log_record_decode v)) (\<lambda>r.
    bindR (decode_entries ps) (\<lambda>rs. Inr ((lk_sequence key, r) # rs))))"

definition log_range :: "log_id \<Rightarrow> sequence \<Rightarrow> key_range" where
  "log_range log from =
    \<lparr>range_start = Included (log_key_encode \<lparr>lk_log = log, lk_sequence = from\<rparr>),
     range_end = range_end (key_range_prefix (log_prefix_for log))\<rparr>"

definition log_records ::
  "get_fn \<Rightarrow> scan_fn \<Rightarrow> log_id \<Rightarrow> sequence \<Rightarrow> nat \<Rightarrow> log_error + (sequence \<times> log_record) list" where
  "log_records get scan log from limit =
    bindR (lift_log (log_start get log)) (\<lambda>start.
      if from < start then Inl (BelowLogStart from start)
      else
        bindR (lift_log (lift_kv (scan \<lparr>req_keyspace = keyspace_of LogEntry, req_range = log_range log from,
          req_direction = Forward, req_limit = Some limit\<rparr>)))
          (\<lambda>ps. lift_log (decode_entries ps)))"

text \<open>Newest first, which is how a history walks a log.\<close>

definition log_records_newest_first ::
  "scan_fn \<Rightarrow> log_id \<Rightarrow> nat \<Rightarrow> log_error + (sequence \<times> log_record) list" where
  "log_records_newest_first scan log limit =
    bindR (lift_log (lift_kv (scan \<lparr>req_keyspace = keyspace_of LogEntry,
      req_range = key_range_prefix (log_prefix_for log), req_direction = Reverse, req_limit = Some limit\<rparr>)))
      (\<lambda>ps. lift_log (decode_entries ps))"

fun keep_reaching :: "catalog_fn \<Rightarrow> reach \<Rightarrow> mutation list \<Rightarrow> settle_error + mutation list" where
  "keep_reaching catalog sub [] = Inr []"
| "keep_reaching catalog sub (m # ms) =
    bindR (carried_to catalog m) (\<lambda>c.
    bindR (keep_reaching catalog sub ms) (\<lambda>kept. Inr (if reaches c sub then m # kept else kept)))"

definition narrow :: "catalog_fn \<Rightarrow> reach \<Rightarrow> log_record \<Rightarrow> settle_error + log_record" where
  "narrow catalog sub r =
    bindR (keep_reaching catalog sub (mutations r)) (\<lambda>kept.
      let rebuilt = log_record_at (lr_epoch r) kept in
      Inr (case lr_order r of Some s \<Rightarrow> set_order s rebuilt | None \<Rightarrow> rebuilt))"

fun narrow_each ::
  "catalog_fn \<Rightarrow> reach \<Rightarrow> (sequence \<times> log_record) list \<Rightarrow> settle_error + (sequence \<times> log_record) list" where
  "narrow_each catalog sub [] = Inr []"
| "narrow_each catalog sub ((at, r) # rs) =
    bindR (narrow catalog sub r) (\<lambda>r.
    bindR (narrow_each catalog sub rs) (\<lambda>rs. Inr ((at, r) # rs)))"

definition log_records_within ::
  "catalog_fn \<Rightarrow> get_fn \<Rightarrow> scan_fn \<Rightarrow> reach \<Rightarrow> log_id \<Rightarrow> sequence \<Rightarrow> nat
    \<Rightarrow> log_error + (sequence \<times> log_record) list" where
  "log_records_within catalog get scan sub log from limit =
    (if sub = Store then log_records get scan log from limit
     else bindR (log_records get scan log from limit) (\<lambda>rs. lift_catalog (narrow_each catalog sub rs)))"

section \<open>What a log holds\<close>

text \<open>A log holds the positions from where it begins, its first when it was never pruned,
to its tail; every key of the keyspace is a log's and every entry is a record.\<close>

definition log_holds :: "store_map \<Rightarrow> log_id \<Rightarrow> sequence \<Rightarrow> sequence \<Rightarrow> bool" where
  "log_holds m log start n \<longleftrightarrow>
    (case m META (log_start_encode log) of None \<Rightarrow> start = 0 | Some v \<Rightarrow> v = sequence_encode start)
    \<and> (\<forall>i. entry m log i \<noteq> None \<longleftrightarrow> 0 < i \<and> start \<le> i \<and> i \<le> n)"

definition only_logs :: "store_map \<Rightarrow> bool" where
  "only_logs m \<longleftrightarrow> (\<forall>k v. m LOG k = Some v \<longrightarrow>
    (\<exists>key r. log_key_wf key \<and> k = log_key_encode key \<and> log_record_wf r \<and> v = log_record_encode r))"

definition record_in :: "store_map \<Rightarrow> log_id \<Rightarrow> sequence \<Rightarrow> log_record" where
  "record_in m log i = (case log_record_decode (the (entry m log i)) of Inr r \<Rightarrow> r | Inl _ \<Rightarrow> log_record_new [])"

definition positions_from :: "sequence \<Rightarrow> sequence \<Rightarrow> sequence list" where
  "positions_from from n = map word_of_nat [max 1 (unat from) ..< unat n + 1]"

definition records_from :: "store_map \<Rightarrow> log_id \<Rightarrow> sequence \<Rightarrow> sequence \<Rightarrow> (sequence \<times> log_record) list" where
  "records_from m log from n = map (\<lambda>i. (i, record_in m log i)) (positions_from from n)"

lemma unat_below:
  fixes n :: sequence
  assumes "j \<le> unat n"
  shows "unat (word_of_nat j :: sequence) = j"
  using assms unsigned_less [of n, where 'a = nat] by (simp add: unsigned_of_nat take_bit_nat_eq_self_iff)

lemma set_positions_from: "set (positions_from from n) = {i. 0 < i \<and> from \<le> i \<and> i \<le> n}"
proof -
  have "i \<in> set (positions_from from n)" if "0 < i" "from \<le> i" "i \<le> n" for i
  proof -
    have "unat i \<in> set [max 1 (unat from) ..< unat n + 1]"
      using that by (auto simp: word_le_nat_alt word_less_nat_alt)
    then show ?thesis unfolding positions_from_def set_map by (metis image_eqI of_nat_unat ucast_id)
  qed
  moreover have "0 < i \<and> from \<le> i \<and> i \<le> n" if mem: "i \<in> set (positions_from from n)" for i
  proof -
    obtain j where j: "i = word_of_nat j" "Suc 0 \<le> j" "unat from \<le> j" "j \<le> unat n"
      using mem by (auto simp: positions_from_def)
    then have "unat i = j" using unat_below by simp
    then show ?thesis using j by (auto simp: word_le_nat_alt word_less_nat_alt)
  qed
  ultimately show ?thesis by blast
qed

lemma sorted_positions_from: "sorted_wrt (<) (positions_from from n)"
proof -
  have "(word_of_nat i :: sequence) < word_of_nat j" if "i < j" "j \<le> unat n" for i j
    using that unat_below [of i n] unat_below [of j n] by (simp add: word_less_nat_alt)
  then show ?thesis unfolding positions_from_def sorted_wrt_map
    by (intro sorted_wrt_mono_rel [OF _ sorted_wrt_upt]) auto
qed

lemma in_log_range:
  assumes "log_wf log"
  shows "in_range (log_range log from) k \<longleftrightarrow>
    prefix (log_prefix_for log) k \<and> log_key_encode \<lparr>lk_log = log, lk_sequence = from\<rparr> \<le> k"
proof -
  let ?pre = "log_prefix_for log" and ?lo = "log_key_encode \<lparr>lk_log = log, lk_sequence = from\<rparr>"
  have "in_range (key_range_prefix ?pre) ?lo" using log_prefix_for_exact [OF assms] assms by (simp add: log_key_wf_def)
  then have "?pre \<le> ?lo" by (auto simp: in_range_def key_range_prefix_def split: option.splits)
  then have "?lo \<le> k \<Longrightarrow> ?pre \<le> k" by order
  then show ?thesis
    using in_range_prefix [of ?pre k]
    by (auto simp: in_range_def log_range_def key_range_prefix_def split: option.splits)
qed

lemma record_in_entry:
  assumes "only_logs m" "entry m log i = Some v"
  shows "log_record_decode v = Inr (record_in m log i)" "log_record_wf (record_in m log i)"
    "v = log_record_encode (record_in m log i)"
proof -
  obtain r where "log_record_wf r" "v = log_record_encode r"
    using assms by (auto simp: only_logs_def entry_def)
  then show "log_record_decode v = Inr (record_in m log i)" "log_record_wf (record_in m log i)"
    "v = log_record_encode (record_in m log i)"
    using assms(2) log_record_round_trips(1) by (simp_all add: record_in_def)
qed

lemma log_keys_in:
  assumes "only_logs m" "log_wf log" "log_holds m log start n" "start \<le> from"
  shows "keys_in (m LOG) (log_range log from)
    = (\<lambda>i. log_key_encode \<lparr>lk_log = log, lk_sequence = i\<rparr>) ` set (positions_from from n)"
    (is "_ = ?key ` _")
proof -
  have wf: "log_key_wf \<lparr>lk_log = log, lk_sequence = i\<rparr>" for i using assms(2) by (simp add: log_key_wf_def)
  have irrefl: "\<not> log_less log log"
    using log_keys.encode_order [OF wf wf, of "from" "from"] by (simp add: log_key_less_def)
  have le: "?key from \<le> ?key i \<longleftrightarrow> from \<le> i" for i
    using log_keys.encode_order [OF wf wf, of i "from"] irrefl by (auto simp: log_key_less_def not_less [symmetric])
  have pre: "prefix (log_prefix_for log) (?key i)" for i using log_prefix_for_exact [OF assms(2) wf] by simp
  have held: "m LOG (?key i) \<noteq> None \<longleftrightarrow> 0 < i \<and> start \<le> i \<and> i \<le> n" for i
    using assms(3) by (simp add: log_holds_def entry_def)
  have "k \<in> keys_in (m LOG) (log_range log from) \<longleftrightarrow> (\<exists>i. k = ?key i \<and> 0 < i \<and> from \<le> i \<and> i \<le> n)" for k
  proof
    assume k: "k \<in> keys_in (m LOG) (log_range log from)"
    then obtain key where key: "log_key_wf key" "k = log_key_encode key"
      using assms(1) by (auto simp: keys_in_def only_logs_def)
    then have "lk_log key = log"
      using k log_prefix_for_exact [OF assms(2)] by (simp add: keys_in_def in_log_range [OF assms(2)])
    then have "k = ?key (lk_sequence key)" using key(2) by (cases key) simp
    then show "\<exists>i. k = ?key i \<and> 0 < i \<and> from \<le> i \<and> i \<le> n"
      using k held [of "lk_sequence key"] le
      by (auto simp: keys_in_def in_log_range [OF assms(2)] dom_def intro!: exI [of _ "lk_sequence key"])
  next
    assume "\<exists>i. k = ?key i \<and> 0 < i \<and> from \<le> i \<and> i \<le> n"
    then obtain i where i: "k = ?key i" "0 < i" "from \<le> i" "i \<le> n" by blast
    then have "m LOG k \<noteq> None" using held [of i] assms(4) by auto
    then show "k \<in> keys_in (m LOG) (log_range log from)"
      using i pre le by (simp add: keys_in_def in_log_range [OF assms(2)] dom_def)
  qed
  then show ?thesis by (auto simp: set_positions_from)
qed

lemma log_pairs_in:
  assumes "only_logs m" "log_wf log" "log_holds m log start n" "start \<le> from"
  shows "pairs_in (m LOG) (log_range log from)
    = map (\<lambda>i. (log_key_encode \<lparr>lk_log = log, lk_sequence = i\<rparr>, the (entry m log i))) (positions_from from n)"
    (is "_ = map (\<lambda>i. (?key i, _)) _")
proof -
  have wf: "log_key_wf \<lparr>lk_log = log, lk_sequence = i\<rparr>" for i using assms(2) by (simp add: log_key_wf_def)
  have "?key i < ?key j" if "i < j" for i j
    using log_keys.encode_order [OF wf wf] that by (simp add: log_key_less_def)
  then have "sorted_wrt (<) (map ?key (positions_from from n))"
    unfolding sorted_wrt_map by (intro sorted_wrt_mono_rel [OF _ sorted_positions_from])
  then have "sorted_list_of_set (keys_in (m LOG) (log_range log from)) = map ?key (positions_from from n)"
    unfolding log_keys_in [OF assms]
    by (intro strict_sorted_equal) (simp_all only: strict_sorted_list_of_set, simp)
  then show ?thesis by (simp add: pairs_in_keys entry_def comp_def)
qed

lemma decode_log_entries:
  assumes "only_logs m" "log_wf log" "\<And>i. i \<in> set is \<Longrightarrow> entry m log i \<noteq> None"
  shows "decode_entries (map (\<lambda>i. (log_key_encode \<lparr>lk_log = log, lk_sequence = i\<rparr>, the (entry m log i))) is)
    = Inr (map (\<lambda>i. (i, record_in m log i)) is)"
  using assms(3)
proof (induction "is")
  case (Cons i "is")
  then obtain v where "entry m log i = Some v" by auto
  then show ?case
    using Cons record_in_entry(1) [OF assms(1)] log_keys.round_trip [of "\<lparr>lk_log = log, lk_sequence = i\<rparr>"] assms(2)
    by (simp add: log_key_wf_def)
qed simp

text \<open>Reading a log answers its records from a position on, as many as asked; a position
below where the log begins is refused.\<close>

context kv_backend
begin

lemma log_start_holds:
  assumes "ok s" "log_holds (maps s) log start n"
  shows "log_start (get_b s) log = Inr start"
  using assms
  by (auto simp: log_start_def get_decoded_def get_law log_holds_def sequence_round_trip split: option.splits)

lemma log_records_exact:
  assumes "ok s" "only_logs (maps s)" "log_wf log" "log_holds (maps s) log start n"
  shows "log_records (get_b s) (scan_b s) log from limit =
    (if from < start then Inl (BelowLogStart from start)
     else Inr (take limit (records_from (maps s) log from n)))"
proof (cases "from < start")
  case True
  then show ?thesis using log_start_holds [OF assms(1,4)] by (simp add: log_records_def)
next
  case False
  then have le: "start \<le> from" by simp
  have ok: "range_ok (log_range log from)" by (simp add: range_ok_def log_range_def)
  have "entry (maps s) log i \<noteq> None" if "i \<in> set (take limit (positions_from from n))" for i
    using in_set_takeD [OF that] assms(4) le by (auto simp: set_positions_from log_holds_def)
  from decode_log_entries [OF assms(2,3) this]
  show ?thesis
    using False log_start_holds [OF assms(1,4)] scan_forward [OF assms(1) ok]
    by (simp add: log_records_def log_pairs_in [OF assms(2-4) le] take_map records_from_def)
qed

end

end
