(* ===== verification/Writer_Order.thy ===== *)
theory Writer_Order
  imports Log_Run
begin

text \<open>One writer's logs applied in the order it committed them (ordering.rs of
tessari-storage).  A writer files each commit in the log of its home, so its one
order is spread over several logs; a round fetches a page of each log and applies
the records in the writer's order, but only up to the order that every page proves
complete.\<close>

section \<open>Pages\<close>

type_synonym order_key = "u64 \<times> sequence"

definition order_of :: "log_record \<Rightarrow> sequence" where
  "order_of r = (case lr_order r of Some s \<Rightarrow> s | None \<Rightarrow> 0)"

definition key_of :: "log_record \<Rightarrow> order_key" where
  "key_of r = (lr_epoch r, order_of r)"

datatype horizon = Level sequence | LevelAt u64 sequence | Unstated | Full

record page =
  pg_log :: log_id
  pg_from :: sequence
  pg_previous :: u64
  pg_records :: "(sequence \<times> log_record) list"
  pg_horizon :: horizon

abbreviation pg_writer :: "page \<Rightarrow> writer_id" where
  "pg_writer pg \<equiv> log_writer (pg_log pg)"

section \<open>Which records a round applies\<close>

definition newest_step :: "writer_id \<Rightarrow> (writer_id \<rightharpoonup> u64) \<Rightarrow> sequence \<times> log_record \<Rightarrow> (writer_id \<rightharpoonup> u64)" where
  "newest_step w m x =
    m(w \<mapsto> (case m w of Some held \<Rightarrow> max held (lr_epoch (snd x)) | None \<Rightarrow> lr_epoch (snd x)))"

definition newest_epochs :: "page list \<Rightarrow> (writer_id \<rightharpoonup> u64)" where
  "newest_epochs pages = foldl (\<lambda>m pg. foldl (newest_step (pg_writer pg)) m (pg_records pg)) Map.empty pages"

definition page_proves :: "(writer_id \<rightharpoonup> u64) \<Rightarrow> page \<Rightarrow> order_key option" where
  "page_proves epochs pg =
    (case pg_horizon pg of
       LevelAt epoch order \<Rightarrow> Some (epoch, order)
     | Level order \<Rightarrow> Some (case epochs (pg_writer pg) of Some e \<Rightarrow> e | None \<Rightarrow> 0, order)
     | Unstated \<Rightarrow> None
     | Full \<Rightarrow> Some (if pg_records pg = [] then (0, 0) else key_of (snd (last (pg_records pg)))))"

definition tighten :: "order_key option \<Rightarrow> order_key option \<Rightarrow> order_key option" where
  "tighten held proves =
    (case (held, proves) of
       (Some h, Some p) \<Rightarrow> Some (min h p)
     | (held, None) \<Rightarrow> held
     | (None, proves) \<Rightarrow> proves)"

definition bounds_of :: "page list \<Rightarrow> (writer_id \<rightharpoonup> order_key option)" where
  "bounds_of pages =
    (let epochs = newest_epochs pages in
     foldl (\<lambda>b pg. b(pg_writer pg \<mapsto>
         (case b (pg_writer pg) of
            Some held \<Rightarrow> tighten held (page_proves epochs pg)
          | None \<Rightarrow> page_proves epochs pg))) Map.empty pages)"

definition within_horizon :: "order_key option \<Rightarrow> log_record \<Rightarrow> bool" where
  "within_horizon h r \<longleftrightarrow> (case h of None \<Rightarrow> True | Some h \<Rightarrow> \<not> h < key_of r)"

definition page_chosen :: "order_key option \<Rightarrow> nat \<Rightarrow> page \<Rightarrow> (order_key \<times> nat \<times> nat) list" where
  "page_chosen h index pg =
    map (\<lambda>(place, _, r). (key_of r, index, place))
      (takeWhile (\<lambda>(_, _, r). within_horizon h r) (enumerate 0 (pg_records pg)))"

definition all_chosen :: "page list \<Rightarrow> (order_key \<times> nat \<times> nat) list" where
  "all_chosen pages =
    concat (map (\<lambda>(index, pg). page_chosen (Option.bind (bounds_of pages (pg_writer pg)) id) index pg)
      (enumerate 0 pages))"

definition in_writer_order :: "page list \<Rightarrow> (nat \<times> nat) list" where
  "in_writer_order pages = map snd (sort (all_chosen pages))"

section \<open>Applying a round\<close>

fun parted_pages :: "'s store_env \<Rightarrow> page list \<Rightarrow> 's \<Rightarrow> apply_error + unit" where
  "parted_pages env [] s = Inr ()"
| "parted_pages env (pg # pages) s =
    bindR (refuse_a_parted_history env (pg_log pg) (pg_from pg) (pg_previous pg) s)
      (\<lambda>_. parted_pages env pages s)"

fun apply_picks ::
  "'s store_env \<Rightarrow> page list \<Rightarrow> (nat \<times> nat) list \<Rightarrow> u64 list \<Rightarrow> sequence option list \<Rightarrow> 's
    \<Rightarrow> 's \<times> (apply_error + sequence option list)" where
  "apply_picks env pages [] previous reached s = (s, Inr reached)"
| "apply_picks env pages ((index, place) # picks) previous reached s =
    (if index < length pages \<and> index < length previous \<and> place < length (pg_records (pages ! index))
     then
       (let (at, r) = pg_records (pages ! index) ! place in
        case land_from_stream env (pg_log (pages ! index)) at (previous ! index) r s of
          (s, Inl e) \<Rightarrow> (s, Inl e)
        | (s, Inr _) \<Rightarrow>
            apply_picks env pages picks (previous[index := lr_epoch r])
              (if index < length reached then reached[index := Some at] else reached) s)
     else apply_picks env pages picks previous reached s)"

definition apply_pages ::
  "'s store_env \<Rightarrow> page list \<Rightarrow> 's \<Rightarrow> 's \<times> (apply_error + sequence option list)" where
  "apply_pages env pages s =
    (case parted_pages env pages s of
       Inl e \<Rightarrow> (s, Inl e)
     | Inr _ \<Rightarrow>
         apply_picks env pages (in_writer_order pages) (map pg_previous pages)
           (replicate (length pages) None) s)"

text \<open>One sync for the round, on a refusal too, before it answers.\<close>

definition apply_in_writer_order ::
  "('s \<Rightarrow> 's \<times> unit kv_result) \<Rightarrow> 's store_env \<Rightarrow> page list \<Rightarrow> 's
    \<Rightarrow> 's \<times> (apply_error + sequence option list)" where
  "apply_in_writer_order sync env pages s =
    (case apply_pages env pages s of
       (s, applied) \<Rightarrow>
         (case sync s of
            (s, Inl e) \<Rightarrow> (s, Inl (Landing e))
          | (s, Inr _) \<Rightarrow> (s, applied)))"

definition sync_applied :: "'s \<Rightarrow> 's \<times> unit kv_result" where
  "sync_applied s = (s, Inr ())"

section \<open>The bound of a writer\<close>

definition bounds_over :: "(writer_id \<rightharpoonup> u64) \<Rightarrow> page list \<Rightarrow> (writer_id \<rightharpoonup> order_key option)" where
  "bounds_over epochs pages =
     foldl (\<lambda>b pg. b(pg_writer pg \<mapsto>
         (case b (pg_writer pg) of
            Some held \<Rightarrow> tighten held (page_proves epochs pg)
          | None \<Rightarrow> page_proves epochs pg))) Map.empty pages"

lemma bounds_of_over: "bounds_of pages = bounds_over (newest_epochs pages) pages"
  by (simp add: bounds_of_def bounds_over_def Let_def)

lemma bounds_over_snoc:
  "bounds_over epochs (pages @ [pg]) = (bounds_over epochs pages)(pg_writer pg \<mapsto>
     (case bounds_over epochs pages (pg_writer pg) of
        Some held \<Rightarrow> tighten held (page_proves epochs pg)
      | None \<Rightarrow> page_proves epochs pg))"
  by (simp add: bounds_over_def)

text \<open>A writer's bound is at or below what each of its pages proves, and there is one as
soon as one page proves something.\<close>

lemma bounds_over_le:
  assumes "pg \<in> set pages" "page_proves epochs pg = Some p"
  shows "\<exists>h. bounds_over epochs pages (pg_writer pg) = Some (Some h) \<and> h \<le> p"
  using assms(1)
proof (induction pages rule: rev_induct)
  case (snoc q pages)
  show ?case
  proof (cases "pg \<in> set pages")
    case True
    then obtain h where "bounds_over epochs pages (pg_writer pg) = Some (Some h)" "h \<le> p" using snoc by blast
    then show ?thesis
      by (cases "page_proves epochs q"; cases "pg_writer pg = pg_writer q")
        (simp_all add: bounds_over_snoc tighten_def min_le_iff_disj del: split_paired_Ex)
  next
    case False
    then have "q = pg" using snoc.prems by simp
    then show ?thesis using assms(2)
      by (cases "bounds_over epochs pages (pg_writer pg)")
        (simp_all add: bounds_over_snoc tighten_def del: split_paired_Ex split: option.split)
  qed
qed simp

definition horizon_of :: "page list \<Rightarrow> page \<Rightarrow> order_key option" where
  "horizon_of pages pg = Option.bind (bounds_of pages (pg_writer pg)) id"

section \<open>What is chosen\<close>

definition chosen_count :: "page list \<Rightarrow> page \<Rightarrow> nat" where
  "chosen_count pages pg = length (takeWhile (\<lambda>(_, r). within_horizon (horizon_of pages pg) r) (pg_records pg))"

definition place_key :: "page list \<Rightarrow> nat \<times> nat \<Rightarrow> order_key" where
  "place_key pages ip = key_of (snd (pg_records (pages ! fst ip) ! snd ip))"

lemma takeWhile_enumerate:
  "takeWhile (\<lambda>(_, _, r). Q r) (enumerate n xs) = enumerate n (takeWhile (\<lambda>(_, r). Q r) xs)"
  by (induction xs arbitrary: n) (auto split: prod.splits)

lemma enumerate_upt: "enumerate 0 xs = map (\<lambda>i. (i, xs ! i)) [0 ..< length xs]"
  by (rule nth_equalityI) (simp_all add: nth_enumerate_eq)

lemma page_chosen_eq:
  "page_chosen h i pg = map (\<lambda>p. (key_of (snd (pg_records pg ! p)), i, p))
    [0 ..< length (takeWhile (\<lambda>(_, r). within_horizon h r) (pg_records pg))]"
  unfolding page_chosen_def takeWhile_enumerate
  unfolding enumerate_upt by (simp add: comp_def takeWhile_nth split_beta')

lemma all_chosen_eq:
  "all_chosen pages = concat (map (\<lambda>i. map (\<lambda>p. (place_key pages (i, p), i, p))
    [0 ..< chosen_count pages (pages ! i)]) [0 ..< length pages])"
  unfolding all_chosen_def enumerate_upt
  by (simp add: comp_def page_chosen_eq chosen_count_def horizon_of_def place_key_def)

lemma set_all_chosen:
  "set (all_chosen pages) = {(place_key pages (i, p), i, p) | i p. i < length pages \<and> p < chosen_count pages (pages ! i)}"
  by (auto simp: all_chosen_eq)

lemma distinct_all_chosen: "distinct (all_chosen pages)"
proof -
  have "distinct (concat (map (\<lambda>i. map (\<lambda>p. (f i p, i, p)) [0 ..< c i]) [0 ..< n]))"
    for f :: "nat \<Rightarrow> nat \<Rightarrow> order_key" and c :: "nat \<Rightarrow> nat" and n
    by (induction n) (auto simp: distinct_map inj_on_def)
  then show ?thesis unfolding all_chosen_eq .
qed

text \<open>What a round applies: from each page the records before the first past the bound of
its writer, each once.\<close>

lemma set_in_writer_order:
  "set (in_writer_order pages) = {(i, p). i < length pages \<and> p < chosen_count pages (pages ! i)}"
  unfolding in_writer_order_def set_map set_sort set_all_chosen by (auto simp: image_iff)

lemma sorted_in_writer_order:
  "sorted_wrt (\<lambda>x y. (place_key pages x, x) < (place_key pages y, y)) (in_writer_order pages)"
proof -
  let ?xs = "sort (all_chosen pages)"
  have "sorted_wrt (<) ?xs" using distinct_all_chosen by (simp add: strict_sorted_iff)
  then have "sorted_wrt (\<lambda>a b. (place_key pages (snd a), snd a) < (place_key pages (snd b), snd b)) ?xs"
    by (rule sorted_wrt_mono_rel [rotated]) (auto simp: set_all_chosen)
  then show ?thesis by (simp add: in_writer_order_def sorted_wrt_map)
qed

lemma chosen_count_le: "chosen_count pages pg \<le> length (pg_records pg)"
  by (simp add: chosen_count_def length_takeWhile_le)

section \<open>What a round may leave behind\<close>

text \<open>The records of a log from the position a page begins at on, those not fetched
included; \<open>to_come\<close> gives them for every log.  A page holds a first part of them.  What
it says of the rest is what the leader states: all of it was committed after the
order a level page names.  A full page states nothing, and one that states no
order cannot be relied on.\<close>

type_synonym to_come = "log_id \<Rightarrow> (sequence \<times> log_record) list"

definition in_log_order :: "(sequence \<times> log_record) list \<Rightarrow> bool" where
  "in_log_order xs \<longleftrightarrow> sorted_wrt (\<le>) (map (\<lambda>x. key_of (snd x)) xs)"

definition page_true :: "to_come \<Rightarrow> page list \<Rightarrow> page \<Rightarrow> bool" where
  "page_true to_come pages pg \<longleftrightarrow>
    in_log_order (to_come (pg_log pg))
    \<and> (\<exists>rest. to_come (pg_log pg) = pg_records pg @ rest
         \<and> (case pg_horizon pg of
              Unstated \<Rightarrow> False
            | Full \<Rightarrow> True
            | _ \<Rightarrow> \<forall>x \<in> set rest. the (page_proves (newest_epochs pages) pg) \<le> key_of (snd x)))"

lemma page_true_proves:
  assumes "page_true to_come pages pg"
  obtains rest h where "to_come (pg_log pg) = pg_records pg @ rest" "in_log_order (pg_records pg)"
    "page_proves (newest_epochs pages) pg = Some h" "\<And>x. x \<in> set rest \<Longrightarrow> h \<le> key_of (snd x)"
proof -
  obtain rest where r: "to_come (pg_log pg) = pg_records pg @ rest" "in_log_order (pg_records pg @ rest)"
    "case pg_horizon pg of Unstated \<Rightarrow> False | Full \<Rightarrow> True
      | _ \<Rightarrow> \<forall>x \<in> set rest. the (page_proves (newest_epochs pages) pg) \<le> key_of (snd x)"
    using assms by (auto simp: page_true_def)
  have srt: "in_log_order (pg_records pg)" using r(2) by (simp add: in_log_order_def sorted_wrt_append)
  show ?thesis
  proof (cases "pg_horizon pg = Full")
    case True
    have "(if pg_records pg = [] then (0, 0) else key_of (snd (last (pg_records pg)))) \<le> key_of (snd x)"
      if "x \<in> set rest" for x
    proof (cases "pg_records pg = []")
      case True
      then show ?thesis by (cases "key_of (snd x)") (auto simp: less_eq_prod_def word_gt_0)
    next
      case False
      then show ?thesis using r(2) that by (auto simp: in_log_order_def sorted_wrt_append dest: last_in_set)
    qed
    then show ?thesis using True r(1) srt by (intro that [of rest]) (simp_all add: page_proves_def)
  next
    case False
    then show ?thesis using r srt
      by (intro that [of rest "the (page_proves (newest_epochs pages) pg)"])
        (auto simp: page_proves_def split: horizon.splits)
  qed
qed

lemma chosen_below_bound:
  assumes "p < chosen_count pages pg" "horizon_of pages pg = Some h"
  shows "key_of (snd (pg_records pg ! p)) \<le> h"
proof -
  let ?Q = "\<lambda>(_ :: sequence, r). within_horizon (horizon_of pages pg) r"
  have "?Q (pg_records pg ! p)"
    using assms(1) nth_mem [of p "takeWhile ?Q (pg_records pg)"] set_takeWhileD [of _ ?Q "pg_records pg"]
    by (fastforce simp: chosen_count_def takeWhile_nth)
  then show ?thesis using assms(2) by (auto simp: within_horizon_def)
qed

lemma chosen_unless_above:
  assumes "q < length (pg_records pg)" "in_log_order (pg_records pg)" "horizon_of pages pg = Some h"
    "key_of (snd (pg_records pg ! q)) \<le> h"
  shows "q < chosen_count pages pg"
proof (rule ccontr)
  let ?Q = "\<lambda>(_ :: sequence, r). within_horizon (horizon_of pages pg) r" and ?xs = "pg_records pg"
  let ?n = "chosen_count pages pg"
  assume "\<not> q < ?n"
  then have "?n \<le> q" "?n < length ?xs" using assms(1) by simp_all
  then have "key_of (snd (?xs ! ?n)) \<le> key_of (snd (?xs ! q))"
    using assms(1,2) by (cases "?n = q") (auto simp: in_log_order_def sorted_wrt_iff_nth_less)
  then have "?Q (?xs ! ?n)" using assms(3,4) by (auto simp: within_horizon_def split_beta')
  moreover have "\<not> ?Q (?xs ! ?n)"
    using nth_length_takeWhile [of ?Q ?xs] \<open>?n < length ?xs\<close> by (simp add: chosen_count_def)
  ultimately show False by blast
qed

lemma bound_of_page:
  assumes "pg \<in> set pages" "page_proves (newest_epochs pages) pg = Some h"
  obtains b where "horizon_of pages pg = Some b" "b \<le> h"
  using bounds_over_le [OF assms] that by (auto simp: horizon_of_def bounds_of_over)

lemma horizon_of_writer: "pg_writer pg = pg_writer pg' \<Longrightarrow> horizon_of pages pg = horizon_of pages pg'"
  by (simp add: horizon_of_def)

text \<open>Every record of a writer that is before one the round applies, in whichever of its
logs, is applied in the round.\<close>

lemma earlier_chosen:
  assumes ip: "(i, p) \<in> set (in_writer_order pages)"
    and j: "j < length pages" "pg_writer (pages ! j) = pg_writer (pages ! i)"
    and true: "page_true to_come pages (pages ! j)"
    and x: "x \<in> set (to_come (pg_log (pages ! j)))" "key_of (snd x) < place_key pages (i, p)"
  shows "\<exists>q. (j, q) \<in> set (in_writer_order pages) \<and> pg_records (pages ! j) ! q = x"
proof -
  obtain rest h where r: "to_come (pg_log (pages ! j)) = pg_records (pages ! j) @ rest"
    "in_log_order (pg_records (pages ! j))" "page_proves (newest_epochs pages) (pages ! j) = Some h"
    "\<And>y. y \<in> set rest \<Longrightarrow> h \<le> key_of (snd y)"
    using page_true_proves [OF true] by metis
  obtain b where b: "horizon_of pages (pages ! j) = Some b" "b \<le> h"
    using bound_of_page [OF _ r(3)] j(1) by auto
  have i: "i < length pages" "p < chosen_count pages (pages ! i)" using ip by (simp_all add: set_in_writer_order)
  have "place_key pages (i, p) \<le> b"
    using chosen_below_bound [OF i(2)] b(1) horizon_of_writer [OF j(2)] by (simp add: place_key_def)
  then have below: "key_of (snd x) < b" using x(2) by order
  then have "x \<notin> set rest" using r(4) [of x] b(2) by fastforce
  then obtain q where q: "q < length (pg_records (pages ! j))" "pg_records (pages ! j) ! q = x"
    using x(1) unfolding r(1) by (auto simp: in_set_conv_nth)
  then have "q < chosen_count pages (pages ! j)"
    using chosen_unless_above [OF q(1) r(2) b(1)] below by simp
  then show ?thesis using q(2) j(1) by (auto simp: set_in_writer_order)
qed

section \<open>A round is a run of the follower\<close>

text \<open>What a round offers: each record of a page, preceded by the epoch of the one before
it, the page's own before its first.\<close>

definition page_offers :: "page list \<Rightarrow> offer set" where
  "page_offers pages = {\<lparr>of_log = pg_log pg, of_at = at, of_previous = e, of_record = r\<rparr> | pg at e r.
     pg \<in> set pages \<and> (at, r) \<in> set (pg_records pg)}"

lemma follows_trans: "follows env offers v w \<Longrightarrow> follows env offers s v \<Longrightarrow> follows env offers s w"
  by (induction rule: follows.induct) (auto intro: follows_next)

lemma apply_picks_follows:
  assumes wf: "\<And>x. x \<in> page_offers pages \<Longrightarrow> offer_wf x"
    and "apply_picks env pages picks previous reached s = (t, res)"
  shows "follows env (page_offers pages) s t"
  using assms(2)
proof (induction picks arbitrary: previous reached s)
  case Nil
  then show ?case by (auto intro: follows_none)
next
  case (Cons ip picks)
  obtain index place where ip: "ip = (index, place)" by fastforce
  show ?case
  proof (cases "index < length pages \<and> index < length previous \<and> place < length (pg_records (pages ! index))")
    case True
    obtain at r where x: "pg_records (pages ! index) ! place = (at, r)" by fastforce
    let ?x = "\<lparr>of_log = pg_log (pages ! index), of_at = at, of_previous = previous ! index, of_record = r\<rparr>"
    have mem: "(at, r) \<in> set (pg_records (pages ! index))" using True x nth_mem by metis
    have off: "?x \<in> page_offers pages" using True mem nth_mem by (auto simp: page_offers_def)
    obtain u a where u: "land_from_stream env (pg_log (pages ! index)) at (previous ! index) r s = (u, a)" by fastforce
    have one: "follows env (page_offers pages) s u"
      using follows_next [OF follows_none off wf [OF off]] u by (simp add: takes_def)
    show ?thesis
    proof (cases a)
      case (Inl e)
      then show ?thesis using Cons.prems ip True x u one by simp
    next
      case (Inr b)
      then have "apply_picks env pages picks (previous[index := lr_epoch r])
          (if index < length reached then reached[index := Some at] else reached) u = (t, res)"
        using Cons.prems ip True x u by simp
      then show ?thesis using follows_trans [OF Cons.IH one] by blast
    qed
  next
    case False
    then show ?thesis using Cons ip by auto
  qed
qed

lemma apply_pages_follows:
  assumes "\<And>x. x \<in> page_offers pages \<Longrightarrow> offer_wf x" "apply_pages env pages s = (t, res)"
  shows "follows env (page_offers pages) s t"
  using assms(2) apply_picks_follows [OF assms(1)]
  by (auto simp: apply_pages_def split: sum.splits intro: follows_none)

text \<open>A round that answers has the records of its pages, each once, in the order of the
picks: what it reached in a page is the last place of the page it picked.\<close>

definition page_reaches :: "page list \<Rightarrow> (nat \<times> nat) list \<Rightarrow> sequence option list \<Rightarrow> nat \<Rightarrow> sequence option" where
  "page_reaches pages picks reached i =
    (let xs = filter (\<lambda>x. fst x = i) picks in
     if xs = [] then reached ! i else Some (fst (pg_records (pages ! i) ! snd (last xs))))"

lemma apply_picks_reaches:
  assumes "apply_picks env pages picks previous reached s = (t, Inr res)"
    and "length previous = length pages" "length reached = length pages"
    and "\<And>i p. (i, p) \<in> set picks \<Longrightarrow> i < length pages \<and> p < length (pg_records (pages ! i))"
  shows "length res = length pages \<and> (\<forall>i < length pages. res ! i = page_reaches pages picks reached i)"
  using assms
proof (induction picks arbitrary: previous reached s)
  case Nil
  then show ?case by (simp add: page_reaches_def)
next
  case (Cons ip picks)
  obtain index place where ip: "ip = (index, place)" by fastforce
  have b: "index < length pages" "place < length (pg_records (pages ! index))" using Cons.prems(4) [of index place] ip by simp_all
  obtain at r where x: "pg_records (pages ! index) ! place = (at, r)" by fastforce
  obtain u a where u: "land_from_stream env (pg_log (pages ! index)) at (previous ! index) r s = (u, Inr a)"
    "apply_picks env pages picks (previous[index := lr_epoch r]) (reached[index := Some at]) u = (t, Inr res)"
    using Cons.prems(1-3) ip b x by (auto split: prod.splits sum.splits)
  have "(i, p) \<in> set picks \<Longrightarrow> i < length pages \<and> p < length (pg_records (pages ! i))" for i p
    using Cons.prems(4) by (meson list.set_intros(2))
  from Cons.IH [OF u(2) _ _ this]
  have "length res = length pages \<and> (\<forall>i < length pages. res ! i = page_reaches pages picks (reached[index := Some at]) i)"
    using Cons.prems(2,3) by simp
  moreover have "page_reaches pages picks (reached[index := Some at]) i = page_reaches pages (ip # picks) reached i"
    if "i < length pages" for i
    using that ip x b Cons.prems(3) by (auto simp: page_reaches_def Let_def)
  ultimately show ?case by simp
qed

lemma picks_of_page:
  assumes "i < length pages" "in_log_order (pg_records (pages ! i))"
  shows "filter (\<lambda>x. fst x = i) (in_writer_order pages) = map (Pair i) [0 ..< chosen_count pages (pages ! i)]"
proof -
  let ?xs = "filter (\<lambda>x. fst x = i) (in_writer_order pages)" and ?n = "chosen_count pages (pages ! i)"
  have mem: "x \<in> set ?xs \<longleftrightarrow> (\<exists>p < ?n. x = (i, p))" for x
    using assms(1) by (cases x) (auto simp: set_in_writer_order)
  have up: "p < q" if "(place_key pages (i, p), i, p) < (place_key pages (i, q), i, q)" "p < ?n" for p q
  proof (rule ccontr)
    assume "\<not> p < q"
    then have "place_key pages (i, q) \<le> place_key pages (i, p)"
      using assms(2) that(2) chosen_count_le [of pages "pages ! i"]
      by (cases "p = q") (auto simp: place_key_def in_log_order_def sorted_wrt_iff_nth_less)
    then show False using that(1) \<open>\<not> p < q\<close> by auto
  qed
  have "sorted_wrt (\<lambda>x y. (place_key pages x, x) < (place_key pages y, y)) ?xs"
    by (rule sorted_wrt_filter [OF sorted_in_writer_order])
  then have "sorted_wrt (\<lambda>x y. snd x < snd y) ?xs"
    by (rule sorted_wrt_mono_rel [rotated]) (metis mem snd_conv up)
  then have "sorted_wrt (<) (map snd ?xs)" by (simp add: sorted_wrt_map)
  moreover have "set (map snd ?xs) = set [0 ..< ?n]" using mem by (force simp del: set_filter)
  ultimately have snds: "map snd ?xs = [0 ..< ?n]"
    by (intro strict_sorted_equal) (simp_all add: sorted_wrt_upt)
  have "?xs = map (Pair i) (map snd ?xs)" unfolding map_map by (rule map_idI [symmetric]) (auto simp: mem)
  then show ?thesis unfolding snds .
qed

lemma page_reaches_last:
  assumes "i < length pages" "in_log_order (pg_records (pages ! i))"
  shows "page_reaches pages (in_writer_order pages) (replicate (length pages) None) i =
    (let n = chosen_count pages (pages ! i) in
     if n = 0 then None else Some (fst (pg_records (pages ! i) ! (n - 1))))"
  using assms(1)
  by (cases "chosen_count pages (pages ! i)") (simp_all add: page_reaches_def picks_of_page [OF assms])

lemma picks_in_pages:
  "(i, p) \<in> set (in_writer_order pages) \<Longrightarrow> i < length pages \<and> p < length (pg_records (pages ! i))"
  using chosen_count_le [of pages "pages ! i"] by (auto simp: set_in_writer_order)

context kv_backend
begin

lemma apply_picks_held:
  assumes "apply_picks env pages picks previous reached s = (t, Inr res)" "length previous = length pages"
    and "\<And>i p. (i, p) \<in> set picks \<Longrightarrow> i < length pages \<and> p < length (pg_records (pages ! i))"
    and "ok s" "over env" "derives_off_log env" "whole_logs (maps s)"
    and wf: "\<And>x. x \<in> page_offers pages \<Longrightarrow> offer_wf x \<and> of_at x \<noteq> 0"
    and "(i, p) \<in> set picks"
  shows "entry (maps t) (pg_log (pages ! i)) (fst (pg_records (pages ! i) ! p)) \<noteq> None"
  using assms(1-4,7,9)
proof (induction picks arbitrary: previous reached s)
  case (Cons ip picks)
  obtain index place where ip: "ip = (index, place)" by fastforce
  have b: "index < length pages" "place < length (pg_records (pages ! index))"
    using Cons.prems(3) [of index place] ip by simp_all
  obtain at r where x: "pg_records (pages ! index) ! place = (at, r)" by fastforce
  let ?x = "\<lparr>of_log = pg_log (pages ! index), of_at = at, of_previous = previous ! index, of_record = r\<rparr>"
  have mem: "(at, r) \<in> set (pg_records (pages ! index))" using b x nth_mem by metis
  have off: "?x \<in> page_offers pages" using b mem nth_mem by (auto simp: page_offers_def)
  note wfx = wf [OF off]
  obtain u a reached' where u: "takes env s ?x = (u, Inr a)"
    "apply_picks env pages picks (previous[index := lr_epoch r]) reached' u = (t, Inr res)"
    using Cons.prems(1,2) ip b x by (auto simp: takes_def split: prod.splits sum.splits)
  have one: "follows env (page_offers pages) s u"
    using follows_next [OF follows_none off _ u(1)] wfx by blast
  note v = follows_whole [OF one Cons.prems(4) assms(5,6) Cons.prems(5)]
  have all: "follows env (page_offers pages) u t" using apply_picks_follows [OF _ u(2)] wf by blast
  obtain n where n: "holds_to (maps s) (of_log ?x) n"
    using Cons.prems(5) wfx by (auto simp: whole_logs_def offer_wf_def)
  have "entry (maps u) (of_log ?x) (of_at ?x) \<noteq> None"
    using takes_answered [OF Cons.prems(4) assms(5,6) _ u(1) n] wfx by blast
  then have held: "entry (maps t) (pg_log (pages ! index)) at \<noteq> None"
    using follows_whole [OF all _ assms(5,6)] v wfx by (auto simp: offer_wf_def)
  show ?case
  proof (cases "(i, p) = ip")
    case True
    then show ?thesis using held ip x by simp
  next
    case False
    then have "(i, p) \<in> set picks" using Cons.prems(6) by simp
    then show ?thesis
      using v Cons.prems(2,3) by (intro Cons.IH [OF u(2)]) auto
  qed
qed simp

end

section \<open>Properties\<close>

definition example_page :: page where
  "example_page = \<lparr>pg_log = log_line Store, pg_from = 1, pg_previous = 0,
    pg_records = [(1, example_record)], pg_horizon = LevelAt 1 0\<rparr>"

definition finer_page :: page where
  "finer_page = \<lparr>pg_log = log_line (Database 1 2), pg_from = 1, pg_previous = 0,
    pg_records = [(1, log_record_at 0 []), (2, log_record_at 2 [])], pg_horizon = Full\<rparr>"

text \<open>C13: a round keeps a writer's order over all its logs: when it applies a record, every
record of that writer committed before it, in whichever log it is filed and whether
the round fetched it or not, is one the round applied earlier.  What the leader
states of each page is taken as true, and the pages of the writer state an order.\<close>

theorem writers_order_is_kept:
  assumes "k < length (in_writer_order pages)" "in_writer_order pages ! k = (i, p)"
    and "j < length pages" "pg_writer (pages ! j) = pg_writer (pages ! i)"
    and "page_true to_come pages (pages ! j)"
    and "x \<in> set (to_come (pg_log (pages ! j)))"
    and "key_of (snd x) < key_of (snd (pg_records (pages ! i) ! p))"
  shows "\<exists>m q. m < k \<and> in_writer_order pages ! m = (j, q) \<and> pg_records (pages ! j) ! q = x"
proof -
  have ip: "(i, p) \<in> set (in_writer_order pages)" using assms(1,2) by (metis nth_mem)
  obtain q where q: "(j, q) \<in> set (in_writer_order pages)" "pg_records (pages ! j) ! q = x"
    using earlier_chosen [OF ip assms(3-6)] assms(7) by (auto simp: place_key_def)
  then obtain m where m: "m < length (in_writer_order pages)" "in_writer_order pages ! m = (j, q)"
    by (auto simp: in_set_conv_nth)
  have less: "place_key pages (j, q) < place_key pages (i, p)" using assms(7) q(2) by (simp add: place_key_def)
  have "m < k"
  proof (rule ccontr)
    assume "\<not> m < k"
    then have "m = k \<or> (place_key pages (i, p), i, p) < (place_key pages (j, q), j, q)"
      using sorted_wrt_nth_less [OF sorted_in_writer_order [of pages], of k m] m assms(2) by force
    then show False using less m(2) assms(2) by auto
  qed
  then show ?thesis using m(2) q(2) by blast
qed

lemma two_pages:
  "in_writer_order [example_page, finer_page] = [(1, 0), (0, 0)]"
  "in_log_order (pg_records example_page)" "chosen_count [example_page, finer_page] example_page = 1"
proof -
  have b: "bounds_of [example_page, finer_page] LINE = Some (Some (1, 0))"
    by (simp add: bounds_of_def newest_epochs_def newest_step_def example_page_def finer_page_def page_proves_def
        tighten_def key_of_def order_of_def log_record_at_def log_line_def log_new_def example_record_def min_def)
  then have "all_chosen [example_page, finer_page] = [((1, 0), 0, 0), ((0, 0), 1, 0)]"
    by (simp add: all_chosen_def page_chosen_def within_horizon_def example_page_def finer_page_def
        key_of_def order_of_def log_record_at_def log_line_def log_new_def example_record_def)
  then show "in_writer_order [example_page, finer_page] = [(1, 0), (0, 0)]"
    by (simp add: in_writer_order_def)
  show "in_log_order (pg_records example_page)"
    by (simp add: in_log_order_def example_page_def)
  show "chosen_count [example_page, finer_page] example_page = 1"
    using b by (simp add: chosen_count_def horizon_of_def within_horizon_def example_page_def
        key_of_def order_of_def log_record_at_def log_line_def log_new_def example_record_def)
qed

theorem writers_order_is_kept_witness:
  "\<exists>m q. m < 1 \<and> in_writer_order [example_page, finer_page] ! m = (1, q)
    \<and> pg_records ([example_page, finer_page] ! 1) ! q = (1, log_record_at 0 [])"
proof -
  let ?come = "(\<lambda>_. pg_records finer_page @ [(3, log_record_at 2 [])]) :: to_come"
  have "page_true ?come [example_page, finer_page] ([example_page, finer_page] ! 1)"
    by (simp add: page_true_def in_log_order_def finer_page_def key_of_def order_of_def log_record_at_def)
  then show ?thesis
    using writers_order_is_kept [of 1 "[example_page, finer_page]" 0 0 1 ?come "(1, log_record_at 0 [])"]
    unfolding two_pages(1)
    by (simp add: example_page_def finer_page_def log_line_def log_new_def example_record_def
        key_of_def order_of_def log_record_at_def)
qed

text \<open>What a round answers is what the store holds: for each page, the position of the
last record before the first one past the bound of its writer, none where that
is the first record; and the log of the page holds an entry there.\<close>

theorem round_answers_what_it_holds:
  assumes "memory_ok s" "over_memory env" "derives_off_log env" "whole_logs (memory_maps s)"
    and "\<And>x. x \<in> page_offers pages \<Longrightarrow> offer_wf x \<and> of_at x \<noteq> 0"
    and "apply_in_writer_order sync_applied env pages s = (t, Inr reached)"
    and "i < length pages" "in_log_order (pg_records (pages ! i))"
  shows "length reached = length pages
    \<and> reached ! i = (let n = chosen_count pages (pages ! i) in
        if n = 0 then None else Some (fst (pg_records (pages ! i) ! (n - 1))))
    \<and> (\<forall>at. reached ! i = Some at \<longrightarrow> entry (memory_maps t) (pg_log (pages ! i)) at \<noteq> None)"
proof -
  have a: "apply_picks env pages (in_writer_order pages) (map pg_previous pages)
      (replicate (length pages) None) s = (t, Inr reached)"
    using assms(6) by (auto simp: apply_in_writer_order_def sync_applied_def apply_pages_def split: sum.splits prod.splits)
  have r: "length reached = length pages"
    "reached ! i = (let n = chosen_count pages (pages ! i) in
        if n = 0 then None else Some (fst (pg_records (pages ! i) ! (n - 1))))"
    using apply_picks_reaches [OF a _ _ picks_in_pages] assms(7) page_reaches_last [OF assms(7,8)] by simp_all
  have "entry (memory_maps t) (pg_log (pages ! i)) (fst (pg_records (pages ! i) ! p)) \<noteq> None"
    if "(i, p) \<in> set (in_writer_order pages)" for p
    using that assms(5)
    by (intro memory.apply_picks_held [OF a _ picks_in_pages assms(1) assms(2) [unfolded over_memory] assms(3,4)]) auto
  then have "reached ! i = Some at \<Longrightarrow> entry (memory_maps t) (pg_log (pages ! i)) at \<noteq> None" for at
    using assms(7) by (auto simp: r(2) Let_def set_in_writer_order split: if_splits)
  then show ?thesis using r by blast
qed

lemma one_page:
  "in_writer_order [example_page] = [(0, 0)]" "chosen_count [example_page] example_page = 1"
proof -
  have b: "bounds_of [example_page] LINE = Some (Some (1, 0))"
    by (simp add: bounds_of_def newest_epochs_def newest_step_def example_page_def page_proves_def
        log_line_def log_new_def)
  then have "all_chosen [example_page] = [((1, 0), 0, 0)]"
    by (simp add: all_chosen_def page_chosen_def within_horizon_def example_page_def
        key_of_def order_of_def log_record_at_def log_line_def log_new_def example_record_def)
  then show "in_writer_order [example_page] = [(0, 0)]" by (simp add: in_writer_order_def)
  show "chosen_count [example_page] example_page = 1"
    using b by (simp add: chosen_count_def horizon_of_def within_horizon_def example_page_def
        key_of_def order_of_def log_record_at_def log_line_def log_new_def example_record_def)
qed

end
