(* ===== verification/Grant.thy ===== *)
theory Grant
  imports Store_Keys Lease
begin

text \<open>How a set of voting members agrees that one candidate holds an epoch (grant.rs,
grant/voter.rs, grant/round.rs and grant/deciding.rs of tessari-wire): the ballot
and the vote with their bodies on the wire, the memory of one voter and the rules
by which it answers, the round of a candidate, and the one voting memory of a node
with a line per placed range.\<close>

section \<open>Bodies on the wire\<close>

datatype wire_error =
    Malformed
  | UnknownFrame u8
  | Io
  | NotThisProtocol
  | WrongVersion u8 u8
  | TooLarge u32
  | TruncatedFrame
  | Stalled
  | UnknownRoles u8
  | Unidentified
  | NotAPeerCredential
  | IdentityDisagrees bytes bytes
  | ClaimsOurOwnIdentity bytes
  | WireEncoding enc_error

definition body_get :: "bytes \<Rightarrow> nat \<Rightarrow> nat \<Rightarrow> wire_error + bytes" where
  "body_get from at end_at =
    (if at \<le> end_at \<and> end_at \<le> length from then Inr (take (end_at - at) (drop at from))
     else Inl Malformed)"

definition wire_take_u64 :: "bytes \<Rightarrow> nat \<Rightarrow> wire_error + u64 \<times> nat" where
  "wire_take_u64 from at =
    bindR (body_get from at (at + 8)) (\<lambda>bs. Inr (u64_value bs, at + 8))"

definition wire_take_u32 :: "bytes \<Rightarrow> nat \<Rightarrow> wire_error + u32 \<times> nat" where
  "wire_take_u32 from at =
    bindR (body_get from at (at + 4)) (\<lambda>bs. Inr (u32_value bs, at + 4))"

definition reach_body :: "u8 \<Rightarrow> u32 \<Rightarrow> u32 \<Rightarrow> bytes" where
  "reach_body variant ns db = variant # u32_bytes ns @ u32_bytes db"

fun wire_put_reach :: "bytes \<Rightarrow> reach \<Rightarrow> bytes" where
  "wire_put_reach into Store = into @ reach_body 0 0 0"
| "wire_put_reach into (Namespace ns) = into @ reach_body 1 ns 0"
| "wire_put_reach into (Database ns db) = into @ reach_body 2 ns db"
| "wire_put_reach into (Shard ns db tb sh) =
    into @ reach_body 3 ns db @ u32_bytes tb @ u32_bytes sh"

definition wire_take_reach :: "bytes \<Rightarrow> nat \<Rightarrow> wire_error + reach \<times> nat" where
  "wire_take_reach from at =
    bindR (body_get from at (at + 1)) (\<lambda>variant.
    bindR (wire_take_u32 from (at + 1)) (\<lambda>(ns, at).
    bindR (wire_take_u32 from at) (\<lambda>(db, at).
      if hd variant = 0 then Inr (Store, at)
      else if hd variant = 1 then Inr (Namespace ns, at)
      else if hd variant = 2 then Inr (Database ns db, at)
      else if hd variant = 3 then
        bindR (wire_take_u32 from at) (\<lambda>(tb, after).
        bindR (wire_take_u32 from after) (\<lambda>(sh, after).
          if sh = 0 then Inl Malformed else Inr (Shard ns db tb sh, after)))
      else Inl Malformed)))"

section \<open>Ballots and votes\<close>

type_synonym node = bytes
type_synonym epoch = u64

record ballot =
  b_epoch :: epoch
  b_candidate :: node
  b_range :: reach

definition ballot_encode :: "ballot \<Rightarrow> bytes" where
  "ballot_encode b =
    (let body = u64_bytes (b_epoch b) @ b_candidate b
     in if b_range b \<noteq> Store then wire_put_reach body (b_range b) else body)"

definition ballot_decode :: "bytes \<Rightarrow> wire_error + ballot" where
  "ballot_decode body =
    bindR (wire_take_u64 body 0) (\<lambda>(e, at).
    bindR (body_get body at (at + NODE_ID_LEN)) (\<lambda>c.
    bindR (if at + NODE_ID_LEN < length body
           then bindR (wire_take_reach body (at + NODE_ID_LEN)) (\<lambda>(r, _). Inr r)
           else Inr Store) (\<lambda>r.
      Inr \<lparr>b_epoch = e, b_candidate = c, b_range = r\<rparr>)))"

record reached =
  leadership :: epoch
  tail :: sequence

definition behind :: "reached \<Rightarrow> reached \<Rightarrow> bool" where
  "behind mine other \<longleftrightarrow>
    (if leadership mine < leadership other then True
     else if leadership other < leadership mine then False
     else tail mine < tail other)"

datatype refused =
    EpochAlreadyDecided epoch
  | EarlierGrantStillAlive duration
  | TooSoonAfterStarting duration
  | LogBehind epoch sequence
  | NotPlaced

datatype vote = Granted duration | Refused refused

definition millis :: "duration \<Rightarrow> u64" where
  "millis d = (if as_millis d < 2 ^ 64 then of_nat (as_millis d) else - 1)"

fun vote_encode :: "vote \<Rightarrow> bytes" where
  "vote_encode (Granted h) = 0 # u64_bytes (millis h)"
| "vote_encode (Refused (EpochAlreadyDecided e)) = 1 # u64_bytes e"
| "vote_encode (Refused (EarlierGrantStillAlive d)) = 2 # u64_bytes (millis d)"
| "vote_encode (Refused (TooSoonAfterStarting d)) = 3 # u64_bytes (millis d)"
| "vote_encode (Refused (LogBehind e s)) = 4 # u64_bytes e @ u64_bytes s"
| "vote_encode (Refused NotPlaced) = [5]"

definition vote_decode :: "bytes \<Rightarrow> wire_error + vote" where
  "vote_decode body =
    (case body of
       [] \<Rightarrow> Inl Malformed
     | t # _ \<Rightarrow>
         if t = 0 \<and> length body = 1 then Inr (Granted TTL)
         else if t = 0 then
           bindR (wire_take_u64 body 1) (\<lambda>(h, _). Inr (Granted (from_millis (unat h))))
         else if t = 1 then
           bindR (wire_take_u64 body 1) (\<lambda>(e, _). Inr (Refused (EpochAlreadyDecided e)))
         else if t = 2 then
           bindR (wire_take_u64 body 1) (\<lambda>(d, _).
             Inr (Refused (EarlierGrantStillAlive (from_millis (unat d)))))
         else if t = 3 then
           bindR (wire_take_u64 body 1) (\<lambda>(d, _).
             Inr (Refused (TooSoonAfterStarting (from_millis (unat d)))))
         else if t = 4 then
           bindR (wire_take_u64 body 1) (\<lambda>(e, at).
           bindR (wire_take_u64 body at) (\<lambda>(s, _). Inr (Refused (LogBehind e s))))
         else if t = 5 then Inr (Refused NotPlaced)
         else Inl (UnknownFrame t))"

section \<open>The memory of a voter\<close>

definition free_at :: "instant \<Rightarrow> duration \<Rightarrow> instant" where
  "free_at at d = or_else (checked_add at d) at"

record grant =
  g_epoch :: epoch
  g_candidate :: node
  g_at :: instant
  g_hold :: duration

record voter =
  started :: instant
  v_hold :: duration
  granted :: "grant option"
  v_seen :: epoch

definition started_at :: "instant \<Rightarrow> voter" where
  "started_at t = \<lparr>started = t, v_hold = TTL, granted = None, v_seen = 0\<rparr>"

definition holding_for :: "duration \<Rightarrow> voter \<Rightarrow> voter" where
  "holding_for d v = v\<lparr>v_hold := d\<rparr>"

definition hold_for :: "duration \<Rightarrow> voter \<Rightarrow> voter" where
  "hold_for d v = v\<lparr>v_hold := d\<rparr>"

definition granted_epoch :: "voter \<Rightarrow> epoch option" where
  "granted_epoch v = map_option g_epoch (granted v)"

definition granted_elsewhere_at :: "node \<Rightarrow> voter \<Rightarrow> instant option" where
  "granted_elsewhere_at me v =
    (case granted v of
       Some g \<Rightarrow> if g_candidate g \<noteq> me then Some (g_at g) else None
     | None \<Rightarrow> None)"

definition voter_free_at :: "voter \<Rightarrow> instant option" where
  "voter_free_at v = map_option (\<lambda>g. free_at (g_at g) (g_hold g)) (granted v)"

text \<open>The last part of an answer: the epoch is adopted, a voter that has granted nothing
since it started sits out one lease, and otherwise the grant is recorded.\<close>

definition adopt :: "voter \<Rightarrow> ballot \<Rightarrow> instant \<Rightarrow> voter \<times> vote" where
  "adopt v b now =
    (let v = v\<lparr>v_seen := max (v_seen v) (b_epoch b)\<rparr>;
         settled = free_at (started v) (max (v_hold v) TTL)
     in if granted v = None \<and> now < settled
        then (v, Refused (TooSoonAfterStarting (saturating_duration_since settled now)))
        else (v\<lparr>granted := Some \<lparr>g_epoch = b_epoch b, g_candidate = b_candidate b,
                 g_at = now, g_hold = v_hold v\<rparr>\<rparr>, Granted (v_hold v)))"

definition renewing :: "voter \<Rightarrow> ballot \<Rightarrow> reached \<Rightarrow> bool" where
  "renewing v b mine \<longleftrightarrow>
    (case granted v of
       Some g \<Rightarrow> g_candidate g = b_candidate b \<and> g_epoch g = b_epoch b
     | None \<Rightarrow> False)
    \<and> leadership mine = b_epoch b"

definition asked :: "voter \<Rightarrow> ballot \<Rightarrow> instant \<Rightarrow> reached \<Rightarrow> reached \<Rightarrow> voter \<times> vote" where
  "asked v b now mine candidate =
    (if \<not> renewing v b mine \<and> behind candidate mine
     then (v, Refused (LogBehind (leadership mine) (tail mine)))
     else if b_epoch b < v_seen v then (v, Refused (EpochAlreadyDecided (v_seen v)))
     else
       (case granted v of
          None \<Rightarrow> adopt v b now
        | Some g \<Rightarrow>
            let incumbent = (b_candidate b = g_candidate g);
                free = free_at (g_at g) (g_hold g)
            in if b_epoch b < g_epoch g \<or> b_epoch b = g_epoch g \<and> \<not> incumbent
               then (v, Refused (EpochAlreadyDecided (g_epoch g)))
               else if \<not> incumbent \<and> now < free
               then (v, Refused (EarlierGrantStillAlive (saturating_duration_since free now)))
               else adopt v b now))"

definition carried :: "voter \<Rightarrow> ballot \<Rightarrow> instant \<Rightarrow> voter \<times> (epoch + unit)" where
  "carried v b now =
    (case granted v of
       Some g \<Rightarrow>
         if b_epoch b < g_epoch g then (v, Inl (g_epoch g))
         else
           (v\<lparr>v_seen := max (v_seen v) (b_epoch b),
              granted := Some \<lparr>g_epoch = b_epoch b, g_candidate = b_candidate b,
                g_at = now, g_hold = v_hold v\<rparr>\<rparr>, Inr ())
     | None \<Rightarrow>
         (v\<lparr>v_seen := max (v_seen v) (b_epoch b),
            granted := Some \<lparr>g_epoch = b_epoch b, g_candidate = b_candidate b,
              g_at = now, g_hold = v_hold v\<rparr>\<rparr>, Inr ()))"

section \<open>The round of a candidate\<close>

record leadership_won =
  lw_epoch :: epoch
  lw_from :: instant
  lw_length :: duration

definition leadership_lease :: "leadership_won \<Rightarrow> lease" where
  "leadership_lease l = taken_at (lw_from l) (lw_length l)"

record round =
  r_ballot :: ballot
  r_voters :: nat
  r_opened :: instant
  r_granted :: "node list"
  r_shortest :: duration

definition majority :: "nat \<Rightarrow> nat" where
  "majority voters = voters div 2 + 1"

definition opened_at :: "epoch \<Rightarrow> node \<Rightarrow> nat \<Rightarrow> instant \<Rightarrow> round" where
  "opened_at e c n t =
    \<lparr>r_ballot = \<lparr>b_epoch = e, b_candidate = c, b_range = Store\<rparr>, r_voters = n, r_opened = t,
     r_granted = [], r_shortest = TTL\<rparr>"

definition leasing :: "duration \<Rightarrow> round \<Rightarrow> round" where
  "leasing d r = r\<lparr>r_shortest := d\<rparr>"

definition over_range :: "reach \<Rightarrow> round \<Rightarrow> round" where
  "over_range rg r = r\<lparr>r_ballot := (r_ballot r)\<lparr>b_range := rg\<rparr>\<rparr>"

definition round_held :: "round \<Rightarrow> leadership_won option" where
  "round_held r =
    (if majority (r_voters r) \<le> length (r_granted r)
     then Some \<lparr>lw_epoch = b_epoch (r_ballot r), lw_from = r_opened r, lw_length = r_shortest r\<rparr>
     else None)"

definition counted :: "node \<Rightarrow> vote \<Rightarrow> round \<Rightarrow> round" where
  "counted n v r =
    (case v of
       Granted h \<Rightarrow>
         if n \<notin> set (r_granted r)
         then r\<lparr>r_granted := r_granted r @ [n], r_shortest := min (r_shortest r) h\<rparr>
         else r
     | Refused _ \<Rightarrow> r)"

definition counts :: "node \<Rightarrow> vote \<Rightarrow> round \<Rightarrow> round \<times> leadership_won option" where
  "counts n v r = (let r = counted n v r in (r, round_held r))"

definition needs :: "round \<Rightarrow> nat" where
  "needs r = majority (r_voters r) - length (r_granted r)"

section \<open>The voting memory of a node\<close>

record deciding =
  store_voter :: voter
  lines :: "reach \<rightharpoonup> voter"

definition deciding_holding :: "voter \<Rightarrow> deciding" where
  "deciding_holding v = \<lparr>store_voter = v, lines = Map.empty\<rparr>"

definition deciding_hold_for :: "duration \<Rightarrow> deciding \<Rightarrow> deciding" where
  "deciding_hold_for d m =
    m\<lparr>store_voter := hold_for d (store_voter m),
      lines := (\<lambda>rg. map_option (hold_for d) (lines m rg))\<rparr>"

definition line_voter :: "deciding \<Rightarrow> reach \<Rightarrow> voter" where
  "line_voter m rg =
    (if rg = Store then store_voter m
     else or_else (lines m rg)
       (holding_for (v_hold (store_voter m)) (started_at (started (store_voter m)))))"

definition set_line :: "reach \<Rightarrow> voter \<Rightarrow> deciding \<Rightarrow> deciding" where
  "set_line rg v m =
    (if rg = Store then m\<lparr>store_voter := v\<rparr> else m\<lparr>lines := (lines m)(rg \<mapsto> v)\<rparr>)"

text \<open>The answer of a node, with whether the grant of the store line went to a new epoch,
which is when the closure a caller registered is called.\<close>

definition deciding_asked ::
  "deciding \<Rightarrow> ballot \<Rightarrow> instant \<Rightarrow> reached \<Rightarrow> reached \<Rightarrow> deciding \<times> vote \<times> bool" where
  "deciding_asked m b now mine candidate =
    (let before = line_voter m (b_range b);
         (after, v) = asked before b now mine candidate
     in (set_line (b_range b) after m, v,
         b_range b = Store \<and> granted_epoch after \<noteq> granted_epoch before))"

definition deciding_carried :: "deciding \<Rightarrow> ballot \<Rightarrow> instant \<Rightarrow> deciding \<times> (epoch + unit)" where
  "deciding_carried m b now =
    (let (after, r) = carried (line_voter m (b_range b)) b now
     in (set_line (b_range b) after m, r))"

definition granted_elsewhere_on :: "reach \<Rightarrow> node \<Rightarrow> deciding \<Rightarrow> instant option" where
  "granted_elsewhere_on rg me m =
    (if rg = Store then granted_elsewhere_at me (store_voter m)
     else
       (case lines m rg of
          Some v \<Rightarrow> granted_elsewhere_at me v
        | None \<Rightarrow> None))"

definition deciding_decided :: "deciding \<Rightarrow> epoch option" where
  "deciding_decided m = granted_epoch (store_voter m)"

section \<open>What is read back\<close>

lemma body_get_at [take_simps]:
  assumes "at = length pre" "e = at + length xs"
  shows "body_get (pre @ xs @ rest) at e = Inr xs"
  using assms by (simp add: body_get_def)

lemma wire_take_u64_at [take_simps]:
  "at = length pre \<Longrightarrow> wire_take_u64 (pre @ u64_bytes x @ rest) at = Inr (x, at + 8)"
  by (simp add: wire_take_u64_def body_get_at)

lemma wire_take_u32_at [take_simps]:
  "at = length pre \<Longrightarrow> wire_take_u32 (pre @ u32_bytes x @ rest) at = Inr (x, at + 4)"
  by (simp add: wire_take_u32_def body_get_at)

definition reach_sent :: "reach \<Rightarrow> bool" where
  "reach_sent rg \<longleftrightarrow> (case rg of Shard _ _ _ sh \<Rightarrow> sh \<noteq> 0 | _ \<Rightarrow> True)"

lemma take_reach_body:
  assumes "at = length pre"
  shows "body_get (pre @ reach_body variant ns db @ rest) at (at + 1) = Inr [variant]"
    "wire_take_u32 (pre @ reach_body variant ns db @ rest) (at + 1) = Inr (ns, at + 5)"
    "wire_take_u32 (pre @ reach_body variant ns db @ rest) (at + 5) = Inr (db, at + 9)"
  using assms body_get_at [of at pre "at + 1" "[variant]" "u32_bytes ns @ u32_bytes db @ rest"]
    wire_take_u32_at [of "at + 1" "pre @ [variant]" ns "u32_bytes db @ rest"]
    wire_take_u32_at [of "at + 5" "pre @ variant # u32_bytes ns" db rest]
  by (simp_all add: reach_body_def)

lemma wire_reach_round_trip:
  assumes "at = length pre" "reach_sent rg"
  shows "\<exists>n. wire_take_reach (wire_put_reach pre rg) at = Inr (rg, n)"
proof (cases rg)
  case (Shard ns db tb sh)
  let ?body = "pre @ reach_body 3 ns db @ u32_bytes tb @ u32_bytes sh"
  have "wire_take_u32 ?body (at + 9) = Inr (tb, at + 13)"
    "wire_take_u32 ?body (at + 13) = Inr (sh, at + 17)"
    using assms(1) wire_take_u32_at [of "at + 9" "pre @ reach_body 3 ns db" tb "u32_bytes sh"]
      wire_take_u32_at [of "at + 13" "pre @ reach_body 3 ns db @ u32_bytes tb" sh "[]"]
    by (simp_all add: reach_body_def)
  then show ?thesis
    using assms Shard take_reach_body [OF assms(1), of 3 ns db "u32_bytes tb @ u32_bytes sh"]
    by (simp add: wire_take_reach_def reach_sent_def)
qed (use take_reach_body [OF assms(1), where rest = "[]"] in \<open>simp_all add: wire_take_reach_def\<close>)

definition ballot_wf :: "ballot \<Rightarrow> bool" where
  "ballot_wf b \<longleftrightarrow> length (b_candidate b) = NODE_ID_LEN \<and> reach_sent (b_range b)"

lemma ballot_round_trip:
  assumes "ballot_wf b"
  shows "ballot_decode (ballot_encode b) = Inr b"
proof -
  let ?head = "u64_bytes (b_epoch b) @ b_candidate b"
  have len: "length (b_candidate b) = NODE_ID_LEN" and rg: "reach_sent (b_range b)"
    using assms by (simp_all add: ballot_wf_def)
  have at: "8 + NODE_ID_LEN = length ?head" using len by simp
  obtain rest where enc: "ballot_encode b = ?head @ rest"
    and rest: "b_range b = Store \<Longrightarrow> rest = []"
    and put: "b_range b \<noteq> Store \<Longrightarrow> ?head @ rest = wire_put_reach ?head (b_range b) \<and> rest \<noteq> []"
    by (cases "b_range b") (simp_all add: ballot_encode_def reach_body_def)
  have e: "wire_take_u64 (?head @ rest) 0 = Inr (b_epoch b, 8)"
    using wire_take_u64_at [of 0 "[]" "b_epoch b"] by simp
  have c: "body_get (?head @ rest) 8 (8 + NODE_ID_LEN) = Inr (b_candidate b)"
    using body_get_at [of 8 "u64_bytes (b_epoch b)" "8 + NODE_ID_LEN" "b_candidate b" rest] len
    by simp
  show ?thesis
  proof (cases "b_range b = Store")
    case True
    then show ?thesis using enc e c rest len by (simp add: ballot_decode_def)
  next
    case False
    obtain n where "wire_take_reach (wire_put_reach ?head (b_range b)) (8 + NODE_ID_LEN)
        = Inr (b_range b, n)"
      using wire_reach_round_trip [OF at rg] by blast
    then have "wire_take_reach (?head @ rest) (8 + NODE_ID_LEN) = Inr (b_range b, n)"
      using put [OF False] by simp
    moreover have "8 + NODE_ID_LEN < length (?head @ rest)"
      using put [OF False, THEN conjunct2] len by simp
    ultimately show ?thesis using enc e c by (simp add: ballot_decode_def del: append_assoc)
  qed
qed

text \<open>A duration crosses the wire as whole milliseconds, so that it never comes out longer
than it went in.\<close>

definition sent_duration :: "duration \<Rightarrow> duration" where
  "sent_duration d = from_millis (min (as_millis d) (2 ^ 64 - 1))"

fun as_sent :: "vote \<Rightarrow> vote" where
  "as_sent (Granted h) = Granted (sent_duration h)"
| "as_sent (Refused (EarlierGrantStillAlive d)) = Refused (EarlierGrantStillAlive (sent_duration d))"
| "as_sent (Refused (TooSoonAfterStarting d)) = Refused (TooSoonAfterStarting (sent_duration d))"
| "as_sent v = v"

lemma unat_millis: "unat (millis d) = min (as_millis d) (2 ^ 64 - 1)"
proof (cases "as_millis d < 2 ^ 64")
  case True
  then show ?thesis by (simp add: millis_def take_bit_nat_eq_self_iff unsigned_of_nat)
next
  case False
  then show ?thesis
    by (simp add: millis_def unsigned_minus_1_eq_mask mask_eq_exp_minus_1)
qed

lemma sent_duration_millis: "from_millis (unat (millis d)) = sent_duration d"
  by (simp add: unat_millis sent_duration_def)

lemma sent_duration_le: "sent_duration d \<le> d"
proof -
  have "sent_duration d \<le> from_millis (as_millis d)" by (simp add: sent_duration_def from_millis_def)
  also have "\<dots> \<le> d" by (simp add: from_millis_def as_millis_def)
  finally show ?thesis .
qed

lemma take_u64_body:
  "wire_take_u64 (t # u64_bytes x) (Suc 0) = Inr (x, 9)"
  "wire_take_u64 (t # u64_bytes x @ u64_bytes y) (Suc 0) = Inr (x, 9)"
  "wire_take_u64 (t # u64_bytes x @ u64_bytes y) 9 = Inr (y, 17)"
  using wire_take_u64_at [of 1 "[t]" x "[]"] wire_take_u64_at [of 1 "[t]" x "u64_bytes y"]
    wire_take_u64_at [of 9 "t # u64_bytes x" y "[]"]
  by simp_all

lemma vote_round_trip: "vote_decode (vote_encode v) = Inr (as_sent v)"
  by (cases v rule: vote_encode.cases)
    (simp_all add: vote_decode_def take_u64_body sent_duration_millis)

section \<open>The rules of a voter\<close>

lemma behind_linear:
  "\<not> behind a a" "behind a b \<Longrightarrow> behind b c \<Longrightarrow> behind a c"
  "behind a b \<or> behind b a \<or> leadership a = leadership b \<and> tail a = tail b"
  by (auto simp: behind_def split: if_splits)

text \<open>Exactly when a ballot is granted, and what the voter then remembers.\<close>

definition may_grant :: "voter \<Rightarrow> ballot \<Rightarrow> instant \<Rightarrow> bool" where
  "may_grant v b now \<longleftrightarrow>
    v_seen v \<le> b_epoch b
    \<and> (case granted v of
         None \<Rightarrow> free_at (started v) (max (v_hold v) TTL) \<le> now
       | Some g \<Rightarrow>
           b_candidate b = g_candidate g \<and> g_epoch g \<le> b_epoch b
           \<or> g_epoch g < b_epoch b \<and> free_at (g_at g) (g_hold g) \<le> now)"

definition remember :: "voter \<Rightarrow> ballot \<Rightarrow> instant \<Rightarrow> voter" where
  "remember v b now =
    v\<lparr>v_seen := max (v_seen v) (b_epoch b),
      granted := Some \<lparr>g_epoch = b_epoch b, g_candidate = b_candidate b, g_at = now,
        g_hold = v_hold v\<rparr>\<rparr>"

lemma asked_granted_iff:
  "asked v b now mine cand = (v', Granted h) \<longleftrightarrow>
    (renewing v b mine \<or> \<not> behind cand mine) \<and> may_grant v b now
      \<and> v' = remember v b now \<and> h = v_hold v"
  by (auto simp: asked_def adopt_def may_grant_def remember_def Let_def split: option.splits if_splits)

lemma asked_refused_memory:
  "asked v b now mine cand = (v', Refused r) \<Longrightarrow>
    granted v' = granted v \<and> v_hold v' = v_hold v \<and> started v' = started v \<and> v_seen v \<le> v_seen v'"
  by (auto simp: asked_def adopt_def Let_def split: option.splits if_splits)

lemma carried_eq:
  "carried v b now =
    (case granted v of
       Some g \<Rightarrow> if b_epoch b < g_epoch g then (v, Inl (g_epoch g)) else (remember v b now, Inr ())
     | None \<Rightarrow> (remember v b now, Inr ()))"
  by (simp add: carried_def remember_def split: option.splits)

lemma free_at_ge: "free_at at d \<ge> at"
  by (simp add: free_at_def checked_add_def)

lemma free_at_exact: "at + int d < INSTANT_END \<Longrightarrow> free_at at d = at + int d"
  by (simp add: free_at_def checked_add_def)

section \<open>The rules of a round\<close>

text \<open>A round counts a voter once, and its lease is no longer than any hold it counted.\<close>

lemma counted_simps [simp]:
  "r_ballot (counted n v r) = r_ballot r" "r_voters (counted n v r) = r_voters r"
  "r_opened (counted n v r) = r_opened r"
  by (auto simp: counted_def split: vote.splits)

lemma counted_distinct: "distinct (r_granted r) \<Longrightarrow> distinct (r_granted (counted n v r))"
  by (auto simp: counted_def split: vote.splits)

lemma set_counted:
  "set (r_granted (counted n v r)) = set (r_granted r) \<union> (case v of Granted _ \<Rightarrow> {n} | Refused _ \<Rightarrow> {})"
  by (auto simp: counted_def split: vote.splits)

lemma counted_shortest: "r_shortest (counted n v r) \<le> r_shortest r"
  "n \<notin> set (r_granted r) \<Longrightarrow> v = Granted h \<Longrightarrow> r_shortest (counted n v r) \<le> h"
  by (auto simp: counted_def split: vote.splits)

text \<open>Two majorities of one set of voters share a voter.\<close>

lemma majorities_meet:
  assumes "finite N" "P \<subseteq> N" "Q \<subseteq> N" "majority (card N) \<le> card P" "majority (card N) \<le> card Q"
  shows "P \<inter> Q \<noteq> {}"
proof
  assume "P \<inter> Q = {}"
  moreover have "finite P" "finite Q" using assms(1-3) by (auto intro: finite_subset)
  ultimately have "card P + card Q = card (P \<union> Q)" by (simp add: card_Un_disjoint)
  also have "\<dots> \<le> card N" using assms(1-3) by (intro card_mono) auto
  finally show False using assms(4,5) by (simp add: majority_def)
qed

section \<open>Properties\<close>

text \<open>A voter grants a ballot exactly when the candidate is not behind its own log or is
renewing, the epoch is not below what it has been shown, and it has sat out one lease
since it started, or holds a grant for the same candidate, or holds one of a lower
epoch whose hold has passed; it then remembers the grant, dated now and held for its
policy, and a refusal leaves the grant it remembers as it was.\<close>

theorem voter_grants_iff:
  "(asked v b now mine cand = (v', Granted h) \<longleftrightarrow>
      (renewing v b mine \<or> \<not> behind cand mine) \<and> v_seen v \<le> b_epoch b
      \<and> (case granted v of
           None \<Rightarrow> free_at (started v) (max (v_hold v) TTL) \<le> now
         | Some g \<Rightarrow>
             b_candidate b = g_candidate g \<and> g_epoch g \<le> b_epoch b
             \<or> g_epoch g < b_epoch b \<and> free_at (g_at g) (g_hold g) \<le> now)
      \<and> v' = v\<lparr>v_seen := b_epoch b,
          granted := Some \<lparr>g_epoch = b_epoch b, g_candidate = b_candidate b, g_at = now, g_hold = v_hold v\<rparr>\<rparr>
      \<and> h = v_hold v)
    \<and> (asked v b now mine cand = (v', Refused r) \<longrightarrow> granted v' = granted v)"
proof -
  have "may_grant v b now \<Longrightarrow> max (v_seen v) (b_epoch b) = b_epoch b"
    by (simp add: may_grant_def max_absorb2)
  then show ?thesis
    using asked_refused_memory [of v b now mine cand v' r]
    by (auto simp: asked_granted_iff may_grant_def remember_def)
qed

text \<open>A ballot decodes to what was encoded, and a vote to what was encoded with its
durations cut to whole milliseconds, so that the hold a candidate is told is never
longer than the one the voter keeps.\<close>

theorem ballots_and_votes_round_trip:
  assumes "length (b_candidate b) = NODE_ID_LEN"
    and "\<And>ns db tb. b_range b \<noteq> Shard ns db tb 0"
  shows "ballot_decode (ballot_encode b) = Inr b
    \<and> vote_decode (vote_encode v) = Inr (as_sent v)
    \<and> (v = Granted h \<longrightarrow> (\<exists>h' \<le> h. as_sent v = Granted h'))"
proof -
  have "ballot_wf b" using assms by (auto simp: ballot_wf_def reach_sent_def split: reach.splits)
  then show ?thesis using ballot_round_trip vote_round_trip sent_duration_le by auto
qed

text \<open>A hold that cannot be represented frees a voter at once: a policy with the longest
lease there is is accepted, and a voter that holds grants for it grants two rivals in
one instant, the first of them the instant it started.\<close>

theorem unbounded_hold_frees_at_once:
  "\<exists>p v' v''. failover_stated (from_secs 1) (from_secs 1) (from_millis 200) (from_millis 100) DURATION_MAX
      = Inr p
    \<and> asked (hold_for (lease_time p) (started_at 0)) \<lparr>b_epoch = 1, b_candidate = [1], b_range = Store\<rparr>
        0 mine mine = (v', Granted (lease_time p))
    \<and> asked v' \<lparr>b_epoch = 2, b_candidate = [2], b_range = Store\<rparr> 0 mine mine
        = (v'', Granted (lease_time p))"
proof -
  let ?p = "\<lparr>awareness = from_secs 1, collection = from_secs 1, round_time = from_millis 200,
      campaign = from_millis 100, lease_time = DURATION_MAX\<rparr>"
  have "failover_stated (from_secs 1) (from_secs 1) (from_millis 200) (from_millis 100) DURATION_MAX
      = Inr ?p"
    by (simp add: failover_stated_def holds_together_def saturating_mul_dur_def saturating_add_dur_def
        staleness_floor_def ROUNDS_OF_MARGIN_def SHORTEST_PERIOD_def GUARD_def from_secs_def
        from_millis_def DURATION_MAX_def)
  moreover have "free_at 0 DURATION_MAX = 0" "max DURATION_MAX TTL = DURATION_MAX"
    by (simp_all add: free_at_def checked_add_def INSTANT_END_def DURATION_MAX_def TTL_def from_millis_def)
  ultimately show ?thesis
    using behind_linear(1) [of mine]
    by (intro exI [of _ ?p]) (simp add: asked_granted_iff may_grant_def remember_def hold_for_def started_at_def)
qed

end
