(* ===== verification/Frame.thy ===== *)
theory Frame
  imports Grant
begin

text \<open>Frames on the wire (frame.rs, frame/codec.rs and frame_async.rs of tessari-wire,
refusal_class.rs of tessari-types).  A stream is what a socket answers read by read: a
reader meets the bytes of a frame in whatever pieces they arrive in.\<close>

section \<open>Kinds of frames\<close>

datatype frame_kind =
  KRequest | KAnswer | KRefusal | KSubscribe | KChange | KElsewhere | KVault | KProgress | KPart

fun kind_tag :: "frame_kind \<Rightarrow> u8" where
  "kind_tag KRequest = 1"
| "kind_tag KAnswer = 2"
| "kind_tag KRefusal = 3"
| "kind_tag KSubscribe = 4"
| "kind_tag KChange = 5"
| "kind_tag KElsewhere = 13"
| "kind_tag KVault = 17"
| "kind_tag KProgress = 37"
| "kind_tag KPart = 38"

definition kind_from_tag :: "u8 \<Rightarrow> frame_kind option" where
  "kind_from_tag t =
    (if t = 1 then Some KRequest
     else if t = 2 then Some KAnswer
     else if t = 3 then Some KRefusal
     else if t = 4 then Some KSubscribe
     else if t = 5 then Some KChange
     else if t = 13 then Some KElsewhere
     else if t = 17 then Some KVault
     else if t = 37 then Some KProgress
     else if t = 38 then Some KPart
     else None)"

section \<open>The streams\<close>

text \<open>What a read of the socket answers: bytes that have arrived, none of them at the end
of the stream, or a failure.  Each answer comes after a wait, in seconds.  A slot
smaller than what arrived leaves the rest for the next read; past the last answer
the other end has closed.\<close>

datatype io_error = EInterrupted | EBroken | EUnexpectedEof

datatype arrival = Arrived bytes | Fails io_error

type_synonym stream = "(nat \<times> arrival) list"

fun read_some :: "nat \<Rightarrow> stream \<Rightarrow> stream \<times> (io_error + bytes)" where
  "read_some slot [] = ([], Inr [])"
| "read_some slot ((_, Fails e) # rest) = (rest, Inl e)"
| "read_some slot ((_, Arrived c) # rest) =
    (if length c \<le> slot then (rest, Inr c) else ((0, Arrived (drop slot c)) # rest, Inr (take slot c)))"

lemma read_some_shrinks:
  "read_some slot i = (j, Inl e) \<Longrightarrow> length j < length i"
  by (induction slot i rule: read_some.induct) (auto split: if_splits)

lemma read_some_length: "read_some slot i = (j, Inr bs) \<Longrightarrow> length bs \<le> slot"
  by (induction slot i rule: read_some.induct) (auto split: if_splits)

text \<open>\<^verbatim>\<open>read_exact\<close>: reads until the slot is full and goes on after an interrupted read.\<close>

function read_exact :: "nat \<Rightarrow> stream \<Rightarrow> stream \<times> (io_error + bytes)" where
  "read_exact need i =
    (if need = 0 then (i, Inr [])
     else
       (case read_some need i of
          (i, Inl e) \<Rightarrow> if e = EInterrupted then read_exact need i else (i, Inl e)
        | (i, Inr bs) \<Rightarrow>
            if bs = [] then (i, Inl EUnexpectedEof)
            else
              (case read_exact (need - length bs) i of
                 (i, Inl e) \<Rightarrow> (i, Inl e)
               | (i, Inr others) \<Rightarrow> (i, Inr (bs @ others)))))"
  by pat_completeness auto
termination
  by (relation "measures [\<lambda>(need, i). need, \<lambda>(need, i). length i]") (auto dest: read_some_shrinks [OF sym])

declare read_exact.simps [simp del]

text \<open>The other direction: a sink takes bytes until the socket fails, after so many more,
or never.\<close>

record sink =
  sent :: bytes
  room :: "nat option"

definition write_all :: "bytes \<Rightarrow> sink \<Rightarrow> sink \<times> (wire_error + unit)" where
  "write_all bs out =
    (case room out of
       None \<Rightarrow> (out\<lparr>sent := sent out @ bs\<rparr>, Inr ())
     | Some n \<Rightarrow>
         if length bs \<le> n then (out\<lparr>sent := sent out @ bs, room := Some (n - length bs)\<rparr>, Inr ())
         else (out\<lparr>sent := sent out @ take n bs, room := Some 0\<rparr>, Inl Io))"

section \<open>Writing and reading a frame\<close>

definition CEILING :: u32 where
  "CEILING = 16 * 1024 * 1024"

definition length_u32 :: "'a list \<Rightarrow> u32" where
  "length_u32 xs = (if length xs < 2 ^ 32 then word_of_nat (length xs) else - 1)"

definition header :: "u8 \<Rightarrow> bytes \<Rightarrow> wire_error + bytes" where
  "header tg body =
    (let length = length_u32 body in
     if CEILING < length then Inl (TooLarge length) else Inr (tg # u32_bytes length))"

definition announced :: "bytes \<Rightarrow> wire_error + nat" where
  "announced h =
    (let length = u32_value (take 4 (drop 1 h)) in
     if CEILING < length then Inl (TooLarge length) else Inr (unat length))"

definition write_tagged :: "u8 \<Rightarrow> bytes \<Rightarrow> sink \<Rightarrow> sink \<times> (wire_error + unit)" where
  "write_tagged tg body out =
    (case header tg body of
       Inl e \<Rightarrow> (out, Inl e)
     | Inr h \<Rightarrow>
         (case write_all h out of
            (out, Inl e) \<Rightarrow> (out, Inl e)
          | (out, Inr _) \<Rightarrow> write_all body out))"

definition write_frame :: "frame_kind \<Rightarrow> bytes \<Rightarrow> sink \<Rightarrow> sink \<times> (wire_error + unit)" where
  "write_frame k body out = write_tagged (kind_tag k) body out"

function read_header :: "bytes \<Rightarrow> stream \<Rightarrow> stream \<times> (wire_error + bytes option)" where
  "read_header held i =
    (if 5 \<le> length held then (i, Inr (Some held))
     else
       (case read_some (5 - length held) i of
          (i, Inl e) \<Rightarrow> (i, Inl Io)
        | (i, Inr bs) \<Rightarrow>
            if bs = [] then (i, if held = [] then Inr None else Inl TruncatedFrame)
            else read_header (held @ bs) i))"
  by pat_completeness auto
termination
  by (relation "measure (\<lambda>(held, i). 5 - length held)") (auto simp: neq_Nil_conv)

declare read_header.simps [simp del]

definition read_tagged :: "stream \<Rightarrow> stream \<times> (wire_error + (u8 \<times> bytes) option)" where
  "read_tagged i =
    (case read_header [] i of
       (i, Inl e) \<Rightarrow> (i, Inl e)
     | (i, Inr None) \<Rightarrow> (i, Inr None)
     | (i, Inr (Some h)) \<Rightarrow>
         (case announced h of
            Inl e \<Rightarrow> (i, Inl e)
          | Inr n \<Rightarrow>
              (case read_exact n i of
                 (i, Inl _) \<Rightarrow> (i, Inl TruncatedFrame)
               | (i, Inr body) \<Rightarrow> (i, Inr (Some (hd h, body))))))"

definition known_kind :: "(u8 \<times> bytes) option \<Rightarrow> wire_error + (frame_kind \<times> bytes) option" where
  "known_kind found =
    (case found of
       None \<Rightarrow> Inr None
     | Some (tg, body) \<Rightarrow>
         (case kind_from_tag tg of
            None \<Rightarrow> Inl (UnknownFrame tg)
          | Some k \<Rightarrow> Inr (Some (k, body))))"

definition read_frame :: "stream \<Rightarrow> stream \<times> (wire_error + (frame_kind \<times> bytes) option)" where
  "read_frame i = (case read_tagged i of (i, found) \<Rightarrow> (i, bindR found known_kind))"

section \<open>Reading without holding a thread\<close>

definition FRAME_STALL_SECONDS :: nat where
  "FRAME_STALL_SECONDS = 60"

definition within_the_stall :: "nat \<Rightarrow> stream \<Rightarrow> stream \<times> (wire_error + bytes)" where
  "within_the_stall slot i =
    (case i of
       (wait, a) # rest \<Rightarrow>
         if FRAME_STALL_SECONDS < wait then ((wait - FRAME_STALL_SECONDS, a) # rest, Inl Stalled)
         else
           (case read_some slot i of (i, Inl _) \<Rightarrow> (i, Inl Io) | (i, Inr bs) \<Rightarrow> (i, Inr bs))
     | [] \<Rightarrow> ([], Inr []))"

lemma within_the_stall_reads:
  "within_the_stall slot i = (j, Inr bs) \<Longrightarrow> read_some slot i = (j, Inr bs)"
  by (auto simp: within_the_stall_def split: list.splits if_splits prod.splits sum.splits)

function async_header :: "bytes \<Rightarrow> stream \<Rightarrow> stream \<times> (wire_error + bytes option)" where
  "async_header held i =
    (if 5 \<le> length held then (i, Inr (Some held))
     else
       (case if held = []
             then (case read_some 5 i of (i, Inl _) \<Rightarrow> (i, Inl Io) | (i, Inr bs) \<Rightarrow> (i, Inr bs))
             else within_the_stall (5 - length held) i of
          (i, Inl e) \<Rightarrow> (i, Inl e)
        | (i, Inr bs) \<Rightarrow>
            if bs = [] then (i, if held = [] then Inr None else Inl TruncatedFrame)
            else async_header (held @ bs) i))"
  by pat_completeness auto
termination
  by (relation "measure (\<lambda>(held, i). 5 - length held)") (auto simp: neq_Nil_conv)

declare async_header.simps [simp del]

function async_body :: "nat \<Rightarrow> stream \<Rightarrow> stream \<times> (wire_error + bytes)" where
  "async_body need i =
    (if need = 0 then (i, Inr [])
     else
       (case within_the_stall need i of
          (i, Inl e) \<Rightarrow> (i, Inl (if e = Stalled then Stalled else TruncatedFrame))
        | (i, Inr bs) \<Rightarrow>
            if bs = [] then (i, Inl TruncatedFrame)
            else
              (case async_body (need - length bs) i of
                 (i, Inl e) \<Rightarrow> (i, Inl e)
               | (i, Inr others) \<Rightarrow> (i, Inr (bs @ others)))))"
  by pat_completeness auto
termination
  by (relation "measure (\<lambda>(need, i). need)") auto

declare async_body.simps [simp del]

definition async_read_tagged :: "stream \<Rightarrow> stream \<times> (wire_error + (u8 \<times> bytes) option)" where
  "async_read_tagged i =
    (case async_header [] i of
       (i, Inl e) \<Rightarrow> (i, Inl e)
     | (i, Inr None) \<Rightarrow> (i, Inr None)
     | (i, Inr (Some h)) \<Rightarrow>
         (case announced h of
            Inl e \<Rightarrow> (i, Inl e)
          | Inr n \<Rightarrow>
              (case async_body n i of
                 (i, Inl e) \<Rightarrow> (i, Inl e)
               | (i, Inr body) \<Rightarrow> (i, Inr (Some (hd h, body))))))"

definition async_read_frame :: "stream \<Rightarrow> stream \<times> (wire_error + (frame_kind \<times> bytes) option)" where
  "async_read_frame i = (case async_read_tagged i of (i, found) \<Rightarrow> (i, bindR found known_kind))"

section \<open>The greeting\<close>

definition HELLO :: bytes where
  "HELLO = [0x54, 0x45, 0x53, 0x53]"

definition MAJOR :: u8 where
  "MAJOR = 1"

definition MINOR :: u8 where
  "MINOR = 7"

definition greet :: "stream \<Rightarrow> sink \<Rightarrow> stream \<times> sink \<times> (wire_error + u8)" where
  "greet i out =
    (case write_all HELLO out of
       (out, Inl e) \<Rightarrow> (i, out, Inl e)
     | (out, Inr _) \<Rightarrow>
         (case write_all [MAJOR, MINOR] out of
            (out, Inl e) \<Rightarrow> (i, out, Inl e)
          | (out, Inr _) \<Rightarrow>
              (case read_exact 4 i of
                 (i, Inl _) \<Rightarrow> (i, out, Inl NotThisProtocol)
               | (i, Inr magic) \<Rightarrow>
                   if magic \<noteq> HELLO then (i, out, Inl NotThisProtocol)
                   else
                     (case read_exact 2 i of
                        (i, Inl _) \<Rightarrow> (i, out, Inl TruncatedFrame)
                      | (i, Inr version) \<Rightarrow>
                          if version ! 0 \<noteq> MAJOR then (i, out, Inl (WrongVersion (version ! 0) MAJOR))
                          else (i, out, Inr (version ! 1))))))"

section \<open>Refusals\<close>

datatype refusal_class =
    ClassInvalid | ClassUnauthenticated | ClassForbidden | ClassThrottled | ClassElsewhere
  | ClassRetry | ClassConflict | ClassUnavailable | ClassInternal

fun class_byte :: "refusal_class \<Rightarrow> u8" where
  "class_byte ClassInvalid = 1"
| "class_byte ClassUnauthenticated = 2"
| "class_byte ClassForbidden = 3"
| "class_byte ClassThrottled = 4"
| "class_byte ClassElsewhere = 5"
| "class_byte ClassRetry = 6"
| "class_byte ClassConflict = 7"
| "class_byte ClassUnavailable = 8"
| "class_byte ClassInternal = 9"

definition class_from_byte :: "u8 \<Rightarrow> refusal_class option" where
  "class_from_byte b =
    (if b = 1 then Some ClassInvalid
     else if b = 2 then Some ClassUnauthenticated
     else if b = 3 then Some ClassForbidden
     else if b = 4 then Some ClassThrottled
     else if b = 5 then Some ClassElsewhere
     else if b = 6 then Some ClassRetry
     else if b = 7 then Some ClassConflict
     else if b = 8 then Some ClassUnavailable
     else if b = 9 then Some ClassInternal
     else None)"

text \<open>\<^verbatim>\<open>String::from_utf8_lossy\<close>: the bytes of each well-formed character, and the
replacement character for the longest start of one that goes wrong.\<close>

definition REPLACEMENT :: bytes where
  "REPLACEMENT = [0xEF, 0xBF, 0xBD]"

definition second_of_three :: "u8 \<Rightarrow> u8 \<Rightarrow> bool" where
  "second_of_three b c \<longleftrightarrow> utf8_tail c \<and> (b = 0xE0 \<longrightarrow> 0xA0 \<le> c) \<and> (b = 0xED \<longrightarrow> c \<le> 0x9F)"

definition second_of_four :: "u8 \<Rightarrow> u8 \<Rightarrow> bool" where
  "second_of_four b c \<longleftrightarrow> utf8_tail c \<and> (b = 0xF0 \<longrightarrow> 0x90 \<le> c) \<and> (b = 0xF4 \<longrightarrow> c \<le> 0x8F)"

definition char_bytes :: "bytes \<Rightarrow> bool \<times> nat" where
  "char_bytes bs =
    (case bs of
       [] \<Rightarrow> (True, 0)
     | b # r \<Rightarrow>
         if b < 0x80 then (True, 1)
         else if 0xC2 \<le> b \<and> b \<le> 0xDF then
           (if r \<noteq> [] \<and> utf8_tail (r ! 0) then (True, 2) else (False, 1))
         else if 0xE0 \<le> b \<and> b \<le> 0xEF then
           (if r \<noteq> [] \<and> second_of_three b (r ! 0) then
              if 1 < length r \<and> utf8_tail (r ! 1) then (True, 3) else (False, 2)
            else (False, 1))
         else if 0xF0 \<le> b \<and> b \<le> 0xF4 then
           (if r \<noteq> [] \<and> second_of_four b (r ! 0) then
              if 1 < length r \<and> utf8_tail (r ! 1) then
                if 2 < length r \<and> utf8_tail (r ! 2) then (True, 4) else (False, 3)
              else (False, 2)
            else (False, 1))
         else (False, 1))"

lemma char_bytes_pos: "(whole, n) = char_bytes bs \<Longrightarrow> bs \<noteq> [] \<Longrightarrow> 0 < n"
  by (cases bs) (auto simp: char_bytes_def split: if_splits)

function from_utf8_lossy :: "bytes \<Rightarrow> bytes" where
  "from_utf8_lossy bs =
    (if bs = [] then []
     else
       (case char_bytes bs of
          (whole, n) \<Rightarrow> (if whole then take n bs else REPLACEMENT) @ from_utf8_lossy (drop n bs)))"
  by pat_completeness auto
termination
  by (relation "measure length") (auto dest: char_bytes_pos)

declare from_utf8_lossy.simps [simp del]

definition CODES :: u8 where
  "CODES = 3"

definition refusal :: "u8 \<Rightarrow> refusal_class \<Rightarrow> bytes \<Rightarrow> bytes" where
  "refusal theirs cls words = (if CODES \<le> theirs then [class_byte cls] else []) @ words"

definition class_bytes :: "u8 \<Rightarrow> bool" where
  "class_bytes b \<longleftrightarrow> b \<le> 9"

definition read_refusal :: "bytes \<Rightarrow> refusal_class option option \<times> bytes" where
  "read_refusal body =
    (case body of
       first # rest \<Rightarrow>
         if class_bytes first then (Some (class_from_byte first), from_utf8_lossy rest)
         else (None, from_utf8_lossy body)
     | [] \<Rightarrow> (None, from_utf8_lossy body))"

section \<open>Fields of a body\<close>

definition wire_put_bytes :: "bytes \<Rightarrow> bytes \<Rightarrow> bytes" where
  "wire_put_bytes into bs = into @ u32_bytes (length_u32 bs) @ bs"

definition wire_put_text :: "bytes \<Rightarrow> bytes \<Rightarrow> bytes" where
  "wire_put_text into words = into @ u32_bytes (length_u32 words) @ words"

definition wire_take_bytes :: "bytes \<Rightarrow> nat \<Rightarrow> wire_error + bytes \<times> nat" where
  "wire_take_bytes from at =
    bindR (body_get from at (at + 4)) (\<lambda>h.
    let stop = at + 4 + unat (u32_value h) in
    bindR (body_get from (at + 4) stop) (\<lambda>bs. Inr (bs, stop)))"

definition wire_take_text :: "bytes \<Rightarrow> nat \<Rightarrow> wire_error + bytes \<times> nat" where
  "wire_take_text from at =
    bindR (wire_take_bytes from at) (\<lambda>(bs, stop). if utf8_valid bs then Inr (bs, stop) else Inl Malformed)"

definition wire_put_log :: "bytes \<Rightarrow> log_id \<Rightarrow> bytes" where
  "wire_put_log into log = wire_put_reach into (home log) @ log_writer log"

definition wire_take_log :: "bytes \<Rightarrow> nat \<Rightarrow> wire_error + log_id \<times> nat" where
  "wire_take_log from at =
    bindR (wire_take_reach from at) (\<lambda>(rg, at).
    bindR (body_get from at (at + NODE_ID_LEN)) (\<lambda>w. Inr (log_new rg w, at + NODE_ID_LEN)))"

section \<open>What is read is what arrived\<close>

fun arrived :: "stream \<Rightarrow> bytes" where
  "arrived [] = []"
| "arrived ((_, Arrived c) # rest) = c @ arrived rest"
| "arrived ((_, Fails _) # rest) = arrived rest"

text \<open>A stream with no failure, on which only the end answers no bytes.\<close>

definition steady :: "stream \<Rightarrow> bool" where
  "steady i \<longleftrightarrow> (\<forall>x \<in> set i. case snd x of Arrived c \<Rightarrow> c \<noteq> [] | Fails _ \<Rightarrow> False)"

definition prompt :: "stream \<Rightarrow> bool" where
  "prompt i \<longleftrightarrow> (\<forall>x \<in> set i. fst x \<le> FRAME_STALL_SECONDS)"

lemma read_some_arrived:
  "read_some slot i = (j, Inr bs) \<Longrightarrow> arrived i = bs @ arrived j"
  "read_some slot i = (j, Inl e) \<Longrightarrow> arrived i = arrived j"
  by (induction slot i rule: read_some.induct) (auto split: if_splits)

lemma read_some_steady:
  assumes "steady i" "0 < slot"
  obtains j bs where "read_some slot i = (j, Inr bs)" "steady j" "bs = [] \<longleftrightarrow> arrived i = []"
    "prompt (tl i) \<Longrightarrow> prompt j"
proof (cases "(slot, i)" rule: read_some.cases)
  case (3 s w c rest)
  then show thesis
    using assms that [of rest c] that [of "(0, Arrived (drop slot c)) # rest" "take slot c"]
    by (cases "length c \<le> slot") (auto simp: steady_def prompt_def)
qed (use assms that in \<open>auto simp: steady_def\<close>)

lemma read_exact_arrived:
  "read_exact n i = (j, Inr bs) \<Longrightarrow> arrived i = bs @ arrived j \<and> length bs = n"
proof (induction n i arbitrary: j bs rule: read_exact.induct)
  case (1 need i)
  show ?case
  proof (cases "need = 0")
    case True
    then show ?thesis using "1.prems" by (simp add: read_exact.simps)
  next
    case False
    obtain k r where k: "read_some need i = (k, r)" by fastforce
    show ?thesis
    proof (cases r)
      case (Inl e)
      then have e: "e = EInterrupted" "read_exact need k = (j, Inr bs)"
        using "1.prems" False k by (auto simp: read_exact.simps [of need i] split: if_splits)
      then show ?thesis using "1.IH"(1) [OF False k [symmetric] Inl e] k Inl read_some_arrived(2) by simp
    next
      case (Inr cs)
      then obtain others where o: "cs \<noteq> []" "read_exact (need - length cs) k = (j, Inr others)" "bs = cs @ others"
        using "1.prems" False k by (auto simp: read_exact.simps [of need i] split: if_splits prod.splits sum.splits)
      then have "arrived k = others @ arrived j \<and> length others = need - length cs"
        using "1.IH"(2) [OF False k [symmetric] Inr o(1,2)] by simp
      then show ?thesis using o(3) k Inr read_some_arrived(1) read_some_length by fastforce
    qed
  qed
qed

lemma read_exact_steady:
  assumes "steady i"
  obtains (whole) j where "n \<le> length (arrived i)" "read_exact n i = (j, Inr (take n (arrived i)))" "steady j"
      "arrived j = drop n (arrived i)"
  | (short) j where "length (arrived i) < n" "read_exact n i = (j, Inl EUnexpectedEof)"
  using assms
proof (induction n arbitrary: i thesis rule: less_induct)
  case (less n)
  show ?case
  proof (cases "n = 0")
    case True
    then show ?thesis using less.prems(3) less.prems(1) [of i] by (simp add: read_exact.simps)
  next
    case False
    then obtain k bs where k: "read_some n i = (k, Inr bs)" "steady k" "bs = [] \<longleftrightarrow> arrived i = []"
      using read_some_steady [OF less.prems(3)] by (metis gr0I)
    note a = read_some_arrived(1) [OF k(1)] read_some_length [OF k(1)]
    show ?thesis
    proof (cases "bs = []")
      case True
      then show ?thesis using k(1,3) False less.prems(2) by (simp add: read_exact.simps [of n i])
    next
      case bs: False
      then have "n - length bs < n" using False by simp
      from this _ _ k(2) show ?thesis
      proof (rule less.IH)
        fix j
        assume "n - length bs \<le> length (arrived k)"
          "read_exact (n - length bs) k = (j, Inr (take (n - length bs) (arrived k)))" "steady j"
          "arrived j = drop (n - length bs) (arrived k)"
        then show thesis
          using False bs k(1) a by (intro less.prems(1) [of j]) (simp_all add: read_exact.simps [of n i])
      next
        fix j
        assume "length (arrived k) < n - length bs" "read_exact (n - length bs) k = (j, Inl EUnexpectedEof)"
        then show thesis
          using False bs k(1) a by (intro less.prems(2) [of j]) (simp_all add: read_exact.simps [of n i])
      qed
    qed
  qed
qed

lemma read_header_arrived:
  "read_header held i = (j, Inr (Some h)) \<Longrightarrow> length held \<le> 5 \<Longrightarrow>
    held @ arrived i = h @ arrived j \<and> length h = 5"
proof (induction held i arbitrary: j h rule: read_header.induct)
  case (1 held i)
  show ?case
  proof (cases "5 \<le> length held")
    case True
    then show ?thesis using "1.prems" by (simp add: read_header.simps)
  next
    case False
    then obtain k bs where k: "read_some (5 - length held) i = (k, Inr bs)" "bs \<noteq> []"
      "read_header (held @ bs) k = (j, Inr (Some h))"
      using "1.prems"(1) by (auto simp: read_header.simps [of held i] split: prod.splits sum.splits if_splits)
    have "length (held @ bs) \<le> 5" using read_some_length [OF k(1)] False by simp
    then show ?thesis
      using "1.IH" [OF False k(1) [symmetric] refl k(2,3)] read_some_arrived(1) [OF k(1)] by simp
  qed
qed

lemma read_header_steady:
  assumes "steady i" "length held \<le> 5"
  obtains (whole) j where "5 \<le> length (held @ arrived i)" "steady j" "arrived j = drop 5 (held @ arrived i)"
      "read_header held i = (j, Inr (Some (take 5 (held @ arrived i))))"
  | (short) j where "length (held @ arrived i) < 5"
      "read_header held i = (j, if held @ arrived i = [] then Inr None else Inl TruncatedFrame)"
  using assms
proof (induction "5 - length held" arbitrary: held i thesis rule: less_induct)
  case less
  show ?case
  proof (cases "5 \<le> length held")
    case True
    then have "length held = 5" using less.prems(4) by simp
    then show ?thesis using less.prems(3) less.prems(1) [of i] by (simp add: read_header.simps)
  next
    case False
    then obtain k bs where k: "read_some (5 - length held) i = (k, Inr bs)" "steady k" "bs = [] \<longleftrightarrow> arrived i = []"
      using read_some_steady [OF less.prems(3)] by (metis not_le zero_less_diff)
    note a = read_some_arrived(1) [OF k(1)] read_some_length [OF k(1)]
    show ?thesis
    proof (cases "bs = []")
      case True
      then show ?thesis
        using k(1,3) False less.prems(2) [of k] by (simp add: read_header.simps [of held i])
    next
      case bs: False
      have rec: "read_header held i = read_header (held @ bs) k"
        using False bs k(1) by (simp add: read_header.simps [of held i])
      have "5 - length (held @ bs) < 5 - length held" "length (held @ bs) \<le> 5"
        using bs False a(2) by (auto simp: neq_Nil_conv)
      from this(1) _ _ k(2) this(2) show ?thesis
      proof (rule less.hyps)
        fix j
        assume "5 \<le> length ((held @ bs) @ arrived k)" "steady j" "arrived j = drop 5 ((held @ bs) @ arrived k)"
          "read_header (held @ bs) k = (j, Inr (Some (take 5 ((held @ bs) @ arrived k))))"
        then show thesis using less.prems(1) [of j] unfolding rec a(1) by simp
      next
        fix j
        assume "length ((held @ bs) @ arrived k) < 5" "read_header (held @ bs) k
          = (j, if (held @ bs) @ arrived k = [] then Inr None else Inl TruncatedFrame)"
        then show thesis using less.prems(2) [of j] unfolding rec a(1) by simp
      qed
    qed
  qed
qed

section \<open>A frame of the bytes that arrive\<close>

text \<open>What a reader makes of the bytes, with no stream: nothing is a goodbye, and a frame is
its tag, its length and its body.\<close>

definition frame_of :: "bytes \<Rightarrow> wire_error + (u8 \<times> bytes) option" where
  "frame_of bs =
    (if bs = [] then Inr None
     else if length bs < 5 then Inl TruncatedFrame
     else bindR (announced bs) (\<lambda>n.
       if length bs < 5 + n then Inl TruncatedFrame else Inr (Some (hd bs, take n (drop 5 bs)))))"

definition frame_bytes :: "u8 \<times> bytes \<Rightarrow> bytes" where
  "frame_bytes f = fst f # u32_bytes (length_u32 (snd f)) @ snd f"

lemma announced_take: "announced (take 5 bs) = announced bs"
  by (cases bs) (simp_all add: announced_def)

lemma length_ceiling: "length_u32 body \<le> CEILING \<longleftrightarrow> length body \<le> unat CEILING"
proof (cases "length body < 2 ^ 32")
  case True
  then have "unat (length_u32 body) = length body"
    by (simp add: length_u32_def unsigned_of_nat take_bit_nat_eq_self_iff)
  then show ?thesis by (simp add: word_le_nat_alt)
next
  case False
  then show ?thesis
    by (simp add: length_u32_def CEILING_def word_le_nat_alt unsigned_minus_1_eq_mask mask_eq_exp_minus_1)
qed

lemma unat_length_u32: "length_u32 body \<le> CEILING \<Longrightarrow> unat (length_u32 body) = length body"
  unfolding length_ceiling
  by (simp add: length_u32_def unsigned_of_nat take_bit_nat_eq_self_iff CEILING_def)

lemma frame_of_bytes:
  assumes "length (snd f) \<le> unat CEILING"
  shows "frame_of (frame_bytes f @ rest) = Inr (Some f)"
proof -
  have c: "length_u32 (snd f) \<le> CEILING" using assms by (simp add: length_ceiling)
  then have "announced (frame_bytes f @ rest) = Inr (length (snd f))"
    using unat_length_u32 by (simp add: announced_def frame_bytes_def Let_def not_less)
  then show ?thesis by (simp add: frame_of_def frame_bytes_def)
qed

lemma frame_of_inv:
  assumes "length h = 5" "announced h = Inr (length body)"
  shows "h @ body = frame_bytes (hd h, body)" "length body \<le> unat CEILING"
proof -
  obtain t ls where h: "h = t # ls" "length ls = 4" using assms(1) by (cases h) simp_all
  have "\<not> CEILING < u32_value ls" "unat (u32_value ls) = length body"
    using assms(2) h by (auto simp: announced_def Let_def split: if_splits)
  moreover from this show le: "length body \<le> unat CEILING" by (simp add: word_less_nat_alt)
  moreover have "unat (length_u32 body) = length body"
    using le unat_length_u32 by (simp add: length_ceiling)
  ultimately have "u32_value ls = length_u32 body" by (simp add: word_unat_eq_iff)
  then have "ls = u32_bytes (length_u32 body)" using value_word_bytes(2) [OF h(2)] by simp
  then show "h @ body = frame_bytes (hd h, body)" using h(1) by (simp add: frame_bytes_def)
qed

text \<open>Whatever a stream does, a frame it gives is the bytes that arrived.\<close>

lemma read_tagged_arrived:
  assumes "read_tagged i = (j, Inr (Some f))"
  shows "arrived i = frame_bytes f @ arrived j" "length (snd f) \<le> unat CEILING"
proof -
  obtain k h n body where k: "read_header [] i = (k, Inr (Some h))" "announced h = Inr n"
    "read_exact n k = (j, Inr body)" "f = (hd h, body)"
    using assms by (auto simp: read_tagged_def split: prod.splits sum.splits option.splits)
  have h: "arrived i = h @ arrived k" "length h = 5" using read_header_arrived [OF k(1)] by simp_all
  have b: "arrived k = body @ arrived j" "length body = n" using read_exact_arrived [OF k(3)] by simp_all
  note inv = frame_of_inv [OF h(2), of body]
  show "arrived i = frame_bytes f @ arrived j" "length (snd f) \<le> unat CEILING"
    using h(1) b inv k(2,4) by simp_all
qed

text \<open>In whatever pieces the bytes of a stream arrive, its reader makes of them what they
are, and takes no more of them than the frame.\<close>

lemma read_tagged_steady:
  assumes "steady i"
  obtains j where "read_tagged i = (j, frame_of (arrived i))"
    "\<And>f. frame_of (arrived i) = Inr (Some f) \<Longrightarrow> steady j"
    "\<And>n. frame_of (arrived i) = Inl (TooLarge n) \<Longrightarrow> arrived j = drop 5 (arrived i)"
proof -
  have z: "length ([] :: bytes) \<le> 5" by simp
  from assms z show thesis
  proof (cases rule: read_header_steady)
    case (short k)
    then show thesis by (intro that [of k]) (auto simp: read_tagged_def frame_of_def split: if_splits)
  next
    case (whole k)
    note w = whole [simplified]
    have ne: "arrived i \<noteq> []" using w(1) by auto
    show thesis
    proof (cases "announced (arrived i)")
      case (Inl e)
      then show thesis using w ne by (intro that [of k]) (auto simp: read_tagged_def frame_of_def announced_take)
    next
      case (Inr n)
      have hd: "hd (take 5 (arrived i)) = hd (arrived i)" using ne by (cases "arrived i") simp_all
      from w(2) show thesis
      proof (cases rule: read_exact_steady [where n = n])
        case (whole j)
        then show thesis
          using w ne Inr hd
          by (intro that [of j]) (auto simp: read_tagged_def frame_of_def announced_take split: if_splits)
      next
        case (short j)
        then show thesis
          using w ne Inr
          by (intro that [of j]) (auto simp: read_tagged_def frame_of_def announced_take split: if_splits)
      qed
    qed
  qed
qed

section \<open>The two readers\<close>

lemma prompt_tl: "prompt i \<Longrightarrow> prompt (tl i)"
  by (cases i) (simp_all add: prompt_def)

lemma stalls_or_reads:
  assumes "steady i" "0 < slot"
  obtains (stalls) j where "\<not> prompt i" "within_the_stall slot i = (j, Inl Stalled)"
  | (reads) j bs where "within_the_stall slot i = (j, Inr bs)" "read_some slot i = (j, Inr bs)" "steady j"
      "prompt (tl i) \<Longrightarrow> prompt j"
proof -
  obtain j bs where j: "read_some slot i = (j, Inr bs)" "steady j" "prompt (tl i) \<Longrightarrow> prompt j"
    using read_some_steady [OF assms] by metis
  show thesis
  proof (cases "\<exists>w a rest. i = (w, a) # rest \<and> FRAME_STALL_SECONDS < w")
    case True
    then show thesis by (auto intro!: stalls simp: within_the_stall_def prompt_def)
  next
    case False
    then have "within_the_stall slot i = (j, Inr bs)"
      using j(1) by (auto simp: within_the_stall_def split: list.splits)
    then show thesis using j by (intro reads)
  qed
qed

lemma async_body_agrees:
  assumes "steady i"
  shows "\<not> prompt i \<and> snd (async_body n i) = Inl Stalled
    \<or> async_body n i = map_prod id (map_sum (\<lambda>_. TruncatedFrame) id) (read_exact n i)"
  using assms
proof (induction n arbitrary: i rule: less_induct)
  case (less n)
  show ?case
  proof (cases "n = 0")
    case True
    then show ?thesis by (simp add: async_body.simps read_exact.simps)
  next
    case False
    then have "0 < n" by simp
    with less.prems show ?thesis
    proof (cases rule: stalls_or_reads)
      case (stalls j)
      then show ?thesis using False by (simp add: async_body.simps [of n i])
    next
      case (reads j bs)
      show ?thesis
      proof (cases "bs = []")
        case True
        then show ?thesis
          using reads(1,2) False by (simp add: async_body.simps [of n i] read_exact.simps [of n i])
      next
        case bs: False
        then have "n - length bs < n" using False by simp
        note IH = less.IH [OF this reads(3)]
        have "\<not> prompt j \<Longrightarrow> \<not> prompt i" using reads(4) prompt_tl by blast
        then show ?thesis
          using IH reads(1,2) False bs
          by (auto simp: async_body.simps [of n i] read_exact.simps [of n i] split: prod.splits sum.splits)
      qed
    qed
  qed
qed

lemma async_header_agrees:
  assumes "steady i" "length held \<le> 5"
  shows "\<not> prompt (if held = [] then tl i else i) \<and> snd (async_header held i) = Inl Stalled
    \<or> async_header held i = read_header held i
      \<and> (prompt (if held = [] then tl i else i) \<longrightarrow> prompt (fst (read_header held i)))"
  using assms
proof (induction "5 - length held" arbitrary: held i rule: less_induct)
  case less
  show ?case
  proof (cases "5 \<le> length held")
    case True
    then show ?thesis by (auto simp: async_header.simps read_header.simps)
  next
    case False
    let ?read = "if held = []
      then (case read_some 5 i of (i, Inl _) \<Rightarrow> (i, Inl Io) | (i, Inr bs) \<Rightarrow> (i, Inr bs))
      else within_the_stall (5 - length held) i"
    have pos: "0 < 5 - length held" using False by simp
    consider (stalls) j where "held \<noteq> []" "\<not> prompt i" "?read = (j, Inl Stalled)"
      | (reads) j bs where "?read = (j, Inr bs)" "read_some (5 - length held) i = (j, Inr bs)" "steady j"
        "prompt (if held = [] then tl i else i) \<Longrightarrow> prompt j"
    proof (cases "held = []")
      case True
      obtain j bs where "read_some 5 i = (j, Inr bs)" "steady j" "prompt (tl i) \<Longrightarrow> prompt j"
        using read_some_steady [OF less.prems(1), of 5] by (metis zero_less_numeral)
      then show thesis using True reads by simp
    next
      case h: False
      from less.prems(1) pos show thesis
        by (cases rule: stalls_or_reads) (use h stalls reads prompt_tl in auto)
    qed
    then show ?thesis
    proof cases
      case (stalls j)
      then show ?thesis using False by (simp add: async_header.simps [of held i])
    next
      case (reads j bs)
      show ?thesis
      proof (cases "bs = []")
        case True
        then show ?thesis
          using reads False by (simp add: async_header.simps [of held i] read_header.simps [of held i])
      next
        case bs: False
        have rec: "async_header held i = async_header (held @ bs) j" "read_header held i = read_header (held @ bs) j"
          using reads(1,2) False bs
          by (simp_all add: async_header.simps [of held i] read_header.simps [of held i])
        have "5 - length (held @ bs) < 5 - length held" "length (held @ bs) \<le> 5"
          using bs False read_some_length [OF reads(2)] by (auto simp: neq_Nil_conv)
        from less.hyps [OF this(1) reads(3) this(2)] show ?thesis
          unfolding rec using bs reads(4) by auto
      qed
    qed
  qed
qed

lemma async_agrees:
  assumes "steady i"
  shows "\<not> prompt (tl i) \<and> snd (async_read_tagged i) = Inl Stalled \<or> async_read_tagged i = read_tagged i"
proof -
  have z: "length ([] :: bytes) \<le> 5" by simp
  consider (stalls) j where "\<not> prompt (tl i)" "async_header [] i = (j, Inl Stalled)"
    | (reads) j r where "async_header [] i = (j, r)" "read_header [] i = (j, r)" "prompt (tl i) \<Longrightarrow> prompt j"
    using async_header_agrees [OF assms z] by (cases "async_header [] i"; cases "read_header [] i") auto
  then show ?thesis
  proof cases
    case (stalls j)
    then show ?thesis by (simp add: async_read_tagged_def)
  next
    case (reads j r)
    show ?thesis
    proof (cases "\<exists>h n. r = Inr (Some h) \<and> announced h = Inr n")
      case True
      then obtain h n where h: "r = Inr (Some h)" "announced h = Inr n" by blast
      from assms z have "steady j"
        by (cases rule: read_header_steady) (use reads(2) h(1) in \<open>auto split: if_splits\<close>)
      from async_body_agrees [OF this, of n] show ?thesis
        using reads h prompt_tl
        by (cases "read_exact n j"; cases "async_body n j"; cases "snd (read_exact n j)")
          (auto simp: async_read_tagged_def read_tagged_def)
    next
      case False
      then show ?thesis
        using reads(1,2)
        by (auto simp: async_read_tagged_def read_tagged_def split: sum.splits option.splits)
    qed
  qed
qed

section \<open>A conversation\<close>

fun write_each :: "(u8 \<times> bytes) list \<Rightarrow> sink \<Rightarrow> sink \<times> (wire_error + unit)" where
  "write_each [] out = (out, Inr ())"
| "write_each (f # fs) out =
    (case write_tagged (fst f) (snd f) out of
       (out, Inl e) \<Rightarrow> (out, Inl e)
     | (out, Inr _) \<Rightarrow> write_each fs out)"

fun reads_back :: "stream \<Rightarrow> (u8 \<times> bytes) list \<Rightarrow> bool" where
  "reads_back i [] \<longleftrightarrow> snd (read_tagged i) = Inr None"
| "reads_back i (f # fs) \<longleftrightarrow> snd (read_tagged i) = Inr (Some f) \<and> reads_back (fst (read_tagged i)) fs"

lemma write_all_sent: "write_all bs out = (out', Inr u) \<Longrightarrow> sent out' = sent out @ bs"
  by (auto simp: write_all_def split: option.splits if_splits)

lemma write_tagged_sent:
  assumes "write_tagged t body out = (out', Inr u)"
  shows "sent out' = sent out @ frame_bytes (t, body)" "length body \<le> unat CEILING"
proof -
  obtain h o1 where h: "header t body = Inr h" "write_all h out = (o1, Inr ())" "write_all body o1 = (out', Inr u)"
    using assms by (auto simp: write_tagged_def split: sum.splits prod.splits)
  then show "sent out' = sent out @ frame_bytes (t, body)" "length body \<le> unat CEILING"
    using write_all_sent length_ceiling [of body]
    by (auto simp: header_def Let_def frame_bytes_def split: if_splits)
qed

lemma write_each_sent:
  "write_each fs out = (out', Inr u) \<Longrightarrow>
    sent out' = sent out @ concat (map frame_bytes fs) \<and> (\<forall>f \<in> set fs. length (snd f) \<le> unat CEILING)"
proof (induction fs arbitrary: out)
  case (Cons f fs)
  obtain o1 where o: "write_tagged (fst f) (snd f) out = (o1, Inr ())" "write_each fs o1 = (out', Inr u)"
    using Cons.prems by (auto split: prod.splits sum.splits)
  from Cons.IH [OF o(2)] write_tagged_sent [OF o(1)] show ?case by simp
qed simp

lemma reads_back_arrived:
  assumes "steady i" "arrived i = concat (map frame_bytes fs)" "\<forall>f \<in> set fs. length (snd f) \<le> unat CEILING"
  shows "reads_back i fs"
  using assms
proof (induction fs arbitrary: i)
  case Nil
  obtain j where "read_tagged i = (j, frame_of (arrived i))" using read_tagged_steady [OF Nil.prems(1)] by metis
  then show ?case using Nil.prems(2) by (simp add: frame_of_def)
next
  case (Cons f fs)
  have f: "frame_of (arrived i) = Inr (Some f)" using Cons.prems(2,3) frame_of_bytes [of f] by simp
  obtain j where j: "read_tagged i = (j, Inr (Some f))" "steady j"
    using read_tagged_steady [OF Cons.prems(1)] f by metis
  have "arrived j = concat (map frame_bytes fs)" using read_tagged_arrived(1) [OF j(1)] Cons.prems(2) by simp
  then show ?case using j Cons by simp
qed

section \<open>Text\<close>

lemma char_bytes_valid:
  assumes "bs \<noteq> []" "utf8_valid bs"
  obtains n where "char_bytes bs = (True, n)" "0 < n" "utf8_valid (drop n bs)"
proof -
  obtain b r where bs: "bs = b # r" using assms(1) by (cases bs) auto
  show thesis
  proof (cases r)
    case Nil
    then show thesis using assms(2) bs that [of 1] by (auto simp: char_bytes_def split: if_splits)
  next
    case c: (Cons c r1)
    show thesis
    proof (cases r1)
      case Nil
      then show thesis
        using assms(2) bs c that [of 1] that [of 2] by (auto simp: char_bytes_def split: if_splits)
    next
      case d: (Cons d r2)
      show thesis
      proof (cases r2)
        case Nil
        then show thesis
          using assms(2) bs c d that [of 1] that [of 2] that [of 3]
          by (auto simp: char_bytes_def second_of_three_def split: if_splits)
      next
        case e: (Cons e r3)
        then show thesis
          using assms(2) bs c d that [of 1] that [of 2] that [of 3] that [of 4]
          by (auto simp: char_bytes_def second_of_three_def second_of_four_def split: if_splits)
      qed
    qed
  qed
qed

lemma lossy_keeps_text: "utf8_valid bs \<Longrightarrow> from_utf8_lossy bs = bs"
proof (induction "length bs" arbitrary: bs rule: less_induct)
  case less
  show ?case
  proof (cases "bs = []")
    case False
    with less.prems obtain n where n: "char_bytes bs = (True, n)" "0 < n" "utf8_valid (drop n bs)"
      using char_bytes_valid by blast
    then have "from_utf8_lossy (drop n bs) = drop n bs" using less.hyps False by simp
    then show ?thesis using n(1) False by (simp add: from_utf8_lossy.simps [of bs])
  qed (simp add: from_utf8_lossy.simps)
qed

lemma class_round_trip: "class_from_byte (class_byte c) = Some c" "class_bytes (class_byte c)"
  by (cases c; simp add: class_from_byte_def class_bytes_def)+

section \<open>Fields\<close>

lemma wire_take_bytes_at [take_simps]:
  assumes "at = length pre" "length bs < 2 ^ 32"
  shows "wire_take_bytes (pre @ u32_bytes (length_u32 bs) @ bs @ rest) at = Inr (bs, at + 4 + length bs)"
proof -
  have "unat (length_u32 bs) = length bs"
    using assms(2) by (simp add: length_u32_def unsigned_of_nat take_bit_nat_eq_self_iff)
  then show ?thesis
    using assms(1) body_get_at [of at pre "at + 4" "u32_bytes (length_u32 bs)" "bs @ rest"]
      body_get_at [of "at + 4" "pre @ u32_bytes (length_u32 bs)" "at + 4 + length bs" bs rest]
    by (simp add: wire_take_bytes_def)
qed

lemma wire_text_round_trip:
  assumes "utf8_valid words" "length words < 2 ^ 32"
  shows "wire_take_text (wire_put_text into words @ rest) (length into)
    = Inr (words, length (wire_put_text into words))"
  using assms wire_take_bytes_at [of "length into" into words rest]
  by (simp add: wire_take_text_def wire_put_text_def)

section \<open>Properties\<close>

lemma small_lengths:
  "unat CEILING = 16777216" "length_u32 [x] \<le> CEILING" "length_u32 [] \<le> CEILING"
  "\<not> CEILING < length_u32 [x]" "\<not> CEILING < length_u32 []"
  "u32_bytes (length_u32 [x]) = [0, 0, 0, 1]" "u32_bytes (length_u32 []) = [0, 0, 0, 0]"
  by (simp_all add: CEILING_def length_u32_def u32_bytes_def be_bytes_def)

text \<open>C23: in whatever pieces the bytes arrive, a frame is read from them as they are:
nothing is a goodbye, part of a frame is a truncation, a length above the ceiling is
refused with no byte of the body read, and a frame takes its own bytes and leaves
the rest.  The reader that does not hold a thread answers the same, unless an
answer within the frame comes later than the stall, when it gives up.\<close>

theorem frames_in_any_pieces:
  assumes "steady i"
  shows "snd (read_tagged i) = frame_of (arrived i)
    \<and> (\<forall>f. frame_of (arrived i) = Inr (Some f) \<longrightarrow> arrived i = frame_bytes f @ arrived (fst (read_tagged i)))
    \<and> (\<forall>n. frame_of (arrived i) = Inl (TooLarge n) \<longrightarrow> arrived (fst (read_tagged i)) = drop 5 (arrived i))
    \<and> (async_read_tagged i = read_tagged i \<or> \<not> prompt (tl i) \<and> snd (async_read_tagged i) = Inl Stalled)"
proof -
  obtain j where j: "read_tagged i = (j, frame_of (arrived i))"
    "\<And>n. frame_of (arrived i) = Inl (TooLarge n) \<Longrightarrow> arrived j = drop 5 (arrived i)"
    using read_tagged_steady [OF assms] by metis
  show ?thesis using j read_tagged_arrived(1) [of i j] async_agrees [OF assms] by auto
qed

theorem frames_in_any_pieces_witness:
  "snd (read_tagged [(0, Arrived [2, 0]), (9, Arrived [0, 0, 1]), (90, Arrived [7, 8])]) = Inr (Some (2, [7]))
    \<and> snd (async_read_tagged [(0, Arrived [2, 0]), (9, Arrived [0, 0, 1]), (9, Arrived [7, 8])])
        = Inr (Some (2, [7]))"
proof -
  have f: "frame_of [2, 0, 0, 0, 1, 7, 8] = Inr (Some (2, [7]))"
    using frame_of_bytes [of "(2, [7])" "[8]"] by (simp add: frame_bytes_def small_lengths)
  have "steady [(0, Arrived [2, 0]), (9, Arrived [0, 0, 1]), (90, Arrived [7, 8])]"
    "steady [(0, Arrived [2, 0]), (9, Arrived [0, 0, 1]), (9, Arrived [7, 8])]"
    "prompt (tl [(0, Arrived [2, 0]), (9, Arrived [0, 0, 1]), (9, Arrived [7, 8])])"
    by (simp_all add: steady_def prompt_def FRAME_STALL_SECONDS_def)
  from frames_in_any_pieces [OF this(1)] frames_in_any_pieces [OF this(2)] this(3) f
  show ?thesis by auto
qed

text \<open>C24: what one end writes the other reads: the frames a writer sent without an error, in
whatever pieces they arrive, are read back one by one and then a goodbye.\<close>

theorem conversation_round_trip:
  assumes "write_each fs out = (out', Inr u)" "sent out = []" "steady i" "arrived i = sent out'"
  shows "reads_back i fs"
  using write_each_sent [OF assms(1)] assms(2-4) by (intro reads_back_arrived) auto

theorem conversation_round_trip_witness:
  "reads_back [(0, Arrived [1, 0, 0]), (0, Arrived [0, 1, 9, 6, 0, 0, 0]), (0, Arrived [0])] [(1, [9]), (6, [])]"
proof -
  have "write_each [(1, [9]), (6, [])] \<lparr>sent = [], room = None\<rparr>
    = (\<lparr>sent = [1, 0, 0, 0, 1, 9, 6, 0, 0, 0, 0], room = None\<rparr>, Inr ())"
    by (simp add: write_tagged_def header_def small_lengths write_all_def)
  from conversation_round_trip [OF this] show ?thesis by (simp add: steady_def)
qed

text \<open>A refusal is read back with its class and its words by a peer that reads classes,
and its words alone by an older one, whose message does not begin with a byte that
stands for a class.\<close>

theorem refusal_round_trip:
  assumes "utf8_valid words" "theirs < CODES \<Longrightarrow> words \<noteq> [] \<Longrightarrow> \<not> class_bytes (hd words)"
  shows "read_refusal (refusal theirs cls words)
    = (if CODES \<le> theirs then Some (Some cls) else None, words)"
  using assms lossy_keeps_text [OF assms(1)] class_round_trip [of cls]
  by (cases words) (auto simp: read_refusal_def refusal_def not_le)

text \<open>The greeting is judged in order: four bytes that are not the magic, or fewer, are
another protocol whatever follows; then a version that does not arrive is a
truncation, another major version is refused, and the minor version is handed back.
What is said first does not depend on what is heard.\<close>

theorem greeting_judged:
  assumes "steady i" "room out = None"
  shows "sent (fst (snd (greet i out))) = sent out @ HELLO @ [MAJOR, MINOR]
    \<and> snd (snd (greet i out)) =
      (let bs = arrived i in
       if take 4 bs \<noteq> HELLO then Inl NotThisProtocol
       else if length bs < 6 then Inl TruncatedFrame
       else if bs ! 4 \<noteq> MAJOR then Inl (WrongVersion (bs ! 4) MAJOR)
       else Inr (bs ! 5))"
  using assms(1)
proof (cases rule: read_exact_steady [where n = 4])
  case (short j)
  then have "take 4 (arrived i) \<noteq> HELLO" by (auto simp: HELLO_def dest: arg_cong [where f = length])
  then show ?thesis using short(2) assms(2) by (simp add: greet_def write_all_def)
next
  case (whole j)
  from whole(3) show ?thesis
  proof (cases rule: read_exact_steady [where n = 2])
    case s: (short k)
    then show ?thesis using whole assms(2) by (auto simp: greet_def write_all_def Let_def)
  next
    case w: (whole k)
    then show ?thesis using whole assms(2) by (auto simp: greet_def write_all_def Let_def)
  qed
qed

end
