(* ===== verification/Collecting.thy ===== *)
theory Collecting
  imports Log_Feed Writer_Order Frame
begin

text \<open>A follower asks for what it does not have and a leader answers out of its log
(collection.rs, collection/serving.rs and collection/collector.rs of tessari-wire):
the ask and the answer with their bodies, how the leader fills an answer under the
limits of the follower and its own, and what the follower takes an answer to prove.\<close>

section \<open>The ask and the answer\<close>

record collect =
  co_home :: reach
  co_from :: sequence
  co_limit :: u64

record collected =
  cd_log :: log_id
  cd_previous :: u64
  cd_records :: "(sequence \<times> log_record) list"
  cd_stopped_early :: bool
  cd_over :: "reach option"
  cd_order :: "sequence option"
  cd_epoch :: "u64 option"

definition collect_encode :: "collect \<Rightarrow> bytes" where
  "collect_encode c = wire_put_reach [] (co_home c) @ u64_bytes (co_from c) @ u64_bytes (co_limit c)"

definition collect_decode :: "bytes \<Rightarrow> wire_error + collect" where
  "collect_decode body =
    bindR (wire_take_reach body 0) (\<lambda>(home, at).
    bindR (wire_take_u64 body at) (\<lambda>(from, at).
    bindR (wire_take_u64 body at) (\<lambda>(limit, _).
      Inr \<lparr>co_home = home, co_from = from, co_limit = limit\<rparr>)))"

definition put_entry :: "bytes \<Rightarrow> sequence \<times> log_record \<Rightarrow> bytes" where
  "put_entry body x = wire_put_bytes (body @ u64_bytes (fst x)) (log_record_encode (snd x))"

definition length_u64 :: "'a list \<Rightarrow> u64" where
  "length_u64 xs = (if length xs < 2 ^ 64 then word_of_nat (length xs) else - 1)"

definition collected_encode :: "collected \<Rightarrow> bytes" where
  "collected_encode c =
    (let body = wire_put_log [] (cd_log c) @ u64_bytes (cd_previous c) @ u64_bytes (length_u64 (cd_records c));
         body = foldl put_entry body (cd_records c);
         body = body @ [if cd_stopped_early c then 1 else 0]
     in case cd_over c of
          None \<Rightarrow> body
        | Some over \<Rightarrow>
            wire_put_reach body over
            @ (case cd_order c of
                 None \<Rightarrow> []
               | Some order \<Rightarrow>
                   u64_bytes order @ (case cd_epoch c of None \<Rightarrow> [] | Some e \<Rightarrow> u64_bytes e)))"

fun lift_encoding :: "enc_error + 'a \<Rightarrow> wire_error + 'a" where
  "lift_encoding (Inl e) = Inl (WireEncoding e)"
| "lift_encoding (Inr a) = Inr a"

fun take_entries :: "nat \<Rightarrow> bytes \<Rightarrow> nat \<Rightarrow> wire_error + (sequence \<times> log_record) list \<times> nat" where
  "take_entries 0 body at = Inr ([], at)"
| "take_entries (Suc n) body at =
    bindR (wire_take_u64 body at) (\<lambda>(sequence, at).
    bindR (wire_take_bytes body at) (\<lambda>(bs, at).
    bindR (lift_encoding (log_record_decode bs)) (\<lambda>r.
    bindR (take_entries n body at) (\<lambda>(rs, at). Inr ((sequence, r) # rs, at)))))"

definition take_tail :: "bytes \<Rightarrow> nat \<Rightarrow> wire_error + reach option \<times> sequence option \<times> u64 option" where
  "take_tail body after =
    (if after < length body then
       bindR (wire_take_reach body after) (\<lambda>(over, at).
       bindR (if at < length body
              then bindR (wire_take_u64 body at) (\<lambda>(order, at). Inr (Some order, at))
              else Inr (None, at)) (\<lambda>(order, at).
       bindR (if order \<noteq> None \<and> at < length body
              then bindR (wire_take_u64 body at) (\<lambda>(e, _). Inr (Some e))
              else Inr None) (\<lambda>e.
         Inr (Some over, order, e))))
     else Inr (None, None, None))"

definition collected_decode :: "bytes \<Rightarrow> wire_error + collected" where
  "collected_decode body =
    bindR (wire_take_log body 0) (\<lambda>(log, at).
    bindR (wire_take_u64 body at) (\<lambda>(previous, at).
    bindR (wire_take_u64 body at) (\<lambda>(count, at).
    bindR (take_entries (unat count) body at) (\<lambda>(rs, at).
    let early = at < length body \<and> body ! at \<noteq> 0 in
    bindR (take_tail body (at + 1)) (\<lambda>(over, order, e).
      Inr \<lparr>cd_log = log, cd_previous = previous, cd_records = rs, cd_stopped_early = early,
        cd_over = over, cd_order = order, cd_epoch = e\<rparr>)))))"

section \<open>Filling an answer\<close>

definition COLLECTION_BUDGET_BYTES :: nat where
  "COLLECTION_BUDGET_BYTES = 4 * 1024 * 1024"

definition COLLECTION_PAGE_RECORDS :: nat where
  "COLLECTION_PAGE_RECORDS = 256"

datatype collect_error = Uncollectable sequence | Unsubscribed | CollectRefused log_error

type_synonym read_fn = "sequence \<Rightarrow> nat \<Rightarrow> log_error + (sequence \<times> log_record) list"

definition usize_add :: "nat \<Rightarrow> nat \<Rightarrow> nat" where
  "usize_add a b = min (a + b) (2 ^ 64 - 1)"

text \<open>One page: its records are carried until the next would go over the budget; the last
component says that it would.\<close>

fun fill_page ::
  "nat \<Rightarrow> (sequence \<times> log_record) list \<Rightarrow> nat \<Rightarrow> sequence \<Rightarrow> (sequence \<times> log_record) list
    \<Rightarrow> (sequence \<times> log_record) list \<times> nat \<times> sequence \<times> bool" where
  "fill_page budget acc spent cursor [] = (acc, spent, cursor, False)"
| "fill_page budget acc spent cursor ((at, r) # rs) =
    (let size = length (log_record_encode r) in
     if acc \<noteq> [] \<and> budget < usize_add spent size then (acc, spent, cursor, True)
     else fill_page budget (acc @ [(at, r)]) (usize_add spent size) (saturating_next at) rs)"

lemma fill_page_grows:
  "fill_page budget acc spent cursor rs = (acc', spent', cursor', False) \<Longrightarrow>
    length acc' = length acc + length rs"
  by (induction budget acc spent cursor rs rule: fill_page.induct) (auto simp: Let_def split: if_splits)

lemma fill_page_more:
  assumes "(acc', spent', cursor', False) = fill_page budget acc spent cursor rs" "rs \<noteq> []" "length acc < limit"
  shows "limit - length acc' < limit - length acc"
  using fill_page_grows [OF assms(1) [symmetric]] assms(2,3) by (cases rs) simp_all

text \<open>The log is read a page at a time, and each page is read at a moment of its own, while
commits land: the reads are numbered in their order.\<close>

function fill_loop ::
  "(nat \<Rightarrow> read_fn) \<Rightarrow> nat \<Rightarrow> nat \<Rightarrow> sequence \<Rightarrow> nat \<Rightarrow> (sequence \<times> log_record) list \<Rightarrow> nat \<Rightarrow> sequence
    \<Rightarrow> collect_error + (sequence \<times> log_record) list \<times> bool" where
  "fill_loop read i budget from limit acc spent cursor =
    (let room = limit - length acc; want = min room COLLECTION_PAGE_RECORDS in
     if room = 0 then Inr (acc, False)
     else
       (case read i cursor want of
          Inl (BelowLogStart _ _) \<Rightarrow> Inl (Uncollectable from)
        | Inl e \<Rightarrow> Inl (CollectRefused e)
        | Inr page \<Rightarrow>
            if page = [] then Inr (acc, False)
            else
              (case fill_page budget acc spent cursor page of
                 (acc, spent, cursor, stopped) \<Rightarrow>
                   if stopped then Inr (acc, True)
                   else if length page < want then Inr (acc, False)
                   else fill_loop read (Suc i) budget from limit acc spent cursor)))"
  by pat_completeness auto
termination
  by (relation "measure (\<lambda>(_, _, _, _, limit, acc, _, _). limit - length acc)") (auto intro: fill_page_more)

declare fill_loop.simps [simp del]

definition fill :: "(nat \<Rightarrow> read_fn) \<Rightarrow> nat \<Rightarrow> sequence \<Rightarrow> nat \<Rightarrow> collect_error + (sequence \<times> log_record) list \<times> bool" where
  "fill read budget from limit = fill_loop read 0 budget from limit [] 0 from"

definition preceding :: "read_fn \<Rightarrow> sequence \<Rightarrow> collect_error + u64" where
  "preceding read from =
    (if from \<le> 1 then Inr 0
     else
       (let before = saturating_pred from in
        case read before 1 of
          Inl (BelowLogStart _ _) \<Rightarrow> Inl (Uncollectable from)
        | Inl e \<Rightarrow> Inl (CollectRefused e)
        | Inr [] \<Rightarrow> Inl (Uncollectable from)
        | Inr ((at, r) # _) \<Rightarrow> if at = before then Inr (lr_epoch r) else Inl (Uncollectable from)))"

section \<open>Serving\<close>

text \<open>What a leader notes of a follower: the position an ask vouches for, how far it was
served, and what it was sent.\<close>

datatype follower_note =
    FollowerAsked log_id sequence
  | FollowerServed reach sequence
  | FollowerSent log_id sequence

text \<open>What the handler asks of the rest of the store: the subscription of the follower, the
log that serves a range, the leadership the node writes under and its identity.\<close>

record serving_env =
  sv_granted :: "collect_error + reach option"
  sv_history_log :: "reach \<Rightarrow> collect_error + log_id"
  sv_writing_epoch :: "reach \<Rightarrow> collect_error + u64"
  sv_me :: "collect_error + writer_id"
  sv_budget :: nat

definition stated_order :: "u64 \<Rightarrow> writer_id \<Rightarrow> log_id \<Rightarrow> sequence \<Rightarrow> sequence option \<times> u64 option" where
  "stated_order lead me log order =
    (let e = (if 0 < lead then Some lead else None) in
     (if e \<noteq> None \<or> log_writer log = me then Some order else None, e))"

definition answer_with ::
  "reach \<Rightarrow> log_id \<Rightarrow> u64 \<Rightarrow> sequence option \<times> u64 option \<Rightarrow> (sequence \<times> log_record) list \<times> bool \<Rightarrow> collected" where
  "answer_with over log previous stated filled =
    \<lparr>cd_log = log, cd_previous = previous, cd_records = fst filled, cd_stopped_early = snd filled,
      cd_over = Some over, cd_order = fst stated, cd_epoch = snd stated\<rparr>"

definition served_notes :: "collect \<Rightarrow> log_id \<Rightarrow> (sequence \<times> log_record) list \<Rightarrow> follower_note list" where
  "served_notes ask log rs =
    (if rs = [] then [FollowerServed (co_home ask) (saturating_pred (co_from ask))]
     else [FollowerServed (co_home ask) (fst (last rs)), FollowerSent log (fst (last rs))])"

text \<open>The handler reads the store at several moments: the record before the position asked for
at the first, the version its commits have reached at the second, and the pages of the
log after that.\<close>

definition collecting_for ::
  "serving_env \<Rightarrow> catalog_fn \<Rightarrow> (nat \<Rightarrow> get_fn) \<Rightarrow> (nat \<Rightarrow> scan_fn) \<Rightarrow> bool \<Rightarrow> collect
    \<Rightarrow> follower_note list \<times> (collect_error + collected)" where
  "collecting_for env catalog get scan acknowledges ask =
    (case sv_granted env of
       Inl e \<Rightarrow> ([], Inl e)
     | Inr None \<Rightarrow> ([], Inl Unsubscribed)
     | Inr (Some over) \<Rightarrow>
         if \<not> (contains over (co_home ask) \<or> contains (co_home ask) over) then ([], Inl Unsubscribed)
         else
           (case sv_history_log env (co_home ask) of
              Inl e \<Rightarrow> ([], Inl e)
            | Inr log \<Rightarrow>
                (let read = (\<lambda>i. log_records_within catalog (get i) (scan i) over log) in
                 case preceding (read 0) (co_from ask) of
                   Inl e \<Rightarrow> ([], Inl e)
                 | Inr previous \<Rightarrow>
                     (let notes = (if acknowledges then [FollowerAsked log (saturating_pred (co_from ask))] else []) in
                      case bindR (case committed_version (get 1) of
                             Inl e \<Rightarrow> Inl (CollectRefused (LogRead e)) | Inr order \<Rightarrow> Inr order) (\<lambda>order.
                           bindR (sv_writing_epoch env (co_home ask)) (\<lambda>lead.
                           bindR (sv_me env) (\<lambda>me.
                           bindR (fill (\<lambda>i. read (i + 2)) (sv_budget env) (co_from ask) (unat (co_limit ask))) (\<lambda>filled.
                             Inr (answer_with over log previous (stated_order lead me log order) filled))))) of
                        Inl e \<Rightarrow> (notes, Inl e)
                      | Inr answer \<Rightarrow> (notes @ served_notes ask log (cd_records answer), Inr answer)))))"

section \<open>What an answer proves\<close>

definition answer_horizon :: "u64 \<Rightarrow> collected \<Rightarrow> horizon" where
  "answer_horizon limit c =
    (if length_u64 (cd_records c) < limit \<and> \<not> cd_stopped_early c then
       (case (cd_order c, cd_epoch c) of
          (Some order, Some e) \<Rightarrow> LevelAt e order
        | (Some order, None) \<Rightarrow> Level order
        | (None, _) \<Rightarrow> Unstated)
     else Full)"

definition page_of :: "u64 \<Rightarrow> sequence \<Rightarrow> collected \<Rightarrow> page" where
  "page_of limit from c =
    \<lparr>pg_log = cd_log c, pg_from = from, pg_previous = cd_previous c, pg_records = cd_records c,
      pg_horizon = answer_horizon limit c\<rparr>"

section \<open>How an answer is filled\<close>

text \<open>A reader that gives the records of a list, in order, from where each page ended.\<close>

definition cursor_at :: "sequence \<Rightarrow> (sequence \<times> log_record) list \<Rightarrow> nat \<Rightarrow> sequence" where
  "cursor_at from rs k = (if k = 0 then from else saturating_next (fst (rs ! (k - 1))))"

definition reads_list :: "read_fn \<Rightarrow> sequence \<Rightarrow> (sequence \<times> log_record) list \<Rightarrow> bool" where
  "reads_list read from rs \<longleftrightarrow>
    (\<forall>k n. k \<le> length rs \<longrightarrow> read (cursor_at from rs k) n = Inr (take n (drop k rs)))"

text \<open>Over the moments the list only grows.\<close>

definition reads_lists :: "(nat \<Rightarrow> read_fn) \<Rightarrow> sequence \<Rightarrow> (nat \<Rightarrow> (sequence \<times> log_record) list) \<Rightarrow> bool" where
  "reads_lists read from R \<longleftrightarrow> (\<forall>i. reads_list (read i) from (R i) \<and> prefix (R i) (R (Suc i)))"

lemma cursor_at_prefix:
  assumes "prefix rs rs'" "k \<le> length rs"
  shows "cursor_at from rs' k = cursor_at from rs k" "take k rs' = take k rs"
  using assms by (auto simp: prefix_def cursor_at_def nth_append)

lemma fill_page_carries:
  assumes "fill_page budget (take k rs) spent (cursor_at from rs k) (take n (drop k rs)) = (acc, spent', cursor, stopped)"
    and "k \<le> length rs"
  obtains j where "k \<le> j" "j \<le> min (k + n) (length rs)" "acc = take j rs" "cursor = cursor_at from rs j"
    "stopped \<Longrightarrow> j < length rs \<and> 0 < j" "\<not> stopped \<Longrightarrow> j = min (k + n) (length rs)"
  using assms
proof (induction n arbitrary: k spent thesis)
  case 0
  then show ?case by auto
next
  case (Suc n)
  show ?case
  proof (cases "k < length rs")
    case False
    then show ?thesis using Suc.prems by auto
  next
    case True
    obtain at r where x: "rs ! k = (at, r)" by fastforce
    have d: "take (Suc n) (drop k rs) = (at, r) # take n (drop (Suc k) rs)"
      using True x by (simp add: Cons_nth_drop_Suc [symmetric])
    have t: "take k rs @ [(at, r)] = take (Suc k) rs" using True x by (simp add: take_Suc_conv_app_nth)
    have c: "saturating_next at = cursor_at from rs (Suc k)" using x by (simp add: cursor_at_def)
    show ?thesis
    proof (cases "take k rs \<noteq> [] \<and> budget < usize_add spent (length (log_record_encode r))")
      case stop: True
      then show ?thesis using Suc.prems(2) d True by (intro Suc.prems(1) [of k]) (auto simp: Let_def)
    next
      case go: False
      then have "fill_page budget (take (Suc k) rs) (usize_add spent (length (log_record_encode r)))
          (cursor_at from rs (Suc k)) (take n (drop (Suc k) rs)) = (acc, spent', cursor, stopped)"
        using Suc.prems(2) unfolding d fill_page.simps Let_def t c by (simp only: go if_False)
      moreover have "Suc k \<le> length rs" using True by simp
      ultimately show ?thesis
      proof (rule Suc.IH [rotated])
        fix j
        assume "Suc k \<le> j" "j \<le> min (Suc k + n) (length rs)" "acc = take j rs" "cursor = cursor_at from rs j"
          "stopped \<Longrightarrow> j < length rs \<and> 0 < j" "\<not> stopped \<Longrightarrow> j = min (Suc k + n) (length rs)"
        then show thesis by (intro Suc.prems(1) [of j]) simp_all
      qed
    qed
  qed
qed

text \<open>An answer carries a first part of the list as it is at the moment of its last page: all
of it when it is short and the budget was not what stopped it, and at least one record
when there is one to carry.\<close>

definition carries_part :: "(nat \<Rightarrow> 'a list) \<Rightarrow> nat \<Rightarrow> nat \<Rightarrow> nat \<Rightarrow> bool \<Rightarrow> bool" where
  "carries_part R limit p j early \<longleftrightarrow> j \<le> length (R p) \<and> j \<le> limit \<and> (j < limit \<and> \<not> early \<longrightarrow> j = length (R p))
    \<and> (early \<longrightarrow> 0 < j \<and> j < length (R p))"

lemma fill_loop_carries:
  assumes "reads_lists read from R" "k \<le> length (R i)" "k \<le> limit"
  shows "\<exists>p j early. fill_loop read i budget from limit (take k (R i)) spent (cursor_at from (R i) k)
      = Inr (take j (R p), early)
    \<and> i \<le> p \<and> k \<le> j \<and> carries_part R limit p j early \<and> (0 < limit \<and> R i \<noteq> [] \<longrightarrow> 0 < j)"
  using assms(2,3)
proof (induction "limit - k" arbitrary: i k spent rule: less_induct)
  case less
  define want where "want = min (limit - k) COLLECTION_PAGE_RECORDS"
  let ?rs = "R i"
  have len: "length (take k ?rs) = k" using less.prems(1) by simp
  have rd: "read i (cursor_at from ?rs k) want = Inr (take want (drop k ?rs))"
    using assms(1) less.prems(1) unfolding reads_lists_def reads_list_def by blast
  note unf = fill_loop.simps [of read i budget "from" limit "take k ?rs" spent "cursor_at from ?rs k",
      unfolded len Let_def, folded want_def, unfolded rd]
  show ?case
  proof (cases "limit - k = 0 \<or> k = length ?rs")
    case True
    then show ?thesis using less.prems unfolding unf carries_part_def
      by (intro exI [of _ i] exI [of _ k] exI [of _ False]) auto
  next
    case False
    then have k: "k < limit" "k < length ?rs" using less.prems by simp_all
    have want: "0 < want" "want \<le> limit - k" using k(1) by (simp_all add: want_def COLLECTION_PAGE_RECORDS_def)
    then have ne: "take want (drop k ?rs) \<noteq> []" using k(2) by simp
    obtain acc spent' cursor stopped where
      p: "fill_page budget (take k ?rs) spent (cursor_at from ?rs k) (take want (drop k ?rs)) = (acc, spent', cursor, stopped)"
      by (metis prod_cases4)
    obtain j where j: "k \<le> j" "j \<le> min (k + want) (length ?rs)" "acc = take j ?rs" "cursor = cursor_at from ?rs j"
      "stopped \<Longrightarrow> j < length ?rs \<and> 0 < j" "\<not> stopped \<Longrightarrow> j = min (k + want) (length ?rs)"
      using fill_page_carries [OF p less.prems(1)] by metis
    have jl: "j \<le> limit" "j \<le> length ?rs" using j(2) k(1) want(2) by auto
    have eq: "fill_loop read i budget from limit (take k ?rs) spent (cursor_at from ?rs k) =
      (if stopped then Inr (take j ?rs, True)
       else if length (take want (drop k ?rs)) < want then Inr (take j ?rs, False)
       else fill_loop read (Suc i) budget from limit (take j ?rs) spent' (cursor_at from ?rs j))"
      unfolding unf using k(1) ne p j(3,4) by simp
    show ?thesis
    proof (cases stopped)
      case True
      then show ?thesis using eq j(1,5) jl unfolding carries_part_def
        by (intro exI [of _ i] exI [of _ j] exI [of _ True]) auto
    next
      case go: False
      show ?thesis
      proof (cases "length (take want (drop k ?rs)) < want")
        case True
        then show ?thesis using eq go j(1,6) jl k want unfolding carries_part_def
          by (intro exI [of _ i] exI [of _ j] exI [of _ False]) auto
      next
        case False
        then have "j = k + want" using j(6) [OF go] k(2) by (auto simp: min_def split: if_splits)
        then have lt: "limit - j < limit - k" "0 < j" using want k(1) by simp_all
        have pre: "prefix ?rs (R (Suc i))" using assms(1) by (simp add: reads_lists_def)
        note grown = cursor_at_prefix [OF pre jl(2)]
        have "j \<le> length (R (Suc i))" using jl(2) prefix_length_le [OF pre] by simp
        from less.hyps [OF lt(1) this jl(1), of spent'] obtain q l early where
          q: "fill_loop read (Suc i) budget from limit (take j ?rs) spent' (cursor_at from ?rs j) = Inr (take l (R q), early)"
            "Suc i \<le> q" "j \<le> l" "carries_part R limit q l early"
          unfolding grown by blast
        have "fill_loop read i budget from limit (take k ?rs) spent (cursor_at from ?rs k) = Inr (take l (R q), early)"
          using False go q(1) unfolding eq by simp
        then show ?thesis using q(2-4) j(1) lt(2)
          by (intro exI [of _ q] exI [of _ l] exI [of _ early]) simp
      qed
    qed
  qed
qed

lemma fill_carries:
  assumes "reads_lists read from R"
  shows "\<exists>p j early. fill read budget from limit = Inr (take j (R p), early)
    \<and> carries_part R limit p j early \<and> (0 < limit \<and> R 0 \<noteq> [] \<longrightarrow> 0 < j)"
  using fill_loop_carries [OF assms, of 0 0 limit budget 0] by (auto simp: fill_def cursor_at_def)

section \<open>Out of the log\<close>

text \<open>What a subscription is given of a log from a position on.\<close>

definition served_records ::
  "catalog_fn \<Rightarrow> reach \<Rightarrow> store_map \<Rightarrow> log_id \<Rightarrow> sequence \<Rightarrow> sequence
    \<Rightarrow> settle_error + (sequence \<times> log_record) list" where
  "served_records catalog sub m log from n =
    (if sub = Store then Inr (records_from m log from n) else narrow_each catalog sub (records_from m log from n))"

lemma narrow_each_nth:
  "narrow_each catalog sub xs = Inr ys \<Longrightarrow> length ys = length xs
    \<and> (\<forall>i < length xs. fst (ys ! i) = fst (xs ! i) \<and> narrow catalog sub (snd (xs ! i)) = Inr (snd (ys ! i)))"
proof (induction xs arbitrary: ys)
  case (Cons x xs)
  obtain at r where x: "x = (at, r)" by fastforce
  then obtain r' rs where "narrow catalog sub r = Inr r'" "narrow_each catalog sub xs = Inr rs" "ys = (at, r') # rs"
    using Cons.prems by (auto simp: bindR_eq_Inr)
  then show ?case using Cons.IH x by (auto simp: nth_Cons split: nat.split)
qed simp

lemma narrow_each_part:
  assumes "narrow_each catalog sub xs = Inr ys"
  shows "narrow_each catalog sub (take n (drop k xs)) = Inr (take n (drop k ys))"
proof -
  have d: "narrow_each catalog sub (drop k xs) = Inr (drop k ys)" if "narrow_each catalog sub xs = Inr ys" for k xs ys
    using that
  proof (induction k arbitrary: xs ys)
    case (Suc k)
    then show ?case by (cases xs) (auto simp: bindR_eq_Inr)
  qed simp
  have "narrow_each catalog sub (take n xs) = Inr (take n ys)" if "narrow_each catalog sub xs = Inr ys" for xs ys
    using that
  proof (induction n arbitrary: xs ys)
    case (Suc n)
    then show ?case by (cases xs) (auto simp: bindR_eq_Inr)
  qed simp
  then show ?thesis using d [OF assms] by blast
qed

lemma narrow_key: "narrow catalog sub r = Inr r' \<Longrightarrow> key_of r' = key_of r"
  by (auto simp: narrow_def bindR_eq_Inr key_of_def order_of_def log_record_at_def set_order_def
      split: option.splits)

lemma next_position:
  fixes p :: sequence
  assumes "p \<noteq> - 1"
  shows "saturating_next p = p + 1" "unat (p + 1) = Suc (unat p)"
proof -
  show "saturating_next p = p + 1" using assms by (simp add: saturating_next_def)
  have "1 + p \<noteq> 0" using word_le_succ(2) [OF assms] by (metis add.commute word_neq_0_conv)
  from unatSuc [OF this] show "unat (p + 1) = Suc (unat p)" by (simp add: add.commute)
qed

lemma records_from_drop:
  assumes "k < length (records_from m log from n)" "n \<noteq> - 1"
  shows "drop (Suc k) (records_from m log from n)
    = records_from m log (saturating_next (fst (records_from m log from n ! k))) n"
    "fst (records_from m log from n ! k) = word_of_nat (max 1 (unat from) + k)"
proof -
  let ?a = "max 1 (unat from)"
  have k: "?a + k \<le> unat n"
    using assms(1) by (simp add: records_from_def positions_from_def del: upt_Suc)
  show pos: "fst (records_from m log from n ! k) = word_of_nat (?a + k)"
    using k by (simp add: records_from_def positions_from_def del: upt_Suc)
  have u: "unat (word_of_nat (?a + k) :: sequence) = ?a + k" using unat_below [OF k] by simp
  let ?p = "word_of_nat (?a + k) :: sequence"
  have "?p \<le> n" unfolding word_le_nat_alt u using k .
  then have "?p \<noteq> - 1" using assms(2) by (metis antisym word_n1_ge)
  note nx = next_position [OF this, unfolded u]
  show "drop (Suc k) (records_from m log from n)
    = records_from m log (saturating_next (fst (records_from m log from n ! k))) n"
    unfolding pos nx(1) using nx(2)
    by (simp add: records_from_def positions_from_def drop_map del: upt_Suc)
qed

lemma served_records_nth:
  assumes "served_records catalog sub m log from n = Inr rs"
  shows "length rs = length (records_from m log from n)"
    "i < length rs \<Longrightarrow> fst (rs ! i) = fst (records_from m log from n ! i)"
    "i < length rs \<Longrightarrow> key_of (snd (rs ! i)) = key_of (snd (records_from m log from n ! i))"
    "i < length rs \<Longrightarrow> lr_epoch (snd (rs ! i)) = lr_epoch (snd (records_from m log from n ! i))"
proof -
  let ?R = "records_from m log from n"
  have "length rs = length ?R \<and> (\<forall>i < length rs. fst (rs ! i) = fst (?R ! i) \<and> key_of (snd (rs ! i)) = key_of (snd (?R ! i)))"
  proof (cases "sub = Store")
    case True
    then show ?thesis using assms by (simp add: served_records_def)
  next
    case False
    then have "narrow_each catalog sub ?R = Inr rs" using assms by (simp add: served_records_def)
    from narrow_each_nth [OF this] show ?thesis using narrow_key by metis
  qed
  moreover have "key_of r = key_of r' \<Longrightarrow> lr_epoch r = lr_epoch r'" for r r' by (simp add: key_of_def)
  ultimately show "length rs = length ?R" "i < length rs \<Longrightarrow> fst (rs ! i) = fst (?R ! i)"
    "i < length rs \<Longrightarrow> key_of (snd (rs ! i)) = key_of (snd (?R ! i))"
    "i < length rs \<Longrightarrow> lr_epoch (snd (rs ! i)) = lr_epoch (snd (?R ! i))" by blast+
qed

lemma cursor_at_drop:
  assumes "served_records catalog sub m log from n = Inr rs" "k \<le> length rs" "n \<noteq> - 1"
  shows "records_from m log (cursor_at from rs k) n = drop k (records_from m log from n)" "from \<le> cursor_at from rs k"
proof -
  let ?R = "records_from m log from n"
  note nth = served_records_nth [OF assms(1)]
  have "records_from m log (cursor_at from rs k) n = drop k ?R \<and> from \<le> cursor_at from rs k"
  proof (cases k)
    case (Suc j)
    have j: "j < length rs" "j < length ?R" using Suc assms(2) nth(1) by simp_all
    then have p: "fst (?R ! j) \<in> set (positions_from from n)" by (simp add: records_from_def)
    then have le: "from \<le> fst (?R ! j)" "fst (?R ! j) \<noteq> - 1"
      using assms(3) by (auto simp: set_positions_from dest: antisym [OF word_n1_ge])
    then have "from \<le> saturating_next (fst (?R ! j))"
      using next_position [OF le(2)] word_le_succ(1) [OF le(2), of "from"] by simp
    then show ?thesis using Suc records_from_drop(1) [OF j(2) assms(3)] nth(2) [OF j(1)] by (simp add: cursor_at_def)
  qed (simp add: cursor_at_def)
  then show "records_from m log (cursor_at from rs k) n = drop k ?R" "from \<le> cursor_at from rs k" by blast+
qed

context kv_backend
begin

lemma served_reads:
  assumes "ok s" "only_logs (maps s)" "log_wf log" "log_holds (maps s) log start n" "start \<le> from" "n \<noteq> - 1"
    and "served_records catalog sub (maps s) log from n = Inr rs"
  shows "reads_list (log_records_within catalog (get_b s) (scan_b s) sub log) from rs"
  unfolding reads_list_def
proof (intro allI impI)
  fix k limit
  assume k: "k \<le> length rs"
  note c = cursor_at_drop [OF assms(7) k assms(6)]
  have "\<not> cursor_at from rs k < start" using c(2) assms(5) by simp
  then have r: "log_records (get_b s) (scan_b s) log (cursor_at from rs k) limit
      = Inr (take limit (drop k (records_from (maps s) log from n)))"
    using log_records_exact [OF assms(1-4)] c(1) by simp
  show "log_records_within catalog (get_b s) (scan_b s) sub log (cursor_at from rs k) limit = Inr (take limit (drop k rs))"
    using assms(7) narrow_each_part [of catalog sub "records_from (maps s) log from n" rs limit k]
    by (auto simp: log_records_within_def served_records_def r split: if_splits)
qed

lemma preceding_exact:
  assumes "ok s" "only_logs (maps s)" "log_wf log" "log_holds (maps s) log start n" "n \<noteq> - 1"
    and "preceding (log_records_within catalog (get_b s) (scan_b s) sub log) from = Inr e"
  shows "if from \<le> 1 then e = 0
    else entry (maps s) log (from - 1) \<noteq> None \<and> e = lr_epoch (record_in (maps s) log (from - 1))"
proof (cases "from \<le> 1")
  case True
  then show ?thesis using assms(6) by (simp add: preceding_def)
next
  case False
  let ?b = "from - 1"
  have b: "saturating_pred from = ?b" "0 < ?b"
    using False word_le_succ(2) by (auto simp: saturating_pred_def word_neq_0_conv [symmetric])
  obtain r rest where r: "log_records_within catalog (get_b s) (scan_b s) sub log ?b 1 = Inr ((?b, r) # rest)"
    "e = lr_epoch r"
    using assms(6) False b(1)
    by (auto simp: preceding_def Let_def split: sum.splits log_error.splits list.splits if_splits)
  have ge: "\<not> ?b < start"
    using r(1) log_records_exact [OF assms(1-4), of ?b 1]
    by (auto simp: log_records_within_def split: if_splits)
  obtain x xs where x: "take 1 (records_from (maps s) log ?b n) = x # xs"
    "fst x = ?b" "lr_epoch (snd x) = e"
  proof (cases "sub = Store")
    case True
    then have "take 1 (records_from (maps s) log ?b n) = (?b, r) # rest"
      using r(1) log_records_exact [OF assms(1-4), of ?b 1] ge by (simp add: log_records_within_def)
    then show thesis by (rule that) (simp_all add: r(2))
  next
    case sub: False
    then have "narrow_each catalog sub (take 1 (records_from (maps s) log ?b n)) = Inr ((?b, r) # rest)"
      using r(1) log_records_exact [OF assms(1-4), of ?b 1] ge
      by (cases "narrow_each catalog sub (take 1 (records_from (maps s) log ?b n))")
        (auto simp: log_records_within_def)
    then obtain x xs where x: "take 1 (records_from (maps s) log ?b n) = x # xs"
      "narrow_each catalog sub (x # xs) = Inr ((?b, r) # rest)"
      by (cases "take 1 (records_from (maps s) log ?b n)") auto
    have "fst x = ?b" "key_of (snd x) = key_of r"
      using narrow_each_nth [OF x(2)] narrow_key [of catalog sub "snd x"] by fastforce+
    then show thesis using that [OF x(1)] r(2) by (simp add: key_of_def)
  qed
  then have "x \<in> set (records_from (maps s) log ?b n)" by (metis in_set_takeD list.set_intros(1))
  then have "?b \<in> set (positions_from ?b n)" "snd x = record_in (maps s) log ?b"
    using x(2) by (auto simp: records_from_def)
  then show ?thesis using False x(3) assms(4) ge by (auto simp: set_positions_from log_holds_def)
qed

end

text \<open>What the handler relies on of the catalog: it says where each of its rows travels.\<close>

definition catalog_reads :: "catalog_fn \<Rightarrow> bool" where
  "catalog_reads catalog \<longleftrightarrow> (\<forall>m. \<exists>c. catalog m = Inr c)"

lemma served_records_reads:
  assumes "catalog_reads catalog"
  shows "\<exists>rs. served_records catalog sub m log from n = Inr rs"
proof -
  have "\<exists>c. carried_to catalog m = Inr c" for m
    using assms by (auto simp: carried_to_def catalog_reads_def split: option.split)
  then have "\<exists>kept. keep_reaching catalog sub ms = Inr kept" for ms
    by (induction ms) (fastforce simp: bindR_eq_Inr)+
  then have "\<exists>r'. narrow catalog sub r = Inr r'" for r by (fastforce simp: narrow_def bindR_eq_Inr Let_def)
  then have "\<exists>ys. narrow_each catalog sub xs = Inr ys" for xs
    by (induction xs) (fastforce simp: bindR_eq_Inr)+
  then show ?thesis by (simp add: served_records_def)
qed

lemma served_records_all:
  assumes "catalog_reads catalog"
  obtains R where "\<And>i. served_records catalog sub (M i) log from (N i) = Inr (R i)"
proof -
  have "\<exists>R. \<forall>i. served_records catalog sub (M i) log from (N i) = Inr (R i)"
    using served_records_reads [OF assms] by (intro choice) blast
  then show thesis using that by blast
qed

definition asks_here :: "store_map \<Rightarrow> log_id \<Rightarrow> sequence \<Rightarrow> sequence \<Rightarrow> sequence \<Rightarrow> bool" where
  "asks_here m log start n from \<longleftrightarrow>
    start \<le> from \<and> (from \<le> 1 \<or> start \<le> from - 1 \<and> from - 1 \<le> n)"

text \<open>What a handler serves over the moments of its reads: a log that only grows, out of a
store that admits the position asked for.\<close>

definition grows :: "(nat \<Rightarrow> store_map) \<Rightarrow> log_id \<Rightarrow> sequence \<Rightarrow> (nat \<Rightarrow> sequence) \<Rightarrow> bool" where
  "grows M log start N \<longleftrightarrow> (\<forall>i. only_logs (M i) \<and> log_holds (M i) log start (N i) \<and> N i \<noteq> - 1 \<and> N i \<le> N (Suc i)
    \<and> (\<forall>p \<le> N i. entry (M (Suc i)) log p = entry (M i) log p))"

definition admits ::
  "serving_env \<Rightarrow> catalog_fn \<Rightarrow> collect \<Rightarrow> reach \<Rightarrow> log_id \<Rightarrow> u64 \<Rightarrow> writer_id \<Rightarrow> bool" where
  "admits env catalog ask over log lead me \<longleftrightarrow>
    sv_granted env = Inr (Some over) \<and> (contains over (co_home ask) \<or> contains (co_home ask) over)
    \<and> sv_history_log env (co_home ask) = Inr log \<and> sv_writing_epoch env (co_home ask) = Inr lead
    \<and> sv_me env = Inr me \<and> catalog_reads catalog \<and> log_wf log"

definition serves ::
  "serving_env \<Rightarrow> catalog_fn \<Rightarrow> (nat \<Rightarrow> store_map) \<Rightarrow> collect \<Rightarrow> reach \<Rightarrow> log_id \<Rightarrow> (nat \<Rightarrow> sequence)
    \<Rightarrow> u64 \<Rightarrow> writer_id \<Rightarrow> sequence \<Rightarrow> bool" where
  "serves env catalog M ask over log N lead me order \<longleftrightarrow>
    admits env catalog ask over log lead me \<and> committed_version (\<lambda>ks k. Inr (M 1 ks k)) = Inr order
    \<and> (\<exists>start. grows M log start N \<and> asks_here (M 0) log start (N 0) (co_from ask))"

lemma records_from_grow:
  assumes "grows M log start N"
  shows "prefix (records_from (M i) log from (N i)) (records_from (M (Suc i)) log from (N (Suc i)))"
proof -
  have g: "N i \<le> N (Suc i)" "\<And>p. p \<le> N i \<Longrightarrow> entry (M (Suc i)) log p = entry (M i) log p"
    using assms by (auto simp: grows_def)
  let ?a = "max 1 (unat from)"
  have le: "unat (N i) \<le> unat (N (Suc i))" using g(1) by (simp add: word_le_nat_alt)
  have "prefix [?a ..< unat (N i) + 1] [?a ..< unat (N (Suc i)) + 1]"
  proof (cases "?a \<le> unat (N i) + 1")
    case True
    have "[?a ..< unat (N (Suc i)) + 1] = [?a ..< unat (N i) + 1] @ [unat (N i) + 1 ..< unat (N (Suc i)) + 1]"
      using upt_add_eq_append [OF True, of "unat (N (Suc i)) - unat (N i)"] le by simp
    then show ?thesis by (simp only: prefixI)
  qed simp
  then have "prefix (positions_from from (N i)) (positions_from from (N (Suc i)))"
    unfolding positions_from_def by (rule map_mono_prefix)
  moreover have "record_in (M (Suc i)) log p = record_in (M i) log p" if "p \<in> set (positions_from from (N i))" for p
    using that g(2) by (simp add: set_positions_from record_in_def)
  ultimately show ?thesis
    unfolding records_from_def prefix_def by (auto intro!: map_cong)
qed

lemma narrow_each_append:
  "narrow_each catalog sub (xs @ ys) = bindR (narrow_each catalog sub xs) (\<lambda>as. bindR (narrow_each catalog sub ys) (\<lambda>bs. Inr (as @ bs)))"
proof (induction xs)
  case Nil
  then show ?case by (cases "narrow_each catalog sub ys") simp_all
next
  case (Cons x xs)
  obtain at r where x: "x = (at, r)" by (cases x)
  show ?case
    by (cases "narrow catalog sub r"; cases "narrow_each catalog sub xs"; cases "narrow_each catalog sub ys")
      (simp_all add: x Cons)
qed

lemma served_records_prefix:
  assumes "prefix (records_from m log from n) (records_from m' log from n')"
    "served_records catalog sub m log from n = Inr rs" "served_records catalog sub m' log from n' = Inr rs'"
  shows "prefix rs rs'"
proof -
  obtain ys where ys: "records_from m' log from n' = records_from m log from n @ ys" using assms(1) by (auto simp: prefix_def)
  show ?thesis
    using assms(2,3) by (auto simp: served_records_def ys narrow_each_append bindR_eq_Inr split: if_splits)
qed

context kv_backend
begin

lemma preceding_answers:
  assumes "ok s" "only_logs (maps s)" "log_wf log" "log_holds (maps s) log start n" "n \<noteq> - 1"
    "catalog_reads catalog" "asks_here (maps s) log start n from"
  shows "preceding (log_records_within catalog (get_b s) (scan_b s) sub log) from
    = Inr (if from \<le> 1 then 0 else lr_epoch (record_in (maps s) log (from - 1)))"
proof (cases "from \<le> 1")
  case True
  then show ?thesis by (simp add: preceding_def)
next
  case False
  let ?b = "from - 1"
  have b: "saturating_pred from = ?b" "0 < ?b" "start \<le> ?b" "?b \<le> n"
    using False assms(7) by (auto simp: asks_here_def saturating_pred_def word_neq_0_conv [symmetric])
  obtain rs where rs: "served_records catalog sub (maps s) log ?b n = Inr rs"
    using served_records_reads [OF assms(6)] by blast
  have "reads_list (log_records_within catalog (get_b s) (scan_b s) sub log) ?b rs"
    by (rule served_reads [OF assms(1-4) b(3) assms(5) rs])
  then have rd: "log_records_within catalog (get_b s) (scan_b s) sub log ?b 1 = Inr (take 1 rs)"
    unfolding reads_list_def by (metis cursor_at_def drop0 zero_le)
  have "?b \<in> set (positions_from ?b n)" using b by (simp add: set_positions_from)
  then have "records_from (maps s) log ?b n \<noteq> []" by (auto simp: records_from_def)
  then have l: "0 < length (records_from (maps s) log ?b n)" by simp
  have "max 1 (unat ?b) = unat ?b" using b(2) by (auto simp: word_less_nat_alt)
  then have f: "fst (records_from (maps s) log ?b n ! 0) = ?b"
    using records_from_drop(2) [OF l assms(5)] by simp
  then have "snd (records_from (maps s) log ?b n ! 0) = record_in (maps s) log ?b"
    using l by (auto simp: records_from_def)
  moreover have l': "0 < length rs" using served_records_nth(1) [OF rs] l by simp
  ultimately have e: "fst (rs ! 0) = ?b" "lr_epoch (snd (rs ! 0)) = lr_epoch (record_in (maps s) log ?b)"
    using served_records_nth(2,4) [OF rs l'] f by simp_all
  have "take 1 rs = [(?b, snd (rs ! 0))]" using l' e(1) by (cases rs) auto
  then show ?thesis using False b(1) rd e(2) by (simp add: preceding_def)
qed

lemma collecting_answers:
  assumes "\<And>i. ok (S i)" "serves env catalog (\<lambda>i. maps (S i)) ask sub log N lead me order"
    and R: "\<And>i. served_records catalog sub (maps (S i)) log (co_from ask) (N i) = Inr (R i)"
  obtains p j early where "2 \<le> p"
    "collecting_for env catalog (\<lambda>i. get_b (S i)) (\<lambda>i. scan_b (S i)) acks ask =
      ((if acks then [FollowerAsked log (saturating_pred (co_from ask))] else []) @ served_notes ask log (take j (R p)),
       Inr (answer_with sub log
         (if co_from ask \<le> 1 then 0 else lr_epoch (record_in (maps (S 0)) log (co_from ask - 1)))
         (stated_order lead me log order) (take j (R p), early)))"
    "carries_part R (unat (co_limit ask)) p j early" "0 < unat (co_limit ask) \<and> R 2 \<noteq> [] \<longrightarrow> 0 < j"
proof -
  note sv = assms(2) [unfolded serves_def admits_def]
  let ?M = "\<lambda>i. maps (S i)"
  obtain start where st: "grows ?M log start N" "asks_here (maps (S 0)) log start (N 0) (co_from ask)"
    using sv by blast
  have le: "start \<le> co_from ask" using st(2) by (simp add: asks_here_def)
  have g: "only_logs (?M i)" "log_holds (?M i) log start (N i)" "N i \<noteq> - 1" for i using st(1) by (auto simp: grows_def)
  have wf: "log_wf log" "catalog_reads catalog" using sv by blast+
  let ?read = "\<lambda>i. log_records_within catalog (get_b (S i)) (scan_b (S i)) sub log"
  have "reads_lists ?read (co_from ask) R"
    unfolding reads_lists_def
    using served_reads [OF assms(1) g(1) wf(1) g(2) le g(3) R]
      served_records_prefix [OF records_from_grow [OF st(1)] R R] by blast
  then have "reads_lists (\<lambda>i. ?read (i + 2)) (co_from ask) (\<lambda>i. R (i + 2))" by (simp add: reads_lists_def)
  from fill_carries [OF this, of "sv_budget env" "unat (co_limit ask)"] obtain q j early where
    j: "fill (\<lambda>i. ?read (i + 2)) (sv_budget env) (co_from ask) (unat (co_limit ask)) = Inr (take j (R (q + 2)), early)"
      "carries_part (\<lambda>i. R (i + 2)) (unat (co_limit ask)) q j early" "0 < unat (co_limit ask) \<and> R (0 + 2) \<noteq> [] \<longrightarrow> 0 < j"
    by blast
  have v: "committed_version (get_b (S 1)) = Inr order"
    using sv by (simp add: committed_version_def get_decoded_def get_law [OF assms(1)])
  note p = preceding_answers [OF assms(1) g(1) wf(1) g(2,3) wf(2) st(2), of sub]
  have "collecting_for env catalog (\<lambda>i. get_b (S i)) (\<lambda>i. scan_b (S i)) acks ask =
      ((if acks then [FollowerAsked log (saturating_pred (co_from ask))] else []) @ served_notes ask log (take j (R (q + 2))),
       Inr (answer_with sub log
         (if co_from ask \<le> 1 then 0 else lr_epoch (record_in (maps (S 0)) log (co_from ask - 1)))
         (stated_order lead me log order) (take j (R (q + 2)), early)))"
    using sv by (simp add: collecting_for_def p j(1) v [unfolded One_nat_def] Let_def answer_with_def
        del: add_2_eq_Suc')
  with that [of "q + 2" j early] j(2,3) show thesis by (simp add: carries_part_def numeral_2_eq_2)
qed

end

section \<open>What the page of an answer proves\<close>

lemma length_u64_less: "length xs \<le> unat limit \<Longrightarrow> length_u64 xs < limit \<longleftrightarrow> length xs < unat limit"
  using unat_below [of "length xs" limit] unsigned_less [of limit, where 'a = nat]
  by (simp add: length_u64_def word_less_nat_alt)

lemma answered_page_true:
  assumes "to_come log = rs @ later" "in_log_order (rs @ later)" "0 < lead"
    and "\<And>x. x \<in> set later \<Longrightarrow> (lead, order) \<le> key_of (snd x)"
    and "j \<le> length rs" "j \<le> unat limit" "j < unat limit \<and> \<not> early \<longrightarrow> j = length rs"
  shows "page_true to_come pages
    (page_of limit from (answer_with over log previous (stated_order lead me log order) (take j rs, early)))"
    (is "page_true _ _ (page_of _ _ ?c)")
proof (cases "j < unat limit \<and> \<not> early")
  case True
  have len: "length (take j rs) \<le> unat limit" using assms(5,6) by simp
  then have "answer_horizon limit ?c = LevelAt lead order"
    using True assms(3,5) length_u64_less [OF len] by (simp add: answer_horizon_def answer_with_def stated_order_def)
  then show ?thesis
    using True assms(1,2,4,7) by (auto simp: page_true_def page_of_def answer_with_def page_proves_def)
next
  case False
  have len: "length (take j rs) \<le> unat limit" using assms(5,6) by simp
  then have "answer_horizon limit ?c = Full"
    using False assms(5) length_u64_less [OF len] by (auto simp: answer_horizon_def answer_with_def)
  moreover have "\<exists>rest. rs @ later = take j rs @ rest" by (metis append.assoc append_take_drop_id)
  ultimately show ?thesis using assms(1,2) by (auto simp: page_true_def page_of_def answer_with_def)
qed

section \<open>Narrowing\<close>

lemma keep_reaching_keeps:
  "keep_reaching catalog sub ms = Inr kept \<Longrightarrow> m \<in> set ms \<Longrightarrow> carried_to catalog m = Inr c \<Longrightarrow> reaches c sub \<Longrightarrow>
    m \<in> set kept"
  by (induction ms arbitrary: kept) (auto simp: bindR_eq_Inr split: if_splits)

lemma put_records_mem:
  assumes "writes_versions r" "m \<in> set (mutations r)"
  shows "Put (keyspace_of Record) (record_key_encode \<lparr>rk_namespace = mu_namespace m, rk_database = mu_database m,
      rk_table = mu_table m, rk_id = mu_id m, rk_version = version\<rparr>) (stamped_encode (mu_value m))
    \<in> set (ops (put_records b version r))" (is "?put \<in> _")
proof -
  have grows: "set (ops b) \<subseteq> set (ops (put_mutation_version version b x))" for b x
    by (auto simp: put_mutation_version_def Let_def batch_put_def split: option.splits)
  have mono: "set (ops b) \<subseteq> set (ops (foldl (put_mutation_version version) b ms))" for b ms
  proof (induction ms arbitrary: b)
    case (Cons x ms)
    show ?case using grows [of b x] Cons.IH [of "put_mutation_version version b x"] by simp
  qed simp
  have "?put \<in> set (ops (foldl (put_mutation_version version) b ms))" if "m \<in> set ms" for b ms
    using that
  proof (induction ms arbitrary: b)
    case (Cons x ms)
    show ?case
    proof (cases "m = x")
      case True
      then have "?put \<in> set (ops (put_mutation_version version b x))"
        by (auto simp: put_mutation_version_def Let_def batch_put_def split: option.splits)
      then show ?thesis using mono [of "put_mutation_version version b x" ms] by auto
    qed (use Cons in simp)
  qed simp
  then show ?thesis using assms by (simp add: put_records_def)
qed

section \<open>Properties\<close>

definition leader_store :: memory_backend where
  "leader_store = fst (memory_apply memory_new
    (batch_put LOG (log_key_encode \<lparr>lk_log = log_line Store, lk_sequence = 1\<rparr>) (log_record_encode example_record)
      (batch_put META version_key (sequence_encode 1) batch_new)))"

definition example_serving :: serving_env where
  "example_serving = \<lparr>sv_granted = Inr (Some Store), sv_history_log = (\<lambda>_. Inr (log_line Store)),
    sv_writing_epoch = (\<lambda>_. Inr 1), sv_me = Inr LINE, sv_budget = COLLECTION_BUDGET_BYTES\<rparr>"

definition example_ask :: collect where
  "example_ask = \<lparr>co_home = Store, co_from = 1, co_limit = 10\<rparr>"

lemma leader_store:
  "memory_ok leader_store"
  "serves example_serving (\<lambda>_. Inr StoreOnly) (\<lambda>_. memory_maps leader_store) example_ask Store (log_line Store) (\<lambda>_. 1) 1 LINE 1"
  "served_records (\<lambda>_. Inr StoreOnly) Store (memory_maps leader_store) (log_line Store) 1 1 = Inr [(1, example_record)]"
proof -
  let ?k = "log_key_encode \<lparr>lk_log = log_line Store, lk_sequence = 1\<rparr>"
  let ?b = "batch_put LOG ?k (log_record_encode example_record) (batch_put META version_key (sequence_encode 1) batch_new)"
  obtain s where s: "memory_apply memory_new ?b = (s, Inr ())"
    using memory.apply_lands [OF memory_ok_new, of ?b] by (auto simp: batch_put_def batch_new_def)
  have m: "memory_maps s = (\<lambda>_. Map.empty)(META := [version_key \<mapsto> sequence_encode 1],
      LOG := [?k \<mapsto> log_record_encode example_record])"
    using memory_apply_maps(2) [OF memory_ok_new s] by (auto simp: batch_put_def batch_new_def memory_maps_new)
  have l: "leader_store = s" using s by (simp add: leader_store_def)
  show "memory_ok leader_store" using memory_apply_maps(1) [OF memory_ok_new s] l by simp
  have wf: "log_wf (log_line Store)" by (rule example)
  have e: "entry (memory_maps s) (log_line Store) i = (if i = 1 then Some (log_record_encode example_record) else None)" for i
    using log_key_inject [OF wf wf, of i 1] by (simp add: entry_def m)
  have "log_start_encode l \<noteq> version_key" for l by (simp add: log_start_bytes version_key_def singleton_encode_def)
  then have "memory_maps s META (log_start_encode (log_line Store)) = None" by (simp add: m)
  then have h: "log_holds (memory_maps s) (log_line Store) 0 1"
    using word_le_succ(1) [of 0] e by (auto simp: log_holds_def)
  have o: "only_logs (memory_maps s)"
    using wf example(5) unfolding only_logs_def m log_key_wf_def
    by (auto intro!: exI [of _ "\<lparr>lk_log = log_line Store, lk_sequence = 1\<rparr>"] exI [of _ example_record]
        split: if_splits)
  show "serves example_serving (\<lambda>_. Inr StoreOnly) (\<lambda>_. memory_maps leader_store) example_ask Store (log_line Store) (\<lambda>_. 1) 1 LINE 1"
    using h o wf
    by (auto simp: serves_def admits_def grows_def example_serving_def example_ask_def catalog_reads_def asks_here_def
        committed_version_def get_decoded_def version_key_def sequence_round_trip l m intro!: exI [of _ 0])
  have "record_in (memory_maps s) (log_line Store) 1 = example_record"
    using e log_record_round_trips(1) [OF example(5)] by (simp add: record_in_def)
  then show "served_records (\<lambda>_. Inr StoreOnly) Store (memory_maps leader_store) (log_line Store) 1 1 = Inr [(1, example_record)]"
    by (simp add: served_records_def records_from_def positions_from_def l)
qed

lemma example_ask_from: "co_from example_ask = 1"
  by (simp add: example_ask_def)

text \<open>C14: a leader that serves a log answers an ask out of it, although commits land while it
reads: the records from the position asked for on, as its subscription is given them, a
first part of those the log holds when its last page is read, in order; all of those
when it carries fewer than were asked for and does not say its budget stopped it; at
least one when there is one; and the leadership of the record before.  It states the
version its store had before the records were read.  It vouches for a position only
where the ask does, and notes as sent only what the answer carries.\<close>

theorem answer_is_the_log:
  assumes "\<And>i. memory_ok (S i)" "serves env catalog (\<lambda>i. memory_maps (S i)) ask over log N lead me order"
  shows "\<exists>R p j early. (\<forall>i. served_records catalog over (memory_maps (S i)) log (co_from ask) (N i) = Inr (R i)) \<and> 2 \<le> p
    \<and> collecting_for env catalog (\<lambda>i. memory_get (S i)) (\<lambda>i. memory_scan (S i)) acks ask =
        ((if acks then [FollowerAsked log (saturating_pred (co_from ask))] else []) @ served_notes ask log (take j (R p)),
         Inr (answer_with over log
           (if co_from ask \<le> 1 then 0 else lr_epoch (record_in (memory_maps (S 0)) log (co_from ask - 1)))
           (stated_order lead me log order) (take j (R p), early)))
    \<and> j \<le> unat (co_limit ask) \<and> (j < unat (co_limit ask) \<and> \<not> early \<longrightarrow> j = length (R p))
    \<and> (early \<longrightarrow> 0 < j \<and> j < length (R p)) \<and> (0 < unat (co_limit ask) \<and> R 2 \<noteq> [] \<longrightarrow> 0 < j)"
proof -
  have "catalog_reads catalog" using assms(2) by (simp add: serves_def admits_def)
  from served_records_all [OF this, of over "\<lambda>i. memory_maps (S i)" log "co_from ask" N] obtain R
    where R: "\<And>i. served_records catalog over (memory_maps (S i)) log (co_from ask) (N i) = Inr (R i)" by blast
  obtain p j early where a: "2 \<le> p"
    "collecting_for env catalog (\<lambda>i. memory_get (S i)) (\<lambda>i. memory_scan (S i)) acks ask =
      ((if acks then [FollowerAsked log (saturating_pred (co_from ask))] else []) @ served_notes ask log (take j (R p)),
       Inr (answer_with over log
         (if co_from ask \<le> 1 then 0 else lr_epoch (record_in (memory_maps (S 0)) log (co_from ask - 1)))
         (stated_order lead me log order) (take j (R p), early)))"
    "carries_part R (unat (co_limit ask)) p j early" "0 < unat (co_limit ask) \<and> R 2 \<noteq> [] \<longrightarrow> 0 < j"
    by (rule memory.collecting_answers [OF assms R, of acks])
  show ?thesis
    using R a(1,2,4) a(3) [unfolded carries_part_def]
    by (intro exI [of _ R] exI [of _ p] exI [of _ j] exI [of _ early] conjI) blast+
qed

theorem answer_is_the_log_witness:
  "\<exists>noted c. collecting_for example_serving (\<lambda>_. Inr StoreOnly) (\<lambda>_. memory_get leader_store)
      (\<lambda>_. memory_scan leader_store) True example_ask = (noted, Inr c)
    \<and> cd_records c = [(1, example_record)] \<and> cd_previous c = 0 \<and> FollowerSent (log_line Store) 1 \<in> set noted"
proof -
  obtain R p j early where j: "\<And>i :: nat. served_records (\<lambda>_. Inr StoreOnly) Store (memory_maps leader_store) (log_line Store)
      (co_from example_ask) 1 = Inr (R i)"
    "collecting_for example_serving (\<lambda>_. Inr StoreOnly) (\<lambda>_. memory_get leader_store) (\<lambda>_. memory_scan leader_store)
        True example_ask =
      ((if True then [FollowerAsked (log_line Store) (saturating_pred (co_from example_ask))] else [])
         @ served_notes example_ask (log_line Store) (take j (R p)),
       Inr (answer_with Store (log_line Store) (if co_from example_ask \<le> 1 then 0
         else lr_epoch (record_in (memory_maps leader_store) (log_line Store) (co_from example_ask - 1)))
         (stated_order 1 LINE (log_line Store) 1) (take j (R p), early)))"
    "0 < unat (co_limit example_ask) \<and> R 2 \<noteq> [] \<longrightarrow> 0 < j"
    using answer_is_the_log [OF leader_store(1,2), of True] by blast
  have R: "R i = [(1, example_record)]" for i using j(1) [of i] leader_store(3) by (simp add: example_ask_from)
  then have "0 < j" using j(3) by (simp add: example_ask_def)
  then have "take j [(1, example_record)] = [(1, example_record)]" by (cases j) simp_all
  then show ?thesis using j(2) R by (simp add: answer_with_def served_notes_def example_ask_from)
qed

text \<open>C16: what a narrowed subscription is sent of a transaction across leaders that aborted:
the record that drops its intents names each of them with a deletion it does not
apply, but the narrowed record no longer says that it is a resolution, and a store
that applies it deletes every record of them that the subscription reaches.\<close>

theorem narrowed_abort_deletes:
  assumes "lr_across r = Some \<lparr>across_transaction = t, across_part = Resolve False\<rparr>" "m \<in> set (mutations r)"
    and "carried_to catalog m = Inr c" "reaches c sub" "narrow catalog sub r = Inr r'"
  shows "put_records b version r = b
    \<and> lr_across r' = None
    \<and> Put (keyspace_of Record) (record_key_encode \<lparr>rk_namespace = mu_namespace m, rk_database = mu_database m,
        rk_table = mu_table m, rk_id = mu_id m, rk_version = version\<rparr>) (stamped_encode (mu_value m))
      \<in> set (ops (put_records b version r'))"
proof -
  obtain kept where k: "keep_reaching catalog sub (mutations r) = Inr kept"
    "mutations r' = sort_key mutation_address kept" "lr_across r' = None"
    using assms(5) by (auto simp: narrow_def bindR_eq_Inr log_record_at_def set_order_def Let_def split: option.splits)
  have "m \<in> set (mutations r')" using keep_reaching_keeps [OF k(1) assms(2-4)] k(2) by simp
  moreover have "writes_versions r'" using k(3) by (simp add: writes_versions_def)
  ultimately show ?thesis
    using assms(1) k(3) put_records_mem by (simp add: put_records_def [of b version r] writes_versions_def)
qed

theorem narrowed_abort_deletes_witness:
  "\<exists>r'. narrow (\<lambda>_. Inr StoreOnly) (Namespace 1) \<lparr>lr_epoch = 1, lr_order = None,
      lr_across = Some \<lparr>across_transaction = [], across_part = Resolve False\<rparr>,
      mutations = [\<lparr>mu_namespace = 1, mu_database = 2, mu_table = 3, mu_id = IdInt 4, mu_shard = None,
        mu_value = stamped_new Tombstone\<rparr>]\<rparr> = Inr r'
    \<and> Put (keyspace_of Record) (record_key_encode \<lparr>rk_namespace = 1, rk_database = 2, rk_table = 3,
        rk_id = IdInt 4, rk_version = 9\<rparr>) (stamped_encode (stamped_new Tombstone))
      \<in> set (ops (put_records batch_new 9 r'))"
proof -
  let ?m = "\<lparr>mu_namespace = 1, mu_database = 2, mu_table = 3, mu_id = IdInt 4, mu_shard = None,
    mu_value = stamped_new Tombstone\<rparr>"
  let ?r = "\<lparr>lr_epoch = 1, lr_order = None, lr_across = Some \<lparr>across_transaction = [], across_part = Resolve False\<rparr>,
    mutations = [?m]\<rparr>"
  have c: "carried_to (\<lambda>_. Inr StoreOnly) ?m = Inr (Within (Database 1 2))"
    by (simp add: carried_to_def SYSTEM_NAMESPACE_def)
  obtain r' where r: "narrow (\<lambda>_. Inr StoreOnly) (Namespace 1) ?r = Inr r'"
    by (simp add: narrow_def c)
  show ?thesis
    using narrowed_abort_deletes [OF _ _ c _ r, of "[]" batch_new 9] r by simp
qed

end
