(* ===== verification/Peer_Bodies.thy ===== *)
theory Peer_Bodies
  imports Collecting
begin

text \<open>The bodies nodes send each other and what one must prove to the other (peer.rs,
peer/hello.rs and the codecs of collection.rs of tessari-wire): a body is read field
by field from where the last one ended, so each field is shown to read from the rest
of the body and to leave the rest after it.\<close>

section \<open>Frames between nodes\<close>

datatype peer_frame =
    PHello | PBallot | PVote | PCollect | PCollected | PUncollectable
  | PUnsubscribed | PGather | PGathered | PNotGathered | PState | PStateHead
  | PStateChunk | PStateEnd | PStream | PStreamed | PCoordinate | PCoordinated
  | PNotCoordinated | PAttempt | PAttempted | PJoin | PJoined | PAcross
  | PAcrossDone | PNotAcross | PStreamFrom | PHeld | PRestarted | PStateEntries

fun peer_tag :: "peer_frame \<Rightarrow> u8" where
  "peer_tag PHello = 6"
| "peer_tag PBallot = 7"
| "peer_tag PVote = 8"
| "peer_tag PCollect = 9"
| "peer_tag PCollected = 10"
| "peer_tag PUncollectable = 11"
| "peer_tag PUnsubscribed = 12"
| "peer_tag PGather = 14"
| "peer_tag PGathered = 15"
| "peer_tag PNotGathered = 16"
| "peer_tag PState = 18"
| "peer_tag PStateHead = 19"
| "peer_tag PStateChunk = 20"
| "peer_tag PStateEnd = 21"
| "peer_tag PStream = 22"
| "peer_tag PStreamed = 23"
| "peer_tag PCoordinate = 24"
| "peer_tag PCoordinated = 25"
| "peer_tag PNotCoordinated = 26"
| "peer_tag PAttempt = 27"
| "peer_tag PAttempted = 28"
| "peer_tag PJoin = 29"
| "peer_tag PJoined = 30"
| "peer_tag PAcross = 31"
| "peer_tag PAcrossDone = 32"
| "peer_tag PNotAcross = 33"
| "peer_tag PStreamFrom = 34"
| "peer_tag PHeld = 35"
| "peer_tag PRestarted = 36"
| "peer_tag PStateEntries = 39"

definition peer_from_tag :: "u8 \<Rightarrow> peer_frame option" where
  "peer_from_tag t =
    (if t = 6 then Some PHello
     else if t = 7 then Some PBallot
     else if t = 8 then Some PVote
     else if t = 9 then Some PCollect
     else if t = 10 then Some PCollected
     else if t = 11 then Some PUncollectable
     else if t = 12 then Some PUnsubscribed
     else if t = 14 then Some PGather
     else if t = 15 then Some PGathered
     else if t = 16 then Some PNotGathered
     else if t = 18 then Some PState
     else if t = 19 then Some PStateHead
     else if t = 20 then Some PStateChunk
     else if t = 21 then Some PStateEnd
     else if t = 22 then Some PStream
     else if t = 23 then Some PStreamed
     else if t = 24 then Some PCoordinate
     else if t = 25 then Some PCoordinated
     else if t = 26 then Some PNotCoordinated
     else if t = 27 then Some PAttempt
     else if t = 28 then Some PAttempted
     else if t = 29 then Some PJoin
     else if t = 30 then Some PJoined
     else if t = 31 then Some PAcross
     else if t = 32 then Some PAcrossDone
     else if t = 33 then Some PNotAcross
     else if t = 34 then Some PStreamFrom
     else if t = 35 then Some PHeld
     else if t = 36 then Some PRestarted
     else if t = 39 then Some PStateEntries
     else None)"

section \<open>The greeting of a node\<close>

datatype purpose = ForPeer | ForClient

record presented =
  pr_node :: bytes
  pr_purpose :: purpose

record node_version =
  nv_major :: u32
  nv_minor :: u32
  nv_patch :: u32

record failover_stamp =
  fs_epoch :: u64
  fs_version :: u64

definition supersedes :: "failover_stamp \<Rightarrow> failover_stamp \<Rightarrow> bool" where
  "supersedes x held \<longleftrightarrow> (fs_epoch held, fs_version held) < (fs_epoch x, fs_version x)"

definition supersedes_held :: "failover_stamp \<Rightarrow> failover_stamp option \<Rightarrow> bool" where
  "supersedes_held x held \<longleftrightarrow> (case held of None \<Rightarrow> True | Some h \<Rightarrow> supersedes x h)"

record peer_line =
  pl_range :: reach
  pl_leading :: u64
  pl_tail :: sequence
  pl_tail_leadership :: u64

record hello =
  he_node :: bytes
  he_build :: node_version
  he_epoch :: u64
  he_roles :: u8
  he_tail :: sequence
  he_tail_leadership :: u64
  he_current_as_of :: "duration option"
  he_policy :: "failover_stamp option"
  he_line :: "peer_line option"

definition ROLES_KNOWN :: u8 where
  "ROLES_KNOWN = 7"

definition roles_from_bits :: "u8 \<Rightarrow> u8 option" where
  "roles_from_bits bits = (if and bits (not ROLES_KNOWN) = 0 then Some bits else None)"

definition line_reached :: "peer_line \<Rightarrow> reached" where
  "line_reached l = \<lparr>leadership = pl_tail_leadership l, tail = pl_tail l\<rparr>"

definition hello_reached :: "hello \<Rightarrow> reached" where
  "hello_reached h = \<lparr>leadership = he_tail_leadership h, tail = he_tail h\<rparr>"

definition reached_on :: "hello \<Rightarrow> reach \<Rightarrow> reached" where
  "reached_on h rg =
    (if rg = Store then hello_reached h
     else
       (case he_line h of
          Some l \<Rightarrow> if pl_range l = rg then line_reached l else \<lparr>leadership = 0, tail = 0\<rparr>
        | None \<Rightarrow> \<lparr>leadership = 0, tail = 0\<rparr>))"

text \<open>Seconds of a duration, rounded up.\<close>

definition whole_seconds :: "duration \<Rightarrow> u64" where
  "whole_seconds age =
    word_of_nat (min (age div 10 ^ 9 + (if 0 < age mod 10 ^ 9 then 1 else 0)) (2 ^ 64 - 1))"

definition age_bytes :: "duration option \<Rightarrow> bytes" where
  "age_bytes age = (case age of Some d \<Rightarrow> 1 # u64_bytes (whole_seconds d) | None \<Rightarrow> 0 # u64_bytes 0)"

definition policy_bytes :: "failover_stamp option \<Rightarrow> bytes" where
  "policy_bytes p =
    (case p of
       Some x \<Rightarrow> 1 # u64_bytes (fs_epoch x) @ u64_bytes (fs_version x)
     | None \<Rightarrow> 0 # u64_bytes 0 @ u64_bytes 0)"

definition line_bytes :: "peer_line option \<Rightarrow> bytes" where
  "line_bytes l =
    (case l of
       Some l \<Rightarrow> wire_put_reach [] (pl_range l) @ u64_bytes (pl_leading l) @ u64_bytes (pl_tail l)
         @ u64_bytes (pl_tail_leadership l)
     | None \<Rightarrow> [])"

definition hello_encode :: "hello \<Rightarrow> bytes" where
  "hello_encode h =
    he_node h @ u32_bytes (nv_major (he_build h)) @ u32_bytes (nv_minor (he_build h))
    @ u32_bytes (nv_patch (he_build h)) @ u64_bytes (he_epoch h) @ [he_roles h] @ u64_bytes (he_tail h)
    @ u64_bytes (he_tail_leadership h) @ age_bytes (he_current_as_of h) @ policy_bytes (he_policy h)
    @ line_bytes (he_line h)"

definition take_policy :: "bytes \<Rightarrow> nat \<Rightarrow> wire_error + failover_stamp option" where
  "take_policy body at =
    (if \<not> at < length body then Inr None
     else
       bindR (wire_take_u64 body (at + 1)) (\<lambda>(e, at').
       bindR (wire_take_u64 body at') (\<lambda>(v, _).
         Inr (if body ! at \<noteq> 0 then Some \<lparr>fs_epoch = e, fs_version = v\<rparr> else None))))"

definition take_line :: "bytes \<Rightarrow> nat \<Rightarrow> wire_error + peer_line option" where
  "take_line body at =
    (let after = at + 17 in
     if length body \<le> after then Inr None
     else
       bindR (wire_take_reach body after) (\<lambda>(rg, at).
       bindR (wire_take_u64 body at) (\<lambda>(leading, at).
       bindR (wire_take_u64 body at) (\<lambda>(t, at).
       bindR (wire_take_u64 body at) (\<lambda>(written, _).
         Inr (Some \<lparr>pl_range = rg, pl_leading = leading, pl_tail = t, pl_tail_leadership = written\<rparr>))))))"

definition hello_decode :: "bytes \<Rightarrow> wire_error + hello" where
  "hello_decode body =
    bindR (body_get body 0 NODE_ID_LEN) (\<lambda>node.
    bindR (wire_take_u32 body NODE_ID_LEN) (\<lambda>(major, at).
    bindR (wire_take_u32 body at) (\<lambda>(minor, at).
    bindR (wire_take_u32 body at) (\<lambda>(patch, at).
    bindR (wire_take_u64 body at) (\<lambda>(e, at).
    bindR (body_get body at (at + 1)) (\<lambda>bits.
    bindR (case roles_from_bits (hd bits) of None \<Rightarrow> Inl (UnknownRoles (hd bits)) | Some r \<Rightarrow> Inr r) (\<lambda>rl.
    bindR (wire_take_u64 body (at + 1)) (\<lambda>(t, at).
    bindR (wire_take_u64 body at) (\<lambda>(written, at).
    bindR (body_get body at (at + 1)) (\<lambda>present.
    bindR (wire_take_u64 body (at + 1)) (\<lambda>(seconds, at).
    bindR (take_policy body at) (\<lambda>policy.
    bindR (take_line body at) (\<lambda>line.
      Inr \<lparr>he_node = node, he_build = \<lparr>nv_major = major, nv_minor = minor, nv_patch = patch\<rparr>, he_epoch = e,
        he_roles = rl, he_tail = t, he_tail_leadership = written,
        he_current_as_of = (if hd present \<noteq> 0 then Some (from_secs (unat seconds)) else None),
        he_policy = policy, he_line = line\<rparr>)))))))))))))"

definition admit :: "presented option \<Rightarrow> hello \<Rightarrow> bytes \<Rightarrow> wire_error + unit" where
  "admit pres said me =
    (case pres of
       None \<Rightarrow> Inl Unidentified
     | Some p \<Rightarrow>
         if pr_purpose p \<noteq> ForPeer then Inl NotAPeerCredential
         else if pr_node p \<noteq> he_node said then Inl (IdentityDisagrees (he_node said) (pr_node p))
         else if he_node said = me then Inl (ClaimsOurOwnIdentity (he_node said))
         else Inr ())"

section \<open>Fields read from the rest of a body\<close>

lemma body_get_drop:
  assumes "drop at from = xs @ rest" "xs \<noteq> []"
  shows "body_get from at (at + length xs) = Inr xs" "drop (at + length xs) from = rest"
proof -
  have "length from - at = length xs + length rest" using arg_cong [OF assms(1), of length] by simp
  moreover have "0 < length xs" using assms(2) by simp
  ultimately have "at + length xs \<le> length from" by linarith
  moreover have "take (length xs) (drop at from) = xs" using assms(1) by simp
  ultimately show "body_get from at (at + length xs) = Inr xs" by (simp add: body_get_def)
  have "drop (length xs) (drop at from) = rest" using assms(1) by simp
  then show "drop (at + length xs) from = rest" by (simp add: add.commute)
qed

lemma take_u64_drop:
  assumes "drop at from = u64_bytes x @ rest"
  shows "wire_take_u64 from at = Inr (x, at + 8)" "drop (at + 8) from = rest"
proof -
  have "u64_bytes x \<noteq> []" by (metis length_0_conv length_word_bytes(3) zero_neq_numeral)
  from body_get_drop [OF assms this] show "wire_take_u64 from at = Inr (x, at + 8)" "drop (at + 8) from = rest"
    by (simp_all add: wire_take_u64_def)
qed

lemma take_u32_drop:
  assumes "drop at from = u32_bytes x @ rest"
  shows "wire_take_u32 from at = Inr (x, at + 4)" "drop (at + 4) from = rest"
proof -
  have "u32_bytes x \<noteq> []" by (metis length_0_conv length_word_bytes(2) zero_neq_numeral)
  from body_get_drop [OF assms this] show "wire_take_u32 from at = Inr (x, at + 4)" "drop (at + 4) from = rest"
    by (simp_all add: wire_take_u32_def)
qed

lemma take_byte_drop:
  assumes "drop at from = b # rest"
  shows "at < length from" "from ! at = b" "drop (at + 1) from = rest" "body_get from at (at + 1) = Inr [b]"
proof -
  show at: "at < length from" using assms by (metis drop_all list.distinct(1) not_le)
  show "from ! at = b" using assms at by (metis hd_drop_conv_nth list.sel(1))
  show "drop (at + 1) from = rest" "body_get from at (at + 1) = Inr [b]"
    using body_get_drop [of at "from" "[b]" rest] assms by simp_all
qed

text \<open>A length-prefixed string whose length fits its prefix.\<close>

lemma take_bytes_drop:
  assumes "drop at from = u32_bytes (length_u32 bs) @ bs @ rest" "length bs < 2 ^ 32"
  shows "wire_take_bytes from at = Inr (bs, at + 4 + length bs)" "drop (at + 4 + length bs) from = rest"
proof -
  have n: "unat (length_u32 bs) = length bs"
    using assms(2) by (simp add: length_u32_def unsigned_of_nat take_bit_nat_eq_self_iff)
  have ne: "u32_bytes (length_u32 bs) \<noteq> []" by (metis length_0_conv length_word_bytes(2) zero_neq_numeral)
  note h = body_get_drop [OF assms(1) ne, simplified]
  have "body_get from (at + 4) (at + 4 + length bs) = Inr bs \<and> drop (at + 4 + length bs) from = rest"
  proof (cases "bs = []")
    case True
    then show ?thesis using h by (auto simp: body_get_def split: if_splits)
  next
    case False
    from body_get_drop [OF h(2) False] show ?thesis by simp
  qed
  then show "wire_take_bytes from at = Inr (bs, at + 4 + length bs)" "drop (at + 4 + length bs) from = rest"
    using h(1) n by (simp_all add: wire_take_bytes_def)
qed

lemma wire_put_reach_append: "wire_put_reach into rg = into @ wire_put_reach [] rg"
  by (cases rg) simp_all

lemma take_reach_drop:
  assumes "drop at from = wire_put_reach [] rg @ rest" "reach_sent rg"
  shows "wire_take_reach from at = Inr (rg, at + length (wire_put_reach [] rg))"
    "drop (at + length (wire_put_reach [] rg)) from = rest"
proof -
  have head: "wire_take_reach from at = (if variant = 0 then Inr (Store, at + 9)
      else if variant = 1 then Inr (Namespace ns, at + 9) else if variant = 2 then Inr (Database ns db, at + 9)
      else if variant = 3 then bindR (wire_take_u32 from (at + 9)) (\<lambda>(tb, after).
        bindR (wire_take_u32 from after) (\<lambda>(sh, after).
          if sh = 0 then Inl Malformed else Inr (Shard ns db tb sh, after)))
      else Inl Malformed)" "drop (at + 9) from = left"
    if "drop at from = reach_body variant ns db @ left" for variant ns db left
  proof -
    have "drop at from = variant # u32_bytes ns @ u32_bytes db @ left" using that by (simp add: reach_body_def)
    note b = take_byte_drop [OF this]
    note n = take_u32_drop [OF b(3)]
    note d = take_u32_drop [OF n(2)]
    show "wire_take_reach from at = (if variant = 0 then Inr (Store, at + 9)
        else if variant = 1 then Inr (Namespace ns, at + 9) else if variant = 2 then Inr (Database ns db, at + 9)
        else if variant = 3 then bindR (wire_take_u32 from (at + 9)) (\<lambda>(tb, after).
          bindR (wire_take_u32 from after) (\<lambda>(sh, after).
            if sh = 0 then Inl Malformed else Inr (Shard ns db tb sh, after)))
        else Inl Malformed)"
      using b(4) n(1) d(1) by (simp add: wire_take_reach_def add.commute)
    show "drop (at + 9) from = left" using d(2) by (simp add: add.commute)
  qed
  have "wire_take_reach from at = Inr (rg, at + length (wire_put_reach [] rg))
    \<and> drop (at + length (wire_put_reach [] rg)) from = rest"
  proof (cases rg)
    case (Shard ns db tb sh)
    then have "drop at from = reach_body 3 ns db @ u32_bytes tb @ u32_bytes sh @ rest" using assms(1) by simp
    note h = head [OF this]
    note t = take_u32_drop [OF h(2)]
    note s = take_u32_drop [OF t(2)]
    have "drop (at + 17) from = rest" using s(2) by (simp add: add.commute)
    then show ?thesis using h(1) t(1) s(1) Shard assms(2) by (simp add: reach_sent_def reach_body_def)
  qed (use assms(1) head [of 0 0 0 rest] head [of 1 _ 0 rest] head [of 2 _ _ rest] in \<open>simp_all add: reach_body_def\<close>)
  then show "wire_take_reach from at = Inr (rg, at + length (wire_put_reach [] rg))"
    "drop (at + length (wire_put_reach [] rg)) from = rest" by blast+
qed

lemma take_log_drop:
  assumes "drop at from = wire_put_log [] log @ rest" "reach_sent (home log)" "length (log_writer log) = NODE_ID_LEN"
  shows "wire_take_log from at = Inr (log, at + length (wire_put_log [] log))"
    "drop (at + length (wire_put_log [] log)) from = rest"
proof -
  have "drop at from = wire_put_reach [] (home log) @ log_writer log @ rest" using assms(1) by (simp add: wire_put_log_def)
  note r = take_reach_drop [OF this assms(2)]
  have "log_writer log \<noteq> []" using assms(3) by (auto simp: NODE_ID_LEN_def)
  note w = body_get_drop [OF r(2) this, unfolded assms(3)]
  show "wire_take_log from at = Inr (log, at + length (wire_put_log [] log))"
    "drop (at + length (wire_put_log [] log)) from = rest"
    using r(1) w assms(3) by (simp_all add: wire_take_log_def wire_put_log_def log_new_def add.assoc)
qed

section \<open>Collections\<close>

lemma collect_round_trip:
  assumes "reach_sent (co_home c)"
  shows "collect_decode (collect_encode c) = Inr c"
proof -
  have "drop 0 (collect_encode c) = wire_put_reach [] (co_home c) @ u64_bytes (co_from c) @ u64_bytes (co_limit c) @ []"
    by (simp add: collect_encode_def)
  note h = take_reach_drop [OF this assms]
  note f = take_u64_drop [OF h(2)]
  note l = take_u64_drop [OF f(2)]
  show ?thesis using h(1) f(1) l(1) by (simp add: collect_decode_def)
qed

definition sent_entry :: "sequence \<times> log_record \<Rightarrow> bytes" where
  "sent_entry x = u64_bytes (fst x) @ u32_bytes (length_u32 (log_record_encode (snd x))) @ log_record_encode (snd x)"

lemma put_entries: "foldl put_entry body rs = body @ concat (map sent_entry rs)"
  by (induction rs arbitrary: body) (simp_all add: put_entry_def wire_put_bytes_def sent_entry_def)

definition entry_wf :: "sequence \<times> log_record \<Rightarrow> bool" where
  "entry_wf x \<longleftrightarrow> log_record_wf (snd x) \<and> length (log_record_encode (snd x)) < 2 ^ 32"

lemma take_entries_drop:
  assumes "drop at body = concat (map sent_entry rs) @ rest" "\<forall>x \<in> set rs. entry_wf x"
  shows "\<exists>stop. take_entries (length rs) body at = Inr (rs, stop) \<and> drop stop body = rest"
  using assms
proof (induction rs arbitrary: at)
  case (Cons x rs)
  have "drop at body = u64_bytes (fst x) @ u32_bytes (length_u32 (log_record_encode (snd x)))
      @ log_record_encode (snd x) @ concat (map sent_entry rs) @ rest"
    using Cons.prems(1) by (simp add: sent_entry_def [of x])
  note s = take_u64_drop [OF this]
  have wf: "entry_wf x" using Cons.prems(2) by simp
  note b = take_bytes_drop [OF s(2) wf [unfolded entry_wf_def, THEN conjunct2]]
  obtain stop where "take_entries (length rs) body (at + 8 + 4 + length (log_record_encode (snd x))) = Inr (rs, stop)"
    "drop stop body = rest"
    using Cons.IH [OF b(2)] Cons.prems(2) by auto
  then show ?case
    using s(1) b(1) wf log_record_round_trips(1) [of "snd x"] by (simp add: entry_wf_def)
qed simp

text \<open>An order is stated only with the reach served under, and a leadership only with an
order.\<close>

definition collected_wf :: "collected \<Rightarrow> bool" where
  "collected_wf c \<longleftrightarrow> reach_sent (home (cd_log c)) \<and> length (log_writer (cd_log c)) = NODE_ID_LEN
    \<and> (\<forall>x \<in> set (cd_records c). entry_wf x) \<and> length (cd_records c) < 2 ^ 64
    \<and> (case cd_over c of
         None \<Rightarrow> cd_order c = None \<and> cd_epoch c = None
       | Some over \<Rightarrow> reach_sent over \<and> (cd_order c = None \<longrightarrow> cd_epoch c = None))"

definition tail_bytes :: "collected \<Rightarrow> bytes" where
  "tail_bytes c =
    (case cd_over c of
       None \<Rightarrow> []
     | Some over \<Rightarrow>
         wire_put_reach [] over
         @ (case cd_order c of
              None \<Rightarrow> []
            | Some order \<Rightarrow> u64_bytes order @ (case cd_epoch c of None \<Rightarrow> [] | Some e \<Rightarrow> u64_bytes e)))"

lemma drop_nonempty: "drop at xs \<noteq> [] \<longleftrightarrow> at < length xs"
  by (simp add: not_le)

lemma take_tail_drop:
  assumes "drop at body = tail_bytes c" "collected_wf c"
  shows "take_tail body at = Inr (cd_over c, cd_order c, cd_epoch c)"
proof (cases "cd_over c")
  case None
  then have "drop at body = []" using assms(1) by (simp add: tail_bytes_def)
  then show ?thesis using None assms(2) by (simp add: take_tail_def collected_wf_def)
next
  case (Some over)
  let ?left = "case cd_order c of None \<Rightarrow> []
    | Some order \<Rightarrow> u64_bytes order @ (case cd_epoch c of None \<Rightarrow> [] | Some e \<Rightarrow> u64_bytes e)"
  have d: "drop at body = wire_put_reach [] over @ ?left" using assms(1) Some by (simp add: tail_bytes_def)
  have sent: "reach_sent over" "cd_order c = None \<longrightarrow> cd_epoch c = None"
    using assms(2) Some by (simp_all add: collected_wf_def)
  note r = take_reach_drop [OF d sent(1)]
  let ?at = "at + length (wire_put_reach [] over)"
  have "wire_put_reach [] over \<noteq> []" by (cases over) (simp_all add: reach_body_def)
  then have at: "at < length body" using d drop_nonempty [of at body] by simp
  have ne: "u64_bytes x \<noteq> []" for x by (metis length_0_conv length_word_bytes(3) zero_neq_numeral)
  show ?thesis
  proof (cases "cd_order c")
    case None
    then have "drop ?at body = []" using r(2) by simp
    then show ?thesis using at r(1) None sent(2) Some by (simp add: take_tail_def)
  next
    case order: (Some order)
    then have d: "drop ?at body = u64_bytes order @ (case cd_epoch c of None \<Rightarrow> [] | Some e \<Rightarrow> u64_bytes e)"
      using r(2) by simp
    note o = take_u64_drop [OF d]
    have "?at < length body" using d drop_nonempty [of ?at body] ne by simp
    note base = at r(1) this o(1)
    show ?thesis
    proof (cases "cd_epoch c")
      case None
      then have "drop (?at + 8) body = []" using o(2) by simp
      then show ?thesis using base None order Some by (simp add: take_tail_def)
    next
      case e: (Some e)
      then have d: "drop (?at + 8) body = u64_bytes e @ []" using o(2) by simp
      have "?at + 8 < length body" using d drop_nonempty [of "?at + 8" body] ne by simp
      then show ?thesis using base take_u64_drop(1) [OF d] e order Some by (simp add: take_tail_def)
    qed
  qed
qed

lemma unat_length_u64: "length xs < 2 ^ 64 \<Longrightarrow> unat (length_u64 xs) = length xs"
  by (simp add: length_u64_def unsigned_of_nat take_bit_nat_eq_self_iff)

lemma collected_round_trip:
  assumes "collected_wf c"
  shows "collected_decode (collected_encode c) = Inr c"
proof -
  let ?body = "collected_encode c"
  have enc: "?body = wire_put_log [] (cd_log c) @ u64_bytes (cd_previous c) @ u64_bytes (length_u64 (cd_records c))
      @ concat (map sent_entry (cd_records c)) @ (if cd_stopped_early c then 1 else 0) # tail_bytes c"
  proof (cases "cd_over c")
    case (Some over)
    have "wire_put_reach (body @ [b]) over @ left = body @ b # wire_put_reach [] over @ left" for body left b
      by (subst wire_put_reach_append) simp
    then show ?thesis using Some by (simp add: collected_encode_def Let_def put_entries tail_bytes_def)
  qed (simp add: collected_encode_def Let_def put_entries tail_bytes_def)
  have wf: "reach_sent (home (cd_log c))" "length (log_writer (cd_log c)) = NODE_ID_LEN"
    "\<forall>x \<in> set (cd_records c). entry_wf x" "length (cd_records c) < 2 ^ 64"
    using assms unfolding collected_wf_def by blast+
  note l = take_log_drop [of 0, simplified, OF enc wf(1,2)]
  note p = take_u64_drop [OF l(2)]
  note n = take_u64_drop [OF p(2)]
  obtain stop where stop: "take_entries (length (cd_records c)) ?body (length (wire_put_log [] (cd_log c)) + 8 + 8)
      = Inr (cd_records c, stop)" "drop stop ?body = (if cd_stopped_early c then 1 else 0) # tail_bytes c"
    using take_entries_drop [OF n(2) wf(3)] by blast
  note e = take_byte_drop [OF stop(2)]
  have t: "take_tail ?body (stop + 1) = Inr (cd_over c, cd_order c, cd_epoch c)"
    by (rule take_tail_drop [OF e(3) assms])
  show ?thesis
    using l(1) p(1) n(1) stop(1) e(1,2) t unat_length_u64 [OF wf(4)]
    by (simp add: collected_decode_def Let_def)
qed

section \<open>Greetings\<close>

text \<open>What a greeting tells the other end: the age of a copy in whole seconds, never less
than it is.\<close>

definition sent_age :: "duration \<Rightarrow> duration" where
  "sent_age d = from_secs (unat (whole_seconds d))"

definition as_greeted :: "hello \<Rightarrow> hello" where
  "as_greeted h = h\<lparr>he_current_as_of := map_option sent_age (he_current_as_of h)\<rparr>"

definition hello_wf :: "hello \<Rightarrow> bool" where
  "hello_wf h \<longleftrightarrow> length (he_node h) = NODE_ID_LEN \<and> roles_from_bits (he_roles h) = Some (he_roles h)
    \<and> (case he_line h of Some l \<Rightarrow> reach_sent (pl_range l) | None \<Rightarrow> True)"

lemma take_policy_drop:
  assumes "drop at body = policy_bytes p @ rest"
  shows "take_policy body at = Inr p" "drop (at + 17) body = rest"
proof -
  obtain b e v where b: "policy_bytes p = b # u64_bytes e @ u64_bytes v"
    "p = (if b \<noteq> 0 then Some \<lparr>fs_epoch = e, fs_version = v\<rparr> else None)"
    by (cases p) (auto simp: policy_bytes_def intro: that [of 0 0 0] that [of 1])
  have "drop at body = b # u64_bytes e @ u64_bytes v @ rest" using assms b(1) by simp
  note x = take_byte_drop [OF this]
  note y = take_u64_drop [OF x(3)]
  note z = take_u64_drop [OF y(2)]
  show "take_policy body at = Inr p" using x(1,2) y(1) z(1) b(2) by (simp add: take_policy_def)
  show "drop (at + 17) body = rest" using z(2) by (simp add: add.commute)
qed

lemma take_line_drop:
  assumes "drop (at + 17) body = line_bytes l" "case l of Some l \<Rightarrow> reach_sent (pl_range l) | None \<Rightarrow> True"
  shows "take_line body at = Inr l"
proof (cases l)
  case None
  then show ?thesis using assms(1) by (simp add: line_bytes_def take_line_def)
next
  case (Some x)
  then have d: "drop (at + 17) body = wire_put_reach [] (pl_range x) @ u64_bytes (pl_leading x) @ u64_bytes (pl_tail x)
      @ u64_bytes (pl_tail_leadership x) @ []"
    using assms(1) by (simp add: line_bytes_def)
  have "reach_sent (pl_range x)" using assms(2) Some by simp
  note r = take_reach_drop [OF d this]
  note a = take_u64_drop [OF r(2)]
  note b = take_u64_drop [OF a(2)]
  note c = take_u64_drop [OF b(2)]
  have "wire_put_reach [] (pl_range x) \<noteq> []" by (cases "pl_range x") (simp_all add: reach_body_def)
  then have "drop (at + 17) body \<noteq> []" unfolding d by simp
  then have "\<not> length body \<le> at + 17" by simp
  then show ?thesis using Some r(1) a(1) b(1) c(1) by (simp add: take_line_def)
qed

lemma hello_round_trips:
  assumes "hello_wf h"
  shows "hello_decode (hello_encode h) = Inr (as_greeted h)"
proof -
  let ?body = "hello_encode h"
  have wf: "length (he_node h) = NODE_ID_LEN" "roles_from_bits (he_roles h) = Some (he_roles h)"
    "case he_line h of Some l \<Rightarrow> reach_sent (pl_range l) | None \<Rightarrow> True"
    using assms unfolding hello_wf_def by blast+
  obtain b secs where age: "age_bytes (he_current_as_of h) = b # u64_bytes secs"
    "map_option sent_age (he_current_as_of h) = (if b \<noteq> 0 then Some (from_secs (unat secs)) else None)"
    by (cases "he_current_as_of h") (auto simp: age_bytes_def sent_age_def intro: that [of 0 0] that [of 1])
  have "he_node h \<noteq> []" using wf(1) by (auto simp: NODE_ID_LEN_def)
  note i = body_get_drop [of 0 ?body "he_node h", simplified, unfolded wf(1), OF hello_encode_def this]
  note m = take_u32_drop [OF i(2)]
  note n = take_u32_drop [OF m(2)]
  note p = take_u32_drop [OF n(2)]
  note e = take_u64_drop [OF p(2)]
  note r = take_byte_drop [OF e(2) [simplified]]
  note t = take_u64_drop [OF r(3)]
  note w = take_u64_drop [OF t(2), unfolded age]
  note c = take_byte_drop [OF w(2) [simplified]]
  note s = take_u64_drop [OF c(3)]
  note q = take_policy_drop [OF s(2)]
  note l = take_line_drop [OF q(2) wf(3)]
  show ?thesis
    using i(1) m(1) n(1) p(1) e(1) r(4) t(1) w(1) c(4) s(1) q(1) l wf(2) age(2)
    by (simp add: hello_decode_def as_greeted_def)
qed

lemma sent_age_rounds_up:
  assumes "d div 10 ^ 9 < 2 ^ 64 - 1"
  shows "d \<le> sent_age d" "sent_age d < d + 10 ^ 9"
proof -
  let ?n = "d div 10 ^ 9 + (if 0 < d mod 10 ^ 9 then 1 else 0)"
  have "min ?n (2 ^ 64 - 1) = ?n" using assms by simp
  then have "unat (whole_seconds d) = ?n"
    using assms by (simp add: whole_seconds_def unsigned_of_nat take_bit_nat_eq_self_iff del: of_nat_add)
  then have n: "sent_age d = ?n * 10 ^ 9" by (simp add: sent_age_def from_secs_def)
  define q where "q = d div 10 ^ 9"
  define r where "r = d mod 10 ^ 9"
  have "sent_age d = (if 0 < r then q * 10 ^ 9 + 10 ^ 9 else q * 10 ^ 9)"
    unfolding n q_def r_def by simp
  moreover have "d = q * 10 ^ 9 + r" "r < 10 ^ 9" unfolding q_def r_def by simp_all
  ultimately show "d \<le> sent_age d" "sent_age d < d + 10 ^ 9" by (auto split: if_splits)
qed

lemma admit_iff:
  "admit pres said me = Inr () \<longleftrightarrow>
    (\<exists>p. pres = Some p \<and> pr_purpose p = ForPeer \<and> pr_node p = he_node said \<and> he_node said \<noteq> me)"
  by (auto simp: admit_def split: option.splits)

lemma supersedes_order:
  "\<not> supersedes x x" "supersedes x y \<Longrightarrow> supersedes y z \<Longrightarrow> supersedes x z"
  "supersedes x y \<or> supersedes y x \<or> x = y"
  by (cases x; cases y; auto simp: supersedes_def)+

section \<open>Properties\<close>

text \<open>No byte is the tag of a frame between a client and a node and of one between two
nodes, and each reader knows exactly the tags its own writer uses: a frame that
arrives on the wrong port is refused, never misread.\<close>

theorem frame_tags_disjoint:
  "kind_from_tag (kind_tag k) = Some k \<and> peer_from_tag (peer_tag f) = Some f
    \<and> kind_from_tag (peer_tag f) = None \<and> peer_from_tag (kind_tag k) = None
    \<and> (kind_from_tag t = Some k \<longleftrightarrow> t = kind_tag k) \<and> (peer_from_tag t = Some f \<longleftrightarrow> t = peer_tag f)"
proof (intro conjI)
  show "kind_from_tag (kind_tag k) = Some k" "peer_from_tag (kind_tag k) = None"
    by (cases k; simp add: kind_from_tag_def peer_from_tag_def)+
  show "peer_from_tag (peer_tag f) = Some f" "kind_from_tag (peer_tag f) = None"
    by (cases f; simp add: kind_from_tag_def peer_from_tag_def)+
  show "kind_from_tag t = Some k \<longleftrightarrow> t = kind_tag k"
    by (cases k; auto simp: kind_from_tag_def split: if_splits)
  show "peer_from_tag t = Some f \<longleftrightarrow> t = peer_tag f"
    by (cases f; auto simp: peer_from_tag_def split: if_splits)
qed

text \<open>What a node sends another it reads back: an ask, an answer with its records and
the fields a later build appended, and a greeting, in which the age of a copy is
rounded up to a second and never down.\<close>

theorem peer_bodies_round_trip:
  assumes "reach_sent (co_home ask)" "collected_wf c" "hello_wf h"
  shows "collect_decode (collect_encode ask) = Inr ask
    \<and> collected_decode (collected_encode c) = Inr c
    \<and> hello_decode (hello_encode h) = Inr (as_greeted h)
    \<and> (\<forall>d. he_current_as_of h = Some d \<and> d div 10 ^ 9 < 2 ^ 64 - 1 \<longrightarrow>
        (\<exists>a. he_current_as_of (as_greeted h) = Some a \<and> d \<le> a \<and> a < d + 10 ^ 9))"
  using collect_round_trip [OF assms(1)] collected_round_trip [OF assms(2)] hello_round_trips [OF assms(3)]
    sent_age_rounds_up by (auto simp: as_greeted_def)

definition example_answer :: collected where
  "example_answer = \<lparr>cd_log = log_line Store, cd_previous = 3, cd_records = [], cd_stopped_early = False,
    cd_over = Some (Namespace 1), cd_order = Some 7, cd_epoch = None\<rparr>"

definition example_hello :: hello where
  "example_hello = \<lparr>he_node = LINE, he_build = \<lparr>nv_major = 1, nv_minor = 2, nv_patch = 3\<rparr>, he_epoch = 4,
    he_roles = 5, he_tail = 6, he_tail_leadership = 7, he_current_as_of = Some 8,
    he_policy = None, he_line = Some \<lparr>pl_range = Namespace 9, pl_leading = 0, pl_tail = 10, pl_tail_leadership = 2\<rparr>\<rparr>"

end
