(* ===== verification/Serving_Run.thy ===== *)
theory Serving_Run
  imports Collecting
begin

text \<open>What a leader's answer proves while the leader goes on committing.  The steps of a
leader's store between the reads of an answer and after it are a relation: a commit of
its own to the log it serves, a record landing in another log, and a batch that
touches no log.  Along them the log stays in the order of its writer and below the
version of the store, and what is appended after a version was read is ordered after
that version.\<close>

section \<open>The steps of a leader's store\<close>

text \<open>A write that leaves the logs, their positions and starts and the version alone.\<close>

definition off_feed :: "write_op \<Rightarrow> bool" where
  "off_feed op \<longleftrightarrow> op_keyspace op \<noteq> LOG
    \<and> (op_keyspace op = META \<longrightarrow> hd (op_key op) \<notin> {tag AppliedPosition, tag LogStart, tag VersionPosition})"

definition derives_off_feed :: "'s store_env \<Rightarrow> bool" where
  "derives_off_feed env \<longleftrightarrow>
    (\<forall>s r b v b'. env_derive env s r b v = Inr b' \<longrightarrow> appends off_feed b b')"

text \<open>A commit stamps its record with the version it moves the store to and with the
leadership it is made under, and lands at the position after the tail of its log.  The
counters do not reach their ends.\<close>

inductive leads_on ::
  "memory_backend store_env \<Rightarrow> u64 \<Rightarrow> log_id \<Rightarrow> memory_backend \<Rightarrow> memory_backend \<Rightarrow> bool"
  for env lead log where
  commits: "committed_version (memory_get s) = Inr v \<Longrightarrow> v \<noteq> - 1 \<Longrightarrow>
    committed_tail (memory_get s) log = Inr n \<Longrightarrow> n + 1 \<noteq> - 1 \<Longrightarrow>
    r = set_epoch lead (set_order (v + 1) r') \<Longrightarrow> log_record_wf r \<Longrightarrow>
    derive_and_land env r (apply_batch log (n + 1) (v + 1) r) (v + 1) w s = (t, Inr ()) \<Longrightarrow>
    leads_on env lead log s t"
| lands_elsewhere: "committed_version (memory_get s) = Inr v \<Longrightarrow> v \<noteq> - 1 \<Longrightarrow>
    log_wf other \<Longrightarrow> other \<noteq> log \<Longrightarrow> log_record_wf r \<Longrightarrow>
    derive_and_land env r (apply_batch other at (v + 1) r) (v + 1) w s = (t, Inr ()) \<Longrightarrow>
    leads_on env lead log s t"
| writes: "memory_apply s b = (t, Inr ()) \<Longrightarrow> list_all off_feed (ops b) \<Longrightarrow> leads_on env lead log s t"

section \<open>What a landed record changes\<close>

lemma settle_writes_off_feed: "settle_writes get a v op \<Longrightarrow> off_feed op"
  by (auto simp: settle_writes_def off_feed_def across_key_bytes)

lemma apply_batch_feed:
  "\<exists>os. ops (apply_batch l at ver r) = log_ops l at ver r @ os \<and> list_all off_feed os"
proof -
  have "appends off_feed b (put_mutation_version ver b m)" for b m
    by (auto simp: put_mutation_version_def Let_def appends_def batch_put_def off_feed_def
        resolved_of_bytes split: option.splits)
  then have "appends off_feed b (foldl (put_mutation_version ver) b ms)" for b ms
    by (induction ms arbitrary: b) (auto intro: appends_trans)
  then have put: "appends off_feed b (put_records b ver r)" for b by (simp add: put_records_def)
  obtain b where b: "apply_batch l at ver r = put_records b ver r" "ops b = log_ops l at ver r"
    by (simp add: apply_batch_def Let_def log_ops_def batch_put_def expect_value_def expect_absent_def batch_new_def
        split: if_splits)
  show ?thesis using put [of b] unfolding b appends_def .
qed

lemma off_feed_keeps:
  assumes "list_all off_feed os"
  shows "map_ops os m LOG = m LOG"
    "hd k \<in> {tag AppliedPosition, tag LogStart, tag VersionPosition} \<Longrightarrow> map_ops os m META k = m META k"
proof -
  show "map_ops os m LOG = m LOG"
    using assms by (intro map_ops_other) (auto simp: list_all_iff off_feed_def)
  show "hd k \<in> {tag AppliedPosition, tag LogStart, tag VersionPosition} \<Longrightarrow> map_ops os m META k = m META k"
    using assms by (intro map_ops_elsewhere) (auto simp: list_all_iff off_feed_def)
qed

lemma landed_feed:
  assumes "over_memory env" "derives_off_feed env" "memory_ok s"
    "derive_and_land env r (apply_batch l at ver r) ver w s = (t, Inr ())"
  shows "memory_ok t"
    "memory_maps t LOG = (memory_maps s LOG)(log_key_encode \<lparr>lk_log = l, lk_sequence = at\<rparr> \<mapsto> log_record_encode r)"
    "memory_maps t META version_key = Some (sequence_encode ver)"
    "memory_maps t META (applied_position_encode l) = Some (sequence_encode at)"
    "memory_maps t META (log_start_encode l') = memory_maps s META (log_start_encode l')"
    "log_wf l \<Longrightarrow> log_wf l' \<Longrightarrow> l' \<noteq> l \<Longrightarrow>
      memory_maps t META (applied_position_encode l') = memory_maps s META (applied_position_encode l')"
proof -
  let ?b = "apply_batch l at ver r"
  have "t = s \<and> Inr () \<noteq> (Inr () :: apply_error + unit) \<or> memory_ok t \<and> Inr () = (Inr () :: apply_error + unit) \<and>
      (\<exists>os. list_all off_feed os \<and> memory_maps t = map_ops (ops ?b @ os) (memory_maps s))"
  proof (rule memory.derive_and_land_appends [OF assms(3) assms(1) [unfolded over_memory] _ _ assms(4)])
    show "appends off_feed b b'" if "env_derive env s r b v = Inr b'" for s b v b'
      using assms(2) that unfolding derives_off_feed_def by blast
  qed (rule settle_writes_off_feed)
  then obtain os where os: "memory_ok t" "list_all off_feed os" "memory_maps t = map_ops (ops ?b @ os) (memory_maps s)"
    by blast
  obtain os0 where os0: "ops ?b = log_ops l at ver r @ os0" "list_all off_feed os0" using apply_batch_feed by blast
  have off: "list_all off_feed (os0 @ os)" using os(2) os0(2) by simp
  have t: "memory_maps t = map_ops (os0 @ os) (map_ops (log_ops l at ver r) (memory_maps s))"
    by (simp add: os(3) os0(1) map_ops_append)
  note keep = off_feed_keeps [OF off]
  have hd: "hd version_key = tag VersionPosition" "hd (applied_position_encode k) = tag AppliedPosition"
    "hd (log_start_encode k) = tag LogStart" for k
    by (simp_all add: version_key_def singleton_encode_def applied_position_bytes log_start_bytes)
  have ne: "version_key \<noteq> applied_position_encode k" "applied_position_encode k \<noteq> version_key"
    "log_start_encode k \<noteq> version_key" "log_start_encode k \<noteq> applied_position_encode k'" for k k'
    by (simp_all add: version_key_def singleton_encode_def applied_position_bytes log_start_bytes)
  show "memory_ok t" by (rule os(1))
  show "memory_maps t LOG = (memory_maps s LOG)(log_key_encode \<lparr>lk_log = l, lk_sequence = at\<rparr> \<mapsto> log_record_encode r)"
    unfolding t keep(1) by (simp add: log_ops_def)
  show "memory_maps t META version_key = Some (sequence_encode ver)"
    "memory_maps t META (applied_position_encode l) = Some (sequence_encode at)"
    "memory_maps t META (log_start_encode l') = memory_maps s META (log_start_encode l')"
    unfolding t by (simp_all add: keep(2) hd log_ops_def ne)
  show "memory_maps t META (applied_position_encode l') = memory_maps s META (applied_position_encode l')"
    if "log_wf l" "log_wf l'" "l' \<noteq> l"
    unfolding t using that applied_position_inject [of l l'] by (auto simp: keep(2) hd log_ops_def ne)
qed

section \<open>A log in the order of its writer\<close>

text \<open>The log a leader serves, from the position asked for on: it is held whole, its tail is
the position the store applied it to, its records are in order, and none is ordered
after the version the store has reached.\<close>

definition feed ::
  "u64 \<Rightarrow> log_id \<Rightarrow> sequence \<Rightarrow> sequence \<Rightarrow> memory_backend \<Rightarrow> sequence \<Rightarrow> sequence \<Rightarrow> bool" where
  "feed lead log start from s n v \<longleftrightarrow> memory_ok s \<and> log_wf log \<and> start \<le> from \<and> unat from \<le> unat n + 1 \<and> n \<noteq> - 1
    \<and> only_logs (memory_maps s) \<and> log_holds (memory_maps s) log start n
    \<and> committed_tail (memory_get s) log = Inr n \<and> committed_version (memory_get s) = Inr v
    \<and> in_log_order (records_from (memory_maps s) log from n)
    \<and> (\<forall>x \<in> set (records_from (memory_maps s) log from n). key_of (snd x) \<le> (lead, v))"

text \<open>What a run of steps makes of it: it is one still, with every entry it had, and what it
has more is ordered after the version the store had.\<close>

definition fed_on ::
  "u64 \<Rightarrow> log_id \<Rightarrow> sequence \<Rightarrow> memory_backend \<Rightarrow> sequence \<Rightarrow> sequence \<Rightarrow> memory_backend \<Rightarrow> sequence \<Rightarrow> sequence \<Rightarrow> bool" where
  "fed_on lead log from s n v t n' v' \<longleftrightarrow> n \<le> n' \<and> v \<le> v'
    \<and> (\<forall>p \<le> n. entry (memory_maps t) log p = entry (memory_maps s) log p)
    \<and> (\<exists>new. records_from (memory_maps t) log from n' = records_from (memory_maps s) log from n @ new
         \<and> (\<forall>x \<in> set new. (lead, v) \<le> key_of (snd x)))"

lemma feed_version: "feed lead log start from s n v \<Longrightarrow> committed_version (memory_get s) = Inr v"
  "feed lead log start from s n v \<Longrightarrow> committed_tail (memory_get s) log = Inr n"
  by (simp_all add: feed_def)

lemma committed_version_of:
  "memory_ok s \<Longrightarrow> memory_maps s META version_key = Some (sequence_encode v) \<Longrightarrow> committed_version (memory_get s) = Inr v"
  by (simp add: committed_version_def get_decoded_def memory_get_map version_key_def sequence_round_trip)

lemma committed_version_cong:
  "memory_ok s \<Longrightarrow> memory_ok t \<Longrightarrow> memory_maps t META version_key = memory_maps s META version_key \<Longrightarrow>
    committed_version (memory_get t) = committed_version (memory_get s)"
  by (simp add: committed_version_def get_decoded_def memory_get_map version_key_def)

lemma committed_tail_cong:
  "memory_ok s \<Longrightarrow> memory_ok t \<Longrightarrow>
    memory_maps t META (applied_position_encode l) = memory_maps s META (applied_position_encode l) \<Longrightarrow>
    committed_tail (memory_get t) l = committed_tail (memory_get s) l"
  by (simp add: committed_tail_def get_decoded_def memory_get_map)

lemma only_logs_update:
  assumes "only_logs m" "m' LOG = (m LOG)(log_key_encode \<lparr>lk_log = l, lk_sequence = at\<rparr> \<mapsto> log_record_encode r)"
    "log_wf l" "log_record_wf r"
  shows "only_logs m'"
  using assms unfolding only_logs_def log_key_wf_def
  by (auto intro: exI [of _ "\<lparr>lk_log = l, lk_sequence = at\<rparr>"] exI [of _ r] split: if_splits)

lemma records_from_cong:
  assumes "\<And>p. p \<le> n \<Longrightarrow> entry m' log p = entry m log p"
  shows "records_from m' log from n = records_from m log from n"
  using assms by (auto simp: records_from_def record_in_def set_positions_from)

text \<open>A step that leaves the log alone.\<close>

lemma feed_kept:
  assumes "feed lead log start from s n v" "memory_ok t" "only_logs (memory_maps t)"
    "\<And>i. entry (memory_maps t) log i = entry (memory_maps s) log i"
    "memory_maps t META (log_start_encode log) = memory_maps s META (log_start_encode log)"
    "committed_tail (memory_get t) log = committed_tail (memory_get s) log"
    "committed_version (memory_get t) = Inr v'" "v \<le> v'"
  shows "feed lead log start from t n v'" "fed_on lead log from s n v t n v'"
proof -
  have same: "records_from (memory_maps t) log from n = records_from (memory_maps s) log from n"
    by (rule records_from_cong) (rule assms(4))
  have "key_of (snd x) \<le> (lead, v')" if "x \<in> set (records_from (memory_maps s) log from n)" for x
  proof -
    have "key_of (snd x) \<le> (lead, v)" using assms(1) that by (simp add: feed_def)
    also have "\<dots> \<le> (lead, v')" using assms(8) by simp
    finally show ?thesis .
  qed
  then show "feed lead log start from t n v'"
    using assms(1-7) by (simp add: feed_def same log_holds_def)
  show "fed_on lead log from s n v t n v'" using assms(4,8) by (simp add: fed_on_def same)
qed

text \<open>A commit appends one record, ordered by the version it moves the store to.\<close>

lemma feed_commits:
  assumes f: "feed lead log start from s n v" and n: "n + 1 \<noteq> - 1" "v \<noteq> - 1"
    and r: "lr_epoch r = lead" "lr_order r = Some (v + 1)" "log_record_wf r"
    and t: "memory_ok t"
      "memory_maps t LOG = (memory_maps s LOG)(log_key_encode \<lparr>lk_log = log, lk_sequence = n + 1\<rparr> \<mapsto> log_record_encode r)"
      "memory_maps t META (log_start_encode log) = memory_maps s META (log_start_encode log)"
      "committed_tail (memory_get t) log = Inr (n + 1)" "committed_version (memory_get t) = Inr (v + 1)"
  shows "feed lead log start from t (n + 1) (v + 1)" "fed_on lead log from s n v t (n + 1) (v + 1)"
proof -
  note F = f [unfolded feed_def]
  have wf: "log_wf log" and n1: "n \<noteq> - 1" using F by blast+
  note le = word_le_succ [OF n1] and vl = word_le_succ [OF n(2)]
  have e: "entry (memory_maps t) log i = (if i = n + 1 then Some (log_record_encode r) else entry (memory_maps s) log i)" for i
    using appended_entry [of log log "memory_maps t" "memory_maps s" "n + 1" "log_record_encode r" i] wf t(2) by simp
  have un: "unat (n + 1) = Suc (unat n)" using next_position(2) [OF n1] .
  have rin: "record_in (memory_maps t) log (n + 1) = r"
    using e log_record_round_trips(1) [OF r(3)] by (simp add: record_in_def)
  have "positions_from from (n + 1) = positions_from from n @ [n + 1]"
  proof -
    have "max 1 (unat from) \<le> unat n + 1" using F by simp
    then have "[max 1 (unat from) ..< unat (n + 1) + 1] = [max 1 (unat from) ..< unat n + 1] @ [unat n + 1]"
      by (simp add: un)
    moreover have "(word_of_nat (unat n + 1) :: sequence) = n + 1" by simp
    ultimately show ?thesis by (simp add: positions_from_def del: upt_Suc)
  qed
  moreover have "records_from (memory_maps t) log from n = records_from (memory_maps s) log from n"
    using e le(3) by (intro records_from_cong) auto
  ultimately have recs: "records_from (memory_maps t) log from (n + 1)
      = records_from (memory_maps s) log from n @ [(n + 1, r)]"
    by (simp add: records_from_def rin)
  have key: "key_of r = (lead, v + 1)" by (simp add: key_of_def order_of_def r(1,2))
  have v1: "v \<le> v + 1" using vl(1) [of v] by simp
  have old: "key_of (snd x) \<le> (lead, v + 1)" if "x \<in> set (records_from (memory_maps s) log from n)" for x
  proof -
    have "key_of (snd x) \<le> (lead, v)" using F that by blast
    also have "\<dots> \<le> (lead, v + 1)" using v1 by simp
    finally show ?thesis .
  qed
  have so: "in_log_order (records_from (memory_maps t) log from (n + 1))"
    using F old by (auto simp: in_log_order_def recs sorted_wrt_append key)
  have s1: "start \<le> n + 1"
  proof -
    have "start \<le> from" "unat from \<le> unat (n + 1)" using F un by auto
    then show ?thesis by (simp add: word_le_nat_alt)
  qed
  have h: "log_holds (memory_maps s) log start n" using F by blast
  have "entry (memory_maps t) log i \<noteq> None \<longleftrightarrow> 0 < i \<and> start \<le> i \<and> i \<le> n + 1" for i
  proof (cases "i = n + 1")
    case True
    then show ?thesis using s1 le(2) by (simp add: e)
  next
    case False
    then have "i \<le> n + 1 \<longleftrightarrow> i \<le> n" using le(1) [of i] by blast
    then show ?thesis using False h unfolding e log_holds_def by simp
  qed
  then have "log_holds (memory_maps t) log start (n + 1)" using h by (simp add: log_holds_def t(3))
  moreover have "only_logs (memory_maps t)" 
    using only_logs_update [of "memory_maps s" "memory_maps t" log "n + 1" r] F t(2) wf r(3) by blast
  moreover have "\<forall>x \<in> set (records_from (memory_maps t) log from (n + 1)). key_of (snd x) \<le> (lead, v + 1)"
    using old by (auto simp: recs key)
  ultimately show "feed lead log start from t (n + 1) (v + 1)"
    using F n(1) t(1,4,5) so un unfolding feed_def by simp
  have "n \<le> n + 1" using le(1) [of n] by simp
  moreover have "entry (memory_maps t) log p = entry (memory_maps s) log p" if "p \<le> n" for p
    using that e le(3) by auto
  ultimately show "fed_on lead log from s n v t (n + 1) (v + 1)"
    using v1 by (auto simp: fed_on_def recs key)
qed

lemma leads_on_feeds:
  assumes env: "over_memory env" "derives_off_feed env"
    and "leads_on env lead log s t" "feed lead log start from s n v"
  shows "\<exists>n' v'. feed lead log start from t n' v' \<and> fed_on lead log from s n v t n' v'"
  using assms(3)
proof cases
  note F = assms(4) [unfolded feed_def]
  case (commits v0 n0 r r' w)
  have eq: "v0 = v" "n0 = n" using commits(1,3) feed_version [OF assms(4)] by simp_all
  have s: "memory_ok s" using F by blast
  note l = landed_feed [OF env s commits(7)]
  have "committed_tail (memory_get t) log = Inr (n0 + 1)"
    using l(1,4) by (simp add: committed_tail_def get_decoded_def memory_get_map sequence_round_trip)
  then show ?thesis
    using feed_commits [OF assms(4), of r t] commits(2,4-6) l(1,2,5) committed_version_of [OF l(1,3)]
    unfolding eq by (auto simp: set_epoch_def set_order_def)
next
  note F = assms(4) [unfolded feed_def]
  case (lands_elsewhere v0 other r at w)
  have eq: "v0 = v" using lands_elsewhere(1) feed_version [OF assms(4)] by simp
  have s: "memory_ok s" "log_wf log" using F by blast+
  note l = landed_feed [OF env s(1) lands_elsewhere(6)]
  have "entry (memory_maps t) log i = entry (memory_maps s) log i" for i
    using appended_entry [of log other "memory_maps t" "memory_maps s" at "log_record_encode r" i]
      s(2) lands_elsewhere(3,4) l(2) by simp
  moreover have "v \<le> v + 1" using word_le_succ(1) [of v v] lands_elsewhere(2) eq by simp
  moreover have "only_logs (memory_maps t)"
    using only_logs_update [of "memory_maps s" "memory_maps t" other at r] l(2) lands_elsewhere(3,5) F by blast
  moreover have "committed_tail (memory_get t) log = committed_tail (memory_get s) log"
    using l(6) [OF lands_elsewhere(3) s(2)] lands_elsewhere(4) s(1) l(1) by (intro committed_tail_cong) auto
  ultimately show ?thesis
    using feed_kept [OF assms(4) l(1) _ _ l(5), of "v + 1"] committed_version_of [OF l(1,3)] eq by blast
next
  note F = assms(4) [unfolded feed_def]
  case (writes b)
  have s: "memory_ok s" "only_logs (memory_maps s)" using F by blast+
  note t = memory_apply_maps [OF s(1) writes(1)]
  note keep = off_feed_keeps [OF writes(2)]
  have m: "memory_maps t LOG = memory_maps s LOG"
    "memory_maps t META version_key = memory_maps s META version_key"
    "memory_maps t META (applied_position_encode k) = memory_maps s META (applied_position_encode k)"
    "memory_maps t META (log_start_encode k) = memory_maps s META (log_start_encode k)" for k
    by (simp_all add: t(2) keep version_key_def singleton_encode_def applied_position_bytes log_start_bytes)
  have "feed lead log start from t n v \<and> fed_on lead log from s n v t n v"
    using s t(1) m feed_version(1) [OF assms(4)]
    by (intro conjI; intro feed_kept [OF assms(4)])
      (simp_all add: entry_def only_logs_def committed_version_cong [OF s(1) t(1) m(2)]
        committed_tail_cong [OF s(1) t(1) m(3)])
  then show ?thesis by blast
qed

lemma fed_on_trans:
  assumes "fed_on lead log from s n v t n' v'" "fed_on lead log from t n' v' u n'' v''"
  shows "fed_on lead log from s n v u n'' v''"
proof -
  have v: "(lead, v) \<le> (lead, v')" using assms(1) by (simp add: fed_on_def)
  obtain new new' where r: "records_from (memory_maps t) log from n' = records_from (memory_maps s) log from n @ new"
    "\<forall>x \<in> set new. (lead, v) \<le> key_of (snd x)"
    "records_from (memory_maps u) log from n'' = records_from (memory_maps t) log from n' @ new'"
    "\<forall>x \<in> set new'. (lead, v') \<le> key_of (snd x)"
    using assms unfolding fed_on_def by blast
  have "\<forall>x \<in> set (new @ new'). (lead, v) \<le> key_of (snd x)" using r(2,4) order_trans [OF v] by (metis UnE set_append)
  then have "\<exists>new. records_from (memory_maps u) log from n'' = records_from (memory_maps s) log from n @ new
      \<and> (\<forall>x \<in> set new. (lead, v) \<le> key_of (snd x))"
    using r(1,3) by (intro exI [of _ "new @ new'"]) simp
  moreover have "n \<le> n''" "v \<le> v''" using assms unfolding fed_on_def by (meson order_trans)+
  moreover have "entry (memory_maps u) log p = entry (memory_maps s) log p" if "p \<le> n" for p
    using assms that unfolding fed_on_def by (metis order_trans)
  ultimately show ?thesis by (simp add: fed_on_def)
qed

lemma runs_feed:
  assumes "over_memory env" "derives_off_feed env" "(leads_on env lead log)\<^sup>*\<^sup>* s t" "feed lead log start from s n v"
  shows "\<exists>n' v'. feed lead log start from t n' v' \<and> fed_on lead log from s n v t n' v'"
  using assms(3)
proof (induction rule: rtranclp_induct)
  case base
  show ?case using assms(4) by (intro exI [of _ n] exI [of _ v]) (simp add: fed_on_def)
next
  case (step t u)
  then obtain n' v' where t: "feed lead log start from t n' v'" "fed_on lead log from s n v t n' v'" by blast
  obtain n'' v'' where "feed lead log start from u n'' v''" "fed_on lead log from t n' v' u n'' v''"
    using leads_on_feeds [OF assms(1,2) step.hyps(2) t(1)] by blast
  then show ?case using fed_on_trans [OF t(2)] by blast
qed

section \<open>Serving along a run\<close>

text \<open>The moments of an answer are states of one run of the leader.\<close>

lemma moments_serve:
  assumes env: "over_memory env" "derives_off_feed env"
    and adm: "admits senv catalog ask over log lead me" "asks_here (memory_maps (S 0)) log start n (co_from ask)"
    and f: "feed lead log start (co_from ask) (S 0) n v"
    and run: "\<And>i. (leads_on env lead log)\<^sup>*\<^sup>* (S i) (S (Suc i))"
  obtains N v1 where "\<And>i. \<exists>v. feed lead log start (co_from ask) (S i) (N i) v"
    "feed lead log start (co_from ask) (S 1) (N 1) v1"
    "serves senv catalog (\<lambda>i. memory_maps (S i)) ask over log N lead me v1"
proof -
  have all: "\<exists>n v. feed lead log start (co_from ask) (S i) n v" for i
  proof (induction i)
    case (Suc i)
    then show ?case using runs_feed [OF env run] by blast
  qed (use f in blast)
  define N where "N i = (SOME n. \<exists>v. feed lead log start (co_from ask) (S i) n v)" for i
  have N: "\<exists>v. feed lead log start (co_from ask) (S i) (N i) v" for i
    unfolding N_def using someI_ex [OF all] .
  have N0: "N 0 = n" using N [of 0] f feed_version(2) by (metis Inr_inject)
  have g: "grows (\<lambda>i. memory_maps (S i)) log start N"
    unfolding grows_def
  proof (intro allI)
    fix i
    obtain v where v: "feed lead log start (co_from ask) (S i) (N i) v" using N by blast
    obtain n' v' where n': "feed lead log start (co_from ask) (S (Suc i)) n' v'"
      "fed_on lead log (co_from ask) (S i) (N i) v (S (Suc i)) n' v'"
      using runs_feed [OF env run v] by blast
    obtain v2 where "feed lead log start (co_from ask) (S (Suc i)) (N (Suc i)) v2" using N by blast
    then have "n' = N (Suc i)" using n'(1) feed_version(2) by (metis Inr_inject)
    then show "only_logs (memory_maps (S i)) \<and> log_holds (memory_maps (S i)) log start (N i) \<and> N i \<noteq> - 1
        \<and> N i \<le> N (Suc i) \<and> (\<forall>p \<le> N i. entry (memory_maps (S (Suc i))) log p = entry (memory_maps (S i)) log p)"
      using v n'(2) unfolding feed_def fed_on_def by blast
  qed
  obtain v1 where v1: "feed lead log start (co_from ask) (S 1) (N 1) v1" using N by blast
  have "committed_version (\<lambda>ks k. Inr (memory_maps (S 1) ks k)) = Inr v1"
  proof -
    have "memory_ok (S 1)" "committed_version (memory_get (S 1)) = Inr v1" using v1 by (simp_all add: feed_def)
    then show ?thesis by (simp add: committed_version_def get_decoded_def memory_get_map)
  qed
  then have "serves senv catalog (\<lambda>i. memory_maps (S i)) ask over log N lead me v1"
    using adm g N0 unfolding serves_def by blast
  with that N v1 show thesis by blast
qed

lemma moments_run:
  assumes "\<And>i. P\<^sup>*\<^sup>* (S i) (S (Suc i))" "i \<le> j"
  shows "P\<^sup>*\<^sup>* (S i) (S j)"
  using assms(2)
proof (induction rule: dec_induct)
  case (step k)
  then show ?case using assms(1) [of k] by (meson rtranclp_trans)
qed simp

lemma fed_on_fed:
  assumes "over_memory env" "derives_off_feed env" "(leads_on env lead log)\<^sup>*\<^sup>* s t"
    "feed lead log start from s n v" "feed lead log start from t n' v'"
  shows "fed_on lead log from s n v t n' v'"
proof -
  obtain n2 v2 where "feed lead log start from t n2 v2" "fed_on lead log from s n v t n2 v2"
    using runs_feed [OF assms(1-4)] by blast
  then show ?thesis using assms(5) feed_version by (metis Inr_inject)
qed

text \<open>What is served of two states of a run, the first with its version: the second holds a
first part of it that is the first's, and the rest is ordered after that version.\<close>

lemma served_along:
  assumes "fed_on lead log from s n v t n' v'"
    "served_records catalog over (memory_maps s) log from n = Inr rs"
    "served_records catalog over (memory_maps t) log from n' = Inr rs'"
  obtains new where "rs' = rs @ new" "\<And>x. x \<in> set new \<Longrightarrow> (lead, v) \<le> key_of (snd x)"
proof -
  obtain more_records where m: "records_from (memory_maps t) log from n' = records_from (memory_maps s) log from n @ more_records"
    "\<forall>x \<in> set more_records. (lead, v) \<le> key_of (snd x)"
    using assms(1) unfolding fed_on_def by blast
  have "prefix rs rs'"
    by (rule served_records_prefix [OF _ assms(2,3)]) (simp add: m(1))
  then obtain new where new: "rs' = rs @ new" by (auto simp: prefix_def)
  have "(lead, v) \<le> key_of (snd x)" if x: "x \<in> set new" for x
  proof -
    obtain i where i: "i < length new" "x = new ! i" using x by (auto simp: in_set_conv_nth)
    let ?k = "length rs + i"
    have k: "?k < length rs'" "rs' ! ?k = x" using i new by (simp_all add: nth_append)
    have len: "length rs = length (records_from (memory_maps s) log from n)"
      by (rule served_records_nth(1) [OF assms(2)])
    have "key_of (snd x) = key_of (snd (records_from (memory_maps t) log from n' ! ?k))"
      using served_records_nth(3) [OF assms(3) k(1)] k(2) by simp
    also have "records_from (memory_maps t) log from n' ! ?k = more_records ! i" by (simp add: m(1) len nth_append)
    finally have "key_of (snd x) = key_of (snd (more_records ! i))" .
    moreover have "i < length more_records"
      using k(1) served_records_nth(1) [OF assms(3)] by (simp add: m(1) len)
    ultimately show ?thesis using m(2) by simp
  qed
  with that new show thesis by blast
qed

lemma served_in_order:
  assumes "feed lead log start from s n v" "served_records catalog over (memory_maps s) log from n = Inr rs"
  shows "in_log_order rs"
proof -
  let ?R = "records_from (memory_maps s) log from n"
  have "map (\<lambda>x. key_of (snd x)) rs = map (\<lambda>x. key_of (snd x)) ?R"
    using served_records_nth(1,3) [OF assms(2)] by (intro nth_equalityI) simp_all
  then show ?thesis using assms(1) by (simp add: feed_def in_log_order_def)
qed

lemma later_is_ordered:
  assumes env: "over_memory env" "derives_off_feed env"
    and run: "\<And>i. (leads_on env lead log)\<^sup>*\<^sup>* (S i) (S (Suc i))" "\<And>i. (leads_on env lead log)\<^sup>*\<^sup>* (S i) t"
    and N: "\<And>i. \<exists>v. feed lead log start from (S i) (N i) v" "feed lead log start from (S 1) (N 1) v1"
    and p: "2 \<le> p" and R: "\<And>i. served_records catalog over (memory_maps (S i)) log from (N i) = Inr (R i)"
    and t: "committed_tail (memory_get t) log = Inr n'" "served_records catalog over (memory_maps t) log from n' = Inr rs"
  obtains later where "rs = R p @ later" "in_log_order (R p @ later)"
    "\<And>x. x \<in> set later \<Longrightarrow> (lead, v1) \<le> key_of (snd x)"
proof -
  obtain vp where vp: "feed lead log start from (S p) (N p) vp" using N(1) by blast
  obtain n2 v2 where "feed lead log start from t n2 v2" using runs_feed [OF env run(2) vp] by blast
  then have ft: "feed lead log start from t n' v2" using t(1) feed_version(2) by (metis Inr_inject)
  have "v1 \<le> vp"
    using fed_on_fed [OF env moments_run [of "leads_on env lead log" S 1 p, OF run(1)] N(2) vp] p by (simp add: fed_on_def)
  then have v: "(lead, v1) \<le> (lead, vp)" by simp
  obtain later where later: "rs = R p @ later" "\<And>x. x \<in> set later \<Longrightarrow> (lead, vp) \<le> key_of (snd x)"
    by (rule served_along [OF fed_on_fed [OF env run(2) vp ft] R t(2)]) blast
  moreover have "in_log_order (R p @ later)" using served_in_order [OF ft t(2)] later(1) by simp
  ultimately show thesis using that order_trans [OF v] by blast
qed

section \<open>Properties\<close>

text \<open>C15: the page a follower makes of a leader's answer is true of the log as the leader
leaves it later.  The answer is read over a run of the leader's store, in which it
commits to the log it serves, lands records of other logs and writes elsewhere between
any two reads and after the last.  It is given, and the page holds a first part of the
log as it is at any later state of the run; a page that says it is level lacks only
records that the leader ordered at or after the version the page names.  The log was in
its writer's order and not ahead of the store's version when the answer began; nothing is
pruned from it, and the node leads throughout.\<close>

theorem level_answers_are_true:
  assumes env: "over_memory env" "derives_off_feed env"
    and adm: "admits senv catalog ask over log lead me" "0 < lead"
      "asks_here (memory_maps (S 0)) log start n (co_from ask)"
    and f: "feed lead log start (co_from ask) (S 0) n v"
    and run: "\<And>i. (leads_on env lead log)\<^sup>*\<^sup>* (S i) (S (Suc i))" "\<And>i. (leads_on env lead log)\<^sup>*\<^sup>* (S i) t"
    and t: "committed_tail (memory_get t) log = Inr n'"
      "served_records catalog over (memory_maps t) log (co_from ask) n' = Inr (to_come log)"
  shows "\<exists>noted c. collecting_for senv catalog (\<lambda>i. memory_get (S i)) (\<lambda>i. memory_scan (S i)) acks ask = (noted, Inr c)
    \<and> page_true to_come pages (page_of (co_limit ask) (co_from ask) c)"
proof -
  obtain N v1 where N: "\<And>i. \<exists>v. feed lead log start (co_from ask) (S i) (N i) v"
    "feed lead log start (co_from ask) (S 1) (N 1) v1"
    "serves senv catalog (\<lambda>i. memory_maps (S i)) ask over log N lead me v1"
    by (rule moments_serve [OF env adm(1,3) f run(1)]) blast
  have ok: "memory_ok (S i)" for i using N(1) [of i] by (auto simp: feed_def)
  have "catalog_reads catalog" using adm(1) by (simp add: admits_def)
  from served_records_all [OF this, of over "\<lambda>i. memory_maps (S i)" log "co_from ask" N] obtain R
    where R: "\<And>i. served_records catalog over (memory_maps (S i)) log (co_from ask) (N i) = Inr (R i)" by blast
  obtain p j early where p: "2 \<le> p"
    "collecting_for senv catalog (\<lambda>i. memory_get (S i)) (\<lambda>i. memory_scan (S i)) acks ask =
      ((if acks then [FollowerAsked log (saturating_pred (co_from ask))] else []) @ served_notes ask log (take j (R p)),
       Inr (answer_with over log
         (if co_from ask \<le> 1 then 0 else lr_epoch (record_in (memory_maps (S 0)) log (co_from ask - 1)))
         (stated_order lead me log v1) (take j (R p), early)))"
    "carries_part R (unat (co_limit ask)) p j early"
    by (rule memory.collecting_answers [OF ok N(3) R, of acks]) blast
  obtain later where later: "to_come log = R p @ later" "in_log_order (R p @ later)"
    "\<And>x. x \<in> set later \<Longrightarrow> (lead, v1) \<le> key_of (snd x)"
    by (rule later_is_ordered [OF env run N(1,2) p(1) R t]) blast
  have "page_true to_come pages (page_of (co_limit ask) (co_from ask) (answer_with over log
         (if co_from ask \<le> 1 then 0 else lr_epoch (record_in (memory_maps (S 0)) log (co_from ask - 1)))
         (stated_order lead me log v1) (take j (R p), early)))"
    using p(3) unfolding carries_part_def
    by (intro answered_page_true [where rs = "R p" and later = later] later adm(2)) simp_all
  then show ?thesis using p(2) by blast
qed

text \<open>The example: the leader answers out of an empty log, and then commits to it.\<close>

definition first_commit :: log_record where
  "first_commit = set_epoch 1 (set_order 1 (log_record_new []))"

lemma seeded_feed: "feed 1 (log_line Store) 0 1 seeded 0 0"
proof -
  have e: "entry (memory_maps seeded) (log_line Store) i = None" for i
    using seeded_holds [of Store] by (auto simp: holds_to_def)
  have ap: "memory_apply memory_new (batch_put META version_key (sequence_encode 0) batch_new) = (seeded, Inr ())"
    by (rule one_key_store [of version_key "sequence_encode 0"]) (simp add: seeded_def)
  have m: "memory_maps seeded = (\<lambda>_. Map.empty)(META := [version_key \<mapsto> sequence_encode 0])"
    using memory_apply_maps(2) [OF memory_ok_new ap] by (simp add: batch_put_def batch_new_def memory_maps_new)
  have "log_start_encode l \<noteq> version_key" for l by (simp add: log_start_bytes version_key_def singleton_encode_def)
  then have "memory_maps seeded META (log_start_encode (log_line Store)) = None" by (simp add: m)
  then have "log_holds (memory_maps seeded) (log_line Store) 0 0" by (auto simp: log_holds_def e)
  moreover have "only_logs (memory_maps seeded)" by (auto simp: only_logs_def m)
  moreover have "records_from (memory_maps seeded) (log_line Store) 1 0 = []"
    by (simp add: records_from_def positions_from_def)
  ultimately show ?thesis
    using seeded(1) example(4) memory.committed_tail_holds [OF seeded(1) seeded_holds]
      committed_version_of [OF seeded(1,2)]
    by (simp add: feed_def in_log_order_def)
qed

lemma first_commit_lands:
  obtains t where "leads_on example_env 1 (log_line Store) seeded t"
proof -
  have z: "(0::u64) \<noteq> - 1" by simp
  have r: "lr_across first_commit = None" "log_record_wf first_commit"
    by (simp_all add: first_commit_def set_epoch_def set_order_def log_record_new_def log_record_at_def log_record_wf_def)
  obtain t where t: "apply_at example_env (log_line Store) (0 + 1) first_commit seeded = (t, Inr ())"
    by (rule memory.next_lands [OF seeded(1) example(1) [unfolded over_memory] example(2,4) seeded_holds
        z r(1) example(3) seeded(2) z])
  have get: "env_get example_env seeded = memory_get seeded" "env_validate example_env seeded first_commit = Inr ()"
    by (simp_all add: example_env_def)
  note f = feed_version [OF seeded_feed]
  have "derive_and_land example_env first_commit (apply_batch (log_line Store) (0 + 1) (0 + 1) first_commit) (0 + 1)
      (Some (log_line Store, 1)) seeded = (t, Inr ())"
    using t by (simp add: apply_at_def get f saturating_next_def)
  then have "leads_on example_env 1 (log_line Store) seeded t"
    by (intro commits [OF f(1) z f(2) _ _ r(2), where r' = "log_record_new []" and w = "Some (log_line Store, 1)"])
      (simp_all add: first_commit_def)
  with that show thesis by blast
qed

theorem level_answers_are_true_witness:
  "\<exists>t rs noted c. leads_on example_env 1 (log_line Store) seeded t
    \<and> collecting_for example_serving (\<lambda>_. Inr StoreOnly) (\<lambda>_. memory_get seeded) (\<lambda>_. memory_scan seeded) False
        example_ask = (noted, Inr c)
    \<and> page_true (\<lambda>_. rs) [] (page_of 10 1 c)"
proof -
  obtain t where t: "leads_on example_env 1 (log_line Store) seeded t" by (rule first_commit_lands) blast
  have env: "over_memory example_env" "derives_off_feed example_env"
    using example(1) by (simp_all add: derives_off_feed_def example_env_def)
  obtain n v where n: "feed 1 (log_line Store) 0 1 t n v"
    using leads_on_feeds [OF env t seeded_feed] by blast
  have adm: "admits example_serving (\<lambda>_. Inr StoreOnly) example_ask Store (log_line Store) 1 LINE"
    using example(4) by (simp add: admits_def example_serving_def example_ask_def catalog_reads_def)
  have "catalog_reads (\<lambda>_. Inr StoreOnly)" by (simp add: catalog_reads_def)
  then obtain rs where rs: "served_records (\<lambda>_. Inr StoreOnly) Store (memory_maps t) (log_line Store) (co_from example_ask) n = Inr rs"
    using served_records_reads by blast
  have f: "feed 1 (log_line Store) 0 (co_from example_ask) seeded 0 0" using seeded_feed by (simp add: example_ask_from)
  have a: "asks_here (memory_maps seeded) (log_line Store) 0 0 (co_from example_ask)"
    by (simp add: asks_here_def example_ask_from)
  have "\<exists>noted c. collecting_for example_serving (\<lambda>_. Inr StoreOnly) (\<lambda>_. memory_get seeded) (\<lambda>_. memory_scan seeded)
      False example_ask = (noted, Inr c) \<and> page_true (\<lambda>_. rs) [] (page_of (co_limit example_ask) (co_from example_ask) c)"
    by (rule level_answers_are_true [where S = "\<lambda>_. seeded" and t = t, OF env adm _ a f _ _ feed_version(2) [OF n] rs])
      (use t in \<open>auto simp: r_into_rtranclp\<close>)
  then show ?thesis using t by (auto simp: example_ask_def)
qed

end
