(* ===== verification/Comparators.thy ===== *)
theory Comparators
  imports Main
begin

text \<open>The three-way comparisons of the language: \<^verbatim>\<open>Ordering\<close>, \<^verbatim>\<open>then_with\<close>, and the
derived orders of pairs, sequences and options, with the two laws a comparison has
to keep for the ordered maps and sets that are built on it: turning it around turns
its answer around, and its answers chain.  The laws are stated at given elements,
so that they carry through the nested types of the value language.\<close>

datatype ordering = Less | Equal | Greater

fun flip :: "ordering \<Rightarrow> ordering" where
  "flip Less = Greater"
| "flip Equal = Equal"
| "flip Greater = Less"

fun then_with :: "ordering \<Rightarrow> ordering \<Rightarrow> ordering" where
  "then_with Equal y = y"
| "then_with Less _ = Less"
| "then_with Greater _ = Greater"

definition cmp_of :: "'a::linorder \<Rightarrow> 'a \<Rightarrow> ordering" where
  "cmp_of a b = (if a < b then Less else if a = b then Equal else Greater)"

definition cmp_by :: "('a \<Rightarrow> 'b::linorder) \<Rightarrow> 'a \<Rightarrow> 'a \<Rightarrow> ordering" where
  "cmp_by f a b = cmp_of (f a) (f b)"

definition pair_cmp :: "('a \<Rightarrow> 'a \<Rightarrow> ordering) \<Rightarrow> ('b \<Rightarrow> 'b \<Rightarrow> ordering) \<Rightarrow> 'a \<times> 'b \<Rightarrow> 'a \<times> 'b \<Rightarrow> ordering" where
  "pair_cmp f g p q = then_with (f (fst p) (fst q)) (g (snd p) (snd q))"

fun list_cmp :: "('a \<Rightarrow> 'a \<Rightarrow> ordering) \<Rightarrow> 'a list \<Rightarrow> 'a list \<Rightarrow> ordering" where
  "list_cmp f [] [] = Equal"
| "list_cmp f [] (_ # _) = Less"
| "list_cmp f (_ # _) [] = Greater"
| "list_cmp f (x # xs) (y # ys) = then_with (f x y) (list_cmp f xs ys)"

fun option_cmp :: "('a \<Rightarrow> 'a \<Rightarrow> ordering) \<Rightarrow> 'a option \<Rightarrow> 'a option \<Rightarrow> ordering" where
  "option_cmp f None None = Equal"
| "option_cmp f None (Some _) = Less"
| "option_cmp f (Some _) None = Greater"
| "option_cmp f (Some x) (Some y) = f x y"

section \<open>Recursion through them\<close>

lemma list_cmp_cong [fundef_cong]:
  assumes "xs = xs'" "ys = ys'" "\<And>x y. x \<in> set xs' \<Longrightarrow> y \<in> set ys' \<Longrightarrow> f x y = g x y"
  shows "list_cmp f xs ys = list_cmp g xs' ys'"
proof -
  have "list_cmp f xs' ys' = list_cmp g xs' ys'"
    using assms(3) by (induction f xs' ys' rule: list_cmp.induct) simp_all
  then show ?thesis using assms by simp
qed

lemma option_cmp_cong [fundef_cong]:
  assumes "x = x'" "y = y'" "\<And>a b. x' = Some a \<Longrightarrow> y' = Some b \<Longrightarrow> f a b = g a b"
  shows "option_cmp f x y = option_cmp g x' y'"
  using assms by (cases x'; cases y') simp_all

lemma pair_cmp_cong [fundef_cong]:
  assumes "p = p'" "q = q'" "f (fst p') (fst q') = f' (fst p') (fst q')"
    "g (snd p') (snd q') = g' (snd p') (snd q')"
  shows "pair_cmp f g p q = pair_cmp f' g' p' q'"
  using assms by (simp add: pair_cmp_def)

section \<open>The laws\<close>

definition swaps :: "('a \<Rightarrow> 'a \<Rightarrow> ordering) \<Rightarrow> 'a \<Rightarrow> 'a \<Rightarrow> bool" where
  "swaps f a b \<longleftrightarrow> f b a = flip (f a b)"

definition chained :: "ordering \<Rightarrow> ordering \<Rightarrow> ordering \<Rightarrow> bool" where
  "chained x y z \<longleftrightarrow> (x = Equal \<longrightarrow> z = y) \<and> (y = Equal \<longrightarrow> z = x) \<and> (x = y \<longrightarrow> z = x)"

definition chains_at :: "('a \<Rightarrow> 'a \<Rightarrow> ordering) \<Rightarrow> 'a \<Rightarrow> 'a \<Rightarrow> 'a \<Rightarrow> bool" where
  "chains_at f a b c \<longleftrightarrow> chained (f a b) (f b c) (f a c)"

definition lawful :: "('a \<Rightarrow> 'a \<Rightarrow> ordering) \<Rightarrow> bool" where
  "lawful f \<longleftrightarrow> (\<forall>a b. swaps f a b) \<and> (\<forall>a b c. chains_at f a b c)"

lemma lawfulD:
  assumes "lawful f"
  shows "swaps f a b" "chains_at f a b c"
  using assms by (simp_all add: lawful_def)

lemma lawfulI: "(\<And>a b. swaps f a b) \<Longrightarrow> (\<And>a b c. chains_at f a b c) \<Longrightarrow> lawful f"
  by (simp add: lawful_def)

lemma flip_flip [simp]: "flip (flip x) = x"
  by (cases x) simp_all

lemma flip_then [simp]: "flip (then_with x y) = then_with (flip x) (flip y)"
  by (cases x) simp_all

lemma flip_eq [simp]: "flip x = Equal \<longleftrightarrow> x = Equal" "flip x = Less \<longleftrightarrow> x = Greater" "flip x = Greater \<longleftrightarrow> x = Less"
  by (cases x; simp)+

lemma then_with_eq [simp]:
  "then_with x y = Equal \<longleftrightarrow> x = Equal \<and> y = Equal"
  "then_with x Equal = x"
  by (cases x; simp)+

lemma chained_then:
  assumes "chained x y z" "x = Equal \<Longrightarrow> y = Equal \<Longrightarrow> chained x' y' z'"
  shows "chained (then_with x x') (then_with y y') (then_with z z')"
  using assms by (cases x; cases y; cases z) (auto simp: chained_def)

lemma swaps_cmp_of: "swaps cmp_of a b"
  by (auto simp: swaps_def cmp_of_def)

lemma chains_cmp_of: "chains_at cmp_of a b c"
  by (cases rule: linorder_cases [of a b]; cases rule: linorder_cases [of b c])
    (auto simp: chains_at_def chained_def cmp_of_def)

lemma cmp_of_iff [simp]:
  "cmp_of a b = Equal \<longleftrightarrow> a = b" "cmp_of a b = Less \<longleftrightarrow> a < b" "cmp_of a b = Greater \<longleftrightarrow> b < a"
  by (auto simp: cmp_of_def)

lemma flip_cmp_of [simp]: "flip (cmp_of a b) = cmp_of b a"
  by (auto simp: cmp_of_def)

lemma lawful_cmp_of: "lawful cmp_of"
  by (simp add: lawful_def swaps_cmp_of chains_cmp_of)

lemma lawful_cmp_by: "lawful (cmp_by f)"
proof (rule lawfulI)
  show "swaps (cmp_by f) a b" for a b using swaps_cmp_of [of "f a" "f b"] by (simp add: swaps_def cmp_by_def)
  show "chains_at (cmp_by f) a b c" for a b c
    using chains_cmp_of [of "f a" "f b" "f c"] by (simp add: chains_at_def cmp_by_def)
qed

lemma swaps_pair: "swaps f (fst p) (fst q) \<Longrightarrow> swaps g (snd p) (snd q) \<Longrightarrow> swaps (pair_cmp f g) p q"
  by (simp add: swaps_def pair_cmp_def)

lemma chains_pair:
  "chains_at f (fst p) (fst q) (fst r) \<Longrightarrow> chains_at g (snd p) (snd q) (snd r) \<Longrightarrow> chains_at (pair_cmp f g) p q r"
  by (simp add: chains_at_def pair_cmp_def chained_then)

lemma swaps_list:
  assumes "\<forall>x \<in> set xs. \<forall>y. swaps f x y"
  shows "swaps (list_cmp f) xs ys"
  using assms
proof (induction xs arbitrary: ys)
  case (Nil ys)
  then show ?case by (cases ys) (simp_all add: swaps_def)
next
  case (Cons x xs ys)
  then show ?case by (cases ys) (simp_all add: swaps_def)
qed

lemma chains_list:
  assumes "\<forall>x \<in> set xs. \<forall>y z. chains_at f x y z"
  shows "chains_at (list_cmp f) xs ys zs"
  using assms
proof (induction xs arbitrary: ys zs)
  case (Nil ys zs)
  then show ?case by (cases ys; cases zs) (simp_all add: chains_at_def chained_def)
next
  case (Cons x xs ys zs)
  show ?case
  proof (cases "ys = [] \<or> zs = []")
    case True
    then show ?thesis by (cases ys; cases zs) (auto simp: chains_at_def chained_def)
  next
    case False
    then obtain y ys' z zs' where "ys = y # ys'" "zs = z # zs'" by (meson neq_Nil_conv)
    then show ?thesis
      using Cons.IH [of ys' zs'] Cons.prems by (simp add: chains_at_def chained_then)
  qed
qed

lemma swaps_option: "(\<And>x y. a = Some x \<Longrightarrow> swaps f x y) \<Longrightarrow> swaps (option_cmp f) a b"
  by (cases a; cases b) (simp_all add: swaps_def)

lemma chains_option:
  assumes "\<And>x y z. a = Some x \<Longrightarrow> chains_at f x y z"
  shows "chains_at (option_cmp f) a b c"
proof (cases "a = None \<or> b = None \<or> c = None")
  case True
  then show ?thesis by (cases a; cases b; cases c) (auto simp: chains_at_def chained_def)
next
  case False
  then obtain x y z where "a = Some x" "b = Some y" "c = Some z" by auto
  then show ?thesis using assms [of x y z] by (simp add: chains_at_def)
qed

lemma lawful_pair: "lawful f \<Longrightarrow> lawful g \<Longrightarrow> lawful (pair_cmp f g)"
  by (rule lawfulI) (rule swaps_pair chains_pair; rule lawfulD; assumption)+

lemma lawful_list: "lawful f \<Longrightarrow> lawful (list_cmp f)"
  by (rule lawfulI) (simp_all add: swaps_list chains_list lawfulD)

lemma lawful_option: "lawful f \<Longrightarrow> lawful (option_cmp f)"
  by (rule lawfulI) (simp_all add: swaps_option chains_option lawfulD)

lemma lawful_compose:
  assumes "lawful f"
  shows "lawful (\<lambda>a b. f (g a) (g b))"
proof (rule lawfulI)
  show "swaps (\<lambda>a b. f (g a) (g b)) a b" for a b
    using lawfulD(1) [OF assms, of "g a" "g b"] by (simp add: swaps_def)
  show "chains_at (\<lambda>a b. f (g a) (g b)) a b c" for a b c
    using lawfulD(2) [OF assms, of "g a" "g b" "g c"] by (simp add: chains_at_def)
qed

lemmas lawful_intros = lawful_cmp_of lawful_cmp_by lawful_pair lawful_list lawful_option lawful_compose

text \<open>A comparison by the rank of a variant, then by what the variant carries.\<close>

lemma swaps_ranked:
  assumes "\<And>a b. f a b = then_with (cmp_of (rk a) (rk b)) (inner a b)"
    and "rk a = rk b \<Longrightarrow> swaps inner a b"
  shows "swaps f a b"
  using assms(2) swaps_cmp_of [of "rk a" "rk b"] unfolding swaps_def assms(1) [of a b] assms(1) [of b a]
  by (cases "rk a = rk b") (auto simp: cmp_of_def)

lemma chains_ranked:
  assumes "\<And>a b. f a b = then_with (cmp_of (rk a) (rk b)) (inner a b)"
    and "rk a = rk b \<Longrightarrow> rk a = rk c \<Longrightarrow> chains_at inner a b c"
  shows "chains_at f a b c"
  using assms(2) chains_cmp_of [of "rk a" "rk b" "rk c"]
  unfolding chains_at_def assms(1) [of a b] assms(1) [of a c] assms(1) [of b c]
  by (intro chained_then) auto

lemma lawful_refl: "lawful f \<Longrightarrow> f a a = Equal"
  using lawfulD(1) [of f a a] by (cases "f a a") (simp_all add: swaps_def)

lemma lawful_less_trans: "lawful f \<Longrightarrow> f a b = Less \<Longrightarrow> f b c = Less \<Longrightarrow> f a c = Less"
  using lawfulD(2) [of f a b c] by (simp add: chains_at_def chained_def)

section \<open>The ordered set of the library\<close>

text \<open>A \<^verbatim>\<open>BTreeSet\<close> as the list of its elements in order; inserting an element equal to
one it holds keeps the one it holds.\<close>

fun set_insert :: "('a \<Rightarrow> 'a \<Rightarrow> ordering) \<Rightarrow> 'a \<Rightarrow> 'a list \<Rightarrow> 'a list" where
  "set_insert f x [] = [x]"
| "set_insert f x (y # ys) =
    (case f x y of Less \<Rightarrow> x # y # ys | Equal \<Rightarrow> y # ys | Greater \<Rightarrow> y # set_insert f x ys)"

definition set_ok :: "('a \<Rightarrow> 'a \<Rightarrow> ordering) \<Rightarrow> 'a list \<Rightarrow> bool" where
  "set_ok f xs \<longleftrightarrow> sorted_wrt (\<lambda>a b. f a b = Less) xs"

lemma set_insert_subset: "set (set_insert f x ys) \<subseteq> insert x (set ys)"
  by (induction ys) (auto split: ordering.splits)

lemma set_insert_ok:
  assumes "lawful f" "set_ok f ys"
  shows "set_ok f (set_insert f x ys)"
  using assms(2)
proof (induction ys)
  case (Cons y ys)
  have sw: "f x y = Greater \<Longrightarrow> f y x = Less"
    using lawfulD(1) [OF assms(1), of x y] by (simp add: swaps_def)
  have ok: "\<forall>z \<in> set ys. f y z = Less" "set_ok f (set_insert f x ys)"
    using Cons by (auto simp: set_ok_def)
  show ?case
  proof (cases "f x y")
    case Less
    then show ?thesis
      using Cons.prems ok(1) lawful_less_trans [OF assms(1) Less] by (simp add: set_ok_def)
  next
    case Greater
    have "\<forall>z \<in> set (set_insert f x ys). f y z = Less"
      using ok(1) sw [OF Greater] set_insert_subset [of f x ys] by blast
    then show ?thesis using ok(2) Greater by (simp add: set_ok_def)
  qed (use Cons.prems in simp)
qed (simp add: set_ok_def)

lemma set_insert_last:
  assumes "\<And>y. y \<in> set ys \<Longrightarrow> f x y = Greater"
  shows "set_insert f x ys = ys @ [x]"
  using assms by (induction ys) simp_all

end
