(* ===== verification/Value_Order.thy ===== *)
theory Value_Order
  imports Log_Record Comparators
begin

text \<open>The value language (value.rs, number.rs, time.rs, geometry.rs and nesting.rs of
tessari-types): the seventeen types of a value, their order, and how deep they
nest.  A float is its bits.  What the program takes from its decimal library and
from the arithmetic of floats is an argument: which decimal a float becomes, how
two decimals compare, which pairs of an unscaled value and a scale make one, and
the shortcut of float_order.rs that answers without converting.\<close>

section \<open>Numbers\<close>

type_synonym f64 = u64
type_synonym i128 = "128 word"

record decimal =
  mantissa :: i128
  scale :: u32

datatype number = Integer i64 | Float f64 | Decimal decimal

definition is_nan :: "f64 \<Rightarrow> bool" where
  "is_nan x \<longleftrightarrow> 0x7FF0000000000000 < (x AND 0x7FFFFFFFFFFFFFFF)"

definition is_zero :: "f64 \<Rightarrow> bool" where
  "is_zero x \<longleftrightarrow> x AND 0x7FFFFFFFFFFFFFFF = 0"

definition NAN :: f64 where "NAN = 0x7FF8000000000000"
definition INFINITY :: f64 where "INFINITY = 0x7FF0000000000000"
definition NEG_INFINITY :: f64 where "NEG_INFINITY = 0xFFF0000000000000"

text \<open>The order of \<^verbatim>\<open>total_cmp\<close>: the bits as a signed integer, a negative one with its
other bits turned over.\<close>

definition total_key :: "f64 \<Rightarrow> int" where
  "total_key x = sint (if sint x < 0 then x XOR 0x7FFFFFFFFFFFFFFF else x)"

definition number_float :: "f64 \<Rightarrow> number" where
  "number_float x = (if is_nan x then Float NAN else if is_zero x then Float 0 else Float x)"

text \<open>The places a number has outside the finite ones, in order.\<close>

definition BELOW_EVERYTHING :: nat where "BELOW_EVERYTHING = 0"
definition FINITE :: nat where "FINITE = 1"
definition ABOVE_EVERYTHING :: nat where "ABOVE_EVERYTHING = 2"
definition NOT_A_NUMBER :: nat where "NOT_A_NUMBER = 3"

fun number_position :: "number \<Rightarrow> nat" where
  "number_position (Float x) =
    (if is_nan x then NOT_A_NUMBER else if x = INFINITY then ABOVE_EVERYTHING
     else if x = NEG_INFINITY then BELOW_EVERYTHING else FINITE)"
| "number_position _ = FINITE"

record decimals =
  of_float :: "f64 \<Rightarrow> decimal option"
  decimal_cmp :: "decimal \<Rightarrow> decimal \<Rightarrow> ordering"
  ordered_fast :: "number \<Rightarrow> number \<Rightarrow> ordering option"
  accepts_decimal :: "i128 \<Rightarrow> u32 \<Rightarrow> bool"

fun as_decimal :: "decimals \<Rightarrow> number \<Rightarrow> decimal option" where
  "as_decimal D (Integer i) = Some \<lparr>mantissa = signed i, scale = 0\<rparr>"
| "as_decimal D (Decimal d) = Some d"
| "as_decimal D (Float x) = of_float D x"

fun sign_of_huge_float :: "number \<Rightarrow> ordering option" where
  "sign_of_huge_float (Float x) =
    (if number_position (Float x) = FINITE then Some (cmp_of (total_key x) (total_key 0)) else None)"
| "sign_of_huge_float _ = None"

definition unwrap_equal :: "ordering option \<Rightarrow> ordering" where
  "unwrap_equal x = (case x of Some y \<Rightarrow> y | None \<Rightarrow> Equal)"

definition number_cmp :: "decimals \<Rightarrow> number \<Rightarrow> number \<Rightarrow> ordering" where
  "number_cmp D a b =
    (let positions = cmp_of (number_position a) (number_position b) in
     if positions \<noteq> Equal then positions
     else if number_position a \<noteq> FINITE then Equal
     else
       (case ordered_fast D a b of
          Some x \<Rightarrow> x
        | None \<Rightarrow>
            (case (as_decimal D a, as_decimal D b) of
               (Some x, Some y) \<Rightarrow> decimal_cmp D x y
             | (None, Some _) \<Rightarrow> unwrap_equal (sign_of_huge_float a)
             | (Some _, None) \<Rightarrow> flip (unwrap_equal (sign_of_huge_float b))
             | (None, None) \<Rightarrow>
                 (case (a, b) of
                    (Float x, Float y) \<Rightarrow> cmp_of (total_key x) (total_key y)
                  | _ \<Rightarrow> Equal))))"

text \<open>What the order of numbers rests on: decimals are ordered, a zero becomes a decimal,
and the shortcut answers as the decimals do.\<close>

definition decimals_ok :: "decimals \<Rightarrow> bool" where
  "decimals_ok D \<longleftrightarrow> lawful (decimal_cmp D)
    \<and> (\<forall>x. is_zero x \<longrightarrow> of_float D x \<noteq> None)
    \<and> (\<forall>a b z. ordered_fast D a b = Some z \<longrightarrow>
        (\<exists>x y. as_decimal D a = Some x \<and> as_decimal D b = Some y \<and> z = decimal_cmp D x y))"

section \<open>The order of numbers\<close>

text \<open>A finite number stands below, among or above the decimals.\<close>

definition huge_key :: "decimals \<Rightarrow> number \<Rightarrow> int" where
  "huge_key D a = (case as_decimal D a of Some _ \<Rightarrow> 0 | None \<Rightarrow> (case a of Float x \<Rightarrow> total_key x | _ \<Rightarrow> 0))"

lemma total_key_zero: "total_key x = 0 \<longleftrightarrow> x = 0"
proof -
  have "sint (x XOR 0x7FFFFFFFFFFFFFFF) < 0" if "sint x < 0"
    using that bit_last_iff [of x] bit_last_iff [of "x XOR 0x7FFFFFFFFFFFFFFF"]
    by (simp add: bit_xor_iff)
  moreover have "sint x = 0 \<Longrightarrow> x = 0" by (metis signed_0 signed_word_eqI)
  ultimately show ?thesis by (auto simp: total_key_def)
qed

definition number_key :: "decimals \<Rightarrow> number \<Rightarrow> nat \<times> int \<times> decimal option" where
  "number_key D a = (number_position a,
    if number_position a = FINITE then (huge_key D a, as_decimal D a) else (0, None))"

lemma huge_keyE:
  assumes "decimals_ok D" "as_decimal D a = None"
  obtains x where "a = Float x" "huge_key D a = total_key x" "total_key x \<noteq> 0"
proof -
  obtain x where x: "a = Float x" "of_float D x = None" using assms(2) by (cases a) simp_all
  then have "\<not> is_zero x" using assms(1) by (auto simp: decimals_ok_def)
  then have "x \<noteq> 0" by (auto simp: is_zero_def)
  then show thesis using that x by (simp add: huge_key_def total_key_zero)
qed

lemma finite_cmp:
  assumes "decimals_ok D" "number_position a = FINITE" "number_position b = FINITE"
  shows "number_cmp D a b
    = then_with (cmp_of (huge_key D a) (huge_key D b)) (option_cmp (decimal_cmp D) (as_decimal D a) (as_decimal D b))"
proof (cases "ordered_fast D a b")
  case fast: (Some z)
  then obtain x y where "as_decimal D a = Some x" "as_decimal D b = Some y" "z = decimal_cmp D x y"
    using assms(1) unfolding decimals_ok_def by blast
  then show ?thesis using assms(2,3) fast by (simp add: number_cmp_def huge_key_def cmp_of_def)
next
  case slow: None
  have eq: "number_cmp D a b = (case (as_decimal D a, as_decimal D b) of
       (Some x, Some y) \<Rightarrow> decimal_cmp D x y
     | (None, Some _) \<Rightarrow> unwrap_equal (sign_of_huge_float a)
     | (Some _, None) \<Rightarrow> flip (unwrap_equal (sign_of_huge_float b))
     | (None, None) \<Rightarrow> (case (a, b) of (Float x, Float y) \<Rightarrow> cmp_of (total_key x) (total_key y) | _ \<Rightarrow> Equal))"
    using slow assms(2,3) by (simp add: number_cmp_def Let_def cmp_of_def)
  have huge: "unwrap_equal (sign_of_huge_float c) = cmp_of (huge_key D c) 0 \<and> huge_key D c \<noteq> 0"
    if "number_position c = FINITE" "as_decimal D c = None" for c
    using huge_keyE [OF assms(1) that(2)] that(1)
    by (metis option.case(2) sign_of_huge_float.simps(1) total_key_zero unwrap_equal_def)
  have among: "huge_key D c = 0" if "as_decimal D c = Some d" for c d
    using that by (simp add: huge_key_def)
  consider (both) x y where "as_decimal D a = Some x" "as_decimal D b = Some y"
    | (above) y where "as_decimal D a = None" "as_decimal D b = Some y"
    | (below) x where "as_decimal D a = Some x" "as_decimal D b = None"
    | (neither) "as_decimal D a = None" "as_decimal D b = None"
    by (cases "as_decimal D a"; cases "as_decimal D b")
  then show ?thesis
  proof cases
    case both
    then show ?thesis using eq among by (simp add: cmp_of_def)
  next
    case above
    then show ?thesis using eq among huge [of a] assms(2) by (auto simp: cmp_of_def)
  next
    case below
    then show ?thesis using eq among huge [of b] assms(3) by (auto simp: cmp_of_def)
  next
    case neither
    from huge_keyE [OF assms(1) this(1)] obtain x where x: "a = Float x" "huge_key D a = total_key x" .
    from huge_keyE [OF assms(1) neither(2)] obtain y where y: "b = Float y" "huge_key D b = total_key y" .
    show ?thesis unfolding eq using neither x y by (simp add: cmp_of_def)
  qed
qed

lemma number_cmp_key:
  assumes "decimals_ok D"
  shows "number_cmp D a b = pair_cmp cmp_of (pair_cmp cmp_of (option_cmp (decimal_cmp D))) (number_key D a) (number_key D b)"
proof (cases "number_position a = FINITE \<and> number_position b = FINITE")
  case True
  then show ?thesis
    using finite_cmp [OF assms] by (simp add: pair_cmp_def number_key_def cmp_of_def [of "_ :: nat"])
next
  case False
  then show ?thesis
    by (auto simp: number_cmp_def Let_def pair_cmp_def number_key_def cmp_of_def)
qed

lemma number_cmp_lawful:
  assumes "decimals_ok D"
  shows "lawful (number_cmp D)"
proof -
  have "lawful (decimal_cmp D)" using assms by (simp add: decimals_ok_def)
  then have "lawful (pair_cmp cmp_of (pair_cmp cmp_of (option_cmp (decimal_cmp D)))
      :: nat \<times> int \<times> decimal option \<Rightarrow> _)"
    by (intro lawful_pair lawful_cmp_of lawful_option)
  from lawful_compose [OF this, of "number_key D"]
  show ?thesis unfolding number_cmp_key [OF assms, abs_def] .
qed

section \<open>Times\<close>

definition NANOS_PER_SECOND :: u32 where "NANOS_PER_SECOND = 1000000000"

record time_pair =
  seconds :: i64
  nanos :: u32

definition time_new :: "i64 \<Rightarrow> u32 \<Rightarrow> time_pair option" where
  "time_new s n = (if NANOS_PER_SECOND \<le> n then None else Some \<lparr>seconds = s, nanos = n\<rparr>)"

definition time_cmp :: "time_pair \<Rightarrow> time_pair \<Rightarrow> ordering" where
  "time_cmp a b = then_with (cmp_of (sint (seconds a)) (sint (seconds b))) (cmp_of (nanos a) (nanos b))"

section \<open>Shapes\<close>

record geo_position =
  longitude :: f64
  latitude :: f64

type_synonym ring = "geo_position list"

record polygon =
  exterior :: ring
  interiors :: "ring list"

datatype geometry =
    Point geo_position
  | Line "geo_position list"
  | PolygonOf polygon
  | MultiPoint "geo_position list"
  | MultiLine "geo_position list list"
  | MultiPolygon "polygon list"
  | Collection "geometry list"

definition position_cmp :: "geo_position \<Rightarrow> geo_position \<Rightarrow> ordering" where
  "position_cmp a b =
    then_with (cmp_of (total_key (longitude a)) (total_key (longitude b)))
      (cmp_of (total_key (latitude a)) (total_key (latitude b)))"

definition polygon_cmp :: "polygon \<Rightarrow> polygon \<Rightarrow> ordering" where
  "polygon_cmp a b =
    then_with (list_cmp position_cmp (exterior a) (exterior b))
      (list_cmp (list_cmp position_cmp) (interiors a) (interiors b))"

fun geometry_rank :: "geometry \<Rightarrow> nat" where
  "geometry_rank (Point _) = 0"
| "geometry_rank (Line _) = 1"
| "geometry_rank (PolygonOf _) = 2"
| "geometry_rank (MultiPoint _) = 3"
| "geometry_rank (MultiLine _) = 4"
| "geometry_rank (MultiPolygon _) = 5"
| "geometry_rank (Collection _) = 6"

function geometry_cmp :: "geometry \<Rightarrow> geometry \<Rightarrow> ordering" where
  "geometry_cmp a b = then_with (cmp_of (geometry_rank a) (geometry_rank b))
    (case a of
       Point p \<Rightarrow> (case b of Point q \<Rightarrow> position_cmp p q | _ \<Rightarrow> Equal)
     | Line ps \<Rightarrow> (case b of Line qs \<Rightarrow> list_cmp position_cmp ps qs | _ \<Rightarrow> Equal)
     | PolygonOf p \<Rightarrow> (case b of PolygonOf q \<Rightarrow> polygon_cmp p q | _ \<Rightarrow> Equal)
     | MultiPoint ps \<Rightarrow> (case b of MultiPoint qs \<Rightarrow> list_cmp position_cmp ps qs | _ \<Rightarrow> Equal)
     | MultiLine ls \<Rightarrow> (case b of MultiLine ms \<Rightarrow> list_cmp (list_cmp position_cmp) ls ms | _ \<Rightarrow> Equal)
     | MultiPolygon ps \<Rightarrow> (case b of MultiPolygon qs \<Rightarrow> list_cmp polygon_cmp ps qs | _ \<Rightarrow> Equal)
     | Collection gs \<Rightarrow> (case b of Collection hs \<Rightarrow> list_cmp geometry_cmp gs hs | _ \<Rightarrow> Equal))"
  by pat_completeness auto
termination
  by (relation "measure (size \<circ> fst)") (auto simp: less_Suc_eq_le size_list_estimation')

declare geometry_cmp.simps [simp del]

lemma position_cmp_lawful: "lawful position_cmp"
  using lawful_compose [OF lawful_pair [OF lawful_cmp_of lawful_cmp_of],
      of "\<lambda>p. (total_key (longitude p), total_key (latitude p))"]
  by (simp add: position_cmp_def [abs_def] pair_cmp_def [abs_def])

lemma polygon_cmp_lawful: "lawful polygon_cmp"
  using lawful_compose [OF lawful_pair [OF lawful_list [OF position_cmp_lawful]
        lawful_list [OF lawful_list [OF position_cmp_lawful]]], of "\<lambda>p. (exterior p, interiors p)"]
  by (simp add: polygon_cmp_def [abs_def] pair_cmp_def [abs_def])

lemmas shape_lawful = position_cmp_lawful polygon_cmp_lawful lawful_list [OF position_cmp_lawful]
  lawful_list [OF lawful_list [OF position_cmp_lawful]] lawful_list [OF polygon_cmp_lawful]

lemmas shape_swaps = shape_lawful [THEN lawfulD(1), unfolded swaps_def]
lemmas shape_chains = shape_lawful [THEN lawfulD(2), unfolded chains_at_def]

definition geometry_inner :: "geometry \<Rightarrow> geometry \<Rightarrow> ordering" where
  "geometry_inner a b =
    (case a of
       Point p \<Rightarrow> (case b of Point q \<Rightarrow> position_cmp p q | _ \<Rightarrow> Equal)
     | Line ps \<Rightarrow> (case b of Line qs \<Rightarrow> list_cmp position_cmp ps qs | _ \<Rightarrow> Equal)
     | PolygonOf p \<Rightarrow> (case b of PolygonOf q \<Rightarrow> polygon_cmp p q | _ \<Rightarrow> Equal)
     | MultiPoint ps \<Rightarrow> (case b of MultiPoint qs \<Rightarrow> list_cmp position_cmp ps qs | _ \<Rightarrow> Equal)
     | MultiLine ls \<Rightarrow> (case b of MultiLine ms \<Rightarrow> list_cmp (list_cmp position_cmp) ls ms | _ \<Rightarrow> Equal)
     | MultiPolygon ps \<Rightarrow> (case b of MultiPolygon qs \<Rightarrow> list_cmp polygon_cmp ps qs | _ \<Rightarrow> Equal)
     | Collection gs \<Rightarrow> (case b of Collection hs \<Rightarrow> list_cmp geometry_cmp gs hs | _ \<Rightarrow> Equal))"

lemma geometry_cmp_ranked:
  "geometry_cmp a b = then_with (cmp_of (geometry_rank a) (geometry_rank b)) (geometry_inner a b)"
  by (simp add: geometry_cmp.simps [of a b] geometry_inner_def)

lemma geometry_same_rank:
  "geometry_rank (Point p) = geometry_rank b \<longleftrightarrow> (\<exists>q. b = Point q)"
  "geometry_rank (Line ps) = geometry_rank b \<longleftrightarrow> (\<exists>qs. b = Line qs)"
  "geometry_rank (PolygonOf po) = geometry_rank b \<longleftrightarrow> (\<exists>q. b = PolygonOf q)"
  "geometry_rank (MultiPoint ps) = geometry_rank b \<longleftrightarrow> (\<exists>qs. b = MultiPoint qs)"
  "geometry_rank (MultiLine ls) = geometry_rank b \<longleftrightarrow> (\<exists>ms. b = MultiLine ms)"
  "geometry_rank (MultiPolygon pos) = geometry_rank b \<longleftrightarrow> (\<exists>qs. b = MultiPolygon qs)"
  "geometry_rank (Collection gs) = geometry_rank b \<longleftrightarrow> (\<exists>hs. b = Collection hs)"
  by (cases b; simp)+

lemma geometry_rank_same:
  "geometry_rank b = geometry_rank (Point p) \<longleftrightarrow> (\<exists>q. b = Point q)"
  "geometry_rank b = geometry_rank (Line ps) \<longleftrightarrow> (\<exists>qs. b = Line qs)"
  "geometry_rank b = geometry_rank (PolygonOf po) \<longleftrightarrow> (\<exists>q. b = PolygonOf q)"
  "geometry_rank b = geometry_rank (MultiPoint ps) \<longleftrightarrow> (\<exists>qs. b = MultiPoint qs)"
  "geometry_rank b = geometry_rank (MultiLine ls) \<longleftrightarrow> (\<exists>ms. b = MultiLine ms)"
  "geometry_rank b = geometry_rank (MultiPolygon pos) \<longleftrightarrow> (\<exists>qs. b = MultiPolygon qs)"
  "geometry_rank b = geometry_rank (Collection gs) \<longleftrightarrow> (\<exists>hs. b = Collection hs)"
  by (cases b; simp)+

lemma geometry_laws: "swaps geometry_cmp a b \<and> chains_at geometry_cmp a b c"
proof (induction a arbitrary: b c)
  case (Collection gs)
  then have g: "swaps (list_cmp geometry_cmp) gs hs" "chains_at (list_cmp geometry_cmp) gs hs ks" for hs ks
    by (intro swaps_list chains_list; blast)+
  show ?case
  proof (intro conjI swaps_ranked [OF geometry_cmp_ranked] chains_ranked [OF geometry_cmp_ranked])
    show "swaps geometry_inner (Collection gs) b" if "geometry_rank (Collection gs) = geometry_rank b"
      using that g(1) by (auto simp: geometry_same_rank geometry_inner_def swaps_def simp del: geometry_rank.simps)
    show "chains_at geometry_inner (Collection gs) b c"
      if "geometry_rank (Collection gs) = geometry_rank b" "geometry_rank (Collection gs) = geometry_rank c"
      using that g(2) unfolding geometry_same_rank by (auto simp: geometry_inner_def chains_at_def)
  qed
qed (intro conjI swaps_ranked [OF geometry_cmp_ranked] chains_ranked [OF geometry_cmp_ranked];
     auto simp: geometry_same_rank geometry_rank_same geometry_inner_def swaps_def chains_at_def shape_chains
     simp del: geometry_rank.simps intro: shape_swaps)+

lemma geometry_lawful: "lawful geometry_cmp"
  using geometry_laws by (simp add: lawful_def)

section \<open>Values\<close>

text \<open>An object is the list of its fields in the order of their names, and a set the list
of its elements in the order of values.\<close>

datatype 'a value_bound = OpenEnd | IncludedEnd 'a | ExcludedEnd 'a

datatype tvalue =
    VNone
  | VNull
  | VBool bool
  | VNumber number
  | VString bytes
  | VBytes bytes
  | VDuration time_pair
  | VDatetime time_pair
  | VUuid bytes
  | VTable table_id
  | VRecord table_id record_id
  | VArray "tvalue list"
  | VObject "(bytes \<times> tvalue) list"
  | VRange "tvalue value_bound" "tvalue value_bound"
  | VSet "tvalue list"
  | VGeometry geometry
  | VRegex bytes

fun value_rank :: "tvalue \<Rightarrow> nat" where
  "value_rank VNone = 0"
| "value_rank VNull = 1"
| "value_rank (VBool _) = 2"
| "value_rank (VNumber _) = 3"
| "value_rank (VString _) = 4"
| "value_rank (VBytes _) = 5"
| "value_rank (VDuration _) = 6"
| "value_rank (VDatetime _) = 7"
| "value_rank (VUuid _) = 8"
| "value_rank (VTable _) = 9"
| "value_rank (VRecord _ _) = 10"
| "value_rank (VArray _) = 11"
| "value_rank (VObject _) = 12"
| "value_rank (VRange _ _) = 13"
| "value_rank (VSet _) = 14"
| "value_rank (VGeometry _) = 15"
| "value_rank (VRegex _) = 16"

fun endpoint :: "'a value_bound \<Rightarrow> nat \<times> 'a option" where
  "endpoint OpenEnd = (0, None)"
| "endpoint (IncludedEnd v) = (1, Some v)"
| "endpoint (ExcludedEnd v) = (2, Some v)"

definition bound_cmp :: "('a \<Rightarrow> 'a \<Rightarrow> ordering) \<Rightarrow> 'a value_bound \<Rightarrow> 'a value_bound \<Rightarrow> ordering" where
  "bound_cmp f a b = pair_cmp cmp_of (option_cmp f) (endpoint a) (endpoint b)"

lemma endpoint_Some: "snd (endpoint a) = Some x \<Longrightarrow> x \<in> set_value_bound a"
  by (cases a) simp_all

lemma bound_cmp_cong [fundef_cong]:
  assumes "a = a'" "b = b'" "\<And>x y. x \<in> set_value_bound a' \<Longrightarrow> y \<in> set_value_bound b' \<Longrightarrow> f x y = g x y"
  shows "bound_cmp f a b = bound_cmp g a' b'"
  using assms by (cases a'; cases b') (simp_all add: bound_cmp_def pair_cmp_def)

lemma size_value_bound: "x \<in> set_value_bound a \<Longrightarrow> f x < Suc (size_value_bound f a)"
  by (cases a) simp_all

function value_cmp :: "decimals \<Rightarrow> tvalue \<Rightarrow> tvalue \<Rightarrow> ordering" where
  "value_cmp D a b = then_with (cmp_of (value_rank a) (value_rank b))
    (case a of
       VBool x \<Rightarrow> (case b of VBool y \<Rightarrow> cmp_of x y | _ \<Rightarrow> Equal)
     | VNumber x \<Rightarrow> (case b of VNumber y \<Rightarrow> number_cmp D x y | _ \<Rightarrow> Equal)
     | VString x \<Rightarrow> (case b of VString y \<Rightarrow> cmp_of x y | _ \<Rightarrow> Equal)
     | VBytes x \<Rightarrow> (case b of VBytes y \<Rightarrow> cmp_of x y | _ \<Rightarrow> Equal)
     | VDuration x \<Rightarrow> (case b of VDuration y \<Rightarrow> time_cmp x y | _ \<Rightarrow> Equal)
     | VDatetime x \<Rightarrow> (case b of VDatetime y \<Rightarrow> time_cmp x y | _ \<Rightarrow> Equal)
     | VUuid x \<Rightarrow> (case b of VUuid y \<Rightarrow> cmp_of x y | _ \<Rightarrow> Equal)
     | VTable x \<Rightarrow> (case b of VTable y \<Rightarrow> cmp_of x y | _ \<Rightarrow> Equal)
     | VRecord x i \<Rightarrow> (case b of VRecord y j \<Rightarrow> then_with (cmp_of x y) (cmp_of i j) | _ \<Rightarrow> Equal)
     | VArray xs \<Rightarrow> (case b of VArray ys \<Rightarrow> list_cmp (value_cmp D) xs ys | _ \<Rightarrow> Equal)
     | VObject fs \<Rightarrow> (case b of VObject gs \<Rightarrow> list_cmp (pair_cmp cmp_of (value_cmp D)) fs gs | _ \<Rightarrow> Equal)
     | VRange s e \<Rightarrow>
         (case b of VRange s' e' \<Rightarrow> then_with (bound_cmp (value_cmp D) s s') (bound_cmp (value_cmp D) e e')
          | _ \<Rightarrow> Equal)
     | VSet xs \<Rightarrow> (case b of VSet ys \<Rightarrow> list_cmp (value_cmp D) xs ys | _ \<Rightarrow> Equal)
     | VGeometry g \<Rightarrow> (case b of VGeometry h \<Rightarrow> geometry_cmp g h | _ \<Rightarrow> Equal)
     | VRegex x \<Rightarrow> (case b of VRegex y \<Rightarrow> cmp_of x y | _ \<Rightarrow> Equal)
     | _ \<Rightarrow> Equal)"
  by pat_completeness auto
termination
  by (relation "measure (\<lambda>(_, a, _). size a)")
    (auto dest: size_value_bound [where f = size] simp: less_Suc_eq_le intro!: size_list_estimation')

declare value_cmp.simps [simp del]

definition value_inner :: "decimals \<Rightarrow> tvalue \<Rightarrow> tvalue \<Rightarrow> ordering" where
  "value_inner D a b = (case a of
       VBool x \<Rightarrow> (case b of VBool y \<Rightarrow> cmp_of x y | _ \<Rightarrow> Equal)
     | VNumber x \<Rightarrow> (case b of VNumber y \<Rightarrow> number_cmp D x y | _ \<Rightarrow> Equal)
     | VString x \<Rightarrow> (case b of VString y \<Rightarrow> cmp_of x y | _ \<Rightarrow> Equal)
     | VBytes x \<Rightarrow> (case b of VBytes y \<Rightarrow> cmp_of x y | _ \<Rightarrow> Equal)
     | VDuration x \<Rightarrow> (case b of VDuration y \<Rightarrow> time_cmp x y | _ \<Rightarrow> Equal)
     | VDatetime x \<Rightarrow> (case b of VDatetime y \<Rightarrow> time_cmp x y | _ \<Rightarrow> Equal)
     | VUuid x \<Rightarrow> (case b of VUuid y \<Rightarrow> cmp_of x y | _ \<Rightarrow> Equal)
     | VTable x \<Rightarrow> (case b of VTable y \<Rightarrow> cmp_of x y | _ \<Rightarrow> Equal)
     | VRecord x i \<Rightarrow> (case b of VRecord y j \<Rightarrow> then_with (cmp_of x y) (cmp_of i j) | _ \<Rightarrow> Equal)
     | VArray xs \<Rightarrow> (case b of VArray ys \<Rightarrow> list_cmp (value_cmp D) xs ys | _ \<Rightarrow> Equal)
     | VObject fs \<Rightarrow> (case b of VObject gs \<Rightarrow> list_cmp (pair_cmp cmp_of (value_cmp D)) fs gs | _ \<Rightarrow> Equal)
     | VRange s e \<Rightarrow>
         (case b of VRange s' e' \<Rightarrow> then_with (bound_cmp (value_cmp D) s s') (bound_cmp (value_cmp D) e e')
          | _ \<Rightarrow> Equal)
     | VSet xs \<Rightarrow> (case b of VSet ys \<Rightarrow> list_cmp (value_cmp D) xs ys | _ \<Rightarrow> Equal)
     | VGeometry g \<Rightarrow> (case b of VGeometry h \<Rightarrow> geometry_cmp g h | _ \<Rightarrow> Equal)
     | VRegex x \<Rightarrow> (case b of VRegex y \<Rightarrow> cmp_of x y | _ \<Rightarrow> Equal)
     | _ \<Rightarrow> Equal)"

lemma value_cmp_ranked:
  "value_cmp D a b = then_with (cmp_of (value_rank a) (value_rank b)) (value_inner D a b)"
  by (simp add: value_cmp.simps [of D a b] value_inner_def)

lemma value_same_rank:
  "value_rank VNone = value_rank b \<longleftrightarrow> b = VNone"
  "value_rank VNull = value_rank b \<longleftrightarrow> b = VNull"
  "value_rank (VBool a3) = value_rank b \<longleftrightarrow> (\<exists>a3'. b = VBool a3')"
  "value_rank (VNumber a4) = value_rank b \<longleftrightarrow> (\<exists>a4'. b = VNumber a4')"
  "value_rank (VString a5) = value_rank b \<longleftrightarrow> (\<exists>a5'. b = VString a5')"
  "value_rank (VBytes a6) = value_rank b \<longleftrightarrow> (\<exists>a6'. b = VBytes a6')"
  "value_rank (VDuration a7) = value_rank b \<longleftrightarrow> (\<exists>a7'. b = VDuration a7')"
  "value_rank (VDatetime a8) = value_rank b \<longleftrightarrow> (\<exists>a8'. b = VDatetime a8')"
  "value_rank (VUuid a9) = value_rank b \<longleftrightarrow> (\<exists>a9'. b = VUuid a9')"
  "value_rank (VTable a10) = value_rank b \<longleftrightarrow> (\<exists>a10'. b = VTable a10')"
  "value_rank (VRecord a11 b11) = value_rank b \<longleftrightarrow> (\<exists>a11' b11'. b = VRecord a11' b11')"
  "value_rank (VArray a12) = value_rank b \<longleftrightarrow> (\<exists>a12'. b = VArray a12')"
  "value_rank (VObject a13) = value_rank b \<longleftrightarrow> (\<exists>a13'. b = VObject a13')"
  "value_rank (VRange a14 b14) = value_rank b \<longleftrightarrow> (\<exists>a14' b14'. b = VRange a14' b14')"
  "value_rank (VSet a15) = value_rank b \<longleftrightarrow> (\<exists>a15'. b = VSet a15')"
  "value_rank (VGeometry a16) = value_rank b \<longleftrightarrow> (\<exists>a16'. b = VGeometry a16')"
  "value_rank (VRegex a17) = value_rank b \<longleftrightarrow> (\<exists>a17'. b = VRegex a17')"
  by (cases b; simp)+

lemma time_cmp_lawful: "lawful time_cmp"
  using lawful_compose [OF lawful_pair [OF lawful_cmp_of lawful_cmp_of], of "\<lambda>p. (sint (seconds p), nanos p)"]
  by (simp add: time_cmp_def [abs_def] pair_cmp_def [abs_def])

lemma swaps_bound:
  assumes "\<And>x y. x \<in> set_value_bound a \<Longrightarrow> swaps f x y"
  shows "swaps (bound_cmp f) a b"
proof -
  have "swaps (pair_cmp cmp_of (option_cmp f)) (endpoint a) (endpoint b)"
    by (intro swaps_pair swaps_cmp_of swaps_option) (rule assms, erule endpoint_Some)
  then show ?thesis unfolding swaps_def bound_cmp_def .
qed

lemma chains_bound:
  assumes "\<And>x y z. x \<in> set_value_bound a \<Longrightarrow> chains_at f x y z"
  shows "chains_at (bound_cmp f) a b c"
proof -
  have "chains_at (pair_cmp cmp_of (option_cmp f)) (endpoint a) (endpoint b) (endpoint c)"
    by (intro chains_pair chains_cmp_of chains_option) (rule assms, erule endpoint_Some)
  then show ?thesis unfolding chains_at_def bound_cmp_def .
qed

lemma value_swaps_case:
  assumes "value_rank a = value_rank b \<Longrightarrow> swaps (value_inner D) a b"
  shows "swaps (value_cmp D) a b"
  using value_cmp_ranked assms by (rule swaps_ranked)

lemma value_chains_case:
  assumes "value_rank a = value_rank b \<Longrightarrow> value_rank a = value_rank c \<Longrightarrow> chains_at (value_inner D) a b c"
  shows "chains_at (value_cmp D) a b c"
  using value_cmp_ranked assms by (rule chains_ranked)

lemma value_swaps:
  assumes "decimals_ok D"
  shows "swaps (value_cmp D) a b"
proof (induction a arbitrary: b)
  case (VArray xs b)
  then have "swaps (list_cmp (value_cmp D)) xs ys" for ys by (intro swaps_list) blast
  then show ?case by (intro value_swaps_case) (auto simp: value_same_rank value_inner_def swaps_def simp del: value_rank.simps)
next
  case (VSet xs b)
  then have "swaps (list_cmp (value_cmp D)) xs ys" for ys by (intro swaps_list) blast
  then show ?case by (intro value_swaps_case) (auto simp: value_same_rank value_inner_def swaps_def simp del: value_rank.simps)
next
  case (VObject fs b)
  then have "swaps (pair_cmp cmp_of (value_cmp D)) p q" if "p \<in> set fs" for p q
    using that by (intro swaps_pair swaps_cmp_of) (auto simp: prod_set_defs)
  then have "swaps (list_cmp (pair_cmp cmp_of (value_cmp D))) fs gs" for gs by (intro swaps_list) blast
  then show ?case by (intro value_swaps_case) (auto simp: value_same_rank value_inner_def swaps_def simp del: value_rank.simps)
next
  case (VRange s e b)
  then have "swaps (bound_cmp (value_cmp D)) s s'" "swaps (bound_cmp (value_cmp D)) e e'" for s' e'
    by (intro swaps_bound; blast)+
  then show ?case by (intro value_swaps_case) (auto simp: value_same_rank value_inner_def swaps_def simp del: value_rank.simps)
qed (intro value_swaps_case;
     auto simp: value_same_rank value_inner_def swaps_def simp del: value_rank.simps
     intro: lawfulD(1) [OF number_cmp_lawful [OF assms], unfolded swaps_def]
       swaps_cmp_of [unfolded swaps_def] lawfulD(1) [OF time_cmp_lawful, unfolded swaps_def]
       lawfulD(1) [OF geometry_lawful, unfolded swaps_def])+

lemma value_chains:
  assumes "decimals_ok D"
  shows "chains_at (value_cmp D) a b c"
proof (induction a arbitrary: b c)
  case (VArray xs b c)
  then have "chains_at (list_cmp (value_cmp D)) xs ys zs" for ys zs by (intro chains_list) blast
  then show ?case
    by (intro value_chains_case)
      (unfold value_same_rank, auto simp: value_inner_def chains_at_def)
next
  case (VSet xs b c)
  then have "chains_at (list_cmp (value_cmp D)) xs ys zs" for ys zs by (intro chains_list) blast
  then show ?case
    by (intro value_chains_case)
      (unfold value_same_rank, auto simp: value_inner_def chains_at_def)
next
  case (VObject fs b c)
  then have "chains_at (pair_cmp cmp_of (value_cmp D)) p q r" if "p \<in> set fs" for p q r
    using that by (intro chains_pair chains_cmp_of) (auto simp: prod_set_defs)
  then have "chains_at (list_cmp (pair_cmp cmp_of (value_cmp D))) fs gs hs" for gs hs
    by (intro chains_list) blast
  then show ?case
    by (intro value_chains_case)
      (unfold value_same_rank, auto simp: value_inner_def chains_at_def)
next
  case (VRange s e b c)
  then have "chains_at (bound_cmp (value_cmp D)) s s' s''" "chains_at (bound_cmp (value_cmp D)) e e' e''"
    for s' e' s'' e''
    by (intro chains_bound; blast)+
  then show ?case
    by (intro value_chains_case)
      (unfold value_same_rank, auto simp: value_inner_def chains_at_def chained_then)
next
  case (VRecord x i b c)
  show ?case
    by (intro value_chains_case)
      (unfold value_same_rank,
       auto simp: value_inner_def chains_at_def chained_then chains_cmp_of [unfolded chains_at_def])
qed (intro value_chains_case; unfold value_same_rank;
     auto simp: value_inner_def chains_at_def chained_def [of Equal]
       lawfulD(2) [OF number_cmp_lawful [OF assms], unfolded chains_at_def]
       chains_cmp_of [unfolded chains_at_def] lawfulD(2) [OF time_cmp_lawful, unfolded chains_at_def]
       lawfulD(2) [OF geometry_lawful, unfolded chains_at_def])+

lemma value_lawful: "decimals_ok D \<Longrightarrow> lawful (value_cmp D)"
  by (rule lawfulI) (simp_all add: value_swaps value_chains)

section \<open>How deep a value nests\<close>

definition MAX_NESTING :: nat where "MAX_NESTING = 64"

fun is_container :: "tvalue \<Rightarrow> bool" where
  "is_container (VArray _) = True"
| "is_container (VSet _) = True"
| "is_container (VObject _) = True"
| "is_container (VRange _ _) = True"
| "is_container (VGeometry (Collection _)) = True"
| "is_container _ = False"

fun shape_deeper_than :: "nat \<Rightarrow> geometry \<Rightarrow> bool" where
  "shape_deeper_than 0 g \<longleftrightarrow> (case g of Collection _ \<Rightarrow> True | _ \<Rightarrow> False)"
| "shape_deeper_than (Suc inner) g \<longleftrightarrow>
    (case g of Collection gs \<Rightarrow> list_ex (shape_deeper_than inner) gs | _ \<Rightarrow> False)"

fun bound_any :: "('a \<Rightarrow> bool) \<Rightarrow> 'a value_bound \<Rightarrow> bool" where
  "bound_any P OpenEnd = False"
| "bound_any P (IncludedEnd v) = P v"
| "bound_any P (ExcludedEnd v) = P v"

fun nests_deeper_than :: "nat \<Rightarrow> tvalue \<Rightarrow> bool" where
  "nests_deeper_than 0 v \<longleftrightarrow> is_container v"
| "nests_deeper_than (Suc inner) v \<longleftrightarrow>
    (case v of
       VArray items \<Rightarrow> list_ex (nests_deeper_than inner) items
     | VSet items \<Rightarrow> list_ex (nests_deeper_than inner) items
     | VObject flds \<Rightarrow> list_ex (\<lambda>f. nests_deeper_than inner (snd f)) flds
     | VRange s e \<Rightarrow> bound_any (nests_deeper_than inner) s \<or> bound_any (nests_deeper_than inner) e
     | VGeometry g \<Rightarrow> shape_deeper_than (Suc inner) g
     | _ \<Rightarrow> False)"

end
