(* ===== verification/Payload.thy ===== *)
theory Payload
  imports Value_Order Ordered_Map
begin

text \<open>The byte form of a value (payload.rs, payload/scalars.rs and payload/shapes.rs of
tessari-encoding): every value starts with its type, a container with the number
of what it holds.  The reader counts the containers it is inside and refuses past
the ceiling, so its recursion is bounded by the depth and not by the bytes; a loop
over a written count is a recursion on the count.\<close>

section \<open>Numbers, times and bytes\<close>

definition NONE_TAG :: u8 where "NONE_TAG = 0x01"
definition NULL_TAG :: u8 where "NULL_TAG = 0x02"
definition BOOL_TAG :: u8 where "BOOL_TAG = 0x03"
definition NUMBER_TAG :: u8 where "NUMBER_TAG = 0x04"
definition STRING_TAG :: u8 where "STRING_TAG = 0x05"
definition BYTES_TAG :: u8 where "BYTES_TAG = 0x06"
definition DURATION_TAG :: u8 where "DURATION_TAG = 0x07"
definition DATETIME_TAG :: u8 where "DATETIME_TAG = 0x08"
definition UUID_TAG :: u8 where "UUID_TAG = 0x09"
definition TABLE_TAG :: u8 where "TABLE_TAG = 0x0a"
definition RECORD_TAG :: u8 where "RECORD_TAG = 0x0b"
definition ARRAY_TAG :: u8 where "ARRAY_TAG = 0x0c"
definition OBJECT_TAG :: u8 where "OBJECT_TAG = 0x0d"
definition RANGE_TAG :: u8 where "RANGE_TAG = 0x0e"
definition SET_TAG :: u8 where "SET_TAG = 0x0f"
definition GEOMETRY_TAG :: u8 where "GEOMETRY_TAG = 0x10"
definition REGEX_TAG :: u8 where "REGEX_TAG = 0x11"

lemmas value_tags = NONE_TAG_def NULL_TAG_def BOOL_TAG_def NUMBER_TAG_def STRING_TAG_def
  BYTES_TAG_def DURATION_TAG_def DATETIME_TAG_def UUID_TAG_def TABLE_TAG_def RECORD_TAG_def
  ARRAY_TAG_def OBJECT_TAG_def RANGE_TAG_def SET_TAG_def GEOMETRY_TAG_def REGEX_TAG_def

definition INTEGER_KIND :: u8 where "INTEGER_KIND = 0x01"
definition FLOAT_KIND :: u8 where "FLOAT_KIND = 0x02"
definition DECIMAL_KIND :: u8 where "DECIMAL_KIND = 0x03"
definition UNBOUNDED_KIND :: u8 where "UNBOUNDED_KIND = 0x01"
definition INCLUDED_KIND :: u8 where "INCLUDED_KIND = 0x02"
definition EXCLUDED_KIND :: u8 where "EXCLUDED_KIND = 0x03"

lemmas scalar_tags = INTEGER_KIND_def FLOAT_KIND_def DECIMAL_KIND_def UNBOUNDED_KIND_def
  INCLUDED_KIND_def EXCLUDED_KIND_def

definition u128_bytes :: "i128 \<Rightarrow> bytes" where
  "u128_bytes v = be_bytes 16 (unat v)"

definition u128_value :: "bytes \<Rightarrow> i128" where
  "u128_value bs = word_of_nat (be_value bs)"

definition count_of :: "nat \<Rightarrow> u32" where
  "count_of n = (if n < 2 ^ 32 then word_of_nat n else - 1)"

fun put_number :: "number \<Rightarrow> key_writer \<Rightarrow> key_writer" where
  "put_number (Integer i) w = put_i64 i (put_u8 INTEGER_KIND w)"
| "put_number (Float x) w = put_fixed (u64_bytes x) (put_u8 FLOAT_KIND w)"
| "put_number (Decimal d) w =
    put_u32 (scale d) (put_fixed (u128_bytes (mantissa d)) (put_u8 DECIMAL_KIND w))"

definition take_number :: "decimals \<Rightarrow> key_reader \<Rightarrow> enc_error + number \<times> key_reader" where
  "take_number D r =
    bindR (take_u8 r) (\<lambda>(t, r).
      if t = INTEGER_KIND then bindR (take_i64 r) (\<lambda>(i, r). Inr (Integer i, r))
      else if t = FLOAT_KIND then
        bindR (take_fixed 8 r) (\<lambda>(bs, r). Inr (number_float (u64_value bs), r))
      else if t = DECIMAL_KIND then
        bindR (take_fixed 16 r) (\<lambda>(bs, r).
        bindR (take_u32 r) (\<lambda>(sc, r).
          if accepts_decimal D (u128_value bs) sc
          then Inr (Decimal \<lparr>mantissa = u128_value bs, scale = sc\<rparr>, r)
          else Inl (InvalidDecimal (sint (u128_value bs)) sc)))
      else Inl (UnknownValueTag t))"

definition put_time :: "time_pair \<Rightarrow> key_writer \<Rightarrow> key_writer" where
  "put_time t w = put_u32 (nanos t) (put_i64 (seconds t) w)"

definition take_time :: "key_reader \<Rightarrow> enc_error + (i64 \<times> u32) \<times> key_reader" where
  "take_time r = bindR (take_i64 r) (\<lambda>(s, r). bindR (take_u32 r) (\<lambda>(n, r). Inr ((s, n), r)))"

definition put_bytes :: "bytes \<Rightarrow> key_writer \<Rightarrow> key_writer" where
  "put_bytes bs w = put_fixed bs (put_u32 (count_of (length bs)) w)"

definition take_bytes :: "key_reader \<Rightarrow> enc_error + bytes \<times> key_reader" where
  "take_bytes r = bindR (take_u32 r) (\<lambda>(len, r). take_exact (unat len) r)"

text \<open>The body of a loop \<^verbatim>\<open>for _ in 0..count\<close> that reads an element and puts it with
what it has.\<close>

fun take_each ::
  "nat \<Rightarrow> (key_reader \<Rightarrow> enc_error + 'a \<times> key_reader) \<Rightarrow> ('a \<Rightarrow> 'b \<Rightarrow> 'b) \<Rightarrow> 'b \<Rightarrow> key_reader
    \<Rightarrow> enc_error + 'b \<times> key_reader" where
  "take_each 0 f put acc r = Inr (acc, r)"
| "take_each (Suc n) f put acc r = bindR (f r) (\<lambda>(x, r). take_each n f put (put x acc) r)"

definition push_back :: "'a \<Rightarrow> 'a list \<Rightarrow> 'a list" where
  "push_back x xs = xs @ [x]"

definition take_list ::
  "(key_reader \<Rightarrow> enc_error + 'a \<times> key_reader) \<Rightarrow> key_reader \<Rightarrow> enc_error + 'a list \<times> key_reader" where
  "take_list f r = bindR (take_u32 r) (\<lambda>(count, r). take_each (unat count) f push_back [] r)"

definition put_list :: "('a \<Rightarrow> key_writer \<Rightarrow> key_writer) \<Rightarrow> 'a list \<Rightarrow> key_writer \<Rightarrow> key_writer" where
  "put_list f xs w = foldl (\<lambda>w x. f x w) (put_u32 (count_of (length xs)) w) xs"

definition deeper :: "nat \<Rightarrow> enc_error + nat" where
  "deeper depth =
    (let inside = depth + 1 in if MAX_NESTING < inside then Inl (NestedTooDeep MAX_NESTING) else Inr inside)"

lemma take_each_cong [fundef_cong]:
  assumes "n = n'" "acc = acc'" "r = r'" "put = put'" "\<And>x. f x = g x"
  shows "take_each n f put acc r = take_each n' g put' acc' r'"
proof -
  have "f = g" using assms(5) by blast
  then show ?thesis using assms by simp
qed

lemma take_list_cong [fundef_cong]:
  assumes "r = r'" "\<And>x. f x = g x"
  shows "take_list f r = take_list g r'"
proof -
  have "f = g" using assms(2) by blast
  then show ?thesis using assms by simp
qed

section \<open>Shapes\<close>

definition POINT_SHAPE :: u8 where "POINT_SHAPE = 0x01"
definition LINE_SHAPE :: u8 where "LINE_SHAPE = 0x02"
definition POLYGON_SHAPE :: u8 where "POLYGON_SHAPE = 0x03"
definition MULTI_POINT_SHAPE :: u8 where "MULTI_POINT_SHAPE = 0x04"
definition MULTI_LINE_SHAPE :: u8 where "MULTI_LINE_SHAPE = 0x05"
definition MULTI_POLYGON_SHAPE :: u8 where "MULTI_POLYGON_SHAPE = 0x06"
definition COLLECTION_SHAPE :: u8 where "COLLECTION_SHAPE = 0x07"

lemmas shape_tags = POINT_SHAPE_def LINE_SHAPE_def POLYGON_SHAPE_def MULTI_POINT_SHAPE_def
  MULTI_LINE_SHAPE_def MULTI_POLYGON_SHAPE_def COLLECTION_SHAPE_def

definition put_position :: "geo_position \<Rightarrow> key_writer \<Rightarrow> key_writer" where
  "put_position p w = put_fixed (u64_bytes (latitude p)) (put_fixed (u64_bytes (longitude p)) w)"

definition take_position :: "key_reader \<Rightarrow> enc_error + geo_position \<times> key_reader" where
  "take_position r =
    bindR (take_fixed 8 r) (\<lambda>(lon, r).
    bindR (take_fixed 8 r) (\<lambda>(lat, r).
      Inr (\<lparr>longitude = u64_value lon, latitude = u64_value lat\<rparr>, r)))"

definition put_positions :: "geo_position list \<Rightarrow> key_writer \<Rightarrow> key_writer" where
  "put_positions = put_list put_position"

definition take_positions :: "key_reader \<Rightarrow> enc_error + geo_position list \<times> key_reader" where
  "take_positions = take_list take_position"

definition put_polygon :: "polygon \<Rightarrow> key_writer \<Rightarrow> key_writer" where
  "put_polygon p w = put_list put_positions (interiors p) (put_positions (exterior p) w)"

definition take_polygon :: "key_reader \<Rightarrow> enc_error + polygon \<times> key_reader" where
  "take_polygon r =
    bindR (take_positions r) (\<lambda>(ext, r).
    bindR (take_list take_positions r) (\<lambda>(ints, r). Inr (\<lparr>exterior = ext, interiors = ints\<rparr>, r)))"

lemma put_list_cong [fundef_cong]:
  assumes "xs = xs'" "w = w'" "\<And>x w. x \<in> set xs' \<Longrightarrow> f x w = g x w"
  shows "put_list f xs w = put_list g xs' w'"
  unfolding put_list_def using assms by (intro foldl_cong) simp_all

fun put_geometry :: "geometry \<Rightarrow> key_writer \<Rightarrow> key_writer" where
  "put_geometry (Point p) w = put_position p (put_u8 POINT_SHAPE w)"
| "put_geometry (Line ps) w = put_positions ps (put_u8 LINE_SHAPE w)"
| "put_geometry (PolygonOf p) w = put_polygon p (put_u8 POLYGON_SHAPE w)"
| "put_geometry (MultiPoint ps) w = put_positions ps (put_u8 MULTI_POINT_SHAPE w)"
| "put_geometry (MultiLine ls) w = put_list put_positions ls (put_u8 MULTI_LINE_SHAPE w)"
| "put_geometry (MultiPolygon ps) w = put_list put_polygon ps (put_u8 MULTI_POLYGON_SHAPE w)"
| "put_geometry (Collection gs) w = put_list put_geometry gs (put_u8 COLLECTION_SHAPE w)"

function take_geometry :: "nat \<Rightarrow> key_reader \<Rightarrow> enc_error + geometry \<times> key_reader" where
  "take_geometry depth r =
    bindR (take_u8 r) (\<lambda>(t, r).
      if t = POINT_SHAPE then bindR (take_position r) (\<lambda>(p, r). Inr (Point p, r))
      else if t = LINE_SHAPE then bindR (take_positions r) (\<lambda>(ps, r). Inr (Line ps, r))
      else if t = POLYGON_SHAPE then bindR (take_polygon r) (\<lambda>(p, r). Inr (PolygonOf p, r))
      else if t = MULTI_POINT_SHAPE then bindR (take_positions r) (\<lambda>(ps, r). Inr (MultiPoint ps, r))
      else if t = MULTI_LINE_SHAPE then bindR (take_list take_positions r) (\<lambda>(ls, r). Inr (MultiLine ls, r))
      else if t = MULTI_POLYGON_SHAPE then bindR (take_list take_polygon r) (\<lambda>(ps, r). Inr (MultiPolygon ps, r))
      else if t = COLLECTION_SHAPE then
        (case deeper depth of
           Inl e \<Rightarrow> Inl e
         | Inr inside \<Rightarrow> bindR (take_list (take_geometry inside) r) (\<lambda>(gs, r). Inr (Collection gs, r)))
      else Inl (UnknownValueTag t))"
  by pat_completeness auto

lemma deeper_Inr: "deeper d = Inr d' \<longleftrightarrow> d' = d + 1 \<and> d < MAX_NESTING"
  by (auto simp: deeper_def Let_def)

lemma bindR_cong [fundef_cong]:
  assumes "r = r'" "\<And>a. r' = Inr a \<Longrightarrow> f a = g a"
  shows "bindR r f = bindR r' g"
  using assms by (cases r') simp_all

termination take_geometry
  by (relation "measure (\<lambda>(d, _). MAX_NESTING - d)") (auto simp: deeper_Inr)

declare take_geometry.simps [simp del]

section \<open>Values\<close>

fun put_bound :: "('a \<Rightarrow> key_writer \<Rightarrow> key_writer) \<Rightarrow> 'a value_bound \<Rightarrow> key_writer \<Rightarrow> key_writer" where
  "put_bound f OpenEnd w = put_u8 UNBOUNDED_KIND w"
| "put_bound f (IncludedEnd v) w = f v (put_u8 INCLUDED_KIND w)"
| "put_bound f (ExcludedEnd v) w = f v (put_u8 EXCLUDED_KIND w)"

lemma put_bound_cong [fundef_cong]:
  assumes "a = a'" "w = w'" "\<And>x w. x \<in> set_value_bound a' \<Longrightarrow> f x w = g x w"
  shows "put_bound f a w = put_bound g a' w'"
  using assms by (cases a') simp_all

lemma size_in_bound [termination_simp]:
  "x \<in> set_value_bound a \<Longrightarrow> size x < Suc (size_value_bound size a + n)"
  "x \<in> set_value_bound a \<Longrightarrow> size x < Suc (n + size_value_bound size a)"
  by (cases a; simp)+

fun put_value :: "tvalue \<Rightarrow> key_writer \<Rightarrow> key_writer" where
  "put_value VNone w = put_u8 NONE_TAG w"
| "put_value VNull w = put_u8 NULL_TAG w"
| "put_value (VBool b) w = put_u8 (if b then 1 else 0) (put_u8 BOOL_TAG w)"
| "put_value (VNumber n) w = put_number n (put_u8 NUMBER_TAG w)"
| "put_value (VString s) w = put_bytes s (put_u8 STRING_TAG w)"
| "put_value (VBytes s) w = put_bytes s (put_u8 BYTES_TAG w)"
| "put_value (VDuration t) w = put_time t (put_u8 DURATION_TAG w)"
| "put_value (VDatetime t) w = put_time t (put_u8 DATETIME_TAG w)"
| "put_value (VUuid u) w = put_fixed u (put_u8 UUID_TAG w)"
| "put_value (VTable t) w = put_u32 t (put_u8 TABLE_TAG w)"
| "put_value (VRecord t i) w = put_record_id i (put_u32 t (put_u8 RECORD_TAG w))"
| "put_value (VArray vs) w = put_list put_value vs (put_u8 ARRAY_TAG w)"
| "put_value (VObject fs) w = put_list (\<lambda>f w. put_value (snd f) (put_bytes (fst f) w)) fs (put_u8 OBJECT_TAG w)"
| "put_value (VRange s e) w = put_bound put_value e (put_bound put_value s (put_u8 RANGE_TAG w))"
| "put_value (VSet vs) w = put_list put_value vs (put_u8 SET_TAG w)"
| "put_value (VGeometry g) w = put_geometry g (put_u8 GEOMETRY_TAG w)"
| "put_value (VRegex s) w = put_bytes s (put_u8 REGEX_TAG w)"

definition payload_encode :: "tvalue \<Rightarrow> bytes" where
  "payload_encode v = writer_finish (put_value v writer_new)"

definition take_text :: "key_reader \<Rightarrow> enc_error + bytes \<times> key_reader" where
  "take_text r =
    bindR (take_bytes r) (\<lambda>(bs, r). if utf8_valid bs then Inr (bs, r) else Inl (InvalidUtf8 Record))"

definition take_instant :: "key_reader \<Rightarrow> enc_error + time_pair \<times> key_reader" where
  "take_instant r =
    bindR (take_time r) (\<lambda>((s, n), r).
      case time_new s n of Some t \<Rightarrow> Inr (t, r) | None \<Rightarrow> Inl (InvalidSubSecond n))"

definition take_bound ::
  "(key_reader \<Rightarrow> enc_error + 'a \<times> key_reader) \<Rightarrow> key_reader \<Rightarrow> enc_error + 'a value_bound \<times> key_reader" where
  "take_bound f r =
    bindR (take_u8 r) (\<lambda>(t, r).
      if t = UNBOUNDED_KIND then Inr (OpenEnd, r)
      else if t = INCLUDED_KIND then bindR (f r) (\<lambda>(v, r). Inr (IncludedEnd v, r))
      else if t = EXCLUDED_KIND then bindR (f r) (\<lambda>(v, r). Inr (ExcludedEnd v, r))
      else Inl (UnknownValueTag t))"

definition take_field ::
  "(key_reader \<Rightarrow> enc_error + 'a \<times> key_reader) \<Rightarrow> key_reader \<Rightarrow> enc_error + (bytes \<times> 'a) \<times> key_reader" where
  "take_field f r = bindR (take_text r) (\<lambda>(name, r). bindR (f r) (\<lambda>(v, r). Inr ((name, v), r)))"

lemma take_bound_cong [fundef_cong]:
  assumes "r = r'" "\<And>x. f x = g x"
  shows "take_bound f r = take_bound g r'"
  by (metis assms ext)

lemma take_field_cong [fundef_cong]:
  assumes "r = r'" "\<And>x. f x = g x"
  shows "take_field f r = take_field g r'"
  by (metis assms ext)

function take_value :: "decimals \<Rightarrow> nat \<Rightarrow> key_reader \<Rightarrow> enc_error + tvalue \<times> key_reader" where
  "take_value D depth r =
    bindR (take_u8 r) (\<lambda>(t, r).
      if t = NONE_TAG then Inr (VNone, r)
      else if t = NULL_TAG then Inr (VNull, r)
      else if t = BOOL_TAG then bindR (take_u8 r) (\<lambda>(b, r). Inr (VBool (b \<noteq> 0), r))
      else if t = NUMBER_TAG then bindR (take_number D r) (\<lambda>(n, r). Inr (VNumber n, r))
      else if t = STRING_TAG then bindR (take_text r) (\<lambda>(s, r). Inr (VString s, r))
      else if t = BYTES_TAG then bindR (take_bytes r) (\<lambda>(s, r). Inr (VBytes s, r))
      else if t = DURATION_TAG then bindR (take_instant r) (\<lambda>(t, r). Inr (VDuration t, r))
      else if t = DATETIME_TAG then bindR (take_instant r) (\<lambda>(t, r). Inr (VDatetime t, r))
      else if t = UUID_TAG then bindR (take_fixed 16 r) (\<lambda>(u, r). Inr (VUuid u, r))
      else if t = TABLE_TAG then bindR (take_u32 r) (\<lambda>(t, r). Inr (VTable t, r))
      else if t = RECORD_TAG then
        bindR (take_u32 r) (\<lambda>(t, r). bindR (take_record_id r) (\<lambda>(i, r). Inr (VRecord t i, r)))
      else if t = ARRAY_TAG then
        (case deeper depth of
           Inl e \<Rightarrow> Inl e
         | Inr inside \<Rightarrow> bindR (take_list (take_value D inside) r) (\<lambda>(vs, r). Inr (VArray vs, r)))
      else if t = OBJECT_TAG then
        (case deeper depth of
           Inl e \<Rightarrow> Inl e
         | Inr inside \<Rightarrow>
             bindR (take_u32 r) (\<lambda>(count, r).
             bindR (take_each (unat count) (take_field (take_value D inside)) (\<lambda>f fs. omap_insert (fst f) (snd f) fs) [] r)
               (\<lambda>(fs, r). Inr (VObject fs, r))))
      else if t = RANGE_TAG then
        (case deeper depth of
           Inl e \<Rightarrow> Inl e
         | Inr inside \<Rightarrow>
             bindR (take_bound (take_value D inside) r) (\<lambda>(s, r).
             bindR (take_bound (take_value D inside) r) (\<lambda>(e, r). Inr (VRange s e, r))))
      else if t = SET_TAG then
        (case deeper depth of
           Inl e \<Rightarrow> Inl e
         | Inr inside \<Rightarrow>
             bindR (take_u32 r) (\<lambda>(count, r).
             bindR (take_each (unat count) (take_value D inside) (set_insert (value_cmp D)) [] r)
               (\<lambda>(vs, r). Inr (VSet vs, r))))
      else if t = GEOMETRY_TAG then bindR (take_geometry depth r) (\<lambda>(g, r). Inr (VGeometry g, r))
      else if t = REGEX_TAG then bindR (take_text r) (\<lambda>(s, r). Inr (VRegex s, r))
      else Inl (UnknownValueTag t))"
  by pat_completeness auto

termination take_value
  by (relation "measure (\<lambda>(_, d, _). MAX_NESTING - d)") (auto simp: deeper_Inr)

declare take_value.simps [simp del]

definition payload_decode :: "decimals \<Rightarrow> bytes \<Rightarrow> enc_error + tvalue" where
  "payload_decode D bs =
    bindR (take_value D 0 (reader_new Record bs)) (\<lambda>(v, r).
    bindR (reader_finish r) (\<lambda>_. Inr v))"

section \<open>The bytes of a value\<close>

definition list_bytes :: "('a \<Rightarrow> bytes) \<Rightarrow> 'a list \<Rightarrow> bytes" where
  "list_bytes f xs = u32_bytes (count_of (length xs)) @ concat (map f xs)"

lemma list_bytes_cong [fundef_cong]:
  assumes "xs = xs'" "\<And>x. x \<in> set xs' \<Longrightarrow> f x = g x"
  shows "list_bytes f xs = list_bytes g xs'"
  using assms by (simp add: list_bytes_def cong: map_cong)

definition text_bytes :: "bytes \<Rightarrow> bytes" where
  "text_bytes s = u32_bytes (count_of (length s)) @ s"

fun number_bytes :: "number \<Rightarrow> bytes" where
  "number_bytes (Integer i) = INTEGER_KIND # i64_key i"
| "number_bytes (Float x) = FLOAT_KIND # u64_bytes x"
| "number_bytes (Decimal d) = DECIMAL_KIND # u128_bytes (mantissa d) @ u32_bytes (scale d)"

definition time_bytes :: "time_pair \<Rightarrow> bytes" where
  "time_bytes t = i64_key (seconds t) @ u32_bytes (nanos t)"

definition position_bytes :: "geo_position \<Rightarrow> bytes" where
  "position_bytes p = u64_bytes (longitude p) @ u64_bytes (latitude p)"

definition polygon_bytes :: "polygon \<Rightarrow> bytes" where
  "polygon_bytes p = list_bytes position_bytes (exterior p) @ list_bytes (list_bytes position_bytes) (interiors p)"

fun geometry_bytes :: "geometry \<Rightarrow> bytes" where
  "geometry_bytes (Point p) = POINT_SHAPE # position_bytes p"
| "geometry_bytes (Line ps) = LINE_SHAPE # list_bytes position_bytes ps"
| "geometry_bytes (PolygonOf p) = POLYGON_SHAPE # polygon_bytes p"
| "geometry_bytes (MultiPoint ps) = MULTI_POINT_SHAPE # list_bytes position_bytes ps"
| "geometry_bytes (MultiLine ls) = MULTI_LINE_SHAPE # list_bytes (list_bytes position_bytes) ls"
| "geometry_bytes (MultiPolygon ps) = MULTI_POLYGON_SHAPE # list_bytes polygon_bytes ps"
| "geometry_bytes (Collection gs) = COLLECTION_SHAPE # list_bytes geometry_bytes gs"

fun bound_bytes :: "('a \<Rightarrow> bytes) \<Rightarrow> 'a value_bound \<Rightarrow> bytes" where
  "bound_bytes f OpenEnd = [UNBOUNDED_KIND]"
| "bound_bytes f (IncludedEnd v) = INCLUDED_KIND # f v"
| "bound_bytes f (ExcludedEnd v) = EXCLUDED_KIND # f v"

lemma bound_bytes_cong [fundef_cong]:
  assumes "a = a'" "\<And>x. x \<in> set_value_bound a' \<Longrightarrow> f x = g x"
  shows "bound_bytes f a = bound_bytes g a'"
  using assms by (cases a') simp_all

fun value_bytes :: "tvalue \<Rightarrow> bytes" where
  "value_bytes VNone = [NONE_TAG]"
| "value_bytes VNull = [NULL_TAG]"
| "value_bytes (VBool b) = [BOOL_TAG, if b then 1 else 0]"
| "value_bytes (VNumber n) = NUMBER_TAG # number_bytes n"
| "value_bytes (VString s) = STRING_TAG # text_bytes s"
| "value_bytes (VBytes s) = BYTES_TAG # text_bytes s"
| "value_bytes (VDuration t) = DURATION_TAG # time_bytes t"
| "value_bytes (VDatetime t) = DATETIME_TAG # time_bytes t"
| "value_bytes (VUuid u) = UUID_TAG # u"
| "value_bytes (VTable t) = TABLE_TAG # u32_bytes t"
| "value_bytes (VRecord t i) = RECORD_TAG # u32_bytes t @ record_id_key i"
| "value_bytes (VArray vs) = ARRAY_TAG # list_bytes value_bytes vs"
| "value_bytes (VObject fs) = OBJECT_TAG # list_bytes (\<lambda>f. text_bytes (fst f) @ value_bytes (snd f)) fs"
| "value_bytes (VRange s e) = RANGE_TAG # bound_bytes value_bytes s @ bound_bytes value_bytes e"
| "value_bytes (VSet vs) = SET_TAG # list_bytes value_bytes vs"
| "value_bytes (VGeometry g) = GEOMETRY_TAG # geometry_bytes g"
| "value_bytes (VRegex s) = REGEX_TAG # text_bytes s"

lemma put_list_bytes:
  assumes "\<And>x w. x \<in> set xs \<Longrightarrow> buffer (f x w) = buffer w @ b x"
  shows "buffer (put_list f xs w) = buffer w @ list_bytes b xs"
proof -
  have "buffer (foldl (\<lambda>w x. f x w) w xs) = buffer w @ concat (map b xs)" for w
    using assms by (induction xs arbitrary: w) simp_all
  then show ?thesis by (simp add: put_list_def list_bytes_def put_simps)
qed

lemma put_scalar_bytes [put_simps]:
  "buffer (put_number n w) = buffer w @ number_bytes n"
  "buffer (put_time t w) = buffer w @ time_bytes t"
  "buffer (put_bytes s w) = buffer w @ text_bytes s"
  "buffer (put_position p w) = buffer w @ position_bytes p"
  by (cases n; simp add: put_simps i64_key_def put_time_def time_bytes_def put_bytes_def text_bytes_def
      put_position_def position_bytes_def)+

lemma put_shape_bytes [put_simps]:
  "buffer (put_positions ps w) = buffer w @ list_bytes position_bytes ps"
  "buffer (put_polygon p w) = buffer w @ polygon_bytes p"
proof -
  show pos: "buffer (put_positions ps w) = buffer w @ list_bytes position_bytes ps" for ps w
    by (simp add: put_positions_def put_list_bytes put_simps)
  show "buffer (put_polygon p w) = buffer w @ polygon_bytes p"
    by (simp add: put_polygon_def polygon_bytes_def put_list_bytes [OF pos] pos)
qed

lemma put_geometry_bytes [put_simps]: "buffer (put_geometry g w) = buffer w @ geometry_bytes g"
  by (induction g arbitrary: w) (simp_all add: put_simps put_list_bytes)

lemma put_bound_bytes:
  "(\<And>x w. x \<in> set_value_bound a \<Longrightarrow> buffer (f x w) = buffer w @ b x)
    \<Longrightarrow> buffer (put_bound f a w) = buffer w @ bound_bytes b a"
  by (cases a) (simp_all add: put_simps)

lemma put_value_bytes [put_simps]: "buffer (put_value v w) = buffer w @ value_bytes v"
proof (induction v arbitrary: w)
  case (VObject fs)
  then have "buffer (put_value (snd f) (put_bytes (fst f) w)) = buffer w @ text_bytes (fst f) @ value_bytes (snd f)"
    if "f \<in> set fs" for f w
    using that by (simp add: put_simps prod_set_defs)
  then have "buffer (put_list (\<lambda>f w. put_value (snd f) (put_bytes (fst f) w)) fs w)
      = buffer w @ list_bytes (\<lambda>f. text_bytes (fst f) @ value_bytes (snd f)) fs" for w
    by (rule put_list_bytes)
  then show ?case by (simp add: put_simps)
qed (simp_all add: put_simps put_list_bytes put_bound_bytes)

lemma payload_encode_bytes: "payload_encode v = value_bytes v"
  by (simp add: payload_encode_def put_simps)

section \<open>Well-formed values\<close>

text \<open>What the types of the program hold of a value: text is UTF-8, a remainder is below a
second, a float is normalised, a decimal is one the library makes, an object is in
the order of its names and a set in the order of its values; and no length
overflows its field.\<close>

abbreviation short :: "'a list \<Rightarrow> bool" where
  "short xs \<equiv> length xs < 2 ^ 32"

fun number_wf :: "decimals \<Rightarrow> number \<Rightarrow> bool" where
  "number_wf D (Integer _) \<longleftrightarrow> True"
| "number_wf D (Float x) \<longleftrightarrow> number_float x = Float x"
| "number_wf D (Decimal d) \<longleftrightarrow> accepts_decimal D (mantissa d) (scale d)"

definition text_wf :: "bytes \<Rightarrow> bool" where
  "text_wf s \<longleftrightarrow> utf8_valid s \<and> short s"

definition polygon_wf :: "polygon \<Rightarrow> bool" where
  "polygon_wf p \<longleftrightarrow> short (exterior p) \<and> short (interiors p) \<and> list_all short (interiors p)"

fun geometry_wf :: "geometry \<Rightarrow> bool" where
  "geometry_wf (Point _) \<longleftrightarrow> True"
| "geometry_wf (Line ps) \<longleftrightarrow> short ps"
| "geometry_wf (PolygonOf p) \<longleftrightarrow> polygon_wf p"
| "geometry_wf (MultiPoint ps) \<longleftrightarrow> short ps"
| "geometry_wf (MultiLine ls) \<longleftrightarrow> short ls \<and> list_all short ls"
| "geometry_wf (MultiPolygon ps) \<longleftrightarrow> short ps \<and> list_all polygon_wf ps"
| "geometry_wf (Collection gs) \<longleftrightarrow> short gs \<and> list_all geometry_wf gs"

definition bound_wf :: "('a \<Rightarrow> bool) \<Rightarrow> 'a value_bound \<Rightarrow> bool" where
  "bound_wf P a \<longleftrightarrow> (\<forall>x \<in> set_value_bound a. P x)"

lemma bound_wf_cong [fundef_cong]:
  "a = a' \<Longrightarrow> (\<And>x. x \<in> set_value_bound a' \<Longrightarrow> P x = Q x) \<Longrightarrow> bound_wf P a = bound_wf Q a'"
  by (simp add: bound_wf_def)

fun value_wf :: "decimals \<Rightarrow> tvalue \<Rightarrow> bool" where
  "value_wf D (VNumber n) \<longleftrightarrow> number_wf D n"
| "value_wf D (VString s) \<longleftrightarrow> text_wf s"
| "value_wf D (VBytes s) \<longleftrightarrow> short s"
| "value_wf D (VDuration t) \<longleftrightarrow> nanos t < NANOS_PER_SECOND"
| "value_wf D (VDatetime t) \<longleftrightarrow> nanos t < NANOS_PER_SECOND"
| "value_wf D (VUuid u) \<longleftrightarrow> width 16 u"
| "value_wf D (VRecord t i) \<longleftrightarrow> record_id_wf i"
| "value_wf D (VArray vs) \<longleftrightarrow> short vs \<and> list_all (value_wf D) vs"
| "value_wf D (VObject fs) \<longleftrightarrow>
    short fs \<and> omap_ok fs \<and> list_all (\<lambda>f. text_wf (fst f) \<and> value_wf D (snd f)) fs"
| "value_wf D (VRange s e) \<longleftrightarrow> bound_wf (value_wf D) s \<and> bound_wf (value_wf D) e"
| "value_wf D (VSet vs) \<longleftrightarrow> short vs \<and> set_ok (value_cmp D) vs \<and> list_all (value_wf D) vs"
| "value_wf D (VGeometry g) \<longleftrightarrow> geometry_wf g"
| "value_wf D (VRegex s) \<longleftrightarrow> text_wf s"
| "value_wf D _ \<longleftrightarrow> True"

section \<open>Reading back what was written\<close>

text \<open>A reader that takes an element back, or refuses it for one reason.\<close>

definition reads :: "(key_reader \<Rightarrow> enc_error + 'a \<times> key_reader) \<Rightarrow> enc_error \<Rightarrow> bool \<Rightarrow> 'a \<Rightarrow> bytes \<Rightarrow> bool" where
  "reads f e bad x bs \<longleftrightarrow> (\<forall>k pre rest. f (reading k pre (bs @ rest)) =
    (if bad then Inl e else Inr (x, reading k (pre @ bs) rest)))"

lemma take_each_reads:
  assumes "\<forall>x \<in> set xs. reads f e (bad x) x (b x)"
  shows "take_each (length xs) f put acc (reading k pre (concat (map b xs) @ rest)) =
    (if list_ex bad xs then Inl e else Inr (fold put xs acc, reading k (pre @ concat (map b xs)) rest))"
  using assms
proof (induction xs arbitrary: acc pre)
  case (Cons x xs)
  have "f (reading k pre (b x @ concat (map b xs) @ rest)) =
      (if bad x then Inl e else Inr (x, reading k (pre @ b x) (concat (map b xs) @ rest)))"
    using Cons.prems by (simp add: reads_def)
  then show ?case using Cons by simp
qed simp

lemma unat_count_of: "n < 2 ^ 32 \<Longrightarrow> unat (count_of n) = n"
  by (simp add: count_of_def unat_of_nat)

lemma take_u32_enc: "take_u32 (reading k pre (u32_bytes v @ rest)) = Inr (v, reading k (pre @ u32_bytes v) rest)"
  by (rule u32k.take_enc) simp

lemma fold_push_back: "fold push_back xs acc = acc @ xs"
  by (induction xs arbitrary: acc) (simp_all add: push_back_def)

lemma take_list_reads:
  assumes "short xs" "\<forall>x \<in> set xs. reads f e (bad x) x (b x)"
  shows "reads (take_list f) e (list_ex bad xs) xs (list_bytes b xs)"
  by (simp add: reads_def take_list_def list_bytes_def take_u32_enc unat_count_of [OF assms(1)]
      fold_push_back take_each_reads [OF assms(2)])

lemma take_list_reads_all:
  assumes "short xs" "\<forall>x \<in> set xs. reads f e False x (b x)"
  shows "reads (take_list f) e False xs (list_bytes b xs)"
proof -
  have "list_ex (\<lambda>_. False) xs = False" by (induction xs) simp_all
  then show ?thesis using take_list_reads [of xs f e "\<lambda>_. False" b] assms by simp
qed

lemma readsD:
  "reads f e bad x bs \<Longrightarrow> f (reading k pre (bs @ rest)) = (if bad then Inl e else Inr (x, reading k (pre @ bs) rest))"
  by (simp add: reads_def)

lemma u128_round_trip: "u128_value (u128_bytes v) = v"
proof -
  have "unat v < 2 ^ 128" using unsigned_less [of v, where 'a = nat] by simp
  then have "be_value (be_bytes 16 (unat v)) = unat v" by (intro be_value_be_bytes) simp
  then show ?thesis by (simp add: u128_value_def u128_bytes_def)
qed

lemma length_u128 [simp]: "length (u128_bytes v) = 16"
  by (simp add: u128_bytes_def)

lemma take_text_bytes: "short s \<Longrightarrow> reads take_bytes e False s (text_bytes s)"
  by (simp add: reads_def take_bytes_def text_bytes_def take_u32_enc unat_count_of take_exact_eq_take_fixed
      take_fixed_enc)

lemma take_text_reads: "text_wf s \<Longrightarrow> reads take_text e False s (text_bytes s)"
  using take_text_bytes [of s]
  by (auto simp: reads_def take_text_def text_wf_def)

lemma take_number_reads: "number_wf D n \<Longrightarrow> reads (take_number D) e False n (number_bytes n)"
  by (cases n) (simp_all add: reads_def take_number_def take_u8_reading scalar_tags i64k.take_enc
      take_fixed_enc u32k.take_enc u128_round_trip)

lemma take_instant_reads: "nanos t < NANOS_PER_SECOND \<Longrightarrow> reads take_instant e False t (time_bytes t)"
  by (simp add: reads_def take_instant_def take_time_def time_bytes_def i64k.take_enc take_u32_enc time_new_def not_le)

lemma take_position_reads: "reads take_position e False p (position_bytes p)"
  by (simp add: reads_def take_position_def position_bytes_def take_fixed_enc)

lemma take_positions_reads: "short ps \<Longrightarrow> reads take_positions e False ps (list_bytes position_bytes ps)"
  using take_position_reads by (simp add: take_positions_def take_list_reads_all)

lemma take_polygon_reads:
  assumes "polygon_wf p"
  shows "reads take_polygon e False p (polygon_bytes p)"
proof -
  have "reads take_positions e False (exterior p) (list_bytes position_bytes (exterior p))"
    "reads (take_list take_positions) e False (interiors p) (list_bytes (list_bytes position_bytes) (interiors p))"
    using assms by (auto simp: polygon_wf_def list_all_iff intro!: take_positions_reads take_list_reads_all)
  then show ?thesis by (simp add: reads_def take_polygon_def polygon_bytes_def)
qed

lemma deeper_eq: "d \<le> MAX_NESTING \<Longrightarrow>
  deeper d = (case MAX_NESTING - d of 0 \<Rightarrow> Inl (NestedTooDeep MAX_NESTING) | Suc _ \<Rightarrow> Inr (Suc d))"
  by (auto simp: deeper_def split: nat.splits)

lemma shape_not_deeper: "\<forall>gs. g \<noteq> Collection gs \<Longrightarrow> \<not> shape_deeper_than n g"
  by (cases n; cases g) simp_all

lemma take_geometry_reads:
  assumes "geometry_wf g" "d \<le> MAX_NESTING"
  shows "reads (take_geometry d) (NestedTooDeep MAX_NESTING) (shape_deeper_than (MAX_NESTING - d) g) g (geometry_bytes g)"
  using assms
proof (induction g arbitrary: d)
  case (Collection gs)
  show ?case
  proof (cases "MAX_NESTING - d")
    case 0
    then show ?thesis
      using Collection.prems by (simp add: reads_def take_geometry.simps take_u8_reading shape_tags deeper_eq)
  next
    case (Suc m)
    then have m: "m = MAX_NESTING - Suc d" "Suc d \<le> MAX_NESTING" by simp_all
    have "reads (take_list (take_geometry (Suc d))) (NestedTooDeep MAX_NESTING)
        (list_ex (shape_deeper_than m) gs) gs (list_bytes geometry_bytes gs)"
      using Collection m by (intro take_list_reads) (auto simp: list_all_iff)
    then show ?thesis
      using Collection.prems Suc
      by (simp add: reads_def take_geometry.simps [of d] take_u8_reading shape_tags deeper_eq)
  qed
next
  case (Line ps)
  then show ?case
    using readsD [OF take_positions_reads, of ps]
    by (simp add: reads_def take_geometry.simps take_u8_reading shape_tags shape_not_deeper)
next
  case (PolygonOf p)
  then show ?case
    using readsD [OF take_polygon_reads, of p]
    by (simp add: reads_def take_geometry.simps take_u8_reading shape_tags shape_not_deeper)
next
  case (MultiPoint ps)
  then show ?case
    using readsD [OF take_positions_reads, of ps]
    by (simp add: reads_def take_geometry.simps take_u8_reading shape_tags shape_not_deeper)
next
  case (MultiLine ls)
  then have "reads (take_list take_positions) e False ls (list_bytes (list_bytes position_bytes) ls)" for e
    by (auto simp: list_all_iff intro!: take_list_reads_all take_positions_reads)
  from readsD [OF this] show ?case
    by (simp add: reads_def take_geometry.simps take_u8_reading shape_tags shape_not_deeper)
next
  case (MultiPolygon ps)
  then have "reads (take_list take_polygon) e False ps (list_bytes polygon_bytes ps)" for e
    by (auto simp: list_all_iff intro!: take_list_reads_all take_polygon_reads)
  from readsD [OF this] show ?case
    by (simp add: reads_def take_geometry.simps take_u8_reading shape_tags shape_not_deeper)
qed (simp add: reads_def take_geometry.simps take_u8_reading shape_tags shape_not_deeper
    readsD [OF take_position_reads, simplified])

lemma fold_omap_insert:
  assumes "omap_ok (acc @ fs)"
  shows "fold (\<lambda>f m. omap_insert (fst f) (snd f) m) fs acc = acc @ fs"
  using assms
proof (induction fs arbitrary: acc)
  case (Cons f fs)
  have "omap_insert (fst f) (snd f) acc = acc @ [f]"
    using Cons.prems
  proof (induction acc)
    case (Cons g acc)
    have less: "fst g < fst f" using Cons.prems by (simp add: omap_ok_def)
    moreover have "omap_ok (acc @ f # fs)" using Cons.prems by (simp add: omap_ok_def)
    ultimately show ?case using Cons.IH by (cases g) auto
  qed simp
  then show ?case using Cons.IH [of "acc @ [f]"] Cons.prems by simp
qed simp

lemma fold_set_insert:
  assumes "\<And>a b. swaps f a b" "set_ok f (acc @ vs)"
  shows "fold (set_insert f) vs acc = acc @ vs"
  using assms(2)
proof (induction vs arbitrary: acc)
  case (Cons v vs)
  have "f v a = Greater" if "a \<in> set acc" for a
  proof -
    have "f a v = Less" using Cons.prems that by (auto simp: set_ok_def sorted_wrt_append)
    then show ?thesis using assms(1) [of a v] by (simp add: swaps_def)
  qed
  then have "set_insert f v acc = acc @ [v]" by (rule set_insert_last)
  then show ?case using Cons.IH [of "acc @ [v]"] Cons.prems by simp
qed simp

lemma take_field_reads:
  assumes "text_wf (fst f)" "reads g e bad (snd f) (b (snd f))"
  shows "reads (take_field g) e bad f (text_bytes (fst f) @ b (snd f))"
  using assms readsD [OF take_text_reads [OF assms(1)], simplified]
  by (simp add: reads_def take_field_def)

lemma take_bound_reads:
  assumes "\<And>x. x \<in> set_value_bound a \<Longrightarrow> reads f e (bad x) x (b x)"
  shows "reads (take_bound f) e (bound_any bad a) a (bound_bytes b a)"
  using assms by (cases a) (simp_all add: reads_def take_bound_def take_u8_reading scalar_tags)

text \<open>What a tag leads the reader to, for a value of each type.\<close>

lemmas take_tagged = take_value.simps [of D d "reading k pre bs" for D d k pre bs] take_u8_reading value_tags

lemma plain_not_deeper: "\<not> is_container v \<Longrightarrow> \<forall>g. v \<noteq> VGeometry g \<Longrightarrow> \<not> nests_deeper_than n v"
  by (cases n; cases v) simp_all

lemma take_value_reads:
  assumes "decimals_ok D" "value_wf D v" "d \<le> MAX_NESTING"
  shows "reads (take_value D d) (NestedTooDeep MAX_NESTING) (nests_deeper_than (MAX_NESTING - d) v) v (value_bytes v)"
  using assms(2,3)
proof (induction v arbitrary: d)
  case (VNumber n)
  then show ?case
    using readsD [OF take_number_reads, of D n, simplified]
    by (simp add: reads_def take_tagged plain_not_deeper)
next
  case (VString s)
  then show ?case
    using readsD [OF take_text_reads, of s, simplified] by (simp add: reads_def take_tagged plain_not_deeper)
next
  case (VBytes s)
  then show ?case
    using readsD [OF take_text_bytes, of s, simplified] by (simp add: reads_def take_tagged plain_not_deeper)
next
  case (VRegex s)
  then show ?case
    using readsD [OF take_text_reads, of s, simplified] by (simp add: reads_def take_tagged plain_not_deeper)
next
  case (VDuration t)
  then show ?case
    using readsD [OF take_instant_reads, of t, simplified] by (simp add: reads_def take_tagged plain_not_deeper)
next
  case (VDatetime t)
  then show ?case
    using readsD [OF take_instant_reads, of t, simplified] by (simp add: reads_def take_tagged plain_not_deeper)
next
  case (VGeometry g)
  have "nests_deeper_than n (VGeometry g) = shape_deeper_than n g" for n
    by (cases n; cases g) simp_all
  then show ?case
    using readsD [OF take_geometry_reads, of g d] VGeometry by (simp add: reads_def take_tagged)
next
  case (VArray vs)
  show ?case
  proof (cases "MAX_NESTING - d")
    case 0
    then show ?thesis using VArray.prems by (simp add: reads_def take_tagged deeper_eq)
  next
    case (Suc m)
    then have m: "m = MAX_NESTING - Suc d" "Suc d \<le> MAX_NESTING" by simp_all
    have "reads (take_list (take_value D (Suc d))) (NestedTooDeep MAX_NESTING)
        (list_ex (nests_deeper_than m) vs) vs (list_bytes value_bytes vs)"
      using VArray m by (intro take_list_reads) (auto simp: list_all_iff)
    then show ?thesis
      using VArray.prems Suc by (simp add: reads_def take_tagged deeper_eq)
  qed
next
  case (VSet vs)
  show ?case
  proof (cases "MAX_NESTING - d")
    case 0
    then show ?thesis using VSet.prems by (simp add: reads_def take_tagged deeper_eq)
  next
    case (Suc m)
    then have m: "m = MAX_NESTING - Suc d" "Suc d \<le> MAX_NESTING" by simp_all
    have "\<forall>v \<in> set vs. reads (take_value D (Suc d)) (NestedTooDeep MAX_NESTING) (nests_deeper_than m v) v (value_bytes v)"
      using VSet m by (auto simp: list_all_iff)
    note each = take_each_reads [OF this, of "set_insert (value_cmp D)" "[]"]
    have "fold (set_insert (value_cmp D)) vs [] = vs"
      using fold_set_insert [of "value_cmp D" "[]" vs] value_swaps [OF assms(1)] VSet.prems by simp
    then show ?thesis
      using VSet.prems Suc each
      by (simp add: reads_def take_tagged deeper_eq list_bytes_def take_u32_enc unat_count_of)
  qed
next
  case (VObject fs)
  show ?case
  proof (cases "MAX_NESTING - d")
    case 0
    then show ?thesis using VObject.prems by (simp add: reads_def take_tagged deeper_eq)
  next
    case (Suc m)
    then have m: "m = MAX_NESTING - Suc d" "Suc d \<le> MAX_NESTING" by simp_all
    have "\<forall>f \<in> set fs. reads (take_field (take_value D (Suc d))) (NestedTooDeep MAX_NESTING)
        (nests_deeper_than m (snd f)) f (text_bytes (fst f) @ value_bytes (snd f))"
      using VObject m by (intro ballI take_field_reads) (auto simp: list_all_iff prod_set_defs)
    note each = take_each_reads [OF this, of "\<lambda>f m. omap_insert (fst f) (snd f) m" "[]"]
    have "fold (\<lambda>f m. omap_insert (fst f) (snd f) m) fs [] = fs"
      using fold_omap_insert [of "[]" fs] VObject.prems by simp
    then show ?thesis
      using VObject.prems Suc each
      by (simp add: reads_def take_tagged deeper_eq list_bytes_def take_u32_enc unat_count_of)
  qed
next
  case (VRange s e)
  show ?case
  proof (cases "MAX_NESTING - d")
    case 0
    then show ?thesis using VRange.prems by (simp add: reads_def take_tagged deeper_eq)
  next
    case (Suc m)
    then have m: "m = MAX_NESTING - Suc d" "Suc d \<le> MAX_NESTING" by simp_all
    have "reads (take_bound (take_value D (Suc d))) (NestedTooDeep MAX_NESTING)
        (bound_any (nests_deeper_than m) s) s (bound_bytes value_bytes s)"
      "reads (take_bound (take_value D (Suc d))) (NestedTooDeep MAX_NESTING)
        (bound_any (nests_deeper_than m) e) e (bound_bytes value_bytes e)"
      using VRange m by (auto simp: bound_wf_def intro!: take_bound_reads)
    then show ?thesis using VRange.prems Suc by (simp add: reads_def take_tagged deeper_eq)
  qed
qed (simp_all add: reads_def take_tagged plain_not_deeper u32k.take_enc ridk.take_enc fixk.take_enc)

section \<open>Whatever is read is well-formed\<close>

lemma take_each_inv:
  assumes "take_each n f put acc r = Inr (acc', r')" "J m acc"
    and "\<And>r x r'. f r = Inr (x, r') \<Longrightarrow> Q x" "\<And>x acc m. Q x \<Longrightarrow> J m acc \<Longrightarrow> J (Suc m) (put x acc)"
  shows "J (m + n) acc'"
  using assms(1,2)
proof (induction n arbitrary: acc r m)
  case (Suc n)
  then obtain x r1 where x: "f r = Inr (x, r1)" "take_each n f put (put x acc) r1 = Inr (acc', r')"
    by (auto simp: bindR_eq_Inr)
  have "J (Suc m) (put x acc)" using assms(3) [OF x(1)] assms(4) Suc.prems(2) by blast
  from Suc.IH [OF x(2) this] show ?case by simp
qed simp

lemma unat_u32_less: "unat (c :: u32) < 2 ^ 32"
  using unsigned_less [of c, where 'a = nat] by simp

lemma take_list_inv:
  assumes "take_list f r = Inr (xs, r')" "\<And>r x r'. f r = Inr (x, r') \<Longrightarrow> Q x"
  shows "short xs \<and> list_all Q xs"
proof -
  obtain c r1 where c: "take_u32 r = Inr (c, r1)" "take_each (unat c) f push_back [] r1 = Inr (xs, r')"
    using assms(1) by (auto simp: take_list_def bindR_eq_Inr)
  have "length xs = 0 + unat c \<and> list_all Q xs"
    by (rule take_each_inv [OF c(2), of "\<lambda>m xs. length xs = m \<and> list_all Q xs"])
      (auto simp: push_back_def intro: assms(2))
  then show ?thesis using unat_u32_less [of c] by simp
qed

lemma take_fixed_length: "take_fixed n r = Inr (bs, r') \<Longrightarrow> length bs = n"
  by (auto simp: take_fixed_def slice_get_def Let_def split: option.splits if_splits)

lemma take_bytes_short: "take_bytes r = Inr (bs, r') \<Longrightarrow> short bs"
  using unat_u32_less by (auto simp: take_bytes_def bindR_eq_Inr take_exact_eq_take_fixed dest: take_fixed_length)

lemma take_text_wf: "take_text r = Inr (bs, r') \<Longrightarrow> text_wf bs"
  by (auto simp: take_text_def bindR_eq_Inr text_wf_def dest: take_bytes_short split: if_splits)

lemma take_number_wf: "take_number D r = Inr (n, r') \<Longrightarrow> number_wf D n"
  by (auto simp: take_number_def bindR_eq_Inr number_float_def is_nan_def is_zero_def NAN_def
      split: if_splits)

lemma take_instant_wf: "take_instant r = Inr (t, r') \<Longrightarrow> nanos t < NANOS_PER_SECOND"
  by (auto simp: take_instant_def bindR_eq_Inr time_new_def split: option.splits if_splits)

lemma take_record_id_wf: "take_record_id r = Inr (i, r') \<Longrightarrow> record_id_wf i"
  by (auto simp: take_record_id_def bindR_eq_Inr Let_def width_def dest: take_fixed_length split: if_splits)

lemma take_polygon_wf: "take_polygon r = Inr (p, r') \<Longrightarrow> polygon_wf p"
  using take_list_inv [of take_positions _ _ _ short] take_list_inv [of take_position _ _ _ "\<lambda>_. True"]
  by (fastforce simp: take_polygon_def bindR_eq_Inr polygon_wf_def take_positions_def)

lemma take_positions_short: "take_positions r = Inr (ps, r') \<Longrightarrow> short ps"
  using take_list_inv [of take_position r ps r' "\<lambda>_. True"] by (simp add: take_positions_def)

lemma set_insert_keeps: "list_all Q xs \<Longrightarrow> Q x \<Longrightarrow> list_all Q (set_insert f x xs)"
  using set_insert_subset [of f x xs] by (auto simp: list_all_iff)

lemma length_set_insert: "length (set_insert f x xs) \<le> Suc (length xs)"
  by (induction xs) (auto split: ordering.splits)

lemma omap_insert_keeps: "list_all Q m \<Longrightarrow> Q (k, v) \<Longrightarrow> list_all Q (omap_insert k v m)"
  by (induction k v m rule: omap_insert.induct) auto

lemma length_omap_insert: "length (omap_insert k v m) \<le> Suc (length m)"
  by (induction k v m rule: omap_insert.induct) auto

lemma set_insert_step:
  assumes "lawful f" "Q x" "length xs \<le> m \<and> set_ok f xs \<and> list_all Q xs"
  shows "length (set_insert f x xs) \<le> Suc m \<and> set_ok f (set_insert f x xs) \<and> list_all Q (set_insert f x xs)"
  using assms set_insert_ok set_insert_keeps [of Q xs x f] length_set_insert [of f x xs] by auto

lemma omap_insert_step:
  assumes "Q x" "length xs \<le> m \<and> omap_ok xs \<and> list_all Q xs"
  shows "length (omap_insert (fst x) (snd x) xs) \<le> Suc m \<and> omap_ok (omap_insert (fst x) (snd x) xs)
    \<and> list_all Q (omap_insert (fst x) (snd x) xs)"
  using assms omap_insert_keeps [of Q xs "fst x" "snd x"] length_omap_insert [of "fst x" "snd x" xs] by auto

lemma take_geometry_wf:
  assumes "take_geometry d r = Inr (g, r')" "d \<le> MAX_NESTING"
  shows "geometry_wf g \<and> \<not> shape_deeper_than (MAX_NESTING - d) g"
  using assms
proof (induction "MAX_NESTING - d" arbitrary: d r g r' rule: less_induct)
  case less
  show ?case
  proof (cases "\<exists>gs. g = Collection gs")
    case False
    have "geometry_wf g"
      using less.prems(1) False
      by (auto simp: take_geometry.simps [of d r] bindR_eq_Inr take_positions_short take_polygon_wf
          split: if_splits sum.splits
          dest: take_positions_short take_list_inv [where Q = short, OF _ take_positions_short]
            take_list_inv [where Q = polygon_wf, OF _ take_polygon_wf])
    then show ?thesis using False shape_not_deeper by blast
  next
    case True
    then obtain gs r1 where gs: "g = Collection gs" "d < MAX_NESTING" "take_list (take_geometry (Suc d)) r1 = Inr (gs, r')"
      using less.prems(1)
      by (auto simp: take_geometry.simps [of d r] bindR_eq_Inr deeper_Inr split: if_splits sum.splits)
    obtain m where m: "MAX_NESTING - d = Suc m" using gs(2) by (metis Suc_diff_Suc)
    then have m': "MAX_NESTING - Suc d = m" by simp
    have "short gs \<and> list_all (\<lambda>g. geometry_wf g \<and> \<not> shape_deeper_than m g) gs"
      by (rule take_list_inv [OF gs(3)]) (use less.hyps [of "Suc d"] gs(2) m' in auto)
    then show ?thesis using gs(1) m by (auto simp: list_all_iff list_ex_iff)
  qed
qed

text \<open>What holds of every value read inside a container holds of the container.\<close>

lemma take_container_wf:
  assumes "decimals_ok D" "take_value D d r = Inr (v, r')" "d \<le> MAX_NESTING" "is_container v" "\<forall>g. v \<noteq> VGeometry g"
    and inside: "\<And>r v r'. d < MAX_NESTING \<Longrightarrow> take_value D (Suc d) r = Inr (v, r') \<Longrightarrow>
      value_wf D v \<and> \<not> nests_deeper_than (MAX_NESTING - Suc d) v"
  shows "value_wf D v \<and> \<not> nests_deeper_than (MAX_NESTING - d) v"
proof -
  let ?Q = "\<lambda>v. value_wf D v \<and> \<not> nests_deeper_than (MAX_NESTING - Suc d) v"
  have d: "d < MAX_NESTING"
    using assms(2,4,5)
    by (auto simp: take_value.simps [of D d r] bindR_eq_Inr deeper_Inr split: if_splits sum.splits)
  then have m: "MAX_NESTING - d = Suc (MAX_NESTING - Suc d)" by simp
  have Q: "take_value D (Suc d) r = Inr (v, r') \<Longrightarrow> ?Q v" for r v r' using inside [OF d] .
  have list: "short vs \<and> list_all ?Q vs" if "take_list (take_value D (Suc d)) r1 = Inr (vs, r2)" for vs r1 r2
    using that Q by (rule take_list_inv)
  have bound: "bound_wf ?Q a" if "take_bound (take_value D (Suc d)) r1 = Inr (a, r2)" for a r1 r2
    using that Q by (auto simp: take_bound_def bindR_eq_Inr bound_wf_def split: if_splits)
  have field: "text_wf (fst f) \<and> ?Q (snd f)" if "take_field (take_value D (Suc d)) r1 = Inr (f, r2)" for f r1 r2
    using that Q by (auto simp: take_field_def bindR_eq_Inr dest: take_text_wf)
  have elems: "length vs \<le> 0 + n \<and> set_ok (value_cmp D) vs \<and> list_all ?Q vs"
    if "take_each n (take_value D (Suc d)) (set_insert (value_cmp D)) [] r1 = Inr (vs, r2)" for n vs r1 r2
  proof (rule take_each_inv [OF that, where J = "\<lambda>m vs. length vs \<le> m \<and> set_ok (value_cmp D) vs \<and> list_all ?Q vs"
        and Q = ?Q])
    show "?Q x" if "take_value D (Suc d) r3 = Inr (x, r4)" for r3 x r4 using that by (rule Q)
    show "length (set_insert (value_cmp D) x acc) \<le> Suc m
        \<and> set_ok (value_cmp D) (set_insert (value_cmp D) x acc) \<and> list_all ?Q (set_insert (value_cmp D) x acc)"
      if "?Q x" "length acc \<le> m \<and> set_ok (value_cmp D) acc \<and> list_all ?Q acc" for x acc m
      using value_lawful [OF assms(1)] that by (rule set_insert_step)
  qed (simp add: set_ok_def)
  have flds: "length fs \<le> 0 + n \<and> omap_ok fs \<and> list_all (\<lambda>f. text_wf (fst f) \<and> ?Q (snd f)) fs"
    if "take_each n (take_field (take_value D (Suc d))) (\<lambda>f fs. omap_insert (fst f) (snd f) fs) [] r1 = Inr (fs, r2)"
    for n fs r1 r2
  proof (rule take_each_inv [OF that, where J = "\<lambda>m fs. length fs \<le> m \<and> omap_ok fs
        \<and> list_all (\<lambda>f. text_wf (fst f) \<and> ?Q (snd f)) fs" and Q = "\<lambda>f. text_wf (fst f) \<and> ?Q (snd f)"])
    show "text_wf (fst f) \<and> ?Q (snd f)" if "take_field (take_value D (Suc d)) r3 = Inr (f, r4)" for r3 f r4
      using that by (rule field)
    show "length (omap_insert (fst f) (snd f) acc) \<le> Suc m \<and> omap_ok (omap_insert (fst f) (snd f) acc)
        \<and> list_all (\<lambda>f. text_wf (fst f) \<and> ?Q (snd f)) (omap_insert (fst f) (snd f) acc)"
      if "text_wf (fst f) \<and> ?Q (snd f)"
        "length acc \<le> m \<and> omap_ok acc \<and> list_all (\<lambda>f. text_wf (fst f) \<and> ?Q (snd f)) acc" for f acc m
      using that by (rule omap_insert_step)
  qed simp
  have bound': "bound_wf (value_wf D) a \<and> \<not> bound_any (nests_deeper_than (MAX_NESTING - Suc d)) a"
    if "take_bound (take_value D (Suc d)) r1 = Inr (a, r2)" for a r1 r2
    using bound [OF that] by (cases a) (auto simp: bound_wf_def)
  consider (array) vs r1 where "v = VArray vs" "take_list (take_value D (Suc d)) r1 = Inr (vs, r')"
    | (span) s e r1 r2 where "v = VRange s e" "take_bound (take_value D (Suc d)) r1 = Inr (s, r2)"
        "take_bound (take_value D (Suc d)) r2 = Inr (e, r')"
    | (set_of) vs c r1 where "v = VSet vs"
        "take_each (unat (c :: u32)) (take_value D (Suc d)) (set_insert (value_cmp D)) [] r1 = Inr (vs, r')"
    | (obj) fs c r1 where "v = VObject fs"
        "take_each (unat (c :: u32)) (take_field (take_value D (Suc d))) (\<lambda>f fs. omap_insert (fst f) (snd f) fs) [] r1
          = Inr (fs, r')"
    using assms(2,4,5)
    by (auto simp: take_value.simps [of D d r] bindR_eq_Inr deeper_Inr split: if_splits sum.splits)
  then show ?thesis
  proof cases
    case array
    then show ?thesis using list [OF array(2)] m by (auto simp: list_all_iff list_ex_iff)
  next
    case span
    then show ?thesis using bound' m by auto
  next
    case set_of
    then show ?thesis using elems [OF set_of(2)] m unat_u32_less [of c] by (auto simp: list_all_iff list_ex_iff)
  next
    case obj
    then show ?thesis using flds [OF obj(2)] m unat_u32_less [of c] by (auto simp: list_all_iff list_ex_iff)
  qed
qed

lemma take_value_wf:
  assumes "decimals_ok D" "take_value D d r = Inr (v, r')" "d \<le> MAX_NESTING"
  shows "value_wf D v \<and> \<not> nests_deeper_than (MAX_NESTING - d) v"
  using assms(2,3)
proof (induction "MAX_NESTING - d" arbitrary: d r v r' rule: less_induct)
  case less
  consider (container) "is_container v" "\<forall>g. v \<noteq> VGeometry g" | (shape) g where "v = VGeometry g"
    | (plain) "\<not> is_container v" "\<forall>g. v \<noteq> VGeometry g" by blast
  then show ?case
  proof cases
    case container
    show ?thesis
      by (rule take_container_wf [OF assms(1) less.prems container]) (rule less.hyps; simp)
  next
    case (shape g)
    then obtain r1 where "take_geometry d r1 = Inr (g, r')"
      using less.prems(1) by (auto simp: take_value.simps [of D d r] bindR_eq_Inr split: if_splits sum.splits)
    from take_geometry_wf [OF this less.prems(2)] show ?thesis
      using shape by (cases "MAX_NESTING - d"; cases g) simp_all
  next
    case plain
    have "value_wf D v"
      using less.prems(1) plain
      by (auto simp: take_value.simps [of D d r] bindR_eq_Inr width_def split: if_splits sum.splits
          dest: take_number_wf take_text_wf take_bytes_short take_instant_wf take_fixed_length take_record_id_wf)
    then show ?thesis using plain plain_not_deeper by blast
  qed
qed

section \<open>Properties\<close>

definition example_decimals :: decimals where
  "example_decimals =
    \<lparr>of_float = (\<lambda>x. if is_zero x then Some \<lparr>mantissa = 0, scale = 0\<rparr> else None),
     decimal_cmp = cmp_by (\<lambda>d. sint (mantissa d) * 10 ^ (28 - unat (scale d))),
     ordered_fast = (\<lambda>_ _. None), accepts_decimal = (\<lambda>_ sc. sc \<le> 28)\<rparr>"

definition example_value :: tvalue where
  "example_value =
    VArray [VObject [([97], VSet [VNumber (Integer 1), VString [98]])], VRange (IncludedEnd VNull) OpenEnd]"

lemma example_decimals_ok: "decimals_ok example_decimals"
  by (simp add: decimals_ok_def example_decimals_def lawful_cmp_by)

lemma example_value_wf: "value_wf D example_value"
  by (simp add: example_value_def text_wf_def bound_wf_def set_ok_def value_cmp.simps cmp_of_def)

text \<open>C26: a stored value reads back as itself, and the reader and a write agree on which
values exist: a well-formed value of any type and shape decodes to itself unless it
nests deeper than the ceiling, and is then refused for that and nothing else.\<close>

theorem payload_round_trip:
  assumes "decimals_ok D" "value_wf D v"
  shows "payload_decode D (payload_encode v) =
    (if nests_deeper_than MAX_NESTING v then Inl (NestedTooDeep MAX_NESTING) else Inr v)"
  using readsD [OF take_value_reads [OF assms, of 0], of Record "[]" "[]"]
  by (simp add: payload_decode_def payload_encode_bytes reader_new_reading finish_reading)

theorem payload_round_trip_witness:
  "payload_decode example_decimals (payload_encode example_value) = Inr example_value"
proof -
  have "\<not> nests_deeper_than MAX_NESTING example_value"
    by (simp add: MAX_NESTING_def example_value_def numeral_eq_Suc)
  then show ?thesis
    using payload_round_trip [OF example_decimals_ok example_value_wf] by simp
qed

text \<open>C27: whatever bytes a payload holds, what is read from them is a value of the program's
types: text is UTF-8, times are normalised, objects are in the order of their
names, sets are in the order of values and hold no two equal ones, and no value
nests past the ceiling; read again from its own encoding it is the same value.\<close>

theorem payload_decode_well_formed:
  assumes "decimals_ok D" "payload_decode D bs = Inr v"
  shows "value_wf D v \<and> \<not> nests_deeper_than MAX_NESTING v \<and> payload_decode D (payload_encode v) = Inr v"
proof -
  obtain r where "take_value D 0 (reader_new Record bs) = Inr (v, r)"
    using assms(2) by (auto simp: payload_decode_def bindR_eq_Inr)
  from take_value_wf [OF assms(1) this] have wf: "value_wf D v" "\<not> nests_deeper_than MAX_NESTING v" by simp_all
  show ?thesis
    using wf readsD [OF take_value_reads [OF assms(1) wf(1), of 0], of Record "[]" "[]"]
    by (simp add: payload_decode_def payload_encode_bytes reader_new_reading finish_reading)
qed

theorem payload_decode_well_formed_witness:
  "payload_decode example_decimals (SET_TAG # u32_bytes 2 @ [NULL_TAG, NULL_TAG]) = Inr (VSet [VNull])
    \<and> value_wf example_decimals (VSet [VNull])"
proof -
  have null: "take_value D (Suc 0) (reading k pre (2 # rest)) = Inr (VNull, reading k (pre @ [2]) rest)"
    for D k pre rest
    by (simp add: take_tagged)
  have two: "take_each 2 f put acc r
      = bindR (f r) (\<lambda>(x, r). bindR (f r) (\<lambda>(y, r). Inr (put y (put x acc), r)))" for f put acc r
    by (simp add: numeral_2_eq_2 split_beta')
  have "value_cmp D VNull VNull = Equal" for D by (simp add: value_cmp.simps cmp_of_def)
  moreover have "deeper 0 = Inr 1" by (simp add: deeper_def MAX_NESTING_def)
  ultimately have "take_value example_decimals 0 (reading Record [] (SET_TAG # u32_bytes 2 @ [NULL_TAG, NULL_TAG]))
      = Inr (VSet [VNull], reading Record ((([] @ [SET_TAG]) @ u32_bytes 2) @ [NULL_TAG] @ [NULL_TAG]) [])"
    by (simp add: take_value.simps [of _ 0] take_u8_reading take_u32_enc two null value_tags)
  then have "payload_decode example_decimals (SET_TAG # u32_bytes 2 @ [NULL_TAG, NULL_TAG]) = Inr (VSet [VNull])"
    by (simp add: payload_decode_def reader_new_reading finish_reading)
  then show ?thesis using payload_decode_well_formed [OF example_decimals_ok] by blast
qed

text \<open>C28: the order of values is total: every two values of whatever types compare, turning
a comparison around turns its answer around, and comparisons chain, so that the
ordered sets and indexes built on it hold together.  It rests on the decimals being
ordered and on the float shortcut agreeing with them.\<close>

theorem value_order_total:
  assumes "decimals_ok D"
  shows "value_cmp D a a = Equal \<and> value_cmp D b a = flip (value_cmp D a b)
    \<and> (value_cmp D a b \<noteq> Greater \<longrightarrow> value_cmp D b c \<noteq> Greater \<longrightarrow> value_cmp D a c \<noteq> Greater)"
proof -
  note l = value_lawful [OF assms]
  have "value_cmp D b a = flip (value_cmp D a b)" using lawfulD(1) [OF l, of a b] by (simp add: swaps_def)
  moreover have "value_cmp D a c \<noteq> Greater" if "value_cmp D a b \<noteq> Greater" "value_cmp D b c \<noteq> Greater"
    using lawfulD(2) [OF l, of a b c] that
    by (cases "value_cmp D a b"; cases "value_cmp D b c") (simp_all add: chains_at_def chained_def)
  ultimately show ?thesis using lawful_refl [OF l] by blast
qed

theorem value_order_total_witness:
  "value_cmp example_decimals (VNumber (Integer 1)) (VString [98]) = Less
    \<and> value_cmp example_decimals (VString [98]) (VNumber (Integer 1)) = Greater"
  using value_order_total [OF example_decimals_ok, of "VNumber (Integer 1)" "VString [98]"]
  by (simp add: value_cmp.simps cmp_of_def)

end
