(* ===== verification/Order_Keys.thy ===== *)
theory Order_Keys
  imports Store_Keys
begin

text \<open>The keys that file a record under an order of its own: a topic's positions
(topic_key.rs), the instants versions expire at (expiry_key.rs), the versions of
a limited space (modified_key.rs) and a graph's adjacency (adjacency.rs).\<close>

section \<open>Topics\<close>

record topic_offset_key =
  to_namespace :: namespace_id
  to_database :: database_id
  to_table :: table_id
  to_offset :: u64
  to_id :: record_id

record topic_entry_key =
  te_namespace :: namespace_id
  te_database :: database_id
  te_table :: table_id
  te_id :: record_id
  te_offset :: u64

record topic_head_key =
  th_namespace :: namespace_id
  th_database :: database_id
  th_table :: table_id

definition topic_prefix :: "key_kind \<Rightarrow> namespace_id \<Rightarrow> database_id \<Rightarrow> table_id \<Rightarrow> bytes" where
  "topic_prefix kd ns db tb =
    (let w = writer_new; w = put_u8 (tag kd) w; w = put_u32 ns w; w = put_u32 db w;
         w = put_u32 tb w
     in writer_finish w)"

text \<open>The head and the byte count of a topic have one layout under two kinds.\<close>

definition topic_head_encode :: "topic_head_key \<Rightarrow> bytes" where
  "topic_head_encode k = topic_prefix TopicHead (th_namespace k) (th_database k) (th_table k)"

definition topic_bytes_encode :: "topic_head_key \<Rightarrow> bytes" where
  "topic_bytes_encode k = topic_prefix TopicBytes (th_namespace k) (th_database k) (th_table k)"

definition topic_head_decode :: "bytes \<Rightarrow> enc_error + topic_head_key" where
  "topic_head_decode bs =
    bindR (expect_kind (reader_new TopicHead bs)) (\<lambda>(_, r).
    bindR (take_u32 r) (\<lambda>(ns, r).
    bindR (take_u32 r) (\<lambda>(db, r).
    bindR (take_u32 r) (\<lambda>(tb, r).
    bindR (reader_finish r) (\<lambda>_.
      Inr \<lparr>th_namespace = ns, th_database = db, th_table = tb\<rparr>)))))"

definition topic_bytes_decode :: "bytes \<Rightarrow> enc_error + topic_head_key" where
  "topic_bytes_decode bs =
    bindR (expect_kind (reader_new TopicBytes bs)) (\<lambda>(_, r).
    bindR (take_u32 r) (\<lambda>(ns, r).
    bindR (take_u32 r) (\<lambda>(db, r).
    bindR (take_u32 r) (\<lambda>(tb, r).
    bindR (reader_finish r) (\<lambda>_.
      Inr \<lparr>th_namespace = ns, th_database = db, th_table = tb\<rparr>)))))"

definition topic_offset_table_prefix ::
  "namespace_id \<Rightarrow> database_id \<Rightarrow> table_id \<Rightarrow> bytes" where
  "topic_offset_table_prefix ns db tb = topic_prefix TopicOffset ns db tb"

definition topic_from_offset ::
  "namespace_id \<Rightarrow> database_id \<Rightarrow> table_id \<Rightarrow> u64 \<Rightarrow> bytes" where
  "topic_from_offset ns db tb offset =
    topic_offset_table_prefix ns db tb @ writer_finish (put_u64 offset writer_new)"

definition topic_entry_table_prefix ::
  "namespace_id \<Rightarrow> database_id \<Rightarrow> table_id \<Rightarrow> bytes" where
  "topic_entry_table_prefix ns db tb = topic_prefix TopicEntry ns db tb"

definition topic_message_prefix ::
  "namespace_id \<Rightarrow> database_id \<Rightarrow> table_id \<Rightarrow> record_id \<Rightarrow> bytes" where
  "topic_message_prefix ns db tb i =
    topic_prefix TopicEntry ns db tb @ writer_finish (put_record_id i writer_new)"

definition topic_offset_encode :: "topic_offset_key \<Rightarrow> bytes" where
  "topic_offset_encode k =
    topic_from_offset (to_namespace k) (to_database k) (to_table k) (to_offset k)
      @ writer_finish (put_record_id (to_id k) writer_new)"

definition topic_offset_decode :: "bytes \<Rightarrow> enc_error + topic_offset_key" where
  "topic_offset_decode bs =
    bindR (expect_kind (reader_new TopicOffset bs)) (\<lambda>(_, r).
    bindR (take_u32 r) (\<lambda>(ns, r).
    bindR (take_u32 r) (\<lambda>(db, r).
    bindR (take_u32 r) (\<lambda>(tb, r).
    bindR (take_u64 r) (\<lambda>(offset, r).
    bindR (take_record_id r) (\<lambda>(i, r).
    bindR (reader_finish r) (\<lambda>_.
      Inr \<lparr>to_namespace = ns, to_database = db, to_table = tb,
        to_offset = offset, to_id = i\<rparr>)))))))"

definition topic_entry_encode :: "topic_entry_key \<Rightarrow> bytes" where
  "topic_entry_encode k =
    topic_message_prefix (te_namespace k) (te_database k) (te_table k) (te_id k)
      @ writer_finish (put_u64 (te_offset k) writer_new)"

definition topic_entry_decode :: "bytes \<Rightarrow> enc_error + topic_entry_key" where
  "topic_entry_decode bs =
    bindR (expect_kind (reader_new TopicEntry bs)) (\<lambda>(_, r).
    bindR (take_u32 r) (\<lambda>(ns, r).
    bindR (take_u32 r) (\<lambda>(db, r).
    bindR (take_u32 r) (\<lambda>(tb, r).
    bindR (take_record_id r) (\<lambda>(i, r).
    bindR (take_u64 r) (\<lambda>(offset, r).
    bindR (reader_finish r) (\<lambda>_.
      Inr \<lparr>te_namespace = ns, te_database = db, te_table = tb,
        te_id = i, te_offset = offset\<rparr>)))))))"

lemma topic_prefix_bytes:
  "topic_prefix kd ns db tb = tag kd # u32_bytes ns @ u32_bytes db @ u32_bytes tb"
  by (simp add: topic_prefix_def put_simps)

definition topic_head_wf :: "topic_head_key \<Rightarrow> bool" where
  "topic_head_wf k \<longleftrightarrow> True"

definition topic_head_less :: "topic_head_key \<Rightarrow> topic_head_key \<Rightarrow> bool" where
  "topic_head_less a b \<longleftrightarrow>
    th_namespace a < th_namespace b \<or> th_namespace a = th_namespace b \<and>
    (th_database a < th_database b \<or> th_database a = th_database b \<and>
    (th_table a < th_table b))"

definition topic_offset_wf :: "topic_offset_key \<Rightarrow> bool" where
  "topic_offset_wf k \<longleftrightarrow> record_id_wf (to_id k)"

definition topic_offset_less :: "topic_offset_key \<Rightarrow> topic_offset_key \<Rightarrow> bool" where
  "topic_offset_less a b \<longleftrightarrow>
    to_namespace a < to_namespace b \<or> to_namespace a = to_namespace b \<and>
    (to_database a < to_database b \<or> to_database a = to_database b \<and>
    (to_table a < to_table b \<or> to_table a = to_table b \<and>
    (to_offset a < to_offset b \<or> to_offset a = to_offset b \<and>
    (record_id_less (to_id a) (to_id b)))))"

definition topic_entry_wf :: "topic_entry_key \<Rightarrow> bool" where
  "topic_entry_wf k \<longleftrightarrow> record_id_wf (te_id k)"

definition topic_entry_less :: "topic_entry_key \<Rightarrow> topic_entry_key \<Rightarrow> bool" where
  "topic_entry_less a b \<longleftrightarrow>
    te_namespace a < te_namespace b \<or> te_namespace a = te_namespace b \<and>
    (te_database a < te_database b \<or> te_database a = te_database b \<and>
    (te_table a < te_table b \<or> te_table a = te_table b \<and>
    (record_id_less (te_id a) (te_id b) \<or> te_id a = te_id b \<and>
    (te_offset a < te_offset b))))"

lemma topic_head_bytes:
  "topic_head_encode k = tag TopicHead # u32_bytes (th_namespace k) @ u32_bytes (th_database k)
    @ u32_bytes (th_table k)"
  by (simp add: topic_head_encode_def topic_prefix_bytes)

lemma topic_bytes_bytes:
  "topic_bytes_encode k = tag TopicBytes # u32_bytes (th_namespace k) @ u32_bytes (th_database k)
    @ u32_bytes (th_table k)"
  by (simp add: topic_bytes_encode_def topic_prefix_bytes)

lemma topic_offset_bytes:
  "topic_offset_encode k = tag TopicOffset # u32_bytes (to_namespace k)
    @ u32_bytes (to_database k) @ u32_bytes (to_table k) @ u64_bytes (to_offset k)
    @ record_id_key (to_id k)"
  by (simp add: topic_offset_encode_def topic_from_offset_def topic_offset_table_prefix_def
      topic_prefix_bytes put_simps)

lemma topic_entry_bytes:
  "topic_entry_encode k = tag TopicEntry # u32_bytes (te_namespace k)
    @ u32_bytes (te_database k) @ u32_bytes (te_table k) @ record_id_key (te_id k)
    @ u64_bytes (te_offset k)"
  by (simp add: topic_entry_encode_def topic_message_prefix_def topic_prefix_bytes put_simps)

interpretation head_keys: ordered_store_key TopicHead topic_head_wf topic_head_encode topic_head_decode topic_head_less
proof
  fix k l :: topic_head_key
  assume wf: "topic_head_wf k"
  then show "topic_head_decode (topic_head_encode k) = Inr k"
    by (cases k) (simp add: topic_head_decode_def topic_head_bytes topic_head_wf_def key_take)
  assume "topic_head_wf l"
  with wf show "topic_head_encode k < topic_head_encode l \<longleftrightarrow> topic_head_less k l"
    by (simp add: topic_head_bytes topic_head_less_def topic_head_wf_def key_order key_order_end)
qed (simp add: topic_head_bytes)

interpretation topic_byte_keys: ordered_store_key TopicBytes topic_head_wf topic_bytes_encode topic_bytes_decode topic_head_less
proof
  fix k l :: topic_head_key
  assume wf: "topic_head_wf k"
  then show "topic_bytes_decode (topic_bytes_encode k) = Inr k"
    by (cases k) (simp add: topic_bytes_decode_def topic_bytes_bytes topic_head_wf_def key_take)
  assume "topic_head_wf l"
  with wf show "topic_bytes_encode k < topic_bytes_encode l \<longleftrightarrow> topic_head_less k l"
    by (simp add: topic_bytes_bytes topic_head_less_def topic_head_wf_def key_order key_order_end)
qed (simp add: topic_bytes_bytes)

interpretation offset_keys: ordered_store_key TopicOffset topic_offset_wf topic_offset_encode topic_offset_decode topic_offset_less
proof
  fix k l :: topic_offset_key
  assume wf: "topic_offset_wf k"
  then show "topic_offset_decode (topic_offset_encode k) = Inr k"
    by (cases k) (simp add: topic_offset_decode_def topic_offset_bytes topic_offset_wf_def key_take)
  assume "topic_offset_wf l"
  with wf show "topic_offset_encode k < topic_offset_encode l \<longleftrightarrow> topic_offset_less k l"
    by (simp add: topic_offset_bytes topic_offset_less_def topic_offset_wf_def key_order key_order_end)
qed (simp add: topic_offset_bytes)

interpretation entry_keys: ordered_store_key TopicEntry topic_entry_wf topic_entry_encode topic_entry_decode topic_entry_less
proof
  fix k l :: topic_entry_key
  assume wf: "topic_entry_wf k"
  then show "topic_entry_decode (topic_entry_encode k) = Inr k"
    by (cases k) (simp add: topic_entry_decode_def topic_entry_bytes topic_entry_wf_def key_take)
  assume "topic_entry_wf l"
  with wf show "topic_entry_encode k < topic_entry_encode l \<longleftrightarrow> topic_entry_less k l"
    by (simp add: topic_entry_bytes topic_entry_less_def topic_entry_wf_def key_order key_order_end)
qed (simp add: topic_entry_bytes)

lemma topic_offsets_exact:
  "prefix (topic_offset_table_prefix ns db tb) (topic_offset_encode k) \<longleftrightarrow>
    to_namespace k = ns \<and> to_database k = db \<and> to_table k = tb"
  by (auto simp: topic_offset_table_prefix_def topic_prefix_bytes topic_offset_bytes key_prefix
      u32k.prefix_enc_self)

lemma topic_message_exact:
  assumes "record_id_wf i" "topic_entry_wf k"
  shows "prefix (topic_message_prefix ns db tb i) (topic_entry_encode k) \<longleftrightarrow>
    te_namespace k = ns \<and> te_database k = db \<and> te_table k = tb \<and> te_id k = i"
  using assms
  by (auto simp: topic_message_prefix_def topic_prefix_bytes topic_entry_bytes put_simps key_prefix
      topic_entry_wf_def)

text \<open>A forward read of a topic that seeks to a position meets that position and
the later ones, and none before it.\<close>

lemma topic_from_offset_le:
  assumes "to_namespace k = ns" "to_database k = db" "to_table k = tb"
  shows "topic_from_offset ns db tb offset \<le> topic_offset_encode k \<longleftrightarrow> offset \<le> to_offset k"
proof -
  have "topic_offset_encode k < topic_from_offset ns db tb offset \<longleftrightarrow> to_offset k < offset"
    using assms u64k.order [where t = "[]"]
    by (simp add: topic_from_offset_def topic_offset_table_prefix_def topic_prefix_bytes
        topic_offset_bytes put_simps key_order)
  then show ?thesis by (simp flip: not_less)
qed

section \<open>Expiry\<close>

record expiry_key =
  ek_at :: u64
  ek_namespace :: namespace_id
  ek_database :: database_id
  ek_table :: table_id
  ek_id :: record_id

definition checked_add_u64 :: "u64 \<Rightarrow> u64 \<Rightarrow> u64 option" where
  "checked_add_u64 a b = (if unat a + unat b < 2 ^ 64 then Some (a + b) else None)"

definition passed_by :: "u64 \<Rightarrow> key_range" where
  "passed_by now =
    (let start = [tag ExpiryIndex]; w = put_u8 (tag ExpiryIndex) writer_new in
     case checked_add_u64 now 1 of
       Some past \<Rightarrow> key_range_between start (writer_finish (put_u64 past w))
     | None \<Rightarrow> key_range_prefix start)"

definition expiry_encode :: "expiry_key \<Rightarrow> bytes" where
  "expiry_encode k =
    (let w = writer_new; w = put_u8 (tag ExpiryIndex) w; w = put_u64 (ek_at k) w;
         w = put_u32 (ek_namespace k) w; w = put_u32 (ek_database k) w;
         w = put_u32 (ek_table k) w; w = put_record_id (ek_id k) w
     in writer_finish w)"

definition expiry_decode :: "bytes \<Rightarrow> enc_error + expiry_key" where
  "expiry_decode bs =
    bindR (expect_kind (reader_new ExpiryIndex bs)) (\<lambda>(_, r).
    bindR (take_u64 r) (\<lambda>(at, r).
    bindR (take_u32 r) (\<lambda>(ns, r).
    bindR (take_u32 r) (\<lambda>(db, r).
    bindR (take_u32 r) (\<lambda>(tb, r).
    bindR (take_record_id r) (\<lambda>(i, r).
    bindR (reader_finish r) (\<lambda>_.
      Inr \<lparr>ek_at = at, ek_namespace = ns, ek_database = db, ek_table = tb,
        ek_id = i\<rparr>)))))))"

definition expiry_wf :: "expiry_key \<Rightarrow> bool" where
  "expiry_wf k \<longleftrightarrow> record_id_wf (ek_id k)"

definition expiry_less :: "expiry_key \<Rightarrow> expiry_key \<Rightarrow> bool" where
  "expiry_less a b \<longleftrightarrow>
    ek_at a < ek_at b \<or> ek_at a = ek_at b \<and>
    (ek_namespace a < ek_namespace b \<or> ek_namespace a = ek_namespace b \<and>
    (ek_database a < ek_database b \<or> ek_database a = ek_database b \<and>
    (ek_table a < ek_table b \<or> ek_table a = ek_table b \<and>
    (record_id_less (ek_id a) (ek_id b)))))"

lemma expiry_bytes:
  "expiry_encode k = tag ExpiryIndex # u64_bytes (ek_at k) @ u32_bytes (ek_namespace k)
    @ u32_bytes (ek_database k) @ u32_bytes (ek_table k) @ record_id_key (ek_id k)"
  by (simp add: expiry_encode_def put_simps)

interpretation expiry_keys: ordered_store_key ExpiryIndex expiry_wf expiry_encode expiry_decode expiry_less
proof
  fix k l :: expiry_key
  assume wf: "expiry_wf k"
  then show "expiry_decode (expiry_encode k) = Inr k"
    by (cases k) (simp add: expiry_decode_def expiry_bytes expiry_wf_def key_take)
  assume "expiry_wf l"
  with wf show "expiry_encode k < expiry_encode l \<longleftrightarrow> expiry_less k l"
    by (simp add: expiry_bytes expiry_less_def expiry_wf_def key_order key_order_end)
qed (simp add: expiry_bytes)

lemma checked_add_u64_one:
  "checked_add_u64 n 1 = Some m \<Longrightarrow> a < m \<longleftrightarrow> a \<le> n"
  "checked_add_u64 n 1 = None \<Longrightarrow> a \<le> n"
  using unat_less_bytes(3) [of a]
  by (auto simp: checked_add_u64_def word_less_nat_alt word_le_nat_alt unat_word_ariths
      less_Suc_eq_le split: if_splits)

lemma passed_by_exact: "in_range (passed_by now) (expiry_encode k) \<longleftrightarrow> ek_at k \<le> now"
proof (cases "checked_add_u64 now 1")
  case None
  then show ?thesis
    using checked_add_u64_one(2) [OF None, of "ek_at k"]
    by (simp add: passed_by_def expiry_bytes)
next
  case (Some past)
  then show ?thesis
    using checked_add_u64_one(1) [OF Some, of "ek_at k"]
      u64k.order [where t = "[]"]
    by (simp add: passed_by_def expiry_bytes in_range_def key_range_between_def put_simps)
qed

section \<open>The modified order of a limited space\<close>

record modified_key =
  mk_namespace :: namespace_id
  mk_database :: database_id
  mk_table :: table_id
  mk_version :: sequence
  mk_id :: record_id

definition modified_table_prefix :: "namespace_id \<Rightarrow> database_id \<Rightarrow> table_id \<Rightarrow> bytes" where
  "modified_table_prefix ns db tb =
    (let w = writer_new; w = put_u8 (tag ModifiedOrder) w; w = put_u32 ns w; w = put_u32 db w;
         w = put_u32 tb w
     in writer_finish w)"

definition modified_encode :: "modified_key \<Rightarrow> bytes" where
  "modified_encode k =
    modified_table_prefix (mk_namespace k) (mk_database k) (mk_table k)
      @ writer_finish (put_record_id (mk_id k) (put_u64 (mk_version k) writer_new))"

definition modified_decode :: "bytes \<Rightarrow> enc_error + modified_key" where
  "modified_decode bs =
    bindR (expect_kind (reader_new ModifiedOrder bs)) (\<lambda>(_, r).
    bindR (take_u32 r) (\<lambda>(ns, r).
    bindR (take_u32 r) (\<lambda>(db, r).
    bindR (take_u32 r) (\<lambda>(tb, r).
    bindR (take_u64 r) (\<lambda>(v, r).
    bindR (take_record_id r) (\<lambda>(i, r).
    bindR (reader_finish r) (\<lambda>_.
      Inr \<lparr>mk_namespace = ns, mk_database = db, mk_table = tb,
        mk_version = v, mk_id = i\<rparr>)))))))"

definition modified_wf :: "modified_key \<Rightarrow> bool" where
  "modified_wf k \<longleftrightarrow> record_id_wf (mk_id k)"

definition modified_less :: "modified_key \<Rightarrow> modified_key \<Rightarrow> bool" where
  "modified_less a b \<longleftrightarrow>
    mk_namespace a < mk_namespace b \<or> mk_namespace a = mk_namespace b \<and>
    (mk_database a < mk_database b \<or> mk_database a = mk_database b \<and>
    (mk_table a < mk_table b \<or> mk_table a = mk_table b \<and>
    (mk_version a < mk_version b \<or> mk_version a = mk_version b \<and>
    (record_id_less (mk_id a) (mk_id b)))))"

lemma modified_bytes:
  "modified_encode k = tag ModifiedOrder # u32_bytes (mk_namespace k)
    @ u32_bytes (mk_database k) @ u32_bytes (mk_table k) @ u64_bytes (mk_version k)
    @ record_id_key (mk_id k)"
  by (simp add: modified_encode_def modified_table_prefix_def put_simps)

interpretation modified_keys: ordered_store_key ModifiedOrder modified_wf modified_encode modified_decode modified_less
proof
  fix k l :: modified_key
  assume wf: "modified_wf k"
  then show "modified_decode (modified_encode k) = Inr k"
    by (cases k) (simp add: modified_decode_def modified_bytes modified_wf_def key_take)
  assume "modified_wf l"
  with wf show "modified_encode k < modified_encode l \<longleftrightarrow> modified_less k l"
    by (simp add: modified_bytes modified_less_def modified_wf_def key_order key_order_end)
qed (simp add: modified_bytes)

lemma modified_table_exact:
  "prefix (modified_table_prefix ns db tb) (modified_encode k) \<longleftrightarrow>
    mk_namespace k = ns \<and> mk_database k = db \<and> mk_table k = tb"
  by (auto simp: modified_table_prefix_def modified_bytes put_simps key_prefix
      u32k.prefix_enc_self)

section \<open>Adjacency\<close>

type_synonym graph_id = u32
type_synonym edge_kind_id = u32

datatype direction = Out | In

fun direction_tag :: "direction \<Rightarrow> u8" where
  "direction_tag Out = 0x00"
| "direction_tag In = 0x01"

definition direction_from_tag :: "u8 \<Rightarrow> enc_error + direction" where
  "direction_from_tag t =
    (if t = 0x00 then Inr Out else if t = 0x01 then Inr In else Inl (UnknownDirection t))"

fun opposite :: "direction \<Rightarrow> direction" where
  "opposite Out = In"
| "opposite In = Out"

record adjacency_key =
  ak_namespace :: namespace_id
  ak_database :: database_id
  ak_graph :: graph_id
  ak_node_table :: table_id
  ak_node :: record_id
  ak_edge_kind :: edge_kind_id
  ak_direction :: direction
  ak_neighbour_table :: table_id
  ak_neighbour :: record_id

definition mirror :: "adjacency_key \<Rightarrow> adjacency_key" where
  "mirror k = \<lparr>ak_namespace = ak_namespace k, ak_database = ak_database k,
     ak_graph = ak_graph k, ak_node_table = ak_neighbour_table k, ak_node = ak_neighbour k,
     ak_edge_kind = ak_edge_kind k, ak_direction = opposite (ak_direction k),
     ak_neighbour_table = ak_node_table k, ak_neighbour = ak_node k\<rparr>"

definition graph_prefix :: "namespace_id \<Rightarrow> database_id \<Rightarrow> graph_id \<Rightarrow> bytes" where
  "graph_prefix ns db g =
    (let w = writer_new; w = put_u8 (tag Edge) w; w = put_u32 ns w; w = put_u32 db w;
         w = put_u32 g w
     in writer_finish w)"

definition node_prefix ::
  "namespace_id \<Rightarrow> database_id \<Rightarrow> graph_id \<Rightarrow> table_id \<Rightarrow> record_id \<Rightarrow> bytes" where
  "node_prefix ns db g tb node =
    graph_prefix ns db g @ writer_finish (put_record_id node (put_u32 tb writer_new))"

definition hop_prefix ::
  "namespace_id \<Rightarrow> database_id \<Rightarrow> graph_id \<Rightarrow> table_id \<Rightarrow> record_id \<Rightarrow> edge_kind_id \<Rightarrow>
    direction \<Rightarrow> bytes" where
  "hop_prefix ns db g tb node ek dir =
    node_prefix ns db g tb node
      @ writer_finish (put_u8 (direction_tag dir) (put_u32 ek writer_new))"

definition adjacency_encode :: "adjacency_key \<Rightarrow> bytes" where
  "adjacency_encode k =
    hop_prefix (ak_namespace k) (ak_database k) (ak_graph k) (ak_node_table k) (ak_node k)
      (ak_edge_kind k) (ak_direction k)
      @ writer_finish (put_record_id (ak_neighbour k)
          (put_u32 (ak_neighbour_table k) writer_new))"

definition adjacency_decode :: "bytes \<Rightarrow> enc_error + adjacency_key" where
  "adjacency_decode bs =
    bindR (expect_kind (reader_new Edge bs)) (\<lambda>(_, r).
    bindR (take_u32 r) (\<lambda>(ns, r).
    bindR (take_u32 r) (\<lambda>(db, r).
    bindR (take_u32 r) (\<lambda>(g, r).
    bindR (take_u32 r) (\<lambda>(tb, r).
    bindR (take_record_id r) (\<lambda>(node, r).
    bindR (take_u32 r) (\<lambda>(ek, r).
    bindR (take_u8 r) (\<lambda>(d, r).
    bindR (direction_from_tag d) (\<lambda>dir.
    bindR (take_u32 r) (\<lambda>(ntb, r).
    bindR (take_record_id r) (\<lambda>(neighbour, r).
    bindR (reader_finish r) (\<lambda>_.
      Inr \<lparr>ak_namespace = ns, ak_database = db, ak_graph = g, ak_node_table = tb,
        ak_node = node, ak_edge_kind = ek, ak_direction = dir, ak_neighbour_table = ntb,
        ak_neighbour = neighbour\<rparr>))))))))))))"

definition adjacency_wf :: "adjacency_key \<Rightarrow> bool" where
  "adjacency_wf k \<longleftrightarrow> record_id_wf (ak_node k) \<and> record_id_wf (ak_neighbour k)"

fun direction_less :: "direction \<Rightarrow> direction \<Rightarrow> bool" where
  "direction_less Out In \<longleftrightarrow> True"
| "direction_less _ _ \<longleftrightarrow> False"

definition adjacency_less :: "adjacency_key \<Rightarrow> adjacency_key \<Rightarrow> bool" where
  "adjacency_less a b \<longleftrightarrow>
    ak_namespace a < ak_namespace b \<or> ak_namespace a = ak_namespace b \<and>
    (ak_database a < ak_database b \<or> ak_database a = ak_database b \<and>
    (ak_graph a < ak_graph b \<or> ak_graph a = ak_graph b \<and>
    (ak_node_table a < ak_node_table b \<or> ak_node_table a = ak_node_table b \<and>
    (record_id_less (ak_node a) (ak_node b) \<or> ak_node a = ak_node b \<and>
    (ak_edge_kind a < ak_edge_kind b \<or> ak_edge_kind a = ak_edge_kind b \<and>
    (direction_less (ak_direction a) (ak_direction b) \<or> ak_direction a = ak_direction b \<and>
    (ak_neighbour_table a < ak_neighbour_table b \<or> ak_neighbour_table a = ak_neighbour_table b \<and>
    (record_id_less (ak_neighbour a) (ak_neighbour b)))))))))"

lemma direction_round_trip [simp]: "direction_from_tag (direction_tag d) = Inr d"
  by (cases d) (simp_all add: direction_from_tag_def)

lemma direction_tag_order [simp]:
  "direction_tag a < direction_tag b \<longleftrightarrow> direction_less a b"
  "direction_tag a = direction_tag b \<longleftrightarrow> a = b"
  by (cases a; cases b; simp)+

lemma adjacency_bytes:
  "adjacency_encode k = tag Edge # u32_bytes (ak_namespace k) @ u32_bytes (ak_database k)
    @ u32_bytes (ak_graph k) @ u32_bytes (ak_node_table k) @ record_id_key (ak_node k)
    @ u32_bytes (ak_edge_kind k) @ direction_tag (ak_direction k)
    # u32_bytes (ak_neighbour_table k) @ record_id_key (ak_neighbour k)"
  by (simp add: adjacency_encode_def hop_prefix_def node_prefix_def graph_prefix_def put_simps)

interpretation adjacency_keys: ordered_store_key Edge adjacency_wf adjacency_encode adjacency_decode adjacency_less
proof
  fix k l :: adjacency_key
  assume wf: "adjacency_wf k"
  then show "adjacency_decode (adjacency_encode k) = Inr k"
    by (cases k) (simp add: adjacency_decode_def adjacency_bytes adjacency_wf_def key_take)
  assume "adjacency_wf l"
  with wf show "adjacency_encode k < adjacency_encode l \<longleftrightarrow> adjacency_less k l"
    by (simp add: adjacency_bytes adjacency_less_def adjacency_wf_def key_order key_order_end)
qed (simp add: adjacency_bytes)

lemma mirror_mirror [simp]: "mirror (mirror k) = k"
  by (cases k; cases "ak_direction k") (simp_all add: mirror_def)

lemma hop_prefix_exact:
  assumes "record_id_wf node" "adjacency_wf k"
  shows "prefix (hop_prefix ns db g tb node ek dir) (adjacency_encode k) \<longleftrightarrow>
    ak_namespace k = ns \<and> ak_database k = db \<and> ak_graph k = g \<and> ak_node_table k = tb
    \<and> ak_node k = node \<and> ak_edge_kind k = ek \<and> ak_direction k = dir"
  using assms
  by (auto simp: hop_prefix_def node_prefix_def graph_prefix_def put_simps adjacency_bytes
      adjacency_wf_def key_prefix)

lemma node_prefix_exact:
  assumes "record_id_wf node" "adjacency_wf k"
  shows "prefix (node_prefix ns db g tb node) (adjacency_encode k) \<longleftrightarrow>
    ak_namespace k = ns \<and> ak_database k = db \<and> ak_graph k = g \<and> ak_node_table k = tb
    \<and> ak_node k = node"
  using assms
  by (auto simp: node_prefix_def graph_prefix_def put_simps adjacency_bytes
      adjacency_wf_def key_prefix)

lemma graph_prefix_exact:
  "prefix (graph_prefix ns db g) (adjacency_encode k) \<longleftrightarrow>
    ak_namespace k = ns \<and> ak_database k = db \<and> ak_graph k = g"
  by (auto simp: graph_prefix_def put_simps adjacency_bytes key_prefix u32k.prefix_enc_self)

section \<open>Properties\<close>

text \<open>The range of what has expired by an instant holds exactly the expiry entries
at or before it, also when the instant is the last of the clock.\<close>

theorem expired_entries_exact:
  "in_range (passed_by now) (expiry_encode k) \<longleftrightarrow> ek_at k \<le> now"
  by (rule passed_by_exact)

text \<open>A topic's positions: its offset keys sort by position under the topic's
prefix, a read that seeks to a position meets it and every later one and none
before, and the entry of a message is the only key under the message's prefix.\<close>

theorem topic_positions:
  assumes "topic_offset_wf k" "topic_offset_wf l" "to_namespace k = ns" "to_database k = db"
    "to_table k = tb" "to_namespace l = ns" "to_database l = db" "to_table l = tb"
    "record_id_wf i" "topic_entry_wf e"
  shows "(topic_from_offset ns db tb n \<le> topic_offset_encode k \<longleftrightarrow> n \<le> to_offset k)
    \<and> prefix (topic_offset_table_prefix ns db tb) (topic_offset_encode k)
    \<and> (to_offset k < to_offset l \<longrightarrow> topic_offset_encode k < topic_offset_encode l)
    \<and> (prefix (topic_message_prefix ns db tb i) (topic_entry_encode e) \<longleftrightarrow>
        te_namespace e = ns \<and> te_database e = db \<and> te_table e = tb \<and> te_id e = i)"
  using assms topic_from_offset_le [of k ns db tb n] topic_offsets_exact [of ns db tb k]
    offset_keys.encode_order [of k l] topic_message_exact [of i e ns db tb]
  by (simp add: topic_offset_less_def)

text \<open>Adjacency: an entry decodes to what was encoded, the entry on the other end
of an edge is the one whose other end is this entry, and the prefix a hop scans
covers exactly the node's edges of one kind in one direction.\<close>

theorem adjacency_hops:
  assumes "adjacency_wf k" "record_id_wf node"
  shows "adjacency_decode (adjacency_encode k) = Inr k
    \<and> mirror (mirror k) = k \<and> ak_direction (mirror k) \<noteq> ak_direction k
    \<and> (prefix (hop_prefix ns db g tb node ek dir) (adjacency_encode k) \<longleftrightarrow>
        ak_namespace k = ns \<and> ak_database k = db \<and> ak_graph k = g \<and> ak_node_table k = tb
        \<and> ak_node k = node \<and> ak_edge_kind k = ek \<and> ak_direction k = dir)
    \<and> (prefix (graph_prefix ns db g) (adjacency_encode k) \<longleftrightarrow>
        ak_namespace k = ns \<and> ak_database k = db \<and> ak_graph k = g)"
proof -
  have "ak_direction (mirror k) \<noteq> ak_direction k"
    by (cases "ak_direction k") (simp_all add: mirror_def)
  then show ?thesis
    using assms adjacency_keys.round_trip [OF assms(1)] hop_prefix_exact [OF assms(2,1)]
      graph_prefix_exact by simp
qed

end
