(* ===== verification/Campaign.thy ===== *)
theory Campaign
  imports Grant
begin

text \<open>When a leader stands again and what it puts to its peers (campaign.rs and
driver/leadership/renewing.rs of tessari-wire): the pass of a candidate from the
margin that is left to the round it runs, the memory of the leadership a node
holds and of the rounds it lost, and the waits that keep candidates apart.  The
votes a canvass brings back are an argument: they are what the network answered.\<close>

section \<open>One pass at standing\<close>

datatype stood = NotDue | Won leadership_won | Lost epoch

definition stood_won :: "stood \<Rightarrow> leadership_won option" where
  "stood_won s = (case s of Won l \<Rightarrow> Some l | NotDue \<Rightarrow> None | Lost _ \<Rightarrow> None)"

definition note_epoch :: "epoch \<Rightarrow> vote \<Rightarrow> epoch" where
  "note_epoch highest v =
    (case v of
       Refused (EpochAlreadyDecided e) \<Rightarrow> if highest < e then e else highest
     | _ \<Rightarrow> highest)"

definition renew_in :: "lease \<Rightarrow> duration \<Rightarrow> instant \<Rightarrow> duration" where
  "renew_in l rt now = lease_left l now - saturating_mul_dur rt 2"

record standing =
  s_candidate :: node
  s_peers :: "node list"
  s_round :: duration
  s_range :: reach
  s_lease :: duration
  s_reached :: reached

definition round_of :: "standing \<Rightarrow> epoch \<Rightarrow> instant \<Rightarrow> round" where
  "round_of st e now =
    leasing (s_lease st)
      (over_range (s_range st) (opened_at e (s_candidate st) (length (s_peers st) + 1) now))"

definition count_vote :: "node \<Rightarrow> vote \<Rightarrow> epoch \<times> round \<Rightarrow> epoch \<times> round" where
  "count_vote n v gr = (note_epoch (fst gr) v, fst (counts n v (snd gr)))"

definition cast_own ::
  "standing \<Rightarrow> instant \<Rightarrow> deciding \<times> epoch \<times> round \<Rightarrow> deciding \<times> epoch \<times> round" where
  "cast_own st now m =
    (case m of (mem, gr) \<Rightarrow>
       if needs (snd gr) \<le> 1
       then
         (case deciding_asked mem (r_ballot (snd gr)) now (s_reached st) (s_reached st) of
            (mem, v, _) \<Rightarrow> (mem, count_vote (s_candidate st) v gr))
       else (mem, gr))"

definition conclude :: "instant \<Rightarrow> deciding \<times> epoch \<times> round \<Rightarrow> deciding \<times> stood" where
  "conclude now m =
    (case m of (mem, g, r) \<Rightarrow>
       (case round_held r of
          None \<Rightarrow> (mem, Lost g)
        | Some l \<Rightarrow>
            (case deciding_carried mem (r_ballot r) now of
               (mem, Inr _) \<Rightarrow> (mem, Won l)
             | (mem, Inl promised) \<Rightarrow> (mem, Lost (max g promised)))))"

definition renew ::
  "standing \<Rightarrow> (ballot \<Rightarrow> (node \<times> vote) list) \<Rightarrow> deciding \<Rightarrow> lease \<Rightarrow> epoch \<Rightarrow> instant
    \<Rightarrow> deciding \<times> stood" where
  "renew st canvass mem l e now =
    (if renew_in l (s_round st) now > 0 then (mem, NotDue)
     else
       (let r = round_of st e now;
            gr = foldl (\<lambda>gr (n, v). count_vote n v gr) (0, r) (canvass (r_ballot r))
        in conclude now (cast_own st now (mem, gr))))"

section \<open>Waits that keep candidates apart\<close>

text \<open>The words of a byte string in chunks of eight, the first byte of a chunk lowest.\<close>

fun chunk_words :: "nat \<Rightarrow> bytes \<Rightarrow> u64 list" where
  "chunk_words 0 _ = []"
| "chunk_words (Suc n) [] = []"
| "chunk_words (Suc n) bs =
    foldr (\<lambda>b acc. ucast b + acc * 256) (take 8 bs) 0 # chunk_words n (drop 8 bs)"

unbundle bit_operations_syntax

definition mix :: "u64 \<Rightarrow> u64 \<Rightarrow> u64" where
  "mix mixed chunk =
    (let mixed = (mixed XOR chunk) + 0x9e3779b97f4a7c15;
         mixed = (mixed XOR drop_bit 30 mixed) * 0xbf58476d1ce4e5b9;
         mixed = (mixed XOR drop_bit 27 mixed) * 0x94d049bb133111eb
     in mixed XOR drop_bit 31 mixed)"

definition spread :: "node \<Rightarrow> epoch \<Rightarrow> nat \<Rightarrow> duration" where
  "spread c e ms =
    from_millis (unat (foldl mix e (chunk_words (length c) c)) mod max ms 1)"

definition stagger :: "node \<Rightarrow> epoch \<Rightarrow> duration" where
  "stagger c e = spread c e ROUND_MILLIS"

definition ELECTION_JITTER_MILLIS :: nat where
  "ELECTION_JITTER_MILLIS = 150"

definition election_timeout :: "node \<Rightarrow> epoch \<Rightarrow> duration \<Rightarrow> duration" where
  "election_timeout me e d = saturating_add_dur d (spread me e ELECTION_JITTER_MILLIS)"

section \<open>The leadership a node holds\<close>

record renewing_state =
  standing_on :: leadership_won
  stood_for :: epoch
  heard :: epoch
  not_before :: "instant option"

definition renewing_holding :: "leadership_won \<Rightarrow> renewing_state" where
  "renewing_holding l =
    \<lparr>standing_on = l, stood_for = lw_epoch l, heard = 0, not_before = None\<rparr>"

definition above :: "epoch \<Rightarrow> renewing_state \<Rightarrow> renewing_state" where
  "above e c = c\<lparr>heard := max (heard c) e\<rparr>"

definition saturating_succ :: "epoch \<Rightarrow> epoch" where
  "saturating_succ e = (if e = - 1 then - 1 else e + 1)"

definition due_epoch :: "renewing_state \<Rightarrow> epoch" where
  "due_epoch c =
    (let h = lw_epoch (standing_on c) in
     if h > 0 \<and> stood_for c = h \<and> heard c \<le> h then h
     else saturating_succ (max (max h (stood_for c)) (heard c)))"

definition due :: "renewing_state \<Rightarrow> instant \<Rightarrow> (lease \<times> epoch) option" where
  "due c now =
    (if (case not_before c of Some t \<Rightarrow> now < t | None \<Rightarrow> False) then None
     else Some (leadership_lease (standing_on c), due_epoch c))"

definition answered :: "node \<Rightarrow> instant \<Rightarrow> epoch \<Rightarrow> stood \<Rightarrow> renewing_state \<Rightarrow> renewing_state" where
  "answered me now e s c =
    (case s of
       NotDue \<Rightarrow> c
     | Won l \<Rightarrow> c\<lparr>standing_on := l, stood_for := lw_epoch l, not_before := None\<rparr>
     | Lost g \<Rightarrow>
         c\<lparr>stood_for := e, heard := (if heard c < g then g else heard c),
           not_before := checked_add now (stagger me e)\<rparr>)"

definition once ::
  "node \<Rightarrow> instant \<Rightarrow> (lease \<Rightarrow> epoch \<Rightarrow> stood) \<Rightarrow> renewing_state \<Rightarrow> renewing_state \<times> leadership_won" where
  "once me now pass c =
    (case due c now of
       Some (l, e) \<Rightarrow> (let c = answered me now e (pass l e) c in (c, standing_on c))
     | None \<Rightarrow> (c, standing_on c))"

definition line_cursor :: "instant \<Rightarrow> epoch \<Rightarrow> renewing_state" where
  "line_cursor t written =
    above written (renewing_holding
      \<lparr>lw_epoch = 0, lw_from = or_else (checked_sub t TTL) t, lw_length = TTL\<rparr>)"

section \<open>Facts about a pass\<close>

lemma spread_lt: "spread c e ms < from_millis (max ms 1)"
  by (simp add: spread_def from_millis_def)

lemma round_of_simps [simp]:
  "r_ballot (round_of st e now) = \<lparr>b_epoch = e, b_candidate = s_candidate st, b_range = s_range st\<rparr>"
  "r_voters (round_of st e now) = length (s_peers st) + 1"
  "r_opened (round_of st e now) = now" "r_granted (round_of st e now) = []"
  "r_shortest (round_of st e now) = s_lease st"
  by (simp_all add: round_of_def leasing_def over_range_def opened_at_def)

lemma count_vote_snd [simp]: "snd (count_vote n v gr) = counted n v (snd gr)"
  by (simp add: count_vote_def counts_def Let_def)

lemma answered_standing [simp]:
  "standing_on (answered me now e s c) = (case s of Won l \<Rightarrow> l | _ \<Rightarrow> standing_on c)"
  by (cases s) (simp_all add: answered_def)

text \<open>The cursor a node starts with stands on a lease that is spent.\<close>

lemma line_cursor_fenced:
  assumes "- INSTANT_END \<le> t - int TTL" "t < INSTANT_END" "t \<le> now"
  shows "fenced (leadership_lease (standing_on (line_cursor t written))) now"
proof -
  have "standing_on (line_cursor t written)
      = \<lparr>lw_epoch = 0, lw_from = t - int TTL, lw_length = TTL\<rparr>"
    using assms(1) by (simp add: line_cursor_def above_def renewing_holding_def checked_sub_def)
  then show ?thesis
    using assms taken_at_fence_le [of "t - int TTL" TTL]
    by (simp add: leadership_lease_def fenced_def)
qed

section \<open>Properties\<close>

text \<open>Standing again: a pass asks nobody while more than two rounds of the writable
window are left; a lost round for an epoch the node does not hold is never asked
again, a refusal that names a higher epoch is stood past, and the wait after a loss
is shorter than a round.\<close>

theorem lost_round_moves_on:
  assumes "e < - 1" "g < - 1" "c' = answered me now e (Lost g) c"
  shows "(e \<noteq> lw_epoch (standing_on c) \<longrightarrow> e < due_epoch c')
    \<and> (lw_epoch (standing_on c) < g \<longrightarrow> g < due_epoch c')
    \<and> (\<forall>t. not_before c' = Some t \<longrightarrow> t < now + int (from_millis ROUND_MILLIS))
    \<and> (saturating_mul_dur (s_round st) 2 < lease_left l now \<longrightarrow> renew st canvass mem l e now = (mem, NotDue))"
proof -
  have succ: "x < saturating_succ y" if "x \<le> y" "x < - 1" for x y
  proof (cases "y = - 1")
    case False
    then have "unat y \<noteq> unat (- 1 :: u64)" by (simp add: word_unat_eq_iff)
    then have "unat y + 1 < 2 ^ 64"
      using unsigned_less [of y, where ?'a = nat] by (simp add: unsigned_minus_1_eq_mask mask_eq_exp_minus_1)
    then have "y < y + 1" by (simp add: word_less_nat_alt unat_word_ariths)
    then show ?thesis using False that(1) by (simp add: saturating_succ_def)
  qed (simp add: saturating_succ_def that)
  have "e < due_epoch c'" if "e \<noteq> lw_epoch (standing_on c)"
    using that assms succ by (auto simp: due_epoch_def answered_def Let_def max_def)
  moreover have "g < due_epoch c'" if "lw_epoch (standing_on c) < g"
    using that assms succ by (auto simp: due_epoch_def answered_def Let_def max_def)
  moreover have "t < now + int (from_millis ROUND_MILLIS)" if "not_before c' = Some t" for t
    using that assms(3) spread_lt [of me e ROUND_MILLIS]
    by (auto simp: answered_def checked_add_def stagger_def ROUND_MILLIS_def split: if_splits)
  ultimately show ?thesis by (auto simp: renew_def renew_in_def)
qed

end
