(* ===== verification/Election.thy ===== *)
theory Election
  imports Campaign
begin

text \<open>The nodes of a cluster electing a leader of one line, as a step relation: each
node runs the loop of its campaign (leadership_round.rs of tessari-cli over
campaign.rs), and answers the ballots of the others at its door, in any
interleaving.  A ballot may be answered any number of times or never, and an
answer may be counted late or lost.  Every node reads its own clock, an argument
of the relation.  The log of the world lists the answers voters gave, which are
the messages a candidate may count, and the rounds that were won.\<close>

section \<open>The world\<close>

record answer =
  a_rid :: nat
  a_voter :: node
  a_ballot :: ballot
  a_vote :: vote
  a_at :: instant
  a_time :: nat

record win =
  w_rid :: nat
  w_node :: node
  w_won :: leadership_won
  w_quorum :: "node list"

datatype event = Answer answer | Win win

text \<open>Where the campaign loop of a node stands: between two ticks, woken at an instant,
collecting the votes of a round, or with its own ballot cast.\<close>

datatype pass =
    Idle
  | Woken instant
  | Canvassing instant epoch nat "epoch \<times> round"
  | Casted instant epoch nat "epoch \<times> round"

record member =
  mind :: deciding
  cursor :: renewing_state
  pass :: pass

record world =
  time :: nat
  members :: "node \<Rightarrow> member"
  ballots :: "(node \<times> ballot \<times> instant) list"
  log :: "event list"

definition member_started :: "instant \<Rightarrow> epoch \<Rightarrow> member" where
  "member_started t written =
    \<lparr>mind = deciding_holding (started_at t), cursor = line_cursor t written, pass = Idle\<rparr>"

definition set_member :: "node \<Rightarrow> member \<Rightarrow> world \<Rightarrow> world" where
  "set_member n m w = w\<lparr>members := (members w)(n := m)\<rparr>"

definition won_event :: "nat \<Rightarrow> node \<Rightarrow> round \<Rightarrow> stood \<Rightarrow> event list" where
  "won_event rid n r s =
    (case s of
       Won l \<Rightarrow> [Win \<lparr>w_rid = rid, w_node = n, w_won = l, w_quorum = r_granted r\<rparr>]
     | _ \<Rightarrow> [])"

inductive election_step :: "reach \<Rightarrow> node list \<Rightarrow> (node \<Rightarrow> nat \<Rightarrow> instant) \<Rightarrow> world \<Rightarrow> world \<Rightarrow> bool"
  for rg :: reach and nodes :: "node list" and clock :: "node \<Rightarrow> nat \<Rightarrow> instant" where
  tick: "election_step rg nodes clock w (w\<lparr>time := time w + 1\<rparr>)"
| policy: "n \<in> set nodes \<Longrightarrow> m = members w n \<Longrightarrow>
    election_step rg nodes clock w (set_member n (m\<lparr>mind := deciding_hold_for d (mind m)\<rparr>) w)"
| wake: "n \<in> set nodes \<Longrightarrow> m = members w n \<Longrightarrow> pass m = Idle \<Longrightarrow>
    election_step rg nodes clock w (set_member n (m\<lparr>pass := Woken (clock n (time w))\<rparr>) w)"
| skip: "n \<in> set nodes \<Longrightarrow> m = members w n \<Longrightarrow> pass m = Woken now \<Longrightarrow>
    election_step rg nodes clock w (set_member n (m\<lparr>pass := Idle\<rparr>) w)"
| opens: "n \<in> set nodes \<Longrightarrow> m = members w n \<Longrightarrow> pass m = Woken now \<Longrightarrow>
    due (cursor m) now = Some (l, e) \<Longrightarrow> renew_in l (s_round st) now = 0 \<Longrightarrow>
    s_candidate st = n \<Longrightarrow> s_range st = rg \<Longrightarrow> set (s_peers st) = set nodes - {n} \<Longrightarrow>
    distinct (s_peers st) \<Longrightarrow> r = round_of st e now \<Longrightarrow>
    election_step rg nodes clock w
      (set_member n (m\<lparr>pass := Canvassing now e (length (ballots w)) (0, r)\<rparr>)
        (w\<lparr>ballots := ballots w @ [(n, r_ballot r, now)]\<rparr>))"
| door: "v \<in> set nodes \<Longrightarrow> m = members w v \<Longrightarrow> rid < length (ballots w) \<Longrightarrow>
    ballots w ! rid = (c, b, opened) \<Longrightarrow> c \<noteq> v \<Longrightarrow>
    deciding_asked (mind m) b (clock v (time w)) mine cand = (mem, vt, anew) \<Longrightarrow>
    election_step rg nodes clock w
      (set_member v (m\<lparr>mind := mem\<rparr>)
        (w\<lparr>log := log w @ [Answer \<lparr>a_rid = rid, a_voter = v, a_ballot = b, a_vote = vt,
            a_at = clock v (time w), a_time = time w\<rparr>]\<rparr>))"
| count: "n \<in> set nodes \<Longrightarrow> m = members w n \<Longrightarrow> pass m = Canvassing now e rid gr \<Longrightarrow>
    Answer a \<in> set (log w) \<Longrightarrow> a_rid a = rid \<Longrightarrow>
    election_step rg nodes clock w
      (set_member n (m\<lparr>pass := Canvassing now e rid (count_vote (a_voter a) (as_sent (a_vote a)) gr)\<rparr>) w)"
| forgo: "n \<in> set nodes \<Longrightarrow> m = members w n \<Longrightarrow> pass m = Canvassing now e rid gr \<Longrightarrow>
    \<not> needs (snd gr) \<le> 1 \<Longrightarrow>
    election_step rg nodes clock w (set_member n (m\<lparr>pass := Casted now e rid gr\<rparr>) w)"
| casts: "n \<in> set nodes \<Longrightarrow> m = members w n \<Longrightarrow> pass m = Canvassing now e rid gr \<Longrightarrow>
    needs (snd gr) \<le> 1 \<Longrightarrow>
    deciding_asked (mind m) (r_ballot (snd gr)) now mine mine = (mem, vt, anew) \<Longrightarrow>
    election_step rg nodes clock w
      (set_member n (m\<lparr>mind := mem, pass := Casted now e rid (count_vote n vt gr)\<rparr>)
        (w\<lparr>log := log w @ [Answer \<lparr>a_rid = rid, a_voter = n, a_ballot = r_ballot (snd gr),
            a_vote = vt, a_at = now, a_time = time w\<rparr>]\<rparr>))"
| concludes: "n \<in> set nodes \<Longrightarrow> m = members w n \<Longrightarrow> pass m = Casted now e rid gr \<Longrightarrow>
    conclude now (mind m, gr) = (mem, s) \<Longrightarrow>
    election_step rg nodes clock w
      (set_member n (m\<lparr>mind := mem, cursor := answered n now e s (cursor m), pass := Idle\<rparr>)
        (w\<lparr>log := log w @ won_event rid n (snd gr) s\<rparr>))"

text \<open>The voter of a node on the line, and the worlds the cluster reaches while the
lease the policy states is only ever lengthened, up to a longest one.\<close>

definition voter_of :: "reach \<Rightarrow> world \<Rightarrow> node \<Rightarrow> voter" where
  "voter_of rg w n = line_voter (mind (members w n)) rg"

definition policy_kept :: "reach \<Rightarrow> duration \<Rightarrow> world \<Rightarrow> world \<Rightarrow> bool" where
  "policy_kept rg longest w w' \<longleftrightarrow>
    (\<forall>n. v_hold (voter_of rg w n) \<le> v_hold (voter_of rg w' n) \<and> v_hold (voter_of rg w' n) \<le> longest)"

definition world_started :: "(node \<Rightarrow> nat \<Rightarrow> instant) \<Rightarrow> (node \<Rightarrow> epoch) \<Rightarrow> world" where
  "world_started clock written =
    \<lparr>time = 0, members = (\<lambda>n. member_started (clock n 0) (written n)), ballots = [], log = []\<rparr>"

inductive reachable :: "reach \<Rightarrow> node list \<Rightarrow> (node \<Rightarrow> nat \<Rightarrow> instant) \<Rightarrow> duration \<Rightarrow> world \<Rightarrow> bool"
  for rg :: reach and nodes :: "node list" and clock :: "node \<Rightarrow> nat \<Rightarrow> instant"
    and longest :: duration where
  start: "reachable rg nodes clock longest (world_started clock written)"
| steps: "reachable rg nodes clock longest w \<Longrightarrow> election_step rg nodes clock w w' \<Longrightarrow>
    policy_kept rg longest w w' \<Longrightarrow> reachable rg nodes clock longest w'"

text \<open>What the clocks of the nodes promise: none runs backwards, an instant a lease reaches
can be represented, and while one clock measures a lease no other falls behind it by
more than the guard, which is what the guard is for.\<close>

definition clocks_keep :: "(node \<Rightarrow> nat \<Rightarrow> instant) \<Rightarrow> duration \<Rightarrow> bool" where
  "clocks_keep clock longest \<longleftrightarrow>
    (\<forall>n t. - INSTANT_END \<le> clock n t - int TTL \<and> clock n t + int longest < INSTANT_END)
    \<and> (\<forall>n t t'. t \<le> t' \<longrightarrow> clock n t \<le> clock n t')
    \<and> (\<forall>n m t t' d. t \<le> t' \<and> d \<le> longest \<and> clock n t + int d \<le> clock n t'
        \<longrightarrow> clock m t + int d \<le> clock m t' + int GUARD)"

section \<open>Rounds that were granted and won\<close>

definition a_epoch :: "answer \<Rightarrow> epoch" where
  "a_epoch a = b_epoch (a_ballot a)"

definition a_cand :: "answer \<Rightarrow> node" where
  "a_cand a = b_candidate (a_ballot a)"

definition w_epoch :: "win \<Rightarrow> epoch" where
  "w_epoch x = lw_epoch (w_won x)"

definition grants :: "event list \<Rightarrow> nat \<Rightarrow> answer \<Rightarrow> duration \<Rightarrow> bool" where
  "grants lg i a h \<longleftrightarrow> i < length lg \<and> lg ! i = Answer a \<and> a_vote a = Granted h"

definition wins :: "event list \<Rightarrow> nat \<Rightarrow> win \<Rightarrow> bool" where
  "wins lg i x \<longleftrightarrow> i < length lg \<and> lg ! i = Win x"

lemma grants_append:
  "grants (lg @ es) i a h \<longleftrightarrow> grants lg i a h \<or> length lg \<le> i \<and> grants es (i - length lg) a h"
  by (auto simp: grants_def nth_append)

lemma wins_append:
  "wins (lg @ es) i x \<longleftrightarrow> wins lg i x \<or> length lg \<le> i \<and> wins es (i - length lg) x"
  by (auto simp: wins_def nth_append)

lemma event_simps [simp]:
  "grants [] i a h \<longleftrightarrow> False" "wins [] i x \<longleftrightarrow> False"
  "grants [Win y] i a h \<longleftrightarrow> False" "wins [Answer b] i x \<longleftrightarrow> False"
  "grants [Answer b] i a h \<longleftrightarrow> i = 0 \<and> a = b \<and> a_vote b = Granted h"
  "wins [Win y] i x \<longleftrightarrow> i = 0 \<and> x = y"
  by (auto simp: grants_def wins_def)

lemma grants_length: "grants lg i a h \<Longrightarrow> i < length lg" by (simp add: grants_def)
lemma wins_length: "wins lg i x \<Longrightarrow> i < length lg" by (simp add: wins_def)

end
