(* ===== verification/Election_Safe.thy ===== *)
theory Election_Safe
  imports Election
begin

text \<open>Why two nodes never lead a line at once: what a log of answers and wins keeps of the
voters' promises, that an epoch has one winner, and that of two leases won by two
nodes one is fenced before the other is granted.\<close>

section \<open>What a log keeps\<close>

definition settled :: "(node \<Rightarrow> nat \<Rightarrow> instant) \<Rightarrow> event list \<Rightarrow> nat \<Rightarrow> nat \<Rightarrow> nat \<Rightarrow> answer \<Rightarrow> duration \<Rightarrow> bool" where
  "settled clock lg j t i a h \<longleftrightarrow>
    (\<exists>k x. wins lg k x \<and> i < k \<and> k < j \<and> w_node x = a_voter a \<and> a_epoch a \<le> w_epoch x
      \<and> a_cand a \<noteq> a_voter a)
    \<or> a_at a + int h \<le> clock (a_voter a) t"

text \<open>An answer was given to the ballot of a round that had opened, at an instant of the
voter's clock, or for a candidate's own ballot at the instant its round opened.\<close>

definition answers_ok ::
  "(node \<Rightarrow> nat \<Rightarrow> instant) \<Rightarrow> duration \<Rightarrow> node list \<Rightarrow> (node \<times> ballot \<times> instant) list
    \<Rightarrow> event list \<Rightarrow> nat \<Rightarrow> bool" where
  "answers_ok clock longest nodes bl lg T \<longleftrightarrow>
    (\<forall>i a h. grants lg i a h \<longrightarrow> a_rid a < length bl \<and> a_voter a \<in> set nodes \<and> h \<le> longest
      \<and> a_time a \<le> T
      \<and> (\<exists>t. bl ! a_rid a = (a_cand a, a_ballot a, t) \<and> t \<le> clock (a_cand a) (a_time a)
          \<and> a_at a = (if a_voter a = a_cand a then t else clock (a_voter a) (a_time a))))
    \<and> (\<forall>i j a b h k. grants lg i a h \<and> grants lg j b k \<and> i < j \<longrightarrow> a_time a \<le> a_time b)"

definition wins_ok :: "node list \<Rightarrow> (node \<times> ballot \<times> instant) list \<Rightarrow> event list \<Rightarrow> bool" where
  "wins_ok nodes bl lg \<longleftrightarrow>
    (\<forall>j x. wins lg j x \<longrightarrow> w_rid x < length bl
      \<and> (\<exists>b. bl ! w_rid x = (w_node x, b, lw_from (w_won x)) \<and> b_epoch b = w_epoch x)
      \<and> set (w_quorum x) \<subseteq> set nodes
      \<and> majority (card (set nodes)) \<le> card (set (w_quorum x))
      \<and> (\<forall>u \<in> set (w_quorum x). \<exists>i a h. i < j \<and> grants lg i a h \<and> a_voter a = u
            \<and> a_rid a = w_rid x \<and> lw_length (w_won x) \<le> h))"

text \<open>Between two grants of one voter: the epochs do not fall, a change of candidate
waited for the earlier hold unless the voter itself had won in between, and it came
with a higher epoch unless the voter itself had won that one.\<close>

definition pairs_ok :: "(node \<Rightarrow> nat \<Rightarrow> instant) \<Rightarrow> event list \<Rightarrow> bool" where
  "pairs_ok clock lg \<longleftrightarrow>
    (\<forall>i j a b h k. grants lg i a h \<and> grants lg j b k \<and> i < j \<and> a_voter a = a_voter b \<longrightarrow>
      a_epoch a \<le> a_epoch b
      \<and> (a_cand a \<noteq> a_cand b \<longrightarrow> settled clock lg j (a_time b) i a h)
      \<and> (a_cand a \<noteq> a_cand b \<and> a_epoch a = a_epoch b \<longrightarrow>
          (\<exists>m x. wins lg m x \<and> i < m \<and> m < j \<and> w_node x = a_voter a \<and> w_epoch x = a_epoch a)))"

definition own_ok :: "event list \<Rightarrow> bool" where
  "own_ok lg \<longleftrightarrow>
    (\<forall>i j x b k. wins lg i x \<and> grants lg j b k \<and> i < j \<and> a_voter b = w_node x
      \<and> a_epoch b = w_epoch x \<longrightarrow> a_cand b = w_node x)"

definition log_ok ::
  "(node \<Rightarrow> nat \<Rightarrow> instant) \<Rightarrow> duration \<Rightarrow> node list \<Rightarrow> (node \<times> ballot \<times> instant) list
    \<Rightarrow> event list \<Rightarrow> nat \<Rightarrow> bool" where
  "log_ok clock longest nodes bl lg T \<longleftrightarrow>
    answers_ok clock longest nodes bl lg T \<and> wins_ok nodes bl lg \<and> pairs_ok clock lg \<and> own_ok lg"

lemma answers_okD:
  assumes "answers_ok clock longest nodes bl lg T" "grants lg i a h"
  shows "a_voter a \<in> set nodes" "h \<le> longest" "a_time a \<le> T" "a_rid a < length bl"
    and "\<exists>t. bl ! a_rid a = (a_cand a, a_ballot a, t) \<and> t \<le> clock (a_cand a) (a_time a)
          \<and> a_at a = (if a_voter a = a_cand a then t else clock (a_voter a) (a_time a))"
    and "\<And>j b k. grants lg j b k \<Longrightarrow> i < j \<Longrightarrow> a_time a \<le> a_time b"
  using assms unfolding answers_ok_def by blast+

lemma pairs_okD:
  assumes "pairs_ok clock lg" "grants lg i a h" "grants lg j b k" "i < j" "a_voter a = a_voter b"
  shows "a_epoch a \<le> a_epoch b"
    and "a_cand a \<noteq> a_cand b \<Longrightarrow> settled clock lg j (a_time b) i a h"
    and "a_cand a \<noteq> a_cand b \<Longrightarrow> a_epoch a = a_epoch b \<Longrightarrow>
      \<exists>m x. wins lg m x \<and> i < m \<and> m < j \<and> w_node x = a_voter a \<and> w_epoch x = a_epoch a"
  using assms unfolding pairs_ok_def by blast+

text \<open>The grants that carried two rounds share a voter.\<close>

lemma quorums_share:
  assumes "log_ok clock longest nodes bl lg T" "wins lg m x" "wins lg n y"
  obtains i a h j b k where
    "grants lg i a h" "a_rid a = w_rid x" "i < m" "lw_length (w_won x) \<le> h"
    "a_cand a = w_node x" "a_epoch a = w_epoch x"
    "grants lg j b k" "a_rid b = w_rid y" "j < n" "lw_length (w_won y) \<le> k"
    "a_cand b = w_node y" "a_epoch b = w_epoch y" "a_voter a = a_voter b"
proof -
  have ok: "answers_ok clock longest nodes bl lg T" "wins_ok nodes bl lg"
    using assms(1) by (simp_all add: log_ok_def)
  note x = ok(2) [unfolded wins_ok_def, rule_format, OF assms(2)]
  note y = ok(2) [unfolded wins_ok_def, rule_format, OF assms(3)]
  obtain u where u: "u \<in> set (w_quorum x)" "u \<in> set (w_quorum y)"
    using majorities_meet [of "set nodes" "set (w_quorum x)" "set (w_quorum y)"] x y by auto
  obtain i a h where a: "i < m" "grants lg i a h" "a_voter a = u" "a_rid a = w_rid x"
    "lw_length (w_won x) \<le> h" using x u(1) by blast
  obtain j b k where b: "j < n" "grants lg j b k" "a_voter b = u" "a_rid b = w_rid y"
    "lw_length (w_won y) \<le> k" using y u(2) by blast
  have "a_cand a = w_node x \<and> a_epoch a = w_epoch x"
    using answers_okD(5) [OF ok(1) a(2)] x a(4) by (auto simp: a_epoch_def)
  moreover have "a_cand b = w_node y \<and> a_epoch b = w_epoch y"
    using answers_okD(5) [OF ok(1) b(2)] y b(4) by (auto simp: a_epoch_def)
  ultimately show ?thesis using a b by (intro that [of i a h j b k]) simp_all
qed

section \<open>An epoch has one winner\<close>

lemma one_winner_first:
  assumes ok: "log_ok clock longest nodes bl lg T"
    and first: "wins lg m x" "\<And>n y. wins lg n y \<Longrightarrow> w_epoch y = w_epoch x \<Longrightarrow> m \<le> n"
    and y: "wins lg n y" "w_epoch y = w_epoch x"
  shows "w_node y = w_node x"
  using y
proof (induction n arbitrary: y rule: less_induct)
  case (less n)
  have pr: "pairs_ok clock lg" and own: "own_ok lg" using ok by (simp_all add: log_ok_def)
  obtain i a h j b k where q:
    "grants lg i a h" "i < m" "a_cand a = w_node x" "a_epoch a = w_epoch x"
    "grants lg j b k" "j < n" "a_cand b = w_node y" "a_epoch b = w_epoch y" "a_voter a = a_voter b"
    using quorums_share [OF ok first(1) less.prems(1)] by metis
  show ?case
  proof (rule ccontr)
    assume ne: "w_node y \<noteq> w_node x"
    then have "i \<noteq> j" using q by (auto simp: grants_def)
    then consider "i < j" | "j < i" by linarith
    then show False
    proof cases
      case 1
      obtain p z where z: "wins lg p z" "i < p" "p < j" "w_node z = a_voter a" "w_epoch z = w_epoch x"
        using pairs_okD(3) [OF pr q(1,5) 1 q(9)] q ne less.prems(2) by metis
      have "w_node z = w_node x" using less.IH [OF _ z(1,5)] z(3) q(6) by simp
      moreover have "a_cand b = w_node z"
        using own z q less.prems(2) unfolding own_ok_def by (metis (no_types))
      ultimately show False using q(7) ne by simp
    next
      case 2
      obtain p z where "wins lg p z" "p < i" "w_epoch z = w_epoch x"
        using pairs_okD(3) [OF pr q(5,1) 2] q ne less.prems(2) by metis
      then show False using first(2) q(2) by fastforce
    qed
  qed
qed

lemma one_winner:
  assumes ok: "log_ok clock longest nodes bl lg T"
    and w: "wins lg m x" "wins lg n y" "w_epoch x = w_epoch y"
  shows "w_node x = w_node y"
proof -
  let ?P = "\<lambda>p. \<exists>z. wins lg p z \<and> w_epoch z = w_epoch x"
  have "?P m" using w(1) by blast
  then obtain z where z: "wins lg (LEAST p. ?P p) z" "w_epoch z = w_epoch x"
    using LeastI [of ?P m] by blast
  have "(LEAST p. ?P p) \<le> p" if "wins lg p u" "w_epoch u = w_epoch z" for p u
    using that z(2) by (auto intro!: Least_le)
  then have "w_node u = w_node z" if "wins lg p u" "w_epoch u = w_epoch z" for p u
    using one_winner_first [OF ok z(1) _ that] by blast
  then show ?thesis using w z(2) by metis
qed

section \<open>One lease is over before the other is granted\<close>

definition over :: "(node \<Rightarrow> nat \<Rightarrow> instant) \<Rightarrow> win \<Rightarrow> nat \<Rightarrow> bool" where
  "over clock x t \<longleftrightarrow> fenced (leadership_lease (w_won x)) (clock (w_node x) t)"

lemma over_mono: "clocks_keep clock longest \<Longrightarrow> over clock x t \<Longrightarrow> t \<le> t' \<Longrightarrow> over clock x t'"
  unfolding over_def clocks_keep_def by (meson fenced_mono)

text \<open>When a voter's hold has passed on its own clock, the lease it was part of is fenced on
the holder's.\<close>

lemma hold_passed_over:
  assumes ck: "clocks_keep clock longest" and ok: "log_ok clock longest nodes bl lg T"
    and x: "wins lg m x" and a: "grants lg i a h" "a_rid a = w_rid x" "lw_length (w_won x) \<le> h"
    and t: "a_time a \<le> t" "a_at a + int h \<le> clock (a_voter a) t"
  shows "over clock x t"
proof -
  let ?c = "w_node x" and ?o = "lw_from (w_won x)"
  have an: "answers_ok clock longest nodes bl lg T" and wn: "wins_ok nodes bl lg"
    using ok by (simp_all add: log_ok_def)
  obtain b where b: "bl ! w_rid x = (?c, b, ?o)" using wn x unfolding wins_ok_def by blast
  have c: "a_cand a = ?c" and o: "?o \<le> clock ?c (a_time a)"
    and at: "a_at a = (if a_voter a = ?c then ?o else clock (a_voter a) (a_time a))"
    using answers_okD(5) [OF an a(1)] a(2) b by auto
  have mono: "clock ?c (a_time a) \<le> clock ?c t" using ck t(1) unfolding clocks_keep_def by blast
  have "?o + int (lw_length (w_won x)) \<le> clock ?c t + int GUARD"
  proof (cases "a_voter a = ?c")
    case True
    then show ?thesis using at t(2) a(3) by simp
  next
    case False
    then have "clock ?c (a_time a) + int h \<le> clock ?c t + int GUARD"
      using ck t at answers_okD(2) [OF an a(1)] unfolding clocks_keep_def by auto
    then show ?thesis using o a(3) by linarith
  qed
  then show ?thesis
    using taken_at_fence_le [of ?o "lw_length (w_won x)"] o mono
    by (auto simp: over_def fenced_def leadership_lease_def)
qed

lemma over_when_granted_on:
  assumes ck: "clocks_keep clock longest" and ok: "log_ok clock longest nodes bl lg T"
    and x: "wins lg m x"
    and "grants lg i a h" "a_rid a = w_rid x" "lw_length (w_won x) \<le> h" "a_cand a = w_node x"
      "a_epoch a = w_epoch x"
    and "grants lg j b k" "i < j" "a_voter a = a_voter b" "a_cand b \<noteq> w_node x"
  shows "over clock x (a_time b)"
  using assms(4-12)
proof (induction j arbitrary: i a h b k rule: less_induct)
  case (less j)
  have an: "answers_ok clock longest nodes bl lg T" and pr: "pairs_ok clock lg"
    using ok by (simp_all add: log_ok_def)
  have t: "a_time a \<le> a_time b" using answers_okD(6) [OF an] less.prems(1,6,7) .
  have "settled clock lg j (a_time b) i a h"
    using pairs_okD(2) [OF pr less.prems(1,6,7,8)] less.prems(4,9) by simp
  then consider (waited) "a_at a + int h \<le> clock (a_voter a) (a_time b)"
    | (won) p y where "wins lg p y" "i < p" "p < j" "w_node y = a_voter a" "a_epoch a \<le> w_epoch y"
        "a_cand a \<noteq> a_voter a"
    unfolding settled_def by blast
  then show ?case
  proof cases
    case waited
    show ?thesis by (rule hold_passed_over [OF ck ok x less.prems(1,2,3) t waited])
  next
    case won
    have ny: "w_node y \<noteq> w_node x" using won(4,6) less.prems(4) by simp
    obtain i' a' h' j' b' k' where q:
      "grants lg i' a' h'" "a_rid a' = w_rid x" "lw_length (w_won x) \<le> h'" "a_cand a' = w_node x"
      "a_epoch a' = w_epoch x" "grants lg j' b' k'" "j' < p" "a_cand b' = w_node y"
      "a_epoch b' = w_epoch y" "a_voter a' = a_voter b'"
      using quorums_share [OF ok x won(1)] by metis
    have "i' \<noteq> j'" using q ny by (auto simp: grants_def)
    moreover have "\<not> j' < i'"
    proof
      assume "j' < i'"
      then have "w_epoch y \<le> w_epoch x" using pairs_okD(1) [OF pr q(6,1)] q by simp
      then have "w_epoch y = w_epoch x" using won(5) less.prems(5) by simp
      then show False using one_winner [OF ok won(1) x] ny by simp
    qed
    ultimately have lt: "i' < j'" by simp
    have "over clock x (a_time b')"
      using less.IH [OF _ q(1-5,6) lt q(10)] q(7,8) won(3) ny by simp
    moreover have "a_time b' \<le> a_time b"
      using answers_okD(6) [OF an q(6) less.prems(6)] q(7) won(3) by simp
    ultimately show ?thesis using over_mono [OF ck] by blast
  qed
qed

lemma one_is_over:
  assumes ck: "clocks_keep clock longest" and ok: "log_ok clock longest nodes bl lg T"
    and w: "wins lg m x" "wins lg n y" "w_node x \<noteq> w_node y"
  shows "over clock x T \<or> over clock y T"
proof -
  have an: "answers_ok clock longest nodes bl lg T" using ok by (simp add: log_ok_def)
  obtain i a h j b k where q:
    "grants lg i a h" "a_rid a = w_rid x" "lw_length (w_won x) \<le> h" "a_cand a = w_node x"
    "a_epoch a = w_epoch x" "grants lg j b k" "a_rid b = w_rid y" "lw_length (w_won y) \<le> k"
    "a_cand b = w_node y" "a_epoch b = w_epoch y" "a_voter a = a_voter b"
    using quorums_share [OF ok w(1,2)] by metis
  have "i \<noteq> j" using q w(3) by (auto simp: grants_def)
  then consider "i < j" | "j < i" by linarith
  then show ?thesis
  proof cases
    case 1
    then have "over clock x (a_time b)"
      using over_when_granted_on [OF ck ok w(1) q(1-5,6)] q(9,11) w(3) by simp
    then show ?thesis using over_mono [OF ck] answers_okD(3) [OF an q(6)] by blast
  next
    case 2
    then have "over clock y (a_time a)"
      using over_when_granted_on [OF ck ok w(2) q(6-10,1)] q(4,11) w(3) by simp
    then show ?thesis using over_mono [OF ck] answers_okD(3) [OF an q(1)] by blast
  qed
qed

end
