(* ===== verification/Election_Inv.thy ===== *)
theory Election_Inv
  imports Election_Safe
begin

text \<open>The invariant of an election: what the memory of a voter keeps of the log, what a
round has counted, and that every step of the cluster keeps the promises from
which the exclusion of two leaders follows.\<close>

section \<open>The memory of a voter and the log\<close>

text \<open>A grant \<open>a\<close> of the voter \<open>v\<close> against the grant \<open>g\<close> it remembers: the epoch remembered
is no lower, the hold of \<open>a\<close> has been waited for unless \<open>g\<close> prolongs it, and \<open>g\<close> is for
the same candidate when it is of the same epoch, unless the voter has won that epoch.\<close>

definition kept ::
  "(node \<Rightarrow> nat \<Rightarrow> instant) \<Rightarrow> event list \<Rightarrow> nat \<Rightarrow> grant \<Rightarrow> nat \<Rightarrow> answer \<Rightarrow> duration \<Rightarrow> bool" where
  "kept clock lg T g i a h \<longleftrightarrow>
    a_epoch a \<le> g_epoch g
    \<and> (settled clock lg (length lg) T i a h
       \<or> a_cand a = g_candidate g \<and> a_at a \<le> g_at g \<and> h \<le> g_hold g)
    \<and> (a_epoch a = g_epoch g \<longrightarrow> a_cand a = g_candidate g
       \<or> (\<exists>m x. wins lg m x \<and> i < m \<and> w_node x = a_voter a \<and> w_epoch x = a_epoch a))"

definition won_before :: "grant \<Rightarrow> win \<Rightarrow> bool" where
  "won_before g x \<longleftrightarrow>
    w_epoch x \<le> g_epoch g \<and> (w_epoch x = g_epoch g \<longrightarrow> g_candidate g = w_node x)"

definition silent :: "event list \<Rightarrow> node \<Rightarrow> bool" where
  "silent es v \<longleftrightarrow>
    (\<forall>i a h. grants es i a h \<longrightarrow> a_voter a \<noteq> v) \<and> (\<forall>j x. wins es j x \<longrightarrow> w_node x \<noteq> v)"

definition voter_ok :: "(node \<Rightarrow> nat \<Rightarrow> instant) \<Rightarrow> event list \<Rightarrow> nat \<Rightarrow> node \<Rightarrow> voter \<Rightarrow> bool" where
  "voter_ok clock lg T v V \<longleftrightarrow>
    (case granted V of
       None \<Rightarrow> silent lg v
     | Some g \<Rightarrow>
         g_hold g \<le> v_hold V \<and> g_at g \<le> clock v T
         \<and> (\<forall>i a h. grants lg i a h \<longrightarrow> a_voter a = v \<longrightarrow> kept clock lg T g i a h)
         \<and> (\<forall>j x. wins lg j x \<longrightarrow> w_node x = v \<longrightarrow> won_before g x))"

lemma voter_okI:
  assumes "granted V = Some g" "g_hold g \<le> v_hold V" "g_at g \<le> clock v T"
    and "\<And>i a h. grants lg i a h \<Longrightarrow> a_voter a = v \<Longrightarrow> kept clock lg T g i a h"
    and "\<And>j x. wins lg j x \<Longrightarrow> w_node x = v \<Longrightarrow> won_before g x"
  shows "voter_ok clock lg T v V"
  using assms by (simp add: voter_ok_def)

lemma voter_okD:
  assumes "voter_ok clock lg T v V" "granted V = Some g"
  shows "g_hold g \<le> v_hold V" "g_at g \<le> clock v T"
    and "\<And>i a h. grants lg i a h \<Longrightarrow> a_voter a = v \<Longrightarrow> kept clock lg T g i a h"
    and "\<And>j x. wins lg j x \<Longrightarrow> w_node x = v \<Longrightarrow> won_before g x"
  using assms by (simp_all add: voter_ok_def)

lemma voter_ok_grantE:
  assumes "voter_ok clock lg T v V" "grants lg i a h" "a_voter a = v"
  obtains g where "granted V = Some g" "kept clock lg T g i a h"
  using assms by (fastforce simp: voter_ok_def silent_def split: option.splits)

lemma voter_ok_winE:
  assumes "voter_ok clock lg T v V" "wins lg j x" "w_node x = v"
  obtains g where "granted V = Some g" "won_before g x"
  using assms by (fastforce simp: voter_ok_def silent_def split: option.splits)

lemma clock_mono: "clocks_keep clock longest \<Longrightarrow> t \<le> t' \<Longrightarrow> clock n t \<le> clock n t'"
  by (simp add: clocks_keep_def)

lemma settled_mono:
  assumes "clocks_keep clock longest" "settled clock lg j t i a h" "j \<le> j'" "t \<le> t'"
  shows "settled clock (lg @ es) j' t' i a h"
proof -
  have "clock (a_voter a) t \<le> clock (a_voter a) t'" by (rule clock_mono [OF assms(1,4)])
  then show ?thesis
    using assms(2,3) unfolding settled_def wins_append by (meson less_le_trans order_trans)
qed

lemma kept_mono:
  assumes "clocks_keep clock longest" "kept clock lg T g i a h" "T \<le> T'"
  shows "kept clock (lg @ es) T' g i a h"
proof -
  have "settled clock lg (length lg) T i a h \<Longrightarrow> settled clock (lg @ es) (length (lg @ es)) T' i a h"
    using settled_mono [OF assms(1) _ _ assms(3)] by simp
  moreover have "wins lg m x \<Longrightarrow> wins (lg @ es) m x" for m x by (simp add: wins_append)
  ultimately show ?thesis using assms(2) unfolding kept_def by metis
qed

lemma silent_append: "silent (lg @ es) v \<longleftrightarrow> silent lg v \<and> silent es v"
proof
  assume s: "silent (lg @ es) v"
  have "a_voter a \<noteq> v" if "grants es i a h" for i a h
    using s that grants_append [of lg es "length lg + i" a h] by (auto simp: silent_def)
  moreover have "w_node x \<noteq> v" if "wins es j x" for j x
    using s that wins_append [of lg es "length lg + j" x] by (auto simp: silent_def)
  ultimately show "silent lg v \<and> silent es v"
    using s by (auto simp: silent_def grants_append wins_append)
next
  assume s: "silent lg v \<and> silent es v"
  show "silent (lg @ es) v"
    unfolding silent_def grants_append wins_append using s unfolding silent_def by blast
qed

lemma voter_ok_frame:
  assumes ck: "clocks_keep clock longest" and v: "voter_ok clock lg T v V" and t: "T \<le> T'"
    and s: "silent es v" and V': "granted V' = granted V" "v_hold V \<le> v_hold V'"
  shows "voter_ok clock (lg @ es) T' v V'"
proof (cases "granted V")
  case None
  then show ?thesis using v s V'(1) by (simp add: voter_ok_def silent_append)
next
  case (Some g)
  note D = voter_okD [OF v Some]
  show ?thesis
  proof (rule voter_okI)
    show "granted V' = Some g" "g_hold g \<le> v_hold V'" using Some V' D(1) by simp_all
    show "g_at g \<le> clock v T'" using D(2) clock_mono [OF ck t] by (rule order_trans)
    show "kept clock (lg @ es) T' g i a h" if "grants (lg @ es) i a h" "a_voter a = v" for i a h
      using that s kept_mono [OF ck D(3) t] unfolding grants_append silent_def by blast
    show "won_before g x" if "wins (lg @ es) j x" "w_node x = v" for j x
      using that s D(4) unfolding wins_append silent_def by blast
  qed
qed

text \<open>What a new grant needs of the memory it replaces.\<close>

lemma grant_keeps:
  assumes ck: "clocks_keep clock longest" and v: "voter_ok clock lg T v V" and h: "v_hold V \<le> longest"
    and may: "may_grant V b now" and now: "now \<le> clock v T"
    and a: "grants lg i a k" "a_voter a = v"
  shows "a_epoch a \<le> b_epoch b"
    and "a_cand a \<noteq> b_candidate b \<Longrightarrow> settled clock lg (length lg) T i a k"
    and "a_cand a \<noteq> b_candidate b \<Longrightarrow> a_epoch a = b_epoch b \<Longrightarrow>
      \<exists>m x. wins lg m x \<and> i < m \<and> w_node x = v \<and> w_epoch x = a_epoch a"
proof -
  obtain g where g: "granted V = Some g" and kp: "kept clock lg T g i a k"
    using voter_ok_grantE [OF v a] .
  have may': "b_candidate b = g_candidate g \<and> g_epoch g \<le> b_epoch b
      \<or> g_epoch g < b_epoch b \<and> free_at (g_at g) (g_hold g) \<le> now"
    using may g by (simp add: may_grant_def)
  show "a_epoch a \<le> b_epoch b" using kp may' unfolding kept_def by auto
  show "settled clock lg (length lg) T i a k" if ne: "a_cand a \<noteq> b_candidate b"
  proof (rule ccontr)
    assume ns: "\<not> settled clock lg (length lg) T i a k"
    then have s: "a_cand a = g_candidate g" "a_at a \<le> g_at g" "k \<le> g_hold g"
      using kp unfolding kept_def by auto
    have "clock v T + int longest < INSTANT_END" using ck by (simp add: clocks_keep_def)
    then have "g_at g + int (g_hold g) < INSTANT_END" using voter_okD(1,2) [OF v g] h by linarith
    then have "g_at g + int (g_hold g) \<le> now"
      using may' ne s(1) free_at_exact [of "g_at g" "g_hold g"] by auto
    then have "a_at a + int k \<le> clock (a_voter a) T" using s(2,3) now a(2) by simp
    then show False using ns unfolding settled_def by blast
  qed
  show "\<exists>m x. wins lg m x \<and> i < m \<and> w_node x = v \<and> w_epoch x = a_epoch a"
    if ne: "a_cand a \<noteq> b_candidate b" "a_epoch a = b_epoch b"
  proof -
    have "a_epoch a = g_epoch g" "a_cand a \<noteq> g_candidate g"
      using kp may' ne unfolding kept_def by auto
    then show ?thesis using kp a(2) unfolding kept_def by blast
  qed
qed

lemma grant_own:
  assumes v: "voter_ok clock lg T v V" and may: "may_grant V b now"
    and x: "wins lg j x" "w_node x = v"
  shows "w_epoch x \<le> b_epoch b" "w_epoch x = b_epoch b \<Longrightarrow> b_candidate b = v"
proof -
  obtain g where g: "granted V = Some g" "won_before g x" using voter_ok_winE [OF v x] .
  then show "w_epoch x \<le> b_epoch b" "w_epoch x = b_epoch b \<Longrightarrow> b_candidate b = v"
    using may x(2) by (auto simp: may_grant_def won_before_def)
qed

lemma remember_simps [simp]:
  "granted (remember V b now) = Some \<lparr>g_epoch = b_epoch b, g_candidate = b_candidate b, g_at = now,
      g_hold = v_hold V\<rparr>"
  "v_hold (remember V b now) = v_hold V" "started (remember V b now) = started V"
  by (simp_all add: remember_def)

lemma voter_ok_grant:
  assumes ck: "clocks_keep clock longest" and v: "voter_ok clock lg T v V" and h: "v_hold V \<le> longest"
    and may: "may_grant V b now" and now: "now \<le> clock v T"
    and later: "\<And>g. granted V = Some g \<Longrightarrow> g_candidate g = b_candidate b \<Longrightarrow> g_at g \<le> now"
    and a: "a_voter a = v" "a_ballot a = b" "a_vote a = Granted (v_hold V)" "a_at a = now"
  shows "voter_ok clock (lg @ [Answer a]) T v (remember V b now)"
proof (rule voter_okI [OF remember_simps(1)])
  let ?g = "\<lparr>g_epoch = b_epoch b, g_candidate = b_candidate b, g_at = now, g_hold = v_hold V\<rparr>"
  have old: "kept clock lg T ?g i e k" if e: "grants lg i e k" "a_voter e = v" for i e k
  proof -
    note gk = grant_keeps [OF ck v h may now e]
    obtain g where g: "granted V = Some g" and kp: "kept clock lg T g i e k"
      using voter_ok_grantE [OF v e] .
    have "a_at e \<le> now \<and> k \<le> v_hold V"
      if "\<not> settled clock lg (length lg) T i e k" "a_cand e = b_candidate b"
      using kp that later [OF g] voter_okD(1) [OF v g] unfolding kept_def
      by (metis (full_types) order_trans)
    then show ?thesis using gk e(2) unfolding kept_def by auto
  qed
  show "kept clock (lg @ [Answer a]) T ?g i e k"
    if "grants (lg @ [Answer a]) i e k" "a_voter e = v" for i e k
  proof (cases "grants lg i e k")
    case True
    then show ?thesis using kept_mono [OF ck old [OF True that(2)]] by simp
  next
    case False
    then have "e = a" "k = v_hold V" using that(1) a(3) by (auto simp: grants_append)
    then show ?thesis using a by (simp add: kept_def a_epoch_def a_cand_def)
  qed
  show "won_before ?g x" if "wins (lg @ [Answer a]) j x" "w_node x = v" for j x
    using that grant_own [OF v may] unfolding wins_append won_before_def by auto
qed (use now in simp_all)

text \<open>A round carried into the memory of its candidate.\<close>

lemma voter_ok_carried:
  assumes ck: "clocks_keep clock longest" and v: "voter_ok clock lg T v V"
    and c: "carried V b now = (V', Inr ())" and b: "b_candidate b = v" and now: "now \<le> clock v T"
    and later: "\<And>g. granted V = Some g \<Longrightarrow> g_candidate g = v \<Longrightarrow> g_at g \<le> now"
    and x: "w_node x = v" "w_epoch x = b_epoch b"
  shows "voter_ok clock (lg @ [Win x]) T v V'"
proof -
  let ?g = "\<lparr>g_epoch = b_epoch b, g_candidate = b_candidate b, g_at = now, g_hold = v_hold V\<rparr>"
  let ?lg = "lg @ [Win x]"
  have V': "V' = remember V b now" and le: "\<And>g. granted V = Some g \<Longrightarrow> g_epoch g \<le> b_epoch b"
    using c by (auto simp: carried_eq split: option.splits if_splits)
  have new: "wins ?lg (length lg) x" by (simp add: wins_append)
  have kp: "kept clock ?lg T ?g i e k" if e': "grants ?lg i e k" and av: "a_voter e = v" for i e k
  proof -
    have e: "grants lg i e k" using e' by (simp add: grants_append)
    obtain g where g: "granted V = Some g" and kp: "kept clock lg T g i e k"
      using voter_ok_grantE [OF v e av] .
    have lt: "i < length lg" using e by (rule grants_length)
    have ep: "a_epoch e \<le> w_epoch x" using kp le [OF g] x(2) unfolding kept_def by auto
    have other: "settled clock ?lg (length ?lg) T i e k" if "a_cand e \<noteq> v"
      unfolding settled_def using that new lt ep x(1) av
      by (intro disjI1 exI [of _ "length lg"] exI [of _ x]) simp
    have "a_at e \<le> now \<and> k \<le> v_hold V"
      if "\<not> settled clock lg (length lg) T i e k" "a_cand e = v"
      using kp that later [OF g] voter_okD(1) [OF v g] unfolding kept_def
      by (metis (full_types) order_trans)
    moreover have "settled clock lg (length lg) T i e k \<Longrightarrow> settled clock ?lg (length ?lg) T i e k"
      using settled_mono [OF ck, of lg "length lg" T i e k "length ?lg" T "[Win x]"] by simp
    ultimately show ?thesis
      using other ep x new lt av b unfolding kept_def by auto
  qed
  have "won_before ?g y" if y: "wins ?lg j y" "w_node y = v" for j y
  proof (cases "wins lg j y")
    case True
    obtain g where g: "granted V = Some g" "won_before g y" using voter_ok_winE [OF v True y(2)] .
    then show ?thesis using le [OF g(1)] y(2) b by (auto simp: won_before_def)
  next
    case False
    then show ?thesis using y x b by (simp add: wins_append won_before_def)
  qed
  then show ?thesis unfolding V' using kp now by (intro voter_okI [OF remember_simps(1)]) simp_all
qed

end
