(* ===== verification/Election_Reach.thy ===== *)
theory Election_Reach
  imports Election_Inv
begin

text \<open>The invariant holds of every world the cluster reaches, and with it that two nodes
never hold a lease on one line at once and that an epoch has one leader.\<close>

section \<open>Growing a log\<close>

lemma own_okD:
  assumes "own_ok lg" "wins lg i x" "grants lg j b k" "i < j" "a_voter b = w_node x"
    "a_epoch b = w_epoch x"
  shows "a_cand b = w_node x"
  using assms unfolding own_ok_def by blast

lemma log_ok_later:
  assumes "log_ok clock longest nodes bl lg T" "T \<le> T'"
  shows "log_ok clock longest nodes (bl @ bs) lg T'"
proof -
  have an: "answers_ok clock longest nodes bl lg T" and wn: "wins_ok nodes bl lg"
    and rest: "pairs_ok clock lg" "own_ok lg" using assms(1) by (simp_all add: log_ok_def)
  have old: "(bl @ bs) ! rid = bl ! rid" "rid < length (bl @ bs)" if "rid < length bl" for rid
    using that by (simp_all add: nth_append)
  have "answers_ok clock longest nodes (bl @ bs) lg T'"
    unfolding answers_ok_def
  proof (intro conjI allI impI)
    fix i a h assume g: "grants lg i a h"
    note D = answers_okD [OF an g]
    show "a_voter a \<in> set nodes" "h \<le> longest" by (rule D(1), rule D(2))
    show "a_time a \<le> T'" using D(3) assms(2) by (rule order_trans)
    show "a_rid a < length (bl @ bs)" using old(2) [OF D(4)] .
    show "\<exists>t. (bl @ bs) ! a_rid a = (a_cand a, a_ballot a, t) \<and> t \<le> clock (a_cand a) (a_time a)
        \<and> a_at a = (if a_voter a = a_cand a then t else clock (a_voter a) (a_time a))"
      unfolding old(1) [OF D(4)] by (rule D(5))
  next
    fix i j a b h k assume "grants lg i a h \<and> grants lg j b k \<and> i < j"
    then show "a_time a \<le> a_time b" using answers_okD(6) [OF an] by blast
  qed
  moreover have "wins_ok nodes (bl @ bs) lg"
    using wn old unfolding wins_ok_def by metis
  ultimately show ?thesis using rest by (simp add: log_ok_def)
qed

lemma log_ok_refused:
  assumes "log_ok clock longest nodes bl lg T" "a_vote a = Refused r"
  shows "log_ok clock longest nodes bl (lg @ [Answer a]) T"
proof -
  have "grants (lg @ [Answer a]) = grants lg" "wins (lg @ [Answer a]) = wins lg"
    using assms(2) by (auto simp: fun_eq_iff grants_append wins_append)
  then show ?thesis
    using assms(1)
    unfolding log_ok_def answers_ok_def wins_ok_def pairs_ok_def own_ok_def settled_def by (simp only:)
qed

lemma log_ok_grant:
  assumes ck: "clocks_keep clock longest" and ok: "log_ok clock longest nodes bl lg T"
    and v: "voter_ok clock lg T v V" "v_hold V \<le> longest" "v \<in> set nodes"
    and may: "may_grant V b now" and now: "now \<le> clock v T"
    and a: "a_voter a = v" "a_ballot a = b" "a_vote a = Granted (v_hold V)" "a_at a = now"
      "a_time a = T" "a_rid a < length bl" "bl ! a_rid a = (b_candidate b, b, t)"
    and t: "t \<le> clock (b_candidate b) T" "now = (if v = b_candidate b then t else clock v T)"
  shows "log_ok clock longest nodes bl (lg @ [Answer a]) T"
proof -
  let ?lg = "lg @ [Answer a]"
  have w: "wins ?lg = wins lg" by (auto simp: fun_eq_iff wins_append)
  have g: "grants ?lg i e k \<longleftrightarrow> grants lg i e k \<or> i = length lg \<and> e = a \<and> k = v_hold V" for i e k
    using a(3) by (auto simp: grants_append)
  have an: "answers_ok clock longest nodes bl lg T" and pr: "pairs_ok clock lg"
    and wn: "wins_ok nodes bl lg" and own: "own_ok lg" using ok by (simp_all add: log_ok_def)
  have [simp]: "a_epoch a = b_epoch b" "a_cand a = b_candidate b"
    using a(2) by (simp_all add: a_epoch_def a_cand_def)
  have "answers_ok clock longest nodes bl ?lg T"
    unfolding answers_ok_def g
  proof (intro conjI allI impI; (elim conjE)?)
    fix i e k assume "grants lg i e k \<or> i = length lg \<and> e = a \<and> k = v_hold V"
    then consider (old) "grants lg i e k" | (new) "e = a" "k = v_hold V" by blast
    then show "a_rid e < length bl" "a_voter e \<in> set nodes" "k \<le> longest" "a_time e \<le> T"
      "\<exists>t. bl ! a_rid e = (a_cand e, a_ballot e, t) \<and> t \<le> clock (a_cand e) (a_time e)
        \<and> a_at e = (if a_voter e = a_cand e then t else clock (a_voter e) (a_time e))"
      using answers_okD [OF an] a t v(2,3) by (cases; simp)+
  next
    fix i j e f h k
    assume "grants lg i e h \<or> i = length lg \<and> e = a \<and> h = v_hold V"
      "grants lg j f k \<or> j = length lg \<and> f = a \<and> k = v_hold V" "i < j"
    then have e: "grants lg i e h" and f: "grants lg j f k \<or> f = a" by (auto dest: grants_length)
    then show "a_time e \<le> a_time f" using answers_okD(3,6) [OF an e] a(5) \<open>i < j\<close> by blast
  qed
  moreover have "wins_ok nodes bl ?lg" using wn unfolding wins_ok_def w g by meson
  moreover have "own_ok ?lg"
    unfolding own_ok_def w g
  proof (intro allI impI; elim conjE)
    fix i j x e k
    assume x: "wins lg i x" "i < j" "a_voter e = w_node x" "a_epoch e = w_epoch x"
      and "grants lg j e k \<or> j = length lg \<and> e = a \<and> k = v_hold V"
    then consider "grants lg j e k" | "e = a" by blast
    then show "a_cand e = w_node x"
      using own_okD [OF own x(1) _ x(2-4)] grant_own(2) [OF v(1) may x(1)] x(3,4) a(1) by cases simp_all
  qed
  moreover have "pairs_ok clock ?lg"
    unfolding pairs_ok_def settled_def w
  proof (intro allI impI)
    fix i j e f h k
    assume h: "grants ?lg i e h \<and> grants ?lg j f k \<and> i < j \<and> a_voter e = a_voter f"
    then have e: "grants lg i e h" using g [of i e h] g [of j f k] by (auto dest: grants_length)
    show "a_epoch e \<le> a_epoch f
      \<and> (a_cand e \<noteq> a_cand f \<longrightarrow>
          (\<exists>k x. wins lg k x \<and> i < k \<and> k < j \<and> w_node x = a_voter e \<and> a_epoch e \<le> w_epoch x
            \<and> a_cand e \<noteq> a_voter e) \<or> a_at e + int h \<le> clock (a_voter e) (a_time f))
      \<and> (a_cand e \<noteq> a_cand f \<and> a_epoch e = a_epoch f \<longrightarrow>
          (\<exists>m x. wins lg m x \<and> i < m \<and> m < j \<and> w_node x = a_voter e \<and> w_epoch x = a_epoch e))"
    proof (cases "grants lg j f k")
      case True
      then show ?thesis using pr e h unfolding pairs_ok_def settled_def by blast
    next
      case False
      then have f: "f = a" "j = length lg" "a_voter e = v" using h g [of j f k] a(1) by auto
      note gk = grant_keeps [OF ck v(1,2) may now e f(3)]
      show ?thesis
        using gk f a(5) unfolding settled_def by (auto dest: wins_length)
    qed
  qed
  ultimately show ?thesis by (simp add: log_ok_def)
qed

lemma log_ok_win:
  assumes ck: "clocks_keep clock longest" and ok: "log_ok clock longest nodes bl lg T"
    and x: "w_rid x < length bl" "bl ! w_rid x = (w_node x, b, lw_from (w_won x))"
      "b_epoch b = w_epoch x" "set (w_quorum x) \<subseteq> set nodes"
      "majority (card (set nodes)) \<le> card (set (w_quorum x))"
    and q: "\<And>u. u \<in> set (w_quorum x) \<Longrightarrow> \<exists>i a h. grants lg i a h \<and> a_voter a = u
        \<and> a_rid a = w_rid x \<and> lw_length (w_won x) \<le> h"
  shows "log_ok clock longest nodes bl (lg @ [Win x]) T"
proof -
  let ?lg = "lg @ [Win x]"
  have g: "grants ?lg = grants lg" by (auto simp: fun_eq_iff grants_append)
  have w: "wins ?lg j y \<longleftrightarrow> wins lg j y \<or> j = length lg \<and> y = x" for j y
    by (auto simp: wins_append)
  have an: "answers_ok clock longest nodes bl lg T" and pr: "pairs_ok clock lg"
    and wn: "wins_ok nodes bl lg" and own: "own_ok lg" using ok by (simp_all add: log_ok_def)
  have "answers_ok clock longest nodes bl ?lg T" using an by (simp add: answers_ok_def g)
  moreover have "own_ok ?lg" using own unfolding own_ok_def g w
    by (metis grants_length less_asym)
  moreover have "pairs_ok clock ?lg"
  proof -
    have "settled clock lg j t i a h \<Longrightarrow> settled clock ?lg j t i a h" for j t i a h
      using settled_mono [OF ck, of lg j t i a h j t "[Win x]"] by simp
    moreover have "wins lg j y \<Longrightarrow> wins ?lg j y" for j y by (simp add: w)
    ultimately show ?thesis unfolding pairs_ok_def g
      by (intro allI impI; elim conjE) (meson pairs_okD [OF pr])
  qed
  moreover have "wins_ok nodes bl ?lg"
    unfolding wins_ok_def
  proof (intro allI impI)
    fix j y assume y: "wins ?lg j y"
    show "w_rid y < length bl \<and> (\<exists>b. bl ! w_rid y = (w_node y, b, lw_from (w_won y)) \<and> b_epoch b = w_epoch y)
      \<and> set (w_quorum y) \<subseteq> set nodes \<and> majority (card (set nodes)) \<le> card (set (w_quorum y))
      \<and> (\<forall>u \<in> set (w_quorum y). \<exists>i a h. i < j \<and> grants ?lg i a h \<and> a_voter a = u
            \<and> a_rid a = w_rid y \<and> lw_length (w_won y) \<le> h)"
    proof (cases "wins lg j y")
      case True
      then show ?thesis using wn unfolding wins_ok_def g by blast
    next
      case False
      then have y: "y = x" "j = length lg" using y w [of j y] by auto
      have "\<exists>i a h. i < length lg \<and> grants lg i a h \<and> a_voter a = u \<and> a_rid a = w_rid x
          \<and> lw_length (w_won x) \<le> h" if "u \<in> set (w_quorum x)" for u
        using q [OF that] grants_length by metis
      then show ?thesis unfolding y g using x by auto
    qed
  qed
  ultimately show ?thesis by (simp add: log_ok_def)
qed

section \<open>The invariant of a world\<close>

definition round_ok ::
  "node list \<Rightarrow> (node \<times> ballot \<times> instant) list \<Rightarrow> event list \<Rightarrow> node \<Rightarrow> instant \<Rightarrow> nat \<Rightarrow> round \<Rightarrow> bool" where
  "round_ok nodes bl lg n now rid r \<longleftrightarrow>
    rid < length bl \<and> bl ! rid = (n, r_ballot r, now) \<and> b_candidate (r_ballot r) = n
    \<and> r_opened r = now \<and> r_voters r = card (set nodes)
    \<and> distinct (r_granted r) \<and> set (r_granted r) \<subseteq> set nodes
    \<and> (\<forall>u \<in> set (r_granted r). \<exists>i a h. grants lg i a h \<and> a_voter a = u \<and> a_rid a = rid
          \<and> r_shortest r \<le> h)"

fun pass_instant :: "pass \<Rightarrow> instant option" where
  "pass_instant Idle = None"
| "pass_instant (Woken now) = Some now"
| "pass_instant (Canvassing now _ _ _) = Some now"
| "pass_instant (Casted now _ _ _) = Some now"

definition pass_ok ::
  "(node \<Rightarrow> nat \<Rightarrow> instant) \<Rightarrow> node list \<Rightarrow> (node \<times> ballot \<times> instant) list \<Rightarrow> event list \<Rightarrow> nat
    \<Rightarrow> node \<Rightarrow> voter \<Rightarrow> pass \<Rightarrow> bool" where
  "pass_ok clock nodes bl lg T n V p \<longleftrightarrow>
    (\<forall>now. pass_instant p = Some now \<longrightarrow> now \<le> clock n T
      \<and> (\<forall>g. granted V = Some g \<longrightarrow> g_candidate g = n \<longrightarrow> g_at g \<le> now))
    \<and> (\<forall>now e rid gr. p = Canvassing now e rid gr \<or> p = Casted now e rid gr \<longrightarrow>
        round_ok nodes bl lg n now rid (snd gr))"

definition cursor_ok :: "(node \<Rightarrow> nat \<Rightarrow> instant) \<Rightarrow> event list \<Rightarrow> nat \<Rightarrow> node \<Rightarrow> renewing_state \<Rightarrow> bool" where
  "cursor_ok clock lg T n c \<longleftrightarrow>
    fenced (leadership_lease (standing_on c)) (clock n T)
    \<or> (\<exists>j x. wins lg j x \<and> w_node x = n \<and> w_won x = standing_on c)"

definition member_ok ::
  "reach \<Rightarrow> node list \<Rightarrow> (node \<Rightarrow> nat \<Rightarrow> instant) \<Rightarrow> duration \<Rightarrow> (node \<times> ballot \<times> instant) list
    \<Rightarrow> event list \<Rightarrow> nat \<Rightarrow> node \<Rightarrow> member \<Rightarrow> bool" where
  "member_ok rg nodes clock longest bl lg T n m \<longleftrightarrow>
    voter_ok clock lg T n (line_voter (mind m) rg)
    \<and> v_hold (line_voter (mind m) rg) \<le> longest
    \<and> pass_ok clock nodes bl lg T n (line_voter (mind m) rg) (pass m)
    \<and> cursor_ok clock lg T n (cursor m)"

definition ballots_ok ::
  "reach \<Rightarrow> (node \<Rightarrow> nat \<Rightarrow> instant) \<Rightarrow> (node \<times> ballot \<times> instant) list \<Rightarrow> nat \<Rightarrow> bool" where
  "ballots_ok rg clock bl T \<longleftrightarrow>
    (\<forall>(c, b, t) \<in> set bl. b_candidate b = c \<and> b_range b = rg \<and> t \<le> clock c T)"

definition world_ok :: "reach \<Rightarrow> node list \<Rightarrow> (node \<Rightarrow> nat \<Rightarrow> instant) \<Rightarrow> duration \<Rightarrow> world \<Rightarrow> bool" where
  "world_ok rg nodes clock longest w \<longleftrightarrow>
    log_ok clock longest nodes (ballots w) (log w) (time w)
    \<and> ballots_ok rg clock (ballots w) (time w)
    \<and> (\<forall>n. member_ok rg nodes clock longest (ballots w) (log w) (time w) n (members w n))"

lemma round_ok_mono:
  "round_ok nodes bl lg n now rid r \<Longrightarrow> round_ok nodes (bl @ bs) (lg @ es) n now rid r"
  unfolding round_ok_def using grants_append [of lg es] by (simp add: nth_append) blast

lemma cursor_ok_mono:
  assumes "clocks_keep clock longest" "cursor_ok clock lg T n c" "T \<le> T'"
  shows "cursor_ok clock (lg @ es) T' n c"
  using assms(2) fenced_mono clock_mono [OF assms(1,3)] unfolding cursor_ok_def wins_append by blast

lemma pass_ok_frame:
  assumes "clocks_keep clock longest" "pass_ok clock nodes bl lg T n V p" "T \<le> T'"
    and "\<And>g. granted V' = Some g \<Longrightarrow> g_candidate g = n \<Longrightarrow> granted V = Some g"
  shows "pass_ok clock nodes (bl @ bs) (lg @ es) T' n V' p"
proof -
  have "now \<le> clock n T \<Longrightarrow> now \<le> clock n T'" for now
    using clock_mono [OF assms(1,3), of n] by (rule order_trans [rotated])
  then show ?thesis using assms(2,4) round_ok_mono unfolding pass_ok_def by blast
qed

lemma member_ok_frame:
  assumes ck: "clocks_keep clock longest" and m: "member_ok rg nodes clock longest bl lg T n m"
    and t: "T \<le> T'" and s: "silent es n"
  shows "member_ok rg nodes clock longest (bl @ bs) (lg @ es) T' n m"
  using m voter_ok_frame [OF ck _ t s] pass_ok_frame [OF ck _ t] cursor_ok_mono [OF ck _ t]
  unfolding member_ok_def by blast

lemma ballots_ok_later:
  assumes "clocks_keep clock longest" "ballots_ok rg clock bl T" "T \<le> T'"
  shows "ballots_ok rg clock bl T'"
  using assms(2) clock_mono [OF assms(1,3)] unfolding ballots_ok_def by (auto intro: order_trans)

text \<open>One member moves, the log grows by what it did, and the rest of the world stays.\<close>

lemma world_ok_moves:
  assumes ck: "clocks_keep clock longest" and w: "world_ok rg nodes clock longest w"
    and lg: "log_ok clock longest nodes (ballots w @ bs) (log w @ es) (time w)"
    and bl: "ballots_ok rg clock (ballots w @ bs) (time w)"
    and m: "member_ok rg nodes clock longest (ballots w @ bs) (log w @ es) (time w) n m"
    and s: "\<And>k. k \<noteq> n \<Longrightarrow> silent es k"
  shows "world_ok rg nodes clock longest
    (set_member n m (w\<lparr>ballots := ballots w @ bs, log := log w @ es\<rparr>))"
proof -
  have "member_ok rg nodes clock longest (ballots w @ bs) (log w @ es) (time w) k (members w k)"
    if "k \<noteq> n" for k
    using w member_ok_frame [OF ck _ order_refl s [OF that]] unfolding world_ok_def by blast
  then show ?thesis using lg bl m by (simp add: world_ok_def set_member_def)
qed

section \<open>The voter of a line\<close>

lemma line_voter_set [simp]: "line_voter (set_line rg v m) rg = v"
  by (simp add: line_voter_def set_line_def)

lemma line_voter_hold_for [simp]: "line_voter (deciding_hold_for d m) rg = hold_for d (line_voter m rg)"
  by (cases "lines m rg")
    (simp_all add: line_voter_def deciding_hold_for_def hold_for_def holding_for_def started_at_def)

lemma deciding_asked_line:
  assumes "deciding_asked m b now mine cand = (mem, vt, anew)"
  shows "asked (line_voter m (b_range b)) b now mine cand = (line_voter mem (b_range b), vt)"
  using assms by (auto simp: deciding_asked_def Let_def split: prod.splits)

lemma deciding_carried_line:
  assumes "deciding_carried m b now = (mem, r)"
  shows "carried (line_voter m (b_range b)) b now = (line_voter mem (b_range b), r)"
  using assms by (auto simp: deciding_carried_def Let_def split: prod.splits)

lemma carried_refused: "carried V b now = (V', Inl e) \<Longrightarrow> V' = V"
  by (auto simp: carried_eq split: option.splits if_splits)

lemma carried_hold: "carried V b now = (V', r) \<Longrightarrow> v_hold V' = v_hold V"
  by (auto simp: carried_def split: option.splits if_splits)

lemma silent_simps [simp]:
  "silent [] k" "silent [Answer a] k \<longleftrightarrow> (\<forall>h. a_vote a = Granted h \<longrightarrow> a_voter a \<noteq> k)"
  "silent [Win x] k \<longleftrightarrow> w_node x \<noteq> k"
  by (auto simp: silent_def)

section \<open>Every step keeps the invariant\<close>

lemma world_okD:
  assumes "world_ok rg nodes clock longest w"
  shows "log_ok clock longest nodes (ballots w) (log w) (time w)"
    "ballots_ok rg clock (ballots w) (time w)"
    "voter_ok clock (log w) (time w) n (voter_of rg w n)" "v_hold (voter_of rg w n) \<le> longest"
    "pass_ok clock nodes (ballots w) (log w) (time w) n (voter_of rg w n) (pass (members w n))"
    "cursor_ok clock (log w) (time w) n (cursor (members w n))"
  using assms by (simp_all add: world_ok_def member_ok_def voter_of_def)

lemma ballots_okD:
  assumes "ballots_ok rg clock bl T" "rid < length bl" "bl ! rid = (c, b, t)"
  shows "b_candidate b = c" "b_range b = rg" "t \<le> clock c T"
  using assms nth_mem [OF assms(2)] by (auto simp: ballots_ok_def)

text \<open>A voter answers, at its door or its own ballot.\<close>

lemma answer_keeps:
  assumes ck: "clocks_keep clock longest" and w: "world_ok rg nodes clock longest w"
    and v: "v \<in> set nodes" and b: "rid < length (ballots w)" "ballots w ! rid = (c, b, t)"
    and now: "now = (if v = c then t else clock v (time w))"
    and own: "v = c \<longrightarrow> (\<forall>g. granted (voter_of rg w v) = Some g \<longrightarrow> g_candidate g = v \<longrightarrow> g_at g \<le> t)"
    and ask: "deciding_asked (mind (members w v)) b now mine cand = (mem, vt, anew)"
    and a: "a = \<lparr>a_rid = rid, a_voter = v, a_ballot = b, a_vote = vt, a_at = now, a_time = time w\<rparr>"
  shows "log_ok clock longest nodes (ballots w) (log w @ [Answer a]) (time w)"
    "voter_ok clock (log w @ [Answer a]) (time w) v (line_voter mem rg)"
    "v_hold (line_voter mem rg) \<le> longest"
    "\<And>g. granted (line_voter mem rg) = Some g \<Longrightarrow> g_candidate g = v \<Longrightarrow>
      granted (voter_of rg w v) = Some g \<or> v = c \<and> g_at g = t"
proof -
  let ?V = "voter_of rg w v"
  note D = world_okD [OF w]
  note B = ballots_okD [OF D(2) b]
  have asked: "asked ?V b now mine cand = (line_voter mem rg, vt)"
    using deciding_asked_line [OF ask] B(2) by (simp add: voter_of_def)
  have le: "now \<le> clock v (time w)" using now B(3) by auto
  have "log_ok clock longest nodes (ballots w) (log w @ [Answer a]) (time w)
      \<and> voter_ok clock (log w @ [Answer a]) (time w) v (line_voter mem rg)
      \<and> v_hold (line_voter mem rg) \<le> longest
      \<and> (\<forall>g. granted (line_voter mem rg) = Some g \<longrightarrow> g_candidate g = v \<longrightarrow>
          granted ?V = Some g \<or> v = c \<and> g_at g = t)"
  proof (cases vt)
    case (Refused r)
    then have same: "granted (line_voter mem rg) = granted ?V" "v_hold (line_voter mem rg) = v_hold ?V"
      using asked_refused_memory [of ?V b now mine cand] asked by auto
    have "voter_ok clock (log w @ [Answer a]) (time w) v (line_voter mem rg)"
      by (rule voter_ok_frame [OF ck D(3)]) (simp_all add: same a Refused)
    moreover have "log_ok clock longest nodes (ballots w) (log w @ [Answer a]) (time w)"
      by (rule log_ok_refused [OF D(1)]) (simp add: a Refused)
    ultimately show ?thesis using same D(4) [of v] by auto
  next
    case (Granted h)
    then have g: "may_grant ?V b now" "line_voter mem rg = remember ?V b now" "h = v_hold ?V"
      using asked asked_granted_iff [of ?V b now mine cand] by auto
    have "voter_ok clock (log w @ [Answer a]) (time w) v (remember ?V b now)"
    proof (rule voter_ok_grant [OF ck D(3,4) g(1) le])
      show "g_at k \<le> now" if k: "granted ?V = Some k" "g_candidate k = b_candidate b" for k
        using k own B(1) now voter_okD(2) [OF D(3) k(1)] by auto
    qed (simp_all add: a Granted g(3))
    moreover have "log_ok clock longest nodes (ballots w) (log w @ [Answer a]) (time w)"
      by (rule log_ok_grant [OF ck D(1) D(3,4) v g(1) le, where t = t])
        (use b B now in \<open>simp_all add: a Granted g(3)\<close>)
    ultimately show ?thesis using g(2) D(4) [of v] now B(1) by auto
  qed
  then show "log_ok clock longest nodes (ballots w) (log w @ [Answer a]) (time w)"
    "voter_ok clock (log w @ [Answer a]) (time w) v (line_voter mem rg)"
    "v_hold (line_voter mem rg) \<le> longest"
    "\<And>g. granted (line_voter mem rg) = Some g \<Longrightarrow> g_candidate g = v \<Longrightarrow>
      granted ?V = Some g \<or> v = c \<and> g_at g = t"
    by blast+
qed

lemma round_ok_counted:
  assumes r: "round_ok nodes bl lg n now rid r" and u: "u \<in> set nodes"
    and a: "\<And>h. vt = Granted h \<Longrightarrow> \<exists>i a k. grants lg i a k \<and> a_voter a = u \<and> a_rid a = rid \<and> h \<le> k"
  shows "round_ok nodes bl lg n now rid (counted u vt r)"
proof -
  have "\<exists>i a h. grants lg i a h \<and> a_voter a = x \<and> a_rid a = rid \<and> r_shortest (counted u vt r) \<le> h"
    if xin: "x \<in> set (r_granted (counted u vt r))" for x
  proof (cases "x \<in> set (r_granted r)")
    case True
    then obtain i a h where "grants lg i a h" "a_voter a = x" "a_rid a = rid" "r_shortest r \<le> h"
      using r unfolding round_ok_def by blast
    moreover from this have "r_shortest (counted u vt r) \<le> h" using counted_shortest(1) [of u vt r] by simp
    ultimately show ?thesis by blast
  next
    case False
    then obtain h where x: "x = u" "vt = Granted h" using xin by (auto simp: set_counted split: vote.splits)
    then obtain i a k where "grants lg i a k" "a_voter a = u" "a_rid a = rid" "h \<le> k" using a by blast
    moreover from this have "r_shortest (counted u vt r) \<le> k"
      using counted_shortest(2) [of u r vt h] False x by simp
    ultimately show ?thesis using x(1) by blast
  qed
  moreover have "set (r_granted (counted u vt r)) \<subseteq> set nodes"
    using r u by (auto simp: set_counted round_ok_def split: vote.splits)
  ultimately show ?thesis using r counted_distinct unfolding round_ok_def by auto
qed

lemma world_same [simp]: "w\<lparr>ballots := ballots w, log := log w\<rparr> = w" by simp

lemma opens_keeps:
  assumes ck: "clocks_keep clock longest" and w: "world_ok rg nodes clock longest w"
    and p: "pass (members w n) = Woken now" "n \<in> set nodes"
    and st: "s_candidate st = n" "s_range st = rg" "set (s_peers st) = set nodes - {n}"
      "distinct (s_peers st)"
  shows "world_ok rg nodes clock longest
    (set_member n ((members w n)\<lparr>pass := Canvassing now e (length (ballots w)) (0, round_of st e now)\<rparr>)
      (w\<lparr>ballots := ballots w @ [(n, r_ballot (round_of st e now), now)]\<rparr>))"
proof -
  let ?b = "[(n, r_ballot (round_of st e now), now)]"
  note D = world_okD [OF w]
  have le: "now \<le> clock n (time w)"
    and own: "\<And>g. granted (voter_of rg w n) = Some g \<Longrightarrow> g_candidate g = n \<Longrightarrow> g_at g \<le> now"
    using D(5) [of n] p(1) by (auto simp: pass_ok_def)
  have "length (s_peers st) = card (set nodes) - 1"
    using st(3) distinct_card [OF st(4)] p(2) by simp
  moreover have "0 < card (set nodes)" using p(2) by (auto simp: card_gt_0_iff)
  ultimately have "length (s_peers st) + 1 = card (set nodes)" by linarith
  then have r: "round_ok nodes (ballots w @ ?b) (log w) n now (length (ballots w)) (round_of st e now)"
    by (simp add: round_ok_def st(1))
  have "member_ok rg nodes clock longest (ballots w @ ?b) (log w @ []) (time w) n
      ((members w n)\<lparr>pass := Canvassing now e (length (ballots w)) (0, round_of st e now)\<rparr>)"
    using D(3,4,6) [of n] le own r by (simp add: member_ok_def pass_ok_def voter_of_def)
  moreover have "log_ok clock longest nodes (ballots w @ ?b) (log w @ []) (time w)"
    using log_ok_later [OF D(1) order_refl] by simp
  moreover have "ballots_ok rg clock (ballots w @ ?b) (time w)"
    using D(2) le by (auto simp: ballots_ok_def st(1,2))
  ultimately show ?thesis using world_ok_moves [OF ck w, of ?b "[]"] by simp
qed

lemma concludes_keeps:
  assumes ck: "clocks_keep clock longest" and w: "world_ok rg nodes clock longest w"
    and p: "pass (members w n) = Casted now e rid gr"
    and c: "conclude now (mind (members w n), gr) = (mem, s)"
  shows "world_ok rg nodes clock longest
    (set_member n ((members w n)\<lparr>mind := mem, cursor := answered n now e s (cursor (members w n)), pass := Idle\<rparr>)
      (w\<lparr>log := log w @ won_event rid n (snd gr) s\<rparr>))"
proof -
  let ?V = "voter_of rg w n" and ?r = "snd gr" and ?es = "won_event rid n (snd gr) s"
  let ?m = "(members w n)\<lparr>mind := mem, cursor := answered n now e s (cursor (members w n)), pass := Idle\<rparr>"
  note D = world_okD [OF w]
  have le: "now \<le> clock n (time w)"
    and own: "\<And>g. granted ?V = Some g \<Longrightarrow> g_candidate g = n \<Longrightarrow> g_at g \<le> now"
    and r: "round_ok nodes (ballots w) (log w) n now rid ?r"
    using D(5) [of n] p by (cases gr, auto simp: pass_ok_def)+
  have rr: "rid < length (ballots w)" "ballots w ! rid = (n, r_ballot ?r, now)"
    "b_candidate (r_ballot ?r) = n" "r_opened ?r = now" "r_voters ?r = card (set nodes)"
    "distinct (r_granted ?r)" "set (r_granted ?r) \<subseteq> set nodes"
    using r by (simp_all add: round_ok_def)
  have rg: "b_range (r_ballot ?r) = rg" using ballots_okD(2) [OF D(2) rr(1,2)] .
  have "log_ok clock longest nodes (ballots w) (log w @ ?es) (time w)
      \<and> voter_ok clock (log w @ ?es) (time w) n (line_voter mem rg)
      \<and> v_hold (line_voter mem rg) = v_hold ?V
      \<and> cursor_ok clock (log w @ ?es) (time w) n (answered n now e s (cursor (members w n)))
      \<and> (\<forall>k. k \<noteq> n \<longrightarrow> silent ?es k)"
  proof (cases "\<exists>l. s = Won l")
    case True
    then obtain l where s: "s = Won l" by blast
    have held: "round_held ?r = Some l" and carr: "deciding_carried (mind (members w n)) (r_ballot ?r) now = (mem, Inr ())"
      using c s by (auto simp: conclude_def split: prod.splits option.splits sum.splits)
    have l: "l = \<lparr>lw_epoch = b_epoch (r_ballot ?r), lw_from = now, lw_length = r_shortest ?r\<rparr>"
      "majority (card (set nodes)) \<le> length (r_granted ?r)"
      using held rr(4,5) by (auto simp: round_held_def split: if_splits)
    have cv: "carried ?V (r_ballot ?r) now = (line_voter mem rg, Inr ())"
      using deciding_carried_line [OF carr] rg by (simp add: voter_of_def)
    let ?x = "\<lparr>w_rid = rid, w_node = n, w_won = l, w_quorum = r_granted ?r\<rparr>"
    have es: "?es = [Win ?x]" by (simp add: won_event_def s)
    have "voter_ok clock (log w @ [Win ?x]) (time w) n (line_voter mem rg)"
      by (rule voter_ok_carried [OF ck D(3) cv rr(3) le own]) (simp_all add: w_epoch_def l(1))
    moreover have "log_ok clock longest nodes (ballots w) (log w @ [Win ?x]) (time w)"
      by (rule log_ok_win [OF ck D(1), where b = "r_ballot ?r"])
        (use rr l r distinct_card [OF rr(6)] in \<open>auto simp: w_epoch_def round_ok_def\<close>)
    moreover have "v_hold (line_voter mem rg) = v_hold ?V"
      using carried_hold [OF cv] .
    moreover have "cursor_ok clock (log w @ [Win ?x]) (time w) n (answered n now e s (cursor (members w n)))"
      unfolding cursor_ok_def s by (intro disjI2 exI [of _ "length (log w)"] exI [of _ ?x])
        (simp add: wins_append)
    ultimately show ?thesis unfolding es by simp
  next
    case False
    then have es: "?es = []" by (cases s) (simp_all add: won_event_def)
    have "line_voter mem rg = ?V"
      using c False rg deciding_carried_line carried_refused
      by (fastforce simp: conclude_def voter_of_def split: prod.splits option.splits sum.splits)
    moreover have "standing_on (answered n now e s (cursor (members w n))) = standing_on (cursor (members w n))"
      using False by (cases s) simp_all
    ultimately show ?thesis using D(1,3,6) es by (simp add: cursor_ok_def)
  qed
  moreover from this have "member_ok rg nodes clock longest (ballots w @ []) (log w @ ?es) (time w) n ?m"
    using D(4) [of n] by (simp add: member_ok_def pass_ok_def)
  ultimately show ?thesis using world_ok_moves [OF ck w, of "[]" ?es n ?m] D(2) by simp
qed

lemma pass_only_keeps:
  assumes ck: "clocks_keep clock longest" and w: "world_ok rg nodes clock longest w"
    and p: "pass_ok clock nodes (ballots w) (log w) (time w) n (voter_of rg w n) p"
  shows "world_ok rg nodes clock longest (set_member n ((members w n)\<lparr>pass := p\<rparr>) w)"
proof -
  note D = world_okD [OF w]
  have "member_ok rg nodes clock longest (ballots w @ []) (log w @ []) (time w) n ((members w n)\<lparr>pass := p\<rparr>)"
    using D(3,4,6) [of n] p by (simp add: member_ok_def voter_of_def)
  then show ?thesis using world_ok_moves [OF ck w, of "[]" "[]"] D(1,2) by simp
qed

lemma answered_keeps:
  assumes ck: "clocks_keep clock longest" and w: "world_ok rg nodes clock longest w"
    and lg: "log_ok clock longest nodes (ballots w) (log w @ [Answer a]) (time w)"
    and V: "voter_ok clock (log w @ [Answer a]) (time w) v (line_voter mem rg)"
      "v_hold (line_voter mem rg) \<le> longest"
    and p: "pass_ok clock nodes (ballots w) (log w @ [Answer a]) (time w) v (line_voter mem rg) p"
    and a: "a_voter a = v"
  shows "world_ok rg nodes clock longest
    (set_member v ((members w v)\<lparr>mind := mem, pass := p\<rparr>) (w\<lparr>log := log w @ [Answer a]\<rparr>))"
proof -
  note D = world_okD [OF w]
  have "member_ok rg nodes clock longest (ballots w @ []) (log w @ [Answer a]) (time w) v
      ((members w v)\<lparr>mind := mem, pass := p\<rparr>)"
    using V p cursor_ok_mono [OF ck D(6) order_refl] by (simp add: member_ok_def)
  then show ?thesis using world_ok_moves [OF ck w, of "[]" "[Answer a]"] lg D(2) a by simp
qed

lemma step_keeps:
  assumes ck: "clocks_keep clock longest" and w: "world_ok rg nodes clock longest w"
    and s: "election_step rg nodes clock w w'" and pk: "policy_kept rg longest w w'"
  shows "world_ok rg nodes clock longest w'"
  using s
proof cases
  case tick
  note D = world_okD [OF w]
  have "member_ok rg nodes clock longest (ballots w) (log w) (time w + 1) n (members w n)" for n
    using member_ok_frame [OF ck, of rg nodes "ballots w" "log w" "time w" n "members w n"
        "time w + 1" "[]" "[]"] w by (simp add: world_ok_def)
  then show ?thesis
    using tick log_ok_later [OF D(1), of "time w + 1" "[]"] ballots_ok_later [OF ck D(2), of "time w + 1"]
    by (simp add: world_ok_def)
next
  case (policy n m d)
  note D = world_okD [OF w]
  let ?m = "(members w n)\<lparr>mind := deciding_hold_for d (mind (members w n))\<rparr>"
  have le: "v_hold (voter_of rg w n) \<le> d" "d \<le> longest"
    using pk [unfolded policy_kept_def, rule_format, of n] policy(1,3)
    by (simp_all add: voter_of_def set_member_def hold_for_def)
  have same: "granted (hold_for d V) = granted V" "v_hold (hold_for d V) = d" for V
    by (simp_all add: hold_for_def)
  have "voter_ok clock (log w @ []) (time w) n (hold_for d (voter_of rg w n))"
    by (rule voter_ok_frame [OF ck D(3)]) (simp_all add: same le)
  moreover have "pass_ok clock nodes (ballots w) (log w) (time w) n (hold_for d (voter_of rg w n)) (pass (members w n))"
    using D(5) [of n] by (simp add: pass_ok_def same)
  ultimately have "member_ok rg nodes clock longest (ballots w @ []) (log w @ []) (time w) n ?m"
    using D(6) [of n] le(2) same by (simp add: member_ok_def voter_of_def)
  then show ?thesis
    using world_ok_moves [OF ck w, of "[]" "[]" n ?m] D(1,2) policy by simp
next
  case (wake n m)
  have "pass_ok clock nodes (ballots w) (log w) (time w) n (voter_of rg w n) (Woken (clock n (time w)))"
    using voter_okD(2) [OF world_okD(3) [OF w]] by (auto simp: pass_ok_def)
  then show ?thesis using pass_only_keeps [OF ck w] wake by simp
next
  case (skip n m now)
  have "pass_ok clock nodes (ballots w) (log w) (time w) n (voter_of rg w n) Idle"
    by (simp add: pass_ok_def)
  then show ?thesis using pass_only_keeps [OF ck w] skip by simp
next
  case (opens n m now l e st r)
  then show ?thesis using opens_keeps [OF ck w] by simp
next
  case (door v m rid c b opened mine cand mem vt anew)
  have now: "clock v (time w) = (if v = c then opened else clock v (time w))" using door(6) by simp
  let ?a = "\<lparr>a_rid = rid, a_voter = v, a_ballot = b, a_vote = vt, a_at = clock v (time w), a_time = time w\<rparr>"
  have own: "v = c \<longrightarrow> (\<forall>g. granted (voter_of rg w v) = Some g \<longrightarrow> g_candidate g = v \<longrightarrow> g_at g \<le> opened)"
    using door(6) by simp
  note K = answer_keeps [OF ck w door(2,4,5) now own door(7) [unfolded door(3)] refl]
  have "pass_ok clock nodes (ballots w @ []) (log w @ [Answer ?a]) (time w) v (line_voter mem rg) (pass (members w v))"
    by (rule pass_ok_frame [OF ck world_okD(5) [OF w] order_refl]) (use K(4) door(6) in blast)
  then show ?thesis
    using answered_keeps [OF ck w K(1-3), of "pass (members w v)"] door(1,3) by simp
next
  case (count n m now e rid gr a)
  note D = world_okD [OF w]
  have an: "answers_ok clock longest nodes (ballots w) (log w) (time w)" using D(1) by (simp add: log_ok_def)
  obtain i where i: "i < length (log w)" "log w ! i = Answer a" using count(5) by (auto simp: in_set_conv_nth)
  have p: "pass_ok clock nodes (ballots w) (log w) (time w) n (voter_of rg w n) (Canvassing now e rid gr)"
    using D(5) [of n] count(3,4) by simp
  then have r: "round_ok nodes (ballots w) (log w) n now rid (snd gr)" unfolding pass_ok_def by blast
  have "round_ok nodes (ballots w) (log w) n now rid (counted (a_voter a) (as_sent (a_vote a)) (snd gr))"
  proof (cases "a_vote a")
    case (Granted h)
    then have g: "grants (log w) i a h" using i by (simp add: grants_def)
    have "\<exists>i a' k. grants (log w) i a' k \<and> a_voter a' = a_voter a \<and> a_rid a' = rid \<and> h' \<le> k"
      if "as_sent (a_vote a) = Granted h'" for h'
      using g count(6) that Granted sent_duration_le [of h] by auto
    then show ?thesis using round_ok_counted [OF r answers_okD(1) [OF an g]] by blast
  next
    case (Refused x)
    then have "counted (a_voter a) (as_sent (a_vote a)) (snd gr) = snd gr"
      by (cases x) (simp_all add: counted_def)
    then show ?thesis using r by simp
  qed
  then have "pass_ok clock nodes (ballots w) (log w) (time w) n (voter_of rg w n)
      (Canvassing now e rid (count_vote (a_voter a) (as_sent (a_vote a)) gr))"
    using p unfolding pass_ok_def by (auto simp: count_vote_def counts_def Let_def)
  then show ?thesis using pass_only_keeps [OF ck w] count by simp
next
  case (forgo n m now e rid gr)
  have "pass_ok clock nodes (ballots w) (log w) (time w) n (voter_of rg w n) (Casted now e rid gr)"
    using world_okD(5) [OF w, of n] forgo(3,4) by (simp add: pass_ok_def)
  then show ?thesis using pass_only_keeps [OF ck w] forgo by simp
next
  case (casts n m now e rid gr mine mem vt anew)
  note D = world_okD [OF w]
  have p: "pass_ok clock nodes (ballots w) (log w) (time w) n (voter_of rg w n) (Canvassing now e rid gr)"
    using D(5) [of n] casts(3,4) by simp
  then have r: "round_ok nodes (ballots w) (log w) n now rid (snd gr)" unfolding pass_ok_def by blast
  then have rr: "rid < length (ballots w)" "ballots w ! rid = (n, r_ballot (snd gr), now)"
    by (simp_all add: round_ok_def)
  let ?a = "\<lparr>a_rid = rid, a_voter = n, a_ballot = r_ballot (snd gr), a_vote = vt, a_at = now, a_time = time w\<rparr>"
  have own: "n = n \<longrightarrow> (\<forall>g. granted (voter_of rg w n) = Some g \<longrightarrow> g_candidate g = n \<longrightarrow> g_at g \<le> now)"
    using p by (simp add: pass_ok_def)
  have now: "now = (if n = n then now else clock n (time w))" by simp
  note K = answer_keeps [OF ck w casts(2) rr now own casts(6) [unfolded casts(3)] refl]
  have "round_ok nodes (ballots w @ []) (log w @ [Answer ?a]) n now rid (snd gr)"
    by (rule round_ok_mono [OF r])
  then have "round_ok nodes (ballots w) (log w @ [Answer ?a]) n now rid (snd gr)" by simp
  then have "round_ok nodes (ballots w) (log w @ [Answer ?a]) n now rid (counted n vt (snd gr))"
  proof (rule round_ok_counted [OF _ casts(2)])
    show "\<exists>i a k. grants (log w @ [Answer ?a]) i a k \<and> a_voter a = n \<and> a_rid a = rid \<and> h \<le> k"
      if "vt = Granted h" for h
      by (rule exI [of _ "length (log w)"], rule exI [of _ ?a], rule exI [of _ h])
        (simp add: grants_append that)
  qed
  moreover have "g_at g \<le> now" if "granted (line_voter mem rg) = Some g" "g_candidate g = n" for g
    using K(4) [OF that] own that(2) by auto
  moreover have "now \<le> clock n (time w)" using p by (simp add: pass_ok_def)
  ultimately have "pass_ok clock nodes (ballots w) (log w @ [Answer ?a]) (time w) n (line_voter mem rg)
      (Casted now e rid (count_vote n vt gr))"
    by (auto simp: pass_ok_def count_vote_def counts_def Let_def)
  then show ?thesis using answered_keeps [OF ck w K(1-3)] casts(1,3) by simp
next
  case (concludes n m now e rid gr mem s)
  then show ?thesis using concludes_keeps [OF ck w] by simp
qed

lemma world_started_ok:
  assumes ck: "clocks_keep clock longest" and TTL: "TTL \<le> longest"
  shows "world_ok rg nodes clock longest (world_started clock written)"
proof -
  have V: "line_voter (deciding_holding (started_at t)) rg = started_at t" for t
    by (simp add: line_voter_def deciding_holding_def started_at_def holding_for_def)
  have "clock n 0 < INSTANT_END" "- INSTANT_END \<le> clock n 0 - int TTL" for n
    using ck unfolding clocks_keep_def by (smt (verit) of_nat_0_le_iff)+
  then have "cursor_ok clock [] 0 n (line_cursor (clock n 0) e)" for n e
    by (simp add: cursor_ok_def line_cursor_fenced)
  moreover have "granted (started_at t) = None" "v_hold (started_at t) = TTL" for t
    by (simp_all add: started_at_def)
  ultimately show ?thesis
    using TTL unfolding world_ok_def
    by (simp add: world_started_def member_started_def member_ok_def V voter_ok_def
        silent_def grants_def wins_def pass_ok_def log_ok_def answers_ok_def wins_ok_def pairs_ok_def
        own_ok_def ballots_ok_def)
qed

lemma reachable_ok:
  assumes "reachable rg nodes clock longest w" "clocks_keep clock longest" "TTL \<le> longest"
  shows "world_ok rg nodes clock longest w"
  using assms(1)
proof induction
  case (start written)
  show ?case using world_started_ok [OF assms(2,3)] .
next
  case (steps w w')
  then show ?case using step_keeps [OF assms(2)] by blast
qed

end
