(* ===== verification/Election_Live.thy ===== *)
theory Election_Live
  imports Election_Reach
begin

text \<open>That the rules elect: once the voters have sat out one lease after starting, a node
that stands and whose peers answer leads, under a lease that is open.\<close>

section \<open>Steps that keep the policy\<close>

lemma asked_hold: "asked V b now mine cand = (V', vt) \<Longrightarrow> v_hold V' = v_hold V"
  by (auto simp: asked_def adopt_def Let_def split: option.splits if_splits)

lemma line_voter_started: "line_voter (deciding_holding (started_at t)) rg = started_at t"
  by (simp add: line_voter_def deciding_holding_def started_at_def holding_for_def)

text \<open>A member that moves without changing how long it holds a grant keeps the policy.\<close>

lemma policy_kept_move:
  assumes "world_ok rg nodes clock longest w"
    and "v_hold (line_voter (mind m) rg) = v_hold (voter_of rg w n)"
  shows "policy_kept rg longest w (set_member n m (w\<lparr>ballots := bl, log := lg\<rparr>))"
    "policy_kept rg longest w (set_member n m (w\<lparr>ballots := bl\<rparr>))"
    "policy_kept rg longest w (set_member n m (w\<lparr>log := lg\<rparr>))"
    "policy_kept rg longest w (set_member n m w)"
  using assms world_okD(4) [OF assms(1)]
  by (simp_all add: policy_kept_def voter_of_def set_member_def)

section \<open>A round that every peer answers\<close>

text \<open>A world in which \<open>n\<close> collects the votes of a round for epoch \<open>e\<close>, opened at the
instant of its clock, of which \<open>got\<close> have granted.\<close>

definition collecting :: "reach \<Rightarrow> (node \<Rightarrow> nat \<Rightarrow> instant) \<Rightarrow> node \<Rightarrow> epoch \<Rightarrow> node list \<Rightarrow> round \<Rightarrow> world \<Rightarrow> bool" where
  "collecting rg clock n e got r w \<longleftrightarrow>
    pass (members w n) = Canvassing (clock n (time w)) e 0 (0, r)
    \<and> ballots w = [(n, \<lparr>b_epoch = e, b_candidate = n, b_range = rg\<rparr>, clock n (time w))]
    \<and> r_ballot r = \<lparr>b_epoch = e, b_candidate = n, b_range = rg\<rparr>
    \<and> r_opened r = clock n (time w) \<and> r_granted r = got \<and> r_shortest r = TTL
    \<and> mind (members w n) = deciding_holding (started_at (clock n 0))"

definition waiting :: "(node \<Rightarrow> nat \<Rightarrow> instant) \<Rightarrow> node \<Rightarrow> world \<Rightarrow> bool" where
  "waiting clock u w \<longleftrightarrow>
    mind (members w u) = deciding_holding (started_at (clock u 0))
    \<and> clock u 0 + int TTL \<le> clock u (time w)"

lemma TTL_sent: "as_sent (Granted TTL) = Granted TTL"
  by (simp add: sent_duration_def TTL_def from_millis_def as_millis_def)

lemma fresh_asked:
  assumes "clock u 0 + int TTL \<le> now" "\<not> behind mine mine"
  shows "\<exists>V'. asked (started_at (clock u 0)) b now mine mine = (V', Granted TTL)
    \<and> granted_epoch V' = Some (b_epoch b)"
proof -
  have "free_at (clock u 0) TTL \<le> now"
    using assms(1) by (auto simp: free_at_def checked_add_def)
  then have "may_grant (started_at (clock u 0)) b now"
    by (simp add: may_grant_def started_at_def)
  then show ?thesis
    using asked_granted_iff [of "started_at (clock u 0)" b now mine mine] assms(2)
    by (auto simp: started_at_def granted_epoch_def)
qed

lemma deciding_asked_fresh:
  assumes "clock u 0 + int TTL \<le> now"
  shows "\<exists>mem anew. deciding_asked (deciding_holding (started_at (clock u 0))) b now mine mine
    = (mem, Granted TTL, anew) \<and> v_hold (line_voter mem (b_range b)) = TTL
      \<and> granted_epoch (line_voter mem (b_range b)) = Some (b_epoch b)"
proof -
  obtain V' where V': "asked (started_at (clock u 0)) b now mine mine = (V', Granted TTL)"
      "granted_epoch V' = Some (b_epoch b)"
    using fresh_asked [of clock u now mine b] assms behind_linear(1) by blast
  have "deciding_asked (deciding_holding (started_at (clock u 0))) b now mine mine
    = (set_line (b_range b) V' (deciding_holding (started_at (clock u 0))), Granted TTL,
       b_range b = Store \<and> granted_epoch V' \<noteq> granted_epoch (started_at (clock u 0)))"
    by (simp add: deciding_asked_def line_voter_started V' Let_def)
  moreover have "v_hold V' = TTL" using asked_hold [OF V'(1)] by (simp add: started_at_def)
  ultimately show ?thesis using V'(2) by (intro exI conjI) auto
qed

lemma peer_grants:
  assumes ck: "clocks_keep clock longest" "TTL \<le> longest"
    and w: "reachable rg nodes clock longest w" "collecting rg clock n e got r w"
    and u: "u \<in> set nodes" "n \<in> set nodes" "u \<noteq> n" "u \<notin> set got" "waiting clock u w"
  shows "\<exists>w'. reachable rg nodes clock longest w' \<and> time w' = time w
    \<and> collecting rg clock n e (got @ [u]) (counted u (Granted TTL) r) w'
    \<and> (\<forall>k. k \<noteq> u \<longrightarrow> k \<noteq> n \<longrightarrow> members w' k = members w k)"
proof -
  let ?b = "\<lparr>b_epoch = e, b_candidate = n, b_range = rg\<rparr>" and ?now = "clock n (time w)"
  have c: "pass (members w n) = Canvassing ?now e 0 (0, r)" "ballots w = [(n, ?b, ?now)]"
    "r_ballot r = ?b" "r_granted r = got" "r_shortest r = TTL" "r_opened r = ?now"
    "mind (members w n) = deciding_holding (started_at (clock n 0))"
    using w(2) by (simp_all add: collecting_def)
  define mine :: reached where "mine = \<lparr>leadership = 0, tail = 0\<rparr>"
  obtain mem anew where ask: "deciding_asked (mind (members w u)) ?b (clock u (time w)) mine mine
      = (mem, Granted TTL, anew)" "v_hold (line_voter mem rg) = TTL"
    using deciding_asked_fresh [of clock u "clock u (time w)" ?b mine] u(5) by (auto simp: waiting_def)
  let ?a = "\<lparr>a_rid = 0, a_voter = u, a_ballot = ?b, a_vote = Granted TTL, a_at = clock u (time w),
      a_time = time w\<rparr>"
  let ?w1 = "set_member u ((members w u)\<lparr>mind := mem\<rparr>) (w\<lparr>log := log w @ [Answer ?a]\<rparr>)"
  have ok: "world_ok rg nodes clock longest w" by (rule reachable_ok [OF w(1) ck])
  have "v_hold (voter_of rg w u) = TTL"
    using u(5) by (simp add: waiting_def voter_of_def line_voter_started) (simp add: started_at_def)
  then have "policy_kept rg longest w ?w1" using ask(2) by (intro policy_kept_move(3) [OF ok]) simp
  moreover have "election_step rg nodes clock w ?w1"
    by (rule election_step.door [where clock = clock and c = n and opened = ?now and cand = mine
          and mine = mine and anew = anew])
      (use u(1,3) c(2) ask(1) in simp_all)
  ultimately have r1: "reachable rg nodes clock longest ?w1" using reachable.steps [OF w(1)] by blast
  let ?gr = "count_vote u (as_sent (Granted TTL)) (0, r)"
  let ?w2 = "set_member n ((members ?w1 n)\<lparr>pass := Canvassing ?now e 0 ?gr\<rparr>) ?w1"
  have m1: "members ?w1 n = members w n" using u(3) by (simp add: set_member_def)
  have "election_step rg nodes clock ?w1
      (set_member n ((members ?w1 n)\<lparr>pass := Canvassing ?now e 0 (count_vote (a_voter ?a) (as_sent (a_vote ?a)) (0, r))\<rparr>) ?w1)"
    by (rule election_step.count) (use c(1) m1 u(2) in \<open>simp_all add: set_member_def\<close>)
  moreover have "policy_kept rg longest ?w1 ?w2"
    by (rule policy_kept_move(4) [OF reachable_ok [OF r1 ck]]) (simp add: voter_of_def)
  ultimately have r2: "reachable rg nodes clock longest ?w2" using reachable.steps [OF r1] by simp
  have gr: "?gr = (0, counted u (Granted TTL) r)"
    unfolding TTL_sent by (simp add: count_vote_def note_epoch_def counts_def Let_def)
  have r': "r_ballot (counted u (Granted TTL) r) = ?b" "r_opened (counted u (Granted TTL) r) = ?now"
    "r_granted (counted u (Granted TTL) r) = got @ [u]" "r_shortest (counted u (Granted TTL) r) = TTL"
    using c u(4) by (simp_all add: counted_def)
  have "collecting rg clock n e (got @ [u]) (counted u (Granted TTL) r) ?w2"
    using c m1 r' unfolding gr by (simp add: collecting_def set_member_def)
  then show ?thesis using r2 by (intro exI [of _ ?w2]) (simp add: set_member_def)
qed

lemma peers_grant:
  assumes ck: "clocks_keep clock longest" "TTL \<le> longest" and n: "n \<in> set nodes"
    and "reachable rg nodes clock longest w" "collecting rg clock n e got r w"
    and "distinct (got @ us)" "set us \<subseteq> set nodes - {n}" "\<forall>u \<in> set us. waiting clock u w"
  shows "\<exists>w' r'. reachable rg nodes clock longest w' \<and> time w' = time w
    \<and> collecting rg clock n e (got @ us) r' w' \<and> r_voters r' = r_voters r"
  using assms(4-8)
proof (induction us arbitrary: w got r)
  case Nil
  then show ?case by auto
next
  case (Cons u us)
  obtain w1 where w1: "reachable rg nodes clock longest w1" "time w1 = time w"
    "collecting rg clock n e (got @ [u]) (counted u (Granted TTL) r) w1"
    "\<And>k. k \<noteq> u \<Longrightarrow> k \<noteq> n \<Longrightarrow> members w1 k = members w k"
    using peer_grants [OF ck Cons.prems(1,2), of u] Cons.prems(3-5) n by auto
  have "waiting clock x w1" if "x \<in> set us" for x
  proof -
    have "x \<noteq> u" "x \<noteq> n" "waiting clock x w" using that Cons.prems(3-5) by auto
    then show ?thesis using w1(2) w1(4) [of x] by (simp add: waiting_def)
  qed
  then show ?case
    using Cons.IH [OF w1(1,3)] Cons.prems(3,4) w1(2) by auto
qed

section \<open>A leader is elected\<close>

text \<open>The candidate whose peers have all granted casts its own ballot and concludes.\<close>

lemma collected_wins:
  assumes ck: "clocks_keep clock longest" "TTL \<le> longest" and n: "n \<in> set nodes"
    and w: "reachable rg nodes clock longest w" "collecting rg clock n e got r w"
    and own: "clock n 0 + int TTL \<le> clock n (time w)" "n \<notin> set got" "r_voters r = length got + 1"
  shows "\<exists>w'. reachable rg nodes clock longest w' \<and> time w' = time w
    \<and> standing_on (cursor (members w' n))
        = \<lparr>lw_epoch = e, lw_from = clock n (time w), lw_length = TTL\<rparr>"
proof -
  let ?b = "\<lparr>b_epoch = e, b_candidate = n, b_range = rg\<rparr>" and ?now = "clock n (time w)"
  have c: "pass (members w n) = Canvassing ?now e 0 (0, r)"
    "r_ballot r = ?b" "r_granted r = got" "r_shortest r = TTL" "r_opened r = ?now"
    "mind (members w n) = deciding_holding (started_at (clock n 0))"
    using w(2) by (simp_all add: collecting_def)
  define mine :: reached where "mine = \<lparr>leadership = 0, tail = 0\<rparr>"
  obtain mem anew where ask: "deciding_asked (mind (members w n)) ?b ?now mine mine
      = (mem, Granted TTL, anew)" "v_hold (line_voter mem rg) = TTL"
      "granted_epoch (line_voter mem rg) = Some e"
    using deciding_asked_fresh [of clock n ?now ?b mine] own(1) c(6) by auto
  let ?a = "\<lparr>a_rid = 0, a_voter = n, a_ballot = r_ballot (snd (0 :: epoch, r)), a_vote = Granted TTL,
      a_at = ?now, a_time = time w\<rparr>"
  let ?gr = "count_vote n (Granted TTL) (0, r)"
  let ?w1 = "set_member n ((members w n)\<lparr>mind := mem, pass := Casted ?now e 0 ?gr\<rparr>)
      (w\<lparr>log := log w @ [Answer ?a]\<rparr>)"
  have "needs r \<le> 1" using own(3) c(3) by (simp add: needs_def majority_def)
  then have "election_step rg nodes clock w ?w1"
    by (intro election_step.casts [where mine = mine and anew = anew])
      (use n c ask(1) in simp_all)
  moreover have "policy_kept rg longest w ?w1"
    using ask(2) c(6)
    by (intro policy_kept_move(3) [OF reachable_ok [OF w(1) ck]])
      (simp add: voter_of_def line_voter_started, simp add: started_at_def)
  ultimately have r1: "reachable rg nodes clock longest ?w1" using reachable.steps [OF w(1)] by blast
  let ?r = "counted n (Granted TTL) r"
  let ?l = "\<lparr>lw_epoch = e, lw_from = ?now, lw_length = TTL\<rparr>"
  have gr: "?gr = (0, ?r)" by (simp add: count_vote_def note_epoch_def counts_def Let_def)
  have r': "r_granted ?r = got @ [n]" "r_shortest ?r = TTL" using c own(2) by (simp_all add: counted_def)
  have held: "round_held ?r = Some ?l"
    using r' c own(3) by (simp add: round_held_def majority_def)
  obtain mem' where carr: "deciding_carried mem ?b ?now = (mem', Inr ())"
    "v_hold (line_voter mem' rg) = TTL"
  proof -
    obtain g where g: "granted (line_voter mem rg) = Some g" "g_epoch g = e"
      using ask(3) by (auto simp: granted_epoch_def)
    then have "deciding_carried mem ?b ?now
        = (set_line rg (remember (line_voter mem rg) ?b ?now) mem, Inr ())"
      by (simp add: deciding_carried_def carried_eq)
    then show ?thesis using that ask(2) by simp
  qed
  have conc: "conclude ?now (mem, ?gr) = (mem', Won ?l)"
    using carr(1) held c(2) by (simp add: conclude_def gr)
  let ?w2 = "set_member n ((members ?w1 n)\<lparr>mind := mem', cursor := answered n ?now e (Won ?l) (cursor (members ?w1 n)),
      pass := Idle\<rparr>) (?w1\<lparr>log := log ?w1 @ won_event 0 n (snd ?gr) (Won ?l)\<rparr>)"
  have "election_step rg nodes clock ?w1 ?w2"
    by (rule election_step.concludes [OF n refl, of ?w1 ?now e 0 ?gr])
      (use conc in \<open>simp_all add: set_member_def\<close>)
  moreover have "policy_kept rg longest ?w1 ?w2"
    using carr(2) ask(2)
    by (intro policy_kept_move(3) [OF reachable_ok [OF r1 ck]]) (simp add: voter_of_def set_member_def)
  ultimately have "reachable rg nodes clock longest ?w2" using reachable.steps [OF r1] by blast
  then show ?thesis by (intro exI [of _ ?w2]) (simp add: set_member_def)
qed

text \<open>The first steps: the clocks move on, the node wakes and finds its round due.\<close>

lemma opens_first:
  assumes ck: "clocks_keep clock longest" "TTL \<le> longest" and n: "n \<in> set nodes" "distinct nodes"
    and up: "\<And>u. clock u 0 + int TTL \<le> clock u 1"
  shows "\<exists>w e r. reachable rg nodes clock longest w \<and> time w = 1
    \<and> collecting rg clock n e [] r w \<and> r_voters r = length (remove1 n nodes) + 1
    \<and> (\<forall>u. u \<noteq> n \<longrightarrow> waiting clock u w)"
proof -
  let ?w0 = "world_started clock (\<lambda>_. 0)" and ?m0 = "member_started (clock n 0) 0"
  let ?w1 = "?w0\<lparr>time := time ?w0 + 1\<rparr>" and ?now = "clock n 1"
  have r0: "reachable rg nodes clock longest ?w0" by (rule reachable.start)
  have "policy_kept rg longest ?w0 ?w1"
    using world_okD(4) [OF reachable_ok [OF r0 ck]] by (simp add: policy_kept_def voter_of_def)
  then have r1: "reachable rg nodes clock longest ?w1"
    using reachable.steps [OF r0 election_step.tick] by blast
  let ?w2 = "set_member n (?m0\<lparr>pass := Woken ?now\<rparr>) ?w1"
  have "election_step rg nodes clock ?w1 (set_member n ((members ?w1 n)\<lparr>pass := Woken (clock n (time ?w1))\<rparr>) ?w1)"
    by (rule election_step.wake [OF n(1) refl]) (simp add: world_started_def member_started_def)
  moreover have "policy_kept rg longest ?w1 ?w2"
    by (rule policy_kept_move(4) [OF reachable_ok [OF r1 ck]]) (simp add: voter_of_def world_started_def)
  ultimately have r2: "reachable rg nodes clock longest ?w2"
    using reachable.steps [OF r1] by (simp add: world_started_def)
  define st where "st = \<lparr>s_candidate = n, s_peers = remove1 n nodes, s_round = 0, s_range = rg,
      s_lease = TTL, s_reached = \<lparr>leadership = 0, tail = 0\<rparr>\<rparr>"
  let ?c = "cursor ?m0"
  let ?e = "due_epoch ?c" and ?r = "round_of st (due_epoch ?c) ?now"
  have bounds: "- INSTANT_END \<le> clock n 0 - int TTL" "clock n 0 < INSTANT_END" "clock n 0 \<le> ?now"
    using ck(1) up [of n] unfolding clocks_keep_def by (simp_all, smt (verit) of_nat_0_le_iff)
  have due: "due ?c ?now = Some (leadership_lease (standing_on ?c), ?e)"
    by (simp add: due_def member_started_def line_cursor_def above_def renewing_holding_def)
  have "fenced (leadership_lease (standing_on ?c)) ?now"
    using line_cursor_fenced [OF bounds] by (simp add: member_started_def)
  then have rin: "renew_in (leadership_lease (standing_on ?c)) (s_round st) ?now = 0"
    by (simp add: renew_in_def fenced_left)
  let ?m2 = "?m0\<lparr>pass := Canvassing ?now ?e 0 (0, ?r)\<rparr>"
  let ?w3 = "set_member n ?m2 (?w2\<lparr>ballots := [(n, r_ballot ?r, ?now)]\<rparr>)"
  have m: "members ?w2 n = ?m0\<lparr>pass := Woken ?now\<rparr>" by (simp add: set_member_def)
  have "election_step rg nodes clock ?w2
      (set_member n ((members ?w2 n)\<lparr>pass := Canvassing ?now ?e (length (ballots ?w2)) (0, ?r)\<rparr>)
        (?w2\<lparr>ballots := ballots ?w2 @ [(n, r_ballot ?r, ?now)]\<rparr>))"
    by (rule election_step.opens [OF n(1) refl, of ?w2 ?now _ ?e st])
      (use m due rin n in \<open>simp_all add: st_def\<close>)
  moreover have "policy_kept rg longest ?w2 ?w3"
    by (rule policy_kept_move(2) [OF reachable_ok [OF r2 ck]]) (simp add: voter_of_def set_member_def)
  ultimately have r3: "reachable rg nodes clock longest ?w3"
    using reachable.steps [OF r2] m by (simp add: set_member_def world_started_def)
  have "collecting rg clock n ?e [] ?r ?w3"
    by (simp add: collecting_def set_member_def world_started_def member_started_def st_def)
  moreover have "waiting clock u ?w3" if "u \<noteq> n" for u
    using that up by (simp add: waiting_def set_member_def world_started_def member_started_def)
  moreover have "r_voters ?r = length (remove1 n nodes) + 1" by (simp add: st_def)
  moreover have "time ?w3 = 1" by (simp add: set_member_def world_started_def)
  ultimately show ?thesis using r3 by blast
qed

lemma leader_elected:
  assumes ck: "clocks_keep clock longest" "TTL \<le> longest" and n: "n \<in> set nodes" "distinct nodes"
    and up: "\<And>u. clock u 0 + int TTL \<le> clock u 1"
  shows "\<exists>w. reachable rg nodes clock longest w
    \<and> \<not> fenced (leadership_lease (standing_on (cursor (members w n)))) (clock n (time w))"
proof -
  obtain w e r where w: "reachable rg nodes clock longest w" "time w = 1"
    "collecting rg clock n e [] r w" "r_voters r = length (remove1 n nodes) + 1"
    "\<And>u. u \<noteq> n \<Longrightarrow> waiting clock u w"
    using opens_first [OF assms] by blast
  obtain w' r' where w': "reachable rg nodes clock longest w'" "time w' = 1"
    "collecting rg clock n e (remove1 n nodes) r' w'" "r_voters r' = r_voters r"
    using peers_grant [OF ck n(1) w(1,3), of "remove1 n nodes"] n(2) w(2,5) by fastforce
  obtain w'' where w'': "reachable rg nodes clock longest w''" "time w'' = 1"
    "standing_on (cursor (members w'' n)) = \<lparr>lw_epoch = e, lw_from = clock n 1, lw_length = TTL\<rparr>"
    using collected_wins [OF ck n(1) w'(1,3)] up [of n] n(2) w'(2,4) w(4) by auto
  have "- INSTANT_END \<le> clock n 1" "clock n 1 + int TTL < INSTANT_END"
    using ck unfolding clocks_keep_def by (smt (verit) of_nat_0_le_iff of_nat_mono)+
  then have "\<not> fenced (leadership_lease (standing_on (cursor (members w'' n)))) (clock n 1)"
    by (simp add: w''(3) leadership_lease_def fenced_def taken_at_exact TTL_def GUARD_def from_millis_def)
  then show ?thesis using w''(1,2) by auto
qed

section \<open>Properties\<close>

text \<open>C1: two nodes never lead a line at once: in every world the cluster reaches, whatever
the interleaving, the losses and the delays, of any two nodes at least one has a lease
whose fence has closed on its own clock, as long as the clocks part by no more than
the guard over a lease and the policy never shortens a lease.\<close>

theorem no_two_leaders:
  assumes "reachable rg nodes clock longest w" "clocks_keep clock longest" "TTL \<le> longest" "n \<noteq> m"
  shows "fenced (leadership_lease (standing_on (cursor (members w n)))) (clock n (time w))
    \<or> fenced (leadership_lease (standing_on (cursor (members w m)))) (clock m (time w))"
proof -
  note D = world_okD [OF reachable_ok [OF assms(1-3)]]
  let ?F = "\<lambda>k. fenced (leadership_lease (standing_on (cursor (members w k)))) (clock k (time w))"
  have won: "\<exists>j x. wins (log w) j x \<and> w_node x = k \<and> w_won x = standing_on (cursor (members w k))"
    if "\<not> ?F k" for k
    using D(6) [of k] that by (simp add: cursor_ok_def)
  show ?thesis
  proof (rule ccontr)
    assume "\<not> ?thesis"
    then have no: "\<not> ?F n" "\<not> ?F m" by simp_all
    obtain i x where x: "wins (log w) i x" "w_node x = n" "w_won x = standing_on (cursor (members w n))"
      using won [OF no(1)] by blast
    obtain j y where y: "wins (log w) j y" "w_node y = m" "w_won y = standing_on (cursor (members w m))"
      using won [OF no(2)] by blast
    have "over clock x (time w) \<or> over clock y (time w)"
      using one_is_over [OF assms(2) D(1) x(1) y(1)] x(2) y(2) assms(4) by simp
    then show False using no x y by (simp add: over_def)
  qed
qed

definition jump :: "node \<Rightarrow> nat \<Rightarrow> instant" where
  "jump n t = (if t = 0 then 0 else int TTL)"

lemma jump_keeps: "clocks_keep jump TTL"
  by (auto simp: clocks_keep_def jump_def INSTANT_END_def TTL_def GUARD_def from_millis_def)

theorem no_two_leaders_witness:
  "\<exists>w. reachable Store [[1], [2], [3]] jump TTL w
    \<and> \<not> fenced (leadership_lease (standing_on (cursor (members w [1])))) (jump [1] (time w))
    \<and> fenced (leadership_lease (standing_on (cursor (members w [2])))) (jump [2] (time w))"
proof -
  obtain w where w: "reachable Store [[1], [2], [3]] jump TTL w"
    "\<not> fenced (leadership_lease (standing_on (cursor (members w [1])))) (jump [1] (time w))"
    using leader_elected [OF jump_keeps order_refl, of "[1]" "[[1], [2], [3]]" Store]
    by (auto simp: jump_def)
  then show ?thesis using no_two_leaders [OF w(1) jump_keeps order_refl, of "[1]" "[2]"] by auto
qed

text \<open>C35: an epoch has one leader: of all the rounds won in a world the cluster reaches, two
of one epoch were won by one node, also when a node carried a round its own voter had
refused.\<close>

theorem one_leader_per_epoch:
  assumes "reachable rg nodes clock longest w" "clocks_keep clock longest" "TTL \<le> longest"
    and "Win x \<in> set (log w)" "Win y \<in> set (log w)" "lw_epoch (w_won x) = lw_epoch (w_won y)"
  shows "w_node x = w_node y"
proof -
  obtain i j where ij: "wins (log w) i x" "wins (log w) j y"
    using assms(4,5) by (auto simp: wins_def in_set_conv_nth)
  have "w_epoch x = w_epoch y" using assms(6) by (simp add: w_epoch_def)
  then show ?thesis by (rule one_winner [OF world_okD(1) [OF reachable_ok [OF assms(1-3)]] ij])
qed

theorem one_leader_per_epoch_witness:
  "\<exists>w x. reachable Store [[1], [2], [3]] jump TTL w \<and> Win x \<in> set (log w)
    \<and> (\<forall>y. Win y \<in> set (log w) \<and> lw_epoch (w_won y) = lw_epoch (w_won x) \<longrightarrow> w_node y = [1])"
proof -
  obtain w where w: "reachable Store [[1], [2], [3]] jump TTL w"
    "\<not> fenced (leadership_lease (standing_on (cursor (members w [1])))) (jump [1] (time w))"
    using leader_elected [OF jump_keeps order_refl, of "[1]" "[[1], [2], [3]]" Store]
    by (auto simp: jump_def)
  then obtain x where x: "Win x \<in> set (log w)" "w_node x = [1]"
    using world_okD(6) [OF reachable_ok [OF w(1) jump_keeps order_refl], of "[1]"]
    by (auto simp: cursor_ok_def wins_def in_set_conv_nth)
  then have "w_node y = [1]" if "Win y \<in> set (log w)" "lw_epoch (w_won y) = lw_epoch (w_won x)" for y
    using one_leader_per_epoch [OF w(1) jump_keeps order_refl that(1) x(1) that(2)] by simp
  then show ?thesis using w(1) x(1) by blast
qed

text \<open>Leadership is possible, so what is proved of leaders is not proved of nobody: when every
voter has been up for one lease, some run of the election ends with any given node
leading under a lease that is open.\<close>

theorem a_leader_is_elected:
  assumes "clocks_keep clock longest" "TTL \<le> longest" "n \<in> set nodes" "distinct nodes"
    "\<And>u. clock u 0 + int TTL \<le> clock u 1"
  shows "\<exists>w. reachable rg nodes clock longest w
    \<and> \<not> fenced (leadership_lease (standing_on (cursor (members w n)))) (clock n (time w))"
  using assms by (rule leader_elected)

theorem a_leader_is_elected_witness:
  "\<exists>w. reachable Store [[1], [2], [3]] jump TTL w
    \<and> \<not> fenced (leadership_lease (standing_on (cursor (members w [2])))) (jump [2] (time w))"
  by (rule a_leader_is_elected [OF jump_keeps order_refl]) (simp_all add: jump_def)

end
