(* ===== verification/Gate_Pending.thy ===== *)
theory Gate_Pending
  imports Kv_Memory Ordered_Map Store_Keys
begin

text \<open>The commits staged behind the turn and landed together (gate/pending.rs and
landed.rs of tessari-storage).  A commit stages its batch and waits; whichever
waiter finds no landing running takes a group from the front of the queue, lands
it in one write and records an answer for every member.  Each operation that the
code runs under the lock of the state is one function on the state; the waiting
itself is the interleaving of those operations, which the theory Gate_Run puts
together.\<close>

definition MAX_GROUP_COMMITS :: nat where "MAX_GROUP_COMMITS = 64"
definition MAX_GROUP_BYTES :: nat where "MAX_GROUP_BYTES = 4 * 1024 * 1024"

section \<open>Pending writes\<close>

text \<open>What pending writes do to each key they touch: a value, or nothing for a delete.
A keyspace no write has touched has no entries.\<close>

type_synonym ops_map = "keyspace \<Rightarrow> (key, kv_value option) omap"

definition no_ops :: ops_map where
  "no_ops = (\<lambda>_. [])"

definition ops_empty :: "ops_map \<Rightarrow> bool" where
  "ops_empty o' \<longleftrightarrow> list_all (\<lambda>ks. o' ks = []) Keyspace_ALL"

fun op_effect :: "write_op \<Rightarrow> kv_value option" where
  "op_effect (Put _ _ v) = Some v"
| "op_effect (Delete _ _) = None"

definition record_op :: "ops_map \<Rightarrow> write_op \<Rightarrow> ops_map" where
  "record_op o' op = o'(op_keyspace op := omap_insert (op_key op) (op_effect op) (o' (op_keyspace op)))"

definition record_ops :: "ops_map \<Rightarrow> write_batch \<Rightarrow> ops_map" where
  "record_ops o' b = foldl record_op o' (ops b)"

section \<open>The state behind the lock\<close>

record member =
  mb_ticket :: nat
  mb_version :: sequence
  mb_batch :: write_batch
  mb_bytes :: nat
  mb_named :: "keyspace \<times> key"

record pending =
  staged :: "member list"
  in_flight :: ops_map
  staged_ops :: ops_map
  flushing :: bool
  next_ticket :: nat
  answers :: "nat \<rightharpoonup> unit kv_result"
  gone :: "nat set"
  any_pending :: bool
  landed_version :: sequence

definition pending_new :: pending where
  "pending_new = \<lparr>staged = [], in_flight = no_ops, staged_ops = no_ops, flushing = False,
     next_ticket = 0, answers = Map.empty, gone = {}, any_pending = False, landed_version = 0\<rparr>"

definition publish :: "sequence \<Rightarrow> pending \<Rightarrow> pending" where
  "publish v p = p\<lparr>landed_version := max (landed_version p) v\<rparr>"

definition batch_bytes :: "write_batch \<Rightarrow> nat" where
  "batch_bytes b =
    foldl (\<lambda>n op. saturating_add (saturating_add n (length (op_key op)))
        (case op of Put _ _ v \<Rightarrow> length v | Delete _ _ \<Rightarrow> 0))
      0 (ops b)"

definition batch_named :: "write_batch \<Rightarrow> keyspace \<times> key" where
  "batch_named b =
    (case preconditions b of
       p # _ \<Rightarrow> (pre_keyspace p, pre_key p)
     | [] \<Rightarrow> (case ops b of op # _ \<Rightarrow> (op_keyspace op, op_key op) | [] \<Rightarrow> (META, [])))"

definition stage :: "write_batch \<Rightarrow> sequence \<Rightarrow> pending \<Rightarrow> nat \<times> pending" where
  "stage b version p =
    (let ticket = next_ticket p in
     (ticket,
      p\<lparr>next_ticket := saturating_add ticket 1,
        staged_ops := record_ops (staged_ops p) b,
        any_pending := True,
        staged := staged p @ [\<lparr>mb_ticket = ticket, mb_version = version, mb_batch = b,
          mb_bytes = batch_bytes b, mb_named = batch_named b\<rparr>]\<rparr>))"

definition pending_is_empty :: "pending \<Rightarrow> bool" where
  "pending_is_empty p \<longleftrightarrow> ops_empty (in_flight p) \<and> ops_empty (staged_ops p)"

definition quiet :: "pending \<Rightarrow> bool" where
  "quiet p \<longleftrightarrow> \<not> any_pending p"

section \<open>Reading what is pending\<close>

definition lookup :: "pending \<Rightarrow> keyspace \<Rightarrow> key \<Rightarrow> kv_value option option" where
  "lookup p ks k =
    (case map_of (staged_ops p ks) k of
       Some found \<Rightarrow> Some found
     | None \<Rightarrow> map_of (in_flight p ks) k)"

definition in_bounds :: "key_range \<Rightarrow> (key, kv_value option) omap \<Rightarrow> (key, kv_value option) omap" where
  "in_bounds r m = filter (\<lambda>(k, _). in_range r k) m"

definition insert_all ::
  "(key, kv_value option) omap \<Rightarrow> (key, kv_value option) omap \<Rightarrow> (key, kv_value option) omap" where
  "insert_all found entries = foldl (\<lambda>f (k, v). omap_insert k v f) found entries"

text \<open>Walking a map panics on the bounds the map refuses.\<close>

definition within :: "pending \<Rightarrow> keyspace \<Rightarrow> key_range \<Rightarrow> (key, kv_value option) omap kv_result" where
  "within p ks r =
    (if range_panics (range_start r) (range_end r) then Inl (Panicked ''BTreeMap::range'')
     else Inr (insert_all (insert_all [] (in_bounds r (in_flight p ks)))
                 (in_bounds r (staged_ops p ks))))"

section \<open>Groups\<close>

fun group_loop :: "member list \<Rightarrow> nat \<Rightarrow> member list \<Rightarrow> member list \<times> member list" where
  "group_loop taken n [] = (taken, [])"
| "group_loop taken n (m # ms) =
    (if length taken < MAX_GROUP_COMMITS \<and> (taken = [] \<or> n < MAX_GROUP_BYTES)
     then group_loop (taken @ [m]) (saturating_add n (mb_bytes m)) ms
     else (taken, m # ms))"

definition take_group :: "pending \<Rightarrow> member list \<times> pending" where
  "take_group p =
    (let (taken, left) = group_loop [] 0 (staged p);
         p = p\<lparr>staged := left, flushing := True\<rparr>
     in (taken,
         if left = [] then p\<lparr>in_flight := staged_ops p, staged_ops := no_ops\<rparr>
         else p\<lparr>in_flight := foldl record_ops no_ops (map mb_batch taken),
                staged_ops := foldl record_ops no_ops (map mb_batch left)\<rparr>))"

definition refused :: "keyspace \<times> key \<Rightarrow> kv_error" where
  "refused named = Conflict (keyspace_name (fst named)) (snd named)"

definition PANICKED :: string where
  "PANICKED = ''a group write panicked, so whether it landed is unknown''"

definition ABANDONED :: string where
  "ABANDONED = ''a group write was abandoned part way, so whether it landed is unknown''"

definition unknown :: "string \<Rightarrow> string \<Rightarrow> kv_error" where
  "unknown backend reason = Backend backend reason"

definition answer :: "nat \<Rightarrow> unit kv_result \<Rightarrow> pending \<Rightarrow> pending" where
  "answer ticket a p =
    (if ticket \<in> gone p then p\<lparr>gone := gone p - {ticket}\<rparr>
     else p\<lparr>answers := (answers p)(ticket \<mapsto> a)\<rparr>)"

definition refuse_staged :: "pending \<Rightarrow> pending" where
  "refuse_staged p =
    (let ms = staged p in
     (foldl (\<lambda>p m. answer (mb_ticket m) (Inl (refused (mb_named m))) p) (p\<lparr>staged := []\<rparr>) ms)
       \<lparr>staged_ops := no_ops\<rparr>)"

text \<open>How a group write ended: it answered, it panicked, or its future was dropped.\<close>

datatype group_outcome = Answered nat "unit kv_result" | GroupPanicked | GroupAbandoned

fun outcome_landed :: "group_outcome \<Rightarrow> nat" where
  "outcome_landed (Answered n _) = n"
| "outcome_landed _ = 0"

fun unknown_reason :: "group_outcome \<Rightarrow> string option" where
  "unknown_reason (Answered _ _) = None"
| "unknown_reason GroupPanicked = Some PANICKED"
| "unknown_reason GroupAbandoned = Some ABANDONED"

fun outcome_failure :: "group_outcome \<Rightarrow> kv_error option" where
  "outcome_failure (Answered _ (Inl e)) = Some e"
| "outcome_failure _ = None"

text \<open>The members of a group are answered in order; the failure the engine gave goes
to the first that did not land, and is gone for the others.\<close>

fun answer_members ::
  "string \<Rightarrow> string option \<Rightarrow> nat \<Rightarrow> nat \<Rightarrow> kv_error option
    \<Rightarrow> (nat \<times> keyspace \<times> key) list \<Rightarrow> pending \<Rightarrow> pending" where
  "answer_members backend reason landed index failure [] p = p"
| "answer_members backend reason landed index failure ((ticket, named) # ms) p =
    (case reason of
       Some why \<Rightarrow>
         answer_members backend reason landed (index + 1) failure ms
           (answer ticket (Inl (unknown backend why)) p)
     | None \<Rightarrow>
         if index < landed
         then answer_members backend reason landed (index + 1) failure ms (answer ticket (Inr ()) p)
         else
           (case failure of
              Some stopped \<Rightarrow>
                answer_members backend reason landed (index + 1) None ms
                  (answer ticket (Inl stopped) p)
            | None \<Rightarrow>
                answer_members backend reason landed (index + 1) None ms
                  (answer ticket (Inl (refused named)) p)))"

definition newest :: "sequence list \<Rightarrow> sequence option" where
  "newest vs = (case vs of [] \<Rightarrow> None | v # rest \<Rightarrow> Some (foldl max v rest))"

definition record_outcome ::
  "nat list \<Rightarrow> sequence list \<Rightarrow> (keyspace \<times> key) list \<Rightarrow> string \<Rightarrow> group_outcome \<Rightarrow> pending \<Rightarrow> pending" where
  "record_outcome tickets versions named backend outcome p =
    (let count = length tickets;
         p = p\<lparr>in_flight := no_ops, flushing := False\<rparr>;
         landed = outcome_landed outcome;
         p = (case newest (take landed versions) of Some v \<Rightarrow> publish v p | None \<Rightarrow> p);
         p = answer_members backend (unknown_reason outcome) landed 0 (outcome_failure outcome)
               (zip tickets named) p;
         p = (if unknown_reason outcome \<noteq> None \<or> landed < count then refuse_staged p else p)
     in p\<lparr>any_pending := \<not> pending_is_empty p\<rparr>)"

text \<open>The end of a group write: the flush that took the group gives its parts to the
recording, whichever way the write ended.\<close>

definition flush_record :: "member list \<Rightarrow> string \<Rightarrow> group_outcome \<Rightarrow> pending \<Rightarrow> pending" where
  "flush_record taken backend outcome p =
    record_outcome (map mb_ticket taken) (map mb_version taken) (map mb_named taken) backend outcome p"

section \<open>Waiting\<close>

text \<open>One look of a waiter at the state, and what it does next.\<close>

datatype land_next = Collected "unit kv_result" | Land "member list" | Wait

definition land_look :: "nat \<Rightarrow> pending \<Rightarrow> land_next \<times> pending" where
  "land_look ticket p =
    (case answers p ticket of
       Some a \<Rightarrow> (Collected a, p\<lparr>answers := (answers p)(ticket := None)\<rparr>)
     | None \<Rightarrow>
         if \<not> flushing p \<and> staged p \<noteq> []
         then (let (taken, p) = take_group p in (Land taken, p))
         else (Wait, p))"

text \<open>Landing everything returns when nothing is left, which is the first case.\<close>

definition land_all_look :: "pending \<Rightarrow> land_next option \<times> pending" where
  "land_all_look p =
    (if flushing p then (Some Wait, p)
     else if staged p = [] then (None, p)
     else (let (taken, p) = take_group p in (Some (Land taken), p)))"

definition drop_ticket :: "nat \<Rightarrow> bool \<Rightarrow> pending \<Rightarrow> pending" where
  "drop_ticket ticket collected p =
    (if collected then p
     else if answers p ticket = None then p\<lparr>gone := insert ticket (gone p)\<rparr>
     else p\<lparr>answers := (answers p)(ticket := None)\<rparr>)"

section \<open>Pending writes as a view\<close>

text \<open>A store seen through pending writes.\<close>

definition view_over :: "ops_map \<Rightarrow> store_map \<Rightarrow> store_map" where
  "view_over o' m ks k = (case map_of (o' ks) k of Some pv \<Rightarrow> pv | None \<Rightarrow> m ks k)"

definition ops_ok :: "ops_map \<Rightarrow> bool" where
  "ops_ok o' \<longleftrightarrow> (\<forall>ks. omap_ok (o' ks))"

lemma ops_ok_no_ops [simp]: "ops_ok no_ops"
  by (simp add: ops_ok_def no_ops_def)

lemma view_no_ops [simp]: "view_over no_ops m = m"
  by (simp add: view_over_def no_ops_def fun_eq_iff)

lemma ops_empty_iff: "ops_empty o' \<longleftrightarrow> o' = no_ops"
proof -
  have "ks \<in> set Keyspace_ALL" for ks by (cases ks) (simp_all add: Keyspace_ALL_def)
  then show ?thesis by (auto simp: ops_empty_def no_ops_def list_all_iff fun_eq_iff)
qed

lemma record_op_view:
  assumes "ops_ok o'"
  shows "ops_ok (record_op o' op)" "view_over (record_op o' op) m = map_op (view_over o' m) op"
proof -
  show "ops_ok (record_op o' op)" using assms by (simp add: ops_ok_def record_op_def)
  show "view_over (record_op o' op) m = map_op (view_over o' m) op"
    using assms by (cases op) (auto simp: ops_ok_def record_op_def view_over_def fun_eq_iff)
qed

lemma record_ops_view:
  assumes "ops_ok o'"
  shows "ops_ok (record_ops o' b)" "view_over (record_ops o' b) m = map_ops (ops b) (view_over o' m)"
proof -
  have "ops_ok (foldl record_op o' os)
    \<and> view_over (foldl record_op o' os) m = map_ops os (view_over o' m)" for os
    using assms by (induction os arbitrary: o') (simp_all add: record_op_view)
  then show "ops_ok (record_ops o' b)"
    "view_over (record_ops o' b) m = map_ops (ops b) (view_over o' m)"
    by (simp_all add: record_ops_def)
qed

text \<open>The writes of a run of batches, in their order.\<close>

definition batches_ops :: "write_batch list \<Rightarrow> write_op list" where
  "batches_ops bs = concat (map ops bs)"

lemma batches_ops_simps [simp]:
  "batches_ops [] = []" "batches_ops (b # bs) = ops b @ batches_ops bs"
  "batches_ops (bs @ cs) = batches_ops bs @ batches_ops cs"
  by (simp_all add: batches_ops_def)

lemma record_all_view:
  assumes "ops_ok o'"
  shows "ops_ok (foldl record_ops o' bs)
    \<and> view_over (foldl record_ops o' bs) m = map_ops (batches_ops bs) (view_over o' m)"
  using assms
  by (induction bs arbitrary: o') (simp_all add: record_ops_view map_ops_append)

text \<open>Writing again what a view already shows changes nothing it shows: a group that
lands while its writes are still pending is invisible to the reader of the view.\<close>

lemma view_hides:
  assumes "\<And>ks k. m ks k = m' ks k \<or> k \<in> dom (map_of (o' ks))"
  shows "view_over o' m = view_over o' m'"
proof (intro ext)
  fix ks k show "view_over o' m ks k = view_over o' m' ks k"
    using assms [of ks k] by (auto simp: view_over_def split: option.splits)
qed

lemma keys_record_ops:
  "fst ` set (record_ops o' b ks)
    = fst ` set (o' ks) \<union> {op_key op | op. op \<in> set (ops b) \<and> op_keyspace op = ks}"
proof -
  have "fst ` set (foldl record_op o' os ks)
    = fst ` set (o' ks) \<union> {op_key op | op. op \<in> set os \<and> op_keyspace op = ks}" for os
    by (induction os arbitrary: o') (auto simp: record_op_def)
  then show ?thesis by (simp add: record_ops_def)
qed

lemma keys_record_all:
  "fst ` set (foldl record_ops o' bs ks)
    = fst ` set (o' ks) \<union> {op_key op | op. op \<in> set (batches_ops bs) \<and> op_keyspace op = ks}"
  by (induction bs arbitrary: o') (auto simp: keys_record_ops)

section \<open>Groups are a prefix of the queue\<close>

lemma group_loop_split:
  "group_loop taken n ms = (g, l) \<Longrightarrow> g @ l = taken @ ms \<and> (\<exists>g'. g = taken @ g')"
  by (induction taken n ms arbitrary: g l rule: group_loop.induct) (auto split: if_splits)

lemma group_loop_takes:
  assumes "group_loop [] n ms = (g, l)" "ms \<noteq> []"
  shows "g \<noteq> []"
proof (cases ms)
  case (Cons m ms')
  then have "group_loop [m] (saturating_add n (mb_bytes m)) ms' = (g, l)"
    using assms(1) by (simp add: MAX_GROUP_COMMITS_def)
  then show ?thesis using group_loop_split by blast
qed (use assms in simp)

text \<open>The bounds of a group: never more commits than allowed, and it goes over the
bytes allowed only by the last member it took.\<close>

lemma group_loop_bounds:
  assumes "group_loop taken n ms = (g, l)" "length taken \<le> MAX_GROUP_COMMITS"
    "length taken \<le> 1 \<or> sum_list (map mb_bytes (butlast taken)) < MAX_GROUP_BYTES"
    "n = min (sum_list (map mb_bytes taken)) u64_max"
  shows "length g \<le> MAX_GROUP_COMMITS
    \<and> (length g \<le> 1 \<or> sum_list (map mb_bytes (butlast g)) < MAX_GROUP_BYTES)"
  using assms
proof (induction taken n ms rule: group_loop.induct)
  case (2 taken n m ms)
  show ?case
  proof (cases "length taken < MAX_GROUP_COMMITS \<and> (taken = [] \<or> n < MAX_GROUP_BYTES)")
    case True
    have "length (taken @ [m]) \<le> 1 \<or> sum_list (map mb_bytes (butlast (taken @ [m]))) < MAX_GROUP_BYTES"
      using True 2(5) by (auto simp: MAX_GROUP_BYTES_def u64_max_def min_def split: if_splits)
    moreover have "saturating_add n (mb_bytes m) = min (sum_list (map mb_bytes (taken @ [m]))) u64_max"
      using 2(5) by (simp add: saturating_add_def min_def)
    ultimately show ?thesis using 2(1) [OF True] 2(2) True by simp
  qed (use 2 in auto)
qed auto

end
