(* ===== verification/Gate_Overlay.thy ===== *)
theory Gate_Overlay
  imports Gate_Pending
begin

text \<open>The store as the holder of the turn sees it: the engine with what is pending over
it (gate/overlay.rs of tessari-storage).  The reads of a backend are a record of
functions, and the overlay makes one such record of another.  What a backend
answers is stated as the contract \<open>reads_of\<close> over the map it stands for; the
overlay keeps the contract, over the map seen through the pending writes.\<close>

section \<open>The reads of a backend\<close>

record backend_reads =
  rd_get :: "keyspace \<Rightarrow> key \<Rightarrow> kv_value option kv_result"
  rd_scan :: "scan_request \<Rightarrow> pair list kv_result"
  rd_sweep :: "scan_request \<Rightarrow> pair list kv_result"
  rd_first_of_each :: "keyspace \<Rightarrow> key_range list \<Rightarrow> pair option list kv_result"
  rd_count :: "keyspace \<Rightarrow> key_range \<Rightarrow> nat kv_result"
  rd_contains :: "keyspace \<Rightarrow> key \<Rightarrow> bool kv_result"

section \<open>The overlay\<close>

text \<open>\<open>held\<close> says whether the caller holds the turn.\<close>

definition overlays :: "bool \<Rightarrow> pending \<Rightarrow> bool" where
  "overlays held p \<longleftrightarrow> held \<and> \<not> quiet p"

definition pending_one :: "bool \<Rightarrow> pending \<Rightarrow> keyspace \<Rightarrow> key \<Rightarrow> kv_value option option" where
  "pending_one held p ks k = (if \<not> overlays held p then None else lookup p ks k)"

definition walkable :: "key_range \<Rightarrow> key_range option" where
  "walkable r =
    (if is_provably_empty r then None
     else (case (range_start r, range_end r) of
             (Excluded low, Excluded high) \<Rightarrow> if low = high then None else Some r
           | _ \<Rightarrow> Some r))"

definition pending_within ::
  "bool \<Rightarrow> pending \<Rightarrow> keyspace \<Rightarrow> key_range \<Rightarrow> (key, kv_value option) omap option kv_result" where
  "pending_within held p ks r =
    (if \<not> overlays held p then Inr None
     else (case walkable r of
             None \<Rightarrow> Inr None
           | Some bounds \<Rightarrow>
               bindR (within p ks bounds) (\<lambda>found.
                 Inr (if found = [] then None else Some found))))"

text \<open>The loop of the merge, with the room left in its answer.  A pending write at the
key of an engine pair replaces it; a pending delete takes no room.\<close>

fun merge_loop ::
  "nat \<Rightarrow> bool \<Rightarrow> pair list \<Rightarrow> (key \<times> kv_value option) list \<Rightarrow> pair list" where
  "merge_loop 0 forward engine pend = []"
| "merge_loop (Suc room) forward [] [] = []"
| "merge_loop (Suc room) forward (pair # engine) [] = pair # merge_loop room forward engine []"
| "merge_loop (Suc room) forward [] ((k, Some v) # pend) = (k, v) # merge_loop room forward [] pend"
| "merge_loop (Suc room) forward [] ((k, None) # pend) = merge_loop (Suc room) forward [] pend"
| "merge_loop (Suc room) forward ((key, w) # engine) ((k, v) # pend) =
    (if k = key \<or> (k < key) = forward then
       (let engine = (if k = key then engine else (key, w) # engine) in
        case v of
          Some v \<Rightarrow> (k, v) # merge_loop room forward engine pend
        | None \<Rightarrow> merge_loop (Suc room) forward engine pend)
     else (key, w) # merge_loop room forward engine ((k, v) # pend))"

definition merge :: "scan_request \<Rightarrow> pair list \<Rightarrow> (key, kv_value option) omap \<Rightarrow> pair list" where
  "merge q engine pend =
    (let limit = (case req_limit q of None \<Rightarrow> u64_max | Some n \<Rightarrow> n);
         forward = (req_direction q = Forward);
         pend = (if forward then pend else rev pend)
     in merge_loop limit forward engine pend)"

definition deletes :: "(key \<times> kv_value option) list \<Rightarrow> nat" where
  "deletes pend = length (filter (\<lambda>(_, v). v = None) pend)"

definition merged ::
  "backend_reads \<Rightarrow> scan_request \<Rightarrow> (key, kv_value option) omap \<Rightarrow> bool \<Rightarrow> pair list kv_result" where
  "merged E q pend sweep =
    (let widened = q\<lparr>req_limit :=
           map_option (\<lambda>limit. saturating_add limit (deletes pend)) (req_limit q)\<rparr>
     in bindR (if sweep then rd_sweep E widened else rd_scan E widened) (\<lambda>engine.
          Inr (merge q engine pend)))"

definition read_over ::
  "bool \<Rightarrow> pending \<Rightarrow> backend_reads \<Rightarrow> scan_request \<Rightarrow> bool \<Rightarrow> pair list kv_result" where
  "read_over held p E q sweep =
    bindR (pending_within held p (req_keyspace q) (req_range q)) (\<lambda>found.
      case found of
        Some pend \<Rightarrow> merged E q pend sweep
      | None \<Rightarrow> if sweep then rd_sweep E q else rd_scan E q)"

definition get_over ::
  "bool \<Rightarrow> pending \<Rightarrow> backend_reads \<Rightarrow> keyspace \<Rightarrow> key \<Rightarrow> kv_value option kv_result" where
  "get_over held p E ks k =
    (case pending_one held p ks k of Some pv \<Rightarrow> Inr pv | None \<Rightarrow> rd_get E ks k)"

definition contains_over ::
  "bool \<Rightarrow> pending \<Rightarrow> backend_reads \<Rightarrow> keyspace \<Rightarrow> key \<Rightarrow> bool kv_result" where
  "contains_over held p E ks k =
    (case pending_one held p ks k of Some pv \<Rightarrow> Inr (pv \<noteq> None) | None \<Rightarrow> rd_contains E ks k)"

text \<open>A read that makes several calls makes each at a moment of its own, and groups land
between them: \<open>P i\<close> is what is pending at the i-th moment and \<open>E i\<close> the engine as it
answers then.  Reading the flag and then the maps under the lock is one moment: only
the holder stages, so a landing in between can only empty what is read.\<close>

fun first_over_ranges ::
  "bool \<Rightarrow> (nat \<Rightarrow> pending) \<Rightarrow> (nat \<Rightarrow> backend_reads) \<Rightarrow> nat \<Rightarrow> keyspace \<Rightarrow> key_range list
    \<Rightarrow> pair option list kv_result" where
  "first_over_ranges held P E i ks [] = Inr []"
| "first_over_ranges held P E i ks (r # rs) =
    bindR (read_over held (P i) (E i)
        \<lparr>req_keyspace = ks, req_range = r, req_direction = Forward, req_limit = Some 1\<rparr> False) (\<lambda>ps.
    bindR (first_over_ranges held P E (Suc i) ks rs) (\<lambda>found.
      Inr ((case ps of [] \<Rightarrow> None | x # _ \<Rightarrow> Some x) # found)))"

definition first_of_each_over ::
  "bool \<Rightarrow> (nat \<Rightarrow> pending) \<Rightarrow> (nat \<Rightarrow> backend_reads) \<Rightarrow> keyspace \<Rightarrow> key_range list
    \<Rightarrow> pair option list kv_result" where
  "first_of_each_over held P E ks rs =
    (if \<not> overlays held (P 0) then rd_first_of_each (E 0) ks rs
     else first_over_ranges held P E 1 ks rs)"

fun count_pending ::
  "(nat \<Rightarrow> backend_reads) \<Rightarrow> nat \<Rightarrow> keyspace \<Rightarrow> nat \<Rightarrow> (key \<times> kv_value option) list \<Rightarrow> nat kv_result" where
  "count_pending E i ks counted [] = Inr counted"
| "count_pending E i ks counted ((k, v) # pend) =
    bindR (rd_contains (E i) ks k) (\<lambda>stored.
      count_pending E (Suc i) ks
        (if v \<noteq> None \<and> \<not> stored then saturating_add counted 1
         else if v = None \<and> stored then counted - 1
         else counted) pend)"

definition count_over ::
  "bool \<Rightarrow> (nat \<Rightarrow> pending) \<Rightarrow> (nat \<Rightarrow> backend_reads) \<Rightarrow> keyspace \<Rightarrow> key_range \<Rightarrow> nat kv_result" where
  "count_over held P E ks r =
    bindR (pending_within held (P 0) ks r) (\<lambda>pend.
    bindR (rd_count (E 0) ks r) (\<lambda>counted.
      count_pending E 1 ks counted (case pend of Some found \<Rightarrow> found | None \<Rightarrow> [])))"

definition overlaid :: "bool \<Rightarrow> (nat \<Rightarrow> pending) \<Rightarrow> (nat \<Rightarrow> backend_reads) \<Rightarrow> backend_reads" where
  "overlaid held P E =
    \<lparr>rd_get = get_over held (P 0) (E 0),
     rd_scan = (\<lambda>q. read_over held (P 0) (E 0) q False),
     rd_sweep = (\<lambda>q. read_over held (P 0) (E 0) q True),
     rd_first_of_each = first_of_each_over held P E,
     rd_count = count_over held P E,
     rd_contains = contains_over held (P 0) (E 0)\<rparr>"

section \<open>The merge\<close>

text \<open>The merge without a limit, and the order it walks in.\<close>

fun merge_all :: "bool \<Rightarrow> pair list \<Rightarrow> (key \<times> kv_value option) list \<Rightarrow> pair list" where
  "merge_all forward engine [] = engine"
| "merge_all forward [] ((k, v) # pend) =
    (case v of Some v \<Rightarrow> [(k, v)] | None \<Rightarrow> []) @ merge_all forward [] pend"
| "merge_all forward ((key, w) # engine) ((k, v) # pend) =
    (if k = key \<or> (k < key) = forward then
       (case v of Some v \<Rightarrow> [(k, v)] | None \<Rightarrow> [])
         @ merge_all forward (if k = key then engine else (key, w) # engine) pend
     else (key, w) # merge_all forward engine ((k, v) # pend))"

definition walks :: "bool \<Rightarrow> key \<Rightarrow> key \<Rightarrow> bool" where
  "walks forward a b \<longleftrightarrow> (if forward then a < b else b < a)"

lemma walks_trans: "walks f a b \<Longrightarrow> walks f b c \<Longrightarrow> walks f a c"
  by (auto simp: walks_def split: if_splits)

lemma walks_irrefl [simp]: "\<not> walks f a a"
  by (simp add: walks_def)

lemma walks_iff: "a \<noteq> b \<Longrightarrow> (a < b) = f \<longleftrightarrow> walks f a b"
  by (auto simp: walks_def)

lemma walks_not: "a \<noteq> b \<Longrightarrow> \<not> walks f a b \<longleftrightarrow> walks f b a"
  by (auto simp: walks_def)

lemma merge_all_Nil_engine: "merge_loop n forward engine [] = take n engine"
proof (induction n arbitrary: engine)
  case (Suc n)
  then show ?case by (cases engine) simp_all
qed simp

lemma merge_loop_take: "merge_loop n forward engine pend = take n (merge_all forward engine pend)"
proof (induction n forward engine pend rule: merge_loop.induct)
  case (6 room forward key w engine k v pend)
  then show ?case by (cases v) (auto simp: Let_def)
qed (auto simp: merge_all_Nil_engine)

text \<open>A merge cut at its limit needs of the engine at most as many pairs more as there
are deletes to hide one each.\<close>

lemma merge_all_take:
  "n + deletes pend \<le> N \<Longrightarrow>
    take n (merge_all forward (take N engine) pend) = take n (merge_all forward engine pend)"
proof (induction forward engine pend arbitrary: n N rule: merge_all.induct)
  case (1 forward engine)
  then show ?case by (simp add: min_def)
next
  case (3 forward key w engine k v pend)
  show ?case
  proof (cases "n = 0")
    case False
    show ?thesis
    proof (cases N)
      case (Suc M)
      then show ?thesis
        using False 3(1) [of "n - 1" N] 3(1) [of "n - 1" M] 3(1) [of n M] 3(1) [of n N] 3(2) [of "n - 1" M] 3(3)
        by (cases v; cases n) (auto simp: deletes_def)
    qed (use 3(3) False in simp)
  qed simp
qed simp

lemma merge_all_keys:
  "\<forall>x \<in> set engine. P (fst x) \<Longrightarrow> \<forall>x \<in> set pend. P (fst x)
    \<Longrightarrow> \<forall>x \<in> set (merge_all forward engine pend). P (fst x)"
proof (induction forward engine pend rule: merge_all.induct)
  case (3 forward key w engine k v pend)
  show ?case
  proof (cases "k = key \<or> (k < key) = forward")
    case True
    let ?left = "if k = key then engine else (key, w) # engine"
    have "\<forall>x \<in> set (merge_all forward ?left pend). P (fst x)"
      using 3(3,4) by (intro 3(1) [OF True]) auto
    then show ?thesis using True 3(4) by (auto split: option.split)
  next
    case False
    have "\<forall>x \<in> set (merge_all forward engine ((k, v) # pend)). P (fst x)"
      using 3(3,4) by (intro 3(2) [OF False]) auto
    then show ?thesis using False 3(3) by simp
  qed
qed (auto split: option.split)

lemma walks_left:
  assumes "k = key \<or> (k < key) = f" "sorted_wrt (walks f) (map fst ((key, w) # engine))"
  shows "\<forall>x \<in> set (if k = key then engine else (key, w) # engine). walks f k (fst x)"
proof (cases "k = key")
  case False
  then have "walks f k key" using assms(1) walks_iff by blast
  then show ?thesis using False assms(2) walks_trans [of f k key] by auto
qed (use assms in auto)

lemma walks_right:
  assumes "\<not> (k = key \<or> (k < key) = f)" "sorted_wrt (walks f) (map fst ((k, v) # pend))"
  shows "\<forall>x \<in> set ((k, v) # pend). walks f key (fst x)"
proof -
  have "walks f key k" using assms(1) walks_iff [of k key f] walks_not [of k key f] by blast
  then show ?thesis using assms(2) walks_trans [of f key k] by auto
qed

lemma sorted_merge_all:
  assumes "sorted_wrt (walks f) (map fst engine)" "sorted_wrt (walks f) (map fst pend)"
  shows "sorted_wrt (walks f) (map fst (merge_all f engine pend))"
  using assms
proof (induction f engine pend rule: merge_all.induct)
  case (2 forward k v pend)
  have "\<forall>x \<in> set (merge_all forward [] pend). walks forward k (fst x)"
    using 2(3) by (intro merge_all_keys) auto
  then show ?case using 2 by (simp split: option.split)
next
  case (3 forward key w engine k v pend)
  show ?case
  proof (cases "k = key \<or> (k < key) = forward")
    case True
    let ?left = "if k = key then engine else (key, w) # engine"
    have "\<forall>x \<in> set (merge_all forward ?left pend). walks forward k (fst x)"
      using walks_left [OF True 3(3)] 3(4) by (intro merge_all_keys) auto
    moreover have "sorted_wrt (walks forward) (map fst (merge_all forward ?left pend))"
      using 3 True by (intro 3(1)) auto
    ultimately show ?thesis using True by (cases "k = key"; cases v) simp_all
  next
    case False
    have "\<forall>x \<in> set (merge_all forward engine ((k, v) # pend)). walks forward key (fst x)"
      using walks_right [OF False 3(4)] 3(3) by (intro merge_all_keys) auto
    then show ?thesis using False 3 by simp
  qed
qed simp

lemma walks_absent: "\<forall>x \<in> set xs. walks f k (fst x) \<Longrightarrow> map_of xs k = None"
  by (fastforce simp: map_of_eq_None_iff)

lemma map_of_merge_all:
  assumes "sorted_wrt (walks f) (map fst engine)" "sorted_wrt (walks f) (map fst pend)"
  shows "map_of (merge_all f engine pend) x
    = (case map_of pend x of Some pv \<Rightarrow> pv | None \<Rightarrow> map_of engine x)"
  using assms
proof (induction f engine pend rule: merge_all.induct)
  case (2 forward k v pend)
  have "map_of pend k = None" using 2(3) by (intro walks_absent [of _ forward]) simp
  then show ?case using 2 by (cases "x = k"; cases v) simp_all
next
  case (3 forward key w engine k v pend)
  show ?case
  proof (cases "k = key \<or> (k < key) = forward")
    case True
    let ?left = "if k = key then engine else (key, w) # engine"
    have p: "map_of pend k = None" using 3(4) by (intro walks_absent [of _ forward]) simp
    have l: "map_of ?left k = None" using walks_left [OF True 3(3)] by (rule walks_absent)
    have "map_of (merge_all forward ?left pend) x
        = (case map_of pend x of Some pv \<Rightarrow> pv | None \<Rightarrow> map_of ?left x)"
      using 3 True by (intro 3(1)) auto
    then show ?thesis using True p l
      by (cases "x = k"; cases "k = key"; cases v) (simp_all split: option.split)
  next
    case False
    have "map_of ((k, v) # pend) key = None"
      using walks_right [OF False 3(4)] by (rule walks_absent)
    then show ?thesis using False 3
      by (cases "x = key"; cases "x = k") (simp_all split: option.split)
  qed
qed simp

section \<open>What a backend answers\<close>

text \<open>Every read but the count, and the count.\<close>

definition reads_pairs :: "backend_reads \<Rightarrow> store_map \<Rightarrow> bool" where
  "reads_pairs R m \<longleftrightarrow>
    (\<forall>ks. finite (dom (m ks)))
    \<and> (\<forall>ks k. rd_get R ks k = Inr (m ks k))
    \<and> (\<forall>q. range_ok (req_range q) \<longrightarrow> rd_scan R q = Inr (scan_answer m q))
    \<and> (\<forall>q. range_ok (req_range q) \<longrightarrow> rd_sweep R q = Inr (scan_answer m q))
    \<and> (\<forall>ks rs. list_all range_ok rs \<longrightarrow> rd_first_of_each R ks rs
          = Inr (map (\<lambda>r. case pairs_in (m ks) r of [] \<Rightarrow> None | x # _ \<Rightarrow> Some x) rs))
    \<and> (\<forall>ks k. rd_contains R ks k = Inr (m ks k \<noteq> None))"

definition counts_pairs :: "backend_reads \<Rightarrow> store_map \<Rightarrow> bool" where
  "counts_pairs R m \<longleftrightarrow>
    (\<forall>ks r. range_ok r \<longrightarrow> rd_count R ks r = Inr (min (card (keys_in (m ks) r)) u64_max))"

definition reads_as :: "backend_reads \<Rightarrow> store_map \<Rightarrow> bool" where
  "reads_as R m \<longleftrightarrow> reads_pairs R m \<and> counts_pairs R m"

lemma reads_pairsD:
  assumes "reads_pairs R m"
  shows "rd_get R ks k = Inr (m ks k)"
    "range_ok (req_range q) \<Longrightarrow> rd_scan R q = Inr (scan_answer m q)"
  using assms by (simp_all add: reads_pairs_def)

lemma reads_asD:
  assumes "reads_as R m"
  shows "finite (dom (m ks))" "rd_get R ks k = Inr (m ks k)"
    "range_ok (req_range q) \<Longrightarrow> rd_scan R q = Inr (scan_answer m q)"
    "range_ok (req_range q) \<Longrightarrow> rd_sweep R q = Inr (scan_answer m q)"
    "list_all range_ok rs \<Longrightarrow> rd_first_of_each R ks rs
       = Inr (map (\<lambda>r. case pairs_in (m ks) r of [] \<Rightarrow> None | x # _ \<Rightarrow> Some x) rs)"
    "range_ok r \<Longrightarrow> rd_count R ks r = Inr (min (card (keys_in (m ks) r)) u64_max)"
    "rd_contains R ks k = Inr (m ks k \<noteq> None)"
  using assms by (simp_all add: reads_as_def reads_pairs_def counts_pairs_def)

definition memory_reads :: "memory_backend \<Rightarrow> backend_reads" where
  "memory_reads s =
    \<lparr>rd_get = memory_get s, rd_scan = memory_scan s, rd_sweep = memory_scan s,
     rd_first_of_each = memory_first_of_each s, rd_count = memory_count s,
     rd_contains = default_contains (memory_get s)\<rparr>"

text \<open>The view of the holder: staged writes over the writes in flight over the engine.\<close>

definition view_of :: "pending \<Rightarrow> store_map \<Rightarrow> store_map" where
  "view_of p m = view_over (staged_ops p) (view_over (in_flight p) m)"

text \<open>The pending maps are ordered, and the flag read without the lock is set whenever
they hold something.\<close>

definition pending_ok :: "pending \<Rightarrow> bool" where
  "pending_ok p \<longleftrightarrow> ops_ok (staged_ops p) \<and> ops_ok (in_flight p) \<and> (quiet p \<longrightarrow> pending_is_empty p)"

text \<open>Every key of the store and every pending one can be counted in a machine word.\<close>

definition countable_in_a_word :: "pending \<Rightarrow> store_map \<Rightarrow> bool" where
  "countable_in_a_word p m \<longleftrightarrow>
    (\<forall>ks. card (dom (m ks)) + length (in_flight p ks) + length (staged_ops p ks) \<le> u64_max)"

lemma view_quiet: "pending_ok p \<Longrightarrow> quiet p \<Longrightarrow> view_of p m = m"
  by (simp add: pending_ok_def pending_is_empty_def ops_empty_iff view_of_def)

lemma view_lookup: "view_of p m ks k = (case lookup p ks k of Some pv \<Rightarrow> pv | None \<Rightarrow> m ks k)"
  by (simp add: view_of_def view_over_def lookup_def split: option.split)

subsection \<open>The pending writes of a range\<close>

lemma insert_all_simps [simp]:
  "insert_all f [] = f" "insert_all f ((k, v) # es) = insert_all (omap_insert k v f) es"
  by (simp_all add: insert_all_def)

lemma insert_all_map:
  assumes "omap_ok f" "distinct (map fst es)"
  shows "omap_ok (insert_all f es) \<and> map_of (insert_all f es) = map_of f ++ map_of es"
  using assms
proof (induction es arbitrary: f)
  case (Cons e es)
  obtain k v where e: "e = (k, v)" by (cases e)
  have n: "map_of es k = None" using Cons.prems(2) e by (simp add: map_of_eq_None_iff)
  have "map_of (omap_insert k v f) ++ map_of es = map_of f ++ map_of ((k, v) # es)"
    using Cons.prems(1) n by (auto simp: fun_eq_iff map_add_def split: option.splits)
  then show ?case
    using Cons.IH [of "omap_insert k v f"] Cons.prems unfolding e
    by (simp only: insert_all_simps omap_ok_insert list.map distinct.simps simp_thms)
qed simp

lemma in_bounds_ok: "omap_ok m \<Longrightarrow> omap_ok (in_bounds r m)"
  unfolding omap_ok_def in_bounds_def by (induction m) auto

lemma map_of_in_bounds: "map_of (in_bounds r m) k = (if in_range r k then map_of m k else None)"
  unfolding in_bounds_def by (induction m) auto

lemma walkable_Some:
  "walkable r = Some b \<Longrightarrow> b = r \<and> range_ok r \<and> \<not> is_provably_empty r
    \<and> \<not> range_panics (range_start r) (range_end r)"
  by (cases "range_start r"; cases "range_end r")
    (auto simp: walkable_def range_ok_def is_provably_empty_def split: if_splits)

lemma walkable_None: "walkable r = None \<Longrightarrow> range_ok r \<Longrightarrow> is_provably_empty r"
  by (cases "range_start r"; cases "range_end r")
    (auto simp: walkable_def range_ok_def split: if_splits)

lemma within_map:
  assumes "pending_ok p" "walkable r = Some b"
  shows "\<exists>W. within p ks b = Inr W \<and> omap_ok W
    \<and> (\<forall>k. map_of W k = (if in_range r k then lookup p ks k else None))
    \<and> length W \<le> length (in_flight p ks) + length (staged_ops p ks)"
proof -
  let ?F = "in_bounds r (in_flight p ks)" and ?S = "in_bounds r (staged_ops p ks)"
  let ?W = "insert_all (insert_all [] ?F) ?S"
  have ok: "omap_ok ?F" "omap_ok ?S" using assms(1) by (auto simp: pending_ok_def ops_ok_def in_bounds_ok)
  note f = insert_all_map [OF omap_ok_Nil ok(1) [THEN omap_ok_distinct]]
  note g = insert_all_map [OF f [THEN conjunct1] ok(2) [THEN omap_ok_distinct]]
  have len: "length (insert_all f es) \<le> length f + length es" for f es
  proof (induction es arbitrary: f)
    case (Cons e es)
    have "length (omap_insert k v f) \<le> Suc (length f)" for k v
      by (induction k v f rule: omap_insert.induct) auto
    from this [of "fst e" "snd e"] Cons.IH [of "omap_insert (fst e) (snd e) f"]
    have "length (insert_all (omap_insert (fst e) (snd e) f) es) \<le> length f + length (e # es)"
      by simp
    then show ?case by (cases e) simp
  qed simp
  have "length ?F \<le> length (in_flight p ks)" "length ?S \<le> length (staged_ops p ks)"
    by (simp_all add: in_bounds_def)
  then have "length ?W \<le> length (in_flight p ks) + length (staged_ops p ks)"
    using len [of "[]" ?F] len [of "insert_all [] ?F" ?S] by simp
  moreover have "map_of ?W k = (if in_range r k then lookup p ks k else None)" for k
    using f g by (auto simp: map_add_def map_of_in_bounds lookup_def split: option.split)
  ultimately show ?thesis
    using g walkable_Some [OF assms(2)] by (simp add: within_def)
qed

section \<open>The overlay keeps the contract\<close>

text \<open>A list of pairs in the order of a walk is what its map holds in a range that
covers it.\<close>

definition along :: "bool \<Rightarrow> 'a list \<Rightarrow> 'a list" where
  "along forward xs = (if forward then xs else rev xs)"

lemma sorted_walk: "sorted_wrt (<) (map fst xs) \<Longrightarrow> sorted_wrt (walks f) (map fst (along f xs))"
proof -
  have "walks True = (<)" "walks False = (\<lambda>a b. b < a)" by (auto simp: walks_def fun_eq_iff)
  moreover assume "sorted_wrt (<) (map fst xs)"
  ultimately show ?thesis
    by (cases f) (simp_all add: along_def rev_map [symmetric] sorted_wrt_rev)
qed

lemma map_of_walk: "distinct (map fst xs) \<Longrightarrow> map_of (along f xs) = map_of xs"
proof -
  assume d: "distinct (map fst xs)"
  then have "map_of (rev xs) = map_of xs"
    by (intro map_of_inject_set [THEN iffD2]) (simp_all add: rev_map [symmetric])
  then show ?thesis by (simp add: along_def)
qed

lemma walk_pairs_in:
  assumes srt: "sorted_wrt (walks f) (map fst xs)" and rng: "\<forall>x \<in> set xs. in_range r (fst x)"
    and m: "\<And>k. in_range r k \<Longrightarrow> map_of xs k = m k"
  shows "xs = along f (pairs_in m r)"
proof -
  let ?ys = "along f xs"
  have w: "walks True = (<)" "walks False = (\<lambda>a b. b < a)" by (auto simp: walks_def fun_eq_iff)
  have ok: "tree_ok ?ys"
    using srt by (cases f) (simp_all add: w tree_ok_def along_def rev_map [symmetric] sorted_wrt_rev)
  have d: "distinct (map fst xs)"
    using tree_ok_distinct [OF ok] by (cases f) (simp_all add: along_def rev_map [symmetric])
  then have "map_of ?ys = map_of xs"
    by (rule map_of_walk)
  moreover have "filter (\<lambda>(k, _). in_range r k) ?ys = ?ys"
    using rng by (auto simp: filter_id_conv along_def)
  ultimately have "?ys = pairs_in m r"
    using filter_tree_pairs_in [OF ok, of r] pairs_in_cong [of r "map_of xs" m, OF m] by simp
  then show ?thesis by (cases f) (simp_all add: along_def, metis rev_rev_ident)
qed

lemma scan_answer_walk:
  "scan_answer m q = (let ps = along (req_direction q = Forward) (pairs_in (m (req_keyspace q)) (req_range q))
    in case req_limit q of None \<Rightarrow> ps | Some n \<Rightarrow> take n ps)"
  by (cases "req_direction q") (simp_all add: scan_answer_def along_def)

lemma map_of_pairs_in: "finite (dom m) \<Longrightarrow> map_of (pairs_in m r) k = (if in_range r k then m k else None)"
proof -
  assume f: "finite (dom m)"
  have d: "distinct (map fst (pairs_in m r))" by (simp add: map_fst_pairs_in)
  show ?thesis
  proof (cases "in_range r k \<and> m k \<noteq> None")
    case True
    then obtain v where "m k = Some v" by blast
    then have "(k, v) \<in> set (pairs_in m r)" using True set_pairs_in [OF f] by simp
    then show ?thesis using d True \<open>m k = Some v\<close> by simp
  next
    case False
    then have "k \<notin> fst ` set (pairs_in m r)" using set_pairs_in [OF f] by auto
    then show ?thesis using False by (auto simp: map_of_eq_None_iff)
  qed
qed

text \<open>The pending writes of a range merged over the engine's pairs of it are the pairs
of the view.\<close>

lemma merge_all_view:
  assumes fin: "finite (dom (m ks))" and W: "omap_ok W"
    "\<And>k. map_of W k = (if in_range r k then lookup p ks k else None)"
  shows "merge_all f (along f (pairs_in (m ks) r)) (along f W) = along f (pairs_in (view_of p m ks) r)"
proof (rule walk_pairs_in)
  let ?E = "along f (pairs_in (m ks) r)"
  have sE: "sorted_wrt (walks f) (map fst ?E)" by (intro sorted_walk) (simp add: map_fst_pairs_in)
  have sW: "sorted_wrt (walks f) (map fst (along f W))" using W(1) by (intro sorted_walk) (simp add: omap_ok_def)
  show "sorted_wrt (walks f) (map fst (merge_all f ?E (along f W)))" using sE sW by (rule sorted_merge_all)
  have "in_range r k" if "k \<in> fst ` set W" for k
    using W(2) [of k] that by (metis map_of_eq_None_iff)
  then show "\<forall>x \<in> set (merge_all f ?E (along f W)). in_range r (fst x)"
    using set_pairs_in [OF fin, of r] by (intro merge_all_keys) (auto simp: along_def)
  fix k assume "in_range r k"
  have d: "distinct (map fst (pairs_in (m ks) r))" by (simp add: map_fst_pairs_in)
  show "map_of (merge_all f ?E (along f W)) k = view_of p m ks k"
    unfolding map_of_merge_all [OF sE sW] map_of_walk [OF d] map_of_walk [OF omap_ok_distinct [OF W(1)]]
      W(2) map_of_pairs_in [OF fin] view_lookup
    using \<open>in_range r k\<close> by simp
qed

lemma finite_view: "finite (dom (m ks)) \<Longrightarrow> finite (dom (view_of p m ks))"
proof -
  assume "finite (dom (m ks))"
  moreover have "dom (view_of p m ks)
      \<subseteq> dom (m ks) \<union> dom (map_of (in_flight p ks)) \<union> dom (map_of (staged_ops p ks))"
    by (auto simp: view_of_def view_over_def split: option.splits)
  ultimately show ?thesis by (meson finite_UnI finite_dom_map_of finite_subset)
qed

lemma deletes_walk: "deletes (along f W) = deletes W"
  by (simp add: deletes_def along_def rev_filter [symmetric])

lemma length_walk [simp]: "length (along f xs) = length xs"
  by (simp add: along_def)

lemma merged_view:
  assumes R: "reads_as E m" and W: "omap_ok W"
    "\<And>k. map_of W k = (if in_range (req_range q) k then lookup p (req_keyspace q) k else None)"
    and rng: "range_ok (req_range q)"
    and room: "card (dom (m (req_keyspace q))) + length W \<le> u64_max"
  shows "merged E q W sweep = Inr (scan_answer (view_of p m) q)"
proof -
  let ?ks = "req_keyspace q" and ?r = "req_range q"
  let ?f = "req_direction q = Forward"
  let ?E = "along ?f (pairs_in (m ?ks) ?r)" and ?V = "along ?f (pairs_in (view_of p m ?ks) ?r)"
  let ?q = "q\<lparr>req_limit := map_option (\<lambda>limit. saturating_add limit (deletes W)) (req_limit q)\<rparr>"
  have fin: "finite (dom (m ?ks))" using R by (rule reads_asD)
  have all: "merge_all ?f ?E (along ?f W) = ?V" using fin W by (rule merge_all_view)
  have answer: "(if sweep then rd_sweep E ?q else rd_scan E ?q) = Inr (scan_answer m ?q)"
    using reads_asD(3,4) [OF R, of ?q] rng by simp
  have lenE: "length ?E \<le> u64_max"
    using card_mono [OF fin, of "keys_in (m ?ks) ?r"] room
    by (simp add: length_pairs_in) (auto simp: keys_in_def)
  have "length (merge_all f E' P) \<le> length E' + length P" for f E' P
    by (induction f E' P rule: merge_all.induct) (auto split: option.splits)
  from this [of ?f ?E "along ?f W"] have lenV: "length ?V \<le> u64_max"
    using all card_mono [OF fin, of "keys_in (m ?ks) ?r"] room
    by (simp add: length_pairs_in) (auto simp: keys_in_def intro: order_trans)
  have "merge q (scan_answer m ?q) W = scan_answer (view_of p m) q"
  proof (cases "req_limit q")
    case None
    then show ?thesis
      using all lenV
      by (simp add: merge_def scan_answer_walk merge_loop_take Let_def along_def [symmetric])
  next
    case (Some n)
    have "take n (merge_all ?f (take (saturating_add n (deletes W)) ?E) (along ?f W)) = take n ?V"
    proof (cases "n + deletes W \<le> u64_max")
      case True
      then show ?thesis
        using merge_all_take [of n "along ?f W" "n + deletes W" ?f ?E] all
        by (simp add: saturating_add_def deletes_walk)
    next
      case False
      then show ?thesis using all lenE by (simp add: saturating_add_def)
    qed
    then show ?thesis
      using Some by (simp add: merge_def scan_answer_walk merge_loop_take Let_def along_def [symmetric])
  qed
  then show ?thesis using answer by (simp add: merged_def)
qed

lemma count_pending_keys:
  assumes "\<And>i k. rd_contains (E i) ks k = Inr (m ks k \<noteq> None)" "finite A" "distinct (map fst W)"
    "\<forall>x \<in> set W. fst x \<in> A \<longleftrightarrow> m ks (fst x) \<noteq> None" "card A + length W \<le> u64_max"
  shows "count_pending E i ks (card A) W = Inr (card {k. case map_of W k of Some pv \<Rightarrow> pv \<noteq> None | None \<Rightarrow> k \<in> A})"
  using assms(2-)
proof (induction W arbitrary: A i)
  case (Cons x W)
  obtain k v where x: "x = (k, v)" by (cases x)
  define B where "B = (if v = None then A - {k} else insert k A)"
  have fin: "finite B" using Cons.prems(1) by (simp add: B_def)
  have kW: "k \<notin> fst ` set W" using Cons.prems(2) x by simp
  have stored: "k \<in> A \<longleftrightarrow> m ks k \<noteq> None" using Cons.prems(3) x by simp
  have cB: "card B = (if v \<noteq> None \<and> \<not> m ks k \<noteq> None then saturating_add (card A) 1
      else if v = None \<and> m ks k \<noteq> None then card A - 1 else card A)"
    using stored Cons.prems(1,4) by (auto simp: B_def saturating_add_def insert_absorb)
  have "card B \<le> Suc (card A)"
    using Cons.prems(1) by (auto simp: B_def card_insert_if intro: le_SucI card_mono)
  then have "card B + length W \<le> u64_max" using Cons.prems(4) by simp
  moreover have "\<forall>y \<in> set W. fst y \<in> B \<longleftrightarrow> m ks (fst y) \<noteq> None"
    using Cons.prems(3) kW by (auto simp: B_def image_iff)
  moreover have "distinct (map fst W)" using Cons.prems(2) x by simp
  ultimately have "count_pending E (Suc i) ks (card B) W
      = Inr (card {k. case map_of W k of Some pv \<Rightarrow> pv \<noteq> None | None \<Rightarrow> k \<in> B})"
    using Cons.IH fin by blast
  moreover have "{j. case map_of W j of Some pv \<Rightarrow> pv \<noteq> None | None \<Rightarrow> j \<in> B}
      = {j. case map_of (x # W) j of Some pv \<Rightarrow> pv \<noteq> None | None \<Rightarrow> j \<in> A}"
    using kW by (auto simp: x B_def map_of_eq_None_iff [symmetric] split: option.splits if_splits)
  ultimately have "count_pending E (Suc i) ks (card B) W
      = Inr (card {j. case map_of (x # W) j of Some pv \<Rightarrow> pv \<noteq> None | None \<Rightarrow> j \<in> A})"
    by simp
  moreover have "count_pending E i ks (card A) (x # W) = count_pending E (Suc i) ks (card B) W"
    unfolding cB by (simp add: x assms(1))
  ultimately show ?case by simp
qed simp

lemma pending_within_cases:
  assumes "pending_ok p" "range_ok r"
  obtains (none) "pending_within held p ks r = Inr None"
      "held \<Longrightarrow> \<forall>k. in_range r k \<longrightarrow> lookup p ks k = None"
  | (some) W where "held" "pending_within held p ks r = Inr (Some W)" "omap_ok W"
      "\<And>k. map_of W k = (if in_range r k then lookup p ks k else None)"
      "length W \<le> length (in_flight p ks) + length (staged_ops p ks)"
proof (cases "overlays held p")
  case False
  then show ?thesis
    using assms(1) by (intro none)
      (auto simp: pending_within_def overlays_def pending_ok_def pending_is_empty_def ops_empty_iff
        lookup_def no_ops_def)
next
  case True
  show ?thesis
  proof (cases "walkable r")
    case None
    then have "is_provably_empty r" using assms(2) by (rule walkable_None)
    then show ?thesis using True None
      by (intro none) (auto simp: pending_within_def provably_empty_holds_nothing)
  next
    case (Some b)
    obtain W where W: "within p ks b = Inr W" "omap_ok W"
      "\<And>k. map_of W k = (if in_range r k then lookup p ks k else None)"
      "length W \<le> length (in_flight p ks) + length (staged_ops p ks)"
      using within_map [OF assms(1) Some, of ks] by blast
    show ?thesis
    proof (cases "W = []")
      case True
      then have "in_range r k \<Longrightarrow> lookup p ks k = None" for k using W(3) [of k] by simp
      then show ?thesis using True Some W \<open>overlays held p\<close>
        by (intro none) (simp_all add: pending_within_def)
    next
      case False
      then show ?thesis
        using True Some W by (intro some [of W]) (simp_all add: pending_within_def overlays_def)
    qed
  qed
qed

lemma view_untouched:
  "\<forall>k. in_range r k \<longrightarrow> lookup p ks k = None \<Longrightarrow> pairs_in (view_of p m ks) r = pairs_in (m ks) r"
  "\<forall>k. in_range r k \<longrightarrow> lookup p ks k = None \<Longrightarrow> keys_in (view_of p m ks) r = keys_in (m ks) r"
  by (auto intro!: pairs_in_cong simp: view_lookup keys_in_def)

text \<open>The view a reader gets: the engine's for one who does not hold the turn.\<close>

definition seen_by :: "bool \<Rightarrow> pending \<Rightarrow> store_map \<Rightarrow> store_map" where
  "seen_by held p m = (if held then view_of p m else m)"

lemma read_over_view:
  assumes "reads_as E m" "pending_ok p" "countable_in_a_word p m" "range_ok (req_range q)"
  shows "read_over held p E q sweep = Inr (scan_answer (seen_by held p m) q)"
  using assms(2,4)
proof (cases rule: pending_within_cases [where held = held and ks = "req_keyspace q"])
  case none
  then show ?thesis
    using reads_asD(3,4) [OF assms(1) assms(4)] view_untouched(1) [OF none(2)]
    by (auto simp: read_over_def scan_answer_walk seen_by_def)
next
  case (some W)
  have "card (dom (m (req_keyspace q))) + length W \<le> u64_max"
    using assms(3) some(5) by (auto simp: countable_in_a_word_def dest!: spec [of _ "req_keyspace q"])
  then show ?thesis
    using merged_view [OF assms(1) some(3) some(4) assms(4)] some(1,2)
    by (simp add: read_over_def seen_by_def)
qed

lemma count_over_view:
  assumes "\<And>i. reads_as (E i) (M i)" "pending_ok (P 0)" "countable_in_a_word (P 0) (M 0)" "range_ok r"
    and same: "\<And>i k. held \<Longrightarrow> (M i ks k = None) = (M 0 ks k = None)"
  shows "count_over held P E ks r = Inr (min (card (keys_in (seen_by held (P 0) (M 0) ks) r)) u64_max)"
  using assms(2,4)
proof (cases rule: pending_within_cases [where held = held and ks = ks])
  case none
  then show ?thesis
    using reads_asD(6) [OF assms(1) [of 0] assms(4), of ks] view_untouched(2) [OF none(2)]
    by (auto simp: count_over_def seen_by_def)
next
  case (some W)
  let ?m = "M 0" and ?p = "P 0"
  let ?A = "keys_in (?m ks) r"
  have fin: "finite (dom (?m ks))" using assms(1) by (rule reads_asD)
  have cA: "card ?A \<le> card (dom (?m ks))" using fin by (intro card_mono) (auto simp: keys_in_def)
  have room: "card ?A + length W \<le> u64_max"
    using assms(3) some(5) cA by (auto simp: countable_in_a_word_def dest!: spec [of _ ks])
  have rW: "in_range r (fst x)" if "x \<in> set W" for x
    using some(4) [of "fst x"] that by (metis image_eqI map_of_eq_None_iff)
  have "count_pending E 1 ks (card ?A) W
      = Inr (card {k. case map_of W k of Some pv \<Rightarrow> pv \<noteq> None | None \<Rightarrow> k \<in> ?A})"
  proof (rule count_pending_keys)
    show "\<forall>x \<in> set W. fst x \<in> ?A \<longleftrightarrow> ?m ks (fst x) \<noteq> None" using rW by (auto simp: keys_in_def)
    show "rd_contains (E i) ks k = Inr (?m ks k \<noteq> None)" for i k
      using reads_asD(7) [OF assms(1) [of i], of ks k] same [OF some(1), of i k] by simp
  qed (use fin omap_ok_distinct [OF some(3)] room in simp_all)
  moreover have "{k. case map_of W k of Some pv \<Rightarrow> pv \<noteq> None | None \<Rightarrow> k \<in> ?A} = keys_in (view_of ?p ?m ks) r"
    by (auto simp: some(4) keys_in_def view_lookup domIff split: option.splits if_splits)
  moreover have "length (pairs_in (view_of ?p ?m ks) r) \<le> length (pairs_in (?m ks) r) + length W"
  proof -
    have "length (merge_all f E' Q) \<le> length E' + length Q" for f E' Q
      by (induction f E' Q rule: merge_all.induct) (auto split: option.splits)
    from this [of True "along True (pairs_in (?m ks) r)" "along True W"] show ?thesis
      unfolding merge_all_view [of ?m ks W r ?p True, OF fin some(3) some(4)] by simp
  qed
  ultimately show ?thesis
    using some(1,2) room reads_asD(6) [OF assms(1) [of 0] assms(4), of ks]
    by (simp add: count_over_def seen_by_def length_pairs_in)
qed

lemma first_of_each_over_view:
  assumes "\<And>i. reads_as (E i) (M i)" "\<And>i. pending_ok (P i)" "\<And>i. countable_in_a_word (P i) (M i)"
    "list_all range_ok rs"
    and same: "\<And>i. held \<Longrightarrow> seen_by held (P i) (M i) = seen_by held (P 0) (M 0)"
  shows "first_of_each_over held P E ks rs
    = Inr (map (\<lambda>r. case pairs_in (seen_by held (P 0) (M 0) ks) r of [] \<Rightarrow> None | x # _ \<Rightarrow> Some x) rs)"
proof (cases "overlays held (P 0)")
  case False
  then have "seen_by held (P 0) (M 0) = M 0"
    using view_quiet [OF assms(2) [of 0], of "M 0"] by (auto simp: overlays_def seen_by_def)
  then show ?thesis using False reads_asD(5) [OF assms(1) [of 0] assms(4)] by (simp add: first_of_each_over_def)
next
  case True
  let ?V = "seen_by held (P 0) (M 0)"
  have sm: "seen_by held (P i) (M i) = ?V" for i using same True by (simp add: overlays_def)
  have "first_over_ranges held P E i ks rs
    = Inr (map (\<lambda>r. case pairs_in (?V ks) r of [] \<Rightarrow> None | x # _ \<Rightarrow> Some x) rs)" for i
    using assms(4)
  proof (induction rs arbitrary: i)
    case (Cons r rs)
    have "read_over held (P i) (E i) \<lparr>req_keyspace = ks, req_range = r, req_direction = Forward, req_limit = Some 1\<rparr> False
        = Inr (take 1 (pairs_in (?V ks) r))"
      using read_over_view [OF assms(1-3) [of i], where held = held and sweep = False
          and q = "\<lparr>req_keyspace = ks, req_range = r, req_direction = Forward, req_limit = Some 1\<rparr>"] Cons.prems
      by (simp add: scan_answer_def sm [of i])
    then show ?case using Cons by (cases "pairs_in (?V ks) r") simp_all
  qed simp
  then show ?thesis using True by (simp add: first_of_each_over_def)
qed

lemma pending_one_view:
  assumes "pending_ok p"
  shows "(case pending_one held p ks k of Some pv \<Rightarrow> pv | None \<Rightarrow> m ks k) = seen_by held p m ks k"
  using view_quiet [OF assms, of m] view_lookup [of p m ks k]
  by (auto simp: pending_one_def overlays_def seen_by_def split: option.splits)

lemma overlaid_reads_pairs:
  assumes "\<And>i. reads_as (E i) (M i)" "\<And>i. pending_ok (P i)" "\<And>i. countable_in_a_word (P i) (M i)"
    "\<And>i. held \<Longrightarrow> seen_by held (P i) (M i) = seen_by held (P 0) (M 0)"
  shows "reads_pairs (overlaid held P E) (seen_by held (P 0) (M 0))"
proof -
  have "get_over held (P 0) (E 0) ks k = Inr (seen_by held (P 0) (M 0) ks k)"
    "contains_over held (P 0) (E 0) ks k = Inr (seen_by held (P 0) (M 0) ks k \<noteq> None)" for ks k
    using pending_one_view [OF assms(2) [of 0], where held = held and ks = ks and k = k and m = "M 0"]
      reads_asD(2,7) [OF assms(1) [of 0], of ks k]
    by (auto simp: get_over_def contains_over_def split: option.splits)
  moreover have "finite (dom (seen_by held (P 0) (M 0) ks))" for ks
    using finite_view reads_asD(1) [OF assms(1) [of 0]] by (simp add: seen_by_def)
  moreover have "first_of_each_over held P E ks rs = Inr (map (\<lambda>r.
      case pairs_in (seen_by held (P 0) (M 0) ks) r of [] \<Rightarrow> None | x # _ \<Rightarrow> Some x) rs)"
    if "list_all range_ok rs" for ks rs
    by (rule first_of_each_over_view [of E M P, OF assms(1-3) that assms(4)])
  ultimately show ?thesis
    using read_over_view [OF assms(1-3) [of 0]] by (simp add: reads_pairs_def overlaid_def)
qed

lemma memory_reads_map:
  assumes "memory_ok s"
  shows "reads_as (memory_reads s) (memory_maps s)"
proof -
  have "memory_first_of_each s ks rs
      = Inr (map (\<lambda>r. case pairs_in (memory_maps s ks) r of [] \<Rightarrow> None | x # _ \<Rightarrow> Some x) rs)"
    if "list_all range_ok rs" for ks rs
    using that memory.first_of_each_agrees [OF assms, of rs] memory_first_of_each_eq [OF assms, of rs]
    by (simp add: list_all_iff)
  then show ?thesis
    using assms memory.contains_agrees [OF assms]
    by (simp add: reads_as_def reads_pairs_def counts_pairs_def memory_reads_def memory.finite_maps memory_get_map memory_scan_answer
        memory_count_eq domIff)
qed

text \<open>A view is the same whether or not writes in flight have reached the engine.\<close>

lemma view_of_landing:
  assumes "\<And>ks k. m' ks k = m ks k \<or> k \<in> fst ` set (in_flight p ks)"
  shows "view_of p m' = view_of p m"
proof -
  have "view_over (in_flight p) m' = view_over (in_flight p) m"
    using assms by (intro view_hides) (auto simp: dom_map_of_conv_image_fst)
  then show ?thesis by (simp add: view_of_def)
qed

text \<open>In the example a put of one key is in flight, and reaches a memory that was empty.\<close>

definition example_pending :: pending where
  "example_pending = pending_new\<lparr>any_pending := True, flushing := True,
     in_flight := no_ops(DATA := [([1], Some [2])])\<rparr>"

definition example_memory :: memory_backend where
  "example_memory = fst (memory_apply memory_new (batch_put DATA [1] [2] batch_new))"

lemma example_pending_fields:
  "in_flight example_pending = no_ops(DATA := [([1], Some [2])])" "staged_ops example_pending = no_ops"
  "pending_ok example_pending" "pending_ok pending_new"
  by (simp_all add: example_pending_def pending_new_def pending_ok_def quiet_def pending_is_empty_def
      ops_empty_iff ops_ok_no_ops)
    (simp add: ops_ok_def no_ops_def)

lemma example_memory_fields:
  "memory_ok example_memory" "memory_maps example_memory = (\<lambda>_. Map.empty)(DATA := [[1] \<mapsto> [2]])"
  using memory_apply_cases [OF memory_ok_new, of "batch_put DATA [1] [2] batch_new"]
  by (auto simp: example_memory_def batch_put_def batch_new_def fun_eq_iff memory_maps_new)

text \<open>A landing leaves the view as it was: what was in flight is in the engine then.\<close>

lemma example_view: "view_of example_pending (memory_maps memory_new) = memory_maps example_memory"
  "view_of pending_new m = m"
  by (auto simp: view_of_def view_over_def example_pending_fields(1,2) no_ops_def memory_maps_new
      example_memory_fields(2) pending_new_def fun_eq_iff)

text \<open>C4: the holder of the turn reads the store as every pending write leaves it.  Each call
of a read copies what is pending at its own moment, when the holder's view is \<open>V\<close>, and
asks the engine after that, when any part of the group then in flight has reached it.
A get, a lookup of a key, a scan and a sweep in either direction and under any limit,
and the first pairs of several ranges read one after another all answer as a backend
that holds \<open>V\<close> would.  So does the count, when no landing changes which keys the engine
holds while it is made.  A reader that does not hold the turn reads the engine
alone.\<close>

theorem overlay_reads_exact:
  assumes "\<And>i. reads_as (E i) (M i)" "\<And>i. pending_ok (P i)" "\<And>i. countable_in_a_word (P i) (M i)"
    "\<And>i. view_of (P i) (B i) = V"
    "\<And>i ks k. M i ks k = B i ks k \<or> k \<in> fst ` set (in_flight (P i) ks)"
  shows "reads_pairs (overlaid True P E) V
    \<and> ((\<forall>i ks k. (M i ks k = None) = (M 0 ks k = None)) \<longrightarrow> counts_pairs (overlaid True P E) V)
    \<and> reads_as (overlaid False P E) (M 0)"
proof -
  have V: "view_of (P i) (M i) = V" for i
    using view_of_landing [of "M i" "B i" "P i", OF assms(5)] assms(4) by simp
  have "reads_pairs (overlaid True P E) V" "reads_pairs (overlaid False P E) (M 0)"
    using overlaid_reads_pairs [of E M P, OF assms(1-3), of True] overlaid_reads_pairs [of E M P, OF assms(1-3), of False] V
    by (simp_all add: seen_by_def)
  moreover have "counts_pairs (overlaid True P E) V" if "\<forall>i ks k. (M i ks k = None) = (M 0 ks k = None)"
    using count_over_view [of E M P _ True, OF assms(1) assms(2,3) [of 0]] that V
    by (simp add: counts_pairs_def overlaid_def seen_by_def)
  moreover have "counts_pairs (overlaid False P E) (M 0)"
    using count_over_view [of E M P _ False, OF assms(1) assms(2,3) [of 0]]
    by (simp add: counts_pairs_def overlaid_def seen_by_def)
  ultimately show ?thesis by (simp add: reads_as_def)
qed

theorem overlay_reads_exact_witness:
  "rd_scan (overlaid True ((\<lambda>_. pending_new)(0 := example_pending)) (\<lambda>_. memory_reads example_memory))
      (scan_new DATA key_range_all)
      = Inr (scan_answer (view_of example_pending (memory_maps memory_new)) (scan_new DATA key_range_all))
    \<and> view_of example_pending (memory_maps memory_new) DATA [1] = Some [2]"
proof -
  let ?P = "(\<lambda>_. pending_new)(0 := example_pending)" and ?E = "\<lambda>_ :: nat. memory_reads example_memory"
  let ?B = "(\<lambda>_. memory_maps example_memory)(0 := memory_maps memory_new)" and ?M = "\<lambda>_ :: nat. memory_maps example_memory"
  have "reads_pairs (overlaid True ?P ?E) (memory_maps example_memory)
    \<and> ((\<forall>i ks k. (?M i ks k = None) = (?M 0 ks k = None)) \<longrightarrow> counts_pairs (overlaid True ?P ?E) (memory_maps example_memory))
    \<and> reads_as (overlaid False ?P ?E) (?M 0)"
  proof (rule overlay_reads_exact [where B = ?B])
    fix i :: nat and ks k
    show "reads_as (?E i) (?M i)" by (rule memory_reads_map [OF example_memory_fields(1)])
    show "pending_ok (?P i)" by (simp add: example_pending_fields)
    show "countable_in_a_word (?P i) (?M i)"
      by (simp add: countable_in_a_word_def example_memory_fields example_pending_fields u64_max_def no_ops_def)
        (simp add: pending_new_def no_ops_def)
    show "view_of (?P i) (?B i) = memory_maps example_memory" by (simp add: example_view)
    show "?M i ks k = ?B i ks k \<or> k \<in> fst ` set (in_flight (?P i) ks)"
      by (simp add: example_memory_fields example_pending_fields memory_maps_new)
  qed
  moreover have "range_ok (req_range (scan_new DATA key_range_all))"
    by (simp add: scan_new_def key_range_all_def range_ok_def)
  ultimately show ?thesis by (simp add: reads_pairs_def example_view example_memory_fields)
qed



end
