(* ===== verification/Gate_Run.thy ===== *)
theory Gate_Run
  imports Gate_Overlay Apply
begin

text \<open>The turn every writer of log records in a process takes (gate.rs of
tessari-storage), and the runs of a gate over an engine.  A writer takes the turn,
reads the version of the store as its overlay shows it, derives a batch that
asserts that version and moves it by one, stages the batch and hands the turn on;
groups of staged batches land, fail, panic or are abandoned meanwhile, waiters
collect their answers or go away, and other writers of the process change keys
that are not the version.  The runs are a step relation over all of that in any
order.  The text of an error is an argument, and so is what identifies a task or
thread.\<close>

section \<open>The gate\<close>

definition NOT_KEPT :: u64 where "NOT_KEPT = - 1"

record 'h gate =
  g_holder :: "'h option"
  g_pending :: pending
  g_kept :: u64
  g_announced :: nat
  g_stopped :: "string option"

definition gate_new :: "'h gate" where
  "gate_new = \<lparr>g_holder = None, g_pending = pending_new, g_kept = NOT_KEPT, g_announced = 0,
     g_stopped = None\<rparr>"

text \<open>Taking a turn that is held waits, which is the absent value.\<close>

definition hold :: "'h \<Rightarrow> 'h gate \<Rightarrow> 'h gate option" where
  "hold h g = (if g_holder g = None then Some (g\<lparr>g_holder := Some h\<rparr>) else None)"

definition keep_version :: "sequence \<Rightarrow> 'h gate \<Rightarrow> 'h gate" where
  "keep_version v g = g\<lparr>g_kept := v\<rparr>"

definition forget_version :: "'h gate \<Rightarrow> 'h gate" where
  "forget_version g = g\<lparr>g_kept := NOT_KEPT\<rparr>"

definition kept_version :: "'h gate \<Rightarrow> sequence option" where
  "kept_version g = (if g_kept g = NOT_KEPT then None else Some (g_kept g))"

definition turn_drop :: "'h gate \<Rightarrow> 'h gate" where
  "turn_drop g = (forget_version g)\<lparr>g_holder := None\<rparr>"

definition held_here :: "'h \<Rightarrow> 'h gate \<Rightarrow> bool" where
  "held_here h g \<longleftrightarrow> g_holder g = Some h"

definition gate_stage :: "write_batch \<Rightarrow> sequence \<Rightarrow> 'h gate \<Rightarrow> nat \<times> 'h gate" where
  "gate_stage b v g =
    (let g = forget_version g; (ticket, p) = stage b v (g_pending g)
     in (ticket, g\<lparr>g_pending := p\<rparr>))"

definition landed_at :: "sequence \<Rightarrow> 'h gate \<Rightarrow> 'h gate" where
  "landed_at v g = g\<lparr>g_pending := publish v (g_pending g)\<rparr>"

definition nothing_pending :: "'h gate \<Rightarrow> bool" where
  "nothing_pending g \<longleftrightarrow> quiet (g_pending g)"

definition refuse_if_stopped :: "'h gate \<Rightarrow> unit kv_result" where
  "refuse_if_stopped g =
    (case g_stopped g of Some reason \<Rightarrow> Inl (Stopped reason) | None \<Rightarrow> Inr ())"

definition stop_on :: "(kv_error \<Rightarrow> string) \<Rightarrow> unit kv_result \<Rightarrow> 'h gate \<Rightarrow> 'h gate" where
  "stop_on text_of outcome g =
    (case outcome of
       Inr _ \<Rightarrow> g
     | Inl failure \<Rightarrow>
         if kv_error_category failure \<in> {CatUnavailable, CatCorruption, CatInternal}
         then (case g_stopped g of
                 None \<Rightarrow> g\<lparr>g_stopped := Some (text_of failure)\<rparr>
               | Some _ \<Rightarrow> g)
         else g)"

definition announce :: "'h gate \<Rightarrow> 'h gate" where
  "announce g = g\<lparr>g_announced := g_announced g + 1\<rparr>"

text \<open>Landing a ticket, up to the waiting and from the answer on.  A stopped store
refuses first, and the ticket goes with the refused call.\<close>

definition land_enter :: "nat \<Rightarrow> 'h gate \<Rightarrow> 'h gate \<times> unit kv_result" where
  "land_enter ticket g =
    (case refuse_if_stopped g of
       Inl e \<Rightarrow> (g\<lparr>g_pending := drop_ticket ticket False (g_pending g)\<rparr>, Inl e)
     | Inr _ \<Rightarrow> (g, Inr ()))"

definition land_leave :: "(kv_error \<Rightarrow> string) \<Rightarrow> unit kv_result \<Rightarrow> 'h gate \<Rightarrow> 'h gate" where
  "land_leave text_of outcome g =
    (let g = stop_on text_of outcome g in
     case outcome of Inr _ \<Rightarrow> announce g | Inl _ \<Rightarrow> g)"

datatype landing = Synced | Deferred

definition gate_apply ::
  "(kv_error \<Rightarrow> string) \<Rightarrow> ('s \<Rightarrow> write_batch \<Rightarrow> 's \<times> unit kv_result)
    \<Rightarrow> ('s \<Rightarrow> write_batch \<Rightarrow> 's \<times> unit kv_result) \<Rightarrow> landing \<Rightarrow> write_batch
    \<Rightarrow> 's \<Rightarrow> 'h gate \<Rightarrow> ('s \<times> 'h gate) \<times> unit kv_result" where
  "gate_apply text_of synced unsynced how b s g =
    (case refuse_if_stopped g of
       Inl e \<Rightarrow> ((s, g), Inl e)
     | Inr _ \<Rightarrow>
         (let g = forget_version g;
              (s, applied) = (case how of Synced \<Rightarrow> synced s b | Deferred \<Rightarrow> unsynced s b)
          in ((s, land_leave text_of applied g), applied)))"

section \<open>Runs\<close>

text \<open>A batch that moves the version from one value to the next: it asserts the one and
leaves the other.\<close>

definition moves :: "nat \<Rightarrow> write_batch \<Rightarrow> bool" where
  "moves n b \<longleftrightarrow> n + 1 < 2 ^ 64
    \<and> ValueIs META version_key (sequence_encode (of_nat n)) \<in> set (preconditions b)
    \<and> (\<forall>m. map_ops (ops b) m META version_key = Some (sequence_encode (of_nat (n + 1))))"

text \<open>What a group write may have done to the engine, by how many of its batches it
took: all, or those before one it refused or failed at.  A write that panicked or
was abandoned took any number of those it would accept.\<close>

inductive engine_ends :: "store_map \<Rightarrow> write_batch list \<Rightarrow> group_outcome \<Rightarrow> nat \<Rightarrow> bool" where
  all: "accepted m bs = bs \<Longrightarrow> engine_ends m bs (Answered (length bs) (Inr ())) (length bs)"
| stops: "k \<le> length (accepted m bs) \<Longrightarrow> k < length bs \<Longrightarrow> engine_ends m bs (Answered k (Inl e)) k"
| panics: "k \<le> length (accepted m bs) \<Longrightarrow> engine_ends m bs GroupPanicked k"
| abandons: "k \<le> length (accepted m bs) \<Longrightarrow> engine_ends m bs GroupAbandoned k"

definition engine_apply :: "store_map \<Rightarrow> write_batch \<Rightarrow> store_map \<times> unit kv_result" where
  "engine_apply m b =
    (if list_all (holds_pre m) (preconditions b) then (map_ops (ops b) m, Inr ())
     else (m, Inl (refused (batch_named b))))"

text \<open>A world: the gate, the engine and the group a flush holds; then, for the
properties only, what the holder was shown when it read the version, what the
writer of each staged batch was shown then, the batches landed in order with what
each writer was shown then, the tickets that landed, what each waiter was told and
the waiters that are gone.

A writer reads more than the version: the conflict check, the bound of a space, the
topics, lifetimes and derived rows of a commit are read from the store too, most of
them before the version.  So the world also keeps what each read of the holder
showed since it took the turn or last wrote in it, and whether every group that
ended meanwhile landed whole; the same pair for each staged batch, and for each
landed one.\<close>

type_synonym item = "sequence \<times> write_batch"

record 'h world =
  w_gate :: "'h gate"
  w_engine :: store_map
  w_flying :: "member list"
  w_read :: "(item list \<times> nat) option"
  w_shown :: "nat \<Rightarrow> item list"
  w_landed :: "item list"
  w_account :: "(item list \<times> item) list"
  w_tickets :: "nat set"
  w_told :: "nat \<rightharpoonup> unit kv_result"
  w_left :: "nat set"
  w_looks :: "item list list"
  w_clean :: bool
  w_before :: "nat \<Rightarrow> item list list \<times> bool"
  w_prior :: "(item list list \<times> bool) list"

abbreviation w_pending :: "'h world \<Rightarrow> pending" where
  "w_pending w \<equiv> g_pending (w_gate w)"

abbreviation w_pending_set :: "pending \<Rightarrow> 'h world \<Rightarrow> 'h world" where
  "w_pending_set p w \<equiv> w\<lparr>w_gate := (w_gate w)\<lparr>g_pending := p\<rparr>\<rparr>"

definition item_of :: "member \<Rightarrow> item" where
  "item_of m = (mb_version m, mb_batch m)"

definition pipeline :: "'h world \<Rightarrow> member list" where
  "pipeline w = w_flying w @ staged (w_pending w)"

definition visible :: "'h world \<Rightarrow> item list" where
  "visible w = w_landed w @ map item_of (pipeline w)"

definition world_new :: "store_map \<Rightarrow> 'h world" where
  "world_new m = \<lparr>w_gate = gate_new, w_engine = m, w_flying = [], w_read = None,
     w_shown = (\<lambda>_. []), w_landed = [], w_account = [], w_tickets = {}, w_told = Map.empty,
     w_left = {}, w_looks = [], w_clean = True, w_before = (\<lambda>_. ([], True)), w_prior = []\<rparr>"

definition waiting :: "'h world \<Rightarrow> nat \<Rightarrow> bool" where
  "waiting w t \<longleftrightarrow> t < next_ticket (w_pending w) \<and> w_told w t = None \<and> t \<notin> w_left w"

text \<open>A group that did not land whole refuses what is staged behind it.\<close>

definition falls_short :: "group_outcome \<Rightarrow> nat \<Rightarrow> bool" where
  "falls_short outcome n \<longleftrightarrow> unknown_reason outcome \<noteq> None \<or> outcome_landed outcome < n"

text \<open>The end of a group write, with the number of batches the engine took.\<close>

definition settle_group :: "string \<Rightarrow> group_outcome \<Rightarrow> nat \<Rightarrow> 'h world \<Rightarrow> 'h world" where
  "settle_group backend outcome k w =
    (let ms = take k (w_flying w) in
     (w_pending_set (flush_record (w_flying w) backend outcome (w_pending w)) w)
       \<lparr>w_engine := map_ops (batches_ops (map mb_batch ms)) (w_engine w),
        w_flying := [],
        w_landed := w_landed w @ map item_of ms,
        w_account := w_account w @ map (\<lambda>m. (w_shown w (mb_ticket m), item_of m)) ms,
        w_tickets := w_tickets w \<union> set (map mb_ticket ms),
        w_clean := (w_clean w \<and> \<not> falls_short outcome (length (w_flying w))),
        w_prior := w_prior w @ map (\<lambda>m. w_before w (mb_ticket m)) ms\<rparr>)"

inductive gate_step :: "(kv_error \<Rightarrow> string) \<Rightarrow> string \<Rightarrow> 'h world \<Rightarrow> 'h world \<Rightarrow> bool"
  for text_of backend where
  takes_turn: "hold h (w_gate w) = Some g \<Longrightarrow>
    gate_step text_of backend w (w\<lparr>w_gate := g, w_read := None, w_looks := [], w_clean := True\<rparr>)"
| looks: "g_holder (w_gate w) = Some h \<Longrightarrow>
    gate_step text_of backend w (w\<lparr>w_looks := w_looks w @ [visible w]\<rparr>)"
| reads_version: "g_holder (w_gate w) = Some h \<Longrightarrow>
    committed_version (\<lambda>ks k. Inr (view_of (w_pending w) (w_engine w) ks k)) = Inr v \<Longrightarrow>
    gate_step text_of backend w
      (w\<lparr>w_gate := keep_version v (w_gate w),
         w_read := Some (visible w, unat v), w_looks := w_looks w @ [visible w]\<rparr>)"
| stages: "g_holder (w_gate w) = Some h \<Longrightarrow> w_read w = Some (onto, n) \<Longrightarrow> moves n b \<Longrightarrow>
    next_ticket (w_pending w) < u64_max \<Longrightarrow>
    gate_stage b (of_nat (n + 1)) (w_gate w) = (ticket, g) \<Longrightarrow>
    gate_step text_of backend w
      (w\<lparr>w_gate := g, w_read := None, w_shown := (w_shown w)(ticket := onto),
         w_looks := [], w_clean := True,
         w_before := (w_before w)(ticket := (w_looks w, w_clean w))\<rparr>)"
| drops_turn: "g_holder (w_gate w) = Some h \<Longrightarrow>
    gate_step text_of backend w (w\<lparr>w_gate := turn_drop (w_gate w), w_read := None, w_looks := [],
         w_clean := True\<rparr>)"
| takes_group: "waiting w t \<Longrightarrow> land_look t (w_pending w) = (Land ms, p) \<Longrightarrow>
    gate_step text_of backend w ((w_pending_set p w)\<lparr>w_flying := ms\<rparr>)"
| lands_all: "g_holder (w_gate w) = Some h \<Longrightarrow> land_all_look (w_pending w) = (Some (Land ms), p) \<Longrightarrow>
    gate_step text_of backend w ((w_pending_set p w)\<lparr>w_flying := ms\<rparr>)"
| settles: "flushing (w_pending w) \<Longrightarrow>
    engine_ends (w_engine w) (map mb_batch (w_flying w)) outcome k \<Longrightarrow>
    gate_step text_of backend w (settle_group backend outcome k w)"
| collects: "waiting w t \<Longrightarrow> land_look t (w_pending w) = (Collected a, p) \<Longrightarrow>
    gate_step text_of backend w
      (w\<lparr>w_gate := land_leave text_of a ((w_gate w)\<lparr>g_pending := p\<rparr>), w_told := (w_told w)(t \<mapsto> a)\<rparr>)"
| leaves: "waiting w t \<Longrightarrow>
    gate_step text_of backend w
      ((w_pending_set (drop_ticket t False (w_pending w)) w)\<lparr>w_left := insert t (w_left w)\<rparr>)"
| meets_a_stop: "waiting w t \<Longrightarrow> land_enter t (w_gate w) = (g, Inl e) \<Longrightarrow>
    gate_step text_of backend w (w\<lparr>w_gate := g, w_told := (w_told w)(t \<mapsto> Inl e)\<rparr>)"
| applies: "g_holder (w_gate w) = Some h \<Longrightarrow> w_read w = Some (onto, n) \<Longrightarrow> moves n b \<Longrightarrow>
    land_all_look (w_pending w) = (None, p) \<Longrightarrow>
    gate_apply text_of engine_apply engine_apply how b (w_engine w) (w_gate w) = ((m, g), Inr ()) \<Longrightarrow>
    gate_step text_of backend w
      (w\<lparr>w_gate := landed_at (of_nat (n + 1)) g, w_read := None, w_engine := m,
         w_landed := w_landed w @ [(of_nat (n + 1), b)],
         w_account := w_account w @ [(onto, (of_nat (n + 1), b))],
         w_looks := [], w_clean := True, w_prior := w_prior w @ [(w_looks w, w_clean w)]\<rparr>)"
| applies_not: "g_holder (w_gate w) = Some h \<Longrightarrow> land_all_look (w_pending w) = (None, p) \<Longrightarrow>
    gate_apply text_of engine_apply engine_apply how b (w_engine w) (w_gate w) = ((m, g), Inl e) \<Longrightarrow>
    gate_step text_of backend w (w\<lparr>w_gate := g, w_engine := m\<rparr>)"
| publishes: "(v, b) \<in> set (w_landed w) \<Longrightarrow>
    gate_step text_of backend w (w\<lparr>w_gate := landed_at v (w_gate w)\<rparr>)"
| elsewhere: "m META version_key = w_engine w META version_key \<Longrightarrow>
    gate_step text_of backend w (w\<lparr>w_engine := m\<rparr>)"

inductive gate_runs :: "(kv_error \<Rightarrow> string) \<Rightarrow> string \<Rightarrow> store_map \<Rightarrow> 'h world \<Rightarrow> bool"
  for text_of backend m where
  starts: "gate_runs text_of backend m (world_new m)"
| goes_on: "gate_runs text_of backend m w \<Longrightarrow> gate_step text_of backend w w' \<Longrightarrow>
    gate_runs text_of backend m w'"

section \<open>What the operations on the state change\<close>

definition recorded_ops :: "write_batch list \<Rightarrow> ops_map" where
  "recorded_ops bs = foldl record_ops no_ops bs"

lemma recorded_ops_view: "ops_ok (recorded_ops bs)" "view_over (recorded_ops bs) m = map_ops (batches_ops bs) m"
  using record_all_view [OF ops_ok_no_ops, of bs m] by (simp_all add: recorded_ops_def)

lemma recorded_ops_Nil [simp]: "recorded_ops [] = no_ops"
  by (simp add: recorded_ops_def)

lemma recorded_ops_snoc: "recorded_ops (bs @ [b]) = record_ops (recorded_ops bs) b"
  by (simp add: recorded_ops_def)

lemma recorded_ops_none: "recorded_ops bs = no_ops \<longleftrightarrow> batches_ops bs = []"
proof
  assume none: "recorded_ops bs = no_ops"
  have "{op_key op | op. op \<in> set (batches_ops bs) \<and> op_keyspace op = ks} = {}" for ks
    using keys_record_all [of no_ops bs ks] none by (simp add: recorded_ops_def no_ops_def)
  then show "batches_ops bs = []" by (cases "batches_ops bs") auto
next
  assume "batches_ops bs = []"
  then show "recorded_ops bs = no_ops"
    by (induction bs rule: rev_induct) (simp_all add: recorded_ops_snoc record_ops_def)
qed

lemma take_group_fields:
  assumes "take_group p = (ms, q)" "staged_ops p = recorded_ops (map mb_batch (staged p))"
  shows "ms @ staged q = staged p" "in_flight q = recorded_ops (map mb_batch ms)"
    "staged_ops q = recorded_ops (map mb_batch (staged q))" "flushing q" "next_ticket q = next_ticket p"
    "answers q = answers p" "gone q = gone p" "any_pending q = any_pending p"
    "landed_version q = landed_version p" "staged p \<noteq> [] \<Longrightarrow> ms \<noteq> []"
proof -
  obtain g l where gl: "group_loop [] 0 (staged p) = (g, l)" by fastforce
  note split = group_loop_split [OF gl]
  have q: "ms = g" "q = (if l = [] then p\<lparr>staged := l, flushing := True, in_flight := staged_ops p,
        staged_ops := no_ops\<rparr>
      else p\<lparr>staged := l, flushing := True, in_flight := recorded_ops (map mb_batch g),
        staged_ops := recorded_ops (map mb_batch l)\<rparr>)"
    using assms(1) by (auto simp: take_group_def gl recorded_ops_def Let_def)
  show "ms @ staged q = staged p" "in_flight q = recorded_ops (map mb_batch ms)"
    "staged_ops q = recorded_ops (map mb_batch (staged q))" "flushing q" "next_ticket q = next_ticket p"
    "answers q = answers p" "gone q = gone p" "any_pending q = any_pending p"
    "landed_version q = landed_version p"
    using split assms(2) by (auto simp: q)
  show "staged p \<noteq> [] \<Longrightarrow> ms \<noteq> []" using group_loop_takes [OF gl] by (simp add: q)
qed

subsection \<open>Answering\<close>

definition answer_all :: "(nat \<times> unit kv_result) list \<Rightarrow> pending \<Rightarrow> pending" where
  "answer_all as p = foldl (\<lambda>p (t, a). answer t a p) p as"

lemma answer_all_simps [simp]:
  "answer_all [] p = p" "answer_all ((t, a) # as) p = answer_all as (answer t a p)"
  "answer_all (as @ bs) p = answer_all bs (answer_all as p)"
  by (simp_all add: answer_all_def)

lemma answer_fields [simp]:
  "staged (answer t a p) = staged p" "staged_ops (answer t a p) = staged_ops p"
  "in_flight (answer t a p) = in_flight p" "flushing (answer t a p) = flushing p"
  "next_ticket (answer t a p) = next_ticket p" "any_pending (answer t a p) = any_pending p"
  "landed_version (answer t a p) = landed_version p"
  by (simp_all add: answer_def)

lemma answer_all_fields [simp]:
  "staged (answer_all as p) = staged p" "staged_ops (answer_all as p) = staged_ops p"
  "in_flight (answer_all as p) = in_flight p" "flushing (answer_all as p) = flushing p"
  "next_ticket (answer_all as p) = next_ticket p" "any_pending (answer_all as p) = any_pending p"
  "landed_version (answer_all as p) = landed_version p"
  by (induction as arbitrary: p) auto

lemma answer_update [simp]:
  "answer t a (p\<lparr>staged := x\<rparr>) = (answer t a p)\<lparr>staged := x\<rparr>"
  by (simp add: answer_def)

lemma answers_answer_all:
  assumes "distinct (map fst as)"
  shows "answers (answer_all as p) t
    = (case map_of as t of Some a \<Rightarrow> if t \<in> gone p then answers p t else Some a | None \<Rightarrow> answers p t)"
    and "gone (answer_all as p) = gone p - fst ` set as"
  using assms
proof (induction as arbitrary: p)
  case (Cons x as)
  obtain u a where x: "x = (u, a)" by (cases x)
  {
    case 1
    then have "map_of as u = None" by (simp add: x map_of_eq_None_iff)
    then show ?case using 1 Cons.IH(1) [of "answer u a p"]
      by (cases "t = u") (auto simp: x answer_def split: option.split)
  next
    case 2
    then show ?case using Cons.IH(2) [of "answer u a p"] by (auto simp: x answer_def)
  }
qed simp_all

lemma answer_all_cong:
  assumes "answers p = answers q" "gone p = gone q"
  shows "answers (answer_all as p) = answers (answer_all as q)" "gone (answer_all as p) = gone (answer_all as q)"
proof -
  have "answers (answer_all as p) = answers (answer_all as q) \<and> gone (answer_all as p) = gone (answer_all as q)"
    using assms
  proof (induction as arbitrary: p q)
    case (Cons x as)
    obtain t a where x: "x = (t, a)" by (cases x)
    show ?case unfolding x answer_all_simps
      by (rule Cons.IH) (simp_all add: answer_def Cons.prems)
  qed simp
  then show "answers (answer_all as p) = answers (answer_all as q)"
    "gone (answer_all as p) = gone (answer_all as q)" by simp_all
qed

text \<open>The answers of a group, as a list.\<close>

fun answers_for ::
  "string \<Rightarrow> string option \<Rightarrow> nat \<Rightarrow> nat \<Rightarrow> kv_error option \<Rightarrow> (nat \<times> keyspace \<times> key) list
    \<Rightarrow> (nat \<times> unit kv_result) list" where
  "answers_for backend reason done_n index failure [] = []"
| "answers_for backend reason done_n index failure ((t, named) # ms) =
    (case reason of
       Some why \<Rightarrow> (t, Inl (unknown backend why)) # answers_for backend reason done_n (index + 1) failure ms
     | None \<Rightarrow>
         if index < done_n then (t, Inr ()) # answers_for backend reason done_n (index + 1) failure ms
         else (t, Inl (case failure of Some e \<Rightarrow> e | None \<Rightarrow> refused named))
           # answers_for backend reason done_n (index + 1) None ms)"

lemma answer_members_all:
  "answer_members backend reason done_n index failure ms p
    = answer_all (answers_for backend reason done_n index failure ms) p"
  by (induction backend reason done_n index failure ms p rule: answer_members.induct)
    (auto split: option.splits)

lemma answers_for_tickets:
  "map fst (answers_for backend reason done_n index failure ms) = map fst ms"
  by (induction backend reason done_n index failure ms rule: answers_for.induct) (auto split: option.splits)

lemma answers_for_member:
  assumes "i < length ms"
  shows "case reason of
      Some why \<Rightarrow> answers_for backend reason done_n index failure ms ! i = (fst (ms ! i), Inl (unknown backend why))
    | None \<Rightarrow> if index + i < done_n then answers_for backend reason done_n index failure ms ! i = (fst (ms ! i), Inr ())
        else \<exists>e. answers_for backend reason done_n index failure ms ! i = (fst (ms ! i), Inl e)"
  using assms
proof (induction ms arbitrary: index failure i)
  case (Cons x ms)
  obtain t named where x: "x = (t, named)" by (cases x)
  show ?case
  proof (cases i)
    case (Suc j)
    then show ?thesis
      using Cons.IH [of j "index + 1" failure] Cons.IH [of j "index + 1" None] Cons.prems
      by (cases reason; cases "index < done_n") (simp_all add: x split: if_splits)
  qed (simp add: x split: option.split)
qed simp

definition refusals :: "member list \<Rightarrow> (nat \<times> unit kv_result) list" where
  "refusals ms = map (\<lambda>m. (mb_ticket m, Inl (refused (mb_named m)))) ms"

lemma refuse_staged_all:
  "refuse_staged p = (answer_all (refusals (staged p)) p)\<lparr>staged := [], staged_ops := no_ops\<rparr>"
proof -
  have "foldl (\<lambda>p m. answer (mb_ticket m) (Inl (refused (mb_named m))) p) q ms = answer_all (refusals ms) q"
    for q ms by (induction ms arbitrary: q) (simp_all add: refusals_def)
  moreover have "answer_all as (q\<lparr>staged := x\<rparr>) = (answer_all as q)\<lparr>staged := x\<rparr>" for as q x
    by (induction as arbitrary: q) auto
  ultimately show ?thesis by (simp add: refuse_staged_def)
qed

definition all_answers :: "member list \<Rightarrow> string \<Rightarrow> group_outcome \<Rightarrow> pending \<Rightarrow> (nat \<times> unit kv_result) list" where
  "all_answers ms backend outcome p =
    answers_for backend (unknown_reason outcome) (outcome_landed outcome) 0 (outcome_failure outcome)
      (map (\<lambda>m. (mb_ticket m, mb_named m)) ms)
    @ (if falls_short outcome (length ms) then refusals (staged p) else [])"

lemma all_answers_tickets:
  "map fst (all_answers ms backend outcome p)
    = map mb_ticket ms @ (if falls_short outcome (length ms) then map mb_ticket (staged p) else [])"
  by (simp add: all_answers_def answers_for_tickets refusals_def comp_def)

lemma flush_record_fields:
  assumes q_def: "q = flush_record ms backend outcome p"
  shows "staged q = (if falls_short outcome (length ms) then [] else staged p)"
    "staged_ops q = (if falls_short outcome (length ms) then no_ops else staged_ops p)"
    "in_flight q = no_ops" "\<not> flushing q" "next_ticket q = next_ticket p"
    "any_pending q \<longleftrightarrow> staged_ops q \<noteq> no_ops"
    "landed_version q = (case newest (map mb_version (take (outcome_landed outcome) ms)) of
       Some v \<Rightarrow> max (landed_version p) v | None \<Rightarrow> landed_version p)"
    "answers q = answers (answer_all (all_answers ms backend outcome p) p)"
    "gone q = gone (answer_all (all_answers ms backend outcome p) p)"
proof -
  have z: "zip (map mb_ticket ms) (map mb_named ms) = map (\<lambda>m. (mb_ticket m, mb_named m)) ms"
    by (induction ms) simp_all
  define r where "r = p\<lparr>in_flight := no_ops, flushing := False\<rparr>"
  define p0 where "p0 = (case newest (map mb_version (take (outcome_landed outcome) ms)) of
       Some v \<Rightarrow> publish v r | None \<Rightarrow> r)"
  let ?as = "all_answers ms backend outcome p" and ?short = "falls_short outcome (length ms)"
  have p0: "staged p0 = staged p" "staged_ops p0 = staged_ops p" "in_flight p0 = no_ops" "\<not> flushing p0"
    "next_ticket p0 = next_ticket p" "answers p0 = answers p" "gone p0 = gone p"
    "landed_version p0 = (case newest (map mb_version (take (outcome_landed outcome) ms)) of
       Some v \<Rightarrow> max (landed_version p) v | None \<Rightarrow> landed_version p)"
    by (simp_all add: p0_def r_def publish_def split: option.split)
  define q0 where "q0 = (if ?short then (answer_all ?as p0)\<lparr>staged := [], staged_ops := no_ops\<rparr>
    else answer_all ?as p0)"
  have q: "q = q0\<lparr>any_pending := \<not> pending_is_empty q0\<rparr>"
    unfolding q_def flush_record_def record_outcome_def Let_def take_map z r_def [symmetric]
      p0_def [symmetric]
    by (simp add: q0_def answer_members_all refuse_staged_all falls_short_def all_answers_def p0(1))
  show "staged q = (if falls_short outcome (length ms) then [] else staged p)"
    "staged_ops q = (if falls_short outcome (length ms) then no_ops else staged_ops p)"
    "in_flight q = no_ops" "\<not> flushing q" "next_ticket q = next_ticket p"
    "landed_version q = (case newest (map mb_version (take (outcome_landed outcome) ms)) of
       Some v \<Rightarrow> max (landed_version p) v | None \<Rightarrow> landed_version p)"
    "any_pending q \<longleftrightarrow> staged_ops q \<noteq> no_ops"
    "answers q = answers (answer_all ?as p)" "gone q = gone (answer_all ?as p)"
    using p0 answer_all_cong [OF p0(6,7), of ?as] by (simp_all add: q q0_def pending_is_empty_def ops_empty_iff)
qed

end
