(* ===== verification/Gate_Safe.thy ===== *)
theory Gate_Safe
  imports Gate_Run
begin

text \<open>What holds in every run of the gate: the pending maps show exactly the batches
staged and in flight, every batch lands on the batches its writer was shown, and
the answers say what landed.\<close>

section \<open>Fields after a step\<close>

lemma land_look_Land:
  assumes "land_look t p = (Land ms, q)"
  shows "answers p t = None" "\<not> flushing p" "staged p \<noteq> []" "take_group p = (ms, q)"
  using assms by (auto simp: land_look_def split: option.splits if_splits prod.splits)

lemma land_all_look_Land:
  assumes "land_all_look p = (Some (Land ms), q)"
  shows "\<not> flushing p" "staged p \<noteq> []" "take_group p = (ms, q)"
  using assms by (auto simp: land_all_look_def split: if_splits prod.splits)

lemma land_look_Collected:
  assumes "land_look t p = (Collected a, q)"
  shows "answers p t = Some a" "q = p\<lparr>answers := (answers p)(t := None)\<rparr>"
  using assms by (auto simp: land_look_def split: option.splits if_splits prod.splits)

lemma land_all_look_None:
  assumes "land_all_look p = (None, q)"
  shows "\<not> flushing p" "staged p = []"
  using assms by (auto simp: land_all_look_def split: if_splits prod.splits)

lemma gate_stage_fields:
  assumes "gate_stage b v g = (t, g')"
  shows "t = next_ticket (g_pending g)"
    "g_pending g' = snd (stage b v (g_pending g))" "g_holder g' = g_holder g" "g_stopped g' = g_stopped g"
  using assms by (auto simp: gate_stage_def stage_def Let_def forget_version_def)

lemma stop_on_fields [simp]:
  "g_pending (stop_on text_of a g) = g_pending g" "g_holder (stop_on text_of a g) = g_holder g"
  by (simp_all add: stop_on_def split: sum.split option.split)

lemma land_leave_fields [simp]:
  "g_pending (land_leave text_of a g) = g_pending g" "g_holder (land_leave text_of a g) = g_holder g"
  by (simp_all add: land_leave_def announce_def Let_def split: sum.split)

lemma land_enter_Inl:
  assumes "land_enter t g = (g', Inl e)"
  shows "\<exists>r. e = Stopped r" "g_pending g' = drop_ticket t False (g_pending g)" "g_holder g' = g_holder g"
  using assms by (auto simp: land_enter_def refuse_if_stopped_def split: option.splits)

lemma gate_apply_fields:
  assumes "gate_apply text_of engine_apply engine_apply how b m g = ((m', g'), res)"
  shows "g_pending g' = g_pending g" "g_holder g' = g_holder g"
    "res = Inr () \<Longrightarrow> list_all (holds_pre m) (preconditions b) \<and> m' = map_ops (ops b) m"
    "res \<noteq> Inr () \<Longrightarrow> m' = m"
  using assms
  by (auto simp: gate_apply_def engine_apply_def forget_version_def Let_def
      split: sum.splits landing.splits if_splits)

lemma hold_fields: "hold h g = Some g' \<Longrightarrow> g_pending g' = g_pending g"
  by (auto simp: hold_def split: if_splits)

lemma other_fields [simp]:
  "g_pending (keep_version v g) = g_pending g" "g_pending (turn_drop g) = g_pending g"
  "g_pending (landed_at v g) = publish v (g_pending g)"
  "staged (publish v p) = staged p" "in_flight (publish v p) = in_flight p"
  "staged_ops (publish v p) = staged_ops p" "flushing (publish v p) = flushing p"
  "next_ticket (publish v p) = next_ticket p" "any_pending (publish v p) = any_pending p"
  "answers (publish v p) = answers p" "gone (publish v p) = gone p"
  "landed_version (publish v p) = max (landed_version p) v"
  by (simp_all add: keep_version_def turn_drop_def forget_version_def landed_at_def publish_def)

lemma drop_ticket_fields [simp]:
  "staged (drop_ticket t c p) = staged p" "in_flight (drop_ticket t c p) = in_flight p"
  "staged_ops (drop_ticket t c p) = staged_ops p" "flushing (drop_ticket t c p) = flushing p"
  "next_ticket (drop_ticket t c p) = next_ticket p" "any_pending (drop_ticket t c p) = any_pending p"
  "landed_version (drop_ticket t c p) = landed_version p"
  by (simp_all add: drop_ticket_def)

lemma drop_ticket_answers:
  "answers (drop_ticket t False p) u = (if u = t then None else answers p u)"
  "gone (drop_ticket t False p) \<subseteq> insert t (gone p)"
  by (auto simp: drop_ticket_def)

section \<open>The pending maps show the batches\<close>

definition coherent :: "'h world \<Rightarrow> bool" where
  "coherent w \<longleftrightarrow>
    (let p = w_pending w in
     staged_ops p = recorded_ops (map mb_batch (staged p))
     \<and> in_flight p = recorded_ops (map mb_batch (w_flying w))
     \<and> (flushing p \<longleftrightarrow> w_flying w \<noteq> [])
     \<and> (any_pending p \<or> staged_ops p = no_ops \<and> in_flight p = no_ops))"

lemmas coherent_defs = coherent_def Let_def quiet_def pending_is_empty_def ops_empty_iff

lemma coherent_take_group:
  assumes "coherent w" "take_group (w_pending w) = (ms, q)" "\<not> flushing (w_pending w)" "staged (w_pending w) \<noteq> []"
  shows "coherent ((w_pending_set q w)\<lparr>w_flying := ms\<rparr>)"
proof -
  let ?p = "w_pending w"
  have so: "staged_ops ?p = recorded_ops (map mb_batch (staged ?p))" using assms(1) by (simp add: coherent_def Let_def)
  note f = take_group_fields [OF assms(2) so]
  have "staged_ops q = no_ops \<and> in_flight q = no_ops" if "staged_ops ?p = no_ops"
  proof -
    have "batches_ops (map mb_batch (ms @ staged q)) = []"
      using that so by (simp add: f(1) recorded_ops_none)
    then show ?thesis by (simp add: f(2,3) recorded_ops_none)
  qed
  then show ?thesis using assms f so by (auto simp: coherent_def Let_def)
qed

lemma coherent_settles:
  assumes "coherent w"
  shows "coherent (settle_group backend outcome k w)"
  using assms flush_record_fields [OF refl, of "w_flying w" backend outcome "w_pending w"]
  by (simp add: settle_group_def coherent_def Let_def)

lemma coherent_stage:
  assumes "coherent w" "gate_stage b v (w_gate w) = (t, g)"
  shows "coherent (w\<lparr>w_gate := g, w_read := r, w_shown := f, w_looks := [], w_clean := True, w_before := e\<rparr>)"
  using assms(1) gate_stage_fields [OF assms(2)]
  by (simp add: coherent_def stage_def Let_def recorded_ops_snoc)

lemma coherent_step:
  assumes "gate_step text_of backend w w'" "coherent w"
  shows "coherent w'"
  using assms
proof cases
  case (takes_group t ms p)
  then show ?thesis using coherent_take_group [OF assms(2)] land_look_Land [OF takes_group(3)] by simp
next
  case (lands_all h ms p)
  then show ?thesis using coherent_take_group [OF assms(2)] land_all_look_Land [OF lands_all(3)] by simp
next
  case (settles outcome k)
  then show ?thesis using coherent_settles [OF assms(2)] by simp
next
  case (stages h onto n b ticket g)
  then show ?thesis using coherent_stage [OF assms(2)] by simp
next
  case (takes_turn h g)
  show ?thesis using assms(2) hold_fields [OF takes_turn(2)]
    unfolding takes_turn(1) by (auto simp: coherent_def Let_def)
next
  case (collects t a p)
  show ?thesis using assms(2) land_look_Collected [OF collects(3)]
    unfolding collects(1) by (auto simp: coherent_def Let_def)
next
  case (meets_a_stop t g e)
  show ?thesis using assms(2) land_enter_Inl [OF meets_a_stop(3)]
    unfolding meets_a_stop(1) by (auto simp: coherent_def Let_def)
next
  case (applies h onto n b p how m g)
  show ?thesis using assms(2) gate_apply_fields(1) [OF applies(6)]
    unfolding applies(1) by (auto simp: coherent_def Let_def)
next
  case (applies_not h p how b m g e)
  show ?thesis using assms(2) gate_apply_fields(1) [OF applies_not(4)]
    unfolding applies_not(1) by (auto simp: coherent_def Let_def)
qed (auto simp: coherent_def Let_def)

lemma coherent_new: "coherent (world_new m)"
  by (simp add: coherent_def world_new_def gate_new_def pending_new_def Let_def)

text \<open>What the holder of the turn sees: the batches in flight and then the staged ones,
written over the engine in their order.\<close>

lemma coherent_view:
  assumes "coherent w"
  shows "view_of (w_pending w) m = map_ops (batches_ops (map mb_batch (pipeline w))) m"
    and "pending_ok (w_pending w)"
  using assms
  by (auto simp: coherent_def Let_def view_of_def recorded_ops_view pipeline_def map_ops_append
      pending_ok_def quiet_def pending_is_empty_def ops_empty_iff)

section \<open>Batches land on what their writers were shown\<close>

definition at_version :: "store_map \<Rightarrow> nat \<Rightarrow> bool" where
  "at_version m n \<longleftrightarrow> n < 2 ^ 64 \<and> m META version_key = Some (sequence_encode (of_nat n))"

fun chain_from :: "nat \<Rightarrow> member list \<Rightarrow> bool" where
  "chain_from n [] \<longleftrightarrow> True"
| "chain_from n (m # ms) \<longleftrightarrow>
    moves n (mb_batch m) \<and> mb_version m = of_nat (n + 1) \<and> chain_from (n + 1) ms"

lemma chain_from_append: "chain_from n (xs @ ys) \<longleftrightarrow> chain_from n xs \<and> chain_from (n + length xs) ys"
  by (induction xs arbitrary: n) simp_all

lemma sequence_encode_inject [simp]: "sequence_encode a = sequence_encode b \<longleftrightarrow> a = b"
  using sequence_round_trip [of a] sequence_round_trip [of b] by (metis Inr_inject)

lemma unat_u64: "n < 2 ^ 64 \<Longrightarrow> unat (of_nat n :: u64) = n"
  by (simp add: unsigned_of_nat take_bit_nat_eq_self)

lemma of_nat_u64_inject: "a < 2 ^ 64 \<Longrightarrow> b < 2 ^ 64 \<Longrightarrow> (of_nat a :: u64) = of_nat b \<Longrightarrow> a = b"
  using unat_u64 [of a] unat_u64 [of b] by metis

lemma at_version_unique: "at_version m a \<Longrightarrow> at_version m b \<Longrightarrow> a = b"
  unfolding at_version_def by (metis of_nat_u64_inject option.inject sequence_encode_inject)

lemma moves_holds:
  assumes "moves n b" "at_version m ne" "list_all (holds_pre m) (preconditions b)"
  shows "n = ne"
proof -
  have "holds_pre m (ValueIs META version_key (sequence_encode (of_nat n)))"
    using assms(1,3) by (auto simp: moves_def list_all_iff)
  then have "at_version m n" using assms(1) unfolding holds_pre_def at_version_def moves_def by simp
  then show ?thesis using assms(2) by (rule at_version_unique)
qed

lemma moves_at_version: "moves n b \<Longrightarrow> at_version (map_ops (ops b) m) (n + 1)"
  by (simp add: moves_def at_version_def)

lemma chain_at_version:
  "chain_from n ms \<Longrightarrow> at_version m n \<Longrightarrow> at_version (map_ops (batches_ops (map mb_batch ms)) m) (n + length ms)"
proof (induction ms arbitrary: n m)
  case (Cons x ms)
  then have "at_version (map_ops (ops (mb_batch x)) m) (n + 1)"
    using moves_at_version [of n "mb_batch x" m] by simp
  then have "at_version (map_ops (batches_ops (map mb_batch ms)) (map_ops (ops (mb_batch x)) m)) (n + 1 + length ms)"
    using Cons.prems(1) by (intro Cons.IH) simp_all
  then show ?case by (simp add: map_ops_append)
qed simp

lemma chain_refused:
  assumes "chain_from n ms" "at_version m ne" "n \<noteq> ne"
  shows "accepted m (map mb_batch ms) = []"
  using assms moves_holds by (cases ms) auto

lemma accepted_prefix: "\<exists>cs. bs = accepted m bs @ cs"
  by (induction m bs rule: accepted.induct) auto

lemma engine_ends_cases:
  assumes "engine_ends m bs outcome k"
  shows "k \<le> length (accepted m bs)" "k \<le> length bs" "\<not> falls_short outcome (length bs) \<Longrightarrow> k = length bs"
    "outcome_landed outcome = k \<or> outcome_landed outcome = 0"
proof -
  have "length (accepted m bs) \<le> length bs" using accepted_prefix [of bs m] by (metis length_append le_add1)
  then show "k \<le> length (accepted m bs)" "k \<le> length bs" "\<not> falls_short outcome (length bs) \<Longrightarrow> k = length bs"
    "outcome_landed outcome = k \<or> outcome_landed outcome = 0"
    using assms by (auto simp: falls_short_def elim!: engine_ends.cases)
qed

text \<open>The invariant.  The batches under way assert one version after another from
\<open>first\<close> on.  When that is the version of the engine, each was derived on exactly what
landed and the batches before it; when it is past it, none of them will land.  What
the holder was shown is what will be there, or asserts a version that is past the
engine's with nothing under way.\<close>

definition accounted :: "'h world \<Rightarrow> bool" where
  "accounted w \<longleftrightarrow> length (w_account w) = length (w_landed w)
    \<and> (\<forall>i < length (w_landed w). w_account w ! i = (take i (w_landed w), w_landed w ! i))"

definition shown_right :: "'h world \<Rightarrow> bool" where
  "shown_right w \<longleftrightarrow> (\<forall>i < length (pipeline w). w_shown w (mb_ticket (pipeline w ! i))
    = w_landed w @ map item_of (take i (pipeline w)))"

definition read_right :: "nat \<Rightarrow> nat \<Rightarrow> 'h world \<Rightarrow> bool" where
  "read_right ne first w \<longleftrightarrow>
    (case w_read w of
       None \<Rightarrow> True
     | Some (onto, n) \<Rightarrow>
         n = first + length (pipeline w) \<and> (first = ne \<longrightarrow> onto = w_landed w @ map item_of (pipeline w))
         \<or> pipeline w = [] \<and> ne < n)"

definition versions_right :: "nat \<Rightarrow> 'h world \<Rightarrow> bool" where
  "versions_right ne w \<longleftrightarrow> unat (landed_version (w_pending w)) \<le> ne
    \<and> (\<forall>x \<in> set (w_landed w). unat (fst x) \<le> ne)"

definition serial :: "'h world \<Rightarrow> bool" where
  "serial w \<longleftrightarrow> accounted w \<and> (\<exists>ne first.
     at_version (w_engine w) ne \<and> ne \<le> first \<and> chain_from first (pipeline w)
     \<and> (pipeline w = [] \<longrightarrow> first = ne) \<and> (first = ne \<longrightarrow> shown_right w)
     \<and> read_right ne first w \<and> versions_right ne w)"

lemma serialI:
  assumes "accounted w" "at_version (w_engine w) ne" "ne \<le> first" "chain_from first (pipeline w)"
    "pipeline w = [] \<longrightarrow> first = ne" "first = ne \<longrightarrow> shown_right w" "read_right ne first w"
    "versions_right ne w"
  shows "serial w"
  using assms unfolding serial_def by blast

lemma accounted_append:
  assumes "accounted w" "length as = length xs"
    "\<And>i. i < length xs \<Longrightarrow> as ! i = (w_landed w @ take i xs, xs ! i)"
    "w_account w' = w_account w @ as" "w_landed w' = w_landed w @ xs"
  shows "accounted w'"
  using assms by (auto simp: accounted_def nth_append)

section \<open>Answers say what landed\<close>

text \<open>The answers that do not say: a write that panicked or was abandoned is unknown, and
a store that stopped says nothing of the batch it refuses to wait for.\<close>

definition is_unknown :: "string \<Rightarrow> kv_error \<Rightarrow> bool" where
  "is_unknown backend e \<longleftrightarrow> e = unknown backend PANICKED \<or> e = unknown backend ABANDONED"

definition is_stop :: "unit kv_result \<Rightarrow> bool" where
  "is_stop a \<longleftrightarrow> (\<exists>r. a = Inl (Stopped r))"

definition truthful :: "string \<Rightarrow> nat set \<Rightarrow> nat \<Rightarrow> unit kv_result \<Rightarrow> bool" where
  "truthful backend L t a \<longleftrightarrow>
    (case a of Inr _ \<Rightarrow> t \<in> L | Inl e \<Rightarrow> is_unknown backend e \<or> is_stop a \<or> t \<notin> L)"

definition pipeline_tickets :: "'h world \<Rightarrow> nat set" where
  "pipeline_tickets w = mb_ticket ` set (pipeline w)"

definition ticketed :: "string \<Rightarrow> 'h world \<Rightarrow> bool" where
  "ticketed backend w \<longleftrightarrow>
    (let p = w_pending w in
     distinct (map mb_ticket (pipeline w))
     \<and> (\<forall>t \<in> pipeline_tickets w. answers p t = None \<and> t \<notin> w_tickets w)
     \<and> (\<forall>t. t \<in> pipeline_tickets w \<or> answers p t \<noteq> None \<or> w_told w t \<noteq> None \<or> t \<in> w_left w
          \<or> t \<in> w_tickets w \<longrightarrow> t < next_ticket p)
     \<and> gone p \<subseteq> w_left w \<union> dom (w_told w)
     \<and> (\<forall>t. waiting w t \<longrightarrow> t \<in> pipeline_tickets w \<or> answers p t \<noteq> None)
     \<and> (\<forall>t a. w_told w t = Some a \<longrightarrow> is_stop a \<or> t \<notin> pipeline_tickets w)
     \<and> (\<forall>t a. answers p t = Some a \<or> w_told w t = Some a \<longrightarrow> truthful backend (w_tickets w) t a))"

lemma ticketedD:
  assumes "ticketed backend w"
  shows "distinct (map mb_ticket (pipeline w))"
    "t \<in> pipeline_tickets w \<Longrightarrow> answers (w_pending w) t = None"
    "t \<in> pipeline_tickets w \<Longrightarrow> t \<notin> w_tickets w"
    "t \<in> pipeline_tickets w \<or> answers (w_pending w) t \<noteq> None \<or> w_told w t \<noteq> None \<or> t \<in> w_left w
       \<or> t \<in> w_tickets w \<Longrightarrow> t < next_ticket (w_pending w)"
    "t \<in> gone (w_pending w) \<Longrightarrow> t \<in> w_left w \<or> w_told w t \<noteq> None"
    "waiting w t \<Longrightarrow> t \<in> pipeline_tickets w \<or> answers (w_pending w) t \<noteq> None"
    "w_told w t = Some a \<Longrightarrow> is_stop a \<or> t \<notin> pipeline_tickets w"
    "answers (w_pending w) t = Some a \<Longrightarrow> truthful backend (w_tickets w) t a"
    "w_told w t = Some a \<Longrightarrow> truthful backend (w_tickets w) t a"
  using assms unfolding ticketed_def Let_def by blast+

lemma nth_in_take:
  assumes "distinct xs" "i < length xs"
  shows "xs ! i \<in> set (take k xs) \<longleftrightarrow> i < k"
proof
  assume "xs ! i \<in> set (take k xs)"
  then obtain j where "j < k" "j < length xs" "xs ! j = xs ! i" by (auto simp: in_set_conv_nth)
  then show "i < k" using assms by (simp add: nth_eq_iff_index_eq)
next
  assume "i < k"
  then show "xs ! i \<in> set (take k xs)" using assms(2) by (auto simp: in_set_conv_nth intro!: exI [of _ i])
qed

lemma all_answers_truthful:
  assumes "engine_ends m (map mb_batch ms) outcome k" "distinct (map mb_ticket (ms @ staged p))"
    "(t, a) \<in> set (all_answers ms backend outcome p)"
  shows "truthful backend (mb_ticket ` set (take k ms)) t a"
proof -
  let ?as = "answers_for backend (unknown_reason outcome) (outcome_landed outcome) 0 (outcome_failure outcome)
      (map (\<lambda>m. (mb_ticket m, mb_named m)) ms)"
  have d: "distinct (map mb_ticket ms)" and dis: "mb_ticket ` set ms \<inter> mb_ticket ` set (staged p) = {}"
    using assms(2) by auto
  have len: "length ?as = length ms"
    using arg_cong [OF answers_for_tickets, of length] by (simp only: length_map)
  consider "(t, a) \<in> set ?as" | "(t, a) \<in> set (refusals (staged p))"
    using assms(3) by (auto simp: all_answers_def split: if_splits)
  then show ?thesis
  proof cases
    case 1
    then obtain i where i: "i < length ms" "?as ! i = (t, a)"
      unfolding in_set_conv_nth len by blast
    note m = answers_for_member [where ms = "map (\<lambda>m. (mb_ticket m, mb_named m)) ms" and i = i
        and reason = "unknown_reason outcome" and backend = backend and index = 0
        and done_n = "outcome_landed outcome" and failure = "outcome_failure outcome"]
    have t: "t = mb_ticket (ms ! i)" and a: "case unknown_reason outcome of
        Some why \<Rightarrow> a = Inl (unknown backend why)
      | None \<Rightarrow> if i < outcome_landed outcome then a = Inr () else \<exists>e. a = Inl e"
      using m [unfolded i(2) length_map, OF i(1)] i(1)
      by (cases "unknown_reason outcome"; cases "i < outcome_landed outcome"; simp)+
    have ik: "t \<in> mb_ticket ` set (take k ms) \<longleftrightarrow> i < k"
      using nth_in_take [OF d, of i k] i(1) by (simp add: take_map t)
    consider "unknown_reason outcome = None" "outcome_landed outcome = k"
      | "unknown_reason outcome = Some PANICKED" | "unknown_reason outcome = Some ABANDONED"
      using assms(1) by (auto elim: engine_ends.cases)
    then show ?thesis
    proof cases
      case 1
      then show ?thesis using a ik by (cases "i < k") (auto simp: truthful_def)
    qed (use a in \<open>simp_all add: truthful_def is_unknown_def\<close>)
  next
    case 2
    then have "t \<in> mb_ticket ` set (staged p)" by (auto simp: refusals_def)
    then have "t \<notin> mb_ticket ` set (take k ms)" using dis set_take_subset [of k ms] by auto
    then show ?thesis using 2 by (auto simp: truthful_def refusals_def)
  qed
qed

lemma pipeline_take_group:
  assumes "coherent w" "take_group (w_pending w) = (ms, q)" "\<not> flushing (w_pending w)"
  shows "pipeline ((w_pending_set q w)\<lparr>w_flying := ms\<rparr>) = pipeline w"
  using assms take_group_fields(1) [OF assms(2)]
  by (simp add: pipeline_def coherent_def Let_def)

lemma ticketed_take_group:
  assumes "coherent w" "ticketed backend w" "take_group (w_pending w) = (ms, q)" "\<not> flushing (w_pending w)"
  shows "ticketed backend ((w_pending_set q w)\<lparr>w_flying := ms\<rparr>)"
proof -
  have so: "staged_ops (w_pending w) = recorded_ops (map mb_batch (staged (w_pending w)))"
    using assms(1) by (simp add: coherent_def Let_def)
  note f = take_group_fields [OF assms(3) so]
  show ?thesis using assms(2) pipeline_take_group [OF assms(1,3,4)] f
    by (simp add: ticketed_def pipeline_tickets_def waiting_def Let_def)
qed

lemma pipeline_settles:
  "pipeline (settle_group backend outcome k w)
    = (if falls_short outcome (length (w_flying w)) then [] else staged (w_pending w))"
  using flush_record_fields [OF refl, of "w_flying w" backend outcome "w_pending w"]
  by (simp add: settle_group_def pipeline_def Let_def)

lemma ticketed_settles:
  assumes tk: "ticketed backend w" and ends: "engine_ends m (map mb_batch (w_flying w)) outcome k"
  shows "ticketed backend (settle_group backend outcome k w)"
proof -
  let ?p = "w_pending w" and ?F = "w_flying w" and ?w = "settle_group backend outcome k w"
  let ?q = "flush_record ?F backend outcome ?p" and ?as = "all_answers ?F backend outcome ?p"
  let ?L = "mb_ticket ` set (take k ?F)"
  note f = flush_record_fields [OF refl, of ?F backend outcome ?p]
  have d: "distinct (map mb_ticket (?F @ staged ?p))"
    using tk by (simp add: ticketed_def pipeline_def Let_def)
  have das: "distinct (map fst ?as)" using d by (simp add: all_answers_tickets)
  have tas: "fst ` set ?as = pipeline_tickets w - pipeline_tickets ?w"
  proof -
    have "fst ` set ?as = set (map fst ?as)" by simp
    also have "\<dots> = pipeline_tickets w - pipeline_tickets ?w"
      using d unfolding all_answers_tickets pipeline_tickets_def pipeline_settles by (auto simp: pipeline_def)
    finally show ?thesis .
  qed
  have sub: "pipeline_tickets ?w \<subseteq> pipeline_tickets w"
    by (auto simp: pipeline_tickets_def pipeline_settles) (auto simp: pipeline_def)
  have new: "?L \<subseteq> pipeline_tickets w - pipeline_tickets ?w"
    using d set_take_subset [of k ?F]
    unfolding pipeline_tickets_def pipeline_settles by (auto simp: pipeline_def)
  have w: "w_pending ?w = ?q" "w_told ?w = w_told w" "w_left ?w = w_left w"
    "w_tickets ?w = w_tickets w \<union> ?L" "waiting ?w = waiting w"
    by (simp_all add: settle_group_def Let_def waiting_def fun_eq_iff f(5))
  have ans: "answers ?q t = (case map_of ?as t of
      Some a \<Rightarrow> if t \<in> gone ?p then answers ?p t else Some a | None \<Rightarrow> answers ?p t)" for t
    unfolding f(8) by (rule answers_answer_all [OF das])
  have gn: "gone ?q \<subseteq> gone ?p" unfolding f(9) answers_answer_all(2) [OF das] by auto
  have none: "map_of ?as t = None \<longleftrightarrow> t \<notin> pipeline_tickets w - pipeline_tickets ?w" for t
    using tas by (simp add: map_of_eq_None_iff)
  note D = ticketedD [OF tk]
  have tr: "truthful backend (w_tickets w \<union> ?L) t a" if "map_of ?as t = Some a" for t a
  proof -
    have "t \<in> pipeline_tickets w" using that none [of t] by auto
    then have "t \<notin> w_tickets w" by (rule D)
    then show ?thesis
      using all_answers_truthful [OF ends d map_of_SomeD [OF that]] by (auto simp: truthful_def split: sum.splits)
  qed
  have old: "truthful backend (w_tickets w \<union> ?L) t a"
    if "truthful backend (w_tickets w) t a" "t \<notin> pipeline_tickets w \<or> is_stop a" for t a
    using that new by (auto simp: truthful_def split: sum.splits)
  show ?thesis unfolding ticketed_def Let_def w
  proof (intro conjI allI impI ballI)
    show "distinct (map mb_ticket (pipeline ?w))" using d by (simp add: pipeline_settles)
    show "gone ?q \<subseteq> w_left w \<union> dom (w_told w)" using gn D(5) by (auto dest!: subsetD)
  next
    fix t assume t: "t \<in> pipeline_tickets ?w"
    then have "map_of ?as t = None" using none by blast
    then show "answers ?q t = None" using ans [of t] D(2) [of t] t sub by auto
    show "t \<notin> w_tickets w \<union> ?L" using D(3) [of t] t sub new by blast
  next
    fix t assume "t \<in> pipeline_tickets ?w \<or> answers ?q t \<noteq> None \<or> w_told w t \<noteq> None \<or> t \<in> w_left w
      \<or> t \<in> w_tickets w \<union> ?L"
    then have "t \<in> pipeline_tickets w \<or> answers ?p t \<noteq> None \<or> w_told w t \<noteq> None \<or> t \<in> w_left w \<or> t \<in> w_tickets w"
      using sub new ans [of t] none [of t] by (cases "map_of ?as t") auto
    then show "t < next_ticket ?q" unfolding f(5) by (rule D(4))
  next
    fix t assume t: "waiting w t"
    then have "t \<notin> gone ?p" using D(5) [of t] by (auto simp: waiting_def)
    moreover have "t \<in> pipeline_tickets w \<or> answers ?p t \<noteq> None" using D(6) t by blast
    ultimately show "t \<in> pipeline_tickets ?w \<or> answers ?q t \<noteq> None"
      using ans [of t] none [of t] by (cases "map_of ?as t") auto
  next
    fix t a assume "w_told w t = Some a"
    then show "is_stop a \<or> t \<notin> pipeline_tickets ?w" using D(7) [of t a] sub by blast
  next
    fix t a assume "answers ?q t = Some a \<or> w_told w t = Some a"
    then consider "map_of ?as t = Some a" | "answers ?p t = Some a" | "w_told w t = Some a"
      using ans [of t] by (cases "map_of ?as t") (auto split: if_splits)
    then show "truthful backend (w_tickets w \<union> ?L) t a"
    proof cases
      case 2
      then have "t \<notin> pipeline_tickets w" using D(2) [of t] by auto
      then show ?thesis using old D(8) [OF 2] by blast
    next
      case 3
      then show ?thesis using old D(9) [OF 3] D(7) [OF 3] by blast
    qed (rule tr)
  qed
qed

lemma ticketed_frame:
  assumes "ticketed backend w" "staged (w_pending w') = staged (w_pending w)" "w_flying w' = w_flying w"
    "answers (w_pending w') = answers (w_pending w)" "gone (w_pending w') = gone (w_pending w)"
    "next_ticket (w_pending w') = next_ticket (w_pending w)" "w_told w' = w_told w" "w_left w' = w_left w"
    "w_tickets w' = w_tickets w"
  shows "ticketed backend w'"
  using assms(1)
  unfolding ticketed_def pipeline_tickets_def pipeline_def waiting_def Let_def assms(2-) .

lemma ticketed_stage:
  assumes tk: "ticketed backend w" and b: "gate_stage b v (w_gate w) = (t, g)" "next_ticket (w_pending w) < u64_max"
  shows "ticketed backend (w\<lparr>w_gate := g, w_read := r, w_shown := f, w_looks := [], w_clean := True,
    w_before := e\<rparr>)" (is "ticketed backend ?w")
proof -
  note D = ticketedD [OF tk]
  let ?p = "w_pending w"
  have t: "t = next_ticket ?p" and g: "g_pending g = snd (stage b v ?p)"
    using gate_stage_fields [OF b(1)] by simp_all
  have nx: "next_ticket (g_pending g) = Suc t" "answers (g_pending g) = answers ?p" "gone (g_pending g) = gone ?p"
    using b(2) by (simp_all add: g stage_def Let_def saturating_add_def t)
  obtain m where m: "pipeline ?w = pipeline w @ [m]" "mb_ticket m = t"
    by (auto simp: pipeline_def g stage_def Let_def t)
  have pt: "pipeline_tickets ?w = insert t (pipeline_tickets w)" by (simp add: pipeline_tickets_def m)
  have fresh: "t \<notin> pipeline_tickets w" "answers ?p t = None" "w_told w t = None" "t \<notin> w_left w" "t \<notin> w_tickets w"
    using D(4) [of t] less_irrefl unfolding t by blast+
  have W: "waiting ?w u \<longleftrightarrow> u = t \<or> waiting w u" for u
    using fresh by (auto simp: waiting_def nx t [symmetric] less_Suc_eq)
  show ?thesis unfolding ticketed_def Let_def pt W
  proof (intro conjI allI impI ballI)
    show "distinct (map mb_ticket (pipeline ?w))"
      using D(1) fresh(1) by (auto simp: m pipeline_tickets_def)
    show "gone (w_pending ?w) \<subseteq> w_left ?w \<union> dom (w_told ?w)" using D(5) by (auto simp: nx)
  next
    fix u assume "u \<in> insert t (pipeline_tickets w)"
    then show "answers (w_pending ?w) u = None" "u \<notin> w_tickets ?w"
      using fresh D(2,3) by (auto simp: nx)
  next
    fix u assume "u \<in> insert t (pipeline_tickets w) \<or> answers (w_pending ?w) u \<noteq> None \<or> w_told ?w u \<noteq> None
      \<or> u \<in> w_left ?w \<or> u \<in> w_tickets ?w"
    then have "u = t \<or> u < next_ticket ?p" using D(4) [of u] by (auto simp: nx)
    then show "u < next_ticket (w_pending ?w)" by (auto simp: nx t)
  next
    fix u assume "u = t \<or> waiting w u"
    then show "u \<in> insert t (pipeline_tickets w) \<or> answers (w_pending ?w) u \<noteq> None"
      using D(6) [of u] by (auto simp: nx)
  next
    fix u a assume "w_told ?w u = Some a"
    then show "is_stop a \<or> u \<notin> insert t (pipeline_tickets w)" using D(7) [of u a] fresh(3) by auto
  next
    fix u a assume "answers (w_pending ?w) u = Some a \<or> w_told ?w u = Some a"
    then show "truthful backend (w_tickets ?w) u a" using D(8,9) [of u a] by (auto simp: nx)
  qed
qed

text \<open>A ticket that is answered, dropped or refused by a stop waits no longer.\<close>

lemma ticketed_ends:
  assumes tk: "ticketed backend w"
    and f: "staged (w_pending w') = staged (w_pending w)" "w_flying w' = w_flying w"
      "next_ticket (w_pending w') = next_ticket (w_pending w)" "w_tickets w' = w_tickets w"
    and t: "t < next_ticket (w_pending w)"
      "\<And>u. answers (w_pending w') u = (if u = t then None else answers (w_pending w) u)"
      "gone (w_pending w') \<subseteq> insert t (gone (w_pending w))"
      "\<And>u. u \<noteq> t \<Longrightarrow> w_told w' u = w_told w u" "w_left w \<subseteq> w_left w'" "w_left w' \<subseteq> insert t (w_left w)"
      "t \<in> w_left w' \<or> w_told w' t \<noteq> None"
      "\<And>a. w_told w' t = Some a \<Longrightarrow> (is_stop a \<or> t \<notin> pipeline_tickets w) \<and> truthful backend (w_tickets w) t a"
  shows "ticketed backend w'"
proof -
  note D = ticketedD [OF tk]
  have pl: "pipeline w' = pipeline w" "pipeline_tickets w' = pipeline_tickets w"
    by (simp_all add: pipeline_def pipeline_tickets_def f)
  show ?thesis unfolding ticketed_def Let_def pl f
  proof (intro conjI allI impI ballI)
    show "distinct (map mb_ticket (pipeline w))" by (rule D)
    show "gone (w_pending w') \<subseteq> w_left w' \<union> dom (w_told w')"
    proof
      fix u assume "u \<in> gone (w_pending w')"
      then have "u = t \<or> u \<in> w_left w \<or> w_told w u \<noteq> None" using t(3) D(5) [of u] by auto
      then show "u \<in> w_left w' \<union> dom (w_told w')" using t(4) [of u] t(5,7) by (cases "u = t") auto
    qed
  next
    fix u assume "u \<in> pipeline_tickets w"
    then show "answers (w_pending w') u = None" "u \<notin> w_tickets w" using D(2,3) [of u] t(2) [of u] by auto
  next
    fix u assume "u \<in> pipeline_tickets w \<or> answers (w_pending w') u \<noteq> None \<or> w_told w' u \<noteq> None
      \<or> u \<in> w_left w' \<or> u \<in> w_tickets w"
    then have "u = t \<or> u \<in> pipeline_tickets w \<or> answers (w_pending w) u \<noteq> None \<or> w_told w u \<noteq> None
      \<or> u \<in> w_left w \<or> u \<in> w_tickets w"
      using t(2) [of u] t(4) [of u] t(6) by (auto split: if_splits)
    then show "u < next_ticket (w_pending w)" using D(4) [of u] t(1) by blast
  next
    fix u assume "waiting w' u"
    then have "u \<noteq> t" using t(7) by (auto simp: waiting_def)
    then have "waiting w u" using \<open>waiting w' u\<close> t(4) [of u] t(5) f(3) by (auto simp: waiting_def)
    then show "u \<in> pipeline_tickets w \<or> answers (w_pending w') u \<noteq> None"
      using D(6) [of u] t(2) [of u] \<open>u \<noteq> t\<close> by auto
  next
    fix u a assume "w_told w' u = Some a"
    then show "is_stop a \<or> u \<notin> pipeline_tickets w" using D(7) [of u a] t(4) [of u] t(8) [of a] by (cases "u = t") auto
  next
    fix u a assume "answers (w_pending w') u = Some a \<or> w_told w' u = Some a"
    then show "truthful backend (w_tickets w) u a"
      using D(8,9) [of u a] t(2) [of u] t(4) [of u] t(8) [of a] by (cases "u = t") auto
  qed
qed

lemma ticketed_step:
  assumes "gate_step text_of backend w w'" "coherent w" "ticketed backend w"
  shows "ticketed backend w'"
  using assms(1)
proof cases
  case (takes_group t ms p)
  then show ?thesis using ticketed_take_group [OF assms(2,3)] land_look_Land [OF takes_group(3)] by simp
next
  case (lands_all h ms p)
  then show ?thesis using ticketed_take_group [OF assms(2,3)] land_all_look_Land [OF lands_all(3)] by simp
next
  case (settles outcome k)
  then show ?thesis using ticketed_settles [OF assms(3)] by simp
next
  case (stages h onto n b ticket g)
  then show ?thesis using ticketed_stage [OF assms(3)] by simp
next
  case (takes_turn h g)
  show ?thesis unfolding takes_turn(1)
    by (rule ticketed_frame [OF assms(3)]) (simp_all add: hold_fields [OF takes_turn(2)])
next
  case (collects t a p)
  note c = land_look_Collected [OF collects(3)]
  have "t \<notin> pipeline_tickets w" using ticketedD(2) [OF assms(3), of t] c(1) by auto
  then show ?thesis unfolding collects(1)
    using collects(2) ticketedD(8) [OF assms(3) c(1)]
    by (intro ticketed_ends [OF assms(3), where t = t]) (auto simp: c waiting_def)
next
  case (leaves t)
  then show ?thesis unfolding leaves(1)
    by (intro ticketed_ends [OF assms(3), where t = t]) (auto simp: waiting_def drop_ticket_answers
        dest: subsetD [OF drop_ticket_answers(2)])
next
  case (meets_a_stop t g e)
  note c = land_enter_Inl [OF meets_a_stop(3)]
  show ?thesis unfolding meets_a_stop(1)
    using meets_a_stop(2) c(1)
    by (intro ticketed_ends [OF assms(3), where t = t]) (auto simp: c(2) waiting_def drop_ticket_answers
        truthful_def is_stop_def dest: subsetD [OF drop_ticket_answers(2)])
next
  case (applies h onto n b p how m g)
  show ?thesis unfolding applies(1)
    by (rule ticketed_frame [OF assms(3)]) (simp_all add: gate_apply_fields(1) [OF applies(6)])
next
  case (applies_not h p how b m g e)
  show ?thesis unfolding applies_not(1)
    by (rule ticketed_frame [OF assms(3)]) (simp_all add: gate_apply_fields(1) [OF applies_not(4)])
qed (rule ticketed_frame [OF assms(3)]; simp)+

section \<open>Every step keeps the order\<close>

lemma serial_frame:
  assumes "serial w" and pl: "pipeline w' = pipeline w"
    and f: "w_engine w' META version_key = w_engine w META version_key" "w_read w' = None \<or> w_read w' = w_read w"
    "w_shown w' = w_shown w" "w_landed w' = w_landed w" "w_account w' = w_account w"
    "landed_version (w_pending w') = landed_version (w_pending w)"
  shows "serial w'"
proof -
  have rd: "read_right ne first w \<Longrightarrow> read_right ne first w'" for ne first
    using f(2) unfolding read_right_def pl f(4) by (cases "w_read w' = None") auto
  have "serial w \<longrightarrow> serial w'"
    unfolding serial_def accounted_def shown_right_def versions_right_def at_version_def pl f(1,3-)
    using rd by blast
  then show ?thesis using assms(1) by blast
qed

lemma committed_version_at:
  assumes "at_version m n" "committed_version (\<lambda>ks k. Inr (m ks k)) = Inr v"
  shows "unat v = n"
proof -
  have "v = of_nat n"
    using assms by (auto simp: at_version_def committed_version_def get_decoded_def version_key_def
        sequence_round_trip)
  then show ?thesis using assms(1) unat_u64 unfolding at_version_def by blast
qed

lemma serial_reads:
  assumes "serial w" "coherent w"
    "committed_version (\<lambda>ks k. Inr (view_of (w_pending w) (w_engine w) ks k)) = Inr v"
  shows "serial (w\<lparr>w_gate := keep_version v (w_gate w),
    w_read := Some (visible w, unat v), w_looks := ls\<rparr>)" (is "serial ?w")
proof -
  obtain ne first where i: "at_version (w_engine w) ne" "ne \<le> first" "chain_from first (pipeline w)"
    "pipeline w = [] \<longrightarrow> first = ne" "first = ne \<longrightarrow> shown_right w" "versions_right ne w" "accounted w"
    using assms(1) unfolding serial_def by blast
  let ?V = "view_of (w_pending w) (w_engine w)"
  have "at_version ?V (first + length (pipeline w))"
  proof (cases "pipeline w")
    case Nil
    then show ?thesis using i coherent_view(1) [OF assms(2)] by simp
  next
    case (Cons m ms)
    then have "at_version (map_ops (ops (mb_batch m)) (w_engine w)) (first + 1)"
      using i(3) moves_at_version by simp
    then have "at_version (map_ops (batches_ops (map mb_batch ms)) (map_ops (ops (mb_batch m)) (w_engine w)))
        (first + 1 + length ms)"
      using i(3) Cons by (intro chain_at_version) simp_all
    then show ?thesis using coherent_view(1) [OF assms(2), of "w_engine w"] Cons by (simp add: map_ops_append)
  qed
  then have "unat v = first + length (pipeline w)" using assms(3) by (rule committed_version_at)
  moreover have pl: "pipeline ?w = pipeline w" by (simp add: pipeline_def)
  ultimately show ?thesis
    using i
    by (intro serialI [where ne = ne and first = first])
      (auto simp: pl accounted_def shown_right_def read_right_def versions_right_def visible_def)
qed

lemma serial_stage:
  assumes s: "serial w" and tk: "ticketed backend w" and rd: "w_read w = Some (onto, n)" and mv: "moves n b"
    and st: "gate_stage b (of_nat (n + 1)) (w_gate w) = (t, g)"
  shows "serial (w\<lparr>w_gate := g, w_read := None, w_shown := (w_shown w)(t := onto), w_looks := [],
    w_clean := True, w_before := e\<rparr>)" (is "serial ?w")
proof -
  obtain ne first where i: "at_version (w_engine w) ne" "ne \<le> first" "chain_from first (pipeline w)"
    "pipeline w = [] \<longrightarrow> first = ne" "first = ne \<longrightarrow> shown_right w" "versions_right ne w" "accounted w"
    "read_right ne first w"
    using s unfolding serial_def by blast
  note g = gate_stage_fields [OF st]
  obtain m where m: "pipeline ?w = pipeline w @ [m]" "mb_ticket m = t" "mb_batch m = b" "mb_version m = of_nat (n + 1)"
    by (auto simp: pipeline_def g stage_def Let_def)
  have fresh: "t \<notin> pipeline_tickets w"
    using ticketedD(4) [OF tk, of t] g(1) by blast
  have V: "versions_right ne ?w" using i(6) by (simp add: versions_right_def g stage_def Let_def)
  have A: "accounted ?w" using i(7) by (simp add: accounted_def)
  consider "n = first + length (pipeline w)" "first = ne \<longrightarrow> onto = w_landed w @ map item_of (pipeline w)"
    | "pipeline w = []" "ne < n"
    using i(8) by (auto simp: read_right_def rd)
  then show ?thesis
  proof cases
    case 1
    have "shown_right ?w" if "first = ne"
    proof -
      have "w_shown ?w (mb_ticket (pipeline ?w ! j)) = w_landed w @ map item_of (take j (pipeline ?w))"
        if j: "j < length (pipeline ?w)" for j
      proof (cases "j = length (pipeline w)")
        case True
        then show ?thesis unfolding m(1) using 1(2) \<open>first = ne\<close> by (simp add: m(2))
      next
        case False
        then have "j < length (pipeline w)" using j by (simp add: m)
        moreover from this have "mb_ticket (pipeline w ! j) \<noteq> t" using fresh by (auto simp: pipeline_tickets_def)
        ultimately show ?thesis
          unfolding m(1) using i(5) \<open>first = ne\<close> by (simp add: nth_append shown_right_def)
      qed
      then show ?thesis by (simp add: shown_right_def)
    qed
    then show ?thesis
      using i(1-3) 1(1) mv A V
      by (intro serialI [where ne = ne and first = first])
        (simp_all add: m chain_from_append read_right_def)
  next
    case 2
    then show ?thesis
      using i(1) mv A V
      by (intro serialI [where ne = ne and first = n]) (simp_all add: m read_right_def)
  qed
qed

lemma serial_take_group:
  assumes "serial w" "coherent w" "take_group (w_pending w) = (ms, q)" "\<not> flushing (w_pending w)"
  shows "serial ((w_pending_set q w)\<lparr>w_flying := ms\<rparr>)" (is "serial ?w")
proof -
  have so: "staged_ops (w_pending w) = recorded_ops (map mb_batch (staged (w_pending w)))"
    using assms(2) by (simp add: coherent_def Let_def)
  show ?thesis
    by (rule serial_frame [OF assms(1) pipeline_take_group [OF assms(2-)]])
      (simp_all add: take_group_fields(9) [OF assms(3) so])
qed

lemma newest_le: "newest vs = Some v \<Longrightarrow> v \<in> set vs"
proof (cases vs)
  case (Cons x xs)
  have "foldl max x xs \<in> insert x (set xs)" for x :: u64 and xs
  proof (induction xs arbitrary: x)
    case (Cons y ys)
    then show ?case using Cons.IH [of "max x y"] by (auto simp: max_def split: if_splits)
  qed simp
  then show "newest vs = Some v \<Longrightarrow> v \<in> set vs" using Cons by (auto simp: newest_def)
qed (simp add: newest_def)

lemma chain_versions:
  assumes "chain_from n ms" "m \<in> set ms"
  shows "unat (mb_version m) \<le> n + length ms"
  using assms
proof (induction ms arbitrary: n)
  case (Cons x ms)
  have "unat (mb_version x) = n + 1"
    using Cons.prems(1) unat_u64 [of "n + 1"] unfolding chain_from.simps moves_def by (simp only: simp_thms)
  then show ?case using Cons.IH [of "n + 1"] Cons.prems by auto
qed simp

lemma serial_settles:
  assumes s: "serial w" and co: "coherent w" and fl: "flushing (w_pending w)"
    and ends: "engine_ends (w_engine w) (map mb_batch (w_flying w)) outcome k"
  shows "serial (settle_group backend outcome k w)" (is "serial ?w")
proof -
  let ?F = "w_flying w" and ?S = "staged (w_pending w)"
  obtain ne first where i: "at_version (w_engine w) ne" "ne \<le> first" "chain_from first (?F @ ?S)"
    "first = ne \<longrightarrow> shown_right w" "versions_right ne w" "accounted w" "read_right ne first w"
    using s unfolding serial_def pipeline_def by blast
  have ne: "?F \<noteq> []" using co fl by (simp add: coherent_def Let_def)
  have k: "k \<le> length ?F" "\<not> falls_short outcome (length ?F) \<Longrightarrow> k = length ?F"
    "outcome_landed outcome = k \<or> outcome_landed outcome = 0" "k \<le> length (accepted (w_engine w) (map mb_batch ?F))"
    using engine_ends_cases [OF ends] by simp_all
  have k0: "k = 0" if "first \<noteq> ne"
    using k(4) chain_refused [of first ?F "w_engine w" ne] i(1,3) that by (simp add: chain_from_append)
  have c: "chain_from first (take k ?F)" "chain_from (first + length ?F) ?S"
    using i(3) chain_from_append [of first "take k ?F" "drop k ?F"] by (simp_all add: chain_from_append)
  have pl: "pipeline ?w = (if falls_short outcome (length ?F) then [] else ?S)" by (rule pipeline_settles)
  have e: "at_version (w_engine ?w) (ne + k)"
    using chain_at_version [OF c(1)] i(1) k0 k(1) by (cases "first = ne") (simp_all add: settle_group_def Let_def)
  have L: "w_landed ?w = w_landed w @ map item_of (take k ?F)" "w_shown ?w = w_shown w" "w_read ?w = w_read w"
    by (simp_all add: settle_group_def Let_def)
  have A: "accounted ?w"
  proof (rule accounted_append [OF i(6), where xs = "map item_of (take k ?F)"])
    fix j assume j: "j < length (map item_of (take k ?F))"
    then have jk: "j < length ?F" "j < k" "j \<le> k" by simp_all
    then have "first = ne" using k0 by (cases "first = ne") auto
    then have "w_shown w (mb_ticket (pipeline w ! j)) = w_landed w @ map item_of (take j (pipeline w))"
      using i(4) j by (simp add: shown_right_def pipeline_def)
    then show "map (\<lambda>m. (w_shown w (mb_ticket m), item_of m)) (take k ?F) ! j
        = (w_landed w @ take j (map item_of (take k ?F)), map item_of (take k ?F) ! j)"
      using jk j by (simp add: pipeline_def nth_append take_map min_absorb1)
  qed (simp_all add: settle_group_def Let_def)
  have V: "versions_right (ne + k) ?w"
  proof -
    have new: "unat (mb_version m) \<le> ne + k" if "m \<in> set (take k ?F)" for m
      using chain_versions [OF c(1) that] k(1) k0 that by (cases "first = ne") auto
    have "unat (landed_version (flush_record ?F backend outcome (w_pending w))) \<le> ne + k"
    proof (cases "newest (map mb_version (take (outcome_landed outcome) ?F))")
      case None
      then show ?thesis using i(5) by (simp add: flush_record_fields(7) [OF refl] versions_right_def)
    next
      case (Some v)
      then have "v \<in> mb_version ` set (take k ?F)" using newest_le [OF Some] k(3) by auto
      then have "unat v \<le> ne + k" using new by auto
      then show ?thesis using i(5) Some
        by (simp add: flush_record_fields(7) [OF refl] versions_right_def max_def)
    qed
    then show ?thesis using i(5) new
      by (auto simp: versions_right_def settle_group_def Let_def item_of_def)
  qed
  show ?thesis
  proof (cases "falls_short outcome (length ?F)")
    case True
    have "read_right (ne + k) (ne + k) ?w"
    proof (cases "w_read w")
      case (Some r)
      obtain onto n where r: "r = (onto, n)" by (cases r)
      have n: "n = first + length (?F @ ?S)" "first = ne \<longrightarrow> onto = w_landed w @ map item_of (?F @ ?S)"
        using i(7) ne by (auto simp: read_right_def Some r pipeline_def)
      show ?thesis
      proof (cases "ne + k < n")
        case False
        then have "first + (length ?F + length ?S) \<le> ne + k" using n(1) by simp
        then have "first = ne" "k = length ?F" "length ?S = 0" using k(1) i(2) by linarith+
        then show ?thesis unfolding read_right_def L pl Some r using n True by simp
      qed (simp add: read_right_def L Some r pl True)
    qed (simp add: read_right_def L)
    then show ?thesis
      using A V e True pl by (intro serialI [where ne = "ne + k" and first = "ne + k"])
        (simp_all add: shown_right_def)
  next
    case False
    then have kF: "k = length ?F" using k(2) by blast
    then have fe: "first = ne" using k0 ne by force
    have "shown_right ?w"
    proof -
      have "w_shown w (mb_ticket (?S ! j)) = w_landed w @ map item_of ?F @ map item_of (take j ?S)"
        if "j < length ?S" for j
        using i(4) fe that
        by (auto simp: shown_right_def pipeline_def nth_append dest!: spec [of _ "length ?F + j"])
      then show ?thesis unfolding shown_right_def pl L using False kF by simp
    qed
    moreover have "read_right (ne + k) (ne + k) ?w"
      unfolding read_right_def L pl using i(7) ne fe kF False
      by (auto simp: read_right_def pipeline_def split: option.splits)
    moreover have "chain_from (ne + k) (pipeline ?w)" unfolding pl using c(2) fe kF False by simp
    ultimately show ?thesis
      using A V e by (intro serialI [where ne = "ne + k" and first = "ne + k"]) blast+
  qed
qed

lemma serial_applies:
  assumes s: "serial w" and rd: "w_read w = Some (onto, n)" and mv: "moves n b" and co: "coherent w"
    and idle: "land_all_look (w_pending w) = (None, p)"
    and ap: "gate_apply text_of engine_apply engine_apply how b (w_engine w) (w_gate w) = ((m, g), Inr ())"
  shows "serial (w\<lparr>w_gate := landed_at (of_nat (n + 1)) g, w_read := None, w_engine := m,
         w_landed := w_landed w @ [(of_nat (n + 1), b)],
         w_account := w_account w @ [(onto, (of_nat (n + 1), b))], w_looks := [], w_clean := True,
         w_prior := ps\<rparr>)" (is "serial ?w")
proof -
  have pl: "pipeline w = []"
    using land_all_look_None [OF idle] co by (simp add: pipeline_def coherent_def Let_def)
  have g: "g_pending g = w_pending w" "list_all (holds_pre (w_engine w)) (preconditions b)"
    "m = map_ops (ops b) (w_engine w)"
    using gate_apply_fields [OF ap] by simp_all
  have pw: "pipeline ?w = []" using pl by (simp add: pipeline_def g)
  obtain ne where i: "at_version (w_engine w) ne" "versions_right ne w" "accounted w" "read_right ne ne w"
    using s pl unfolding serial_def by auto
  have n: "n = ne" using moves_holds [OF mv i(1) g(2)] .
  then have onto: "onto = w_landed w" using i(4) rd by (simp add: read_right_def pl)
  have u: "unat (of_nat (n + 1) :: u64) = n + 1" using mv unat_u64 [of "n + 1"] unfolding moves_def by blast
  have "versions_right (ne + 1) ?w"
    using i(2) u unfolding n by (auto simp: versions_right_def g(1) max_def)
  moreover have "accounted ?w"
    by (rule accounted_append [OF i(3), where xs = "[(of_nat (n + 1), b)]"]) (simp_all add: onto)
  moreover have "at_version (w_engine ?w) (ne + 1)" using moves_at_version [OF mv] n g(3) by simp
  ultimately show ?thesis
    using pw by (intro serialI [where ne = "ne + 1" and first = "ne + 1"])
      (simp_all add: shown_right_def read_right_def)
qed

lemma serial_publishes:
  assumes "serial w" "(v, b) \<in> set (w_landed w)"
  shows "serial (w\<lparr>w_gate := landed_at v (w_gate w)\<rparr>)" (is "serial ?w")
proof -
  obtain ne first where i: "at_version (w_engine w) ne" "ne \<le> first" "chain_from first (pipeline w)"
    "pipeline w = [] \<longrightarrow> first = ne" "first = ne \<longrightarrow> shown_right w" "versions_right ne w" "accounted w"
    "read_right ne first w"
    using assms(1) unfolding serial_def by blast
  have pl: "pipeline ?w = pipeline w" by (simp add: pipeline_def)
  have rd: "read_right ne first ?w = read_right ne first w" unfolding read_right_def pl by (cases "w_read w") simp_all
  have "versions_right ne ?w" using i(6) assms(2) by (auto simp: versions_right_def max_def)
  then show ?thesis
    using i by (intro serialI [where ne = ne and first = first])
      (simp_all add: pl rd accounted_def shown_right_def)
qed

lemma serial_step:
  assumes "gate_step text_of backend w w'" "coherent w" "ticketed backend w" "serial w"
  shows "serial w'"
  using assms(1)
proof cases
  case (takes_group t ms p)
  then show ?thesis using serial_take_group [OF assms(4,2)] land_look_Land [OF takes_group(3)] by simp
next
  case (lands_all h ms p)
  then show ?thesis using serial_take_group [OF assms(4,2)] land_all_look_Land [OF lands_all(3)] by simp
next
  case (settles outcome k)
  then show ?thesis using serial_settles [OF assms(4,2)] by simp
next
  case (stages h onto n b ticket g)
  show ?thesis unfolding stages(1) by (rule serial_stage [OF assms(4,3) stages(3,4,6)])
next
  case (reads_version h v)
  show ?thesis unfolding reads_version(1) by (rule serial_reads [OF assms(4,2) reads_version(3)])
next
  case (takes_turn h g)
  show ?thesis unfolding takes_turn(1)
    by (rule serial_frame [OF assms(4)]) (simp_all add: pipeline_def hold_fields [OF takes_turn(2)])
next
  case (collects t a p)
  show ?thesis unfolding collects(1)
    by (rule serial_frame [OF assms(4)]) (simp_all add: pipeline_def land_look_Collected(2) [OF collects(3)])
next
  case (meets_a_stop t g e)
  show ?thesis unfolding meets_a_stop(1)
    by (rule serial_frame [OF assms(4)]) (simp_all add: pipeline_def land_enter_Inl(2) [OF meets_a_stop(3)])
next
  case (applies h onto n b p how m g)
  show ?thesis unfolding applies(1)
    by (rule serial_applies [OF assms(4) applies(3,4) assms(2) applies(5,6)])
next
  case (applies_not h p how b m g e)
  show ?thesis unfolding applies_not(1)
    by (rule serial_frame [OF assms(4)])
      (simp_all add: pipeline_def gate_apply_fields(1,4) [OF applies_not(4)])
next
  case (publishes v b)
  show ?thesis unfolding publishes(1) by (rule serial_publishes [OF assms(4) publishes(2)])
next
  case (elsewhere m)
  show ?thesis unfolding elsewhere(1)
    by (rule serial_frame [OF assms(4)]) (simp_all add: pipeline_def elsewhere(2))
qed (rule serial_frame [OF assms(4)]; simp add: pipeline_def)+

section \<open>What every read of a turn showed\<close>

text \<open>A read shows the batches landed and under way.  Groups that land whole leave that as it
is; one that falls short takes batches off its end.  So what a read of the turn showed
begins with what is visible now, and is that when no group fell short since.\<close>

definition shows_at_least :: "item list \<Rightarrow> item list list \<times> bool \<Rightarrow> bool" where
  "shows_at_least xs reads \<longleftrightarrow>
    (\<forall>L \<in> set (fst reads). (\<exists>more. L = xs @ more) \<and> (snd reads \<longrightarrow> L = xs))"

definition looked :: "'h world \<Rightarrow> bool" where
  "looked w \<longleftrightarrow> shows_at_least (visible w) (w_looks w, w_clean w)
    \<and> (\<forall>i < length (pipeline w).
         shows_at_least (w_landed w @ map item_of (take i (pipeline w))) (w_before w (mb_ticket (pipeline w ! i))))
    \<and> length (w_prior w) = length (w_landed w)
    \<and> (\<forall>i < length (w_landed w). shows_at_least (take i (w_landed w)) (w_prior w ! i))"

lemma shows_at_least_Nil [simp]: "shows_at_least xs ([], c)"
  by (simp add: shows_at_least_def)

lemma shows_at_least_fewer:
  assumes "shows_at_least (xs @ ys) (Ls, c)" "c' \<longrightarrow> c \<and> ys = []"
  shows "shows_at_least xs (Ls, c')"
  using assms by (auto simp: shows_at_least_def)

lemma looked_frame:
  assumes "looked w" "pipeline w' = pipeline w" "w_landed w' = w_landed w" "w_before w' = w_before w"
    "w_prior w' = w_prior w"
    "w_looks w' = [] \<or> w_looks w' = w_looks w \<and> w_clean w' = w_clean w"
  shows "looked w'"
  using assms unfolding looked_def visible_def by (elim disjE) simp_all

lemma looked_looks:
  assumes "looked w" "pipeline w' = pipeline w" "w_landed w' = w_landed w" "w_before w' = w_before w"
    "w_prior w' = w_prior w" "w_looks w' = w_looks w @ [visible w]" "w_clean w' = w_clean w"
  shows "looked w'"
proof -
  have "visible w' = visible w" by (simp add: visible_def assms(2,3))
  then show ?thesis using assms by (auto simp: looked_def shows_at_least_def)
qed

lemma looked_stage:
  assumes lk: "looked w" and tk: "ticketed backend w" and st: "gate_stage b v (w_gate w) = (t, g)"
  shows "looked (w\<lparr>w_gate := g, w_read := r, w_shown := f, w_looks := [], w_clean := True,
    w_before := (w_before w)(t := (w_looks w, w_clean w))\<rparr>)" (is "looked ?w")
proof -
  note g = gate_stage_fields [OF st]
  obtain m where m: "pipeline ?w = pipeline w @ [m]" "mb_ticket m = t"
    by (auto simp: pipeline_def g stage_def Let_def)
  have fresh: "t \<notin> pipeline_tickets w" using ticketedD(4) [OF tk, of t] g(1) by blast
  have "shows_at_least (w_landed w @ map item_of (take i (pipeline ?w))) (w_before ?w (mb_ticket (pipeline ?w ! i)))"
    if i: "i < length (pipeline ?w)" for i
  proof (cases "i = length (pipeline w)")
    case True
    then show ?thesis unfolding m(1) using lk by (simp add: m(2) looked_def visible_def)
  next
    case False
    then have "i < length (pipeline w)" using i by (simp add: m)
    moreover from this have "mb_ticket (pipeline w ! i) \<noteq> t" using fresh by (auto simp: pipeline_tickets_def)
    ultimately show ?thesis unfolding m(1) using lk by (simp add: nth_append looked_def)
  qed
  then show ?thesis using lk by (simp add: looked_def)
qed

lemma looked_settles:
  assumes lk: "looked w" and ends: "engine_ends (w_engine w) (map mb_batch (w_flying w)) outcome k"
  shows "looked (settle_group backend outcome k w)" (is "looked ?w")
proof -
  let ?F = "w_flying w" and ?S = "staged (w_pending w)"
  have k: "k \<le> length ?F" "\<not> falls_short outcome (length ?F) \<Longrightarrow> k = length ?F"
    using engine_ends_cases [OF ends] by simp_all
  have pl: "pipeline ?w = (if falls_short outcome (length ?F) then [] else ?S)" by (rule pipeline_settles)
  have f: "w_landed ?w = w_landed w @ map item_of (take k ?F)" "w_looks ?w = w_looks w"
    "w_clean ?w = (w_clean w \<and> \<not> falls_short outcome (length ?F))" "w_before ?w = w_before w"
    "w_prior ?w = w_prior w @ map (\<lambda>m. w_before w (mb_ticket m)) (take k ?F)"
    by (simp_all add: settle_group_def Let_def)
  have old: "shows_at_least (visible w) (w_looks w, w_clean w)"
    "i < length (?F @ ?S) \<Longrightarrow>
      shows_at_least (w_landed w @ map item_of (take i (?F @ ?S))) (w_before w (mb_ticket ((?F @ ?S) ! i)))"
    "length (w_prior w) = length (w_landed w)"
    "i < length (w_landed w) \<Longrightarrow> shows_at_least (take i (w_landed w)) (w_prior w ! i)" for i
    using lk by (simp_all add: looked_def pipeline_def)
  have "shows_at_least (visible ?w) (w_looks w, w_clean ?w)"
  proof (rule shows_at_least_fewer)
    let ?rest = "if falls_short outcome (length ?F) then map item_of (drop k ?F @ ?S) else []"
    have "map item_of (take k ?F) @ map item_of (drop k ?F @ ?S) = map item_of (?F @ ?S)"
      unfolding map_append [symmetric] append_assoc [symmetric] append_take_drop_id ..
    moreover have "visible ?w = w_landed w @ map item_of (take k ?F)
        @ map item_of (if falls_short outcome (length ?F) then [] else ?S)"
      by (simp add: visible_def f(1) pl)
    ultimately have "visible w = visible ?w @ ?rest"
      using k(2) by (auto simp: visible_def [of w] pipeline_def [of w])
    then show "shows_at_least (visible ?w @ ?rest) (w_looks w, w_clean w)" using old(1) by simp
    show "w_clean ?w \<longrightarrow> w_clean w \<and> ?rest = []" by (simp add: f(3))
  qed
  moreover have "shows_at_least (w_landed ?w @ map item_of (take i (pipeline ?w)))
      (w_before w (mb_ticket (pipeline ?w ! i)))" if "i < length (pipeline ?w)" for i
  proof -
    have "\<not> falls_short outcome (length ?F)" using that pl by auto
    then show ?thesis unfolding f(1) pl using old(2) [of "length ?F + i"] that k(2) pl by simp
  qed
  moreover have "shows_at_least (take i (w_landed ?w)) (w_prior ?w ! i)" if "i < length (w_landed ?w)" for i
  proof (cases "i < length (w_landed w)")
    case True
    then show ?thesis using old(3,4) by (simp add: f nth_append)
  next
    case False
    then obtain j where j: "i = length (w_landed w) + j" "j < k" "j < length ?F"
      using \<open>i < length (w_landed ?w)\<close> k(1) by (metis f(1) add_diff_inverse_nat length_append length_map
          length_take min.absorb2 nat_add_left_cancel_less order.strict_trans2)
    then show ?thesis using old(2) [of j] old(3) by (simp add: f nth_append take_map min_absorb1)
  qed
  ultimately show ?thesis unfolding looked_def f(2,4) using old(3) k(1) by (simp add: f(1,5))
qed

lemma looked_applies:
  assumes lk: "looked w" and pl: "pipeline w = []" "pipeline w' = []"
    and f: "w_landed w' = w_landed w @ [x]" "w_prior w' = w_prior w @ [(w_looks w, w_clean w)]" "w_looks w' = []"
  shows "looked w'"
  using lk by (auto simp: looked_def visible_def pl f nth_append less_Suc_eq)

lemma looked_step:
  assumes "gate_step text_of backend w w'" "coherent w" "ticketed backend w" "looked w"
  shows "looked w'"
  using assms(1)
proof cases
  case (takes_group t ms p)
  show ?thesis unfolding takes_group(1)
    using pipeline_take_group [OF assms(2)] land_look_Land [OF takes_group(3)]
    by (intro looked_frame [OF assms(4)]) simp_all
next
  case (lands_all h ms p)
  show ?thesis unfolding lands_all(1)
    using pipeline_take_group [OF assms(2)] land_all_look_Land [OF lands_all(3)]
    by (intro looked_frame [OF assms(4)]) simp_all
next
  case (settles outcome k)
  then show ?thesis using looked_settles [OF assms(4)] by simp
next
  case (stages h onto n b ticket g)
  show ?thesis unfolding stages(1) by (rule looked_stage [OF assms(4,3) stages(6)])
next
  case (reads_version h v)
  show ?thesis unfolding reads_version(1) by (rule looked_looks [OF assms(4)]) (simp_all add: pipeline_def)
next
  case (looks h)
  show ?thesis unfolding looks(1) by (rule looked_looks [OF assms(4)]) (simp_all add: pipeline_def)
next
  case (takes_turn h g)
  show ?thesis unfolding takes_turn(1)
    by (rule looked_frame [OF assms(4)]) (simp_all add: pipeline_def hold_fields [OF takes_turn(2)])
next
  case (collects t a p)
  show ?thesis unfolding collects(1)
    by (rule looked_frame [OF assms(4)]) (simp_all add: pipeline_def land_look_Collected(2) [OF collects(3)])
next
  case (meets_a_stop t g e)
  show ?thesis unfolding meets_a_stop(1)
    by (rule looked_frame [OF assms(4)]) (simp_all add: pipeline_def land_enter_Inl(2) [OF meets_a_stop(3)])
next
  case (applies h onto n b p how m g)
  have "pipeline w = []"
    using land_all_look_None [OF applies(5)] assms(2) by (simp add: pipeline_def coherent_def Let_def)
  then show ?thesis unfolding applies(1)
    by (intro looked_applies [OF assms(4)]) (simp_all add: pipeline_def gate_apply_fields(1) [OF applies(6)])
next
  case (applies_not h p how b m g e)
  show ?thesis unfolding applies_not(1)
    by (rule looked_frame [OF assms(4)]) (simp_all add: pipeline_def gate_apply_fields(1) [OF applies_not(4)])
qed (rule looked_frame [OF assms(4)]; simp add: pipeline_def)+

lemma gate_runs_keep:
  assumes "gate_runs text_of backend m w" "at_version m n"
  shows "coherent w" "ticketed backend w" "serial w" "looked w"
proof -
  have "coherent w \<and> ticketed backend w \<and> serial w \<and> looked w"
    using assms(1)
  proof induction
    case starts
    note new = pipeline_def world_new_def gate_new_def pending_new_def
    have "serial (world_new m)"
      using assms(2) by (intro serialI [where ne = n and first = n])
        (simp_all add: new accounted_def shown_right_def read_right_def versions_right_def)
    moreover have "ticketed backend (world_new m)"
      by (simp add: new ticketed_def Let_def pipeline_tickets_def waiting_def)
    moreover have "looked (world_new m)" by (simp add: new looked_def)
    ultimately show ?case using coherent_new by blast
  next
    case (goes_on w w')
    then show ?case using coherent_step ticketed_step serial_step looked_step by blast
  qed
  then show "coherent w" "ticketed backend w" "serial w" "looked w" by simp_all
qed

section \<open>Batches of the program\<close>

text \<open>The batches the program stages move the version by one: the batch of a record in a
log and the one that only moves the state both assert the version before theirs.\<close>

definition keeps_version :: "write_op \<Rightarrow> bool" where
  "keeps_version op \<longleftrightarrow> \<not> (op_keyspace op = META \<and> op_key op = version_key)"

lemma map_ops_keeps_version:
  "list_all keeps_version os \<Longrightarrow> map_ops os m META version_key = m META version_key"
  by (rule map_ops_elsewhere) (auto simp: list_all_iff keeps_version_def)

lemma put_records_keeps_version:
  "\<exists>os. ops (put_records b v r) = ops b @ os \<and> list_all keeps_version os"
proof -
  have "\<exists>os. ops (put_mutation_version v b x) = ops b @ os \<and> list_all keeps_version os" for b x
    by (auto simp: put_mutation_version_def Let_def batch_put_def keeps_version_def resolved_of_bytes
        version_key_def singleton_encode_def split: option.splits)
  then have "\<exists>os. ops (foldl (put_mutation_version v) b xs) = ops b @ os \<and> list_all keeps_version os" for b xs
  proof (induction xs arbitrary: b)
    case (Cons x xs)
    obtain os where "ops (put_mutation_version v b x) = ops b @ os" "list_all keeps_version os"
      using Cons.prems by blast
    moreover obtain os' where "ops (foldl (put_mutation_version v) (put_mutation_version v b x) xs)
        = ops (put_mutation_version v b x) @ os'" "list_all keeps_version os'"
      using Cons by blast
    ultimately show ?case by auto
  qed simp
  then show ?thesis by (simp add: put_records_def)
qed

lemma state_batch_moves:
  assumes "n + 1 < 2 ^ 64"
  shows "moves n (state_batch (of_nat (n + 1)) r)"
proof -
  have u: "saturating_pred (of_nat (n + 1)) = of_nat n"
  proof -
    have "(of_nat (n + 1) :: u64) \<noteq> 0" using unat_u64 [OF assms] by (metis Suc_eq_plus1 nat.distinct(1) unsigned_0)
    then show ?thesis by (simp add: saturating_pred_def)
  qed
  define b where "b = batch_put META version_key (sequence_encode (of_nat (n + 1)))
    (expect_value META version_key (sequence_encode (of_nat n)) batch_new)"
  have sb: "state_batch (of_nat (n + 1)) r = put_records b (of_nat (n + 1)) r"
    unfolding state_batch_def u b_def by simp
  obtain os where os: "ops (put_records b (of_nat (n + 1)) r) = ops b @ os" "list_all keeps_version os"
    using put_records_keeps_version by blast
  have "preconditions (put_records b v r) = preconditions b" for v
  proof -
    have "preconditions (put_mutation_version v b x) = preconditions b" for b x
      by (simp add: put_mutation_version_def Let_def batch_put_def split: option.splits)
    then have "preconditions (foldl (put_mutation_version v) b xs) = preconditions b" for b xs
      by (induction xs arbitrary: b) simp_all
    then show ?thesis by (simp add: put_records_def)
  qed
  then show ?thesis
    unfolding moves_def sb os(1) using assms map_ops_keeps_version [OF os(2)]
    by (simp only: map_ops_append) (simp add: b_def batch_put_def expect_value_def batch_new_def)
qed

section \<open>A run\<close>

definition example_store :: store_map where
  "example_store = (\<lambda>_. Map.empty)(META := [version_key \<mapsto> sequence_encode 0])"

definition example_batch :: write_batch where
  "example_batch = state_batch 1 (log_record_new [])"

lemma example_store_at: "at_version example_store 0"
  by (simp add: at_version_def example_store_def)

lemma example_batch_fields:
  "preconditions example_batch = [ValueIs META version_key (sequence_encode 0)]"
  "ops example_batch = [Put META version_key (sequence_encode 1)]"
  by (simp_all add: example_batch_def state_batch_def Let_def put_records_def batch_put_def expect_value_def
      batch_new_def saturating_pred_def log_record_new_def log_record_at_def)

lemma example_batch_moves: "moves 0 example_batch"
  using state_batch_moves [of 0 "log_record_new []"] by (simp add: example_batch_def)

text \<open>One writer takes the turn, reads the version, stages and hands the turn on.\<close>

definition example_staged :: "nat world" where
  "example_staged = (world_new example_store)
    \<lparr>w_gate := turn_drop (snd (gate_stage example_batch 1 (gate_new\<lparr>g_holder := Some 7, g_kept := 0\<rparr>))),
     w_shown := (\<lambda>_. [])(0 := []), w_before := (\<lambda>_. ([], True))(0 := ([[]], True))\<rparr>"

lemma example_stages: "gate_runs text_of backend example_store example_staged"
proof -
  let ?w0 = "world_new example_store :: nat world"
  let ?w1 = "?w0\<lparr>w_gate := gate_new\<lparr>g_holder := Some 7\<rparr>, w_read := None, w_looks := [], w_clean := True\<rparr>"
  have 1: "gate_step text_of backend ?w0 ?w1"
    by (rule takes_turn [of 7]) (simp add: hold_def world_new_def gate_new_def)
  have view: "view_of (w_pending ?w1) (w_engine ?w1) = example_store"
    by (simp add: world_new_def gate_new_def pending_new_def view_of_def)
  have "committed_version (\<lambda>ks k. Inr (view_of (w_pending ?w1) (w_engine ?w1) ks k)) = Inr 0"
    unfolding view by (simp add: example_store_def committed_version_def get_decoded_def version_key_def
        sequence_round_trip)
  then have 2: "gate_step text_of backend ?w1 (?w1\<lparr>w_gate := keep_version 0 (w_gate ?w1),
      w_read := Some (visible ?w1, unat (0 :: u64)), w_looks := w_looks ?w1 @ [visible ?w1]\<rparr>)" (is "gate_step _ _ _ ?w2")
    by (intro reads_version [where h = 7]) simp_all
  have rd: "w_read ?w2 = Some ([], 0)"
    by (simp add: world_new_def visible_def pipeline_def gate_new_def pending_new_def)
  obtain t g where g: "gate_stage example_batch (of_nat (0 + 1)) (w_gate ?w2) = (t, g)" by fastforce
  have t: "t = 0" using gate_stage_fields(1) [OF g] by (simp add: world_new_def gate_new_def pending_new_def)
  have 3: "gate_step text_of backend ?w2 (?w2\<lparr>w_gate := g, w_read := None, w_shown := (w_shown ?w2)(t := []),
      w_looks := [], w_clean := True, w_before := (w_before ?w2)(t := (w_looks ?w2, w_clean ?w2))\<rparr>)"
    (is "gate_step _ _ _ ?w3")
    by (rule stages [OF _ rd example_batch_moves _ g, where h = 7])
      (simp_all add: keep_version_def world_new_def gate_new_def pending_new_def u64_max_def)
  have h3: "g_holder (w_gate ?w3) = Some 7"
    using gate_stage_fields(3) [OF g] by (simp add: keep_version_def)
  have 4: "gate_step text_of backend ?w3 (?w3\<lparr>w_gate := turn_drop (w_gate ?w3), w_read := None, w_looks := [],
      w_clean := True\<rparr>)"
    (is "gate_step _ _ _ ?w4") using h3 by (rule drops_turn)
  have w4: "?w4 = example_staged"
    using g unfolding example_staged_def t
    by (simp add: keep_version_def world_new_def gate_new_def visible_def pipeline_def pending_new_def)
  show ?thesis
    unfolding w4 [symmetric] by (rule goes_on [OF goes_on [OF goes_on [OF goes_on [OF starts 1] 2] 3] 4])
qed

lemma example_staged_fields:
  "w_engine example_staged = example_store" "w_flying example_staged = []" "w_landed example_staged = []"
  "w_told example_staged = Map.empty" "w_left example_staged = {}" "w_account example_staged = []"
  "w_tickets example_staged = {}" "w_shown example_staged 0 = []"
  "w_before example_staged 0 = ([[]], True)" "w_prior example_staged = []"
  "w_pending example_staged = snd (stage example_batch 1 pending_new)"
  by (simp_all add: example_staged_def world_new_def gate_stage_def forget_version_def turn_drop_def gate_new_def
      Let_def split: prod.split)

text \<open>The waiter finds nothing landing, lands its own batch and collects the answer.\<close>

lemma example_lands:
  "\<exists>w :: nat world. gate_runs text_of backend example_store w \<and> w_told w 0 = Some (Inr ())
    \<and> w_tickets w = {0} \<and> w_landed w = [(1, example_batch)] \<and> w_account w = [([], (1, example_batch))]
    \<and> w_prior w = [([[]], True)]"
proof -
  let ?w = example_staged and ?p = "w_pending example_staged"
  obtain x where x: "staged ?p = [x]" "mb_ticket x = 0" "mb_batch x = example_batch" "mb_version x = 1"
    by (simp add: example_staged_fields stage_def Let_def pending_new_def)
  obtain ms q where tg: "take_group ?p = (ms, q)" by fastforce
  have so: "staged_ops ?p = recorded_ops (map mb_batch (staged ?p))"
    using gate_runs_keep(1) [OF example_stages [of "\<lambda>_. []" "[]"] example_store_at]
    by (simp add: coherent_def Let_def)
  note f = take_group_fields [OF tg so]
  have ms: "ms = [x]" "staged q = []" using f(1,10) x(1) by (cases ms; simp)+
  have w0: "waiting ?w 0" by (simp add: waiting_def example_staged_fields stage_def Let_def pending_new_def saturating_add_def u64_max_def)
  have none: "answers ?p 0 = None" "\<not> flushing ?p" "gone ?p = {}"
    by (simp_all add: example_staged_fields stage_def Let_def pending_new_def)
  let ?w1 = "(w_pending_set q ?w)\<lparr>w_flying := ms\<rparr>"
  have 1: "gate_step text_of backend ?w ?w1"
    by (rule takes_group [OF w0]) (simp add: land_look_def none x(1) tg)
  have acc: "accepted example_store [example_batch] = [example_batch]"
    by (simp add: example_batch_fields holds_pre_def example_store_def)
  have 2: "gate_step text_of backend ?w1 (settle_group backend (Answered (Suc 0) (Inr ())) (Suc 0) ?w1)" (is "gate_step _ _ _ ?w2")
    using engine_ends.all [OF acc] f(4)
    by (intro settles) (simp_all add: ms x example_staged_fields)
  have pl: "all_answers ms backend (Answered (Suc 0) (Inr ())) q = [(0, Inr ())]"
    by (simp add: all_answers_def ms x falls_short_def)
  have ans: "answers (w_pending ?w2) 0 = Some (Inr ())"
    using flush_record_fields(8) [OF refl, of ms backend "Answered (Suc 0) (Inr ())" q] f(6,7) none
    unfolding pl by (simp add: settle_group_def Let_def answer_def)
  have w2: "waiting ?w2 0" "w_told ?w2 = Map.empty" "w_tickets ?w2 = {0}" "w_landed ?w2 = [(1, example_batch)]"
    "w_account ?w2 = [([], (1, example_batch))]" "w_prior ?w2 = [([[]], True)]"
    using w0 f(5) flush_record_fields(5) [OF refl, of ms backend "Answered (Suc 0) (Inr ())" q]
    by (simp_all add: settle_group_def Let_def waiting_def ms x item_of_def example_staged_fields)
  have 3: "gate_step text_of backend ?w2 (?w2\<lparr>w_gate := land_leave text_of (Inr ())
      ((w_gate ?w2)\<lparr>g_pending := (w_pending ?w2)\<lparr>answers := (answers (w_pending ?w2))(0 := None)\<rparr>\<rparr>),
      w_told := (w_told ?w2)(0 \<mapsto> Inr ())\<rparr>)" (is "gate_step _ _ _ ?w3")
    unfolding land_look_def ans by (rule collects [OF w2(1)]) (simp add: land_look_def ans [simplified])
  have "gate_runs text_of backend example_store ?w3"
    by (rule goes_on [OF goes_on [OF goes_on [OF example_stages 1] 2] 3])
  then show ?thesis using w2 by (intro exI [of _ ?w3]) simp
qed

section \<open>Where a failed group leaves the others\<close>

text \<open>The view of the holder falls back to the engine when a group falls short, while
the holder keeps its turn: what it read before and what it reads after are then of
two stores.\<close>

lemma short_group_leaves_the_engine:
  assumes "falls_short outcome (length ms)"
  shows "view_of (flush_record ms backend outcome p) m = m"
  using assms flush_record_fields(2,3) [OF refl, of ms backend outcome p] by (simp add: view_of_def)

text \<open>A group that lands whole leaves the view as it was.\<close>

lemma whole_group_keeps_the_view:
  assumes "coherent w" "engine_ends (w_engine w) (map mb_batch (w_flying w)) outcome k"
    "\<not> falls_short outcome (length (w_flying w))" and w'_def: "w' = settle_group backend outcome k w"
  shows "view_of (w_pending w') (w_engine w') = view_of (w_pending w) (w_engine w)"
proof -
  have k: "k = length (w_flying w)" using engine_ends_cases(3) [OF assms(2)] assms(3) by simp
  have "pipeline w' = staged (w_pending w)"
    unfolding w'_def pipeline_settles using assms(3) by simp
  moreover have "w_engine w' = map_ops (batches_ops (map mb_batch (w_flying w))) (w_engine w)"
    unfolding w'_def settle_group_def Let_def k by simp
  moreover have "coherent w'" unfolding w'_def by (rule coherent_settles [OF assms(1)])
  ultimately show ?thesis
    using assms(1) by (simp add: coherent_view(1) pipeline_def [of w] map_ops_append)
qed

text \<open>A commit that a stopped store refuses stays in the queue, and the next landing of
everything takes it.\<close>

lemma stopped_commit_stays_staged:
  assumes "refuse_if_stopped g = Inl e" "staged (g_pending g) \<noteq> []" "\<not> flushing (g_pending g)"
  shows "staged (g_pending (fst (land_enter t g))) = staged (g_pending g)"
    "\<exists>ms p. land_all_look (g_pending (fst (land_enter t g))) = (Some (Land ms), p)"
  using assms by (simp_all add: land_enter_def land_all_look_def split: prod.split)

section \<open>Properties\<close>

text \<open>C3: what a writer was shown before its batch landed, whatever groups fail, panic or
are abandoned while it derives.  The batches landed are a chain: each asserts a version
that was read when exactly the batches before it in the chain were visible.  Every
other read its writer made in the same turn showed all of those batches, in their
order; and nothing beyond them when every group that ended during the turn landed
whole.  When a group fell short during the turn, a read made before that may also
have shown batches that then did not land.  The version a transaction begins at is
never ahead of the engine's.\<close>

theorem commits_land_as_read:
  assumes "gate_runs text_of backend m w" "at_version m n"
  shows "length (w_account w) = length (w_landed w) \<and> length (w_prior w) = length (w_landed w)
    \<and> (\<forall>i < length (w_landed w). w_account w ! i = (take i (w_landed w), w_landed w ! i))
    \<and> (\<forall>i < length (w_landed w). \<forall>L \<in> set (fst (w_prior w ! i)).
         (\<exists>unlanded. L = take i (w_landed w) @ unlanded) \<and> (snd (w_prior w ! i) \<longrightarrow> L = take i (w_landed w)))
    \<and> (\<exists>ne. at_version (w_engine w) ne \<and> unat (landed_version (w_pending w)) \<le> ne)"
proof -
  have "accounted w" "\<exists>ne. at_version (w_engine w) ne \<and> versions_right ne w"
    using gate_runs_keep(3) [OF assms] unfolding serial_def by blast+
  moreover have "looked w" by (rule gate_runs_keep(4) [OF assms])
  ultimately show ?thesis
    unfolding accounted_def versions_right_def looked_def shows_at_least_def by blast
qed

theorem commits_land_as_read_witness:
  "\<exists>w :: nat world. gate_runs (\<lambda>_. []) [] example_store w \<and> w_landed w = [(1, example_batch)]
    \<and> w_account w ! 0 = ([], (1, example_batch)) \<and> w_prior w = [([[]], True)]"
proof -
  obtain w :: "nat world" where w: "gate_runs (\<lambda>_. []) [] example_store w" "w_landed w = [(1, example_batch)]"
    "w_prior w = [([[]], True)]"
    using example_lands by blast
  then show ?thesis using commits_land_as_read [OF w(1) example_store_at] by (intro exI [of _ w]) simp
qed

text \<open>C7: what the holder of the turn is shown is the batches in flight and then the staged
ones, each once and in the order of their turns, over the engine; the maps it reads
them from are ordered, and the flag that skips them is down only when they are
empty.\<close>

theorem holder_sees_pipeline:
  assumes "gate_runs text_of backend m w" "at_version m n"
  shows "view_of (w_pending w) (w_engine w)
      = map_ops (batches_ops (map mb_batch (w_flying w @ staged (w_pending w)))) (w_engine w)
    \<and> pending_ok (w_pending w)"
  using coherent_view [OF gate_runs_keep(1) [OF assms]] by (simp add: pipeline_def)

theorem holder_sees_pipeline_witness:
  "view_of (w_pending example_staged) example_store META version_key = Some (sequence_encode 1)"
proof -
  have "map mb_batch (staged (w_pending example_staged)) = [example_batch]"
    by (simp add: example_staged_fields stage_def Let_def pending_new_def)
  then show ?thesis
    using holder_sees_pipeline [OF example_stages [of "\<lambda>_. []" "[]"] example_store_at]
    by (simp add: example_staged_fields(1,2) example_batch_fields)
qed

text \<open>C5: what a waiter is told is true of the store.  Told that its batch landed, it
landed; told a failure, it did not land and is not among the batches that still may,
with two exceptions: a failure that says the outcome is unknown, and the refusal of a
stopped store.\<close>

theorem answers_tell_what_landed:
  assumes "gate_runs text_of backend m w" "at_version m n" "w_told w t = Some a"
  shows "case a of
      Inr _ \<Rightarrow> t \<in> w_tickets w
    | Inl e \<Rightarrow> is_unknown backend e \<or> (\<exists>r. e = Stopped r)
        \<or> t \<notin> w_tickets w \<and> t \<notin> mb_ticket ` set (w_flying w @ staged (w_pending w))"
  using ticketedD(7,9) [OF gate_runs_keep(2) [OF assms(1,2)] assms(3)]
  by (auto simp: truthful_def is_stop_def pipeline_tickets_def pipeline_def split: sum.splits)

theorem answers_tell_what_landed_witness:
  "\<exists>w :: nat world. gate_runs (\<lambda>_. []) [] example_store w \<and> w_told w 0 = Some (Inr ()) \<and> 0 \<in> w_tickets w"
proof -
  obtain w :: "nat world" where w: "gate_runs (\<lambda>_. []) [] example_store w" "w_told w 0 = Some (Inr ())"
    using example_lands by blast
  show ?thesis using answers_tell_what_landed [OF w(1) example_store_at w(2)] w by (intro exI [of _ w]) simp
qed

text \<open>C6: no commit waits for ever on nothing.  A waiter has its answer, or its batch is in
flight or staged and then either a landing is running or the waiter lands a group
itself.  However a landing ends, fewer batches are under way after it; a waiter whose
batch was in it has its answer then, and one whose batch was staged behind it has its
answer or still has its batch staged.\<close>

theorem no_commit_is_lost:
  assumes "gate_runs text_of backend m w" "at_version m n" "waiting w t"
  shows "(answers (w_pending w) t \<noteq> None
      \<or> t \<in> pipeline_tickets w
        \<and> (flushing (w_pending w) \<or> (\<exists>ms p. land_look t (w_pending w) = (Land ms, p) \<and> ms \<noteq> [])))
    \<and> (\<forall>outcome k. flushing (w_pending w) \<longrightarrow>
      engine_ends (w_engine w) (map mb_batch (w_flying w)) outcome k \<longrightarrow>
      length (pipeline (settle_group backend outcome k w)) < length (pipeline w)
      \<and> (t \<in> mb_ticket ` set (w_flying w) \<longrightarrow> answers (w_pending (settle_group backend outcome k w)) t \<noteq> None)
      \<and> (t \<in> mb_ticket ` set (staged (w_pending (settle_group backend outcome k w)))
         \<or> answers (w_pending (settle_group backend outcome k w)) t \<noteq> None))"
proof -
  note inv = gate_runs_keep [OF assms(1,2)]
  have t: "t \<in> pipeline_tickets w \<or> answers (w_pending w) t \<noteq> None" using ticketedD(6) [OF inv(2) assms(3)] .
  have fl: "flushing (w_pending w) \<longleftrightarrow> w_flying w \<noteq> []" using inv(1) by (simp add: coherent_def Let_def)
  have so: "staged_ops (w_pending w) = recorded_ops (map mb_batch (staged (w_pending w)))"
    using inv(1) by (simp add: coherent_def Let_def)
  have "\<exists>ms p. land_look t (w_pending w) = (Land ms, p) \<and> ms \<noteq> []"
    if none: "answers (w_pending w) t = None" "\<not> flushing (w_pending w)"
  proof -
    have "staged (w_pending w) \<noteq> []"
      using t none fl by (auto simp: pipeline_tickets_def pipeline_def)
    moreover obtain ms p where "take_group (w_pending w) = (ms, p)" by fastforce
    ultimately show ?thesis
      using none take_group_fields(10) [OF _ so] by (auto simp: land_look_def)
  qed
  then have A: "answers (w_pending w) t \<noteq> None
      \<or> t \<in> pipeline_tickets w
        \<and> (flushing (w_pending w) \<or> (\<exists>ms p. land_look t (w_pending w) = (Land ms, p) \<and> ms \<noteq> []))"
    using t by blast
  show ?thesis
  proof (intro conjI [OF A] allI impI conjI)
    fix outcome k
    let ?w = "settle_group backend outcome k w"
    assume f: "flushing (w_pending w)" and e: "engine_ends (w_engine w) (map mb_batch (w_flying w)) outcome k"
    show "length (pipeline ?w) < length (pipeline w)"
      unfolding pipeline_settles using f fl by (simp add: pipeline_def)
    have "waiting ?w t"
      using assms(3) flush_record_fields(5) [OF refl, of "w_flying w" backend outcome "w_pending w"]
      by (simp add: waiting_def settle_group_def Let_def)
    then have A: "t \<in> pipeline_tickets ?w \<or> answers (w_pending ?w) t \<noteq> None"
      by (rule ticketedD(6) [OF ticketed_settles [OF inv(2) e]])
    have "w_flying ?w = []" by (simp add: settle_group_def Let_def)
    then show B: "t \<in> mb_ticket ` set (staged (w_pending ?w)) \<or> answers (w_pending ?w) t \<noteq> None"
      using A by (simp add: pipeline_tickets_def pipeline_def)
    show "answers (w_pending ?w) t \<noteq> None" if "t \<in> mb_ticket ` set (w_flying w)"
    proof -
      have "t \<notin> mb_ticket ` set (staged (w_pending w))"
        using ticketedD(1) [OF inv(2)] that by (auto simp: pipeline_def)
      then have "t \<notin> pipeline_tickets ?w" by (simp add: pipeline_tickets_def pipeline_settles)
      then show ?thesis using A by blast
    qed
  qed
qed

theorem no_commit_is_lost_witness:
  "\<exists>ms p. land_look 0 (w_pending example_staged) = (Land ms, p) \<and> ms \<noteq> []"
proof -
  have "waiting example_staged 0"
    by (simp add: waiting_def example_staged_fields stage_def Let_def pending_new_def saturating_add_def u64_max_def)
  from no_commit_is_lost [OF example_stages [of "\<lambda>_. []" "[]"] example_store_at this] show ?thesis
    by (simp add: example_staged_fields stage_def Let_def pending_new_def)
qed

end
