(* ===== verification/Calendar.thy ===== *)
theory Calendar
  imports Value_Order "HOL-Library.Monad_Syntax"
begin

text \<open>Instants and spans as people read them (time.rs, calendar.rs and text.rs of
tessari-types): arithmetic on the normalised pairs, the civil date an instant falls on and
its inverse, and the texts of instants, spans, identifiers and strings.  An integer of
sixty-four or a hundred and twenty-eight bits is an \<^typ>\<open>int\<close> with the bounds of its checked and
saturating operations written out.  A \<^verbatim>\<open>str\<close> is the list of its characters, each a
Unicode scalar value, and is indexed by bytes as the program indexes it.\<close>

section \<open>Checked and saturating integers\<close>

definition in_i64 :: "int \<Rightarrow> bool" where
  "in_i64 x \<longleftrightarrow> - (2 ^ 63) \<le> x \<and> x < 2 ^ 63"

definition in_i128 :: "int \<Rightarrow> bool" where
  "in_i128 x \<longleftrightarrow> - (2 ^ 127) \<le> x \<and> x < 2 ^ 127"

text \<open>The checked operations of the two widths answer nothing for a result outside, the
saturating ones the end it passed.\<close>

definition chk64 :: "int \<Rightarrow> int option" where
  "chk64 x = (if in_i64 x then Some x else None)"

definition chk128 :: "int \<Rightarrow> int option" where
  "chk128 x = (if in_i128 x then Some x else None)"

definition sat64 :: "int \<Rightarrow> int" where
  "sat64 x = max (- (2 ^ 63)) (min (2 ^ 63 - 1) x)"

definition sat128 :: "int \<Rightarrow> int" where
  "sat128 x = max (- (2 ^ 127)) (min (2 ^ 127 - 1) x)"

lemma chk64_Some [simp]: "in_i64 x \<Longrightarrow> chk64 x = Some x"
  by (simp add: chk64_def)

lemma chk128_Some [simp]: "in_i128 x \<Longrightarrow> chk128 x = Some x"
  by (simp add: chk128_def)

lemma sat64_id [simp]: "in_i64 x \<Longrightarrow> sat64 x = x"
  by (simp add: sat64_def in_i64_def)

lemma sat128_id [simp]: "in_i128 x \<Longrightarrow> sat128 x = x"
  by (simp add: sat128_def in_i128_def)

lemma in_i64_sint [simp]: "in_i64 (sint (x :: i64))"
  using sint_range_size [of x] by (simp add: in_i64_def word_size)

lemma sint_of_int64 [simp]: "in_i64 x \<Longrightarrow> sint (word_of_int x :: i64) = x"
  by (simp add: in_i64_def sint_sbintrunc' signed_take_bit_int_eq_self)

section \<open>Arithmetic on times\<close>

text \<open>Shared by instants and spans, which are both a \<^typ>\<open>time_pair\<close>.\<close>

definition NANOS :: int where "NANOS = 1000000000"

definition time_total :: "i64 \<Rightarrow> u32 \<Rightarrow> int" where
  "time_total s n = sat128 (sat128 (sint s * NANOS) + uint n)"

definition time_split :: "int \<Rightarrow> (i64 \<times> u32) option" where
  "time_split units =
    (let s = units div NANOS; n = units mod NANOS in
     if in_i64 s then (if 0 \<le> n \<and> n < 2 ^ 32 then Some (word_of_int s, word_of_int n) else None) else None)"

definition pair_of :: "i64 \<times> u32 \<Rightarrow> time_pair" where
  "pair_of p = \<lparr>seconds = fst p, nanos = snd p\<rparr>"

definition total_of :: "time_pair \<Rightarrow> int" where
  "total_of t = time_total (seconds t) (nanos t)"

definition time_checked_add :: "time_pair \<Rightarrow> time_pair \<Rightarrow> time_pair option" where
  "time_checked_add t by_span =
    Option.bind (chk128 (total_of t + total_of by_span)) (\<lambda>moved. map_option pair_of (time_split moved))"

definition time_checked_neg :: "time_pair \<Rightarrow> time_pair option" where
  "time_checked_neg t = Option.bind (chk128 (- total_of t)) (\<lambda>c. map_option pair_of (time_split c))"

definition time_checked_sub :: "time_pair \<Rightarrow> time_pair \<Rightarrow> time_pair option" where
  "time_checked_sub t by_span = Option.bind (time_checked_neg by_span) (time_checked_add t)"

definition time_checked_since :: "time_pair \<Rightarrow> time_pair \<Rightarrow> time_pair option" where
  "time_checked_since t earlier =
    Option.bind (chk128 (total_of t - total_of earlier)) (\<lambda>c. map_option pair_of (time_split c))"

definition duration_from_nanos :: "int \<Rightarrow> time_pair option" where
  "duration_from_nanos units = map_option pair_of (time_split units)"

text \<open>The sums are exact: an operation answers the normalised pair of the result, and nothing only
when the whole seconds of the result do not fit.\<close>

lemma time_total_exact: "time_total s n = sint s * NANOS + uint n"
proof -
  define k where "k = uint n"
  have "in_i64 (sint s)" "0 \<le> k" "k < 2 ^ 32" using uint_bounded [of n] by (simp_all add: k_def)
  then have "in_i128 (sint s * NANOS)" "in_i128 (sint s * NANOS + k)"
    by (simp_all add: in_i64_def in_i128_def NANOS_def)
  then show ?thesis by (simp add: time_total_def k_def)
qed

lemma time_split_exact:
  "map_option pair_of (time_split z) = Some t \<longleftrightarrow> nanos t < NANOS_PER_SECOND \<and> total_of t = z"
proof
  assume "map_option pair_of (time_split z) = Some t"
  then have t: "t = \<lparr>seconds = word_of_int (z div NANOS), nanos = word_of_int (z mod NANOS)\<rparr>"
    and s: "in_i64 (z div NANOS)"
    by (auto simp: time_split_def Let_def pair_of_def split: if_splits)
  have n: "0 \<le> z mod NANOS" "z mod NANOS < 1000000000" by (simp_all add: NANOS_def)
  then have u: "uint (word_of_int (z mod NANOS) :: u32) = z mod NANOS"
    by (simp add: uint_word_of_int take_bit_int_eq_self)
  have "total_of t = z div NANOS * NANOS + z mod NANOS"
    unfolding t by (simp add: total_of_def time_total_exact s u)
  then show "nanos t < NANOS_PER_SECOND \<and> total_of t = z"
    using n u by (simp add: t NANOS_PER_SECOND_def word_less_def)
next
  assume t: "nanos t < NANOS_PER_SECOND \<and> total_of t = z"
  then have "uint (nanos t) < NANOS" by (simp add: NANOS_PER_SECOND_def NANOS_def word_less_def)
  moreover have z: "z = uint (nanos t) + sint (seconds t) * NANOS"
    using t by (simp add: total_of_def time_total_exact)
  ultimately have "z div NANOS = sint (seconds t)" "z mod NANOS = uint (nanos t)"
    by (simp_all add: NANOS_def)
  then show "map_option pair_of (time_split z) = Some t"
    using uint_bounded [of "nanos t"] by (simp add: time_split_def Let_def pair_of_def)
qed

theorem time_arithmetic_exact:
  "time_checked_add a b = Some t \<longleftrightarrow> nanos t < NANOS_PER_SECOND \<and> total_of t = total_of a + total_of b"
  "time_checked_since a b = Some t \<longleftrightarrow> nanos t < NANOS_PER_SECOND \<and> total_of t = total_of a - total_of b"
  "time_checked_neg a = Some t \<longleftrightarrow> nanos t < NANOS_PER_SECOND \<and> total_of t = - total_of a"
proof -
  have r: "\<bar>total_of x\<bar> \<le> 2 ^ 100" for x
  proof -
    define k where "k = uint (nanos x)"
    have "0 \<le> k" "k < 2 ^ 32" using uint_bounded [of "nanos x"] by (simp_all add: k_def)
    then show ?thesis using in_i64_sint [of "seconds x"]
      by (simp add: total_of_def time_total_exact NANOS_def in_i64_def abs_le_iff k_def [symmetric])
  qed
  have "in_i128 (total_of a + total_of b)" "in_i128 (total_of a - total_of b)" "in_i128 (- total_of a)"
    using r [of a] r [of b] by (simp_all add: in_i128_def abs_le_iff)
  then show "time_checked_add a b = Some t \<longleftrightarrow> nanos t < NANOS_PER_SECOND \<and> total_of t = total_of a + total_of b"
    "time_checked_since a b = Some t \<longleftrightarrow> nanos t < NANOS_PER_SECOND \<and> total_of t = total_of a - total_of b"
    "time_checked_neg a = Some t \<longleftrightarrow> nanos t < NANOS_PER_SECOND \<and> total_of t = - total_of a"
    by (simp_all only: time_checked_add_def time_checked_since_def time_checked_neg_def chk128_Some
        Option.bind.simps time_split_exact)
qed

section \<open>The civil calendar\<close>

definition SECONDS_PER_MINUTE :: int where "SECONDS_PER_MINUTE = 60"
definition SECONDS_PER_HOUR :: int where "SECONDS_PER_HOUR = 3600"
definition SECONDS_PER_DAY :: int where "SECONDS_PER_DAY = 86400"

record civil =
  year :: int
  month :: int
  day :: int
  hour :: int
  minute :: int
  second :: int

definition civil_from_days :: "int \<Rightarrow> int \<times> int \<times> int" where
  "civil_from_days days =
    (let shifted = sat64 (days + 719468);
         era = shifted div 146097;
         day_of_era = shifted mod 146097;
         year_of_era =
           sat64 (sat64 (sat64 (day_of_era - day_of_era div 1460) + day_of_era div 36524)
             - day_of_era div 146096) div 365;
         y = sat64 (year_of_era + sat64 (era * 400));
         day_of_year =
           sat64 (day_of_era
             - sat64 (sat64 (sat64 (year_of_era * 365) + year_of_era div 4) - year_of_era div 100));
         shifted_month = sat64 (sat64 (day_of_year * 5) + 2) div 153;
         d = sat64 (sat64 (day_of_year - sat64 (sat64 (153 * shifted_month) + 2) div 5) + 1);
         m = (if shifted_month < 10 then sat64 (shifted_month + 3) else sat64 (shifted_month - 9));
         y = (if m \<le> 2 then sat64 (y + 1) else y)
     in (y, m, d))"

definition civil_of :: "time_pair \<Rightarrow> civil" where
  "civil_of t =
    (let s = sint (seconds t);
         days = s div SECONDS_PER_DAY;
         within = s mod SECONDS_PER_DAY;
         (y, m, d) = civil_from_days days
     in \<lparr>year = y, month = m, day = d,
         hour = within div SECONDS_PER_HOUR,
         minute = within mod SECONDS_PER_HOUR div SECONDS_PER_MINUTE,
         second = within mod SECONDS_PER_MINUTE\<rparr>)"

definition days_from_civil :: "int \<Rightarrow> int \<Rightarrow> int \<Rightarrow> int option" where
  "days_from_civil y m d = do {
     y \<leftarrow> (if m \<le> 2 then chk64 (y - 1) else Some y);
     let era = y div 400;
     let year_of_era = y mod 400;
     let shift = (if 2 < m then - 3 else 9);
     a \<leftarrow> chk64 (m + shift);
     a \<leftarrow> chk64 (153 * a);
     a \<leftarrow> chk64 (a + 2);
     b \<leftarrow> chk64 (d - 1);
     day_of_year \<leftarrow> chk64 (a div 5 + b);
     e \<leftarrow> chk64 (year_of_era * 365);
     e \<leftarrow> chk64 (e + year_of_era div 4);
     e \<leftarrow> chk64 (e - year_of_era div 100);
     day_of_era \<leftarrow> chk64 (e + day_of_year);
     z \<leftarrow> chk64 (era * 146097);
     z \<leftarrow> chk64 (z + day_of_era);
     chk64 (z - 719468)
   }"

definition leap_year :: "int \<Rightarrow> bool" where
  "leap_year y \<longleftrightarrow> y mod 4 = 0 \<and> (y mod 100 \<noteq> 0 \<or> y mod 400 = 0)"

definition days_in_month :: "int \<Rightarrow> int \<Rightarrow> int option" where
  "days_in_month y m =
    (if m \<in> {1, 3, 5, 7, 8, 10, 12} then Some 31
     else if m \<in> {4, 6, 9, 11} then Some 30
     else if m = 2 then (if leap_year y then Some 29 else Some 28)
     else None)"

section \<open>The era\<close>

text \<open>Four hundred years from a first of March.  A year of the era starts at the day the code
subtracts, and the one division it does for the year is right on every day: it is
monotone, so it is enough that it is right on the first and the last day of each year.\<close>

definition year_start :: "int \<Rightarrow> int" where
  "year_start y = 365 * y + y div 4 - y div 100"

definition year_length :: "int \<Rightarrow> int" where
  "year_length y = (if leap_year (y + 1) then 366 else 365)"

definition guess :: "int \<Rightarrow> int" where
  "guess n = n - n div 1460 + n div 36524 - n div 146096"

lemma shrink_mono:
  fixes a b k :: int
  assumes "a \<le> b" "1 < k"
  shows "a - a div k \<le> b - b div k"
proof -
  have "(b - a) * 1 \<le> (b - a) * k" using assms by (intro mult_left_mono) simp_all
  then have "b div k \<le> (a + (b - a) * k) div k" using assms by (intro zdiv_mono1) simp_all
  then have "b div k \<le> a div k + (b - a)" using assms by simp
  then show ?thesis by linarith
qed

lemma guess_mono: "a \<le> b \<Longrightarrow> guess a \<le> guess b"
proof -
  assume ab: "a \<le> b"
  have split: "n div 146096 = n div 36524 div 4" for n :: int
    using zdiv_zmult2_eq [of 4 n 36524] by simp
  have "a - a div 1460 \<le> b - b div 1460" using ab by (intro shrink_mono) simp_all
  moreover have "a div 36524 - a div 36524 div 4 \<le> b div 36524 - b div 36524 div 4"
    using ab by (intro shrink_mono zdiv_mono1) simp_all
  ultimately show ?thesis by (simp add: guess_def split)
qed

lemma guess_at_ends:
  "\<forall>y \<in> set [0..399]. guess (year_start y) div 365 = y
     \<and> guess (year_start y + year_length y - 1) div 365 = y
     \<and> (y < 399 \<longrightarrow> year_start y + year_length y = year_start (y + 1))
     \<and> (y = 399 \<longrightarrow> year_start y + year_length y = 146097)"
  by code_simp

lemma year_start_bounds:
  assumes "0 \<le> y" "y \<le> 399"
  shows "0 \<le> year_start y" "year_start y \<le> 145731"
proof -
  have "365 * y \<le> 145635" "y div 4 \<le> 99" "0 \<le> y div 100" "y div 100 \<le> y div 4" "0 \<le> y div 4"
    using assms by linarith+
  then show "0 \<le> year_start y" using assms unfolding year_start_def by linarith
  show "year_start y \<le> 145731" using assms unfolding year_start_def by linarith
qed

lemma guess_in_year:
  assumes y: "0 \<le> y" "y \<le> 399" and doy: "0 \<le> doy" "doy < year_length y"
  shows "guess (year_start y + doy) div 365 = y"
proof -
  have ends: "guess (year_start y) div 365 = y" "guess (year_start y + year_length y - 1) div 365 = y"
    using guess_at_ends y by auto
  have "guess (year_start y) \<le> guess (year_start y + doy)"
    "guess (year_start y + doy) \<le> guess (year_start y + year_length y - 1)"
    using doy by (intro guess_mono; simp)+
  then have "guess (year_start y) div 365 \<le> guess (year_start y + doy) div 365"
    "guess (year_start y + doy) div 365 \<le> guess (year_start y + year_length y - 1) div 365"
    by (intro zdiv_mono1; simp)+
  then show ?thesis using ends by linarith
qed

lemma day_has_year_upto:
  assumes "0 \<le> n" "k \<le> 399" "n < year_start (int k) + year_length (int k)"
  shows "\<exists>y. 0 \<le> y \<and> y \<le> 399 \<and> year_start y \<le> n \<and> n < year_start y + year_length y"
  using assms
proof (induction k)
  case 0
  then show ?case by (intro exI [of _ 0]) (simp add: year_start_def)
next
  case (Suc k)
  show ?case
  proof (cases "year_start (int (Suc k)) \<le> n")
    case True
    then show ?thesis using Suc.prems by (intro exI [of _ "int (Suc k)"]) simp
  next
    case False
    have "int k \<in> set [0..399]" using Suc.prems by simp
    then have "year_start (int k) + year_length (int k) = year_start (int k + 1)"
      using guess_at_ends Suc.prems(2) by simp
    then have "n < year_start (int k) + year_length (int k)" using False by (simp add: ac_simps)
    then show ?thesis using Suc by simp
  qed
qed

lemma day_has_year:
  assumes "0 \<le> n" "n < 146097"
  obtains y where "0 \<le> y" "y \<le> 399" "year_start y \<le> n" "n < year_start y + year_length y"
proof -
  have "year_start 399 + year_length 399 = 146097" using bspec [OF guess_at_ends, of 399] by simp
  then have "\<exists>y. 0 \<le> y \<and> y \<le> 399 \<and> year_start y \<le> n \<and> n < year_start y + year_length y"
    using day_has_year_upto [OF assms(1), of 399] assms(2) by simp
  then show thesis using that by blast
qed

section \<open>Months\<close>

text \<open>The months of a year that starts in March, in the arithmetic of both directions.\<close>

definition month_of :: "int \<Rightarrow> int" where
  "month_of doy = (5 * doy + 2) div 153"

definition month_start :: "int \<Rightarrow> int" where
  "month_start mp = (153 * mp + 2) div 5"

definition calendar_month :: "int \<Rightarrow> int" where
  "calendar_month mp = (if mp < 10 then mp + 3 else mp - 9)"

definition month_days :: "int \<Rightarrow> int" where
  "month_days m = (if m \<in> {4, 6, 9, 11} then 30 else if m = 2 then 29 else 31)"

lemma months_of_days:
  "\<forall>doy \<in> set [0..365].
     0 \<le> month_of doy \<and> month_of doy \<le> 11 \<and> month_start (month_of doy) \<le> doy
     \<and> doy - month_start (month_of doy) + 1 \<le> month_days (calendar_month (month_of doy))
     \<and> (month_of doy = 11 \<longrightarrow> doy - month_start 11 + 1 = 29 \<longrightarrow> doy = 365)"
  by code_simp

lemma days_of_months:
  "\<forall>mp \<in> set [0..11]. \<forall>d \<in> set [1..31]. d \<le> month_days (calendar_month mp) \<longrightarrow>
     month_of (month_start mp + d - 1) = mp \<and> 0 \<le> month_start mp + d - 1
     \<and> month_start mp + d - 1 \<le> 365 \<and> (month_start mp + d - 1 = 365 \<longrightarrow> mp = 11 \<and> d = 29)"
  by code_simp

section \<open>Both directions\<close>

text \<open>A day of the calendar as era, year of the era and day of the year.\<close>

definition day_at :: "int \<Rightarrow> int \<Rightarrow> int \<Rightarrow> int" where
  "day_at era y doy = era * 146097 + year_start y + doy - 719468"

definition date_at :: "int \<Rightarrow> int \<Rightarrow> int \<Rightarrow> int \<times> int \<times> int" where
  "date_at era y doy =
    (let m = calendar_month (month_of doy) in
     (y + era * 400 + (if m \<le> 2 then 1 else 0), m, doy - month_start (month_of doy) + 1))"

definition era_day :: "int \<Rightarrow> int \<Rightarrow> bool" where
  "era_day y doy \<longleftrightarrow> 0 \<le> y \<and> y \<le> 399 \<and> 0 \<le> doy \<and> doy < year_length y"

lemma era_day_bounds:
  assumes "era_day y doy"
  shows "0 \<le> y" "y \<le> 399" "0 \<le> doy" "doy \<le> 365" "0 \<le> year_start y + doy" "year_start y + doy < 146097"
    "guess (year_start y + doy) div 365 = y"
proof -
  show b: "0 \<le> y" "y \<le> 399" "0 \<le> doy" using assms by (simp_all add: era_day_def)
  show "doy \<le> 365" using assms by (simp add: era_day_def year_length_def split: if_splits)
  then show "0 \<le> year_start y + doy" "year_start y + doy < 146097"
    using year_start_bounds [OF b(1,2)] b(3) by simp_all
  show "guess (year_start y + doy) div 365 = y" using assms by (simp add: era_day_def guess_in_year)
qed

lemma day_has_era:
  obtains era y doy where "era_day y doy" "n = day_at era y doy"
proof -
  obtain y where "0 \<le> y" "y \<le> 399" "year_start y \<le> (n + 719468) mod 146097"
    "(n + 719468) mod 146097 < year_start y + year_length y"
    using day_has_year [of "(n + 719468) mod 146097"] by auto
  then have "era_day y ((n + 719468) mod 146097 - year_start y)" by (simp add: era_day_def)
  moreover have "n = day_at ((n + 719468) div 146097) y ((n + 719468) mod 146097 - year_start y)"
    by (simp add: day_at_def)
  ultimately show thesis using that by blast
qed

text \<open>Both functions stay far within their integers on the days an instant can fall on.\<close>

definition DAY_LIMIT :: int where "DAY_LIMIT = 2 ^ 47"

lemma date_at_parts:
  assumes "0 \<le> doy" "doy \<le> 365"
  shows "0 \<le> month_of doy" "month_of doy \<le> 11" "month_start (month_of doy) \<le> doy"
    "0 \<le> month_start (month_of doy)"
    "doy - month_start (month_of doy) + 1 \<le> month_days (calendar_month (month_of doy))"
    "month_of doy = 11 \<Longrightarrow> doy - month_start 11 + 1 = 29 \<Longrightarrow> doy = 365"
proof -
  have "doy \<in> set [0..365]" using assms by simp
  from bspec [OF months_of_days this]
  show *: "0 \<le> month_of doy" "month_of doy \<le> 11" "month_start (month_of doy) \<le> doy"
    "doy - month_start (month_of doy) + 1 \<le> month_days (calendar_month (month_of doy))"
    "month_of doy = 11 \<Longrightarrow> doy - month_start 11 + 1 = 29 \<Longrightarrow> doy = 365"
    by blast+
  show "0 \<le> month_start (month_of doy)" using *(1) unfolding month_start_def by simp
qed

lemma era_of_limit:
  assumes "era_day y doy" "\<bar>day_at era y doy\<bar> \<le> DAY_LIMIT"
  shows "\<bar>era\<bar> \<le> 2 ^ 31"
  using assms(2) era_day_bounds(5,6) [OF assms(1)] by (simp add: day_at_def DAY_LIMIT_def)

lemma civil_from_days_at:
  assumes "era_day y doy" "\<bar>day_at era y doy\<bar> \<le> DAY_LIMIT"
  shows "civil_from_days (day_at era y doy) = date_at era y doy"
proof -
  note b = era_day_bounds [OF assms(1)]
  note m = date_at_parts [OF b(3,4)]
  note e = era_of_limit [OF assms]
  define doe where "doe = year_start y + doy"
  have shifted: "day_at era y doy + 719468 = doe + era * 146097" by (simp add: day_at_def doe_def)
  have doe: "0 \<le> doe" "doe < 146097" using b(5,6) by (simp_all add: doe_def)
  have q: "(doe + era * 146097) div 146097 = era" "(doe + era * 146097) mod 146097 = doe"
    using doe by simp_all
  have i: "in_i64 (doe + era * 146097)" "in_i64 (era * 400)" "in_i64 (y + era * 400)"
    "in_i64 (y + era * 400 + 1)"
    using e doe b(1,2) unfolding in_i64_def by (simp_all add: abs_le_iff)
  have parts: "0 \<le> doe div 1460" "doe div 1460 \<le> 101" "0 \<le> doe div 36524" "doe div 36524 \<le> 4"
    "0 \<le> doe div 146096" "doe div 146096 \<le> 1"
    using doe by linarith+
  have g: "(doe - doe div 1460 + doe div 36524 - doe div 146096) div 365 = y"
    using b(7) by (simp add: guess_def doe_def)
  have gi: "in_i64 (doe - doe div 1460)" "in_i64 (doe - doe div 1460 + doe div 36524)"
    "in_i64 (doe - doe div 1460 + doe div 36524 - doe div 146096)"
    using parts doe unfolding in_i64_def by simp_all
  have quot: "0 \<le> y div 4" "y div 4 \<le> 99" "0 \<le> y div 100" "y div 100 \<le> 3" using b(1,2) by linarith+
  have yi: "in_i64 (y * 365)" "in_i64 (y * 365 + y div 4)" "in_i64 (y * 365 + y div 4 - y div 100)"
    using b(1,2) quot unfolding in_i64_def by simp_all
  have ys: "doe - (y * 365 + y div 4 - y div 100) = doy" by (simp add: doe_def year_start_def)
  have di: "in_i64 doy" "in_i64 (doy * 5)" "in_i64 (doy * 5 + 2)"
    using b(3,4) unfolding in_i64_def by simp_all
  have mo: "(doy * 5 + 2) div 153 = month_of doy" by (simp add: month_of_def ac_simps)
  have mi: "in_i64 (153 * month_of doy)" "in_i64 (153 * month_of doy + 2)"
    "in_i64 (month_of doy + 3)" "in_i64 (month_of doy - 9)"
    using m(1,2) unfolding in_i64_def by simp_all
  have ms: "(153 * month_of doy + 2) div 5 = month_start (month_of doy)" by (simp add: month_start_def)
  have si: "in_i64 (doy - month_start (month_of doy))" "in_i64 (doy - month_start (month_of doy) + 1)"
    using m(3,4) b(3,4) unfolding in_i64_def by simp_all
  show ?thesis
    unfolding civil_from_days_def shifted Let_def date_at_def calendar_month_def
    by (simp only: sat64_id i q gi g yi ys di mo mi ms si) (auto simp: i)
qed

definition valid_date :: "int \<Rightarrow> int \<Rightarrow> int \<Rightarrow> bool" where
  "valid_date y m d \<longleftrightarrow> (case days_in_month y m of Some n \<Rightarrow> 1 \<le> d \<and> d \<le> n | None \<Rightarrow> False)"

lemma leap_year_era: "leap_year (y + era * 400) \<longleftrightarrow> leap_year y"
proof -
  have "(y + era * 400) mod 4 = y mod 4" "(y + era * 400) mod 100 = y mod 100"
    using mod_mult_self1 [of y "era * 100" 4] mod_mult_self1 [of y "era * 4" 100]
    by (simp_all add: mult.commute)
  then show ?thesis by (simp add: leap_year_def)
qed

lemma days_in_month_eq:
  assumes "1 \<le> m" "m \<le> 12"
  shows "days_in_month y m = Some (if m = 2 \<and> \<not> leap_year y then 28 else month_days m)"
proof -
  have "m \<in> {1,2,3,4,5,6,7,8,9,10,11,12}" using assms by (simp, presburger)
  then show ?thesis by (auto simp: days_in_month_def month_days_def)
qed

lemma calendar_month_range:
  assumes "0 \<le> mp" "mp \<le> 11"
  shows "1 \<le> calendar_month mp" "calendar_month mp \<le> 12" "calendar_month mp = 2 \<longleftrightarrow> mp = 11"
    "calendar_month mp \<le> 2 \<longleftrightarrow> 10 \<le> mp"
  using assms by (auto simp: calendar_month_def)

lemma date_at_valid:
  assumes "era_day y doy" "date_at era y doy = (yy, m, d)"
  shows "valid_date yy m d" "1 \<le> m" "m \<le> 12"
proof -
  note b = era_day_bounds [OF assms(1)]
  note p = date_at_parts [OF b(3,4)]
  note c = calendar_month_range [OF p(1,2)]
  have m: "m = calendar_month (month_of doy)" and d: "d = doy - month_start (month_of doy) + 1"
    and yy: "yy = y + era * 400 + (if m \<le> 2 then 1 else 0)"
    using assms(2) by (auto simp: date_at_def Let_def)
  have "leap_year yy" if "m = 2" "d = 29"
  proof -
    have "month_of doy = 11" using that(1) c(3) m by simp
    then have "doy = 365" using p(6) that(2) d by simp
    then have "leap_year (y + 1)" using assms(1) by (simp add: era_day_def year_length_def split: if_splits)
    then show ?thesis using leap_year_era [of "y + 1" era] that(1) yy by (simp add: ac_simps)
  qed
  then have "d \<le> 28" if "m = 2" "\<not> leap_year yy" "d \<le> 29" using that by linarith
  moreover have "1 \<le> d" "d \<le> month_days m" using p(3,5) d m by simp_all
  ultimately show "valid_date yy m d"
    using c(1,2) m by (auto simp: valid_date_def days_in_month_eq month_days_def)
  show "1 \<le> m" "m \<le> 12" using c m by simp_all
qed

lemma valid_date_at:
  assumes "valid_date yy m d"
  obtains era y doy where "era_day y doy" "date_at era y doy = (yy, m, d)"
proof -
  obtain n where n: "days_in_month yy m = Some n" "1 \<le> d" "d \<le> n"
    using assms by (auto simp: valid_date_def split: option.splits)
  then have m: "1 \<le> m" "m \<le> 12" by (auto simp: days_in_month_def split: if_splits)
  then have d: "d \<le> month_days m" "m = 2 \<Longrightarrow> d = 29 \<Longrightarrow> leap_year yy"
    using n by (auto simp: days_in_month_eq month_days_def split: if_splits)
  define mp where "mp = (if m \<le> 2 then m + 9 else m - 3)"
  define y where "y = (if m \<le> 2 then yy - 1 else yy)"
  have mp: "0 \<le> mp" "mp \<le> 11" "calendar_month mp = m"
    using m by (auto simp: mp_def calendar_month_def)
  then have "mp \<in> set [0..11]" "d \<in> set [1..31]"
    using d(1) n(2) by (auto simp: month_days_def split: if_splits)
  then have doy: "month_of (month_start mp + d - 1) = mp" "0 \<le> month_start mp + d - 1"
    "month_start mp + d - 1 \<le> 365" "month_start mp + d - 1 = 365 \<Longrightarrow> mp = 11 \<and> d = 29"
    using days_of_months d(1) mp(3) by blast+
  have "leap_year (y mod 400 + 1)" if "month_start mp + d - 1 = 365"
  proof -
    have "m = 2" "d = 29" using doy(4) [OF that] calendar_month_range(3) [OF mp(1,2)] mp(3) by simp_all
    then have "leap_year (y + 1)" using d(2) by (simp add: y_def)
    then show ?thesis using leap_year_era [of "y mod 400 + 1" "y div 400"] by (simp add: ac_simps)
  qed
  then have "month_start mp + d - 1 < 365" if "\<not> leap_year (y mod 400 + 1)"
    using that doy(3) by linarith
  then have "era_day (y mod 400) (month_start mp + d - 1)"
    using doy(2,3) by (auto simp: era_day_def year_length_def)
  moreover have "date_at (y div 400) (y mod 400) (month_start mp + d - 1) = (yy, m, d)"
    using doy(1) mp(3) by (simp add: date_at_def y_def)
  ultimately show thesis using that by blast
qed

lemma days_from_civil_at:
  assumes "era_day y doy" "\<bar>era\<bar> \<le> 2 ^ 31" "date_at era y doy = (yy, m, d)"
  shows "days_from_civil yy m d = Some (day_at era y doy)"
proof -
  note b = era_day_bounds [OF assms(1)]
  note p = date_at_parts [OF b(3,4)]
  note c = calendar_month_range [OF p(1,2)]
  have m: "m = calendar_month (month_of doy)" and d: "d = doy - month_start (month_of doy) + 1"
    and yy: "yy = y + era * 400 + (if m \<le> 2 then 1 else 0)"
    using assms(3) by (auto simp: date_at_def Let_def)
  have yi: "(if m \<le> 2 then chk64 (yy - 1) else Some yy) = Some (y + era * 400)"
    using assms(2) b(1,2) by (simp add: yy in_i64_def abs_le_iff)
  have q: "(y + era * 400) div 400 = era" "(y + era * 400) mod 400 = y" using b(1,2) by simp_all
  have ms: "m + (if 2 < m then - 3 else 9) = month_of doy"
    using p(1,2) by (simp add: m calendar_month_def)
  have mi: "in_i64 (month_of doy)" "in_i64 (153 * month_of doy)" "in_i64 (153 * month_of doy + 2)"
    using p(1,2) by (simp_all add: in_i64_def)
  have mst: "(153 * month_of doy + 2) div 5 = month_start (month_of doy)" by (simp add: month_start_def)
  have di: "in_i64 (d - 1)" using p(3,4) b(3,4) by (simp add: in_i64_def d)
  have doy: "month_start (month_of doy) + (d - 1) = doy" by (simp add: d)
  have quot: "0 \<le> y div 4" "y div 4 \<le> 99" "0 \<le> y div 100" "y div 100 \<le> 3" using b(1,2) by linarith+
  have ys: "year_start y = y * 365 + y div 4 - y div 100" by (simp add: year_start_def)
  have ei: "in_i64 (y * 365)" "in_i64 (y * 365 + y div 4)" "in_i64 (year_start y)"
    "in_i64 (year_start y + doy)" "in_i64 doy"
    using b(1,2,3,4,5,6) quot year_start_bounds [OF b(1,2)] by (simp_all add: in_i64_def)
  have zi: "in_i64 (era * 146097)" "in_i64 (era * 146097 + (year_start y + doy))"
    "in_i64 (era * 146097 + (year_start y + doy) - 719468)"
    using assms(2) b(5,6) by (simp_all add: in_i64_def abs_le_iff)
  show ?thesis
    unfolding days_from_civil_def yi Let_def
    by (simp only: Option.bind.simps q ms mi chk64_Some mst di doy ei(1,2) ys [symmetric] ei zi)
       (simp add: day_at_def)
qed

section \<open>What an instant reads as\<close>

lemma days_within: "\<bar>sint (s :: i64) div SECONDS_PER_DAY\<bar> \<le> DAY_LIMIT"
  using in_i64_sint [of s] unfolding in_i64_def SECONDS_PER_DAY_def DAY_LIMIT_def
  by (simp add: abs_le_iff) linarith

lemma civil_parts:
  fixes s :: int
  shows "s mod 86400 div 3600 * 3600 + s mod 86400 mod 3600 div 60 * 60 + s mod 86400 mod 60 = s mod 86400"
    "0 \<le> s mod 86400 div 3600" "s mod 86400 div 3600 \<le> 23"
    "0 \<le> s mod 86400 mod 3600 div 60" "s mod 86400 mod 3600 div 60 \<le> 59"
    "0 \<le> s mod 86400 mod 60" "s mod 86400 mod 60 \<le> 59"
proof -
  define w where "w = s mod 86400"
  have w: "0 \<le> w" "w < 86400" by (simp_all add: w_def)
  have "w mod 60 = w mod 3600 mod 60" by (simp add: mod_mod_cancel)
  then have "w div 3600 * 3600 + w mod 3600 div 60 * 60 + w mod 60 = w"
    using div_mult_mod_eq [of w 3600] div_mult_mod_eq [of "w mod 3600" 60] by linarith
  then show "s mod 86400 div 3600 * 3600 + s mod 86400 mod 3600 div 60 * 60 + s mod 86400 mod 60 = s mod 86400"
    by (simp add: w_def)
  show "0 \<le> s mod 86400 div 3600" "s mod 86400 div 3600 \<le> 23"
    "0 \<le> s mod 86400 mod 3600 div 60" "s mod 86400 mod 3600 div 60 \<le> 59"
    "0 \<le> s mod 86400 mod 60" "s mod 86400 mod 60 \<le> 59"
    using w zdiv_mono1 [of w 86399 3600] zdiv_mono1 [of "w mod 3600" 3599 60] pos_mod_bound [of 3600 w]
      pos_mod_bound [of 60 w] unfolding w_def [symmetric] by (simp_all add: pos_imp_zdiv_nonneg_iff)
qed

lemma civil_of_eq:
  obtains era y doy where "era_day y doy" "\<bar>era\<bar> \<le> 2 ^ 31"
    "sint (seconds t) div SECONDS_PER_DAY = day_at era y doy"
    "date_at era y doy = (year (civil_of t), month (civil_of t), day (civil_of t))"
proof -
  obtain era y doy where at: "era_day y doy" "sint (seconds t) div SECONDS_PER_DAY = day_at era y doy"
    by (rule day_has_era)
  have lim: "\<bar>day_at era y doy\<bar> \<le> DAY_LIMIT" using days_within [of "seconds t"] at(2) by simp
  have "civil_from_days (sint (seconds t) div SECONDS_PER_DAY) = date_at era y doy"
    using civil_from_days_at [OF at(1) lim] at(2) by simp
  then have "date_at era y doy = (year (civil_of t), month (civil_of t), day (civil_of t))"
    by (simp add: civil_of_def Let_def split: prod.splits)
  then show thesis using that at era_of_limit [OF at(1) lim] by blast
qed

lemma civil_time_of:
  "hour (civil_of t) = sint (seconds t) mod 86400 div 3600"
  "minute (civil_of t) = sint (seconds t) mod 86400 mod 3600 div 60"
  "second (civil_of t) = sint (seconds t) mod 86400 mod 60"
  by (simp_all add: civil_of_def Let_def SECONDS_PER_DAY_def SECONDS_PER_HOUR_def SECONDS_PER_MINUTE_def
      split: prod.splits)

text \<open>C29: the date an instant reads as exists, its wall clock is within a day, and it is read back to
the day and the second of the instant, on every instant the store can hold.\<close>

theorem civil_reads_back:
  "valid_date (year (civil_of t)) (month (civil_of t)) (day (civil_of t))
   \<and> 0 \<le> hour (civil_of t) \<and> hour (civil_of t) \<le> 23
   \<and> 0 \<le> minute (civil_of t) \<and> minute (civil_of t) \<le> 59
   \<and> 0 \<le> second (civil_of t) \<and> second (civil_of t) \<le> 59
   \<and> (\<exists>days. days_from_civil (year (civil_of t)) (month (civil_of t)) (day (civil_of t)) = Some days
       \<and> days * 86400 + hour (civil_of t) * 3600 + minute (civil_of t) * 60 + second (civil_of t)
         = sint (seconds t))"
proof -
  obtain era y doy where at: "era_day y doy" "\<bar>era\<bar> \<le> 2 ^ 31"
    "sint (seconds t) div SECONDS_PER_DAY = day_at era y doy"
    "date_at era y doy = (year (civil_of t), month (civil_of t), day (civil_of t))"
    by (rule civil_of_eq)
  have "days_from_civil (year (civil_of t)) (month (civil_of t)) (day (civil_of t))
      = Some (sint (seconds t) div 86400)"
    using days_from_civil_at [OF at(1,2,4)] at(3) by (simp add: SECONDS_PER_DAY_def)
  moreover have "sint (seconds t) div 86400 * 86400 + hour (civil_of t) * 3600 + minute (civil_of t) * 60
      + second (civil_of t) = sint (seconds t)"
    using civil_parts(1) [of "sint (seconds t)"] div_mult_mod_eq [of "sint (seconds t)" 86400]
    unfolding civil_time_of by linarith
  ultimately show ?thesis
    using date_at_valid(1) [OF at(1,4)] civil_parts(2-7) [of "sint (seconds t)"]
    unfolding civil_time_of by blast
qed

text \<open>The other direction: a date that exists is the one its day is read as.\<close>

theorem date_reads_back:
  assumes "valid_date yy m d" "days_from_civil yy m d = Some n" "\<bar>n\<bar> \<le> DAY_LIMIT" "\<bar>yy\<bar> \<le> 2 ^ 39"
  shows "civil_from_days n = (yy, m, d)"
proof -
  obtain era y doy where at: "era_day y doy" "date_at era y doy = (yy, m, d)"
    using valid_date_at [OF assms(1)] .
  have "y + era * 400 \<le> yy" "yy \<le> y + era * 400 + 1" using at(2) by (auto simp: date_at_def Let_def)
  then have "\<bar>era\<bar> \<le> 2 ^ 31" using era_day_bounds(1,2) [OF at(1)] assms(4) by (simp add: abs_le_iff)
  then have "n = day_at era y doy" using days_from_civil_at [OF at(1) _ at(2)] assms(2) by simp
  then show ?thesis using civil_from_days_at [OF at(1)] assms(3) at(2) by simp
qed

end
