(* ===== verification/Texts.thy ===== *)
theory Texts
  imports Calendar
begin

text \<open>The texts of instants, spans, identifiers and strings (text.rs of tessari-types).  A
\<^verbatim>\<open>str\<close> is the list of its characters, each a Unicode scalar value; the program indexes it
by bytes, so a character counts for the bytes it takes in UTF-8 and an index that falls within one
answers nothing.\<close>

section \<open>Characters and strings\<close>

type_synonym uchar = nat
type_synonym ustr = "uchar list"

definition lit :: "string \<Rightarrow> ustr" where
  "lit s = map of_char s"

definition len_utf8 :: "uchar \<Rightarrow> nat" where
  "len_utf8 c = (if c < 0x80 then 1 else if c < 0x800 then 2 else if c < 0x10000 then 3 else 4)"

definition ustr_len :: "ustr \<Rightarrow> nat" where
  "ustr_len s = sum_list (map len_utf8 s)"

definition utf8_of_char :: "uchar \<Rightarrow> nat list" where
  "utf8_of_char c =
    (if c < 0x80 then [c]
     else if c < 0x800 then [0xC0 + c div 64, 0x80 + c mod 64]
     else if c < 0x10000 then [0xE0 + c div 4096, 0x80 + c div 64 mod 64, 0x80 + c mod 64]
     else [0xF0 + c div 262144, 0x80 + c div 4096 mod 64, 0x80 + c div 64 mod 64, 0x80 + c mod 64])"

definition as_bytes :: "ustr \<Rightarrow> nat list" where
  "as_bytes s = concat (map utf8_of_char s)"

text \<open>\<^verbatim>\<open>str::get\<close>: the part from one byte to another.\<close>

fun ustr_from :: "ustr \<Rightarrow> nat \<Rightarrow> ustr option" where
  "ustr_from [] n = (if n = 0 then Some [] else None)"
| "ustr_from (c # s) n =
    (if n = 0 then Some (c # s) else if len_utf8 c \<le> n then ustr_from s (n - len_utf8 c) else None)"

fun ustr_to :: "ustr \<Rightarrow> nat \<Rightarrow> ustr option" where
  "ustr_to [] n = (if n = 0 then Some [] else None)"
| "ustr_to (c # s) n =
    (if n = 0 then Some []
     else if len_utf8 c \<le> n then map_option (Cons c) (ustr_to s (n - len_utf8 c)) else None)"

definition ustr_get :: "ustr \<Rightarrow> nat \<Rightarrow> nat \<Rightarrow> ustr option" where
  "ustr_get s a b = (if a \<le> b then ustr_from s a \<bind> (\<lambda>r. ustr_to r (b - a)) else None)"

definition is_ascii_digit :: "uchar \<Rightarrow> bool" where
  "is_ascii_digit c \<longleftrightarrow> 48 \<le> c \<and> c \<le> 57"

text \<open>Decimal digits as the program formats and parses them: \<^verbatim>\<open>to_string\<close>, a width with
leading zeros that counts the sign, and the value of a run of digits.\<close>

fun show_nat :: "nat \<Rightarrow> ustr" where
  "show_nat n = (if n < 10 then [48 + n] else show_nat (n div 10) @ [48 + n mod 10])"

declare show_nat.simps [simp del]

definition padded :: "nat \<Rightarrow> ustr \<Rightarrow> ustr" where
  "padded w s = replicate (w - length s) 48 @ s"

definition show_padded :: "nat \<Rightarrow> int \<Rightarrow> ustr" where
  "show_padded w i = (if i < 0 then 45 # padded (w - 1) (show_nat (nat (- i))) else padded w (show_nat (nat i)))"

definition dec_value :: "ustr \<Rightarrow> nat" where
  "dec_value s = foldl (\<lambda>v c. 10 * v + (c - 48)) 0 s"

definition parse_digits :: "ustr \<Rightarrow> int option" where
  "parse_digits s = (if s = [] \<or> \<not> list_all is_ascii_digit s then None else chk64 (int (dec_value s)))"

section \<open>Instants\<close>

definition NANOS_DIGITS :: nat where "NANOS_DIGITS = 9"

definition fraction :: "ustr \<Rightarrow> (u32 \<times> ustr) option" where
  "fraction tail =
    (case tail of
       c # rest \<Rightarrow>
         if c = 46 then
           (let written = takeWhile is_ascii_digit rest in
            if written = [] \<or> NANOS_DIGITS < length written then None
            else do {
              v \<leftarrow> parse_digits (written @ replicate (NANOS_DIGITS - length written) 48);
              if v < 2 ^ 32 then Some (word_of_int v, dropWhile is_ascii_digit rest) else None
            })
         else Some (0, tail)
     | [] \<Rightarrow> Some (0, tail))"

definition offset_seconds :: "ustr \<Rightarrow> int option" where
  "offset_seconds zone =
    (if zone = [122] \<or> zone = [90] then Some 0
     else do {
       s \<leftarrow> ustr_get zone 0 1;
       sgn \<leftarrow> (if s = [43] then Some 1 else if s = [45] then Some (- 1) else None);
       body \<leftarrow> ustr_from zone 1;
       (if ustr_len body \<noteq> 5 then None
        else do {
          colon \<leftarrow> ustr_get body 2 3;
          (if colon \<noteq> [58] then None
           else do {
             hours \<leftarrow> ustr_get body 0 2 \<bind> parse_digits;
             minutes \<leftarrow> ustr_get body 3 5 \<bind> parse_digits;
             (if 23 < hours \<or> 59 < minutes then None
              else do {
                h \<leftarrow> chk64 (hours * SECONDS_PER_HOUR);
                m \<leftarrow> chk64 (minutes * SECONDS_PER_MINUTE);
                a \<leftarrow> chk64 (h + m);
                chk64 (a * sgn)
              })
           })
        })
     })"

text \<open>A character that has to stand at a place.\<close>

definition expect_at :: "ustr \<Rightarrow> nat \<Rightarrow> uchar set \<Rightarrow> unit option" where
  "expect_at s i cs =
    do { c \<leftarrow> ustr_get s i (i + 1); if \<exists>x \<in> cs. c = [x] then Some () else None }"

definition parse_rfc3339 :: "ustr \<Rightarrow> time_pair option" where
  "parse_rfc3339 s = do {
     y \<leftarrow> ustr_get s 0 4 \<bind> parse_digits;
     expect_at s 4 {45};
     mo \<leftarrow> ustr_get s 5 7 \<bind> parse_digits;
     expect_at s 7 {45};
     d \<leftarrow> ustr_get s 8 10 \<bind> parse_digits;
     expect_at s 10 {116, 84};
     h \<leftarrow> ustr_get s 11 13 \<bind> parse_digits;
     expect_at s 13 {58};
     mi \<leftarrow> ustr_get s 14 16 \<bind> parse_digits;
     expect_at s 16 {58};
     se \<leftarrow> ustr_get s 17 19 \<bind> parse_digits;
     (if d < 1 \<or> 23 < h \<or> 59 < mi \<or> 59 < se then None
      else do {
        n \<leftarrow> days_in_month y mo;
        (if n < d then None
         else do {
           (ns, zone) \<leftarrow> ustr_from s 19 \<bind> fraction;
           offset \<leftarrow> offset_seconds zone;
           days \<leftarrow> days_from_civil y mo d;
           a \<leftarrow> chk64 (days * SECONDS_PER_DAY);
           b \<leftarrow> chk64 (h * SECONDS_PER_HOUR);
           a \<leftarrow> chk64 (a + b);
           b \<leftarrow> chk64 (mi * SECONDS_PER_MINUTE);
           a \<leftarrow> chk64 (a + b);
           a \<leftarrow> chk64 (a + se);
           a \<leftarrow> chk64 (a - offset);
           time_new (word_of_int a) ns
         })
      })
   }"

definition trim_zeros :: "ustr \<Rightarrow> ustr" where
  "trim_zeros s = rev (dropWhile (\<lambda>c. c = 48) (rev s))"

definition to_rfc3339 :: "time_pair \<Rightarrow> ustr" where
  "to_rfc3339 t =
    (let c = civil_of t in
     show_padded 4 (year c) @ [45] @ show_padded 2 (month c) @ [45] @ show_padded 2 (day c) @ [84]
     @ show_padded 2 (hour c) @ [58] @ show_padded 2 (minute c) @ [58] @ show_padded 2 (second c)
     @ (if 0 < nanos t then 46 # trim_zeros (show_padded 9 (uint (nanos t))) else [])
     @ [90])"

section \<open>Spans\<close>

text \<open>The units of a span, largest first, each written only when it is held.\<close>

fun write_units :: "(string \<times> nat) list \<Rightarrow> nat \<Rightarrow> ustr \<times> nat" where
  "write_units [] whole = ([], whole)"
| "write_units ((u, per) # us) whole =
    (let held = whole div per;
         (out, left) = write_units us (if 0 < held then whole mod per else whole)
     in ((if 0 < held then show_nat held @ lit u else []) @ out, left))"

definition duration_to_literal :: "time_pair \<Rightarrow> ustr" where
  "duration_to_literal t =
    (let negative = sint (seconds t) < 0;
         magnitude = nat \<bar>sint (seconds t)\<bar>;
         (whole, ns) =
           (if negative \<and> 0 < nanos t then (magnitude - 1, 1000000000 - unat (nanos t))
            else (magnitude, unat (nanos t)));
         (big, whole) = write_units [(''h'', 3600), (''m'', 60)] whole;
         out = (if negative then [45] else []) @ big
           @ (if 0 < whole then show_nat whole @ lit ''s'' else [])
           @ (if 0 < ns then fst (write_units [(''ms'', 1000000), (''us'', 1000), (''ns'', 1)] ns) else [])
     in if out = [] \<or> out = [45] then out @ lit ''0s'' else out)"

section \<open>Identifiers and strings\<close>

definition text_hex_value :: "nat \<Rightarrow> nat option" where
  "text_hex_value c =
    (if 48 \<le> c \<and> c \<le> 57 then Some (c - 48)
     else if 97 \<le> c \<and> c \<le> 102 then Some (c - 97 + 10)
     else if 65 \<le> c \<and> c \<le> 70 then Some (c - 65 + 10)
     else None)"

fun hex_pairs :: "nat list \<Rightarrow> bytes option" where
  "hex_pairs (high # low # rest) = do {
     h \<leftarrow> text_hex_value high;
     l \<leftarrow> text_hex_value low;
     bs \<leftarrow> hex_pairs rest;
     Some (word_of_nat (h * 16 + l) # bs)
   }"
| "hex_pairs _ = Some []"

definition HYPHENS :: "nat list" where "HYPHENS = [8, 13, 18, 23]"

definition parse_uuid :: "ustr \<Rightarrow> bytes option" where
  "parse_uuid s = do {
     plain \<leftarrow>
       (if ustr_len s = 36 then
          (if list_all (\<lambda>p. ustr_get s p (p + 1) = Some [45]) HYPHENS
           then Some (filter (\<lambda>c. c \<noteq> 45) s) else None)
        else Some s);
     if ustr_len plain \<noteq> 32 then None else hex_pairs (as_bytes plain)
   }"

definition hex_digit :: "nat \<Rightarrow> uchar" where
  "hex_digit n = (if n < 10 then 48 + n else 87 + n)"

definition show_hex2 :: "u8 \<Rightarrow> ustr" where
  "show_hex2 b = [hex_digit (unat b div 16), hex_digit (unat b mod 16)]"

definition uuid_to_text :: "bytes \<Rightarrow> ustr" where
  "uuid_to_text bs =
    concat (map (\<lambda>(i, b). (if i \<in> {4, 6, 8, 10} then [45] else []) @ show_hex2 b) (enumerate 0 bs))"

definition escape_char :: "uchar \<Rightarrow> ustr" where
  "escape_char c =
    (if c = 39 then [92, 39] else if c = 92 then [92, 92] else if c = 10 then [92, 110]
     else if c = 13 then [92, 114] else if c = 9 then [92, 116] else [c])"

definition string_to_literal :: "ustr \<Rightarrow> ustr" where
  "string_to_literal s = [39] @ concat (map escape_char s) @ [39]"

text \<open>The article a noun takes in a message.\<close>

definition article :: "ustr \<Rightarrow> ustr" where
  "article word =
    (case word of
       c # _ \<Rightarrow>
         (let lower = (if 65 \<le> c \<and> c \<le> 90 then c + 32 else c) in
          if lower \<in> {97, 101, 105, 111, 117} then lit ''an'' else lit ''a'')
     | [] \<Rightarrow> lit ''a'')"

section \<open>Digits\<close>

lemma dec_value_snoc [simp]: "dec_value (s @ [c]) = 10 * dec_value s + (c - 48)"
  by (simp add: dec_value_def)

lemma dec_value_Nil [simp]: "dec_value [] = 0"
  by (simp add: dec_value_def)

lemma dec_value_zeros [simp]: "dec_value (replicate k 48 @ s) = dec_value s"
  by (induction k) (simp_all add: dec_value_def)

lemma digit_of_rest [simp]: "is_ascii_digit (48 + n mod 10)"
  using mod_less_divisor [of 10 n] by (simp add: is_ascii_digit_def del: mod_less_divisor)

lemma show_nat_digits: "list_all is_ascii_digit (show_nat n)"
proof (induction n rule: show_nat.induct)
  case (1 n)
  then show ?case by (auto simp: show_nat.simps [of n] is_ascii_digit_def [of "48 + n"])
qed

lemma show_nat_not_Nil [simp]: "show_nat n \<noteq> []"
  by (simp add: show_nat.simps [of n])

lemma dec_value_show_nat [simp]: "dec_value (show_nat n) = n"
proof (induction n rule: show_nat.induct)
  case (1 n)
  then show ?case by (simp add: show_nat.simps [of n] dec_value_def [of "[_]"])
qed

text \<open>Digits at a fixed width, which is what a padded number is.\<close>

primrec fixed_digits :: "nat \<Rightarrow> nat \<Rightarrow> ustr" where
  "fixed_digits 0 n = []"
| "fixed_digits (Suc w) n = fixed_digits w (n div 10) @ [48 + n mod 10]"

lemma fixed_digits_facts [simp]:
  "length (fixed_digits w n) = w" "list_all is_ascii_digit (fixed_digits w n)"
  by (induction w arbitrary: n) simp_all

lemma dec_value_fixed: "n < 10 ^ w \<Longrightarrow> dec_value (fixed_digits w n) = n"
proof (induction w arbitrary: n)
  case (Suc w)
  then have "n div 10 < 10 ^ w" by (simp add: less_mult_imp_div_less mult.commute)
  then show ?case using Suc.IH by simp
qed simp

lemma fixed_digits_zero: "fixed_digits w 0 = replicate w 48"
  by (induction w) (simp_all add: replicate_append_same [symmetric])

lemma padded_show_nat: "n < 10 ^ w \<Longrightarrow> 0 < w \<Longrightarrow> padded w (show_nat n) = fixed_digits w n"
proof (induction n arbitrary: w rule: show_nat.induct)
  case (1 n)
  obtain v where w: "w = Suc v" using 1(3) by (cases w) simp_all
  show ?case
  proof (cases "n < 10")
    case True
    then show ?thesis by (simp add: w padded_def show_nat.simps [of n] fixed_digits_zero)
  next
    case False
    then have "n div 10 < 10 ^ v" "0 < v" using 1(2) w
      by (simp_all add: less_mult_imp_div_less mult.commute, cases v) simp_all
    then have "padded v (show_nat (n div 10)) = fixed_digits v (n div 10)" using 1(1) [OF False] by simp
    then show ?thesis using False by (simp add: w padded_def show_nat.simps [of n])
  qed
qed

lemma show_padded_fixed:
  assumes "0 \<le> i" "i < 10 ^ w" "0 < w"
  shows "show_padded w i = fixed_digits w (nat i)"
proof -
  have "nat i < 10 ^ w" using assms by (simp add: nat_less_iff)
  then show ?thesis using assms padded_show_nat by (simp add: show_padded_def)
qed

lemma parse_digits_fixed:
  assumes "n < 10 ^ w" "0 < w" "w \<le> 18"
  shows "parse_digits (fixed_digits w n) = Some (int n)"
proof -
  have "(10 :: nat) ^ w \<le> 10 ^ 18" using assms(3) by (intro power_increasing) simp_all
  then have "in_i64 (int n)" using assms(1) by (simp add: in_i64_def)
  moreover have "fixed_digits w n \<noteq> []" using assms(2) fixed_digits_facts(1) by (metis length_0_conv less_irrefl)
  ultimately show ?thesis using assms(1) by (simp add: parse_digits_def dec_value_fixed)
qed

lemma dec_value_bound: "list_all is_ascii_digit s \<Longrightarrow> dec_value s < 10 ^ length s"
proof (induction s rule: rev_induct)
  case (snoc c s)
  then have "dec_value s < 10 ^ length s" "c - 48 \<le> 9" by (auto simp: is_ascii_digit_def)
  then show ?case by simp
qed simp

section \<open>Texts of one byte a character\<close>

lemma len_utf8_ascii [simp]: "c < 128 \<Longrightarrow> len_utf8 c = 1"
  by (simp add: len_utf8_def)

lemma digit_ascii: "list_all is_ascii_digit s \<Longrightarrow> list_all (\<lambda>c. c < 128) s"
  by (auto simp: list_all_iff is_ascii_digit_def)

lemma ustr_from_prefix:
  "list_all (\<lambda>c. c < 128) a \<Longrightarrow> n \<le> length a \<Longrightarrow> ustr_from (a @ b) n = Some (drop n a @ b)"
proof (induction a arbitrary: n)
  case (Cons c a)
  then show ?case by (cases n) simp_all
qed (cases b; simp)

lemma ustr_to_prefix:
  "list_all (\<lambda>c. c < 128) a \<Longrightarrow> n \<le> length a \<Longrightarrow> ustr_to (a @ b) n = Some (take n a)"
proof (induction a arbitrary: n)
  case (Cons c a)
  then show ?case by (cases n) simp_all
qed (cases b; simp)

lemma ustr_get_prefix:
  assumes "list_all (\<lambda>c. c < 128) a" "i \<le> j" "j \<le> length a"
  shows "ustr_get (a @ b) i j = Some (take (j - i) (drop i a))"
proof -
  have "list_all (\<lambda>c. c < 128) (drop i a)" using assms(1) by (auto simp: list_all_iff dest: in_set_dropD)
  then show ?thesis using assms by (simp add: ustr_get_def ustr_from_prefix ustr_to_prefix)
qed

lemmas ustr_from_ascii = ustr_from_prefix [where b = "[]", simplified]
lemmas ustr_get_ascii = ustr_get_prefix [where b = "[]", simplified]

section \<open>Instants read back\<close>

lemma trim_zeros_split: "s = trim_zeros s @ replicate (length s - length (trim_zeros s)) 48"
proof -
  define z where "z = takeWhile (\<lambda>c. c = 48) (rev s)"
  have z: "z = replicate (length z) 48" using set_takeWhileD [of _ "\<lambda>c. c = 48" "rev s"]
    by (metis z_def replicate_length_same)
  have "rev s = z @ dropWhile (\<lambda>c. c = 48) (rev s)" by (simp add: z_def)
  then have "s = trim_zeros s @ rev z" unfolding trim_zeros_def by (metis rev_append rev_rev_ident)
  moreover from this have "length s = length (trim_zeros s) + length z" by (metis length_append length_rev)
  ultimately show ?thesis using z by (metis add_diff_cancel_left' rev_replicate)
qed

lemma trim_zeros_digits: "list_all is_ascii_digit s \<Longrightarrow> list_all is_ascii_digit (trim_zeros s)"
  by (subst (asm) trim_zeros_split) simp

lemma fraction_of_nanos:
  assumes "0 < n" "n < 10 ^ 9"
  shows "fraction (46 # trim_zeros (fixed_digits 9 n) @ [90]) = Some (word_of_nat n, [90])"
proof -
  define w where "w = trim_zeros (fixed_digits 9 n)"
  have split: "fixed_digits 9 n = w @ replicate (9 - length w) 48"
    using trim_zeros_split [of "fixed_digits 9 n"] by (simp add: w_def)
  have "length (fixed_digits 9 n) = length w + (9 - length w)" by (subst split) simp
  then have w: "list_all is_ascii_digit w" "length w \<le> 9"
    using trim_zeros_digits [OF fixed_digits_facts(2)] by (simp_all add: w_def)
  have "w \<noteq> []"
  proof
    assume "w = []"
    then have "dec_value (fixed_digits 9 n) = 0" using split dec_value_zeros [of 9 "[]"] by simp
    then show False using assms dec_value_fixed by simp
  qed
  moreover have "takeWhile is_ascii_digit (w @ [90]) = w" "dropWhile is_ascii_digit (w @ [90]) = [90]"
    using w(1) by (simp_all add: list_all_iff is_ascii_digit_def [of 90])
  moreover have "parse_digits (w @ replicate (9 - length w) 48) = Some (int n)"
    using parse_digits_fixed [of n 9] assms(2) split by simp
  moreover have "int n < 2 ^ 32" using assms(2) by simp
  ultimately show ?thesis
    using w(2) by (simp add: fraction_def w_def [symmetric] Let_def NANOS_DIGITS_def)
qed

definition stamp_text :: "nat \<Rightarrow> nat \<Rightarrow> nat \<Rightarrow> nat \<Rightarrow> nat \<Rightarrow> nat \<Rightarrow> ustr \<Rightarrow> ustr" where
  "stamp_text y mo d h mi se tail =
    fixed_digits 4 y @ [45] @ fixed_digits 2 mo @ [45] @ fixed_digits 2 d @ [84]
    @ fixed_digits 2 h @ [58] @ fixed_digits 2 mi @ [58] @ fixed_digits 2 se @ tail"

lemma stamp_text_ascii: "list_all (\<lambda>c. c < 128) tail \<Longrightarrow> list_all (\<lambda>c. c < 128) (stamp_text y mo d h mi se tail)"
  by (simp add: stamp_text_def digit_ascii)

lemma length_stamp_text: "length (stamp_text y mo d h mi se tail) = 19 + length tail"
  by (simp add: stamp_text_def)

lemma stamp_text_gets:
  assumes "list_all (\<lambda>c. c < 128) tail"
  shows "ustr_get (stamp_text y mo d h mi se tail) 0 4 = Some (fixed_digits 4 y)"
    "expect_at (stamp_text y mo d h mi se tail) 4 {45} = Some ()"
    "ustr_get (stamp_text y mo d h mi se tail) 5 7 = Some (fixed_digits 2 mo)"
    "expect_at (stamp_text y mo d h mi se tail) 7 {45} = Some ()"
    "ustr_get (stamp_text y mo d h mi se tail) 8 10 = Some (fixed_digits 2 d)"
    "expect_at (stamp_text y mo d h mi se tail) 10 {116, 84} = Some ()"
    "ustr_get (stamp_text y mo d h mi se tail) 11 13 = Some (fixed_digits 2 h)"
    "expect_at (stamp_text y mo d h mi se tail) 13 {58} = Some ()"
    "ustr_get (stamp_text y mo d h mi se tail) 14 16 = Some (fixed_digits 2 mi)"
    "expect_at (stamp_text y mo d h mi se tail) 16 {58} = Some ()"
    "ustr_get (stamp_text y mo d h mi se tail) 17 19 = Some (fixed_digits 2 se)"
    "ustr_from (stamp_text y mo d h mi se tail) 19 = Some tail"
  unfolding expect_at_def
  by (simp_all add: ustr_get_ascii [OF stamp_text_ascii [OF assms]]
      ustr_from_ascii [OF stamp_text_ascii [OF assms]] length_stamp_text) (simp_all add: stamp_text_def)

lemma parse_stamp_text:
  assumes "y < 10000" "mo < 100" "d < 100" "h \<le> 23" "mi \<le> 59" "se \<le> 59"
    and date: "valid_date (int y) (int mo) (int d)" and "list_all (\<lambda>c. c < 128) tail"
    and "fraction tail = Some (ns, [90])" "days_from_civil (int y) (int mo) (int d) = Some days"
    and whole: "days * 86400 + int h * 3600 + int mi * 60 + int se = sint s"
    and small: "\<bar>days\<bar> \<le> 2 ^ 40"
  shows "parse_rfc3339 (stamp_text y mo d h mi se tail) = time_new s ns"
proof -
  obtain n where n: "days_in_month (int y) (int mo) = Some n" "1 \<le> int d" "int d \<le> n"
    using date by (auto simp: valid_date_def split: option.splits)
  have p: "parse_digits (fixed_digits 4 y) = Some (int y)" "parse_digits (fixed_digits 2 mo) = Some (int mo)"
    "parse_digits (fixed_digits 2 d) = Some (int d)" "parse_digits (fixed_digits 2 h) = Some (int h)"
    "parse_digits (fixed_digits 2 mi) = Some (int mi)" "parse_digits (fixed_digits 2 se) = Some (int se)"
    using assms(1-6) by (simp_all add: parse_digits_fixed)
  have "in_i64 (days * 86400 + int h * 3600 + int mi * 60 + int se)" unfolding whole by simp
  then have i: "in_i64 (days * 86400 + int h * 3600 + int mi * 60 + int se)" "in_i64 (days * 86400)"
    "in_i64 (days * 86400 + int h * 3600)" "in_i64 (days * 86400 + int h * 3600 + int mi * 60)"
    "in_i64 (int h * 3600)" "in_i64 (int mi * 60)"
    using assms(4-6) small by (auto simp: in_i64_def abs_le_iff)
  show ?thesis
    using n i whole assms(4-6,9,10) unfolding parse_rfc3339_def
    by (simp add: stamp_text_gets [OF assms(8)] p offset_seconds_def SECONDS_PER_DAY_def SECONDS_PER_HOUR_def
        SECONDS_PER_MINUTE_def)
qed

definition time_ok :: "time_pair \<Rightarrow> bool" where
  "time_ok t \<longleftrightarrow> nanos t < NANOS_PER_SECOND"

lemma civil_ranges:
  "1 \<le> month (civil_of t)" "month (civil_of t) \<le> 12" "1 \<le> day (civil_of t)" "day (civil_of t) \<le> 31"
  "0 \<le> hour (civil_of t)" "hour (civil_of t) \<le> 23" "0 \<le> minute (civil_of t)" "minute (civil_of t) \<le> 59"
  "0 \<le> second (civil_of t)" "second (civil_of t) \<le> 59"
proof -
  obtain era y doy where at: "era_day y doy"
    "date_at era y doy = (year (civil_of t), month (civil_of t), day (civil_of t))"
    by (rule civil_of_eq)
  show "1 \<le> month (civil_of t)" "month (civil_of t) \<le> 12" "1 \<le> day (civil_of t)" "day (civil_of t) \<le> 31"
    using date_at_valid [OF at] by (auto simp: valid_date_def days_in_month_def split: if_splits)
  show "0 \<le> hour (civil_of t)" "hour (civil_of t) \<le> 23" "0 \<le> minute (civil_of t)" "minute (civil_of t) \<le> 59"
    "0 \<le> second (civil_of t)" "second (civil_of t) \<le> 59"
    unfolding civil_time_of by (rule civil_parts)+
qed

lemma to_rfc3339_stamp:
  assumes "0 \<le> year (civil_of t)" "year (civil_of t) \<le> 9999"
  shows "to_rfc3339 t = stamp_text (nat (year (civil_of t))) (nat (month (civil_of t))) (nat (day (civil_of t)))
    (nat (hour (civil_of t))) (nat (minute (civil_of t))) (nat (second (civil_of t)))
    ((if 0 < nanos t then 46 # trim_zeros (show_padded 9 (uint (nanos t))) else []) @ [90])"
proof -
  define c where "c = civil_of t"
  have "show_padded 4 (year c) = fixed_digits 4 (nat (year c))"
    "show_padded 2 (month c) = fixed_digits 2 (nat (month c))" "show_padded 2 (day c) = fixed_digits 2 (nat (day c))"
    "show_padded 2 (hour c) = fixed_digits 2 (nat (hour c))"
    "show_padded 2 (minute c) = fixed_digits 2 (nat (minute c))"
    "show_padded 2 (second c) = fixed_digits 2 (nat (second c))"
    using civil_ranges [of t] assms unfolding c_def [symmetric] by (simp_all add: show_padded_fixed)
  then show ?thesis by (simp add: to_rfc3339_def stamp_text_def Let_def c_def)
qed

lemma parse_beyond:
  assumes "year (civil_of t) < 0 \<or> 9999 < year (civil_of t)"
  shows "parse_rfc3339 (to_rfc3339 t) = None"
proof -
  define y where "y = year (civil_of t)"
  obtain rest where written: "to_rfc3339 t = show_padded 4 y @ [45] @ rest"
    by (simp add: to_rfc3339_def Let_def y_def)
  show ?thesis
  proof (cases "y < 0")
    case True
    then have "parse_digits (45 # r) = None" for r by (simp add: parse_digits_def is_ascii_digit_def)
    moreover obtain r where "to_rfc3339 t = 45 # r" using written True by (simp add: show_padded_def)
    ultimately have "ustr_get (to_rfc3339 t) 0 4 \<bind> parse_digits = None"
      by (auto simp: ustr_get_def split: bind_splits)
    then show ?thesis by (simp add: parse_rfc3339_def)
  next
    case False
    then have big: "9999 < nat y" using assms by (auto simp: y_def)
    have five: "5 \<le> length (show_nat (nat y))"
    proof (rule ccontr)
      assume "\<not> 5 \<le> length (show_nat (nat y))"
      then have "(10 :: nat) ^ length (show_nat (nat y)) \<le> 10 ^ 4" by (intro power_increasing) simp_all
      moreover have "nat y < 10 ^ length (show_nat (nat y))"
        using dec_value_bound [OF show_nat_digits, of "nat y"] by (simp only: dec_value_show_nat)
      ultimately have "nat y < 10 ^ 4" by (rule less_le_trans [rotated])
      then show False using big by simp
    qed
    then have "to_rfc3339 t = show_nat (nat y) @ [45] @ rest"
      using written False by (simp add: show_padded_def padded_def)
    then have "ustr_get (to_rfc3339 t) 4 5 = Some [show_nat (nat y) ! 4]"
      using ustr_get_prefix [OF digit_ascii [OF show_nat_digits], of 4 5 "nat y" "[45] @ rest"] five
      by (simp add: take_Suc_conv_app_nth hd_drop_conv_nth take_Suc)
    moreover have "is_ascii_digit (show_nat (nat y) ! 4)"
      using show_nat_digits [of "nat y"] five by (simp add: list_all_length)
    then have "show_nat (nat y) ! 4 \<noteq> 45" by (auto simp: is_ascii_digit_def)
    ultimately have "expect_at (to_rfc3339 t) 4 {45} = None" by (simp add: expect_at_def)
    then show ?thesis by (auto simp: parse_rfc3339_def split: bind_splits)
  qed
qed

text \<open>C30: an instant is read back from its own text, with every digit of its fraction, when its year is
written in four digits; the text of any other instant is refused, not misread.\<close>

theorem instant_text_round_trip:
  assumes "time_ok t"
  shows "parse_rfc3339 (to_rfc3339 t)
    = (if 0 \<le> year (civil_of t) \<and> year (civil_of t) \<le> 9999 then Some t else None)"
proof (cases "0 \<le> year (civil_of t) \<and> year (civil_of t) \<le> 9999")
  case True
  define c where "c = civil_of t"
  obtain era y doy where at: "era_day y doy" "\<bar>era\<bar> \<le> 2 ^ 31"
    "sint (seconds t) div SECONDS_PER_DAY = day_at era y doy"
    "date_at era y doy = (year c, month c, day c)"
    unfolding c_def by (rule civil_of_eq)
  have v: "valid_date (year c) (month c) (day c)" "1 \<le> month c" "month c \<le> 12"
    using date_at_valid [OF at(1,4)] by simp_all
  have "year c \<le> y + era * 400 + 1" "y + era * 400 \<le> year c" using at(4) by (auto simp: date_at_def Let_def split: if_splits)
  then have "- 2 \<le> era" "era \<le> 25" using era_day_bounds(1,2) [OF at(1)] True by (simp_all add: c_def)
  then have small: "\<bar>day_at era y doy\<bar> \<le> 2 ^ 40"
    using era_day_bounds(5,6) [OF at(1)] by (simp add: day_at_def abs_le_iff)
  define tail where "tail = (if 0 < nanos t then 46 # trim_zeros (show_padded 9 (uint (nanos t))) else []) @ [90]"
  have n: "uint (nanos t) < 10 ^ 9" using assms by (simp add: time_ok_def NANOS_PER_SECOND_def word_less_def)
  have below: "unat (nanos t) < 10 ^ 9"
    using assms by (simp add: time_ok_def NANOS_PER_SECOND_def word_less_nat_alt)
  have padded: "show_padded 9 (uint (nanos t)) = fixed_digits 9 (unat (nanos t))"
    using n by (simp add: show_padded_fixed)
  have tail: "list_all (\<lambda>c. c < 128) tail" "fraction tail = Some (nanos t, [90])"
  proof -
    show "list_all (\<lambda>c. c < 128) tail" by (simp add: tail_def padded digit_ascii trim_zeros_digits)
    show "fraction tail = Some (nanos t, [90])"
    proof (cases "0 < nanos t")
      case True
      then have "0 < unat (nanos t)" by (simp add: unat_gt_0 word_gt_0)
      then show ?thesis using True fraction_of_nanos [of "unat (nanos t)"] below by (simp add: tail_def padded)
    qed (simp add: tail_def fraction_def word_gt_0)
  qed
  have whole: "day_at era y doy * 86400 + hour c * 3600 + minute c * 60 + second c = sint (seconds t)"
    using civil_parts(1) [of "sint (seconds t)"] div_mult_mod_eq [of "sint (seconds t)" 86400] at(3)
    unfolding civil_time_of c_def SECONDS_PER_DAY_def by linarith
  have r: "0 \<le> year c" "year c \<le> 9999" "1 \<le> month c" "month c \<le> 12" "1 \<le> day c" "day c \<le> 31"
    "0 \<le> hour c" "hour c \<le> 23" "0 \<le> minute c" "minute c \<le> 59" "0 \<le> second c" "second c \<le> 59"
    using civil_ranges [of t] True by (simp_all add: c_def)
  have "to_rfc3339 t = stamp_text (nat (year c)) (nat (month c)) (nat (day c)) (nat (hour c)) (nat (minute c))
      (nat (second c)) tail"
    using to_rfc3339_stamp [of t] True by (simp add: c_def tail_def)
  moreover have "parse_rfc3339 \<dots> = time_new (seconds t) (nanos t)"
    using r v(1) tail small whole days_from_civil_at [OF at(1,2,4)] by (intro parse_stamp_text) simp_all
  ultimately have "parse_rfc3339 (to_rfc3339 t) = time_new (seconds t) (nanos t)" by simp
  then show ?thesis using assms True by (simp add: time_ok_def time_new_def not_le)
next
  case False
  then show ?thesis using parse_beyond [of t] by auto
qed

definition example_instant :: time_pair where
  "example_instant = \<lparr>seconds = 951782400, nanos = 500000000\<rparr>"

theorem instant_text_round_trip_witness:
  "parse_rfc3339 (to_rfc3339 example_instant) = Some example_instant"
proof -
  have "time_ok example_instant" by code_simp
  moreover have "year (civil_of example_instant) = 2000" by code_simp
  ultimately show ?thesis using instant_text_round_trip [of example_instant] by simp
qed

section \<open>Identifiers read back\<close>

lemma hex_digit_facts:
  assumes "n < 16"
  shows "hex_digit n < 128" "hex_digit n \<noteq> 45" "text_hex_value (hex_digit n) = Some n"
    "utf8_of_char (hex_digit n) = [hex_digit n]"
  using assms by (auto simp: hex_digit_def text_hex_value_def utf8_of_char_def)

lemma hex_of_byte:
  "unat (b :: u8) div 16 < 16" "unat b mod 16 < 16" "word_of_nat (unat b div 16 * 16 + unat b mod 16) = b"
  using unat_u8_less [of b] by simp_all

lemmas hex_simps = hex_digit_facts [OF hex_of_byte(1)] hex_digit_facts [OF hex_of_byte(2)]

lemma hex_of_byte_parts: "word_of_nat (unat (b :: u8) div 16) * 16 + word_of_nat (unat b mod 16) = b"
  using hex_of_byte(3) [of b] by (simp only: of_nat_add of_nat_mult of_nat_numeral)

lemma hex_pairs_shown: "hex_pairs (as_bytes (concat (map show_hex2 bs))) = Some bs"
  by (induction bs) (simp_all add: as_bytes_def show_hex2_def hex_simps hex_of_byte_parts)

lemma ustr_len_ascii: "list_all (\<lambda>c. c < 128) s \<Longrightarrow> ustr_len s = length s"
  by (induction s) (simp_all add: ustr_len_def)

lemma unhyphened:
  "filter (\<lambda>c. c \<noteq> 45) (concat (map (\<lambda>(i, b). (if i \<in> {4, 6, 8, 10} then [45] else []) @ show_hex2 b) (enumerate n bs)))
    = concat (map show_hex2 bs)"
  by (induction bs arbitrary: n) (simp_all add: show_hex2_def hex_simps)

lemma hyphened_ascii:
  "list_all (\<lambda>c. c < 128)
     (concat (map (\<lambda>(i, b). (if i \<in> {4, 6, 8, 10} then [45] else []) @ show_hex2 b) (enumerate n bs)))"
  by (induction bs arbitrary: n) (simp_all add: show_hex2_def hex_simps)

lemma plain_text_facts:
  "list_all (\<lambda>c. c < 128) (concat (map show_hex2 bs))" "length (concat (map show_hex2 bs)) = 2 * length bs"
  by (induction bs) (simp_all add: show_hex2_def hex_simps)

text \<open>The canonical form of an identifier and the same digits without hyphens both read back to its bytes.\<close>

theorem uuid_round_trip:
  assumes "length bs = 16"
  shows "parse_uuid (uuid_to_text bs) = Some bs" "parse_uuid (concat (map show_hex2 bs)) = Some bs"
proof -
  obtain b0 b1 b2 b3 b4 b5 b6 b7 b8 b9 b10 b11 b12 b13 b14 b15 where
    bs: "bs = [b0, b1, b2, b3, b4, b5, b6, b7, b8, b9, b10, b11, b12, b13, b14, b15]"
    using assms by (auto simp: length_Suc_conv numeral_eq_Suc)
  have ascii: "list_all (\<lambda>c. c < 128) (uuid_to_text bs)" unfolding uuid_to_text_def by (rule hyphened_ascii)
  have len: "length (uuid_to_text bs) = 36" by (simp add: bs uuid_to_text_def show_hex2_def)
  have "list_all (\<lambda>p. ustr_get (uuid_to_text bs) p (p + 1) = Some [45]) HYPHENS"
    by (simp add: HYPHENS_def ustr_get_ascii [OF ascii] len) (simp add: bs uuid_to_text_def show_hex2_def)
  then show "parse_uuid (uuid_to_text bs) = Some bs"
    using hex_pairs_shown [of bs] plain_text_facts [of bs] assms
    by (simp add: parse_uuid_def ustr_len_ascii ascii len uuid_to_text_def [symmetric]
        unhyphened [of 0 bs, folded uuid_to_text_def])
  show "parse_uuid (concat (map show_hex2 bs)) = Some bs"
    using hex_pairs_shown [of bs] plain_text_facts [of bs] assms by (simp add: parse_uuid_def ustr_len_ascii)
qed

end
