(* ===== verification/Spec2Isabelle.thy ===== *)
theory Spec2Isabelle
  imports Peer_Bodies Serving_Run Payload Order_Keys Election_Live Gate_Safe Texts
begin

text \<open>
TessariDB stores typed records in an ordered key-value substrate and gives every
record a chain of versions, numbered by the position of the log at which they
were written. This library models, in HOL, the layers of the program on which
every other one rests and proves what they promise to the layers above.

\<^bold>\<open>The parts and how they interact.\<close> A key-value backend
(\<^verbatim>\<open>crates/tessari-kv\<close>) keeps bytes under bytes in four keyspaces, answers
scans of ranges in byte order, and applies batches with preconditions
atomically. The key grammar (\<^verbatim>\<open>crates/tessari-encoding\<close>) turns typed addresses
into bytes whose order is the order of the addresses, and values into envelopes.
The storage layer (\<^verbatim>\<open>crates/tessari-storage\<close>) reads the versions of a record at
a snapshot by scanning the keys of its versions, newest first, and passes over
the versions of transactions across leaders that the reader does not see.

\<^bold>\<open>Theories.\<close>
  \<^item> Prelude: machine types, the error monad, byte order and list lemmas.
  \<^item> Kv_Keys: \<^verbatim>\<open>tessari-kv/src/{keyspace,error,key}.rs\<close>. A range built from a
    prefix holds exactly the keys with the prefix.
  \<^item> Key_Kinds: \<^verbatim>\<open>tessari-encoding/src/{kind,error}.rs\<close>. The table of key kinds.
  \<^item> Key_Order: \<^verbatim>\<open>tessari-encoding/src/order.rs\<close>. \<open>KeyWriter\<close> and \<open>KeyReader\<close>
    as records of a buffer and a cursor. The locales \<open>key_component\<close>,
    \<open>reader_codec\<close>, \<open>key_codec\<close> and \<open>key_canonical\<close> say what a component of a key
    promises (order, round trip, uniqueness); they are interpreted for every
    component of the grammar.
  \<^item> Reach: \<^verbatim>\<open>tessari-types/src/reach.rs\<close>. Containment is an order and \<open>join\<close> its
    least upper bound.
  \<^item> Store_Keys, Index_Keys, Order_Keys: \<^verbatim>\<open>keys.rs\<close>, \<^verbatim>\<open>record_id.rs\<close>,
    \<^verbatim>\<open>log_id.rs\<close>, \<^verbatim>\<open>keys/node.rs\<close>, \<^verbatim>\<open>transaction_key.rs\<close>, \<^verbatim>\<open>topic_key.rs\<close>,
    \<^verbatim>\<open>expiry_key.rs\<close>, \<^verbatim>\<open>modified_key.rs\<close> and \<^verbatim>\<open>adjacency.rs\<close>. Each key is encoded as
    the source writes it, and interpreted as a \<open>store_key\<close>: the order of the bytes is
    the order of the addresses, decoding undoes encoding, and the prefixes the
    program scans cover exactly what they are meant to.
  \<^item> Kv_Store: \<^verbatim>\<open>batch.rs\<close> and \<^verbatim>\<open>backend.rs\<close>. Batches and the default methods of the
    \<open>KvBackend\<close> trait over any backend; the locale \<open>kv_backend\<close> states the contract
    of the trait over an abstract store of maps.
  \<^item> Kv_Memory: \<^verbatim>\<open>memory.rs\<close>. The in-memory backend, which implements the contract.
  \<^item> Causal: \<^verbatim>\<open>causal.rs\<close>. Causal stamps and the versions that survive.
  \<^item> Across_Codec, Stamped_Value: \<^verbatim>\<open>value/across.rs\<close>, \<^verbatim>\<open>value/mod.rs\<close>,
    \<^verbatim>\<open>value/stamped.rs\<close>, \<^verbatim>\<open>value/expiry.rs\<close>. The byte form of a stored version.
  \<^item> Snapshot_Read: \<^verbatim>\<open>transaction/visible.rs\<close>, \<^verbatim>\<open>transaction/lifecycle/versions.rs\<close>
    and what they call. Reads at a snapshot over any backend.
  \<^item> Lease: \<^verbatim>\<open>tessari-storage/src/{lease,failover}.rs\<close>. The lease a leader writes under,
    the fence that closes a guard before it expires, and the failover policy.
  \<^item> Grant, Campaign: \<^verbatim>\<open>tessari-wire/src/grant.rs\<close>, \<^verbatim>\<open>grant/*.rs\<close>, \<^verbatim>\<open>campaign.rs\<close> and
    \<^verbatim>\<open>driver/leadership/renewing.rs\<close>. Ballots and votes, the memory of a voter, the
    round of a candidate, and the cursor a node stands on.
  \<^item> Election, Election_Safe, Election_Inv, Election_Reach, Election_Live: the nodes of
    a cluster as a step relation in which every node runs its campaign loop
    (\<^verbatim>\<open>tessari-cli/src/leadership_round.rs\<close>) and answers ballots, in any interleaving.
    Two nodes never hold an open lease on one line, an epoch has one winner, and runs in
    which a node comes to lead exist. Each node reads its own clock; the clocks
    are an argument, and what the guard is there for is a named hypothesis on them
    (\<open>clocks_keep\<close>). The set of voters is fixed, a voter does not restart within a
    run, and the lease of the policy is only lengthened.
  \<^item> Ordered_Map, Snapshots, Reclaim: \<^verbatim>\<open>snapshots.rs\<close>, \<^verbatim>\<open>reclaim.rs\<close> and the parts of
    \<^verbatim>\<open>store/parts.rs\<close> and \<^verbatim>\<open>store/logs.rs\<close> they serve. The sharded registry of live
    readers is shown to be the multiset of their snapshots, the floor it bounds is
    at or below every one of them, and a pass of reclaiming leaves every read at or
    above the floor as it was, of records none of whose plain versions stands over an
    intent.
  \<^item> Log_Record: \<^verbatim>\<open>value/log_record.rs\<close>. The batch a log entry carries and its bytes.
  \<^item> Intents: \<^verbatim>\<open>intents.rs\<close>, \<^verbatim>\<open>intents/unsettled.rs\<close> and \<^verbatim>\<open>catalog/carried.rs\<close>. What a log
    record of a transaction across leaders asks of the batch that lands it; runs of
    settled records are a step relation, in which an outcome is final. Where a row
    of the catalog travels is an argument.
  \<^item> Apply: \<^verbatim>\<open>log.rs\<close> and \<^verbatim>\<open>store/apply.rs\<close>. Landing a record of a log at its position.
    The schema check and what a record derives beyond its versions (indexes,
    adjacency, counts, expiry, topics) are arguments.
  \<^item> Log_Run: runs of that path over what peers offer, as a step relation. Every log is
    gap-free and append-only, and two stores with one epoch at one position of a log
    have the same log up to there.
  \<^item> Writer_Order: \<^verbatim>\<open>ordering.rs\<close>. A follower's round over pages of several logs: how far
    each page bounds its writer, the records picked and their order, and the apply.
    When what the leader states of each page is true, no record is applied before an
    earlier one of its writer, and what a round answers is what its logs hold. A round
    is a run of Log_Run.
  \<^item> Comparators, Value_Order, Payload: \<^verbatim>\<open>tessari-types/src/{value,number,time,geometry,nesting}.rs\<close>
    and \<^verbatim>\<open>tessari-encoding/src/payload.rs\<close> with its parts. The value language, its total
    order, and its byte form; the reader and a write agree on exactly which values
    exist. What the decimal library and float arithmetic answer is an argument.
  \<^item> Calendar, Texts: \<^verbatim>\<open>time.rs\<close>, \<^verbatim>\<open>calendar.rs\<close> and \<^verbatim>\<open>text.rs\<close> of tessari-types. Arithmetic on
    instants and spans is exact; the era arithmetic of the calendar is right on every
    day of four hundred years and so on every instant, both ways; texts of instants and
    identifiers are read back.
  \<^item> Frame: \<^verbatim>\<open>frame.rs\<close>, \<^verbatim>\<open>frame/codec.rs\<close> and \<^verbatim>\<open>frame_async.rs\<close> of tessari-wire and
    \<^verbatim>\<open>refusal_class.rs\<close> of tessari-types. A stream is the list of what a socket answers read by
    read, each after a wait; the loops of both readers are functions with measures.
    Their answers depend on the bytes alone and not on the pieces they arrive in.
  \<^item> Log_Feed, Collecting, Serving_Run, Peer_Bodies: \<^verbatim>\<open>store/history.rs\<close> of tessari-storage, and
    \<^verbatim>\<open>collection.rs\<close>, \<^verbatim>\<open>collection/{serving,collector}.rs\<close>, \<^verbatim>\<open>peer.rs\<close> and \<^verbatim>\<open>peer/hello.rs\<close> of
    tessari-wire. A leader fills an answer out of its log under the follower's limit and
    its own budget; the handler reads the store at several moments, an argument of the
    model each, and commits land between them. The steps of the leader's store are a
    relation, and along any run of them the page the follower makes of an answer proves
    what Writer_Order relies on, while the node leads and the log is not pruned; the bodies of both and of a greeting are read back as sent. Narrowing a
    record to a subscription loses what it is of a transaction across leaders, and an
    aborted one then deletes records.
  \<^item> Gate_Pending, Gate_Overlay, Gate_Run, Gate_Safe: \<^verbatim>\<open>gate.rs\<close>, \<^verbatim>\<open>gate/pending.rs\<close>,
    \<^verbatim>\<open>gate/overlay.rs\<close> and \<^verbatim>\<open>landed.rs\<close>. The turn of a writer, batches staged and landed in
    groups, and the reads of the writer that holds the turn. The overlay refines a
    backend that holds the pending writes, call by call: a read of several calls is given
    what is pending and the engine at the moment of each, and only its count can be wrong
    when a group lands in between. The runs of the gate are a step relation in which
    groups land, fail, panic or are abandoned at any point. Every batch asserts a version
    read when exactly what landed before it was visible; the other reads of the turn may
    have shown more only if a group fell short during it; answers are true and no commit
    is lost. What the engine does with a group is the contract of the trait.
\<^bold>\<open>How the code is translated.\<close> Structs are records, enums datatypes with the
source's constructors, integers words of their width, and \<open>Result\<close> a sum with the
error on the left; a panic of the source is an error value of its own. State is
passed explicitly, and an operation that takes \<open>&self\<close> over interior state returns
the state it leaves. Loops are structural recursions over the bytes or entries
they consume. The loops whose end depends on a store (the default count, the
default range delete, the walk down the versions of a record) are
\<open>partial_function (option)\<close>, so that not returning is the value \<open>None\<close>, and the
theorems show that they return. No fuel is used.

\<^bold>\<open>What is not modelled.\<close> Asynchrony and boxing of futures: an operation of a
backend runs to its answer under the lock it takes. Logging, metrics and display.
The catalog, the maintenance of the secondary indexes, the query language, the
session and the protocol surfaces are not modelled: they are front ends and
derived structures over the modelled codecs, reads and writes.

\<^bold>\<open>This theory\<close> joins the components: what a batch of the memory backend commits is
what a snapshot read answers, and a snapshot is stable under later writes.
\<close>

section \<open>Writes and reads together\<close>

lemma read_as_of_pairs:
  assumes "memory_ok s"
  shows "read_stamped_as_of (memory_scan s) passes d a at
    = Some (walk passes d (pairs_in (memory_maps s DATA) (as_of_range a at)))"
  using memory.first_in_range_walk [OF assms range_ok_as_of]
  by (simp add: read_stamped_as_of_def as_of_range_def)

subsection \<open>What a batch leaves a reader\<close>

text \<open>A reader has settled a transaction across leaders when it resolves it itself or has
decided about it already.\<close>

definition settled_for :: "reader \<Rightarrow> decided \<Rightarrow> transaction_id \<Rightarrow> bool" where
  "settled_for rd d t \<longleftrightarrow> resolution_of rd t \<noteq> None \<or> d t \<noteq> None"

lemma passes_over_settled:
  assumes "\<And>p. sv_provenance v = Some p \<Longrightarrow> settled_for rd d (prov_transaction p)"
  shows "passes_over get asks rd d v = passes_over get' asks' rd d v"
    and "fst (passes_over get asks rd d v) = d"
  using assms
  by (auto simp: passes_over_def sees_def settled_for_def split: option.split prod.split sum.split)

lemma newest_seen_settled:
  assumes "\<And>x p. x \<in> set vs \<Longrightarrow> sv_provenance (snd x) = Some p \<Longrightarrow> settled_for rd d (prov_transaction p)"
  shows "newest_seen (passes_over get asks rd) d vs = newest_seen (passes_over get' asks' rd) d vs"
  using assms
proof (induction vs)
  case (Cons x vs)
  obtain n v where x: "x = (n, v)" by (cases x)
  have v: "\<And>p. sv_provenance v = Some p \<Longrightarrow> settled_for rd d (prov_transaction p)"
    using Cons.prems [of x] by (simp add: x)
  have same: "passes_over get asks rd d v = passes_over get' asks' rd d v"
    using v by (rule passes_over_settled)
  have kept: "fst (passes_over get' asks' rd d v) = d" using v by (rule passes_over_settled)
  have "newest_seen (passes_over get asks rd) d vs = newest_seen (passes_over get' asks' rd) d vs"
    by (rule Cons.IH) (use Cons.prems in auto)
  then show ?case using kept by (auto simp: x same split: prod.split sum.split)
qed simp

definition names_no_transaction :: "write_batch \<Rightarrow> bool" where
  "names_no_transaction b \<longleftrightarrow> list_all (\<lambda>op. op_keyspace op = META \<longrightarrow>
     hd (op_key op) \<noteq> tag TransactionRecord \<and> hd (op_key op) \<noteq> tag AcrossPart) (ops b)"

lemma passes_over_unnamed:
  assumes "memory_ok s" "memory_apply s b = (t, r)" "names_no_transaction b"
  shows "passes_over (memory_get t) asks rd = passes_over (memory_get s) asks rd"
proof -
  note t = memory_apply_maps [OF assms(1,2)]
  have keep: "memory_maps t META k = memory_maps s META k" if "hd k \<in> {tag TransactionRecord, tag AcrossPart}" for k
  proof -
    have "map_ops (ops b) (memory_maps s) META k = memory_maps s META k"
      using assms(3) that by (intro map_ops_elsewhere) (auto simp: names_no_transaction_def list_all_iff)
    then show ?thesis by (simp add: t(2))
  qed
  show ?thesis
    by (rule passes_over_cong)
      (simp_all add: memory_get_map t(1) assms(1) keep transaction_record_bytes across_part_bytes)
qed

subsection \<open>What a record leaves of the versions\<close>

definition mutation_key :: "sequence \<Rightarrow> mutation \<Rightarrow> record_key" where
  "mutation_key n x = \<lparr>rk_namespace = mu_namespace x, rk_database = mu_database x, rk_table = mu_table x,
     rk_id = mu_id x, rk_version = n\<rparr>"

text \<open>The versions a store holds once a record is written at a version.\<close>

definition with_mutations ::
  "sequence \<Rightarrow> mutation list \<Rightarrow> (record_key \<rightharpoonup> stamped_value) \<Rightarrow> (record_key \<rightharpoonup> stamped_value)" where
  "with_mutations n ms V = foldl (\<lambda>V x. V(mutation_key n x \<mapsto> mu_value x)) V ms"

definition off_data :: "write_op \<Rightarrow> bool" where
  "off_data op \<longleftrightarrow> op_keyspace op \<noteq> DATA"

text \<open>What is derived from a record goes to other keyspaces, as an index entry does, or is a
version of another record, as the count of a table's records and the counter of an id
are.\<close>

definition beside :: "record_address \<Rightarrow> write_op \<Rightarrow> bool" where
  "beside a op \<longleftrightarrow> off_data op
    \<or> (\<exists>k u. op = Put DATA (record_key_encode k) (stamped_encode u) \<and> record_key_wf k \<and> address_of k \<noteq> a
         \<and> stamped_wf u \<and> as_written u = u)"

definition derives_beside :: "record_address \<Rightarrow> 's store_env \<Rightarrow> log_record \<Rightarrow> bool" where
  "derives_beside a env r \<longleftrightarrow>
    (\<forall>s b v b'. env_derive env s r b v = Inr b' \<longrightarrow> appends (beside a) b b')"

lemma off_data_keeps: "list_all off_data os \<Longrightarrow> map_ops os m DATA = m DATA"
  by (intro map_ops_other) (auto simp: list_all_iff off_data_def)

lemma beside_keeps:
  assumes "list_all (beside a) os" "m DATA = data_of V" "versions_wf V"
  shows "\<exists>V'. map_ops os m DATA = data_of V' \<and> versions_wf V' \<and> (\<forall>n. V' (key_at a n) = V (key_at a n))"
  using assms
proof (induction os arbitrary: m V)
  case (Cons op os)
  have "\<exists>W. map_op m op DATA = data_of W \<and> versions_wf W \<and> (\<forall>n. W (key_at a n) = V (key_at a n))"
  proof (cases "off_data op")
    case True
    then have "map_op m op DATA = m DATA" using off_data_keeps [of "[op]" m] by simp
    then show ?thesis using Cons.prems by auto
  next
    case False
    then obtain k u where k: "op = Put DATA (record_key_encode k) (stamped_encode u)" "record_key_wf k"
      "address_of k \<noteq> a" "stamped_wf u" "as_written u = u"
      using Cons.prems(1) by (auto simp: beside_def)
    have "map_op m op DATA = data_of (V(k \<mapsto> u))"
      using Cons.prems(2) by (simp add: k(1) data_of_update [OF k(2)])
    moreover have "key_at a n \<noteq> k" for n using k(3) by (auto simp: address_of_def key_at_def)
    ultimately show ?thesis
      using Cons.prems(3) k(4,5) by (intro exI [of _ "V(k \<mapsto> u)"]) (auto simp: versions_wf_def)
  qed
  then obtain W where W: "map_op m op DATA = data_of W" "versions_wf W" "\<And>n. W (key_at a n) = V (key_at a n)"
    by blast
  obtain V' where "map_ops os (map_op m op) DATA = data_of V'" "versions_wf V'"
    "\<And>n. V' (key_at a n) = W (key_at a n)"
    using Cons.IH [of "map_op m op" W] Cons.prems(1) W(1,2) by auto
  then show ?case using W(3) by (intro exI [of _ V']) simp
qed auto

lemma put_mutation_data:
  assumes "mutation_wf x" "map_ops (ops b) m DATA = data_of V"
  shows "map_ops (ops (put_mutation_version n b x)) m DATA = data_of (V(mutation_key n x \<mapsto> mu_value x))"
proof -
  have "record_key_wf (mutation_key n x)"
    using assms(1) by (simp add: mutation_wf_def record_key_wf_def mutation_key_def)
  moreover have "keyspace_of ResolvedOf \<noteq> DATA" by simp
  ultimately show ?thesis
    using assms(2)
    by (auto simp: put_mutation_version_def Let_def batch_put_def map_ops_append mutation_key_def [symmetric]
        data_of_update [symmetric] split: option.split)
qed

lemma put_mutations_data:
  assumes "list_all mutation_wf ms" "map_ops (ops b) m DATA = data_of V"
  shows "map_ops (ops (foldl (put_mutation_version n) b ms)) m DATA = data_of (with_mutations n ms V)"
  using assms
proof (induction ms arbitrary: b V)
  case (Cons x ms)
  then show ?case using put_mutation_data [of x b m V n] by (simp add: with_mutations_def)
qed (simp add: with_mutations_def)

lemma apply_batch_data:
  assumes "log_record_wf r" "lr_across r = None" "m DATA = data_of V"
  shows "map_ops (ops (apply_batch lg pos n r)) m DATA = data_of (with_mutations n (mutations r) V)"
proof -
  obtain b where b: "apply_batch lg pos n r = put_records b n r" "list_all off_data (ops b)"
    by (simp add: apply_batch_def Let_def off_data_def batch_put_def expect_value_def expect_absent_def batch_new_def
        split: if_splits)
  show ?thesis
    using put_mutations_data [of "mutations r" b m V n] off_data_keeps [OF b(2)] assms
    by (simp add: b(1) put_records_def writes_versions_def log_record_wf_def)
qed

lemma with_mutations_wf:
  assumes "list_all mutation_wf ms" "versions_wf V"
  shows "versions_wf (with_mutations n ms V)"
  using assms
proof (induction ms arbitrary: V)
  case (Cons x ms)
  have "versions_wf (V(mutation_key n x \<mapsto> mu_value x))"
    using Cons.prems by (auto simp: versions_wf_def mutation_wf_def)
  then show ?case using Cons by (simp add: with_mutations_def)
qed (simp add: with_mutations_def)

lemma with_mutations_other:
  "rk_version k \<noteq> n \<Longrightarrow> with_mutations n ms V k = V k"
proof (induction ms arbitrary: V)
  case (Cons x ms)
  then show ?case by (auto simp: with_mutations_def mutation_key_def)
qed (simp add: with_mutations_def)

text \<open>Of several mutations of one record the last is what is left.\<close>

lemma with_mutations_last:
  assumes "\<forall>y \<in> set ys. mutation_key n y \<noteq> mutation_key n x"
  shows "with_mutations n (xs @ x # ys) V (mutation_key n x) = Some (mu_value x)"
proof -
  have "with_mutations n ys W (mutation_key n x) = W (mutation_key n x)" for W
    using assms
  proof (induction ys arbitrary: W)
    case (Cons y ys)
    then show ?case by (auto simp: with_mutations_def)
  qed (simp add: with_mutations_def)
  then show ?thesis by (simp add: with_mutations_def)
qed

lemma derive_and_land_maps:
  assumes "over_memory env" "derives_beside a env r" "memory_ok s" "lr_across r = None"
    and "derive_and_land env r b n w s = (t, Inr ())"
  shows "memory_ok t"
    "\<exists>os. memory_maps t = map_ops os (map_ops (ops b) (memory_maps s)) \<and> list_all (beside a) os"
proof -
  obtain c where c: "env_derive env s r b n = Inr c" "memory_apply s c = (t, Inr ())"
    using assms(1,4,5)
    by (auto simp: derive_and_land_def settle_def derives_nothing_def landed_result_def over_memory_def
        split: sum.splits prod.splits)
  obtain os where os: "ops c = ops b @ os" "list_all (beside a) os"
    using assms(2) c(1) unfolding derives_beside_def appends_def by blast
  note t = memory_apply_maps [OF assms(3) c(2)]
  show "memory_ok t" by (rule t(1))
  show "\<exists>os. memory_maps t = map_ops os (map_ops (ops b) (memory_maps s)) \<and> list_all (beside a) os"
    using os(2) by (intro exI [of _ os]) (simp add: t(2) os(1) map_ops_append)
qed

section \<open>Properties\<close>

text \<open>C10: a snapshot is stable.  Whatever batch is applied, landed or refused, a read of a
record at a snapshot answers afterwards what it answered before, provided the batch
names no version of the record at or before the snapshot, and provided it either writes
no record of a transaction across leaders and no marker of a part of one, or the reader
has already settled every transaction the versions up to its snapshot belong to.
The leaders a reader may ask answer as they did.\<close>

theorem snapshot_is_stable:
  assumes "memory_ok s" "memory_maps s DATA = data_of V" "versions_wf V" "record_id_wf (ra_id a)"
    and b: "memory_apply s b = (t, r)"
    and later: "\<And>op. op \<in> set (ops b) \<Longrightarrow> op_keyspace op = DATA \<Longrightarrow>
      \<exists>k. record_key_wf k \<and> op_key op = record_key_encode k \<and> (address_of k \<noteq> a \<or> at < rk_version k)"
    and seen: "names_no_transaction b \<or> (\<forall>n v p. n \<le> at \<and> V (key_at a n) = Some v \<and> sv_provenance v = Some p
      \<longrightarrow> settled_for rd d (prov_transaction p))"
  shows "read_stamped_as_of (memory_scan t) (passes_over (memory_get t) asks rd) d a at
    = read_stamped_as_of (memory_scan s) (passes_over (memory_get s) asks rd) d a at"
proof -
  note t = memory_apply_maps [OF assms(1) b]
  have "memory_maps t DATA k = memory_maps s DATA k" if "in_range (as_of_range a at) k" for k
  proof -
    have "op_key op \<noteq> k" if op: "op \<in> set (ops b)" "op_keyspace op = DATA" for op
      using later [OF op] \<open>in_range (as_of_range a at) k\<close> as_of_range_exact [OF assms(4)] by fastforce
    then show ?thesis by (simp add: t(2) map_ops_elsewhere)
  qed
  then have same: "pairs_in (memory_maps t DATA) (as_of_range a at)
      = pairs_in (memory_maps s DATA) (as_of_range a at)" by (rule pairs_in_cong)
  show ?thesis
  proof (cases "names_no_transaction b")
    case True
    then show ?thesis using same passes_over_unnamed [OF assms(1) b]
      by (simp add: read_as_of_pairs assms(1) t(1))
  next
    case False
    then have settled: "\<forall>n v p. n \<le> at \<and> V (key_at a n) = Some v \<and> sv_provenance v = Some p
      \<longrightarrow> settled_for rd d (prov_transaction p)" using seen by blast
    have f: "finite (dom (data_of V))" using memory.finite_maps [OF assms(1), of DATA] assms(2) by simp
    obtain vs where vs: "pairs_in (data_of V) (as_of_range a at) =
        map (\<lambda>n. (record_key_encode (key_at a n), stamped_encode (the (V (key_at a n))))) vs"
      "set vs = {n. n \<le> at \<and> V (key_at a n) \<noteq> None}"
      using as_of_pairs [OF f assms(4)] by blast
    have "walk passes d (pairs_in (data_of V) (as_of_range a at))
        = newest_seen passes d (map (\<lambda>n. (n, the (V (key_at a n)))) vs)" for passes
      unfolding vs(1) using vs(2) by (intro walk_newest_seen [OF assms(4,3)]) simp
    moreover have "newest_seen (passes_over (memory_get t) asks rd) d (map (\<lambda>n. (n, the (V (key_at a n)))) vs)
        = newest_seen (passes_over (memory_get s) asks rd) d (map (\<lambda>n. (n, the (V (key_at a n)))) vs)"
      using settled vs(2) by (intro newest_seen_settled) auto
    ultimately show ?thesis using same by (simp add: read_as_of_pairs assms(1,2) t(1))
  qed
qed

theorem snapshot_is_stable_witness:
  "\<exists>t. read_stamped_as_of (memory_scan t) (passes_over (memory_get t) (\<lambda>_ _. None)
        \<lparr>snapshot = 4, resolving = None, asks_leaders = False, served = None\<rparr>) Map.empty
      \<lparr>ra_namespace = 1, ra_database = 1, ra_table = 1, ra_id = IdInt 1\<rparr> 4
    = read_stamped_as_of (memory_scan memory_new) (passes_over (memory_get memory_new) (\<lambda>_ _. None)
        \<lparr>snapshot = 4, resolving = None, asks_leaders = False, served = None\<rparr>) Map.empty
      \<lparr>ra_namespace = 1, ra_database = 1, ra_table = 1, ra_id = IdInt 1\<rparr> 4
    \<and> memory_apply memory_new (batch_put DATA
        (record_key_encode (key_at \<lparr>ra_namespace = 1, ra_database = 1, ra_table = 1, ra_id = IdInt 1\<rparr> 5))
        [] batch_new) = (t, Inr ())"
proof -
  let ?a = "\<lparr>ra_namespace = 1, ra_database = 1, ra_table = 1, ra_id = IdInt 1\<rparr>"
  let ?b = "batch_put DATA (record_key_encode (key_at ?a 5)) [] batch_new"
  obtain t where t: "memory_apply memory_new ?b = (t, Inr ())"
    using memory_apply_cases [OF memory_ok_new, of ?b] by (auto simp: batch_put_def batch_new_def)
  have "record_key_wf (key_at ?a 5)" "(4 :: u64) < rk_version (key_at ?a 5)"
    by (simp_all add: key_at_def record_key_wf_def)
  then have "\<exists>k. record_key_wf k \<and> op_key op = record_key_encode k
      \<and> (address_of k \<noteq> ?a \<or> 4 < rk_version k)" if "op \<in> set (ops ?b)" for op
    using that by (auto simp: batch_put_def batch_new_def)
  moreover have "names_no_transaction ?b" by (simp add: names_no_transaction_def batch_put_def batch_new_def)
  moreover have "memory_maps memory_new DATA = data_of Map.empty" "versions_wf Map.empty"
    by (simp_all add: memory_maps_new versions_wf_def)
  ultimately show ?thesis
    using snapshot_is_stable [OF memory_ok_new _ _ _ t, of Map.empty ?a 4] t by auto
qed

text \<open>C9: what was committed is read.  Once the batch of a log record outside transactions
across leaders has landed at a version, as a commit lands it and as a follower applies
it, with whatever was derived from it but another version of the same record: a read of
a record it wrote, at that version or at any later one before the record's next version,
answers that version and the value of the last mutation of the record in it.\<close>

theorem committed_version_is_read:
  assumes env: "over_memory env" "derives_beside (address_of (mutation_key n x)) env r"
    and s: "memory_ok s" "memory_maps s DATA = data_of V" "versions_wf V"
    and r: "log_record_wf r" "lr_across r = None" "mutations r = xs @ x # ys"
      "\<forall>y \<in> set ys. mutation_key n y \<noteq> mutation_key n x" "sv_provenance (mu_value x) = None"
    and t: "derive_and_land env r (apply_batch lg pos n r) n w s = (t, Inr ())"
    and at: "n \<le> at" "\<And>m. n < m \<Longrightarrow> m \<le> at \<Longrightarrow> V (mutation_key m x) = None"
  shows "read_stamped_as_of (memory_scan t) (passes_over get asks rd) d (address_of (mutation_key n x)) at
    = Some (d, Inr (Some (n, mu_value x)))"
proof -
  let ?a = "address_of (mutation_key n x)" and ?W = "with_mutations n (mutations r) V"
  have key: "key_at ?a m = mutation_key m x" for m by (simp add: key_at_def address_of_def mutation_key_def)
  have wf: "list_all mutation_wf (mutations r)" using r(1) by (simp add: log_record_wf_def)
  have a: "record_id_wf (ra_id ?a)" using wf r(3) by (simp add: address_of_def mutation_key_def mutation_wf_def)
  obtain os where t': "memory_ok t" "memory_maps t = map_ops os (map_ops (ops (apply_batch lg pos n r)) (memory_maps s))"
    "list_all (beside ?a) os"
    using derive_and_land_maps [OF env s(1) r(2) t] by blast
  have W: "map_ops (ops (apply_batch lg pos n r)) (memory_maps s) DATA = data_of ?W"
    using apply_batch_data [of r "memory_maps s" V lg pos n] r(1,2) s(2) by simp
  obtain V' where V': "memory_maps t DATA = data_of V'" "versions_wf V'" "\<And>m. V' (mutation_key m x) = ?W (mutation_key m x)"
    using beside_keeps [OF t'(3), of "map_ops (ops (apply_batch lg pos n r)) (memory_maps s)" ?W] W
      with_mutations_wf [OF wf s(3)] unfolding t'(2) [symmetric] key by blast
  have Vn: "V' (mutation_key n x) = Some (mu_value x)"
    unfolding V'(3) r(3) using r(4) by (rule with_mutations_last)
  have Vm: "V' (mutation_key m x) = V (mutation_key m x)" if "m \<noteq> n" for m
    unfolding V'(3) using that by (intro with_mutations_other) (simp add: mutation_key_def)
  let ?val = "\<lambda>m. (m, the (V' (mutation_key m x)))"
  obtain vs where vs: "read_stamped_as_of (memory_scan t) (passes_over get asks rd) d ?a at
      = Some (newest_seen (passes_over get asks rd) d (map ?val vs))"
    "sorted_wrt (>) vs" "set vs = {m. m \<le> at \<and> V' (mutation_key m x) \<noteq> None}"
    using memory.read_as_of_newest_seen [OF t'(1) V'(1,2) a] unfolding key by blast
  have "n \<in> set vs" using vs(3) at(1) Vn by simp
  then obtain k ks where ks: "vs = k # ks" by (cases vs) auto
  have "m \<le> n" if "m \<in> set vs" for m
    using that vs(3) at(2) [of m] Vm [of m] by (cases "n < m") auto
  then have "k = n" using ks vs(2) \<open>n \<in> set vs\<close> by fastforce
  then show ?thesis using vs(1) ks r(5) Vn by (simp add: passes_over_def)
qed

text \<open>The example: the first record of a log, written to a store at version zero.\<close>

definition example_mutation :: mutation where
  "example_mutation = \<lparr>mu_namespace = 1, mu_database = 1, mu_table = 1, mu_id = IdInt 1, mu_shard = None,
     mu_value = stamped_new (Present [9])\<rparr>"

theorem committed_version_is_read_witness:
  "\<exists>t. apply_at example_env (log_line Store) 1 (log_record_new [example_mutation]) seeded = (t, Inr ())
    \<and> read_stamped_as_of (memory_scan t)
      (passes_over (\<lambda>_ _. Inr None) (\<lambda>_ _. None)
        \<lparr>snapshot = 7, resolving = None, asks_leaders = False, served = None\<rparr>)
      Map.empty (address_of (mutation_key 1 example_mutation)) 7
    = Some (Map.empty, Inr (Some (1, stamped_new (Present [9]))))"
proof -
  let ?r = "log_record_new [example_mutation]" and ?l = "log_line Store"
  have z: "(0::u64) \<noteq> - 1" by simp
  have r: "log_record_wf ?r" "lr_across ?r = None" "mutations ?r = [] @ example_mutation # []"
    "sv_provenance (mu_value example_mutation) = None" "mu_value example_mutation = stamped_new (Present [9])"
    by (simp_all add: log_record_wf_def log_record_new_def log_record_at_def mutation_wf_def example_mutation_def
        stamped_wf_def stamp_wf_def fields_wf_def stamped_new_def stamp_new_def as_written_def expires_def
        field_expiry_def stamped_encode_def Let_def with_header_def)
  obtain t where t: "apply_at example_env ?l (0 + 1) ?r seeded = (t, Inr ())"
    by (rule memory.next_lands [OF seeded(1) example(1) [unfolded over_memory] example(2,4) seeded_holds
        z r(2) example(3) seeded(2) z])
  have get: "env_get example_env seeded = memory_get seeded" "env_validate example_env seeded ?r = Inr ()"
    by (simp_all add: example_env_def)
  have tail: "committed_tail (memory_get seeded) ?l = Inr 0"
    by (rule memory.committed_tail_holds [OF seeded(1) seeded_holds])
  have newest: "committed_version (memory_get seeded) = Inr 0"
    using seeded(1,2) by (simp add: committed_version_def get_decoded_def memory_get_map version_key_def
        sequence_round_trip)
  have land: "derive_and_land example_env ?r (apply_batch ?l 1 1 ?r) 1 (Some (?l, 1)) seeded = (t, Inr ())"
    using t by (simp add: apply_at_def get tail newest saturating_next_def)
  have "memory_maps seeded DATA = data_of Map.empty"
  proof -
    have "memory_apply memory_new (batch_put META version_key (sequence_encode 0) batch_new) = (seeded, Inr ())"
      by (rule one_key_store [of version_key "sequence_encode 0"]) (simp add: seeded_def)
    then show ?thesis
      using memory_apply_maps(2) [OF memory_ok_new] by (simp add: batch_put_def batch_new_def memory_maps_new)
  qed
  moreover have "derives_beside a example_env ?r" for a by (simp add: derives_beside_def example_env_def)
  ultimately show ?thesis
    using committed_version_is_read [OF example(1) _ seeded(1) _ _ r(1-3) _ r(4) land, of Map.empty 7] t r(5)
    by (auto simp: versions_wf_def)
qed

end
